(* ===== verification/Prelude.thy ===== *)
theory Prelude
  imports Main "HOL-Library.Word" "HOL-Library.AList" "HOL-Library.Multiset"
begin

text \<open>
  What the components share: the machine types of the C++ code (\<open>uint64_t\<close>, \<open>idx_t\<close>,
  \<open>sel_t\<close>), the exceptions the code throws as values of an error type, the little-endian
  byte image of an integer, \<open>std::unordered_map\<close> as an association list with distinct keys,
  and the facts about lists, words and two's complement integers the component proofs use.
\<close>

unbundle bit_operations_syntax

named_theorems duck_defs \<open>definitions that a component proof unfolds together\<close>
named_theorems duck_inv \<open>preservation of the component invariants\<close>

type_synonym u64 = "64 word"
type_synonym idx_t = nat

section \<open>Exceptions\<close>

text \<open>
  The exception classes of \<open>duckdb/common/exception.hpp\<close> that the modelled code throws, and
  \<open>Undefined\<close> for undefined behaviour of the native code (a division by zero, a load through
  a null pointer), which no handler can catch.
\<close>

datatype error =
    InternalException
  | OutOfRangeException
  | ConversionException
  | InvalidInputException
  | NotImplementedException
  | InvalidTypeException
  | SerializationException
  | Undefined

type_synonym 'a result = "error + 'a"

definition bindE :: "'a result \<Rightarrow> ('a \<Rightarrow> 'b result) \<Rightarrow> 'b result" where
  "bindE m f = (case m of Inl e \<Rightarrow> Inl e | Inr x \<Rightarrow> f x)"

lemma bindE_simps [simp]:
  "bindE (Inl e) f = Inl e"
  "bindE (Inr x) f = f x"
  by (simp_all add: bindE_def)

lemma bindE_Inr_iff: "bindE m f = Inr y \<longleftrightarrow> (\<exists>x. m = Inr x \<and> f x = Inr y)"
  by (cases m) simp_all

fun mapE :: "('a \<Rightarrow> 'b result) \<Rightarrow> 'a list \<Rightarrow> 'b list result" where
  "mapE f [] = Inr []"
| "mapE f (x # xs) = bindE (f x) (\<lambda>y. bindE (mapE f xs) (\<lambda>ys. Inr (y # ys)))"

lemma mapE_length: "mapE f xs = Inr ys \<Longrightarrow> length ys = length xs"
  by (induction xs arbitrary: ys) (auto simp: bindE_Inr_iff)

lemma mapE_total: "(\<And>x. x \<in> set xs \<Longrightarrow> f x = Inr (g x)) \<Longrightarrow> mapE f xs = Inr (map g xs)"
  by (induction xs) auto

text \<open>A loop whose body may throw.\<close>

fun foldE :: "('a \<Rightarrow> 's \<Rightarrow> 's result) \<Rightarrow> 'a list \<Rightarrow> 's \<Rightarrow> 's result" where
  "foldE f [] s = Inr s"
| "foldE f (x # xs) s = bindE (f x s) (foldE f xs)"

lemma foldE_append: "foldE f (xs @ ys) s = bindE (foldE f xs s) (foldE f ys)"
proof (induction xs arbitrary: s)
  case (Cons x xs)
  then show ?case by (cases "f x s") simp_all
qed simp

lemma foldE_concat: "foldE (\<lambda>xs. foldE f xs) xss s = foldE f (concat xss) s"
proof (induction xss arbitrary: s)
  case (Cons xs xss)
  then show ?case by (cases "foldE f xs s") (simp_all add: foldE_append)
qed simp

lemma foldE_cong: "(\<And>x s. x \<in> set xs \<Longrightarrow> f x s = g x s) \<Longrightarrow> foldE f xs s = foldE g xs s"
proof (induction xs arbitrary: s)
  case (Cons x xs)
  then show ?case by (cases "g x s") simp_all
qed simp

lemma foldE_map: "foldE f (map h xs) s = foldE (\<lambda>x. f (h x)) xs s"
proof (induction xs arbitrary: s)
  case (Cons x xs)
  then show ?case by (cases "f (h x) s") simp_all
qed simp

section \<open>Byte images\<close>

text \<open>The object representation of an unsigned integer on a little-endian machine.\<close>

fun le_bytes :: "nat \<Rightarrow> nat \<Rightarrow> 8 word list" where
  "le_bytes 0 v = []"
| "le_bytes (Suc n) v = word_of_nat (v mod 256) # le_bytes n (v div 256)"

lemma length_le_bytes [simp]: "length (le_bytes n v) = n"
  by (induction n arbitrary: v) auto

lemma le_bytes_inject:
  "v < 256 ^ n \<Longrightarrow> w < 256 ^ n \<Longrightarrow> le_bytes n v = le_bytes n w \<longleftrightarrow> v = w"
proof (induction n arbitrary: v w)
  case 0
  then show ?case by simp
next
  case (Suc n)
  have lo: "(word_of_nat (v mod 256) :: 8 word) = word_of_nat (w mod 256) \<longleftrightarrow> v mod 256 = w mod 256"
    by (simp add: word_of_nat_eq_iff take_bit_eq_mod)
  have hi: "v div 256 < 256 ^ n" "w div 256 < 256 ^ n"
    using Suc.prems by (simp_all add: less_mult_imp_div_less mult.commute)
  have "v = w \<longleftrightarrow> v mod 256 = w mod 256 \<and> v div 256 = w div 256"
    by (metis div_mult_mod_eq)
  then show ?case
    using Suc.IH [OF hi] lo by auto
qed

lemma unat64_less: "unat (w :: u64) < 256 ^ 8"
  using unsigned_less [of w] by simp

lemma le_bytes_u64_inject [simp]: "le_bytes 8 (unat (v :: u64)) = le_bytes 8 (unat w) \<longleftrightarrow> v = w"
  by (simp add: le_bytes_inject [OF unat64_less unat64_less] word_unat_eq_iff)

text \<open>Reading the image back.\<close>

fun le_nat :: "8 word list \<Rightarrow> nat" where
  "le_nat [] = 0"
| "le_nat (b # bs) = unat b + 256 * le_nat bs"

lemma le_nat_le_bytes [simp]: "v < 256 ^ n \<Longrightarrow> le_nat (le_bytes n v) = v"
proof (induction n arbitrary: v)
  case (Suc n)
  have "v div 256 < 256 ^ n"
    using Suc.prems by (simp add: less_mult_imp_div_less mult.commute)
  then show ?case
    using Suc.IH by (simp add: unat_of_nat)
qed simp

text \<open>Two concatenations agree when their equally long first parts and their rests agree.\<close>

lemma le_bytes_append_eq:
  "le_bytes n v @ xs = le_bytes n w @ ys \<longleftrightarrow> le_bytes n v = le_bytes n w \<and> xs = ys"
  by (simp add: append_eq_append_conv)

section \<open>Unordered maps\<close>

text \<open>
  \<open>std::unordered_map\<close> is an association list with distinct keys: its order stands for the
  unspecified iteration order. \<open>find\<close> is \<open>map_of\<close>, \<open>m[k] = v\<close> is \<open>AList.update\<close> and
  \<open>erase\<close> is \<open>AList.delete\<close>.
\<close>

type_synonym ('k, 'v) umap = "('k \<times> 'v) list"

definition um_wf :: "('k, 'v) umap \<Rightarrow> bool" where
  "um_wf m \<longleftrightarrow> distinct (map fst m)"

lemma um_wf_simps [simp]:
  "um_wf []"
  "um_wf m \<Longrightarrow> um_wf (AList.update k v m)"
  "um_wf m \<Longrightarrow> um_wf (AList.delete k m)"
  by (simp_all add: um_wf_def distinct_update distinct_delete)

lemma um_find_update [simp]: "map_of (AList.update k v m) k' = (if k' = k then Some v else map_of m k')"
  by (simp add: update_conv')

lemma um_find_delete [simp]: "map_of (AList.delete k m) k' = (if k' = k then None else map_of m k')"
  by (simp add: delete_conv')

lemma um_length_update:
  "um_wf m \<Longrightarrow> length (AList.update k v m) = (if k \<in> dom (map_of m) then length m else Suc (length m))"
  by (induction m) (auto simp: um_wf_def)

lemma um_keys_dom: "fst ` set m = dom (map_of m)"
  by (simp add: dom_map_of_conv_image_fst)

lemma um_length_card: "um_wf m \<Longrightarrow> length m = card (dom (map_of m))"
  by (metis card_image distinct_card distinct_map length_map list.set_map um_keys_dom um_wf_def)

lemma um_mem_iff: "um_wf m \<Longrightarrow> (k, v) \<in> set m \<longleftrightarrow> map_of m k = Some v"
  by (simp add: um_wf_def)

section \<open>Sorting\<close>

text \<open>
  \<open>std::sort\<close> with a comparator. The standard asks for a strict weak order, which is the locale
  below; the result is then a permutation in which no element is less than an earlier one.
\<close>

fun insert_by :: "('a \<Rightarrow> 'a \<Rightarrow> bool) \<Rightarrow> 'a \<Rightarrow> 'a list \<Rightarrow> 'a list" where
  "insert_by lt x [] = [x]"
| "insert_by lt x (y # ys) = (if lt y x then y # insert_by lt x ys else x # y # ys)"

definition std_sort :: "('a \<Rightarrow> 'a \<Rightarrow> bool) \<Rightarrow> 'a list \<Rightarrow> 'a list" where
  "std_sort lt xs = foldr (insert_by lt) xs []"

lemma mset_insert_by [simp]: "mset (insert_by lt x ys) = add_mset x (mset ys)"
  by (induction ys) auto

lemma mset_std_sort [simp]: "mset (std_sort lt xs) = mset xs"
  by (induction xs) (auto simp: std_sort_def)

lemma set_std_sort [simp]: "set (std_sort lt xs) = set xs"
  by (metis mset_std_sort set_mset_mset)

lemma length_std_sort [simp]: "length (std_sort lt xs) = length xs"
  by (metis mset_std_sort size_mset)

lemma distinct_std_sort [simp]: "distinct (std_sort lt xs) = distinct xs"
  by (metis mset_std_sort mset_eq_imp_distinct_iff)

locale strict_weak_order =
  fixes lt :: "'a \<Rightarrow> 'a \<Rightarrow> bool"
  assumes lt_asym: "lt a b \<Longrightarrow> \<not> lt b a"
    and lt_negtrans: "\<not> lt a b \<Longrightarrow> \<not> lt b c \<Longrightarrow> \<not> lt a c"
begin

lemma sorted_insert_by:
  "sorted_wrt (\<lambda>a b. \<not> lt b a) ys \<Longrightarrow> sorted_wrt (\<lambda>a b. \<not> lt b a) (insert_by lt x ys)"
proof (induction ys)
  case Nil
  then show ?case by simp
next
  case (Cons y ys)
  have set_ins: "set (insert_by lt x ys) = insert x (set ys)"
    by (metis mset_insert_by set_mset_add_mset_insert set_mset_mset)
  show ?case
  proof (cases "lt y x")
    case True
    with Cons show ?thesis by (auto simp: set_ins dest: lt_asym)
  next
    case False
    with Cons.prems show ?thesis by (auto dest: lt_negtrans)
  qed
qed

lemma sorted_std_sort: "sorted_wrt (\<lambda>a b. \<not> lt b a) (std_sort lt xs)"
  unfolding std_sort_def by (induction xs) (auto intro: sorted_insert_by)

text \<open>Where the comparator separates the elements, the result does not depend on the input order.\<close>

lemma sorted_perm_unique:
  assumes "mset xs = mset ys"
    and "sorted_wrt (\<lambda>a b. \<not> lt b a) xs" and "sorted_wrt (\<lambda>a b. \<not> lt b a) ys"
    and "\<And>a b. a \<in> set xs \<Longrightarrow> b \<in> set xs \<Longrightarrow> \<not> lt a b \<Longrightarrow> \<not> lt b a \<Longrightarrow> a = b"
  shows "xs = ys"
  using assms
proof (induction xs arbitrary: ys)
  case Nil
  then show ?case by simp
next
  case (Cons x xs)
  then obtain z zs where ys: "ys = z # zs"
    by (metis list.exhaust mset_zero_iff_right list.discI)
  have sets: "set (x # xs) = set (z # zs)"
    using Cons.prems(1) unfolding ys by (metis set_mset_mset)
  have "x = z"
  proof (cases "x \<in> set zs \<and> z \<in> set xs")
    case True
    then have "\<not> lt x z" and "\<not> lt z x"
      using Cons.prems(2,3) unfolding ys by auto
    then show ?thesis
      using Cons.prems(4) sets by auto
  next
    case False
    then show ?thesis using sets by auto
  qed
  moreover have "xs = zs"
  proof (rule Cons.IH)
    show "mset xs = mset zs"
      using Cons.prems(1) \<open>x = z\<close> unfolding ys by simp
    show "a = b" if "a \<in> set xs" "b \<in> set xs" "\<not> lt a b" "\<not> lt b a" for a b
      using Cons.prems(4) that by simp
  qed (use Cons.prems(2,3) ys in auto)
  ultimately show ?case using ys by simp
qed

lemma std_sort_perm:
  assumes "mset xs = mset ys"
    and "\<And>a b. a \<in> set xs \<Longrightarrow> b \<in> set xs \<Longrightarrow> \<not> lt a b \<Longrightarrow> \<not> lt b a \<Longrightarrow> a = b"
  shows "std_sort lt xs = std_sort lt ys"
  using assms by (intro sorted_perm_unique) (simp_all add: sorted_std_sort)

end

text \<open>The built-in \<open><\<close> on machine integers, the default comparator.\<close>

interpretation int_order: strict_weak_order "(<) :: 'a::linorder \<Rightarrow> 'a \<Rightarrow> bool"
  by unfold_locales auto

lemma std_sort_sorted: "sorted (std_sort (<) (xs :: 'a::linorder list))"
  using int_order.sorted_std_sort [of xs] by (simp add: not_less sorted_wrt_iff_nth_less)

end
