(* ===== verification/Validity_Mask.thy ===== *)
theory Validity_Mask
  imports Prelude
begin

text \<open>
  The NULL bitmask (\<open>validity_mask.hpp\<close>, \<open>validity_mask.cpp\<close>): one bit per row in 64-bit entries, or
  no buffer at all when every row is valid. A buffer is a value here: two masks that share a buffer
  through \<open>Initialize(other)\<close> are two copies, so the theorems describe the mask an operation returns.

  The reference meaning of a mask is the predicate \<open>RowIsValid\<close>; the word-at-a-time routines are
  proved equal to loops over single rows.
\<close>

section \<open>Entries\<close>

definition MAX_ENTRY :: u64 where
  "MAX_ENTRY = NOT 0"

definition EntryCount :: "nat \<Rightarrow> nat" where
  "EntryCount cnt = (cnt + 63) div 64"

definition AllValid_entry :: "u64 \<Rightarrow> bool" where
  "AllValid_entry entry \<longleftrightarrow> entry = MAX_ENTRY"

definition NoneValid_entry :: "u64 \<Rightarrow> bool" where
  "NoneValid_entry entry \<longleftrightarrow> entry = 0"

definition RowIsValid_entry :: "u64 \<Rightarrow> nat \<Rightarrow> bool" where
  "RowIsValid_entry entry idx_in_entry \<longleftrightarrow> entry AND push_bit idx_in_entry 1 \<noteq> 0"

definition EntryWithValidBits :: "nat \<Rightarrow> u64" where
  "EntryWithValidBits n = (if n = 0 then 0 else drop_bit (64 - n) MAX_ENTRY)"

section \<open>Masks\<close>

record ValidityMask =
  validity_mask :: "u64 list option"
  capacity :: nat

definition AllValid :: "ValidityMask \<Rightarrow> bool" where
  "AllValid m \<longleftrightarrow> validity_mask m = None"

text \<open>Reads are meant to stay inside the buffer: \<open>es ! i\<close> past its end is unspecified.\<close>

definition GetValidityEntry :: "ValidityMask \<Rightarrow> nat \<Rightarrow> u64" where
  "GetValidityEntry m entry_idx = (case validity_mask m of None \<Rightarrow> MAX_ENTRY | Some es \<Rightarrow> es ! entry_idx)"

definition RowIsValid :: "ValidityMask \<Rightarrow> nat \<Rightarrow> bool" where
  "RowIsValid m row_idx =
     (case validity_mask m of
        None \<Rightarrow> True
      | Some es \<Rightarrow> RowIsValid_entry (es ! (row_idx div 64)) (row_idx mod 64))"

definition CheckAllValid_range :: "ValidityMask \<Rightarrow> nat \<Rightarrow> nat \<Rightarrow> bool" where
  "CheckAllValid_range m to from = (AllValid m \<or> list_all (RowIsValid m) [from..<to])"

text \<open>\<open>Initialize\<close> allocates a buffer with every bit set.\<close>

definition Initialize :: "nat \<Rightarrow> ValidityMask" where
  "Initialize cnt = \<lparr>validity_mask = Some (replicate (EntryCount cnt) MAX_ENTRY), capacity = cnt\<rparr>"

definition EnsureWritable :: "ValidityMask \<Rightarrow> ValidityMask" where
  "EnsureWritable m = (if validity_mask m = None then Initialize (capacity m) else m)"

definition Mask_Reset :: "nat \<Rightarrow> ValidityMask" where
  "Mask_Reset cnt = \<lparr>validity_mask = None, capacity = cnt\<rparr>"

definition upd_entry :: "nat \<Rightarrow> (u64 \<Rightarrow> u64) \<Rightarrow> ValidityMask \<Rightarrow> ValidityMask" where
  "upd_entry i f m = m\<lparr>validity_mask := map_option (\<lambda>es. es[i := f (es ! i)]) (validity_mask m)\<rparr>"

definition SetValid :: "nat \<Rightarrow> ValidityMask \<Rightarrow> ValidityMask" where
  "SetValid row_idx m =
     (if validity_mask m = None then m
      else upd_entry (row_idx div 64) (\<lambda>e. e OR push_bit (row_idx mod 64) 1) m)"

definition SetInvalid :: "nat \<Rightarrow> ValidityMask \<Rightarrow> ValidityMask" where
  "SetInvalid row_idx m =
     upd_entry (row_idx div 64) (\<lambda>e. e AND NOT (push_bit (row_idx mod 64) 1)) (EnsureWritable m)"

definition Set :: "nat \<Rightarrow> bool \<Rightarrow> ValidityMask \<Rightarrow> ValidityMask" where
  "Set row_idx valid m = (if valid then SetValid row_idx m else SetInvalid row_idx m)"

definition Mask_Copy :: "ValidityMask \<Rightarrow> nat \<Rightarrow> ValidityMask" where
  "Mask_Copy other cnt =
     (case validity_mask other of
        None \<Rightarrow> \<lparr>validity_mask = None, capacity = cnt\<rparr>
      | Some es \<Rightarrow> \<lparr>validity_mask = Some (take (EntryCount cnt) es), capacity = cnt\<rparr>)"

text \<open>Kernighan's loop: each round clears the lowest set bit.\<close>

function kernighan :: "u64 \<Rightarrow> nat \<Rightarrow> nat" where
  "kernighan entry valid = (if entry = 0 then valid else kernighan (entry AND (entry - 1)) (Suc valid))"
  by auto

termination kernighan
proof (relation "measure (\<lambda>(entry, valid). unat entry)")
  fix entry :: u64 and valid :: nat
  assume "entry \<noteq> 0"
  then have "entry - 1 < entry"
    by (simp add: word_less_nat_alt unat_minus_one unat_gt_0)
  then have "entry AND (entry - 1) < entry"
    using word_and_le1 order_le_less_trans by blast
  then show "((entry AND (entry - 1), Suc valid), entry, valid) \<in> measure (\<lambda>(entry, valid). unat entry)"
    by (simp add: word_less_nat_alt)
qed simp

declare kernighan.simps [simp del]

fun count_entries :: "ValidityMask \<Rightarrow> nat \<Rightarrow> nat \<Rightarrow> nat list \<Rightarrow> nat \<Rightarrow> nat" where
  "count_entries m cnt entry_count [] valid = valid"
| "count_entries m cnt entry_count (i # is) valid =
     (let entry = GetValidityEntry m i in
      if Suc i = entry_count \<and> cnt mod 64 \<noteq> 0 then
        count_entries m cnt entry_count is (kernighan (entry AND drop_bit (64 - cnt mod 64) MAX_ENTRY) valid)
      else if AllValid_entry entry then count_entries m cnt entry_count is (valid + 64)
      else count_entries m cnt entry_count is (kernighan entry valid))"

definition CountValid :: "ValidityMask \<Rightarrow> nat \<Rightarrow> nat" where
  "CountValid m cnt =
     (if AllValid m \<or> cnt = 0 then cnt
      else count_entries m cnt (EntryCount cnt) [0..<EntryCount cnt] 0)"

definition CheckAllValid :: "ValidityMask \<Rightarrow> nat \<Rightarrow> bool" where
  "CheckAllValid m cnt \<longleftrightarrow> CountValid m cnt = cnt"

definition CheckAllInvalid :: "ValidityMask \<Rightarrow> nat \<Rightarrow> bool" where
  "CheckAllInvalid m cnt \<longleftrightarrow> CountValid m cnt = 0"

definition SetRangeInvalid :: "nat \<Rightarrow> nat \<Rightarrow> nat \<Rightarrow> ValidityMask \<Rightarrow> ValidityMask" where
  "SetRangeInvalid cnt begin_entry end_entry m =
     (let m = EnsureWritable m in
      if cnt = 0 then m
      else
        let last_entry_index = EntryCount cnt - 1;
            m = fold (\<lambda>i. upd_entry i (\<lambda>_. 0)) [begin_entry..<min last_entry_index end_entry] m in
        if end_entry \<le> last_entry_index then m
        else
          let last_entry_bits = cnt mod 64 in
          upd_entry last_entry_index (\<lambda>_. if last_entry_bits = 0 then 0 else push_bit last_entry_bits MAX_ENTRY) m)"

definition SetAllInvalid :: "nat \<Rightarrow> ValidityMask \<Rightarrow> ValidityMask" where
  "SetAllInvalid cnt m = SetRangeInvalid cnt 0 (EntryCount cnt) m"

definition SetAllValid :: "nat \<Rightarrow> ValidityMask \<Rightarrow> ValidityMask" where
  "SetAllValid cnt m =
     (let m = EnsureWritable m in
      if cnt = 0 then m
      else
        let last_entry_index = EntryCount cnt - 1;
            m = fold (\<lambda>i. upd_entry i (\<lambda>_. MAX_ENTRY)) [0..<last_entry_index] m;
            last_entry_bits = cnt mod 64 in
        upd_entry last_entry_index
          (\<lambda>e. e OR (if last_entry_bits = 0 then MAX_ENTRY else NOT (push_bit last_entry_bits MAX_ENTRY))) m)"

text \<open>\<open>same_buffer\<close>: whether the two masks point to the same buffer.\<close>

definition Combine :: "bool \<Rightarrow> ValidityMask \<Rightarrow> nat \<Rightarrow> ValidityMask \<Rightarrow> ValidityMask" where
  "Combine same_buffer other cnt m =
     (case (validity_mask other, validity_mask m) of
        (None, _) \<Rightarrow> m
      | (Some _, None) \<Rightarrow> other
      | (Some os, Some es) \<Rightarrow>
          if same_buffer then m
          else \<lparr>validity_mask = Some (map (\<lambda>i. es ! i AND os ! i) [0..<EntryCount cnt]), capacity = cnt\<rparr>)"

definition Mask_Resize :: "nat \<Rightarrow> ValidityMask \<Rightarrow> ValidityMask" where
  "Mask_Resize new_size m =
     (if new_size \<le> capacity m then m
      else
        case validity_mask m of
          None \<Rightarrow> m\<lparr>capacity := new_size\<rparr>
        | Some es \<Rightarrow>
            \<lparr>validity_mask = Some (map (\<lambda>i. es ! i) [0..<EntryCount (capacity m)] @
               map (\<lambda>_. MAX_ENTRY) [EntryCount (capacity m)..<EntryCount new_size]),
             capacity = new_size\<rparr>)"

definition IsAligned :: "nat \<Rightarrow> bool" where
  "IsAligned cnt \<longleftrightarrow> cnt mod 64 = 0"

text \<open>
  The last entry of an aligned copy: the low \<open>ragged\<close> bits come from the source, the others stay.
\<close>

definition merge_ragged :: "nat \<Rightarrow> u64 \<Rightarrow> u64 \<Rightarrow> u64" where
  "merge_ragged ragged src_entry tgt_entry =
     (tgt_entry AND push_bit ragged MAX_ENTRY) OR (src_entry AND drop_bit (64 - ragged) MAX_ENTRY)"

definition SliceInPlace_aligned :: "ValidityMask \<Rightarrow> nat \<Rightarrow> nat \<Rightarrow> nat \<Rightarrow> ValidityMask \<Rightarrow> ValidityMask" where
  "SliceInPlace_aligned other target_offset source_offset cnt m =
     (let ragged = cnt mod 64; entire_units = cnt div 64;
          s = EntryCount source_offset; t = EntryCount target_offset;
          m = fold (\<lambda>i. upd_entry (t + i) (\<lambda>_. GetValidityEntry other (s + i))) [0..<entire_units] m in
      if ragged \<noteq> 0 then
        upd_entry (t + entire_units) (merge_ragged ragged (GetValidityEntry other (s + entire_units))) m
      else m)"

text \<open>
  The shifting branch keeps the previous source entry in a variable; a null source buffer is
  dereferenced.
\<close>

definition SliceInPlace_shift :: "u64 list \<Rightarrow> nat \<Rightarrow> nat \<Rightarrow> nat \<Rightarrow> ValidityMask \<Rightarrow> ValidityMask" where
  "SliceInPlace_shift src target_offset source_offset cnt m =
     (let ragged = cnt mod 64; entire_units = cnt div 64;
          tail = source_offset mod 64; head = 64 - tail;
          s = source_offset div 64; t = target_offset div 64;
          (src_entry, m) =
            fold (\<lambda>i (src_entry, m).
                let next_entry = src ! (s + 1 + i) in
                (next_entry, upd_entry (t + i) (\<lambda>_. drop_bit tail src_entry OR push_bit head next_entry) m))
              [0..<entire_units] (src ! s, m) in
      if ragged \<noteq> 0 then
        let tgt_entry = drop_bit tail src_entry;
            tgt_entry = (if head < ragged then tgt_entry OR push_bit head (src ! (s + 1 + entire_units)) else tgt_entry) in
        upd_entry (t + entire_units)
          (\<lambda>e. (tgt_entry AND drop_bit (64 - ragged) MAX_ENTRY) OR (e AND push_bit ragged MAX_ENTRY)) m
      else m)"

definition copy_rows :: "(nat \<Rightarrow> bool) \<Rightarrow> nat \<Rightarrow> nat \<Rightarrow> ValidityMask \<Rightarrow> ValidityMask" where
  "copy_rows valid target_offset cnt m = fold (\<lambda>i. Set (target_offset + i) (valid i)) [0..<cnt] m"

definition Mask_SliceInPlace :: "ValidityMask \<Rightarrow> nat \<Rightarrow> nat \<Rightarrow> nat \<Rightarrow> ValidityMask \<Rightarrow> ValidityMask result" where
  "Mask_SliceInPlace other target_offset source_offset cnt m =
     (if AllValid m \<and> AllValid other then Inr m
      else
        let m = EnsureWritable m in
        if IsAligned source_offset \<and> IsAligned target_offset then
          Inr (SliceInPlace_aligned other target_offset source_offset cnt m)
        else if IsAligned target_offset then
          (case validity_mask other of
             None \<Rightarrow> Inl Undefined
           | Some src \<Rightarrow> Inr (SliceInPlace_shift src target_offset source_offset cnt m))
        else Inr (copy_rows (\<lambda>i. RowIsValid other (source_offset + i)) target_offset cnt m))"

definition Mask_Slice :: "ValidityMask \<Rightarrow> nat \<Rightarrow> nat \<Rightarrow> ValidityMask \<Rightarrow> ValidityMask result" where
  "Mask_Slice other source_offset cnt m =
     (if AllValid other then Inr (m\<lparr>validity_mask := None\<rparr>)
      else if source_offset = 0 then Inr other
      else Mask_SliceInPlace other 0 source_offset cnt \<lparr>validity_mask = None, capacity = cnt\<rparr>)"

text \<open>The selection is a function: \<open>sel.get_index\<close>, the identity when the selection is not set.\<close>

definition CopySel :: "ValidityMask \<Rightarrow> (nat \<Rightarrow> nat) option \<Rightarrow> nat \<Rightarrow> nat \<Rightarrow> nat \<Rightarrow> ValidityMask \<Rightarrow> ValidityMask result" where
  "CopySel other sel source_offset target_offset copy_count m =
     (if AllValid other \<and> AllValid m then Inr m
      else if sel = None \<and> IsAligned source_offset \<and> IsAligned target_offset then
        Mask_SliceInPlace other target_offset source_offset copy_count m
      else
        let get_index = (case sel of None \<Rightarrow> (\<lambda>i. i) | Some f \<Rightarrow> f) in
        Inr (copy_rows (\<lambda>i. RowIsValid other (get_index (source_offset + i))) target_offset copy_count m))"

section \<open>Bits\<close>

lemma bit_MAX [simp]: "bit MAX_ENTRY k \<longleftrightarrow> k < 64"
  by (simp add: MAX_ENTRY_def bit_not_iff)

lemma RowIsValid_entry_bit: "k < 64 \<Longrightarrow> RowIsValid_entry e k \<longleftrightarrow> bit e k"
proof -
  assume k: "k < 64"
  have "e AND push_bit k 1 = (if bit e k then push_bit k 1 else 0)"
    by (rule bit_word_eqI) (auto simp: bit_and_iff bit_exp_iff)
  moreover have "bit (push_bit k (1 :: u64)) k"
    using k by (simp add: bit_exp_iff)
  then have "push_bit k (1 :: u64) \<noteq> 0"
    by (auto simp del: push_bit_of_1)
  ultimately show ?thesis by (simp add: RowIsValid_entry_def)
qed

lemma RowIsValid_bit:
  "RowIsValid m i = (case validity_mask m of None \<Rightarrow> True | Some es \<Rightarrow> bit (es ! (i div 64)) (i mod 64))"
  by (simp add: RowIsValid_def RowIsValid_entry_bit split: option.splits)

lemma EntryCount_bounds: "cnt \<le> 64 * EntryCount cnt" "64 * EntryCount cnt < cnt + 64"
  by (simp_all add: EntryCount_def)

lemma EntryCount_aligned: "IsAligned n \<Longrightarrow> EntryCount n = n div 64"
  by (auto simp: EntryCount_def IsAligned_def)

text \<open>A mask with enough entries for its capacity.\<close>

definition mask_wf :: "ValidityMask \<Rightarrow> bool" where
  "mask_wf m \<longleftrightarrow> (case validity_mask m of None \<Rightarrow> True | Some es \<Rightarrow> EntryCount (capacity m) \<le> length es)"

lemma row_entry: "mask_wf m \<Longrightarrow> validity_mask m = Some es \<Longrightarrow> i < capacity m \<Longrightarrow> i div 64 < length es"
  using EntryCount_bounds [of "capacity m"] by (simp add: mask_wf_def)

lemma entry_bit: "k < 64 \<Longrightarrow> bit (GetValidityEntry m e) k \<longleftrightarrow> RowIsValid m (64 * e + k)"
  by (simp add: GetValidityEntry_def RowIsValid_bit split: option.splits)

lemma upd_entry_simps [simp]:
  "capacity (upd_entry i f m) = capacity m"
  "validity_mask (upd_entry i f m) = None \<longleftrightarrow> validity_mask m = None"
  "mask_wf (upd_entry i f m) \<longleftrightarrow> mask_wf m"
  by (auto simp: upd_entry_def mask_wf_def split: option.splits)

lemma RowIsValid_upd_entry:
  "validity_mask m = Some es \<Longrightarrow> i < length es \<Longrightarrow>
   RowIsValid (upd_entry i f m) r = (if r div 64 = i then bit (f (es ! i)) (r mod 64) else RowIsValid m r)"
  by (simp add: RowIsValid_bit upd_entry_def)

lemma fold_upd_simps [simp]:
  "capacity (fold (\<lambda>i. upd_entry (t + i) (g i)) is m) = capacity m"
  "validity_mask (fold (\<lambda>i. upd_entry (t + i) (g i)) is m) = None \<longleftrightarrow> validity_mask m = None"
  "mask_wf (fold (\<lambda>i. upd_entry (t + i) (g i)) is m) \<longleftrightarrow> mask_wf m"
  by (induction "is" arbitrary: m) simp_all

lemma fold_upd_length:
  "validity_mask m = Some es \<Longrightarrow>
   \<exists>es'. validity_mask (fold (\<lambda>i. upd_entry (t + i) (g i)) is m) = Some es' \<and> length es' = length es"
proof (induction "is" arbitrary: m es)
  case (Cons i "is")
  have "validity_mask (upd_entry (t + i) (g i) m) = Some (es[t + i := g i (es ! (t + i))])"
    using Cons.prems by (simp add: upd_entry_def)
  from Cons.IH [OF this] show ?case by simp
qed simp

text \<open>Writing consecutive entries changes exactly the rows of these entries.\<close>

lemma RowIsValid_fold_upd:
  assumes "validity_mask m = Some es" and "t + n \<le> length es"
  shows "RowIsValid (fold (\<lambda>i. upd_entry (t + i) (\<lambda>_. g i)) [0..<n] m) r =
    (if t \<le> r div 64 \<and> r div 64 < t + n then bit (g (r div 64 - t)) (r mod 64) else RowIsValid m r)"
  using assms
proof (induction n)
  case (Suc n)
  let ?m = "fold (\<lambda>i. upd_entry (t + i) (\<lambda>_. g i)) [0..<n] m"
  obtain es' where es': "validity_mask ?m = Some es'" "length es' = length es"
    using fold_upd_length [OF Suc.prems(1), of t "\<lambda>i _. g i" "[0..<n]"] by blast
  then have "RowIsValid (upd_entry (t + n) (\<lambda>_. g n) ?m) r =
      (if r div 64 = t + n then bit (g n) (r mod 64) else RowIsValid ?m r)"
    using Suc.prems(2) by (intro RowIsValid_upd_entry) auto
  with Suc show ?case by auto
qed auto

lemma EnsureWritable_simps [simp]:
  "capacity (EnsureWritable m) = capacity m" "mask_wf m \<Longrightarrow> mask_wf (EnsureWritable m)"
  "validity_mask (EnsureWritable m) \<noteq> None"
  by (auto simp: EnsureWritable_def Initialize_def mask_wf_def)

lemma RowIsValid_EnsureWritable [simp]:
  "i < capacity m \<Longrightarrow> RowIsValid (EnsureWritable m) i = RowIsValid m i"
  using EntryCount_bounds [of "capacity m"]
  by (auto simp: EnsureWritable_def Initialize_def RowIsValid_bit)

lemma bit_set_bit: "k < 64 \<Longrightarrow> bit ((e :: u64) OR push_bit k 1) j \<longleftrightarrow> bit e j \<or> j = k"
  by (auto simp: bit_or_iff bit_exp_iff)

lemma bit_clear_bit: "j < 64 \<Longrightarrow> bit ((e :: u64) AND NOT (push_bit k 1)) j \<longleftrightarrow> bit e j \<and> j \<noteq> k"
  by (auto simp: bit_and_iff bit_not_iff bit_exp_iff)

lemma div_mod_64_eq: "r div 64 = i div 64 \<Longrightarrow> r mod 64 = i mod 64 \<longleftrightarrow> r = (i :: nat)"
  by (metis div_mult_mod_eq)

lemma SetValid_simps [simp]: "capacity (SetValid i m) = capacity m" "mask_wf m \<Longrightarrow> mask_wf (SetValid i m)"
  by (simp_all add: SetValid_def)

lemma SetInvalid_simps [simp]: "capacity (SetInvalid i m) = capacity m" "mask_wf m \<Longrightarrow> mask_wf (SetInvalid i m)"
  by (simp_all add: SetInvalid_def)

lemma RowIsValid_SetValid:
  assumes "mask_wf m" "i < capacity m"
  shows "RowIsValid (SetValid i m) r \<longleftrightarrow> r = i \<or> RowIsValid m r"
proof (cases "validity_mask m")
  case None
  then show ?thesis by (simp add: SetValid_def RowIsValid_bit)
next
  case (Some es)
  have "RowIsValid (SetValid i m) r =
      (if r div 64 = i div 64 then bit (es ! (i div 64) OR push_bit (i mod 64) 1) (r mod 64) else RowIsValid m r)"
    using Some row_entry [OF assms(1) Some assms(2)] by (simp add: SetValid_def RowIsValid_upd_entry)
  then show ?thesis
    using Some div_mod_64_eq [of r i] by (auto simp: bit_set_bit RowIsValid_bit simp del: push_bit_of_1)
qed

lemma RowIsValid_SetInvalid:
  assumes "mask_wf m" "i < capacity m" "r < capacity m"
  shows "RowIsValid (SetInvalid i m) r \<longleftrightarrow> r \<noteq> i \<and> RowIsValid m r"
proof -
  let ?m = "EnsureWritable m"
  obtain es where es: "validity_mask ?m = Some es"
    using EnsureWritable_simps(3) [of m] by blast
  have "RowIsValid (SetInvalid i m) r =
      (if r div 64 = i div 64 then bit (es ! (i div 64) AND NOT (push_bit (i mod 64) 1)) (r mod 64) else RowIsValid ?m r)"
    using es row_entry [OF _ es] assms by (simp add: SetInvalid_def RowIsValid_upd_entry)
  then show ?thesis
    using es div_mod_64_eq [of r i] RowIsValid_EnsureWritable [OF assms(3)]
    by (auto simp: bit_clear_bit RowIsValid_bit [of ?m] simp del: push_bit_of_1)
qed

lemma Set_simps [simp]: "capacity (Set i v m) = capacity m" "mask_wf m \<Longrightarrow> mask_wf (Set i v m)"
  by (simp_all add: Set_def)

lemma RowIsValid_Set:
  "mask_wf m \<Longrightarrow> i < capacity m \<Longrightarrow> r < capacity m \<Longrightarrow>
   RowIsValid (Set i v m) r = (if r = i then v else RowIsValid m r)"
  by (simp add: Set_def RowIsValid_SetValid RowIsValid_SetInvalid)

lemma copy_rows_simps [simp]:
  "capacity (copy_rows v t n m) = capacity m" "mask_wf m \<Longrightarrow> mask_wf (copy_rows v t n m)"
  unfolding copy_rows_def by (induction n) simp_all

lemma RowIsValid_copy_rows:
  "mask_wf m \<Longrightarrow> t + n \<le> capacity m \<Longrightarrow> r < capacity m \<Longrightarrow>
   RowIsValid (copy_rows v t n m) r = (if t \<le> r \<and> r < t + n then v (r - t) else RowIsValid m r)"
proof (induction n)
  case (Suc n)
  have "copy_rows v t (Suc n) m = Set (t + n) (v n) (copy_rows v t n m)"
    by (simp add: copy_rows_def)
  with Suc show ?case
    by (auto simp: RowIsValid_Set)
qed (auto simp: copy_rows_def)

lemma fold_SetInvalid:
  "mask_wf m \<Longrightarrow> n \<le> capacity m \<Longrightarrow>
   mask_wf (fold (\<lambda>r mask. if P r then SetInvalid r mask else mask) [0..<n] m) \<and>
   capacity (fold (\<lambda>r mask. if P r then SetInvalid r mask else mask) [0..<n] m) = capacity m \<and>
   (\<forall>r < capacity m. RowIsValid (fold (\<lambda>r mask. if P r then SetInvalid r mask else mask) [0..<n] m) r \<longleftrightarrow>
      RowIsValid m r \<and> \<not> (r < n \<and> P r))"
  by (induction n) (auto simp: RowIsValid_SetInvalid less_Suc_eq)

section \<open>Copying ranges of rows\<close>

text \<open>What copying \<open>cnt\<close> rows of \<open>other\<close> into a mask means for one row.\<close>

definition sliced :: "ValidityMask \<Rightarrow> nat \<Rightarrow> nat \<Rightarrow> nat \<Rightarrow> ValidityMask \<Rightarrow> nat \<Rightarrow> bool" where
  "sliced other t s cnt m r = (if t \<le> r \<and> r < t + cnt then RowIsValid other (s + (r - t)) else RowIsValid m r)"

lemma bit_merge_ragged:
  "g < 64 \<Longrightarrow> k < 64 \<Longrightarrow> bit (merge_ragged g src tgt) k \<longleftrightarrow> (if k < g then bit src k else bit tgt k)"
  by (auto simp: merge_ragged_def bit_or_iff bit_and_iff bit_push_bit_iff bit_drop_bit_eq)

text \<open>The row arithmetic of an aligned target: entry and position within the copied range.\<close>

lemma split_64: "\<exists>q k. n = 64 * q + k \<and> k < (64 :: nat) \<and> n div 64 = q \<and> n mod 64 = k"
  by (rule exI [of _ "n div 64"], rule exI [of _ "n mod 64"]) simp

lemma in_units:
  fixes r t cnt :: nat
  assumes "t mod 64 = 0"
  shows "t div 64 \<le> r div 64 \<and> r div 64 < t div 64 + cnt div 64 \<longleftrightarrow> t \<le> r \<and> r < t + 64 * (cnt div 64)"
    and "t \<le> r \<and> r < t + cnt \<longleftrightarrow>
      t \<le> r \<and> r < t + 64 * (cnt div 64) \<or> r div 64 = t div 64 + cnt div 64 \<and> r mod 64 < cnt mod 64"
    and "r div 64 = t div 64 + cnt div 64 \<Longrightarrow> \<not> (t \<le> r \<and> r < t + 64 * (cnt div 64))"
proof -
  obtain e k where r: "r = 64 * e + k" "k < 64" "r div 64 = e" "r mod 64 = k" using split_64 by blast
  obtain b where t: "t = 64 * b" "t div 64 = b" using split_64 [of t] assms by auto
  obtain u g where c: "cnt = 64 * u + g" "g < 64" "cnt div 64 = u" "cnt mod 64 = g" using split_64 by blast
  show "t div 64 \<le> r div 64 \<and> r div 64 < t div 64 + cnt div 64 \<longleftrightarrow> t \<le> r \<and> r < t + 64 * (cnt div 64)"
    unfolding r(3,4) t(2) c(3,4) unfolding r(1) t(1) c(1) using r(2) c(2) by auto
  show "t \<le> r \<and> r < t + cnt \<longleftrightarrow>
      t \<le> r \<and> r < t + 64 * (cnt div 64) \<or> r div 64 = t div 64 + cnt div 64 \<and> r mod 64 < cnt mod 64"
  proof -
    consider "e < b" | "b \<le> e" "e < b + u" | "e = b + u" | "b + u < e" by linarith
    then show ?thesis
      unfolding r(3,4) t(2) c(3,4) unfolding r(1) t(1) c(1) using r(2) c(2) by cases auto
  qed
  show "\<not> (t \<le> r \<and> r < t + 64 * (cnt div 64))" if "r div 64 = t div 64 + cnt div 64"
    using that unfolding r(3,4) t(2) c(3,4) unfolding r(1) t(1) c(1) by auto
qed

lemma aligned_index:
  fixes r t s :: nat
  assumes "t mod 64 = 0" "s mod 64 = 0" "t \<le> r"
  shows "64 * (s div 64 + (r div 64 - t div 64)) + r mod 64 = s + (r - t)"
proof -
  obtain e k where r: "r = 64 * e + k" "k < 64" "r div 64 = e" "r mod 64 = k" using split_64 by blast
  obtain b where t: "t = 64 * b" "t div 64 = b" using split_64 [of t] assms by auto
  obtain a where s: "s = 64 * a" "s div 64 = a" using split_64 [of s] assms by auto
  have "b \<le> e" using assms(3) r t by auto
  then show ?thesis unfolding r(3,4) t(2) s(2) unfolding r(1) t(1) s(1) by (simp add: algebra_simps)
qed

lemma aligned_entries:
  fixes t cnt cap n :: nat
  assumes "t mod 64 = 0" "t + cnt \<le> cap" "cap \<le> 64 * n"
  shows "t div 64 + cnt div 64 \<le> n" "cnt mod 64 \<noteq> 0 \<Longrightarrow> t div 64 + cnt div 64 < n"
proof -
  obtain b where t: "t = 64 * b" "t div 64 = b" using split_64 [of t] assms by auto
  obtain u g where c: "cnt = 64 * u + g" "g < 64" "cnt div 64 = u" "cnt mod 64 = g" using split_64 by blast
  show "t div 64 + cnt div 64 \<le> n" "cnt mod 64 \<noteq> 0 \<Longrightarrow> t div 64 + cnt div 64 < n"
    unfolding t(2) c(3,4) using assms(2,3) unfolding t(1) c(1) by linarith+
qed

lemma mask_entries:
  assumes "mask_wf m" "validity_mask m = Some es"
  shows "capacity m \<le> 64 * length es"
  using assms EntryCount_bounds(1) [of "capacity m"] by (simp add: mask_wf_def)

text \<open>The rows of a mask whose entries from \<open>t\<close> on were overwritten by \<open>g\<close>.\<close>

lemma RowIsValid_units:
  assumes wf: "mask_wf m" and es: "validity_mask m = Some es" and t: "t mod 64 = 0" and bounds: "t + cnt \<le> capacity m"
    and g: "\<And>i k. k < 64 \<Longrightarrow> bit (g i) k = P (64 * i + k)"
  shows "RowIsValid (fold (\<lambda>i. upd_entry (t div 64 + i) (\<lambda>_. g i)) [0..<cnt div 64] m) r =
    (if t \<le> r \<and> r < t + 64 * (cnt div 64) then P (r - t) else RowIsValid m r)"
proof (cases "t \<le> r \<and> r < t + 64 * (cnt div 64)")
  case True
  have idx: "64 * (r div 64 - t div 64) + r mod 64 = r - t"
    using aligned_index [OF t, of 0 r] True by simp
  show ?thesis
    unfolding RowIsValid_fold_upd [OF es aligned_entries(1) [OF t bounds mask_entries [OF wf es]]] in_units(1) [OF t]
    using True g [of "r mod 64"] by (simp add: idx)
next
  case False
  then show ?thesis
    unfolding RowIsValid_fold_upd [OF es aligned_entries(1) [OF t bounds mask_entries [OF wf es]]] in_units(1) [OF t]
    by (simp only: if_False)
qed

text \<open>The same with a last, ragged entry, of which the low bits are overwritten.\<close>

lemma RowIsValid_ragged:
  assumes wf: "mask_wf m" and es: "validity_mask m = Some es" and t: "t mod 64 = 0" and bounds: "t + cnt \<le> capacity m"
    and g: "\<And>i k. k < 64 \<Longrightarrow> bit (g i) k = P (64 * i + k)"
    and f: "\<And>e k. k < 64 \<Longrightarrow> bit (f e) k = (if k < cnt mod 64 then P (64 * (cnt div 64) + k) else bit e k)"
    and ragged: "cnt mod 64 \<noteq> 0"
  shows "RowIsValid (upd_entry (t div 64 + cnt div 64) f
      (fold (\<lambda>i. upd_entry (t div 64 + i) (\<lambda>_. g i)) [0..<cnt div 64] m)) r =
    (if t \<le> r \<and> r < t + cnt then P (r - t) else RowIsValid m r)" (is "RowIsValid (upd_entry ?l f ?m) r = _")
proof -
  obtain es' where es': "validity_mask ?m = Some es'" "length es' = length es"
    using fold_upd_length [OF es, of "t div 64" "\<lambda>i _. g i" "[0..<cnt div 64]"] by blast
  have len: "?l < length es'"
    using aligned_entries(2) [OF t bounds mask_entries [OF wf es] ragged] es'(2) by simp
  note units = RowIsValid_units [OF wf es t bounds g, of r]
  show ?thesis
  proof (cases "r div 64 = ?l")
    case True
    have tgt: "bit (es' ! ?l) (r mod 64) = RowIsValid ?m r"
      using True es'(1) by (simp add: RowIsValid_bit)
    have le: "t \<le> r"
      using True t by (metis div_mult_mod_eq add_leD1 le_add1 add.right_neutral mult_le_mono1 le_trans)
    have idx: "64 * (cnt div 64) + r mod 64 = r - t"
      using aligned_index [OF t, of 0 r] le True by simp
    have "RowIsValid (upd_entry ?l f ?m) r = (if r mod 64 < cnt mod 64 then P (r - t) else RowIsValid ?m r)"
      using RowIsValid_upd_entry [OF es'(1) len, of f r] f [of "r mod 64" "es' ! ?l"] idx tgt True by simp
    with units show ?thesis
      using in_units(2) [OF t, of r cnt] in_units(3) [OF t True] True by simp
  next
    case False
    then have "RowIsValid (upd_entry ?l f ?m) r = RowIsValid ?m r"
      using RowIsValid_upd_entry [OF es'(1) len, of f r] by simp
    with units show ?thesis
      using in_units(2) [OF t, of r cnt] False by simp
  qed
qed

lemma SliceInPlace_aligned_rows:
  assumes wf: "mask_wf m" and es: "validity_mask m = Some es" and al: "IsAligned s" "IsAligned t"
    and bounds: "t + cnt \<le> capacity m"
  shows "RowIsValid (SliceInPlace_aligned other t s cnt m) r = sliced other t s cnt m r"
proof -
  have t: "t mod 64 = 0" and s: "64 * (s div 64) = s" using al by (auto simp: IsAligned_def)
  have ent: "EntryCount s = s div 64" "EntryCount t = t div 64" using al by (simp_all add: EntryCount_aligned)
  let ?g = "\<lambda>i. GetValidityEntry other (s div 64 + i)" and ?P = "\<lambda>i. RowIsValid other (s + i)"
  have g: "bit (?g i) k = ?P (64 * i + k)" if "k < 64" for i k
    using entry_bit [OF that, of other "s div 64 + i"] s by (simp add: distrib_left add.assoc)
  show ?thesis
  proof (cases "cnt mod 64 = 0")
    case True
    then have "64 * (cnt div 64) = cnt" by auto
    with True RowIsValid_units [OF wf es t bounds g, of r] show ?thesis
      by (simp add: SliceInPlace_aligned_def Let_def ent sliced_def)
  next
    case False
    have "bit (merge_ragged (cnt mod 64) (?g (cnt div 64)) e) k =
        (if k < cnt mod 64 then ?P (64 * (cnt div 64) + k) else bit e k)" if "k < 64" for e k
      using bit_merge_ragged [OF _ that, of "cnt mod 64"] g [OF that] by simp
    from RowIsValid_ragged [OF wf es t bounds g this False] False show ?thesis
      by (simp add: SliceInPlace_aligned_def Let_def ent sliced_def)
  qed
qed

text \<open>The unaligned source: an entry is put together from the end of one entry and the start of the next.\<close>

lemma shift_fold:
  "fold (\<lambda>i (src_entry, m).
       let next_entry = src ! (s + 1 + i) in
       (next_entry, upd_entry (t + i) (\<lambda>_. drop_bit tail src_entry OR push_bit head next_entry) m))
     [0..<n] (src ! s, m) =
   (src ! (s + n),
    fold (\<lambda>i. upd_entry (t + i) (\<lambda>_. drop_bit tail (src ! (s + i)) OR push_bit head (src ! (s + 1 + i)))) [0..<n] m)"
  by (induction n) (simp_all add: Let_def)

lemma bit_shifted:
  fixes a b :: u64
  assumes "k < 64" "0 < tail" "tail < 64"
  shows "bit (drop_bit tail a OR push_bit (64 - tail) b) k = (if tail + k < 64 then bit a (tail + k) else bit b (tail + k - 64))"
    and "tail + k < 64 \<Longrightarrow> bit (drop_bit tail a) k = bit a (tail + k)"
proof -
  have idx: "k - (64 - tail) = tail + k - 64" using assms by simp
  have "\<not> bit a (tail + k)" if "64 \<le> tail + k"
    using that bit_imp_le_length [of a "tail + k"] by auto
  with idx assms show "bit (drop_bit tail a OR push_bit (64 - tail) b) k =
      (if tail + k < 64 then bit a (tail + k) else bit b (tail + k - 64))"
    by (auto simp: bit_or_iff bit_drop_bit_eq bit_push_bit_iff)
  show "tail + k < 64 \<Longrightarrow> bit (drop_bit tail a) k = bit a (tail + k)"
    by (simp add: bit_drop_bit_eq)
qed

lemma unaligned_index:
  fixes p q k :: nat
  assumes "k < 64"
  shows "(p + (64 * q + k)) div 64 = (if p mod 64 + k < 64 then p div 64 + q else p div 64 + 1 + q)"
    and "(p + (64 * q + k)) mod 64 = (if p mod 64 + k < 64 then p mod 64 + k else p mod 64 + k - 64)"
proof -
  obtain a j where p: "p = 64 * a + j" "j < 64" "p div 64 = a" "p mod 64 = j" using split_64 by blast
  have eq: "p + (64 * q + k) = 64 * (a + q) + (j + k)" unfolding p(1) by simp
  show "(p + (64 * q + k)) div 64 = (if p mod 64 + k < 64 then p div 64 + q else p div 64 + 1 + q)"
    unfolding eq p(3,4) using p(2) assms by (auto simp: div_nat_eqI)
  have "(64 * (a + q) + (j + k)) mod 64 = (j + k) mod 64" by (rule mod_mult_self4)
  then show "(p + (64 * q + k)) mod 64 = (if p mod 64 + k < 64 then p mod 64 + k else p mod 64 + k - 64)"
    unfolding eq p(3,4) using p(2) assms by (simp add: mod_if)
qed

lemma SliceInPlace_shift_eq:
  "SliceInPlace_shift src t s cnt m =
     (let u = cnt div 64; r = cnt mod 64;
          g = (\<lambda>i. drop_bit (s mod 64) (src ! (s div 64 + i)) OR push_bit (64 - s mod 64) (src ! (s div 64 + 1 + i)));
          m' = fold (\<lambda>i. upd_entry (t div 64 + i) (\<lambda>_. g i)) [0..<u] m;
          tgt = (if 64 - s mod 64 < r then g u else drop_bit (s mod 64) (src ! (s div 64 + u))) in
      if r \<noteq> 0 then
        upd_entry (t div 64 + u) (\<lambda>e. (tgt AND drop_bit (64 - r) MAX_ENTRY) OR (e AND push_bit r MAX_ENTRY)) m'
      else m')"
  unfolding SliceInPlace_shift_def Let_def shift_fold [unfolded Let_def] prod.case ..

lemma SliceInPlace_shift_rows:
  assumes wf: "mask_wf m" and es: "validity_mask m = Some es" and al: "IsAligned t" "\<not> IsAligned s"
    and bounds: "t + cnt \<le> capacity m" and src: "validity_mask other = Some src"
  shows "RowIsValid (SliceInPlace_shift src t s cnt m) r = sliced other t s cnt m r"
proof -
  have t: "t mod 64 = 0" and tail: "0 < s mod 64" using al by (auto simp: IsAligned_def)
  let ?tail = "s mod 64" and ?P = "\<lambda>i. RowIsValid other (s + i)"
  let ?g = "\<lambda>i. drop_bit ?tail (src ! (s div 64 + i)) OR push_bit (64 - ?tail) (src ! (s div 64 + 1 + i))"
  have P: "?P (64 * i + k) =
      (if ?tail + k < 64 then bit (src ! (s div 64 + i)) (?tail + k) else bit (src ! (s div 64 + 1 + i)) (?tail + k - 64))"
    if "k < 64" for i k
    using src that by (simp add: RowIsValid_bit unaligned_index)
  have g: "bit (?g i) k = ?P (64 * i + k)" if "k < 64" for i k
    unfolding P [OF that] by (rule bit_shifted(1)) (use that tail in auto)
  show ?thesis
  proof (cases "cnt mod 64 = 0")
    case True
    then have "64 * (cnt div 64) = cnt" by auto
    with True RowIsValid_units [OF wf es t bounds g, of r] show ?thesis
      by (simp add: SliceInPlace_shift_eq Let_def sliced_def)
  next
    case False
    let ?u = "cnt div 64" and ?r = "cnt mod 64"
    let ?tgt = "if 64 - ?tail < ?r then ?g ?u else drop_bit ?tail (src ! (s div 64 + ?u))"
    have f: "bit ((?tgt AND drop_bit (64 - ?r) MAX_ENTRY) OR (e AND push_bit ?r MAX_ENTRY)) k =
        (if k < ?r then ?P (64 * ?u + k) else bit e k)" if k: "k < 64" for e k
    proof -
      have "bit ?tgt k = ?P (64 * ?u + k)" if "k < ?r"
        using g [OF k, of ?u] P [OF k, of ?u] bit_shifted(2) [OF k tail, of "src ! (s div 64 + ?u)"] that by auto
      moreover have "bit (drop_bit (64 - ?r) MAX_ENTRY) k \<longleftrightarrow> k < ?r" "bit (push_bit ?r MAX_ENTRY) k \<longleftrightarrow> ?r \<le> k"
        using k False by (auto simp: bit_simps)
      ultimately show ?thesis
        by (auto simp: bit_or_iff bit_and_iff)
    qed
    have "SliceInPlace_shift src t s cnt m =
        upd_entry (t div 64 + ?u) (\<lambda>e. (?tgt AND drop_bit (64 - ?r) MAX_ENTRY) OR (e AND push_bit ?r MAX_ENTRY))
          (fold (\<lambda>i. upd_entry (t div 64 + i) (\<lambda>_. ?g i)) [0..<?u] m)"
      using False by (simp add: SliceInPlace_shift_eq Let_def)
    then show ?thesis
      using RowIsValid_ragged [OF wf es t bounds g f False] by (simp add: sliced_def)
  qed
qed

lemma SliceInPlace_simps [simp]:
  "capacity (SliceInPlace_aligned other t s cnt m) = capacity m"
  "capacity (SliceInPlace_shift src t s cnt m) = capacity m"
  "mask_wf (SliceInPlace_aligned other t s cnt m) = mask_wf m"
  "mask_wf (SliceInPlace_shift src t s cnt m) = mask_wf m"
  by (simp_all add: SliceInPlace_aligned_def SliceInPlace_shift_eq Let_def)

lemma Mask_SliceInPlace_rows:
  assumes "mask_wf m" and "t + cnt \<le> capacity m" and "\<not> AllValid other \<or> IsAligned s \<or> \<not> IsAligned t"
  shows "\<exists>m'. Mask_SliceInPlace other t s cnt m = Inr m' \<and> mask_wf m' \<and> capacity m' = capacity m \<and>
    (\<forall>r < capacity m. RowIsValid m' r = sliced other t s cnt m r)"
proof (cases "AllValid m \<and> AllValid other")
  case True
  then show ?thesis
    using assms(1) by (simp add: Mask_SliceInPlace_def sliced_def AllValid_def RowIsValid_bit)
next
  case False
  let ?m = "EnsureWritable m"
  have wf: "mask_wf ?m" and bounds: "t + cnt \<le> capacity ?m" using assms by simp_all
  obtain es where es: "validity_mask ?m = Some es"
    using EnsureWritable_simps(3) [of m] by blast
  have eq: "sliced other t s cnt ?m r = sliced other t s cnt m r" if "r < capacity m" for r
    using that by (simp add: sliced_def)
  consider "IsAligned s" "IsAligned t" | src where "\<not> IsAligned s" "IsAligned t" "validity_mask other = Some src" | "\<not> IsAligned t"
    using assms(3) by (auto simp: AllValid_def)
  then show ?thesis
  proof cases
    case 1
    then have "Mask_SliceInPlace other t s cnt m = Inr (SliceInPlace_aligned other t s cnt ?m)"
      unfolding Mask_SliceInPlace_def using False by (simp only: if_False Let_def) simp
    then show ?thesis
      using SliceInPlace_aligned_rows [OF wf es 1 bounds, of other] assms(1) eq by simp
  next
    case 2
    then have "Mask_SliceInPlace other t s cnt m = Inr (SliceInPlace_shift src t s cnt ?m)"
      unfolding Mask_SliceInPlace_def using False by (simp only: if_False Let_def) simp
    then show ?thesis
      using SliceInPlace_shift_rows [OF wf es 2(2,1) bounds 2(3)] assms(1) eq by simp
  next
    case 3
    then have "Mask_SliceInPlace other t s cnt m = Inr (copy_rows (\<lambda>i. RowIsValid other (s + i)) t cnt ?m)"
      unfolding Mask_SliceInPlace_def using False by (simp only: if_False Let_def) simp
    then show ?thesis
      using RowIsValid_copy_rows [OF wf bounds] wf eq by (simp add: sliced_def)
  qed
qed

section \<open>Counting\<close>

text \<open>The number of ones of a number, from the lowest bit up.\<close>

fun popcount :: "nat \<Rightarrow> nat" where
  "popcount n = (if n = 0 then 0 else n mod 2 + popcount (n div 2))"

declare popcount.simps [simp del]

lemma popcount_0 [simp]: "popcount 0 = 0"
  by (simp add: popcount.simps)

lemma popcount_double [simp]: "popcount (2 * n) = popcount n" "popcount (Suc (2 * n)) = Suc (popcount n)"
  by (simp_all add: popcount.simps [of "2 * n"] popcount.simps [of "Suc (2 * n)"])

lemma and_pred_even: "0 < k \<Longrightarrow> 2 * k AND (2 * k - 1) = 2 * (k AND (k - 1))" for k :: nat
proof -
  assume "0 < k"
  then have "2 * k - 1 = 2 * (k - 1) + 1" by simp
  then show ?thesis
    by (simp only: and_rec [of "2 * k"]) simp
qed

lemma and_pred_odd: "Suc (2 * k) AND 2 * k = 2 * k" for k :: nat
  by (subst and_rec) simp

lemma popcount_and_pred: "0 < n \<Longrightarrow> popcount n = Suc (popcount (n AND (n - 1)))"
proof (induction n rule: less_induct)
  case (less n)
  show ?case
  proof (cases "even n")
    case True
    then obtain k where n: "n = 2 * k" by blast
    then have "0 < k" "k < n" using less.prems by auto
    then show ?thesis using less.IH [of k] n and_pred_even by simp
  next
    case False
    then obtain k where n: "n = Suc (2 * k)" by (metis oddE Suc_eq_plus1)
    then show ?thesis by (simp add: and_pred_odd)
  qed
qed

lemma kernighan_popcount: "kernighan e v = v + popcount (unat e)"
proof (induction e v rule: kernighan.induct)
  case (1 e v)
  show ?case
  proof (cases "e = 0")
    case True
    then show ?thesis by (simp add: kernighan.simps)
  next
    case False
    then have "unat (e AND (e - 1)) = unat e AND (unat e - 1)"
      by (simp add: unsigned_and_eq unat_minus_one)
    moreover have "0 < unat e" using False by (simp add: unat_gt_0)
    ultimately show ?thesis
      using False 1 popcount_and_pred [of "unat e"] by (simp add: kernighan.simps [of e])
  qed
qed

lemma popcount_filter: "n < 2 ^ w \<Longrightarrow> popcount n = length (filter (bit n) [0..<w])"
proof (induction w arbitrary: n)
  case (Suc w)
  have split: "filter (bit n) [0..<Suc w] = (if odd n then [0] else []) @ map Suc (filter (bit (n div 2)) [0..<w])"
    by (simp add: upt_conv_Cons bit_0 map_Suc_upt [symmetric] filter_map o_def bit_Suc del: upt_Suc)
  have "popcount (n div 2) = length (filter (bit (n div 2)) [0..<w])"
    using Suc.prems by (intro Suc.IH) auto
  then show ?case
    unfolding split using popcount.simps [of n] by (auto simp: odd_iff_mod_2_eq_one)
qed simp

lemma popcount_entry: "popcount (unat (e :: u64)) = length (filter (bit e) [0..<64])"
proof -
  have "unat e < 2 ^ 64" using unsigned_less [of e] by simp
  then have "popcount (unat e) = length (filter (bit (unat e)) [0..<64])"
    by (rule popcount_filter)
  also have "filter (bit (unat e)) [0..<64] = filter (bit e) [0..<64]"
    by (rule filter_cong) (simp_all add: bit_unsigned_iff)
  finally show ?thesis .
qed

lemma kernighan_count: "kernighan e v = v + length (filter (bit e) [0..<64])"
  by (simp add: kernighan_popcount popcount_entry)

text \<open>The rows of entry \<open>i\<close> among the first \<open>cnt\<close>, and how many of them are valid.\<close>

definition entry_rows :: "nat \<Rightarrow> nat \<Rightarrow> nat list" where
  "entry_rows cnt i = [64 * i..<min cnt (64 * Suc i)]"

lemma filter_entry:
  "n \<le> 64 \<Longrightarrow> length (filter (\<lambda>k. k < n \<and> bit (GetValidityEntry m i) k) [0..<64]) =
     length (filter (RowIsValid m) [64 * i..<64 * i + n])"
proof -
  assume n: "n \<le> 64"
  have upt: "[64 * i..<64 * i + n] = map (\<lambda>k. 64 * i + k) [0..<n]"
    using map_add_upt [of "64 * i" n] by (simp add: add.commute)
  have split: "[0..<64] = [0..<n] @ [n..<64]"
    using n upt_add_eq_append [of 0 n "64 - n"] by simp
  have "filter (\<lambda>k. k < n \<and> bit (GetValidityEntry m i) k) [0..<64] = filter (\<lambda>k. RowIsValid m (64 * i + k)) [0..<n]"
    unfolding split filter_append using n by (auto simp: entry_bit intro!: filter_cong)
  then show ?thesis
    unfolding upt by (simp add: filter_map o_def)
qed

lemma count_entries_step:
  assumes "i < EntryCount cnt"
  shows "count_entries m cnt (EntryCount cnt) (i # is) v =
     count_entries m cnt (EntryCount cnt) is (v + length (filter (RowIsValid m) (entry_rows cnt i)))"
proof -
  let ?e = "GetValidityEntry m i" and ?g = "cnt mod 64"
  have last: "min cnt (64 * Suc i) = (if Suc i = EntryCount cnt \<and> ?g \<noteq> 0 then 64 * i + ?g else 64 * i + 64)"
  proof -
    obtain q g where c: "cnt = 64 * q + g" "g < 64" "cnt div 64 = q" "cnt mod 64 = g" using split_64 by blast
    have "EntryCount cnt = (if g = 0 then q else Suc q)"
      unfolding EntryCount_def c(1) using c(2) by auto
    with assms c show ?thesis by (auto simp: min_def)
  qed
  show ?thesis
  proof (cases "Suc i = EntryCount cnt \<and> ?g \<noteq> 0")
    case True
    have "filter (bit (?e AND drop_bit (64 - ?g) MAX_ENTRY)) [0..<64] = filter (\<lambda>k. k < ?g \<and> bit ?e k) [0..<64]"
      by (rule filter_cong) (use True in \<open>auto simp: bit_simps\<close>)
    then show ?thesis
      using True last filter_entry [of ?g m i] by (simp add: kernighan_count Let_def entry_rows_def)
  next
    case False
    have all: "length (filter (bit ?e) [0..<64]) = length (filter (RowIsValid m) (entry_rows cnt i))"
      using filter_entry [of 64 m i] last False unfolding entry_rows_def
      by (metis (no_types, lifting) atLeastLessThan_iff filter_cong le_refl set_upt)
    moreover have "length (filter (bit ?e) [0..<64]) = 64" if "AllValid_entry ?e"
    proof -
      have "filter (bit ?e) [0..<64] = [0..<64]"
        using that by (intro filter_True) (simp add: AllValid_entry_def)
      then show ?thesis by simp
    qed
    ultimately show ?thesis
      using False by (auto simp: Let_def kernighan_count)
  qed
qed

lemma count_entries_concat:
  "\<forall>i \<in> set is. i < EntryCount cnt \<Longrightarrow>
   count_entries m cnt (EntryCount cnt) is v = v + length (filter (RowIsValid m) (concat (map (entry_rows cnt) is)))"
proof (induction "is" arbitrary: v)
  case (Cons i "is")
  then show ?case
    using count_entries_step [of i cnt m "is" v] by simp
qed simp

lemma concat_entry_rows: "concat (map (entry_rows cnt) [0..<n]) = [0..<min cnt (64 * n)]"
proof (induction n)
  case (Suc n)
  have "[0..<min cnt (64 * n)] @ [64 * n..<min cnt (64 * Suc n)] = [0..<min cnt (64 * Suc n)]"
  proof (cases "64 * n \<le> cnt")
    case True
    then show ?thesis
      using upt_add_eq_append [of 0 "64 * n" "min cnt (64 * Suc n) - 64 * n"] by (simp add: min_def)
  qed simp
  then show ?case
    using Suc.IH by (simp add: entry_rows_def)
qed simp

lemma CountValid_rows: "CountValid m cnt = length (filter (RowIsValid m) [0..<cnt])"
proof (cases "AllValid m \<or> cnt = 0")
  case True
  then show ?thesis
    by (auto simp: CountValid_def AllValid_def RowIsValid_bit)
next
  case False
  have "min cnt (64 * EntryCount cnt) = cnt"
    using EntryCount_bounds(1) by simp
  then show ?thesis
    using False count_entries_concat [of "[0..<EntryCount cnt]" cnt m 0] concat_entry_rows [of cnt "EntryCount cnt"]
    by (simp add: CountValid_def)
qed

section \<open>Whole ranges, combination, growth\<close>

lemma last_entry:
  fixes cnt r :: nat
  assumes "0 < cnt"
  shows "r div 64 < EntryCount cnt - 1 \<Longrightarrow> r < cnt"
    and "r div 64 = EntryCount cnt - 1 \<Longrightarrow> r < cnt \<longleftrightarrow> cnt mod 64 = 0 \<or> r mod 64 < cnt mod 64"
    and "r div 64 > EntryCount cnt - 1 \<Longrightarrow> cnt \<le> r"
    and "cnt mod 64 = 0 \<Longrightarrow> r div 64 \<le> EntryCount cnt - 1 \<longleftrightarrow> r < cnt"
    and "r div 64 \<le> EntryCount cnt - 1 \<longleftrightarrow> r < 64 * EntryCount cnt"
proof -
  obtain e k where r: "r = 64 * e + k" "k < 64" "r div 64 = e" "r mod 64 = k" using split_64 by blast
  obtain q g where c: "cnt = 64 * q + g" "g < 64" "cnt div 64 = q" "cnt mod 64 = g" using split_64 by blast
  have n: "EntryCount cnt = (if g = 0 then q else Suc q)"
    unfolding EntryCount_def c(1) using c(2) by auto
  have q: "g = 0 \<Longrightarrow> 0 < q" using assms c by simp
  show "r div 64 < EntryCount cnt - 1 \<Longrightarrow> r < cnt"
    unfolding r(3) n unfolding r(1) c(1) using r(2) by (auto split: if_splits)
  show "r div 64 = EntryCount cnt - 1 \<Longrightarrow> r < cnt \<longleftrightarrow> cnt mod 64 = 0 \<or> r mod 64 < cnt mod 64"
    unfolding r(3,4) c(4) n unfolding r(1) c(1) using r(2) q by (auto split: if_splits)
  show "r div 64 > EntryCount cnt - 1 \<Longrightarrow> cnt \<le> r"
    unfolding r(3) n unfolding r(1) c(1) using c(2) q by (auto split: if_splits)
  show "cnt mod 64 = 0 \<Longrightarrow> r div 64 \<le> EntryCount cnt - 1 \<longleftrightarrow> r < cnt"
    unfolding r(3) c(4) n unfolding r(1) c(1) using r(2) q by auto
  show "r div 64 \<le> EntryCount cnt - 1 \<longleftrightarrow> r < 64 * EntryCount cnt"
    unfolding r(3) n unfolding r(1) using r(2) q by auto
qed

text \<open>Overwriting the first \<open>n\<close> entries and updating the next one.\<close>

lemma RowIsValid_prefix:
  assumes "mask_wf m" "validity_mask m = Some es" "Suc n \<le> length es"
  shows "RowIsValid (upd_entry n f (fold (\<lambda>i. upd_entry i (\<lambda>_. g)) [0..<n] m)) r =
    (if r div 64 < n then bit g (r mod 64) else if r div 64 = n then bit (f (es ! n)) (r mod 64) else RowIsValid m r)"
proof -
  let ?m = "fold (\<lambda>i. upd_entry i (\<lambda>_. g)) [0..<n] m"
  have n: "0 + n \<le> length es" using assms(3) by simp
  note rows = RowIsValid_fold_upd [OF assms(2) n, of "\<lambda>_. g", unfolded add_0]
  obtain es' where es': "validity_mask ?m = Some es'" "length es' = length es"
    using fold_upd_length [OF assms(2), of 0 "\<lambda>i _. g" "[0..<n]"] by auto
  have "es' ! n = es ! n"
  proof (rule bit_word_eqI)
    fix k assume k: "k < LENGTH(64)"
    have "(64 * n + k) div 64 = n" "(64 * n + k) mod 64 = k" using k by auto
    then show "bit (es' ! n) k = bit (es ! n) k"
      using rows [of "64 * n + k"] es'(1) assms(2) by (simp add: RowIsValid_bit)
  qed
  then show ?thesis
    using RowIsValid_upd_entry [OF es'(1), of n f r] es'(2) assms(3) rows [of r] by simp
qed

lemma EntryCount_mono: "a \<le> b \<Longrightarrow> EntryCount a \<le> EntryCount b"
  by (simp add: EntryCount_def div_le_mono)

lemma writable_entries:
  assumes "mask_wf m" "cnt \<le> capacity m" "0 < cnt"
  obtains es where "validity_mask (EnsureWritable m) = Some es" "mask_wf (EnsureWritable m)"
    "Suc (EntryCount cnt - 1) \<le> length es"
proof -
  obtain es where es: "validity_mask (EnsureWritable m) = Some es"
    using EnsureWritable_simps(3) [of m] by blast
  have "0 < EntryCount cnt" using EntryCount_bounds(1) [of cnt] assms(3) by (cases "EntryCount cnt") auto
  moreover have "EntryCount (capacity m) \<le> length es"
    using EnsureWritable_simps(2) [OF assms(1)] es by (simp add: mask_wf_def)
  ultimately have "Suc (EntryCount cnt - 1) \<le> length es"
    using EntryCount_mono [OF assms(2)] by simp
  with es that assms(1) show ?thesis by simp
qed

lemma SetAllInvalid_rows:
  assumes "mask_wf m" "cnt \<le> capacity m" "r < capacity m"
  shows "RowIsValid (SetAllInvalid cnt m) r \<longleftrightarrow>
    (if r < cnt then False else if r < 64 * EntryCount cnt then True else RowIsValid m r)"
proof (cases "cnt = 0")
  case True
  then show ?thesis
    using assms by (simp add: SetAllInvalid_def SetRangeInvalid_def EntryCount_def)
next
  case False
  obtain es where es: "validity_mask (EnsureWritable m) = Some es" "mask_wf (EnsureWritable m)"
    and len: "Suc (EntryCount cnt - 1) \<le> length es"
    using writable_entries assms False by blast
  have "min (EntryCount cnt - 1) (EntryCount cnt) = EntryCount cnt - 1" "\<not> EntryCount cnt \<le> EntryCount cnt - 1"
    using EntryCount_bounds(1) [of cnt] False by auto
  then have eq: "SetAllInvalid cnt m = upd_entry (EntryCount cnt - 1)
      (\<lambda>_. if cnt mod 64 = 0 then 0 else push_bit (cnt mod 64) MAX_ENTRY)
      (fold (\<lambda>i. upd_entry i (\<lambda>_. 0)) [0..<EntryCount cnt - 1] (EnsureWritable m))"
    using False by (simp add: SetAllInvalid_def SetRangeInvalid_def Let_def)
  show ?thesis
    unfolding eq RowIsValid_prefix [OF es(2,1) len]
    using last_entry [of cnt r] False assms(3) by (auto simp: bit_simps)
qed

lemma SetAllValid_rows:
  assumes "mask_wf m" "cnt \<le> capacity m" "r < capacity m"
  shows "RowIsValid (SetAllValid cnt m) r \<longleftrightarrow> r < cnt \<or> RowIsValid m r"
proof (cases "cnt = 0")
  case True
  then show ?thesis
    using assms by (simp add: SetAllValid_def)
next
  case False
  obtain es where es: "validity_mask (EnsureWritable m) = Some es" "mask_wf (EnsureWritable m)"
    and len: "Suc (EntryCount cnt - 1) \<le> length es"
    using writable_entries assms False by blast
  have eq: "SetAllValid cnt m = upd_entry (EntryCount cnt - 1)
      (\<lambda>e. e OR (if cnt mod 64 = 0 then MAX_ENTRY else NOT (push_bit (cnt mod 64) MAX_ENTRY)))
      (fold (\<lambda>i. upd_entry i (\<lambda>_. MAX_ENTRY)) [0..<EntryCount cnt - 1] (EnsureWritable m))"
    using False by (simp add: SetAllValid_def Let_def)
  have "RowIsValid m r = bit (es ! (r div 64)) (r mod 64)"
    using RowIsValid_EnsureWritable [OF assms(3)] es(1) by (simp add: RowIsValid_bit)
  then show ?thesis
    unfolding eq RowIsValid_prefix [OF es(2,1) len]
    using last_entry [of cnt r] False assms(3) by (auto simp: bit_simps)
qed

lemma SetAll_wf [simp]:
  "mask_wf m \<Longrightarrow> mask_wf (SetAllInvalid cnt m)" "capacity (SetAllInvalid cnt m) = capacity m"
  "mask_wf m \<Longrightarrow> mask_wf (SetAllValid cnt m)" "capacity (SetAllValid cnt m) = capacity m"
  using fold_upd_simps [where t = 0]
  by (simp_all add: SetAllInvalid_def SetRangeInvalid_def SetAllValid_def Let_def)

text \<open>Two masks combine to the rows valid in both; two copies of one buffer are equal masks.\<close>

lemma Combine_rows:
  assumes "r < cnt" "same_buffer \<Longrightarrow> validity_mask other = validity_mask m"
  shows "RowIsValid (Combine same_buffer other cnt m) r \<longleftrightarrow> RowIsValid m r \<and> RowIsValid other r"
proof -
  have "r div 64 < EntryCount cnt"
    using EntryCount_bounds(1) [of cnt] assms(1) by auto
  then show ?thesis
    using assms(2) by (auto simp: Combine_def RowIsValid_bit bit_and_iff split: option.splits)
qed

lemma Mask_Resize_rows:
  assumes "mask_wf m"
  shows "r < capacity m \<Longrightarrow> RowIsValid (Mask_Resize n m) r = RowIsValid m r"
    and "64 * EntryCount (capacity m) \<le> r \<Longrightarrow> r < n \<Longrightarrow> RowIsValid (Mask_Resize n m) r"
proof -
  have e: "r div 64 < EntryCount (capacity m)" if "r < capacity m"
    using EntryCount_bounds(1) [of "capacity m"] that by auto
  then show "r < capacity m \<Longrightarrow> RowIsValid (Mask_Resize n m) r = RowIsValid m r"
    by (auto simp: Mask_Resize_def RowIsValid_bit nth_append split: option.splits)
  assume r: "64 * EntryCount (capacity m) \<le> r" "r < n"
  have "r div 64 < EntryCount n" using EntryCount_bounds(1) [of n] r by auto
  moreover have "EntryCount (capacity m) \<le> r div 64" using r(1) by auto
  moreover have "capacity m < n" using EntryCount_bounds(1) [of "capacity m"] r by auto
  ultimately show "RowIsValid (Mask_Resize n m) r"
    by (auto simp: Mask_Resize_def RowIsValid_bit nth_append split: option.splits)
qed

section \<open>The properties of the mask\<close>

text \<open>
  A source mask without a buffer (every row valid) that is sliced at an unaligned offset into an
  aligned position of a mask that has a buffer is read through the null pointer.
\<close>

lemma slice_null_source:
  assumes "AllValid other" and "\<not> AllValid m" and "IsAligned t" and "\<not> IsAligned s"
  shows "Mask_SliceInPlace other t s cnt m = Inl Undefined"
  using assms by (simp add: Mask_SliceInPlace_def AllValid_def)

text \<open>
  C24: \<open>SliceInPlace\<close> of \<open>cnt\<close> rows inside the target has one of two outcomes. If the source has no buffer
  (every row valid), the target has one, the source offset is not a multiple of 64 and the target
  offset is, it reads through the source's null pointer, which is undefined behaviour. In every other
  case it is the copy row by row, whichever of the aligned, shifting and bit-by-bit paths is taken: rows of
  the target range take the source's validity, all other rows keep theirs. The source rows are meant
  to lie in its buffer; an entry read past it is unspecified here.
\<close>

theorem slice_copies_rows:
  assumes "mask_wf m" and "t + cnt \<le> capacity m"
  shows "if AllValid other \<and> \<not> AllValid m \<and> \<not> IsAligned s \<and> IsAligned t
    then Mask_SliceInPlace other t s cnt m = Inl Undefined
    else \<exists>m'. Mask_SliceInPlace other t s cnt m = Inr m' \<and> mask_wf m' \<and> capacity m' = capacity m \<and>
      (\<forall>r < capacity m. RowIsValid m' r =
         (if t \<le> r \<and> r < t + cnt then RowIsValid other (s + (r - t)) else RowIsValid m r))"
proof (cases "AllValid other \<and> \<not> IsAligned s \<and> IsAligned t")
  case True
  then show ?thesis
    using assms(1) slice_null_source [of other m t s cnt]
    by (auto simp: Mask_SliceInPlace_def AllValid_def RowIsValid_bit)
next
  case False
  then show ?thesis
    using Mask_SliceInPlace_rows [OF assms, of other s] by (auto simp: sliced_def)
qed

text \<open>The witness: a slice at an unaligned offset, of a mask with a NULL and of one without a buffer.\<close>

theorem slice_copies_rows_witness:
  "(\<exists>m'. Mask_SliceInPlace (SetInvalid 5 (Initialize 128)) 0 3 100 (Mask_Reset 128) = Inr m' \<and> \<not> RowIsValid m' 2 \<and> RowIsValid m' 3) \<and>
   Mask_SliceInPlace (Mask_Reset 64) 0 1 10 (Initialize 64) = Inl Undefined"
proof
  show "Mask_SliceInPlace (Mask_Reset 64) 0 1 10 (Initialize 64) = Inl Undefined"
    using slice_copies_rows [of "Initialize 64" 0 10 "Mask_Reset 64" 1]
    by (simp add: mask_wf_def AllValid_def Mask_Reset_def Initialize_def IsAligned_def)
next
  let ?o = "SetInvalid 5 (Initialize 128)"
  have wf: "mask_wf (Mask_Reset 128)" "mask_wf (Initialize 128)" "capacity (Initialize 128) = 128"
    by (simp_all add: mask_wf_def Mask_Reset_def Initialize_def)
  have rows: "\<not> RowIsValid ?o 5" "RowIsValid ?o 6"
    using RowIsValid_SetInvalid [OF wf(2), of 5 5] RowIsValid_SetInvalid [OF wf(2), of 5 6] wf(3)
      EnsureWritable_simps RowIsValid_EnsureWritable [of 6 "Mask_Reset 128"]
    by (simp_all add: EnsureWritable_def Mask_Reset_def RowIsValid_bit)
  have "\<exists>m'. Mask_SliceInPlace ?o 0 3 100 (Mask_Reset 128) = Inr m' \<and> mask_wf m' \<and> capacity m' = capacity (Mask_Reset 128) \<and>
    (\<forall>r < capacity (Mask_Reset 128). RowIsValid m' r =
       (if 0 \<le> r \<and> r < 0 + 100 then RowIsValid ?o (3 + (r - 0)) else RowIsValid (Mask_Reset 128) r))"
    using slice_copies_rows [of "Mask_Reset 128" 0 100 ?o 3] wf by (simp add: Mask_Reset_def AllValid_def SetInvalid_def)
  with rows show "\<exists>m'. Mask_SliceInPlace ?o 0 3 100 (Mask_Reset 128) = Inr m' \<and> \<not> RowIsValid m' 2 \<and> RowIsValid m' 3"
    by (auto simp: Mask_Reset_def)
qed

text \<open>
  C25: \<open>CountValid\<close>, which clears the lowest set bit of each entry in a loop, skips full entries and
  masks the last one, returns the number of valid rows.
\<close>

theorem count_valid_rows: "CountValid m cnt = card {r. r < cnt \<and> RowIsValid m r}"
proof -
  have "{r. r < cnt \<and> RowIsValid m r} = set (filter (RowIsValid m) [0..<cnt])" by auto
  then show ?thesis
    unfolding CountValid_rows by (metis distinct_card distinct_filter distinct_upt)
qed

text \<open>
  \<open>SetAllInvalid\<close> clears the first \<open>cnt\<close> rows, keeps the rows of later entries and sets the rows that
  share the last entry with row \<open>cnt - 1\<close> but follow it.
\<close>

theorem set_all_invalid_rows:
  assumes "mask_wf m" and "cnt \<le> capacity m" and "r < capacity m"
  shows "RowIsValid (SetAllInvalid cnt m) r \<longleftrightarrow> cnt \<le> r \<and> (r < 64 * EntryCount cnt \<or> RowIsValid m r)"
  using SetAllInvalid_rows [OF assms] by auto

theorem set_all_invalid_rows_witness:
  "RowIsValid (SetAllInvalid 3 (SetInvalid 5 (Initialize 64))) 5 \<and> \<not> RowIsValid (SetAllInvalid 3 (SetInvalid 5 (Initialize 64))) 2"
proof -
  let ?m = "SetInvalid 5 (Initialize 64)"
  have "mask_wf ?m" "capacity ?m = 64"
    by (simp_all add: mask_wf_def Initialize_def SetInvalid_def EnsureWritable_def upd_entry_def)
  then show ?thesis
    using set_all_invalid_rows [of ?m 3 5] set_all_invalid_rows [of ?m 3 2] by (simp add: EntryCount_def)
qed

end
