(* ===== verification/Validity_Serialization.thy ===== *)
theory Validity_Serialization
  imports Validity_Mask
begin

text \<open>
  The serialized form of a mask (\<open>ValidityMask::Write\<close> and \<open>ValidityMask::Read\<close> of
  \<open>validity_mask.cpp\<close>): the bitmask itself or, when shorter, the indexes of the valid or of the
  invalid rows. A stream is the list of bytes still to be read, as \<open>MemoryStream\<close> hands them out;
  reading past the end is its exception.
\<close>

section \<open>Streams\<close>

definition ReadData :: "nat \<Rightarrow> 8 word list \<Rightarrow> (8 word list \<times> 8 word list) result" where
  "ReadData read_size stream =
     (if length stream < read_size then Inl SerializationException
      else Inr (take read_size stream, drop read_size stream))"

lemma ReadData_append [simp]: "length bs = n \<Longrightarrow> ReadData n (bs @ rest) = Inr (bs, rest)"
  by (auto simp: ReadData_def)

section \<open>Write and Read\<close>

text \<open>\<open>ValiditySerialization\<close>: the flag byte.\<close>

definition BITMASK :: "8 word" where "BITMASK = 0"
definition VALID_VALUES :: "8 word" where "VALID_VALUES = 1"
definition INVALID_VALUES :: "8 word" where "INVALID_VALUES = 2"

definition ValidityMaskSize :: "nat \<Rightarrow> nat" where
  "ValidityMaskSize cnt = EntryCount cnt * 8"

text \<open>
  The entries as bytes: \<open>WriteData\<close> of a null pointer is only defined for no bytes at all.
\<close>

definition mask_bytes :: "ValidityMask \<Rightarrow> nat \<Rightarrow> 8 word list result" where
  "mask_bytes m n =
     (case validity_mask m of
        None \<Rightarrow> if n = 0 then Inr [] else Inl Undefined
      | Some es \<Rightarrow> Inr (concat (map (\<lambda>e. le_bytes 8 (unat e)) (take (n div 8) es))))"

definition Mask_Write :: "ValidityMask \<Rightarrow> nat \<Rightarrow> 8 word list result" where
  "Mask_Write m cnt =
     (let valid_values = CountValid m cnt;
          invalid_values = cnt - valid_values;
          bitmask_bytes = ValidityMaskSize cnt;
          need_u32 = cnt \<ge> 65535;
          bytes_per_value = (if need_u32 then 4 else 2);
          valid_value_size = bytes_per_value * valid_values + 4;
          invalid_value_size = bytes_per_value * invalid_values + 4 in
      if valid_value_size < bitmask_bytes \<or> invalid_value_size < bitmask_bytes then
        let serialize_valid = valid_value_size < invalid_value_size;
            flag = (if serialize_valid then VALID_VALUES else INVALID_VALUES) in
        if min valid_values invalid_values \<ge> 2 ^ 32 then Inl InternalException
        else
          Inr (flag # le_bytes 4 (min valid_values invalid_values) @
            concat (map (\<lambda>i. if RowIsValid m i = serialize_valid then le_bytes bytes_per_value i else []) [0..<cnt]))
      else
        bindE (mask_bytes m bitmask_bytes) (\<lambda>bs. Inr (BITMASK # bs)))"

text \<open>Eight bytes make an entry.\<close>

fun entries_of :: "nat \<Rightarrow> 8 word list \<Rightarrow> u64 list" where
  "entries_of 0 bs = []"
| "entries_of (Suc n) bs = word_of_nat (le_nat (take 8 bs)) # entries_of n (drop 8 bs)"

text \<open>A bit set outside the buffer is a write past its end.\<close>

fun read_indexes :: "nat \<Rightarrow> bool \<Rightarrow> nat \<Rightarrow> ValidityMask \<Rightarrow> 8 word list \<Rightarrow> (ValidityMask \<times> 8 word list) result" where
  "read_indexes bytes_per_value is_valid 0 m stream = Inr (m, stream)"
| "read_indexes bytes_per_value is_valid (Suc n) m stream =
     bindE (ReadData bytes_per_value stream) (\<lambda>(bs, stream).
       let index = le_nat bs in
       if EntryCount (capacity m) \<le> index div 64 then Inl Undefined
       else read_indexes bytes_per_value is_valid n (Set index is_valid m) stream)"

definition Mask_Read :: "nat \<Rightarrow> 8 word list \<Rightarrow> (ValidityMask \<times> 8 word list) result" where
  "Mask_Read cnt stream =
     (let m = Initialize cnt in
      bindE (ReadData 1 stream) (\<lambda>(flag, stream).
        if flag = [BITMASK] then
          bindE (ReadData (ValidityMaskSize cnt) stream) (\<lambda>(bs, stream).
            Inr (m\<lparr>validity_mask := Some (entries_of (EntryCount cnt) bs)\<rparr>, stream))
        else
          let is_u32 = cnt \<ge> 65535;
              is_valid = (flag = [VALID_VALUES]) in
          bindE (ReadData 4 stream) (\<lambda>(bs, stream).
            let serialize_count = le_nat bs;
                m = (if is_valid then SetAllInvalid cnt m else m) in
            read_indexes (if is_u32 then 4 else 2) is_valid serialize_count m stream)))"

section \<open>Reading what was written\<close>

lemma entries_of_bytes [simp]:
  "entries_of (length es) (concat (map (\<lambda>e. le_bytes 8 (unat e)) es)) = es"
proof (induction es)
  case (Cons e es)
  have "unat e < 256 ^ 8" by (rule unat64_less)
  with Cons show ?case by (simp del: power_numeral le_bytes.simps)
qed simp

lemma fold_Set_simps [simp]:
  "capacity (fold (\<lambda>i. Set i v) xs m) = capacity m" "mask_wf m \<Longrightarrow> mask_wf (fold (\<lambda>i. Set i v) xs m)"
  by (induction xs arbitrary: m) simp_all

lemma RowIsValid_fold_Set:
  "mask_wf m \<Longrightarrow> \<forall>i \<in> set xs. i < capacity m \<Longrightarrow> r < capacity m \<Longrightarrow>
   RowIsValid (fold (\<lambda>i. Set i v) xs m) r = (if r \<in> set xs then v else RowIsValid m r)"
  by (induction xs arbitrary: m) (auto simp: RowIsValid_Set)

lemma in_entries: "i < n \<Longrightarrow> \<not> EntryCount n \<le> i div 64"
  using EntryCount_bounds(1) [of n] by auto

lemma read_indexes_bytes:
  "\<forall>i \<in> set xs. i < capacity m \<and> i < 256 ^ b \<Longrightarrow>
   read_indexes b v (length xs) m (concat (map (le_bytes b) xs) @ rest) = Inr (fold (\<lambda>i. Set i v) xs m, rest)"
  by (induction xs arbitrary: m) (simp_all add: in_entries Let_def)

lemma concat_if_filter: "concat (map (\<lambda>x. if P x then f x else []) xs) = concat (map f (filter P xs))"
  by (induction xs) simp_all

lemma length_filter_not: "length (filter (\<lambda>x. \<not> P x) xs) = length xs - length (filter P xs)"
  using sum_length_filter_compl [of P xs] by simp

lemma Initialize_simps [simp]:
  "mask_wf (Initialize n)" "capacity (Initialize n) = n" "r < n \<Longrightarrow> RowIsValid (Initialize n) r"
  using in_entries [of r n] by (simp_all add: Initialize_def mask_wf_def RowIsValid_bit)

text \<open>The rows in the stream, and the width of an index.\<close>

definition listed_rows :: "ValidityMask \<Rightarrow> nat \<Rightarrow> bool \<Rightarrow> nat list" where
  "listed_rows m cnt v = filter (\<lambda>i. RowIsValid m i = v) [0..<cnt]"

lemma length_listed_rows:
  "length (listed_rows m cnt v) = (if v then CountValid m cnt else cnt - CountValid m cnt)"
  by (cases v) (simp_all add: listed_rows_def CountValid_rows length_filter_not)

lemma Mask_Read_indexes:
  assumes "cnt < 2 ^ 32"
  defines "b \<equiv> if cnt \<ge> 65535 then 4 else 2"
  shows "\<exists>m'. Mask_Read cnt ((if v then VALID_VALUES else INVALID_VALUES) #
      le_bytes 4 (length (listed_rows m cnt v)) @ concat (map (le_bytes b) (listed_rows m cnt v)) @ rest) = Inr (m', rest) \<and>
    (\<forall>r < cnt. RowIsValid m' r = RowIsValid m r)"
proof -
  let ?xs = "listed_rows m cnt v" and ?m = "if v then SetAllInvalid cnt (Initialize cnt) else Initialize cnt"
  have len: "length ?xs < 256 ^ 4"
    using assms(1) length_filter_le [of "\<lambda>i. RowIsValid m i = v" "[0..<cnt]"] by (simp add: listed_rows_def)
  have xs: "\<forall>i \<in> set ?xs. i < capacity ?m \<and> i < 256 ^ b"
    using assms(1) by (auto simp: listed_rows_def b_def)
  have read: "Mask_Read cnt ((if v then VALID_VALUES else INVALID_VALUES) #
      le_bytes 4 (length ?xs) @ concat (map (le_bytes b) ?xs) @ rest) = Inr (fold (\<lambda>i. Set i v) ?xs ?m, rest)"
    using read_indexes_bytes [OF xs, of v rest] ReadData_append [of "[if v then VALID_VALUES else INVALID_VALUES]" 1] len
    by (cases v) (simp_all add: Mask_Read_def Let_def BITMASK_def VALID_VALUES_def INVALID_VALUES_def b_def)
  have "RowIsValid (fold (\<lambda>i. Set i v) ?xs ?m) r = RowIsValid m r" if "r < cnt" for r
  proof -
    have "RowIsValid (fold (\<lambda>i. Set i v) ?xs ?m) r = (if r \<in> set ?xs then v else RowIsValid ?m r)"
      using xs that by (intro RowIsValid_fold_Set) auto
    moreover have "RowIsValid ?m r = (\<not> v)"
      using that by (auto simp: SetAllInvalid_rows)
    ultimately show ?thesis
      using that by (auto simp: listed_rows_def)
  qed
  with read show ?thesis by blast
qed

lemma length_le_concat: "length (concat (map (\<lambda>e. le_bytes 8 (f e)) es)) = 8 * length es"
  by (induction es) simp_all

lemma Mask_Read_bitmask:
  assumes "mask_wf m" "cnt \<le> capacity m" "validity_mask m = Some es"
  shows "\<exists>bs. mask_bytes m (ValidityMaskSize cnt) = Inr bs \<and>
    (\<exists>m'. Mask_Read cnt (BITMASK # bs @ rest) = Inr (m', rest) \<and> (\<forall>r < cnt. RowIsValid m' r = RowIsValid m r))"
proof -
  let ?es = "take (EntryCount cnt) es" and ?bytes = "\<lambda>es. concat (map (\<lambda>e. le_bytes 8 (unat e)) es)"
  have n: "length ?es = EntryCount cnt"
    using assms EntryCount_mono [OF assms(2)] by (simp add: mask_wf_def)
  have bs: "mask_bytes m (ValidityMaskSize cnt) = Inr (?bytes ?es)"
    using assms(3) by (simp add: mask_bytes_def ValidityMaskSize_def)
  have "Mask_Read cnt (BITMASK # ?bytes ?es @ rest) = Inr ((Initialize cnt)\<lparr>validity_mask := Some ?es\<rparr>, rest)"
    using ReadData_append [of "[BITMASK]" 1 "?bytes ?es @ rest"] entries_of_bytes [of ?es] n length_le_concat [of unat ?es]
    by (simp add: Mask_Read_def Let_def ValidityMaskSize_def mult.commute)
  moreover have "RowIsValid ((Initialize cnt)\<lparr>validity_mask := Some ?es\<rparr>) r = RowIsValid m r" if "r < cnt" for r
    using in_entries [OF that] assms(3) by (simp add: RowIsValid_bit)
  ultimately show ?thesis using bs by blast
qed

text \<open>
  C26: A mask of fewer than \<open>2^32\<close> rows is written without error in every format, and reading the bytes
  back gives a mask with the same valid rows and consumes exactly the bytes written.
\<close>

theorem mask_write_read:
  assumes "mask_wf m" and "cnt \<le> capacity m" and "cnt < 2 ^ 32"
  shows "\<exists>bs m'. Mask_Write m cnt = Inr bs \<and> Mask_Read cnt (bs @ rest) = Inr (m', rest) \<and>
    (\<forall>r < cnt. RowIsValid m' r = RowIsValid m r)"
proof -
  let ?v = "CountValid m cnt" and ?b = "if cnt \<ge> 65535 then 4 else 2 :: nat"
  let ?small = "?b * ?v + 4 < ValidityMaskSize cnt \<or> ?b * (cnt - ?v) + 4 < ValidityMaskSize cnt"
  show ?thesis
  proof (cases ?small)
    case True
    define sv where "sv = (?v < cnt - ?v)"
    have len: "length (listed_rows m cnt sv) = min ?v (cnt - ?v)"
      by (auto simp: length_listed_rows sv_def)
    have "Mask_Write m cnt = Inr ((if sv then VALID_VALUES else INVALID_VALUES) #
        le_bytes 4 (length (listed_rows m cnt sv)) @ concat (map (le_bytes ?b) (listed_rows m cnt sv)))"
      using True assms(3) by (simp add: Mask_Write_def Let_def len concat_if_filter listed_rows_def sv_def) (simp add: CountValid_rows length_filter_not)
    with Mask_Read_indexes [OF assms(3), of sv m rest] show ?thesis by auto
  next
    case False
    show ?thesis
    proof (cases "validity_mask m")
      case None
      then have "?v = cnt" by (simp add: CountValid_def AllValid_def)
      with False have "EntryCount cnt = 0" by (cases "EntryCount cnt") (simp_all add: ValidityMaskSize_def)
      then have "cnt = 0" using EntryCount_bounds(1) [of cnt] by simp
      with None show ?thesis
        using ReadData_append [of "[BITMASK]" 1 rest]
        by (simp add: Mask_Write_def Let_def mask_bytes_def ValidityMaskSize_def EntryCount_def CountValid_def
            Mask_Read_def ReadData_def)
    next
      case (Some es)
      obtain bs where "mask_bytes m (ValidityMaskSize cnt) = Inr bs"
        "\<exists>m'. Mask_Read cnt (BITMASK # bs @ rest) = Inr (m', rest) \<and> (\<forall>r < cnt. RowIsValid m' r = RowIsValid m r)"
        using Mask_Read_bitmask [OF assms(1,2) Some] by blast
      with False show ?thesis by (auto simp: Mask_Write_def Let_def)
    qed
  qed
qed

theorem mask_write_read_witness:
  "\<exists>bs m'. Mask_Write (Mask_Reset 2048) 2048 = Inr bs \<and> Mask_Read 2048 bs = Inr (m', []) \<and> RowIsValid m' 7"
proof -
  have "\<exists>bs m'. Mask_Write (Mask_Reset 2048) 2048 = Inr bs \<and> Mask_Read 2048 (bs @ []) = Inr (m', []) \<and>
      (\<forall>r < 2048. RowIsValid m' r = RowIsValid (Mask_Reset 2048) r)"
    by (rule mask_write_read) (simp_all add: mask_wf_def Mask_Reset_def)
  then show ?thesis
    by (auto simp: RowIsValid_bit Mask_Reset_def)
qed

end
