(* ===== verification/Selection_Vector.thy ===== *)
theory Selection_Vector
  imports Prelude
begin

text \<open>
  Selection vectors (\<open>selection_vector.hpp\<close>, \<open>selection_vector.cpp\<close>): an array of 32-bit row
  numbers, or a null pointer that stands for the identity. An array is a value here. A row number
  that does not fit 32 bits is truncated, as the unchecked cast does.

  The in-place routines are related to the selection of rows they mean: \<open>Inverted\<close> to the
  complement of a set, \<open>SliceInPlace\<close> to the composition of two selections.
\<close>

type_synonym sel_t = "32 word"
type_synonym SelectionVector = "sel_t list option"

abbreviation STANDARD_VECTOR_SIZE :: nat where "STANDARD_VECTOR_SIZE \<equiv> 2048"

section \<open>Operations\<close>

definition get_index :: "SelectionVector \<Rightarrow> nat \<Rightarrow> nat" where
  "get_index sel idx = (case sel of None \<Rightarrow> idx | Some xs \<Rightarrow> unat (xs ! idx))"

definition set_index :: "nat \<Rightarrow> nat \<Rightarrow> SelectionVector \<Rightarrow> SelectionVector" where
  "set_index idx loc sel = map_option (\<lambda>xs. xs[idx := word_of_nat loc]) sel"

definition sel_swap :: "nat \<Rightarrow> nat \<Rightarrow> SelectionVector \<Rightarrow> SelectionVector" where
  "sel_swap i j sel = map_option (\<lambda>xs. let tmp = xs ! i; xs = xs[i := xs ! j] in xs[j := tmp]) sel"

definition sel_IsSet :: "SelectionVector \<Rightarrow> bool" where
  "sel_IsSet sel \<longleftrightarrow> sel \<noteq> None"

text \<open>
  \<open>Initialize(count)\<close> allocates at least one element; the contents \<open>junk\<close> of the new memory are an argument.
\<close>

definition sel_Initialize :: "(nat \<Rightarrow> sel_t) \<Rightarrow> nat \<Rightarrow> SelectionVector" where
  "sel_Initialize junk cnt = Some (map junk [0..<max cnt 1])"

text \<open>The constructor \<open>SelectionVector(start, count)\<close>.\<close>

definition sel_range :: "(nat \<Rightarrow> sel_t) \<Rightarrow> nat \<Rightarrow> nat \<Rightarrow> SelectionVector" where
  "sel_range junk start cnt =
     fold (\<lambda>i. set_index i (start + i)) [0..<cnt] (sel_Initialize junk (max cnt STANDARD_VECTOR_SIZE))"

definition Inverted_step :: "SelectionVector \<Rightarrow> nat \<Rightarrow> nat \<Rightarrow> nat \<times> nat \<times> SelectionVector \<Rightarrow> nat \<times> nat \<times> SelectionVector" where
  "Inverted_step src src_count i = (\<lambda>(src_idx, dst_idx, dst).
     if src_idx < src_count \<and> get_index src src_idx = i then (src_idx + 1, dst_idx, dst)
     else (src_idx, dst_idx + 1, set_index dst_idx i dst))"

definition Inverted :: "SelectionVector \<Rightarrow> SelectionVector \<Rightarrow> nat \<Rightarrow> nat \<Rightarrow> nat \<times> SelectionVector" where
  "Inverted src dst src_count cnt = snd (fold (Inverted_step src src_count) [0..<cnt] (0, 0, dst))"

definition sel_Slice :: "SelectionVector \<Rightarrow> SelectionVector \<Rightarrow> nat \<Rightarrow> sel_t list" where
  "sel_Slice this sel cnt = map (\<lambda>i. word_of_nat (get_index this (get_index sel i))) [0..<cnt]"

definition sel_SliceInPlace :: "SelectionVector \<Rightarrow> nat \<Rightarrow> SelectionVector \<Rightarrow> nat \<times> SelectionVector" where
  "sel_SliceInPlace source cnt this =
     (cnt, fold (\<lambda>i this. set_index i (get_index this (get_index source i)) this) [0..<cnt] this)"

text \<open>\<open>std::sort\<close> of the first \<open>count\<close> elements.\<close>

definition sel_Sort :: "nat \<Rightarrow> SelectionVector \<Rightarrow> SelectionVector" where
  "sel_Sort cnt sel = map_option (\<lambda>xs. sort (take cnt xs) @ drop cnt xs) sel"

text \<open>
  \<open>OptionalSelection\<close>: a selection vector or nothing; \<open>Advance\<close> moves the start of the array.
\<close>

record OptionalSelection =
  opt_sel :: "SelectionVector option"
  opt_base :: nat

definition OptionalSelection_init :: "SelectionVector option \<Rightarrow> OptionalSelection" where
  "OptionalSelection_init sel_p = \<lparr>opt_sel = sel_p, opt_base = 0\<rparr>"

definition opt_Append :: "nat \<Rightarrow> nat \<times> OptionalSelection \<Rightarrow> nat \<times> OptionalSelection" where
  "opt_Append idx = (\<lambda>(cnt, s).
     (cnt + 1, s\<lparr>opt_sel := map_option (set_index (opt_base s + cnt) idx) (opt_sel s)\<rparr>))"

definition opt_Advance :: "nat \<Rightarrow> OptionalSelection \<Rightarrow> OptionalSelection" where
  "opt_Advance completed s = (if opt_sel s \<noteq> None then s\<lparr>opt_base := opt_base s + completed\<rparr> else s)"

section \<open>Rows of a selection\<close>

definition sel_rows :: "SelectionVector \<Rightarrow> nat \<Rightarrow> nat list" where
  "sel_rows sel n = map (get_index sel) [0..<n]"

lemma sel_rows_None [simp]: "sel_rows None n = [0..<n]"
  by (simp add: sel_rows_def get_index_def map_idI)

lemma sel_rows_0 [simp]: "sel_rows sel 0 = []"
  by (simp add: sel_rows_def)

lemma length_sel_rows [simp]: "length (sel_rows sel n) = n"
  by (simp add: sel_rows_def)

lemma sel_rows_Suc: "sel_rows sel (Suc n) = sel_rows sel n @ [get_index sel n]"
  by (simp add: sel_rows_def)

lemma sel_rows_update [simp]: "n \<le> i \<Longrightarrow> sel_rows (Some (xs[i := v])) n = sel_rows (Some xs) n"
  by (auto simp: sel_rows_def get_index_def)

lemma unat_sel [simp]: "n < 2 ^ 32 \<Longrightarrow> unat (word_of_nat n :: sel_t) = n"
  by (simp add: unat_of_nat)

lemma get_set_index:
  "sel = Some xs \<Longrightarrow> i < length xs \<Longrightarrow> loc < 2 ^ 32 \<Longrightarrow>
   get_index (set_index i loc sel) j = (if j = i then loc else get_index sel j)"
  by (simp add: get_index_def set_index_def)

lemma set_index_simps [simp]:
  "set_index i loc (Some xs) = Some (xs[i := word_of_nat loc])" "set_index i loc None = None"
  by (simp_all add: set_index_def)

lemma sel_swap_twice: "sel_swap i j (sel_swap i j sel) = sel" if "sel = Some xs" "i < length xs" "j < length xs"
  using that by (auto simp: sel_swap_def Let_def list_eq_iff_nth_eq nth_list_update)

section \<open>Complements\<close>

lemma Inverted_step_eq [simp]:
  "Inverted_step src n i (k, d, dst) =
     (if k < n \<and> get_index src k = i then (k + 1, d, dst) else (k, d + 1, set_index d i dst))"
  by (simp add: Inverted_step_def)

text \<open>The rows below \<open>n\<close> that are not selected, in order.\<close>

definition complement_rows :: "nat list \<Rightarrow> nat \<Rightarrow> nat list" where
  "complement_rows rows n = filter (\<lambda>i. i \<notin> set rows) [0..<n]"

lemma sorted_drop_hd:
  assumes "sorted_wrt (<) (xs :: nat list)" "k < length xs"
    and "\<forall>x \<in> set (take k xs). x < i" "\<forall>x \<in> set (drop k xs). i \<le> x"
  shows "xs ! k = i \<longleftrightarrow> i \<in> set xs"
proof
  show "xs ! k = i \<Longrightarrow> i \<in> set xs" using assms(2) by auto
  assume "i \<in> set xs"
  moreover have xs: "xs = take k xs @ xs ! k # drop (Suc k) xs"
    using assms(2) by (simp add: id_take_nth_drop)
  moreover have "\<forall>x \<in> set (drop (Suc k) xs). xs ! k < x"
    using assms(1) xs by (metis sorted_wrt.simps(2) sorted_wrt_append)
  moreover have "i \<le> xs ! k"
    using assms(2,4) Cons_nth_drop_Suc [OF assms(2)] by (metis list.set_intros(1))
  ultimately show "xs ! k = i"
    using assms(3) by (metis Un_iff leD list.set_cases order_less_irrefl set_ConsD set_append)
qed

text \<open>The loop's invariant after the rows below \<open>n\<close>.\<close>

lemma Inverted_invariant:
  assumes "sorted_wrt (<) (sel_rows src sz)" and "n \<le> length xs" and "n \<le> 2 ^ 32"
  shows "\<exists>k ys. fold (Inverted_step src sz) [0..<n] (0, 0, Some xs) = (k, length (complement_rows (sel_rows src sz) n), Some ys) \<and>
    k \<le> sz \<and> (\<forall>x \<in> set (take k (sel_rows src sz)). x < n) \<and> (\<forall>x \<in> set (drop k (sel_rows src sz)). n \<le> x) \<and>
    length ys = length xs \<and>
    sel_rows (Some ys) (length (complement_rows (sel_rows src sz) n)) = complement_rows (sel_rows src sz) n"
  using assms(2,3)
proof (induction n)
  case 0
  show ?case
    by (rule exI [of _ 0], rule exI [of _ xs]) (simp add: complement_rows_def)
next
  case (Suc n)
  let ?rs = "sel_rows src sz" and ?c = "\<lambda>n. complement_rows (sel_rows src sz) n"
  from Suc.IH Suc.prems obtain k ys where IH:
    "fold (Inverted_step src sz) [0..<n] (0, 0, Some xs) = (k, length (?c n), Some ys)" "k \<le> sz"
    "\<forall>x \<in> set (take k ?rs). x < n" "\<forall>x \<in> set (drop k ?rs). n \<le> x" "length ys = length xs"
    "sel_rows (Some ys) (length (?c n)) = ?c n" by auto
  have len: "length (?c n) \<le> n"
    using length_filter_le [of "\<lambda>i. i \<notin> set ?rs" "[0..<n]"] by (simp add: complement_rows_def)
  have at: "k < sz \<and> get_index src k = n \<longleftrightarrow> n \<in> set ?rs"
  proof (cases "k < sz")
    case True
    then have "?rs ! k = get_index src k" by (simp add: sel_rows_def)
    then show ?thesis
      using sorted_drop_hd [OF assms(1) _ IH(3,4)] True by simp
  next
    case False
    then have "take k ?rs = ?rs" by simp
    with IH(3) False show ?thesis by auto
  qed
  show ?case
  proof (cases "n \<in> set ?rs")
    case True
    then have k: "k < sz" "get_index src k = n" using at by auto
    have nth: "?rs ! k = n" using k by (simp add: sel_rows_def)
    have drop: "\<forall>x \<in> set (drop (Suc k) ?rs). Suc n \<le> x"
    proof -
      have "sorted_wrt (<) (drop k ?rs)"
        using assms(1) sorted_wrt_append [of "(<)" "take k ?rs" "drop k ?rs"] by simp
      moreover have "drop k ?rs = n # drop (Suc k) ?rs"
        using nth k(1) Cons_nth_drop_Suc [of k ?rs] by simp
      ultimately show ?thesis by auto
    qed
    have "\<forall>x \<in> set (take (Suc k) ?rs). x < Suc n"
      using IH(3) nth k(1) by (auto simp: take_Suc_conv_app_nth less_Suc_eq)
    then show ?thesis
      using IH drop k True by (intro exI [of _ "Suc k"] exI [of _ ys]) (auto simp: complement_rows_def)
  next
    case False
    let ?ys = "ys[length (?c n) := word_of_nat n]"
    have c: "?c (Suc n) = ?c n @ [n]"
      using False by (simp add: complement_rows_def)
    have "get_index (Some ?ys) (length (?c n)) = n"
      using len IH(5) Suc.prems by (simp add: get_index_def)
    then have rows: "sel_rows (Some ?ys) (length (?c (Suc n))) = ?c (Suc n)"
      using IH(6) by (simp add: c sel_rows_Suc)
    have "\<forall>x \<in> set (drop k ?rs). Suc n \<le> x"
      using IH(4) False by (metis Suc_leI in_set_dropD le_neq_implies_less)
    with IH rows at False c show ?thesis
      by (intro exI [of _ k] exI [of _ ?ys]) (auto simp: less_Suc_eq)
  qed
qed

text \<open>
  \<open>Inverted\<close> of an ascending selection writes the rows below \<open>count\<close> that the selection leaves out,
  in order, and returns how many there are.
\<close>

theorem inverted_complement:
  assumes "sorted_wrt (<) (sel_rows src sz)" and "cnt \<le> length xs" and "cnt \<le> 2 ^ 32"
  shows "\<exists>ys. Inverted src (Some xs) sz cnt = (length (complement_rows (sel_rows src sz) cnt), Some ys) \<and>
    sel_rows (Some ys) (length (complement_rows (sel_rows src sz) cnt)) = filter (\<lambda>i. i \<notin> set (sel_rows src sz)) [0..<cnt]"
  using Inverted_invariant [OF assms] by (auto simp: Inverted_def complement_rows_def)

theorem inverted_complement_witness:
  "\<exists>ys. Inverted (Some [1, 3]) (Some [0, 0, 0, 0]) 2 4 = (2, Some ys) \<and> sel_rows (Some ys) 2 = [0, 2]"
proof -
  have r: "sel_rows (Some [1, 3]) 2 = [1, 3]"
    by (simp add: sel_rows_def get_index_def upt_rec)
  then have c: "filter (\<lambda>i. i \<notin> set (sel_rows (Some [1, 3]) 2)) [0..<4] = [0, 2]"
    by (simp add: upt_rec)
  then have "length (complement_rows (sel_rows (Some [1, 3]) 2) 4) = 2"
    by (simp add: complement_rows_def)
  then show ?thesis
    using inverted_complement [of "Some [1, 3]" 2 4 "[0, 0, 0, 0]"] unfolding c by (simp add: r)
qed

section \<open>Slicing in place\<close>

lemma fold_in_place:
  assumes "\<forall>i < n. i \<le> get_index source i" and "this = Some xs" and "n \<le> length xs"
  shows "\<exists>ys. fold (\<lambda>i this. set_index i (get_index this (get_index source i)) this) [0..<n] this = Some ys \<and>
    length ys = length xs \<and> (\<forall>j. ys ! j = (if j < n then xs ! get_index source j else xs ! j))"
  using assms
proof (induction n)
  case (Suc n)
  then obtain ys where ys: "fold (\<lambda>i this. set_index i (get_index this (get_index source i)) this) [0..<n] this = Some ys"
    "length ys = length xs" "\<forall>j. ys ! j = (if j < n then xs ! get_index source j else xs ! j)"
    by auto
  have "n \<le> get_index source n" using Suc.prems(1) by simp
  then have "get_index (Some ys) (get_index source n) = unat (xs ! get_index source n)"
    using ys(3) by (auto simp: get_index_def)
  with ys Suc.prems show ?case
    by (auto simp: nth_list_update less_Suc_eq)
qed auto

text \<open>
  When the source selection never looks backwards (as every ascending selection), slicing in place
  composes the two selections like \<open>Slice\<close> does into a new array: no element is read after it was
  overwritten.
\<close>

theorem slice_in_place_composes:
  assumes "\<forall>i < cnt. i \<le> get_index source i" and "cnt \<le> length xs"
  shows "\<exists>ys. sel_SliceInPlace source cnt (Some xs) = (cnt, Some ys) \<and>
    take cnt ys = sel_Slice (Some xs) source cnt \<and> drop cnt ys = drop cnt xs"
proof -
  obtain ys where ys: "fold (\<lambda>i this. set_index i (get_index this (get_index source i)) this) [0..<cnt] (Some xs) = Some ys"
    "length ys = length xs" "\<forall>j. ys ! j = (if j < cnt then xs ! get_index source j else xs ! j)"
    using fold_in_place [OF assms(1) _ assms(2)] by blast
  have "take cnt ys = sel_Slice (Some xs) source cnt"
    using ys(2,3) assms(2) by (auto simp: sel_Slice_def get_index_def [of "Some xs"] intro!: nth_equalityI)
  moreover have "drop cnt ys = drop cnt xs"
    using ys(2,3) by (auto intro!: nth_equalityI)
  ultimately show ?thesis
    using ys(1) by (simp add: sel_SliceInPlace_def)
qed

theorem slice_in_place_composes_witness:
  "\<exists>ys. sel_SliceInPlace (Some [1, 2]) 2 (Some [4, 5, 6]) = (2, Some ys) \<and> take 2 ys = [5, 6]"
proof -
  have "\<forall>i < 2. i \<le> get_index (Some [1, 2]) i"
    by (auto simp: get_index_def less_2_cases_iff)
  then show ?thesis
    using slice_in_place_composes [of 2 "Some [1, 2]" "[4, 5, 6]"]
    by (auto simp: sel_Slice_def get_index_def upt_rec)
qed

end
