(* ===== verification/Logical_Types.thy ===== *)
theory Logical_Types
  imports Prelude
begin

text \<open>
  The type system of \<open>src/duckdb/src/include/duckdb/common/types.hpp\<close> and
  \<open>common/types.cpp\<close>: the enums \<open>PhysicalType\<close> and \<open>LogicalTypeId\<close> with the numeric values
  the fingerprint hashes, the class \<open>LogicalType\<close> with its cached physical type, and the
  enums \<open>ExpressionType\<close> and \<open>ExpressionClass\<close> of \<open>common/enums/expression_type.hpp\<close>.
\<close>

section \<open>Enums\<close>

datatype (plugins only: code size) PhysicalType =
    PT_BOOL | PT_UINT8 | PT_INT8 | PT_UINT16 | PT_INT16 | PT_UINT32 | PT_INT32 | PT_UINT64
  | PT_INT64 | PT_FLOAT | PT_DOUBLE | PT_INTERVAL | PT_LIST | PT_STRUCT | PT_ARRAY
  | PT_VARCHAR | PT_UINT128 | PT_INT128 | PT_UNKNOWN | PT_BIT | PT_INVALID

primrec PhysicalType_code :: "PhysicalType \<Rightarrow> nat" where
  "PhysicalType_code PT_BOOL = 1"
| "PhysicalType_code PT_UINT8 = 2"
| "PhysicalType_code PT_INT8 = 3"
| "PhysicalType_code PT_UINT16 = 4"
| "PhysicalType_code PT_INT16 = 5"
| "PhysicalType_code PT_UINT32 = 6"
| "PhysicalType_code PT_INT32 = 7"
| "PhysicalType_code PT_UINT64 = 8"
| "PhysicalType_code PT_INT64 = 9"
| "PhysicalType_code PT_FLOAT = 11"
| "PhysicalType_code PT_DOUBLE = 12"
| "PhysicalType_code PT_INTERVAL = 21"
| "PhysicalType_code PT_LIST = 23"
| "PhysicalType_code PT_STRUCT = 24"
| "PhysicalType_code PT_ARRAY = 29"
| "PhysicalType_code PT_VARCHAR = 200"
| "PhysicalType_code PT_UINT128 = 203"
| "PhysicalType_code PT_INT128 = 204"
| "PhysicalType_code PT_UNKNOWN = 205"
| "PhysicalType_code PT_BIT = 206"
| "PhysicalType_code PT_INVALID = 255"

datatype (plugins only: code size) LogicalTypeId =
    LT_INVALID | LT_SQLNULL | LT_UNKNOWN | LT_ANY | LT_UNBOUND | LT_TEMPLATE | LT_TYPE
  | LT_BOOLEAN | LT_TINYINT | LT_SMALLINT | LT_INTEGER | LT_BIGINT | LT_DATE | LT_TIME
  | LT_TIMESTAMP_SEC | LT_TIMESTAMP_MS | LT_TIMESTAMP | LT_TIMESTAMP_NS | LT_DECIMAL
  | LT_FLOAT | LT_DOUBLE | LT_CHAR | LT_VARCHAR | LT_BLOB | LT_INTERVAL | LT_UTINYINT
  | LT_USMALLINT | LT_UINTEGER | LT_UBIGINT | LT_TIMESTAMP_TZ | LT_TIME_TZ | LT_TIME_NS
  | LT_BIT | LT_STRING_LITERAL | LT_INTEGER_LITERAL | LT_BIGNUM | LT_UHUGEINT | LT_HUGEINT
  | LT_POINTER | LT_VALIDITY | LT_UUID | LT_GEOMETRY | LT_STRUCT | LT_LIST | LT_MAP
  | LT_TABLE | LT_ENUM | LT_LEGACY_AGGREGATE_STATE | LT_LAMBDA | LT_UNION | LT_ARRAY
  | LT_VARIANT | LT_AGGREGATE_STATE

primrec LogicalTypeId_code :: "LogicalTypeId \<Rightarrow> nat" where
  "LogicalTypeId_code LT_INVALID = 0"
| "LogicalTypeId_code LT_SQLNULL = 1"
| "LogicalTypeId_code LT_UNKNOWN = 2"
| "LogicalTypeId_code LT_ANY = 3"
| "LogicalTypeId_code LT_UNBOUND = 4"
| "LogicalTypeId_code LT_TEMPLATE = 5"
| "LogicalTypeId_code LT_TYPE = 6"
| "LogicalTypeId_code LT_BOOLEAN = 10"
| "LogicalTypeId_code LT_TINYINT = 11"
| "LogicalTypeId_code LT_SMALLINT = 12"
| "LogicalTypeId_code LT_INTEGER = 13"
| "LogicalTypeId_code LT_BIGINT = 14"
| "LogicalTypeId_code LT_DATE = 15"
| "LogicalTypeId_code LT_TIME = 16"
| "LogicalTypeId_code LT_TIMESTAMP_SEC = 17"
| "LogicalTypeId_code LT_TIMESTAMP_MS = 18"
| "LogicalTypeId_code LT_TIMESTAMP = 19"
| "LogicalTypeId_code LT_TIMESTAMP_NS = 20"
| "LogicalTypeId_code LT_DECIMAL = 21"
| "LogicalTypeId_code LT_FLOAT = 22"
| "LogicalTypeId_code LT_DOUBLE = 23"
| "LogicalTypeId_code LT_CHAR = 24"
| "LogicalTypeId_code LT_VARCHAR = 25"
| "LogicalTypeId_code LT_BLOB = 26"
| "LogicalTypeId_code LT_INTERVAL = 27"
| "LogicalTypeId_code LT_UTINYINT = 28"
| "LogicalTypeId_code LT_USMALLINT = 29"
| "LogicalTypeId_code LT_UINTEGER = 30"
| "LogicalTypeId_code LT_UBIGINT = 31"
| "LogicalTypeId_code LT_TIMESTAMP_TZ = 32"
| "LogicalTypeId_code LT_TIME_TZ = 34"
| "LogicalTypeId_code LT_TIME_NS = 35"
| "LogicalTypeId_code LT_BIT = 36"
| "LogicalTypeId_code LT_STRING_LITERAL = 37"
| "LogicalTypeId_code LT_INTEGER_LITERAL = 38"
| "LogicalTypeId_code LT_BIGNUM = 39"
| "LogicalTypeId_code LT_UHUGEINT = 49"
| "LogicalTypeId_code LT_HUGEINT = 50"
| "LogicalTypeId_code LT_POINTER = 51"
| "LogicalTypeId_code LT_VALIDITY = 53"
| "LogicalTypeId_code LT_UUID = 54"
| "LogicalTypeId_code LT_GEOMETRY = 60"
| "LogicalTypeId_code LT_STRUCT = 100"
| "LogicalTypeId_code LT_LIST = 101"
| "LogicalTypeId_code LT_MAP = 102"
| "LogicalTypeId_code LT_TABLE = 103"
| "LogicalTypeId_code LT_ENUM = 104"
| "LogicalTypeId_code LT_LEGACY_AGGREGATE_STATE = 105"
| "LogicalTypeId_code LT_LAMBDA = 106"
| "LogicalTypeId_code LT_UNION = 107"
| "LogicalTypeId_code LT_ARRAY = 108"
| "LogicalTypeId_code LT_VARIANT = 109"
| "LogicalTypeId_code LT_AGGREGATE_STATE = 110"

datatype (plugins only: code size) ExpressionType =
    ET_INVALID | ET_OPERATOR_CAST | ET_OPERATOR_NOT | ET_OPERATOR_IS_NULL
  | ET_OPERATOR_IS_NOT_NULL | ET_OPERATOR_UNPACK | ET_COMPARE_EQUAL | ET_COMPARE_NOTEQUAL
  | ET_COMPARE_LESSTHAN | ET_COMPARE_GREATERTHAN | ET_COMPARE_LESSTHANOREQUALTO
  | ET_COMPARE_GREATERTHANOREQUALTO | ET_COMPARE_IN | ET_COMPARE_NOT_IN
  | ET_COMPARE_DISTINCT_FROM | ET_COMPARE_BETWEEN | ET_COMPARE_NOT_BETWEEN
  | ET_COMPARE_NOT_DISTINCT_FROM | ET_CONJUNCTION_AND | ET_CONJUNCTION_OR
  | ET_VALUE_CONSTANT | ET_VALUE_PARAMETER | ET_VALUE_TUPLE | ET_VALUE_TUPLE_ADDRESS
  | ET_VALUE_NULL | ET_VALUE_VECTOR | ET_VALUE_SCALAR | ET_VALUE_DEFAULT | ET_AGGREGATE
  | ET_BOUND_AGGREGATE | ET_GROUPING_FUNCTION | ET_WINDOW_AGGREGATE | ET_WINDOW_RANK
  | ET_WINDOW_RANK_DENSE | ET_WINDOW_NTILE | ET_WINDOW_PERCENT_RANK | ET_WINDOW_CUME_DIST
  | ET_WINDOW_ROW_NUMBER | ET_WINDOW_FIRST_VALUE | ET_WINDOW_LAST_VALUE | ET_WINDOW_LEAD
  | ET_WINDOW_LAG | ET_WINDOW_NTH_VALUE | ET_WINDOW_FILL | ET_FUNCTION | ET_BOUND_FUNCTION
  | ET_CASE_EXPR | ET_OPERATOR_NULLIF | ET_OPERATOR_COALESCE | ET_ARRAY_EXTRACT
  | ET_ARRAY_SLICE | ET_STRUCT_EXTRACT | ET_ARRAY_CONSTRUCTOR | ET_ARROW | ET_OPERATOR_TRY
  | ET_SUBQUERY | ET_STAR | ET_TABLE_STAR | ET_PLACEHOLDER | ET_COLUMN_REF | ET_FUNCTION_REF
  | ET_TABLE_REF | ET_LAMBDA_REF | ET_TYPE | ET_CAST | ET_BOUND_REF | ET_BOUND_COLUMN_REF
  | ET_BOUND_UNNEST | ET_COLLATE | ET_LAMBDA | ET_POSITIONAL_REFERENCE | ET_BOUND_LAMBDA_REF
  | ET_BOUND_EXPANDED

primrec ExpressionType_code :: "ExpressionType \<Rightarrow> nat" where
  "ExpressionType_code ET_INVALID = 0"
| "ExpressionType_code ET_OPERATOR_CAST = 12"
| "ExpressionType_code ET_OPERATOR_NOT = 13"
| "ExpressionType_code ET_OPERATOR_IS_NULL = 14"
| "ExpressionType_code ET_OPERATOR_IS_NOT_NULL = 15"
| "ExpressionType_code ET_OPERATOR_UNPACK = 16"
| "ExpressionType_code ET_COMPARE_EQUAL = 25"
| "ExpressionType_code ET_COMPARE_NOTEQUAL = 26"
| "ExpressionType_code ET_COMPARE_LESSTHAN = 27"
| "ExpressionType_code ET_COMPARE_GREATERTHAN = 28"
| "ExpressionType_code ET_COMPARE_LESSTHANOREQUALTO = 29"
| "ExpressionType_code ET_COMPARE_GREATERTHANOREQUALTO = 30"
| "ExpressionType_code ET_COMPARE_IN = 35"
| "ExpressionType_code ET_COMPARE_NOT_IN = 36"
| "ExpressionType_code ET_COMPARE_DISTINCT_FROM = 37"
| "ExpressionType_code ET_COMPARE_BETWEEN = 38"
| "ExpressionType_code ET_COMPARE_NOT_BETWEEN = 39"
| "ExpressionType_code ET_COMPARE_NOT_DISTINCT_FROM = 40"
| "ExpressionType_code ET_CONJUNCTION_AND = 50"
| "ExpressionType_code ET_CONJUNCTION_OR = 51"
| "ExpressionType_code ET_VALUE_CONSTANT = 75"
| "ExpressionType_code ET_VALUE_PARAMETER = 76"
| "ExpressionType_code ET_VALUE_TUPLE = 77"
| "ExpressionType_code ET_VALUE_TUPLE_ADDRESS = 78"
| "ExpressionType_code ET_VALUE_NULL = 79"
| "ExpressionType_code ET_VALUE_VECTOR = 80"
| "ExpressionType_code ET_VALUE_SCALAR = 81"
| "ExpressionType_code ET_VALUE_DEFAULT = 82"
| "ExpressionType_code ET_AGGREGATE = 100"
| "ExpressionType_code ET_BOUND_AGGREGATE = 101"
| "ExpressionType_code ET_GROUPING_FUNCTION = 102"
| "ExpressionType_code ET_WINDOW_AGGREGATE = 110"
| "ExpressionType_code ET_WINDOW_RANK = 120"
| "ExpressionType_code ET_WINDOW_RANK_DENSE = 121"
| "ExpressionType_code ET_WINDOW_NTILE = 122"
| "ExpressionType_code ET_WINDOW_PERCENT_RANK = 123"
| "ExpressionType_code ET_WINDOW_CUME_DIST = 124"
| "ExpressionType_code ET_WINDOW_ROW_NUMBER = 125"
| "ExpressionType_code ET_WINDOW_FIRST_VALUE = 130"
| "ExpressionType_code ET_WINDOW_LAST_VALUE = 131"
| "ExpressionType_code ET_WINDOW_LEAD = 132"
| "ExpressionType_code ET_WINDOW_LAG = 133"
| "ExpressionType_code ET_WINDOW_NTH_VALUE = 134"
| "ExpressionType_code ET_WINDOW_FILL = 135"
| "ExpressionType_code ET_FUNCTION = 140"
| "ExpressionType_code ET_BOUND_FUNCTION = 141"
| "ExpressionType_code ET_CASE_EXPR = 150"
| "ExpressionType_code ET_OPERATOR_NULLIF = 151"
| "ExpressionType_code ET_OPERATOR_COALESCE = 152"
| "ExpressionType_code ET_ARRAY_EXTRACT = 153"
| "ExpressionType_code ET_ARRAY_SLICE = 154"
| "ExpressionType_code ET_STRUCT_EXTRACT = 155"
| "ExpressionType_code ET_ARRAY_CONSTRUCTOR = 156"
| "ExpressionType_code ET_ARROW = 157"
| "ExpressionType_code ET_OPERATOR_TRY = 158"
| "ExpressionType_code ET_SUBQUERY = 175"
| "ExpressionType_code ET_STAR = 200"
| "ExpressionType_code ET_TABLE_STAR = 201"
| "ExpressionType_code ET_PLACEHOLDER = 202"
| "ExpressionType_code ET_COLUMN_REF = 203"
| "ExpressionType_code ET_FUNCTION_REF = 204"
| "ExpressionType_code ET_TABLE_REF = 205"
| "ExpressionType_code ET_LAMBDA_REF = 206"
| "ExpressionType_code ET_TYPE = 207"
| "ExpressionType_code ET_CAST = 225"
| "ExpressionType_code ET_BOUND_REF = 227"
| "ExpressionType_code ET_BOUND_COLUMN_REF = 228"
| "ExpressionType_code ET_BOUND_UNNEST = 229"
| "ExpressionType_code ET_COLLATE = 230"
| "ExpressionType_code ET_LAMBDA = 231"
| "ExpressionType_code ET_POSITIONAL_REFERENCE = 232"
| "ExpressionType_code ET_BOUND_LAMBDA_REF = 233"
| "ExpressionType_code ET_BOUND_EXPANDED = 234"

datatype (plugins only: code size) ExpressionClass =
    EC_INVALID | EC_AGGREGATE | EC_CASE | EC_CAST | EC_COLUMN_REF | EC_COMPARISON
  | EC_CONJUNCTION | EC_CONSTANT | EC_DEFAULT | EC_FUNCTION | EC_OPERATOR | EC_STAR
  | EC_SUBQUERY | EC_WINDOW | EC_PARAMETER | EC_COLLATE | EC_LAMBDA
  | EC_POSITIONAL_REFERENCE | EC_BETWEEN | EC_LAMBDA_REF | EC_TYPE | EC_BOUND_AGGREGATE
  | EC_BOUND_CASE | EC_BOUND_CAST | EC_BOUND_COLUMN_REF | EC_BOUND_COMPARISON
  | EC_BOUND_CONJUNCTION | EC_BOUND_CONSTANT | EC_BOUND_DEFAULT | EC_BOUND_FUNCTION
  | EC_BOUND_OPERATOR | EC_BOUND_PARAMETER | EC_BOUND_REF | EC_BOUND_SUBQUERY
  | EC_BOUND_WINDOW | EC_BOUND_BETWEEN | EC_BOUND_UNNEST | EC_BOUND_LAMBDA
  | EC_BOUND_LAMBDA_REF | EC_BOUND_EXPRESSION | EC_BOUND_EXPANDED

primrec ExpressionClass_code :: "ExpressionClass \<Rightarrow> nat" where
  "ExpressionClass_code EC_INVALID = 0"
| "ExpressionClass_code EC_AGGREGATE = 1"
| "ExpressionClass_code EC_CASE = 2"
| "ExpressionClass_code EC_CAST = 3"
| "ExpressionClass_code EC_COLUMN_REF = 4"
| "ExpressionClass_code EC_COMPARISON = 5"
| "ExpressionClass_code EC_CONJUNCTION = 6"
| "ExpressionClass_code EC_CONSTANT = 7"
| "ExpressionClass_code EC_DEFAULT = 8"
| "ExpressionClass_code EC_FUNCTION = 9"
| "ExpressionClass_code EC_OPERATOR = 10"
| "ExpressionClass_code EC_STAR = 11"
| "ExpressionClass_code EC_SUBQUERY = 13"
| "ExpressionClass_code EC_WINDOW = 14"
| "ExpressionClass_code EC_PARAMETER = 15"
| "ExpressionClass_code EC_COLLATE = 16"
| "ExpressionClass_code EC_LAMBDA = 17"
| "ExpressionClass_code EC_POSITIONAL_REFERENCE = 18"
| "ExpressionClass_code EC_BETWEEN = 19"
| "ExpressionClass_code EC_LAMBDA_REF = 20"
| "ExpressionClass_code EC_TYPE = 21"
| "ExpressionClass_code EC_BOUND_AGGREGATE = 25"
| "ExpressionClass_code EC_BOUND_CASE = 26"
| "ExpressionClass_code EC_BOUND_CAST = 27"
| "ExpressionClass_code EC_BOUND_COLUMN_REF = 28"
| "ExpressionClass_code EC_BOUND_COMPARISON = 29"
| "ExpressionClass_code EC_BOUND_CONJUNCTION = 30"
| "ExpressionClass_code EC_BOUND_CONSTANT = 31"
| "ExpressionClass_code EC_BOUND_DEFAULT = 32"
| "ExpressionClass_code EC_BOUND_FUNCTION = 33"
| "ExpressionClass_code EC_BOUND_OPERATOR = 34"
| "ExpressionClass_code EC_BOUND_PARAMETER = 35"
| "ExpressionClass_code EC_BOUND_REF = 36"
| "ExpressionClass_code EC_BOUND_SUBQUERY = 37"
| "ExpressionClass_code EC_BOUND_WINDOW = 38"
| "ExpressionClass_code EC_BOUND_BETWEEN = 39"
| "ExpressionClass_code EC_BOUND_UNNEST = 40"
| "ExpressionClass_code EC_BOUND_LAMBDA = 41"
| "ExpressionClass_code EC_BOUND_LAMBDA_REF = 42"
| "ExpressionClass_code EC_BOUND_EXPRESSION = 50"
| "ExpressionClass_code EC_BOUND_EXPANDED = 51"

section \<open>Logical types\<close>

text \<open>
  \<open>ExtraTypeInfo\<close>: the width and scale of a DECIMAL, the dictionary size of an ENUM, or the info
  of a type whose physical type does not depend on it.
\<close>

datatype ExtraTypeInfo =
    DecimalTypeInfo nat nat
  | EnumTypeInfo nat
  | OtherTypeInfo

record LogicalType =
  lt_id :: LogicalTypeId
  lt_physical_type :: PhysicalType
  lt_type_info :: "ExtraTypeInfo option"

abbreviation InternalType :: "LogicalType \<Rightarrow> PhysicalType" where
  "InternalType \<equiv> lt_physical_type"

text \<open>\<open>EnumTypeInfo::DictType\<close>: the narrowest unsigned type that holds every dictionary code.\<close>

definition DictType :: "nat \<Rightarrow> PhysicalType result" where
  "DictType dict_size =
     (if dict_size \<le> 2 ^ 8 - 1 then Inr PT_UINT8
      else if dict_size \<le> 2 ^ 16 - 1 then Inr PT_UINT16
      else if dict_size \<le> 2 ^ 32 - 1 then Inr PT_UINT32
      else Inl InternalException)"

text \<open>\<open>LogicalType::GetInternalType\<close>, in the order of its \<open>switch\<close>; pointers have 64 bits.\<close>

primrec GetInternalType :: "LogicalTypeId \<Rightarrow> ExtraTypeInfo option \<Rightarrow> PhysicalType result" where
  "GetInternalType LT_BOOLEAN info = Inr PT_BOOL"
| "GetInternalType LT_TINYINT info = Inr PT_INT8"
| "GetInternalType LT_UTINYINT info = Inr PT_UINT8"
| "GetInternalType LT_SMALLINT info = Inr PT_INT16"
| "GetInternalType LT_USMALLINT info = Inr PT_UINT16"
| "GetInternalType LT_SQLNULL info = Inr PT_INT32"
| "GetInternalType LT_DATE info = Inr PT_INT32"
| "GetInternalType LT_INTEGER info = Inr PT_INT32"
| "GetInternalType LT_UINTEGER info = Inr PT_UINT32"
| "GetInternalType LT_BIGINT info = Inr PT_INT64"
| "GetInternalType LT_TIME info = Inr PT_INT64"
| "GetInternalType LT_TIME_NS info = Inr PT_INT64"
| "GetInternalType LT_TIMESTAMP info = Inr PT_INT64"
| "GetInternalType LT_TIMESTAMP_SEC info = Inr PT_INT64"
| "GetInternalType LT_TIMESTAMP_NS info = Inr PT_INT64"
| "GetInternalType LT_TIMESTAMP_MS info = Inr PT_INT64"
| "GetInternalType LT_TIME_TZ info = Inr PT_INT64"
| "GetInternalType LT_TIMESTAMP_TZ info = Inr PT_INT64"
| "GetInternalType LT_UBIGINT info = Inr PT_UINT64"
| "GetInternalType LT_UHUGEINT info = Inr PT_UINT128"
| "GetInternalType LT_HUGEINT info = Inr PT_INT128"
| "GetInternalType LT_UUID info = Inr PT_INT128"
| "GetInternalType LT_FLOAT info = Inr PT_FLOAT"
| "GetInternalType LT_DOUBLE info = Inr PT_DOUBLE"
| "GetInternalType LT_DECIMAL info =
     (case info of
        None \<Rightarrow> Inr PT_INVALID
      | Some (DecimalTypeInfo width scale) \<Rightarrow>
          (if width \<le> 4 then Inr PT_INT16
           else if width \<le> 9 then Inr PT_INT32
           else if width \<le> 18 then Inr PT_INT64
           else if width \<le> 38 then Inr PT_INT128
           else Inl InternalException)
      | Some _ \<Rightarrow> Inl InternalException)"
| "GetInternalType LT_BIGNUM info = Inr PT_VARCHAR"
| "GetInternalType LT_VARCHAR info = Inr PT_VARCHAR"
| "GetInternalType LT_CHAR info = Inr PT_VARCHAR"
| "GetInternalType LT_BLOB info = Inr PT_VARCHAR"
| "GetInternalType LT_BIT info = Inr PT_VARCHAR"
| "GetInternalType LT_TYPE info = Inr PT_VARCHAR"
| "GetInternalType LT_INTERVAL info = Inr PT_INTERVAL"
| "GetInternalType LT_UNION info = Inr PT_STRUCT"
| "GetInternalType LT_VARIANT info = Inr PT_STRUCT"
| "GetInternalType LT_STRUCT info = Inr PT_STRUCT"
| "GetInternalType LT_LIST info = Inr PT_LIST"
| "GetInternalType LT_MAP info = Inr PT_LIST"
| "GetInternalType LT_ARRAY info = Inr PT_ARRAY"
| "GetInternalType LT_POINTER info = Inr PT_UINT64"
| "GetInternalType LT_VALIDITY info = Inr PT_BIT"
| "GetInternalType LT_ENUM info =
     (case info of
        None \<Rightarrow> Inr PT_INVALID
      | Some (EnumTypeInfo dict_size) \<Rightarrow> DictType dict_size
      | Some _ \<Rightarrow> Inl InternalException)"
| "GetInternalType LT_TABLE info = Inr PT_INVALID"
| "GetInternalType LT_LAMBDA info = Inr PT_INVALID"
| "GetInternalType LT_ANY info = Inr PT_INVALID"
| "GetInternalType LT_INVALID info = Inr PT_INVALID"
| "GetInternalType LT_UNKNOWN info = Inr PT_INVALID"
| "GetInternalType LT_STRING_LITERAL info = Inr PT_INVALID"
| "GetInternalType LT_INTEGER_LITERAL info = Inr PT_INVALID"
| "GetInternalType LT_TEMPLATE info = Inr PT_INVALID"
| "GetInternalType LT_UNBOUND info = Inr PT_UNKNOWN"
| "GetInternalType LT_LEGACY_AGGREGATE_STATE info = Inr PT_VARCHAR"
| "GetInternalType LT_AGGREGATE_STATE info = Inr PT_STRUCT"
| "GetInternalType LT_GEOMETRY info = Inr PT_VARCHAR"

text \<open>The constructors of \<open>LogicalType\<close> compute the physical type once.\<close>

definition make_LogicalType :: "LogicalTypeId \<Rightarrow> ExtraTypeInfo option \<Rightarrow> LogicalType result" where
  "make_LogicalType tid info =
     bindE (GetInternalType tid info)
       (\<lambda>pt. Inr \<lparr>lt_id = tid, lt_physical_type = pt, lt_type_info = info\<rparr>)"

definition wf_type :: "LogicalType \<Rightarrow> bool" where
  "wf_type t \<longleftrightarrow> GetInternalType (lt_id t) (lt_type_info t) = Inr (lt_physical_type t)"

definition BOOLEAN :: LogicalType where
  "BOOLEAN = \<lparr>lt_id = LT_BOOLEAN, lt_physical_type = PT_BOOL, lt_type_info = None\<rparr>"

lemma BOOLEAN_simps [simp]:
  "lt_id BOOLEAN = LT_BOOLEAN" "lt_physical_type BOOLEAN = PT_BOOL" "lt_type_info BOOLEAN = None"
  by (simp_all add: BOOLEAN_def)

lemma wf_type_make: "make_LogicalType tid info = Inr t \<Longrightarrow> wf_type t"
  by (auto simp: make_LogicalType_def wf_type_def bindE_Inr_iff)

section \<open>Enum codes\<close>

text \<open>
  The code functions are injective and fit a byte, so a fingerprint that hashes them separates the
  enum values.
\<close>

lemma PhysicalType_code_byte: "PhysicalType_code x < 256"
  by (cases x) simp_all

lemma LogicalTypeId_code_byte: "LogicalTypeId_code x < 256"
  by (cases x) simp_all

lemma ExpressionType_code_byte: "ExpressionType_code x < 256"
  by (cases x) simp_all

lemma ExpressionClass_code_byte: "ExpressionClass_code x < 256"
  by (cases x) simp_all

lemma PhysicalType_code_table:
  "map_of [(1, PT_BOOL), (2, PT_UINT8), (3, PT_INT8), (4, PT_UINT16), (5, PT_INT16), (6, PT_UINT32),
     (7, PT_INT32), (8, PT_UINT64), (9, PT_INT64), (11, PT_FLOAT), (12, PT_DOUBLE), (21,
     PT_INTERVAL), (23, PT_LIST), (24, PT_STRUCT), (29, PT_ARRAY), (200, PT_VARCHAR), (203,
     PT_UINT128), (204, PT_INT128), (205, PT_UNKNOWN), (206, PT_BIT), (255, PT_INVALID)] (PhysicalType_code x) = Some x"
  by (cases x) simp_all

lemma PhysicalType_code_inject [simp]: "PhysicalType_code x = PhysicalType_code y \<longleftrightarrow> x = y"
  by (metis PhysicalType_code_table option.inject)

lemma LogicalTypeId_code_table:
  "map_of [(0, LT_INVALID), (1, LT_SQLNULL), (2, LT_UNKNOWN), (3, LT_ANY), (4, LT_UNBOUND), (5,
     LT_TEMPLATE), (6, LT_TYPE), (10, LT_BOOLEAN), (11, LT_TINYINT), (12, LT_SMALLINT), (13,
     LT_INTEGER), (14, LT_BIGINT), (15, LT_DATE), (16, LT_TIME), (17, LT_TIMESTAMP_SEC), (18,
     LT_TIMESTAMP_MS), (19, LT_TIMESTAMP), (20, LT_TIMESTAMP_NS), (21, LT_DECIMAL), (22,
     LT_FLOAT), (23, LT_DOUBLE), (24, LT_CHAR), (25, LT_VARCHAR), (26, LT_BLOB), (27,
     LT_INTERVAL), (28, LT_UTINYINT), (29, LT_USMALLINT), (30, LT_UINTEGER), (31, LT_UBIGINT),
     (32, LT_TIMESTAMP_TZ), (34, LT_TIME_TZ), (35, LT_TIME_NS), (36, LT_BIT), (37,
     LT_STRING_LITERAL), (38, LT_INTEGER_LITERAL), (39, LT_BIGNUM), (49, LT_UHUGEINT), (50,
     LT_HUGEINT), (51, LT_POINTER), (53, LT_VALIDITY), (54, LT_UUID), (60, LT_GEOMETRY), (100,
     LT_STRUCT), (101, LT_LIST), (102, LT_MAP), (103, LT_TABLE), (104, LT_ENUM), (105,
     LT_LEGACY_AGGREGATE_STATE), (106, LT_LAMBDA), (107, LT_UNION), (108, LT_ARRAY), (109,
     LT_VARIANT), (110, LT_AGGREGATE_STATE)] (LogicalTypeId_code x) = Some x"
  by (cases x) simp_all

lemma LogicalTypeId_code_inject [simp]: "LogicalTypeId_code x = LogicalTypeId_code y \<longleftrightarrow> x = y"
  by (metis LogicalTypeId_code_table option.inject)

lemma ExpressionType_code_table:
  "map_of [(0, ET_INVALID), (12, ET_OPERATOR_CAST), (13, ET_OPERATOR_NOT), (14, ET_OPERATOR_IS_NULL),
     (15, ET_OPERATOR_IS_NOT_NULL), (16, ET_OPERATOR_UNPACK), (25, ET_COMPARE_EQUAL), (26,
     ET_COMPARE_NOTEQUAL), (27, ET_COMPARE_LESSTHAN), (28, ET_COMPARE_GREATERTHAN), (29,
     ET_COMPARE_LESSTHANOREQUALTO), (30, ET_COMPARE_GREATERTHANOREQUALTO), (35, ET_COMPARE_IN),
     (36, ET_COMPARE_NOT_IN), (37, ET_COMPARE_DISTINCT_FROM), (38, ET_COMPARE_BETWEEN), (39,
     ET_COMPARE_NOT_BETWEEN), (40, ET_COMPARE_NOT_DISTINCT_FROM), (50, ET_CONJUNCTION_AND), (51,
     ET_CONJUNCTION_OR), (75, ET_VALUE_CONSTANT), (76, ET_VALUE_PARAMETER), (77, ET_VALUE_TUPLE),
     (78, ET_VALUE_TUPLE_ADDRESS), (79, ET_VALUE_NULL), (80, ET_VALUE_VECTOR), (81,
     ET_VALUE_SCALAR), (82, ET_VALUE_DEFAULT), (100, ET_AGGREGATE), (101, ET_BOUND_AGGREGATE),
     (102, ET_GROUPING_FUNCTION), (110, ET_WINDOW_AGGREGATE), (120, ET_WINDOW_RANK), (121,
     ET_WINDOW_RANK_DENSE), (122, ET_WINDOW_NTILE), (123, ET_WINDOW_PERCENT_RANK), (124,
     ET_WINDOW_CUME_DIST), (125, ET_WINDOW_ROW_NUMBER), (130, ET_WINDOW_FIRST_VALUE), (131,
     ET_WINDOW_LAST_VALUE), (132, ET_WINDOW_LEAD), (133, ET_WINDOW_LAG), (134,
     ET_WINDOW_NTH_VALUE), (135, ET_WINDOW_FILL), (140, ET_FUNCTION), (141, ET_BOUND_FUNCTION),
     (150, ET_CASE_EXPR), (151, ET_OPERATOR_NULLIF), (152, ET_OPERATOR_COALESCE), (153,
     ET_ARRAY_EXTRACT), (154, ET_ARRAY_SLICE), (155, ET_STRUCT_EXTRACT), (156,
     ET_ARRAY_CONSTRUCTOR), (157, ET_ARROW), (158, ET_OPERATOR_TRY), (175, ET_SUBQUERY), (200,
     ET_STAR), (201, ET_TABLE_STAR), (202, ET_PLACEHOLDER), (203, ET_COLUMN_REF), (204,
     ET_FUNCTION_REF), (205, ET_TABLE_REF), (206, ET_LAMBDA_REF), (207, ET_TYPE), (225, ET_CAST),
     (227, ET_BOUND_REF), (228, ET_BOUND_COLUMN_REF), (229, ET_BOUND_UNNEST), (230, ET_COLLATE),
     (231, ET_LAMBDA), (232, ET_POSITIONAL_REFERENCE), (233, ET_BOUND_LAMBDA_REF), (234,
     ET_BOUND_EXPANDED)] (ExpressionType_code x) = Some x"
  by (cases x) simp_all

lemma ExpressionType_code_inject [simp]: "ExpressionType_code x = ExpressionType_code y \<longleftrightarrow> x = y"
  by (metis ExpressionType_code_table option.inject)

lemma ExpressionClass_code_table:
  "map_of [(0, EC_INVALID), (1, EC_AGGREGATE), (2, EC_CASE), (3, EC_CAST), (4, EC_COLUMN_REF), (5,
     EC_COMPARISON), (6, EC_CONJUNCTION), (7, EC_CONSTANT), (8, EC_DEFAULT), (9, EC_FUNCTION),
     (10, EC_OPERATOR), (11, EC_STAR), (13, EC_SUBQUERY), (14, EC_WINDOW), (15, EC_PARAMETER),
     (16, EC_COLLATE), (17, EC_LAMBDA), (18, EC_POSITIONAL_REFERENCE), (19, EC_BETWEEN), (20,
     EC_LAMBDA_REF), (21, EC_TYPE), (25, EC_BOUND_AGGREGATE), (26, EC_BOUND_CASE), (27,
     EC_BOUND_CAST), (28, EC_BOUND_COLUMN_REF), (29, EC_BOUND_COMPARISON), (30,
     EC_BOUND_CONJUNCTION), (31, EC_BOUND_CONSTANT), (32, EC_BOUND_DEFAULT), (33,
     EC_BOUND_FUNCTION), (34, EC_BOUND_OPERATOR), (35, EC_BOUND_PARAMETER), (36, EC_BOUND_REF),
     (37, EC_BOUND_SUBQUERY), (38, EC_BOUND_WINDOW), (39, EC_BOUND_BETWEEN), (40,
     EC_BOUND_UNNEST), (41, EC_BOUND_LAMBDA), (42, EC_BOUND_LAMBDA_REF), (50,
     EC_BOUND_EXPRESSION), (51, EC_BOUND_EXPANDED)] (ExpressionClass_code x) = Some x"
  by (cases x) simp_all

lemma ExpressionClass_code_inject [simp]: "ExpressionClass_code x = ExpressionClass_code y \<longleftrightarrow> x = y"
  by (metis ExpressionClass_code_table option.inject)

end
