(* ===== verification/Bound_Expressions.thy ===== *)
theory Bound_Expressions
  imports Logical_Types
begin

text \<open>
  Bound expression trees, \<open>src/duckdb/src/planner/expression\<close>: one constructor per subclass of
  \<open>Expression\<close> that the executor or the JIT inspects, with the fields they read. The accessors
  \<open>GetExpressionType\<close>, \<open>GetExpressionClass\<close> and \<open>return_type\<close> are what the subclass constructors
  pass to \<open>Expression\<close>. The subclasses that never reach the expression executor (aggregates,
  windows, subqueries, lambdas, \<dots>) share the constructor \<open>OtherExpression\<close>.
\<close>

section \<open>Values\<close>

text \<open>
  One slot of a column: an integer of any width (a BOOL is 0 or 1), the bit pattern of a float
  or double, or the bytes of a string. A \<open>Value\<close> carries its type and its NULL flag.
\<close>

datatype cell = CInt int | CFloat "32 word" | CDouble "64 word" | CString "8 word list"

record Value =
  value_type :: LogicalType
  is_null :: bool
  value_data :: cell

section \<open>Trees\<close>

text \<open>
  \<open>fn_can_throw\<close> is \<open>GetErrorMode() == CAN_THROW_RUNTIME_ERROR\<close>; \<open>fn_volatile_lambda\<close>: the bind data of the call
  holds a lambda expression, and it is volatile.
\<close>

datatype FunctionStability = FS_CONSISTENT | FS_VOLATILE | FS_CONSISTENT_WITHIN_QUERY

record ScalarFunction =
  fn_name :: string
  fn_can_throw :: bool
  fn_stability :: FunctionStability
  fn_volatile_lambda :: bool

datatype Expression =
    BoundReference LogicalType u64
  | BoundColumnRef LogicalType u64 u64 u64
  | BoundConstant Value
  | BoundParameter LogicalType Value
  | BoundComparison ExpressionType Expression Expression
  | BoundConjunction ExpressionType "Expression list"
  | BoundOperator ExpressionType LogicalType "Expression list"
  | BoundFunction LogicalType ScalarFunction "Expression list"
  | BoundCast LogicalType bool Expression
  | BoundCase LogicalType "(Expression \<times> Expression) list" "Expression option"
  | BoundBetween bool bool Expression Expression Expression
  | OtherExpression ExpressionType ExpressionClass LogicalType

primrec GetExpressionType :: "Expression \<Rightarrow> ExpressionType" where
  "GetExpressionType (BoundReference t i) = ET_BOUND_REF"
| "GetExpressionType (BoundColumnRef t tbl col depth) = ET_BOUND_COLUMN_REF"
| "GetExpressionType (BoundConstant v) = ET_VALUE_CONSTANT"
| "GetExpressionType (BoundParameter t v) = ET_VALUE_PARAMETER"
| "GetExpressionType (BoundComparison et l r) = et"
| "GetExpressionType (BoundConjunction et cs) = et"
| "GetExpressionType (BoundOperator et t cs) = et"
| "GetExpressionType (BoundFunction t f cs) = ET_BOUND_FUNCTION"
| "GetExpressionType (BoundCast t try_cast c) = ET_OPERATOR_CAST"
| "GetExpressionType (BoundCase t checks els) = ET_CASE_EXPR"
| "GetExpressionType (BoundBetween li ui i l u) = ET_COMPARE_BETWEEN"
| "GetExpressionType (OtherExpression et ec t) = et"

primrec GetExpressionClass :: "Expression \<Rightarrow> ExpressionClass" where
  "GetExpressionClass (BoundReference t i) = EC_BOUND_REF"
| "GetExpressionClass (BoundColumnRef t tbl col depth) = EC_BOUND_COLUMN_REF"
| "GetExpressionClass (BoundConstant v) = EC_BOUND_CONSTANT"
| "GetExpressionClass (BoundParameter t v) = EC_BOUND_PARAMETER"
| "GetExpressionClass (BoundComparison et l r) = EC_BOUND_COMPARISON"
| "GetExpressionClass (BoundConjunction et cs) = EC_BOUND_CONJUNCTION"
| "GetExpressionClass (BoundOperator et t cs) = EC_BOUND_OPERATOR"
| "GetExpressionClass (BoundFunction t f cs) = EC_BOUND_FUNCTION"
| "GetExpressionClass (BoundCast t try_cast c) = EC_BOUND_CAST"
| "GetExpressionClass (BoundCase t checks els) = EC_BOUND_CASE"
| "GetExpressionClass (BoundBetween li ui i l u) = EC_BOUND_BETWEEN"
| "GetExpressionClass (OtherExpression et ec t) = ec"

primrec return_type :: "Expression \<Rightarrow> LogicalType" where
  "return_type (BoundReference t i) = t"
| "return_type (BoundColumnRef t tbl col depth) = t"
| "return_type (BoundConstant v) = value_type v"
| "return_type (BoundParameter t v) = t"
| "return_type (BoundComparison et l r) = BOOLEAN"
| "return_type (BoundConjunction et cs) = BOOLEAN"
| "return_type (BoundOperator et t cs) = t"
| "return_type (BoundFunction t f cs) = t"
| "return_type (BoundCast t try_cast c) = t"
| "return_type (BoundCase t checks els) = t"
| "return_type (BoundBetween li ui i l u) = BOOLEAN"
| "return_type (OtherExpression et ec t) = t"

text \<open>The physical type of an expression's result, \<open>expr.return_type.InternalType()\<close>.\<close>

abbreviation phys :: "Expression \<Rightarrow> PhysicalType" where
  "phys e \<equiv> InternalType (return_type e)"

text \<open>\<open>ProjectionIndex::GetIndex\<close> throws on \<open>DConstants::INVALID_INDEX\<close>, which is all ones.\<close>

definition ProjectionIndex_GetIndex :: "u64 \<Rightarrow> nat result" where
  "ProjectionIndex_GetIndex i = (if i = - 1 then Inl InternalException else Inr (unat i))"

text \<open>The classes that have a constructor of their own.\<close>

definition own_class :: "ExpressionClass \<Rightarrow> bool" where
  "own_class ec \<longleftrightarrow> ec \<in> {EC_BOUND_REF, EC_BOUND_COLUMN_REF, EC_BOUND_CONSTANT, EC_BOUND_PARAMETER,
     EC_BOUND_COMPARISON, EC_BOUND_CONJUNCTION, EC_BOUND_OPERATOR, EC_BOUND_FUNCTION, EC_BOUND_CAST,
     EC_BOUND_CASE, EC_BOUND_BETWEEN}"

text \<open>
  A bound tree as the binder leaves it: \<open>OtherExpression\<close> stands for the other classes only, every
  CASE has an ELSE (the executor dereferences it unconditionally), and the counts that the
  fingerprint hashes as \<open>size_t\<close> fit in 64 bits.
\<close>

fun wf_expr :: "Expression \<Rightarrow> bool" where
  "wf_expr (BoundComparison et l r) \<longleftrightarrow> wf_expr l \<and> wf_expr r"
| "wf_expr (BoundConjunction et cs) \<longleftrightarrow> length cs < 2 ^ 64 \<and> (\<forall>c \<in> set cs. wf_expr c)"
| "wf_expr (BoundOperator et t cs) \<longleftrightarrow> length cs < 2 ^ 64 \<and> (\<forall>c \<in> set cs. wf_expr c)"
| "wf_expr (BoundFunction t f cs) \<longleftrightarrow>
     length (fn_name f) < 2 ^ 64 \<and> length cs < 2 ^ 64 \<and> (\<forall>c \<in> set cs. wf_expr c)"
| "wf_expr (BoundCast t try_cast c) \<longleftrightarrow> wf_expr c"
| "wf_expr (BoundCase t checks els) \<longleftrightarrow>
     length checks < 2 ^ 64 \<and> (\<forall>(w, t) \<in> set checks. wf_expr w \<and> wf_expr t) \<and>
     (case els of None \<Rightarrow> False | Some e \<Rightarrow> wf_expr e)"
| "wf_expr (BoundBetween li ui i l u) \<longleftrightarrow> wf_expr i \<and> wf_expr l \<and> wf_expr u"
| "wf_expr (OtherExpression et ec t) \<longleftrightarrow> \<not> own_class ec"
| "wf_expr _ \<longleftrightarrow> True"

end
