(* ===== verification/Vectors.thy ===== *)
theory Vectors
  imports Validity_Mask Selection_Vector Bound_Expressions
begin

text \<open>
  Vectors of scalar values (\<open>vector.cpp\<close>, \<open>constant_vector.cpp\<close>, \<open>flat_vector.hpp\<close>,
  \<open>vector_copy.cpp\<close>): flat vectors with a buffer and a validity mask, constant vectors, whose row 0
  stands for every row, and dictionary vectors, a selection into a child. Buffers are values; two
  vectors that share a buffer are two copies. Vectors of nested types, string compression, sequences
  and shredded variants have no representation here.

  The reference meaning of a vector is \<open>vec_row\<close>: the value of a row, \<open>None\<close> for NULL. The routines
  that change a vector's form (\<open>Flatten\<close>, \<open>Slice\<close>, \<open>Copy\<close>, \<open>ToUnifiedFormat\<close>) are proved to keep it.
\<close>

section \<open>State\<close>

datatype VectorType = FLAT_VECTOR | CONSTANT_VECTOR | DICTIONARY_VECTOR

datatype Vector =
    Flat LogicalType "cell list" ValidityMask
  | Constant LogicalType "cell list" ValidityMask
  | Dictionary LogicalType SelectionVector Vector

primrec GetVectorType :: "Vector \<Rightarrow> VectorType" where
  "GetVectorType (Flat t d m) = FLAT_VECTOR"
| "GetVectorType (Constant t d m) = CONSTANT_VECTOR"
| "GetVectorType (Dictionary t sel child) = DICTIONARY_VECTOR"

primrec GetType :: "Vector \<Rightarrow> LogicalType" where
  "GetType (Flat t d m) = t"
| "GetType (Constant t d m) = t"
| "GetType (Dictionary t sel child) = t"

text \<open>
  What freshly allocated memory holds is the argument \<open>junk\<close>: the bits found at each row, read at the
  physical type of the vector.
\<close>

type_synonym junk = "nat \<Rightarrow> int"

definition junk_cell :: "PhysicalType \<Rightarrow> int \<Rightarrow> cell" where
  "junk_cell pt b =
     (if pt = PT_FLOAT then CFloat (word_of_int b)
      else if pt = PT_DOUBLE then CDouble (word_of_int b)
      else if pt = PT_VARCHAR then CString []
      else CInt b)"

definition Vector_Initialize :: "junk \<Rightarrow> LogicalType \<Rightarrow> nat \<Rightarrow> Vector" where
  "Vector_Initialize junk t cap =
     (let validity = Mask_Reset STANDARD_VECTOR_SIZE;
          buffer = map (\<lambda>i. junk_cell (InternalType t) (junk i)) [0..<cap];
          validity = (if cap > capacity validity then Mask_Resize cap validity else validity)
      in Flat t buffer validity)"

section \<open>Access\<close>

definition FlatVector_Validity :: "Vector \<Rightarrow> ValidityMask result" where
  "FlatVector_Validity v = (case v of Flat t d m \<Rightarrow> Inr m | _ \<Rightarrow> Inl InternalException)"

definition ConstantVector_IsNull :: "Vector \<Rightarrow> bool" where
  "ConstantVector_IsNull v =
     (case v of Constant t d m \<Rightarrow> \<not> RowIsValid m 0 | Flat t d m \<Rightarrow> \<not> RowIsValid m 0 | _ \<Rightarrow> False)"

definition ConstantVector_SetNull :: "bool \<Rightarrow> Vector \<Rightarrow> Vector" where
  "ConstantVector_SetNull null v =
     (case v of
        Constant t d m \<Rightarrow> Constant t d (Set 0 (\<not> null) m)
      | Flat t d m \<Rightarrow> Flat t d (Set 0 (\<not> null) m)
      | _ \<Rightarrow> v)"

definition FlatVector_SetNull :: "nat \<Rightarrow> bool \<Rightarrow> Vector \<Rightarrow> Vector" where
  "FlatVector_SetNull idx null v =
     (case v of Flat t d m \<Rightarrow> Flat t d (Set idx (\<not> null) m) | _ \<Rightarrow> v)"

text \<open>Switching between flat and constant keeps buffer and mask.\<close>

definition SetVectorType :: "VectorType \<Rightarrow> Vector \<Rightarrow> Vector" where
  "SetVectorType vt v =
     (case (v, vt) of
        (Flat t d m, CONSTANT_VECTOR) \<Rightarrow> Constant t d m
      | (Constant t d m, FLAT_VECTOR) \<Rightarrow> Flat t d m
      | _ \<Rightarrow> v)"

definition ZeroSelectionVector :: "nat \<Rightarrow> SelectionVector" where
  "ZeroSelectionVector cnt =
     (if cnt \<le> STANDARD_VECTOR_SIZE then Some (replicate STANDARD_VECTOR_SIZE 0) else Some (replicate cnt 0))"

text \<open>\<open>FlatVector::IncrementalSelectionVector\<close>: a selection that is not set.\<close>

definition IncrementalSelectionVector :: SelectionVector where
  "IncrementalSelectionVector = None"

section \<open>References and slices\<close>

primrec with_type :: "LogicalType \<Rightarrow> Vector \<Rightarrow> Vector" where
  "with_type t (Flat t' d m) = Flat t d m"
| "with_type t (Constant t' d m) = Constant t d m"
| "with_type t (Dictionary t' sel child) = Dictionary t sel child"

definition ConstReference :: "Vector \<Rightarrow> Vector \<Rightarrow> Vector" where
  "ConstReference other this = with_type (GetType this) other"

definition Reference :: "Vector \<Rightarrow> Vector \<Rightarrow> Vector result" where
  "Reference other this =
     (if lt_id (GetType other) \<noteq> lt_id (GetType this) then Inl InternalException
      else Inr (ConstReference other this))"

definition Reference_Value :: "junk \<Rightarrow> Value \<Rightarrow> Vector" where
  "Reference_Value junk v =
     (let m = Mask_Reset STANDARD_VECTOR_SIZE in
      Constant (value_type v)
        [if is_null v then junk_cell (InternalType (value_type v)) (junk 0) else value_data v]
        (Set 0 (\<not> is_null v) m))"

definition Slice_sel :: "SelectionVector \<Rightarrow> nat \<Rightarrow> Vector \<Rightarrow> Vector" where
  "Slice_sel sel cnt v =
     (if \<not> sel_IsSet sel \<or> cnt = 0 then v
      else
        case v of
          Constant t d m \<Rightarrow> v
        | Dictionary t current_sel child \<Rightarrow> Dictionary t (Some (sel_Slice current_sel sel cnt)) child
        | Flat t d m \<Rightarrow> Dictionary t sel (Flat t d m))"

definition Slice_other :: "Vector \<Rightarrow> SelectionVector \<Rightarrow> nat \<Rightarrow> Vector \<Rightarrow> Vector result" where
  "Slice_other other sel cnt this = bindE (Reference other this) (\<lambda>v. Inr (Slice_sel sel cnt v))"

text \<open>A range of a flat vector moves the start of the buffer.\<close>

definition Slice_range :: "(nat \<Rightarrow> sel_t) \<Rightarrow> Vector \<Rightarrow> nat \<Rightarrow> nat \<Rightarrow> Vector \<Rightarrow> Vector result" where
  "Slice_range junk other offset end this =
     (case other of
        Constant t d m \<Rightarrow> Reference other this
      | Dictionary t dsel child \<Rightarrow>
          (let cnt = end - offset;
               sel = fold (\<lambda>i. set_index i (offset + i)) [0..<cnt] (sel_Initialize junk cnt)
           in Slice_other other sel cnt this)
      | Flat t d m \<Rightarrow>
          bindE (Reference other this) (\<lambda>v.
            if offset > 0 then
              bindE (Mask_Slice m offset (end - offset) m) (\<lambda>m'. Inr (Flat (GetType v) (drop offset d) m'))
            else Inr v))"

section \<open>Copying\<close>

text \<open>The loop at the start of \<open>Copy\<close>: through dictionaries to the vector that holds the data.\<close>

fun copy_source :: "SelectionVector \<Rightarrow> nat \<Rightarrow> nat \<Rightarrow> Vector \<Rightarrow> SelectionVector \<times> Vector" where
  "copy_source sel source_count copy_count (Dictionary t dict_sel child) =
     copy_source (Some (sel_Slice dict_sel sel source_count)) source_count copy_count child"
| "copy_source sel source_count copy_count (Constant t d m) = (ZeroSelectionVector copy_count, Constant t d m)"
| "copy_source sel source_count copy_count (Flat t d m) = (sel, Flat t d m)"

definition copy_cells :: "cell list \<Rightarrow> SelectionVector \<Rightarrow> nat \<Rightarrow> nat \<Rightarrow> nat \<Rightarrow> (nat \<Rightarrow> bool) \<Rightarrow> cell list \<Rightarrow> cell list" where
  "copy_cells ldata sel source_offset target_offset copy_count copies tdata =
     fold (\<lambda>i tdata. if copies (target_offset + i) then tdata[target_offset + i := ldata ! get_index sel (source_offset + i)] else tdata)
       [0..<copy_count] tdata"

definition constant_size_type :: "PhysicalType \<Rightarrow> bool" where
  "constant_size_type pt \<longleftrightarrow> pt \<in> {PT_BOOL, PT_INT8, PT_INT16, PT_INT32, PT_INT64, PT_UINT8, PT_UINT16, PT_UINT32,
     PT_UINT64, PT_INT128, PT_UINT128, PT_FLOAT, PT_DOUBLE, PT_INTERVAL}"

definition copy_mask :: "SelectionVector \<Rightarrow> Vector \<Rightarrow> nat \<Rightarrow> nat \<Rightarrow> nat \<Rightarrow> ValidityMask \<Rightarrow> ValidityMask result" where
  "copy_mask sel source source_offset target_offset copy_count tmask =
     (case source of
        Constant t d m \<Rightarrow> Inr (copy_rows (\<lambda>_. \<not> ConstantVector_IsNull source) target_offset copy_count tmask)
      | Flat t d m \<Rightarrow> CopySel m (map_option (\<lambda>xs i. unat (xs ! i)) sel) source_offset target_offset copy_count tmask
      | Dictionary t dsel child \<Rightarrow> Inl InternalException)"

definition Copy_flat :: "SelectionVector \<Rightarrow> Vector \<Rightarrow> nat \<Rightarrow> nat \<Rightarrow> nat \<Rightarrow> LogicalType \<Rightarrow> cell list \<Rightarrow> ValidityMask \<Rightarrow> Vector result" where
  "Copy_flat sel source source_offset target_offset copy_count t tdata tmask =
     bindE (copy_mask sel source source_offset target_offset copy_count tmask) (\<lambda>tmask.
       let ldata = (case source of Flat t d m \<Rightarrow> d | Constant t d m \<Rightarrow> d | _ \<Rightarrow> []);
           pt = InternalType (GetType source) in
       if constant_size_type pt then
         Inr (Flat t (copy_cells ldata sel source_offset target_offset copy_count (\<lambda>_. True) tdata) tmask)
       else if pt = PT_VARCHAR then
         Inr (Flat t (copy_cells ldata sel source_offset target_offset copy_count (RowIsValid tmask) tdata) tmask)
       else Inl NotImplementedException)"

definition Copy_count :: "Vector \<Rightarrow> SelectionVector \<Rightarrow> nat \<Rightarrow> nat \<Rightarrow> nat \<Rightarrow> nat \<Rightarrow> Vector \<Rightarrow> Vector result" where
  "Copy_count source_p sel_p source_count source_offset target_offset copy_count target =
     (let (sel, source) = copy_source sel_p source_count copy_count source_p in
      if copy_count = 0 then Inr target
      else
        case target of
          Flat t d m \<Rightarrow> Copy_flat sel source source_offset target_offset copy_count t d m
        | Constant t d m \<Rightarrow>
            if copy_count = 1 then
              bindE (Copy_flat sel source source_offset 0 copy_count t d m) (\<lambda>v. Inr (SetVectorType CONSTANT_VECTOR v))
            else Inl InternalException
        | Dictionary t dsel child \<Rightarrow> Inl InternalException)"

definition Copy :: "Vector \<Rightarrow> SelectionVector \<Rightarrow> nat \<Rightarrow> nat \<Rightarrow> nat \<Rightarrow> Vector \<Rightarrow> Vector result" where
  "Copy source_p sel_p source_count source_offset target_offset target =
     Copy_count source_p sel_p source_count source_offset target_offset (source_count - source_offset) target"

section \<open>Flattening and the unified format\<close>

definition ConstantVector_Flatten :: "Vector \<Rightarrow> nat \<Rightarrow> Vector \<Rightarrow> Vector result" where
  "ConstantVector_Flatten const_vector cnt res =
     (case (const_vector, res) of
        (Constant t d m, Flat t' d' m') \<Rightarrow>
          if ConstantVector_IsNull const_vector then Inr (Flat t' d' (SetAllInvalid cnt (EnsureWritable m')))
          else if constant_size_type (InternalType t) \<or> InternalType t = PT_VARCHAR then
            Inr (Flat t' (fold (\<lambda>i out. out[i := d ! 0]) [0..<cnt] d') m')
          else Inl InternalException
      | _ \<Rightarrow> Inl InternalException)"

definition Flatten :: "junk \<Rightarrow> nat \<Rightarrow> Vector \<Rightarrow> Vector result" where
  "Flatten junk cnt v =
     (case v of
        Flat t d m \<Rightarrow> Inr v
      | Dictionary t sel child \<Rightarrow>
          bindE (Copy v IncrementalSelectionVector cnt 0 0 (Vector_Initialize junk t cnt))
            (\<lambda>other. Inr (ConstReference other v))
      | Constant t d m \<Rightarrow>
          bindE (ConstantVector_Flatten v cnt (Vector_Initialize junk t (max STANDARD_VECTOR_SIZE cnt)))
            (\<lambda>flattened. Inr (ConstReference flattened v)))"

definition Flatten_sel :: "junk \<Rightarrow> nat \<Rightarrow> Vector \<Rightarrow> Vector result" where
  "Flatten_sel junk cnt v =
     (case v of
        Flat t d m \<Rightarrow> Inr v
      | Constant t d m \<Rightarrow>
          bindE (ConstantVector_Flatten v cnt (Vector_Initialize junk t (max STANDARD_VECTOR_SIZE cnt)))
            (\<lambda>flattened. Inr (ConstReference flattened v))
      | Dictionary t sel child \<Rightarrow> Inl InternalException)"

record UnifiedVectorFormat =
  uf_sel :: SelectionVector
  uf_data :: "cell list"
  uf_validity :: ValidityMask

definition flat_format :: "SelectionVector \<Rightarrow> Vector \<Rightarrow> UnifiedVectorFormat result" where
  "flat_format sel v =
     (case v of
        Flat t d m \<Rightarrow> Inr \<lparr>uf_sel = sel, uf_data = d, uf_validity = m\<rparr>
      | _ \<Rightarrow> Inl InternalException)"

definition ToUnifiedFormat :: "junk \<Rightarrow> nat \<Rightarrow> Vector \<Rightarrow> UnifiedVectorFormat result" where
  "ToUnifiedFormat junk cnt v =
     (case v of
        Dictionary t sel child \<Rightarrow>
          if GetVectorType child = FLAT_VECTOR then flat_format sel child
          else bindE (Flatten_sel junk cnt child) (flat_format sel)
      | Constant t d m \<Rightarrow> Inr \<lparr>uf_sel = ZeroSelectionVector cnt, uf_data = d, uf_validity = m\<rparr>
      | Flat t d m \<Rightarrow> bindE (Flatten junk cnt v) (flat_format IncrementalSelectionVector))"

section \<open>Rows\<close>

fun vec_row :: "Vector \<Rightarrow> nat \<Rightarrow> cell option" where
  "vec_row (Flat t d m) i = (if RowIsValid m i then Some (d ! i) else None)"
| "vec_row (Constant t d m) i = (if RowIsValid m 0 then Some (d ! 0) else None)"
| "vec_row (Dictionary t sel child) i = vec_row child (get_index sel i)"

definition unified_row :: "UnifiedVectorFormat \<Rightarrow> nat \<Rightarrow> cell option" where
  "unified_row f i =
     (let k = get_index (uf_sel f) i in if RowIsValid (uf_validity f) k then Some (uf_data f ! k) else None)"

text \<open>
  A vector whose first \<open>n\<close> rows can be read: buffers and masks are long enough, a dictionary selects
  rows of a flat child.
\<close>

definition scalar_type :: "LogicalType \<Rightarrow> bool" where
  "scalar_type t \<longleftrightarrow> constant_size_type (InternalType t) \<or> InternalType t = PT_VARCHAR"

fun vec_ok :: "nat \<Rightarrow> Vector \<Rightarrow> bool" where
  "vec_ok n (Flat t d m) \<longleftrightarrow> scalar_type t \<and> n \<le> length d \<and> mask_wf m \<and> n \<le> capacity m"
| "vec_ok n (Constant t d m) \<longleftrightarrow> scalar_type t \<and> 0 < length d \<and> mask_wf m \<and> 0 < capacity m"
| "vec_ok n (Dictionary t sel (Flat t' d m)) \<longleftrightarrow>
     scalar_type t \<and> t' = t \<and> mask_wf m \<and>
     (case sel of None \<Rightarrow> False | Some xs \<Rightarrow> n \<le> length xs) \<and>
     (\<forall>i < n. get_index sel i < length d \<and> get_index sel i < capacity m)"
| "vec_ok n (Dictionary t sel (Constant t' d m)) \<longleftrightarrow> False"
| "vec_ok n (Dictionary t sel (Dictionary t' sel' c)) \<longleftrightarrow> False"

lemma vec_ok_cases [consumes 1, case_names Flat Constant Dictionary]:
  assumes "vec_ok n v"
  obtains t d m where "v = Flat t d m"
  | t d m where "v = Constant t d m"
  | t xs d m where "v = Dictionary t (Some xs) (Flat t d m)"
proof (cases v)
  case (Dictionary t sel child)
  with assms that(3) show ?thesis by (cases child; cases sel) auto
qed (use that in auto)

lemma Vector_Initialize_eq:
  "Vector_Initialize junk t cap =
     Flat t (map (\<lambda>i. junk_cell (InternalType t) (junk i)) [0..<cap])
       \<lparr>validity_mask = None, capacity = max STANDARD_VECTOR_SIZE cap\<rparr>"
  by (simp add: Vector_Initialize_def Let_def Mask_Reset_def Mask_Resize_def max_def)

lemma mask_wf_None [simp]: "mask_wf \<lparr>validity_mask = None, capacity = n\<rparr>"
  by (simp add: mask_wf_def)

lemma RowIsValid_None [simp]: "RowIsValid \<lparr>validity_mask = None, capacity = n\<rparr> i"
  by (simp add: RowIsValid_bit)

lemma length_copy_cells [simp]: "length (copy_cells ld sel so to n c td) = length td"
  unfolding copy_cells_def by (induction n) auto

lemma copy_cells_Suc:
  "copy_cells ld sel so to (Suc n) c td =
     (let td' = copy_cells ld sel so to n c td in
      if c (to + n) then td'[to + n := ld ! get_index sel (so + n)] else td')"
  by (simp add: copy_cells_def Let_def)

lemma nth_copy_cells:
  "to + n \<le> length td \<Longrightarrow> j < length td \<Longrightarrow>
   copy_cells ld sel so to n c td ! j =
     (if to \<le> j \<and> j < to + n \<and> c j then ld ! get_index sel (so + (j - to)) else td ! j)"
proof (induction n)
  case (Suc n)
  then show ?case by (auto simp: copy_cells_Suc Let_def nth_list_update)
qed (auto simp: copy_cells_def)

lemma CopySel_rows:
  assumes "mask_wf tm" and "to + n \<le> capacity tm"
  shows "\<exists>tm'. CopySel m (Some f) so to n tm = Inr tm' \<and> mask_wf tm' \<and> capacity tm' = capacity tm \<and>
    (\<forall>r < capacity tm. RowIsValid tm' r =
       (if to \<le> r \<and> r < to + n then RowIsValid m (f (so + (r - to))) else RowIsValid tm r))"
proof (cases "AllValid m \<and> AllValid tm")
  case True
  then show ?thesis
    using assms by (simp add: CopySel_def AllValid_def RowIsValid_bit)
next
  case False
  then have "CopySel m (Some f) so to n tm = Inr (copy_rows (\<lambda>i. RowIsValid m (f (so + i))) to n tm)"
    unfolding CopySel_def by (simp only: if_False) simp
  then show ?thesis
    using assms RowIsValid_copy_rows [OF assms] by simp
qed

lemma fold_fill:
  "n \<le> length xs \<Longrightarrow> length (fold (\<lambda>i out. out[i := x]) [0..<n] xs) = length xs \<and>
     (\<forall>i < n. fold (\<lambda>i out. out[i := x]) [0..<n] xs ! i = x)"
  by (induction n) (auto simp: nth_list_update less_Suc_eq)

lemma sel_Slice_identity: "n \<le> length xs \<Longrightarrow> sel_Slice (Some xs) None n = take n xs"
  by (auto simp: sel_Slice_def get_index_def intro!: nth_equalityI)

text \<open>The cells of a vector's buffer; a property of all of them carries over to the flattened rows, NULL or not.\<close>

primrec vec_cells :: "Vector \<Rightarrow> cell list" where
  "vec_cells (Flat t d m) = d"
| "vec_cells (Constant t d m) = d"
| "vec_cells (Dictionary t sel child) = vec_cells child"

lemma Flatten_Dictionary_rows:
  assumes "vec_ok n (Dictionary t (Some xs) (Flat t d m))"
    and "\<forall>c \<in> set d. P c" and "\<forall>b. P (junk_cell (InternalType t) b)"
  shows "\<exists>d' m'. Flatten junk n (Dictionary t (Some xs) (Flat t d m)) = Inr (Flat t d' m') \<and> vec_ok n (Flat t d' m') \<and>
    (\<forall>i < n. P (d' ! i)) \<and> (\<forall>i < n. vec_row (Flat t d' m') i = vec_row (Dictionary t (Some xs) (Flat t d m)) i)"
proof (cases "n = 0")
  case True
  then show ?thesis
    using assms by (simp add: Flatten_def Copy_def Copy_count_def Vector_Initialize_eq ConstReference_def)
next
  case False
  let ?tm = "\<lparr>validity_mask = None, capacity = max STANDARD_VECTOR_SIZE n\<rparr>" and ?f = "\<lambda>i. unat (take n xs ! i)"
  let ?td = "map (\<lambda>i. junk_cell (InternalType t) (junk i)) [0..<n]"
  have len: "n \<le> length xs" and t: "scalar_type t" using assms by auto
  obtain tm' where tm': "CopySel m (Some ?f) 0 0 n ?tm = Inr tm'" "mask_wf tm'" "capacity tm' = capacity ?tm"
    "\<forall>r < capacity ?tm. RowIsValid tm' r = (if 0 \<le> r \<and> r < 0 + n then RowIsValid m (?f (0 + (r - 0))) else RowIsValid ?tm r)"
    using CopySel_rows [of ?tm 0 n m ?f 0] by auto
  have src: "copy_source IncrementalSelectionVector n n (Dictionary t (Some xs) (Flat t d m)) = (Some (take n xs), Flat t d m)"
    using len by (simp add: IncrementalSelectionVector_def sel_Slice_identity)
  let ?c = "if constant_size_type (InternalType t) then \<lambda>_. True else RowIsValid tm'"
  have "Flatten junk n (Dictionary t (Some xs) (Flat t d m)) =
      Inr (Flat t (copy_cells d (Some (take n xs)) 0 0 n ?c ?td) tm')"
    using False src tm'(1) t
    by (auto simp: Flatten_def Copy_def Copy_count_def Vector_Initialize_eq Copy_flat_def copy_mask_def scalar_type_def
        ConstReference_def Let_def)
  moreover have "vec_row (Flat t (copy_cells d (Some (take n xs)) 0 0 n ?c ?td) tm') i =
      vec_row (Dictionary t (Some xs) (Flat t d m)) i" if "i < n" for i
    using that tm'(4) len nth_copy_cells [of 0 n ?td i] by (auto simp: get_index_def)
  moreover have "vec_ok n (Flat t (copy_cells d (Some (take n xs)) 0 0 n ?c ?td) tm')"
    using tm'(2,3) t by simp
  moreover have "P (copy_cells d (Some (take n xs)) 0 0 n ?c ?td ! i)" if "i < n" for i
    using that assms nth_copy_cells [of 0 n ?td i] by (simp add: get_index_def)
  ultimately show ?thesis by blast
qed

lemma Flatten_Constant_rows:
  assumes "vec_ok n (Constant t d m)"
    and "\<forall>c \<in> set d. P c" and "\<forall>b. P (junk_cell (InternalType t) b)"
  shows "\<exists>d' m'. Flatten junk n (Constant t d m) = Inr (Flat t d' m') \<and> vec_ok n (Flat t d' m') \<and>
    (\<forall>i < n. P (d' ! i)) \<and> (\<forall>i < n. vec_row (Flat t d' m') i = vec_row (Constant t d m) i)"
proof -
  let ?cap = "max STANDARD_VECTOR_SIZE n"
  let ?tm = "\<lparr>validity_mask = None, capacity = ?cap\<rparr>"
  let ?td = "map (\<lambda>i. junk_cell (InternalType t) (junk i)) [0..<?cap]"
  show ?thesis
  proof (cases "RowIsValid m 0")
    case True
    have "Flatten junk n (Constant t d m) = Inr (Flat t (fold (\<lambda>i out. out[i := d ! 0]) [0..<n] ?td) ?tm)"
      using True assms by (simp add: Flatten_def ConstantVector_Flatten_def Vector_Initialize_eq ConstantVector_IsNull_def
          ConstReference_def scalar_type_def)
    then show ?thesis
      using True assms fold_fill [of n ?td "d ! 0"] by simp
  next
    case False
    let ?m = "SetAllInvalid n (EnsureWritable ?tm)"
    have "Flatten junk n (Constant t d m) = Inr (Flat t ?td ?m)"
      using False assms by (simp add: Flatten_def ConstantVector_Flatten_def Vector_Initialize_eq ConstantVector_IsNull_def
          ConstReference_def)
    moreover have "\<forall>i < n. \<not> RowIsValid ?m i"
      using SetAllInvalid_rows [of "EnsureWritable ?tm" n] by simp
    ultimately show ?thesis
      using False assms by simp
  qed
qed

lemma Flatten_rows:
  assumes "vec_ok n v" and "\<forall>c \<in> set (vec_cells v). P c" and "\<forall>b. P (junk_cell (InternalType (GetType v)) b)"
  shows "\<exists>d m. Flatten junk n v = Inr (Flat (GetType v) d m) \<and> vec_ok n (Flat (GetType v) d m) \<and>
    (\<forall>i < n. P (d ! i)) \<and> (\<forall>i < n. vec_row (Flat (GetType v) d m) i = vec_row v i)"
  using assms(1)
proof (cases rule: vec_ok_cases)
  case (Flat t d m)
  with assms show ?thesis by (simp add: Flatten_def)
next
  case (Constant t d m)
  with assms show ?thesis using Flatten_Constant_rows [of n t d m P junk] by simp
next
  case (Dictionary t xs d m)
  with assms show ?thesis using Flatten_Dictionary_rows [of n t xs d m P junk] by simp
qed

text \<open>
  C23: Flattening a vector of \<open>n\<close> readable rows succeeds whatever its form and whatever the fresh memory
  holds, and gives a flat vector with the same value or NULL in each of the \<open>n\<close> rows.
\<close>

theorem flatten_keeps_rows:
  assumes "vec_ok n v"
  shows "\<exists>d m. Flatten junk n v = Inr (Flat (GetType v) d m) \<and> vec_ok n (Flat (GetType v) d m) \<and>
    (\<forall>i < n. vec_row (Flat (GetType v) d m) i = vec_row v i)"
  using Flatten_rows [OF assms, of "\<lambda>_. True" junk] by simp

definition ex_dict :: Vector where
  "ex_dict = Dictionary BOOLEAN (Some [1, 0, 1]) (Flat BOOLEAN [CInt 0, CInt 1] (Mask_Reset 64))"

lemma ex_dict_ok [simp]: "vec_ok 3 ex_dict"
  by (auto simp: ex_dict_def scalar_type_def constant_size_type_def Mask_Reset_def get_index_def less_Suc_eq numeral_3_eq_3)

theorem flatten_keeps_rows_witness:
  "\<exists>d m. Flatten (\<lambda>_. 7) 3 ex_dict = Inr (Flat BOOLEAN d m) \<and> vec_row (Flat BOOLEAN d m) 0 = Some (CInt 1)"
proof -
  have "vec_row ex_dict 0 = Some (CInt 1)" "GetType ex_dict = BOOLEAN"
    by (simp_all add: ex_dict_def get_index_def Mask_Reset_def)
  then show ?thesis
    using flatten_keeps_rows [OF ex_dict_ok, of "\<lambda>_. 7"] by (metis zero_less_numeral)
qed

lemma unified_rows:
  assumes "vec_ok n v"
  shows "\<exists>f. ToUnifiedFormat junk n v = Inr f \<and> (\<forall>i < n. unified_row f i = vec_row v i)"
  using assms
proof (cases rule: vec_ok_cases)
  case (Flat t d m)
  then show ?thesis
    by (simp add: ToUnifiedFormat_def Flatten_def flat_format_def unified_row_def IncrementalSelectionVector_def get_index_def)
next
  case (Constant t d m)
  have "get_index (ZeroSelectionVector n) i = 0" if "i < n" for i
    using that by (simp add: ZeroSelectionVector_def get_index_def)
  with Constant show ?thesis
    by (simp add: ToUnifiedFormat_def unified_row_def)
next
  case (Dictionary t xs d m)
  then show ?thesis
    by (simp add: ToUnifiedFormat_def flat_format_def unified_row_def Let_def)
qed

text \<open>
  The unified format of a vector gives, through its selection, the same value or NULL for each of
  the \<open>n\<close> rows as the vector itself.
\<close>

theorem unified_format_rows:
  assumes "vec_ok n v"
  shows "\<exists>f. ToUnifiedFormat junk n v = Inr f \<and> (\<forall>i < n. unified_row f i = vec_row v i)"
  using unified_rows [OF assms] .

theorem unified_format_rows_witness:
  "\<exists>f. ToUnifiedFormat (\<lambda>_. 7) 3 ex_dict = Inr f \<and> unified_row f 1 = Some (CInt 0)"
proof -
  have "vec_row ex_dict 1 = Some (CInt 0)"
    by (simp add: ex_dict_def get_index_def Mask_Reset_def)
  then show ?thesis
    using unified_format_rows [OF ex_dict_ok, of "\<lambda>_. 7"] by auto
qed

lemma Slice_sel_rows:
  assumes "vec_ok k v" and "\<forall>i < n. get_index sel i < k" and "case sel of None \<Rightarrow> True | Some xs \<Rightarrow> n \<le> length xs"
  shows "vec_ok n (Slice_sel sel n v) \<and> (\<forall>i < n. vec_row (Slice_sel sel n v) i = vec_row v (get_index sel i))"
proof (cases "sel_IsSet sel \<and> n \<noteq> 0")
  case False
  have "n \<le> k" using assms(2) False by (cases n) (auto simp: sel_IsSet_def get_index_def)
  moreover have "vec_ok n v" using assms(1)
  proof (cases rule: vec_ok_cases)
    case (Dictionary t xs d m)
    with assms(1) \<open>n \<le> k\<close> show ?thesis by auto
  qed (use assms(1) \<open>n \<le> k\<close> in auto)
  ultimately show ?thesis
    using False by (auto simp: Slice_sel_def sel_IsSet_def get_index_def)
next
  case True
  then obtain ys where sel: "sel = Some ys" by (auto simp: sel_IsSet_def)
  have idx: "get_index (Some (sel_Slice (Some xs) sel n)) i = get_index (Some xs) (get_index sel i)" if "i < n" for xs i
    using that by (simp add: sel_Slice_def get_index_def [of "Some _"])
  from assms(1) show ?thesis
  proof (cases rule: vec_ok_cases)
    case (Flat t d m)
    with assms True sel show ?thesis by (auto simp: Slice_sel_def sel_IsSet_def intro: less_le_trans)
  next
    case (Constant t d m)
    with assms True show ?thesis by (simp add: Slice_sel_def sel_IsSet_def)
  next
    case (Dictionary t xs d m)
    with assms True idx show ?thesis by (simp add: Slice_sel_def sel_Slice_def)
  qed
qed

text \<open>Copying rows to the front of a flat vector, through the selection that leads to the data.\<close>

lemma Copy_count_rows:
  assumes src: "copy_source sel0 n n v = (sel, Flat t d m)" and t: "scalar_type t" and n: "0 < n" "n \<le> length td" "mask_wf tm" "n \<le> capacity tm"
  shows "\<exists>v'. Copy_count v sel0 n 0 0 n (Flat t td tm) = Inr v' \<and> GetType v' = t \<and> vec_ok n v' \<and>
    (\<forall>i < n. vec_row v' i = vec_row (Flat t d m) (get_index sel i))"
proof -
  have "\<exists>tm'. CopySel m (map_option (\<lambda>xs i. unat (xs ! i)) sel) 0 0 n tm = Inr tm' \<and> mask_wf tm' \<and> capacity tm' = capacity tm \<and>
      (\<forall>r < n. RowIsValid tm' r = RowIsValid m (get_index sel r))"
  proof (cases sel)
    case None
    with Mask_SliceInPlace_rows [of tm 0 n m 0] n(3,4) show ?thesis
      by (auto simp: CopySel_def IsAligned_def get_index_def sliced_def AllValid_def RowIsValid_bit)
  next
    case (Some xs)
    with CopySel_rows [of tm 0 n m "\<lambda>i. unat (xs ! i)" 0] n(3,4) show ?thesis by (auto simp: get_index_def)
  qed
  then obtain tm' where tm': "CopySel m (map_option (\<lambda>xs i. unat (xs ! i)) sel) 0 0 n tm = Inr tm'" "mask_wf tm'" "capacity tm' = capacity tm"
    "\<forall>r < n. RowIsValid tm' r = RowIsValid m (get_index sel r)" by blast
  let ?c = "if constant_size_type (InternalType t) then \<lambda>_. True else RowIsValid tm'"
  have "Copy_count v sel0 n 0 0 n (Flat t td tm) = Inr (Flat t (copy_cells d sel 0 0 n ?c td) tm')"
    using n(1) src tm'(1) t by (auto simp: Copy_count_def Copy_flat_def copy_mask_def scalar_type_def Let_def)
  moreover have "vec_row (Flat t (copy_cells d sel 0 0 n ?c td) tm') i = vec_row (Flat t d m) (get_index sel i)" if "i < n" for i
    using tm'(4) nth_copy_cells [of 0 n td i] n(2) that by auto
  ultimately show ?thesis using tm' t n(2,4) by simp
qed

lemma Copy_flat_rows:
  assumes "vec_ok n v" and "GetVectorType v \<noteq> CONSTANT_VECTOR" and "GetType v = t" and "n \<le> length td" "mask_wf tm" "n \<le> capacity tm"
  shows "\<exists>v'. Copy v IncrementalSelectionVector n 0 0 (Flat t td tm) = Inr v' \<and> GetType v' = t \<and> vec_ok n v' \<and> (\<forall>i < n. vec_row v' i = vec_row v i)"
proof (cases "n = 0")
  case True
  have "scalar_type t" using assms(1) by (cases rule: vec_ok_cases) (use assms(1,3) in auto)
  with True assms show ?thesis by (simp add: Copy_def Copy_count_def split: prod.splits)
next
  case False
  have t: "scalar_type t" using assms(1) by (cases rule: vec_ok_cases) (use assms(1,3) in auto)
  obtain sel d m where src: "copy_source IncrementalSelectionVector n n v = (sel, Flat t d m)" and row: "\<forall>i < n. vec_row v i = vec_row (Flat t d m) (get_index sel i)"
    using assms(1)
  proof (cases rule: vec_ok_cases)
    case (Dictionary t' xs d m)
    then have "n \<le> length xs" using assms(1) by simp
    then have "copy_source IncrementalSelectionVector n n v = (Some (take n xs), Flat t d m)"
      using Dictionary assms(3) by (simp add: IncrementalSelectionVector_def sel_Slice_identity)
    then show ?thesis by (rule that) (use Dictionary in \<open>simp add: get_index_def\<close>)
  qed (use that assms(2,3) in \<open>auto simp: IncrementalSelectionVector_def get_index_def\<close>)
  with Copy_count_rows [OF src t _ assms(4-6)] False show ?thesis by (auto simp: Copy_def)
qed

text \<open>
  Slicing a vector by a selection of its readable rows composes the selections: row \<open>i\<close> of the slice
  is the selected row, and the slice is readable again.
\<close>

theorem slice_selects_rows:
  assumes "vec_ok k v" and "\<forall>i < n. get_index sel i < k" and "case sel of None \<Rightarrow> True | Some xs \<Rightarrow> n \<le> length xs"
  shows "vec_ok n (Slice_sel sel n v) \<and> (\<forall>i < n. vec_row (Slice_sel sel n v) i = vec_row v (get_index sel i))"
  by (rule Slice_sel_rows [OF assms])

theorem slice_selects_rows_witness:
  "vec_row (Slice_sel (Some [2, 1]) 2 ex_dict) 1 = Some (CInt 0)"
proof -
  have "vec_row ex_dict 1 = Some (CInt 0)"
    by (simp add: ex_dict_def get_index_def Mask_Reset_def)
  moreover have "\<forall>i < 2. get_index (Some [2, 1]) i < 3"
    by (auto simp: get_index_def less_2_cases_iff)
  ultimately show ?thesis
    using slice_selects_rows [OF ex_dict_ok, of 2 "Some [2, 1]"] by (simp add: get_index_def)
qed

end
