(* ===== verification/Row_Loops.thy ===== *)
theory Row_Loops
  imports Vectors
begin

text \<open>
  What the vector executors (\<open>unary_executor.hpp\<close>, \<open>binary_executor.hpp\<close>) promise: the result vector
  holds, row by row, what the operation gives for the row, and if a row throws, the first such row's
  error is raised. The loops over 64-row entries of a validity mask are reduced to loops over rows here,
  once for every executor.
\<close>

section \<open>The contract\<close>

text \<open>
  \<open>row i\<close> is the meaning of row \<open>i\<close>, a value, NULL or an error; \<open>r\<close> is what an executor returns.
\<close>

definition executes :: "LogicalType \<Rightarrow> nat \<Rightarrow> (nat \<Rightarrow> cell option result) \<Rightarrow> Vector result \<Rightarrow> bool" where
  "executes t n row r \<longleftrightarrow>
     (case mapE row [0..<n] of
        Inl e \<Rightarrow> r = Inl e
      | Inr out \<Rightarrow> (\<exists>v. r = Inr v \<and> GetType v = t \<and> vec_ok n v \<and> (\<forall>i < n. vec_row v i = out ! i)))"

lemma mapE_cong: "(\<And>x. x \<in> set xs \<Longrightarrow> f x = g x) \<Longrightarrow> mapE f xs = mapE g xs"
  by (induction xs) simp_all

lemma mapE_nth: "mapE f xs = Inr ys \<Longrightarrow> length ys = length xs \<and> (\<forall>i < length xs. f (xs ! i) = Inr (ys ! i))"
proof (induction xs arbitrary: ys)
  case (Cons x xs)
  then obtain y zs where "f x = Inr y" "mapE f xs = Inr zs" "ys = y # zs" by (auto simp: bindE_Inr_iff)
  with Cons.IH show ?case by (auto simp: nth_Cons split: nat.splits)
qed simp

lemma executes_cong:
  assumes "executes t n row r" and "\<And>i. i < n \<Longrightarrow> row' i = row i"
  shows "executes t n row' r"
  using assms mapE_cong [of "[0..<n]" row' row] by (simp add: executes_def)

text \<open>All rows alike, as constant vectors make them.\<close>

lemma executes_same:
  assumes "\<And>i. i < n \<Longrightarrow> row i = Inr x" and "vec_ok n v" and "GetType v = t" and "\<And>i. i < n \<Longrightarrow> vec_row v i = x"
  shows "executes t n row (Inr v)"
proof -
  have "mapE row [0..<n] = Inr (map (\<lambda>_. x) [0..<n])" by (rule mapE_total) (simp add: assms(1))
  with assms show ?thesis by (simp add: executes_def)
qed

lemma executes_error:
  assumes "0 < n" and "row 0 = Inl e"
  shows "executes t n row (Inl e)"
proof -
  have "[0..<n] = 0 # [1..<n]" using assms(1) by (simp add: upt_rec)
  with assms(2) show ?thesis by (simp add: executes_def)
qed

section \<open>Loops over rows\<close>

text \<open>A loop that computes the rows in \<open>V\<close> and treats the mask of the others with \<open>h\<close>.\<close>

definition row_loop ::
    "(nat \<Rightarrow> cell result) \<Rightarrow> (nat \<Rightarrow> bool) \<Rightarrow> (nat \<Rightarrow> ValidityMask \<Rightarrow> ValidityMask)
      \<Rightarrow> nat \<Rightarrow> cell list \<times> ValidityMask \<Rightarrow> (cell list \<times> ValidityMask) result" where
  "row_loop g V h i = (\<lambda>(d, m). if V i then bindE (g i) (\<lambda>c. Inr (d[i := c], m)) else Inr (d, h i m))"

abbreviation keep_mask :: "nat \<Rightarrow> ValidityMask \<Rightarrow> ValidityMask" where
  "keep_mask \<equiv> \<lambda>_ m. m"

definition rowE :: "(nat \<Rightarrow> cell result) \<Rightarrow> (nat \<Rightarrow> bool) \<Rightarrow> nat \<Rightarrow> cell option result" where
  "rowE g V i = (if V i then bindE (g i) (\<lambda>c. Inr (Some c)) else Inr None)"

lemma row_loop_step: "row_loop g V h i (d, m) = (if V i then bindE (g i) (\<lambda>c. Inr (d[i := c], m)) else Inr (d, h i m))"
  by (simp add: row_loop_def)

lemma row_loop_error: "mapE (rowE g V) xs = Inl e \<Longrightarrow> foldE (row_loop g V h) xs (d, m) = Inl e"
proof (induction xs arbitrary: d m)
  case (Cons i xs)
  show ?case
  proof (cases "rowE g V i")
    case (Inl e')
    with Cons.prems show ?thesis
      by (cases "g i") (simp_all add: row_loop_step rowE_def [of g V i] split: if_splits)
  next
    case (Inr x)
    with Cons.prems have "mapE (rowE g V) xs = Inl e" by (cases "mapE (rowE g V) xs") simp_all
    with Inr Cons.IH show ?thesis
      by (cases "g i") (simp_all add: row_loop_step rowE_def [of g V i] split: if_splits)
  qed
qed simp

lemma row_loop_ok:
  "\<forall>i \<in> set xs. V i \<longrightarrow> g i = Inr (c i) \<Longrightarrow>
   foldE (row_loop g V h) xs (d, m) =
     Inr (fold (\<lambda>i d. if V i then d[i := c i] else d) xs d, fold (\<lambda>i m. if V i then m else h i m) xs m)"
  by (induction xs arbitrary: d m) (auto simp: row_loop_def)

lemma fold_rows_nth:
  "n \<le> length d \<Longrightarrow> length (fold (\<lambda>i d. if V i then d[i := c i] else d) [0..<n] d) = length d \<and>
     (\<forall>i < n. V i \<longrightarrow> fold (\<lambda>i d. if V i then d[i := c i] else d) [0..<n] d ! i = c i)"
  by (induction n) (auto simp: nth_list_update less_Suc_eq)

text \<open>A loop over rows meets the contract when the mask it leaves marks the rows it computed.\<close>

lemma row_loop_executes:
  assumes d: "scalar_type t" "n \<le> length d"
    and row: "\<And>i. i < n \<Longrightarrow> row i = rowE g V i"
    and m: "mask_wf m'" "n \<le> capacity m'" "\<forall>i < n. RowIsValid m' i = V i" "m' = fold (\<lambda>i m. if V i then m else h i m) [0..<n] m"
  shows "executes t n row (bindE (foldE (row_loop g V h) [0..<n] (d, m)) (\<lambda>(d, m). Inr (Flat t d m)))"
proof -
  have "executes t n (rowE g V) (bindE (foldE (row_loop g V h) [0..<n] (d, m)) (\<lambda>(d, m). Inr (Flat t d m)))"
  proof (cases "mapE (rowE g V) [0..<n]")
    case (Inl e)
    then show ?thesis using row_loop_error [OF Inl] by (simp add: executes_def)
  next
    case (Inr out)
    then have out: "rowE g V i = Inr (out ! i)" if "i < n" for i
      using mapE_nth [OF Inr] that by auto
    define c where "c i = the (out ! i)" for i
    have c: "V i \<longrightarrow> g i = Inr (c i)" "out ! i = (if V i then Some (c i) else None)" if "i < n" for i
      using out [OF that] by (auto simp: rowE_def bindE_Inr_iff c_def split: if_splits dest: sym)
    let ?d = "fold (\<lambda>i d. if V i then d[i := c i] else d) [0..<n] d"
    have "foldE (row_loop g V h) [0..<n] (d, m) = Inr (?d, m')"
      using row_loop_ok [of "[0..<n]" V g c h d m] c(1) m(4) by simp
    moreover have "length ?d = length d" "\<forall>i < n. V i \<longrightarrow> ?d ! i = c i"
      using fold_rows_nth [of n d V c] d(2) by simp_all
    ultimately show ?thesis
      using d m c(2) Inr by (simp add: executes_def)
  qed
  then show ?thesis by (rule executes_cong) (rule row)
qed

lemma fold_keep_mask: "fold keep_mask xs m = m"
  by (induction xs) simp_all

lemma keep_loop_executes:
  assumes "scalar_type t" "n \<le> length d" and "mask_wf m" "n \<le> capacity m"
    and "\<And>i. i < n \<Longrightarrow> row i = rowE g (RowIsValid m) i"
  shows "executes t n row (bindE (foldE (row_loop g (RowIsValid m) keep_mask) [0..<n] (d, m)) (\<lambda>(d, m). Inr (Flat t d m)))"
  using assms by (intro row_loop_executes [where m' = m]) (simp_all add: fold_keep_mask)

text \<open>A loop that clears the row of every missing value in a mask that starts without NULL.\<close>

lemma clear_loop_executes:
  assumes "scalar_type t" "n \<le> length d" and "AllValid m" "n \<le> capacity m"
    and "\<And>i. i < n \<Longrightarrow> row i = rowE g V i"
  shows "executes t n row (bindE (foldE (row_loop g V SetInvalid) [0..<n] (d, m)) (\<lambda>(d, m). Inr (Flat t d m)))"
proof -
  let ?m = "fold (\<lambda>i m. if \<not> V i then SetInvalid i m else m) [0..<n] m"
  have wf: "mask_wf m" "\<And>i. RowIsValid m i" using assms(3) by (auto simp: AllValid_def mask_wf_def RowIsValid_def)
  have eq: "fold (\<lambda>i m. if V i then m else SetInvalid i m) [0..<n] m = ?m"
    by (rule fold_cong) (auto simp: fun_eq_iff)
  show ?thesis
    by (rule row_loop_executes [where m' = ?m, OF assms(1,2,5)])
      (use fold_SetInvalid [OF wf(1) assms(4), of "\<lambda>i. \<not> V i"] wf(2) assms(4) eq in auto)
qed

section \<open>Loops over entries\<close>

abbreviation entry_range :: "nat \<Rightarrow> nat \<Rightarrow> nat list" where
  "entry_range cnt e \<equiv> [64 * e..<min cnt (64 * e + 64)]"

lemma entry_range_rows: "entry_range cnt e = entry_rows cnt e"
  by (simp add: entry_rows_def add.commute)

lemma entry_row:
  assumes "i \<in> set (entry_range cnt e)"
  shows "RowIsValid_entry (GetValidityEntry m e) (i - 64 * e) = RowIsValid m i"
    and "AllValid_entry (GetValidityEntry m e) \<Longrightarrow> RowIsValid m i"
    and "NoneValid_entry (GetValidityEntry m e) \<Longrightarrow> \<not> RowIsValid m i"
proof -
  have k: "i - 64 * e < 64" "64 * e + (i - 64 * e) = i" using assms by auto
  then have b: "bit (GetValidityEntry m e) (i - 64 * e) = RowIsValid m i"
    using entry_bit [OF k(1), of m e] by simp
  then show "RowIsValid_entry (GetValidityEntry m e) (i - 64 * e) = RowIsValid m i"
    using k(1) by (simp add: RowIsValid_entry_bit)
  show "AllValid_entry (GetValidityEntry m e) \<Longrightarrow> RowIsValid m i"
    using b k(1) by (simp add: AllValid_entry_def)
  show "NoneValid_entry (GetValidityEntry m e) \<Longrightarrow> \<not> RowIsValid m i"
    using b by (simp add: NoneValid_entry_def)
qed

lemma concat_entry_ranges: "concat (map (entry_range cnt) [0..<EntryCount cnt]) = [0..<cnt]"
  using concat_entry_rows [of cnt "EntryCount cnt"] EntryCount_bounds(1) [of cnt] by (simp add: entry_range_rows)

text \<open>
  The shape of the loops over entries: \<open>step\<close> computes a row, entries without a valid row are skipped,
  entries with all rows valid are computed without a test.
\<close>

definition entry_loop ::
    "(nat \<Rightarrow> cell list \<times> ValidityMask \<Rightarrow> (cell list \<times> ValidityMask) result) \<Rightarrow> ValidityMask \<Rightarrow> nat \<Rightarrow> nat
      \<Rightarrow> cell list \<times> ValidityMask \<Rightarrow> (cell list \<times> ValidityMask) result" where
  "entry_loop step vmask cnt entry_idx st =
     (let validity_entry = GetValidityEntry vmask entry_idx;
          base_idx = 64 * entry_idx;
          rows = [base_idx..<min cnt (base_idx + 64)] in
      if AllValid_entry validity_entry then foldE step rows st
      else if NoneValid_entry validity_entry then Inr st
      else foldE (\<lambda>i st. if RowIsValid_entry validity_entry (i - base_idx) then step i st else Inr st) rows st)"

lemma entry_loop_rows:
  assumes step: "\<And>i st. V i \<Longrightarrow> step i st = row_loop g V keep_mask i st" and V: "V = RowIsValid m"
  shows "entry_loop step m cnt e st = foldE (row_loop g V keep_mask) (entry_range cnt e) st"
proof -
  let ?e = "GetValidityEntry m e" and ?rows = "row_loop g V keep_mask"
  have skip: "?rows i st = Inr st" if "\<not> V i" for i st
    using that by (cases st) (simp add: row_loop_def)
  have none: "foldE ?rows xs st = Inr st" if "\<forall>i \<in> set xs. \<not> V i" for xs st
    using that skip by (induction xs) auto
  consider "AllValid_entry ?e" | "\<not> AllValid_entry ?e" "NoneValid_entry ?e" | "\<not> AllValid_entry ?e" "\<not> NoneValid_entry ?e"
    by blast
  then show ?thesis
  proof cases
    case 1
    then have "foldE step (entry_range cnt e) st = foldE ?rows (entry_range cnt e) st"
      using entry_row(2) step V by (intro foldE_cong) blast
    with 1 show ?thesis by (simp add: entry_loop_def Let_def)
  next
    case 2
    then show ?thesis
      using none entry_row(3) V by (simp add: entry_loop_def Let_def)
  next
    case 3
    then have "foldE (\<lambda>i st. if RowIsValid_entry ?e (i - 64 * e) then step i st else Inr st) (entry_range cnt e) st =
        foldE ?rows (entry_range cnt e) st"
      using entry_row(1) step skip V by (intro foldE_cong) auto
    with 3 show ?thesis by (simp add: entry_loop_def Let_def)
  qed
qed

lemma entry_loops_rows:
  assumes "\<And>i st. RowIsValid m i \<Longrightarrow> step i st = row_loop g (RowIsValid m) keep_mask i st"
  shows "foldE (entry_loop step m cnt) [0..<EntryCount cnt] st = foldE (row_loop g (RowIsValid m) keep_mask) [0..<cnt] st"
proof -
  let ?rows = "row_loop g (RowIsValid m) keep_mask"
  have "foldE (entry_loop step m cnt) [0..<EntryCount cnt] st = foldE (\<lambda>e. foldE ?rows (entry_range cnt e)) [0..<EntryCount cnt] st"
    using entry_loop_rows [OF assms refl] by (intro foldE_cong) simp
  also have "\<dots> = foldE (\<lambda>xs. foldE ?rows xs) (map (entry_range cnt) [0..<EntryCount cnt]) st"
    by (simp add: foldE_map)
  finally show ?thesis
    by (simp only: foldE_concat concat_entry_ranges)
qed

text \<open>The same when the loop reads the mask it hands to the steps.\<close>

lemma row_loop_mask: "foldE (row_loop g V keep_mask) xs (d, m) = Inr st \<Longrightarrow> snd st = m"
proof (induction xs arbitrary: d)
  case (Cons i xs)
  then show ?case by (auto simp: row_loop_step bindE_Inr_iff split: if_splits)
qed auto

lemma own_entry_loops_rows:
  assumes step: "\<And>i st. RowIsValid m i \<Longrightarrow> step i st = row_loop g (RowIsValid m) keep_mask i st"
  shows "foldE (\<lambda>e st. entry_loop step (snd st) cnt e st) [0..<EntryCount cnt] (d, m) =
    foldE (row_loop g (RowIsValid m) keep_mask) [0..<cnt] (d, m)"
proof -
  have "foldE (\<lambda>e st. entry_loop step (snd st) cnt e st) es (d, m) = foldE (entry_loop step m cnt) es (d, m)" for es d
  proof (induction es arbitrary: d)
    case (Cons e es)
    note mask = row_loop_mask [where g = g and V = "RowIsValid m" and xs = "entry_range cnt e" and d = d and m = m]
    show ?case
    proof (cases "entry_loop step m cnt e (d, m)")
      case (Inr st)
      then have "snd st = m"
        using mask entry_loop_rows [where m = m and step = step and g = g, OF step refl] by simp
      then obtain d' where "st = (d', m)" by (cases st) simp
      with Inr Cons.IH show ?thesis by simp
    qed simp
  qed simp
  then show ?thesis
    using entry_loops_rows [where m = m and step = step and g = g, OF step] by simp
qed

section \<open>Result vectors\<close>

text \<open>The buffer and mask of a flat or constant vector.\<close>

definition vec_data :: "Vector \<Rightarrow> cell list" where
  "vec_data v = (case v of Flat t d m \<Rightarrow> d | Constant t d m \<Rightarrow> d | Dictionary t sel c \<Rightarrow> [])"

definition vec_validity :: "Vector \<Rightarrow> ValidityMask" where
  "vec_validity v = (case v of Flat t d m \<Rightarrow> m | Constant t d m \<Rightarrow> m | Dictionary t sel c \<Rightarrow> Mask_Reset STANDARD_VECTOR_SIZE)"

text \<open>A vector that has not been written: a flat buffer for \<open>n\<close> rows, no NULL.\<close>

definition fresh_vec :: "nat \<Rightarrow> Vector \<Rightarrow> bool" where
  "fresh_vec n v \<longleftrightarrow>
     (case v of
        Flat t d m \<Rightarrow> scalar_type t \<and> n \<le> length d \<and> d \<noteq> [] \<and> AllValid m \<and> n \<le> capacity m \<and> 0 < capacity m
      | _ \<Rightarrow> False)"

lemma fresh_vecE:
  assumes "fresh_vec n v"
  obtains t d m where "v = Flat t d m" "scalar_type t" "n \<le> length d" "d \<noteq> []" "AllValid m" "mask_wf m" "n \<le> capacity m"
    "0 < capacity m"
  using assms by (auto simp: fresh_vec_def AllValid_def mask_wf_def split: Vector.splits)

lemma fresh_null:
  assumes "fresh_vec n res" and "\<And>i. i < n \<Longrightarrow> row i = Inr None"
  shows "executes (GetType res) n row (Inr (ConstantVector_SetNull True (SetVectorType CONSTANT_VECTOR res)))"
  using assms(1)
proof (rule fresh_vecE)
  fix t d m
  assume res: "res = Flat t d m" "scalar_type t" "n \<le> length d" "d \<noteq> []" "AllValid m" "mask_wf m" "n \<le> capacity m" "0 < capacity m"
  show ?thesis
    by (rule executes_same [where x = None, OF assms(2)])
      (use res in \<open>auto simp: ConstantVector_SetNull_def SetVectorType_def Set_def RowIsValid_SetInvalid\<close>)
qed

end
