(* ===== verification/Select_Loops.thy ===== *)
theory Select_Loops
  imports Selection_Vector
begin

text \<open>
  The loops that split the rows of a batch into those that pass a predicate and the others
  (\<open>BinaryExecutor::SelectGenericLoop\<close>, \<open>SelectFlatLoop\<close>, \<open>DefaultSelectLoop\<close>). Either output may be
  missing. The input selection may be one of the outputs: a conjunction filters a selection in place.
  A reference \<open>selref\<close> says where the input is read, so that the loops read what they have written.

  Both styles of loop, with a branch per row and with a write per row, keep the same invariant, and
  both yield the rows in order even when they read the array they write.
\<close>

section \<open>Steps\<close>

type_synonym select_output = "nat \<times> SelectionVector option \<times> SelectionVector option"

datatype selref = SelFixed SelectionVector | SelTrue | SelFalse

record select_state =
  true_count :: nat
  false_count :: nat
  true_sel :: "SelectionVector option"
  false_sel :: "SelectionVector option"

definition ref_index :: "selref \<Rightarrow> select_state \<Rightarrow> nat \<Rightarrow> nat" where
  "ref_index ref st i =
     (case ref of
        SelFixed s \<Rightarrow> get_index s i
      | SelTrue \<Rightarrow> get_index (the (true_sel st)) i
      | SelFalse \<Rightarrow> get_index (the (false_sel st)) i)"

definition select_init :: "SelectionVector option \<Rightarrow> SelectionVector option \<Rightarrow> select_state" where
  "select_init ts fs = \<lparr>true_count = 0, false_count = 0, true_sel = ts, false_sel = fs\<rparr>"

text \<open>One row of the loops that branch.\<close>

definition branch_step :: "selref \<Rightarrow> (nat \<Rightarrow> bool) \<Rightarrow> nat \<Rightarrow> select_state \<Rightarrow> select_state" where
  "branch_step ref P i st =
     (let result_idx = ref_index ref st i in
      if P i then
        (case true_sel st of
           None \<Rightarrow> st
         | Some s \<Rightarrow> st\<lparr>true_sel := Some (set_index (true_count st) result_idx s), true_count := true_count st + 1\<rparr>)
      else
        (case false_sel st of
           None \<Rightarrow> st
         | Some s \<Rightarrow> st\<lparr>false_sel := Some (set_index (false_count st) result_idx s), false_count := false_count st + 1\<rparr>))"

text \<open>One row of the loops that write the row to every output and advance only the matching counter.\<close>

definition write_step :: "selref \<Rightarrow> (nat \<Rightarrow> bool) \<Rightarrow> nat \<Rightarrow> select_state \<Rightarrow> select_state" where
  "write_step ref P i st =
     (let result_idx = ref_index ref st i;
          comparison_result = P i;
          st = (case true_sel st of
                  None \<Rightarrow> st
                | Some s \<Rightarrow> st\<lparr>true_sel := Some (set_index (true_count st) result_idx s),
                               true_count := true_count st + of_bool comparison_result\<rparr>)
      in case false_sel st of
           None \<Rightarrow> st
         | Some s \<Rightarrow> st\<lparr>false_sel := Some (set_index (false_count st) result_idx s),
                        false_count := false_count st + of_bool (\<not> comparison_result)\<rparr>)"

text \<open>The value the loops return: without a true output, the rows that did not fail.\<close>

definition select_result :: "nat \<Rightarrow> select_state \<Rightarrow> nat" where
  "select_result cnt st = (if true_sel st \<noteq> None then true_count st else cnt - false_count st)"

section \<open>The invariant\<close>

text \<open>
  After \<open>i\<close> rows: an output that is there holds the rows that go to it so far, in order, the rest of
  its array is as at the start.
\<close>

definition output_ok :: "(nat \<Rightarrow> nat) \<Rightarrow> (nat \<Rightarrow> bool) \<Rightarrow> nat \<Rightarrow> SelectionVector option \<Rightarrow> SelectionVector option \<Rightarrow> nat \<Rightarrow> bool" where
  "output_ok row Q i s0 s c \<longleftrightarrow>
     (case s0 of
        None \<Rightarrow> s = None
      | Some (Some xs) \<Rightarrow>
          (\<exists>ys. s = Some (Some ys) \<and> length ys = length xs \<and> c = length (filter Q [0..<i]) \<and>
             sel_rows (Some ys) c = map row (filter Q [0..<i]) \<and> (\<forall>j \<ge> i. ys ! j = xs ! j))
      | Some None \<Rightarrow> False)"

definition select_inv :: "(nat \<Rightarrow> nat) \<Rightarrow> (nat \<Rightarrow> bool) \<Rightarrow> nat \<Rightarrow> select_state \<Rightarrow> select_state \<Rightarrow> bool" where
  "select_inv row P i st0 st \<longleftrightarrow>
     output_ok row P i (true_sel st0) (true_sel st) (true_count st) \<and>
     output_ok row (\<lambda>i. \<not> P i) i (false_sel st0) (false_sel st) (false_count st)"

text \<open>The outputs can hold \<open>n\<close> rows, and the rows of the input are row numbers.\<close>

definition outputs_ready :: "nat \<Rightarrow> (nat \<Rightarrow> nat) \<Rightarrow> select_state \<Rightarrow> bool" where
  "outputs_ready n row st \<longleftrightarrow>
     (\<forall>s \<in> {true_sel st, false_sel st}. case s of None \<Rightarrow> True | Some None \<Rightarrow> False | Some (Some xs) \<Rightarrow> n \<le> length xs) \<and>
     (\<forall>i < n. row i < 2 ^ 32)"

lemma length_filter_upt: "length (filter Q [0..<i]) \<le> i"
  using length_filter_le [of Q "[0..<i]"] by simp

lemma output_advance:
  assumes "output_ok row Q i (Some (Some xs)) (Some (Some ys)) c" and "Q i" and "i < length xs" and "row i < 2 ^ 32"
  shows "output_ok row Q (Suc i) (Some (Some xs)) (Some (Some (ys[c := word_of_nat (row i)]))) (Suc c)"
  using assms length_filter_upt [of Q i] by (auto simp: output_ok_def sel_rows_Suc get_index_def)

lemma output_overwrite:
  assumes "output_ok row Q i (Some (Some xs)) (Some (Some ys)) c" and "\<not> Q i"
  shows "output_ok row Q (Suc i) (Some (Some xs)) (Some (Some (ys[c := v]))) c"
  using assms length_filter_upt [of Q i] by (auto simp: output_ok_def)

lemma output_keep: "output_ok row Q i s0 s c \<Longrightarrow> \<not> Q i \<Longrightarrow> output_ok row Q (Suc i) s0 s c"
  by (auto simp: output_ok_def split: option.splits)

lemma output_none: "output_ok row Q i None s c \<longleftrightarrow> s = None"
  by (simp add: output_ok_def)

text \<open>What a row reads: the row at the start, also when the array has been written before.\<close>

lemma ref_index_inv:
  assumes "select_inv (ref_index ref st0) P i st0 st" and "outputs_ready n (ref_index ref st0) st0"
    and "ref = SelTrue \<longrightarrow> true_sel st0 \<noteq> None" and "ref = SelFalse \<longrightarrow> false_sel st0 \<noteq> None"
  shows "ref_index ref st i = ref_index ref st0 i"
  using assms
  by (cases ref) (auto simp: select_inv_def output_ok_def outputs_ready_def ref_index_def get_index_def split: option.splits)

definition ref_ok :: "selref \<Rightarrow> select_state \<Rightarrow> bool" where
  "ref_ok ref st \<longleftrightarrow> (ref = SelTrue \<longrightarrow> true_sel st \<noteq> None) \<and> (ref = SelFalse \<longrightarrow> false_sel st \<noteq> None)"

lemma step_inv:
  assumes inv: "select_inv (ref_index ref st0) P i st0 st" and ready: "outputs_ready n (ref_index ref st0) st0"
    and ref: "ref_ok ref st0" and i: "i < n" and step: "step \<in> {branch_step, write_step}"
  shows "select_inv (ref_index ref st0) P (Suc i) st0 (step ref P i st)"
proof -
  have row: "ref_index ref st i = ref_index ref st0 i"
    using ref_index_inv [OF inv ready] ref by (simp add: ref_ok_def)
  have bound: "ref_index ref st0 i < 2 ^ 32" using ready i by (simp add: outputs_ready_def)
  have t: "output_ok (ref_index ref st0) P i (true_sel st0) (true_sel st) (true_count st)"
    and f: "output_ok (ref_index ref st0) (\<lambda>i. \<not> P i) i (false_sel st0) (false_sel st) (false_count st)"
    using inv by (simp_all add: select_inv_def)
  have lens: "\<And>xs. true_sel st0 = Some (Some xs) \<Longrightarrow> i < length xs" "\<And>xs. false_sel st0 = Some (Some xs) \<Longrightarrow> i < length xs"
    using ready i by (auto simp: outputs_ready_def)
  have some: "\<And>s. true_sel st = Some s \<Longrightarrow> \<exists>xs ys. true_sel st0 = Some (Some xs) \<and> s = Some ys"
    "\<And>s. false_sel st = Some s \<Longrightarrow> \<exists>xs ys. false_sel st0 = Some (Some xs) \<and> s = Some ys"
    using t f by (auto simp: output_ok_def split: option.splits)
  have none: "true_sel st = None \<longleftrightarrow> true_sel st0 = None" "false_sel st = None \<longleftrightarrow> false_sel st0 = None"
    using t f by (auto simp: output_ok_def split: option.splits)
  have branch: "select_inv (ref_index ref st0) P (Suc i) st0 (branch_step ref P i st)"
  proof (cases "P i")
    case True
    show ?thesis
    proof (cases "true_sel st")
      case None
      then show ?thesis
        using True t f none by (simp add: branch_step_def select_inv_def Let_def output_none output_keep)
    next
      case (Some s)
      then obtain xs ys where "true_sel st0 = Some (Some xs)" "s = Some ys" using some by blast
      then show ?thesis
        using Some True t output_keep [OF f] output_advance [of _ P i xs ys] lens bound row
        by (simp add: branch_step_def select_inv_def Let_def)
    qed
  next
    case False
    show ?thesis
    proof (cases "false_sel st")
      case None
      then show ?thesis
        using False t f none by (simp add: branch_step_def select_inv_def Let_def output_none output_keep)
    next
      case (Some s)
      then obtain xs ys where "false_sel st0 = Some (Some xs)" "s = Some ys" using some by blast
      then show ?thesis
        using Some False f output_keep [OF t] output_advance [of _ "\<lambda>i. \<not> P i" i xs ys] lens bound row
        by (simp add: branch_step_def select_inv_def Let_def)
    qed
  qed
  have wt: "output_ok (ref_index ref st0) P (Suc i) (true_sel st0)
      (true_sel (write_step ref P i st)) (true_count (write_step ref P i st))"
  proof (cases "true_sel st")
    case None
    then show ?thesis
      using none by (simp add: write_step_def Let_def output_none split: option.splits)
  next
    case (Some s)
    then obtain xs ys where "true_sel st0 = Some (Some xs)" "s = Some ys" using some by blast
    then show ?thesis
      using Some t output_advance [of _ P i xs ys] output_overwrite [of _ P i xs ys] lens bound row
      by (cases "P i") (simp_all add: write_step_def Let_def split: option.splits)
  qed
  have wf: "output_ok (ref_index ref st0) (\<lambda>i. \<not> P i) (Suc i) (false_sel st0)
      (false_sel (write_step ref P i st)) (false_count (write_step ref P i st))"
  proof (cases "false_sel st")
    case None
    then show ?thesis
      using none by (simp add: write_step_def Let_def output_none split: option.splits)
  next
    case (Some s)
    then obtain xs ys where "false_sel st0 = Some (Some xs)" "s = Some ys" using some by blast
    then show ?thesis
      using Some f output_advance [of _ "\<lambda>i. \<not> P i" i xs ys] output_overwrite [of _ "\<lambda>i. \<not> P i" i xs ys] lens bound row
      by (cases "P i") (simp_all add: write_step_def Let_def split: option.splits)
  qed
  show ?thesis
    using step branch wt wf by (auto simp: select_inv_def)
qed

section \<open>Whole loops\<close>

lemma select_inv_init:
  "outputs_ready n row (select_init ts fs) \<Longrightarrow> select_inv row P 0 (select_init ts fs) (select_init ts fs)"
  by (auto simp: select_inv_def output_ok_def select_init_def outputs_ready_def split: option.splits)

text \<open>Each row may be taken by either kind of step.\<close>

lemma loop_inv:
  assumes "outputs_ready n (ref_index ref (select_init ts fs)) (select_init ts fs)" and "ref_ok ref (select_init ts fs)"
    and "\<And>i. i < n \<Longrightarrow> step i \<in> {branch_step, write_step}" and "k \<le> n"
  shows "select_inv (ref_index ref (select_init ts fs)) P k (select_init ts fs)
    (fold (\<lambda>i. step i ref P i) [0..<k] (select_init ts fs))"
  using assms(4)
proof (induction k)
  case 0
  then show ?case using select_inv_init [OF assms(1)] by simp
next
  case (Suc k)
  then show ?case
    using step_inv [OF _ assms(1,2), of P k _ "step k"] assms(3) [of k] by simp
qed

text \<open>
  What a selection promises: the number of rows that pass, and in each output that was passed in, the
  rows that go there, in order.
\<close>

definition output_rows :: "SelectionVector option \<Rightarrow> SelectionVector option \<Rightarrow> nat list \<Rightarrow> bool" where
  "output_rows s0 s rows \<longleftrightarrow>
     (case s0 of
        None \<Rightarrow> s = None
      | Some None \<Rightarrow> False
      | Some (Some xs) \<Rightarrow> (\<exists>ys. s = Some (Some ys) \<and> length ys = length xs \<and> sel_rows (Some ys) (length rows) = rows))"

definition splits ::
    "nat \<Rightarrow> (nat \<Rightarrow> nat) \<Rightarrow> (nat \<Rightarrow> bool) \<Rightarrow> SelectionVector option \<Rightarrow> SelectionVector option
      \<Rightarrow> select_output \<Rightarrow> bool" where
  "splits n row P ts fs r \<longleftrightarrow>
     (case r of (c, ts', fs') \<Rightarrow>
        c = length (filter P [0..<n]) \<and>
        output_rows ts ts' (map row (filter P [0..<n])) \<and> output_rows fs fs' (map row (filter (\<lambda>i. \<not> P i) [0..<n])))"

lemma length_filter_compl_upt: "n - length (filter (\<lambda>i. \<not> P i) [0..<n]) = length (filter P [0..<n])"
  using sum_length_filter_compl [of P "[0..<n]"] by simp

lemma loop_splits:
  fixes P :: "nat \<Rightarrow> bool"
  assumes ready: "outputs_ready n row (select_init ts fs)" and row: "row = ref_index ref (select_init ts fs)"
    and ref: "ref_ok ref (select_init ts fs)" and step: "\<And>i. i < n \<Longrightarrow> step i \<in> {branch_step, write_step}"
    and some: "ts \<noteq> None \<or> fs \<noteq> None"
  defines "st \<equiv> fold (\<lambda>i. step i ref P i) [0..<n] (select_init ts fs)"
  shows "splits n row P ts fs (select_result n st, true_sel st, false_sel st)"
proof -
  have inv: "select_inv row P n (select_init ts fs) st"
    using loop_inv [where ref = ref and n = n and k = n and P = P and step = step, OF _ ref step] ready row by (simp add: st_def)
  have out: "output_rows s0 s (map row (filter Q [0..<n]))" if "output_ok row Q n s0 s c" for Q s0 s c
    using that by (auto simp: output_ok_def output_rows_def split: option.splits)
  have cnt: "select_result n st = length (filter P [0..<n])"
    using inv some length_filter_compl_upt [of n P]
    by (auto simp: select_inv_def output_ok_def select_result_def select_init_def split: option.splits)
  show ?thesis
    using inv out cnt by (auto simp: splits_def select_inv_def select_init_def)
qed

text \<open>Filling one output with all rows, as the loops over constants do.\<close>

definition fill_output :: "selref \<Rightarrow> nat \<Rightarrow> bool \<Rightarrow> select_state \<Rightarrow> select_state" where
  "fill_output ref cnt to_true st = fold (branch_step ref (\<lambda>_. to_true)) [0..<cnt] st"

lemma fill_splits:
  assumes "outputs_ready n row (select_init ts fs)" and "row = ref_index ref (select_init ts fs)"
    and "ref_ok ref (select_init ts fs)" and "\<And>i. i < n \<Longrightarrow> P i = b"
  defines "st \<equiv> fill_output ref n b (select_init ts fs)"
  shows "splits n row P ts fs (if b then n else 0, true_sel st, false_sel st)"
proof -
  let ?P = "\<lambda>_ :: nat. b"
  have "select_inv row ?P n (select_init ts fs) st"
    using loop_inv [where ref = ref and n = n and k = n and P = ?P and step = "\<lambda>_. branch_step", OF _ assms(3)] assms(1,2) by (simp add: st_def fill_output_def)
  moreover have "filter P [0..<n] = filter ?P [0..<n]" "filter (\<lambda>i. \<not> P i) [0..<n] = filter (\<lambda>i. \<not> ?P i) [0..<n]"
    using assms(4) by (auto intro!: filter_cong)
  ultimately show ?thesis
    by (auto simp: splits_def select_inv_def select_init_def output_ok_def output_rows_def split: option.splits)
qed

lemma splits_cong:
  assumes "splits n row Q ts fs r" and "\<And>i. i < n \<Longrightarrow> P i = Q i"
  shows "splits n row P ts fs r"
proof -
  have "filter P [0..<n] = filter Q [0..<n]" "filter (\<lambda>i. \<not> P i) [0..<n] = filter (\<lambda>i. \<not> Q i) [0..<n]"
    using assms(2) by (auto intro!: filter_cong)
  with assms(1) show ?thesis by (simp add: splits_def)
qed

text \<open>A selection can be run: arrays to write to, and an input selection of row numbers.\<close>

definition select_ready :: "nat \<Rightarrow> selref \<Rightarrow> SelectionVector option \<Rightarrow> SelectionVector option \<Rightarrow> bool" where
  "select_ready n sel ts fs \<longleftrightarrow>
     outputs_ready n (ref_index sel (select_init ts fs)) (select_init ts fs) \<and> ref_ok sel (select_init ts fs) \<and>
     (ts \<noteq> None \<or> fs \<noteq> None)"

abbreviation sel_row :: "selref \<Rightarrow> SelectionVector option \<Rightarrow> SelectionVector option \<Rightarrow> nat \<Rightarrow> nat" where
  "sel_row sel ts fs \<equiv> ref_index sel (select_init ts fs)"

end
