(* ===== verification/Binary_Executor.thy ===== *)
theory Binary_Executor
  imports Row_Loops Select_Loops
begin

text \<open>
  \<open>BinaryExecutor\<close> (\<open>binary_executor.hpp\<close>): the template that applies a binary operation to two vectors,
  with a loop of its own for every combination of constant and flat inputs and a generic one for the
  rest, and the template that selects the rows for which a comparison holds. The operation is an
  argument: it may throw, and with the wrapper for nullable results it may clear the row it computes.

  The theorems relate every path to one definition per row.
\<close>

section \<open>Operation wrappers\<close>

record opwrapper =
  op_run :: "cell \<Rightarrow> cell \<Rightarrow> ValidityMask \<Rightarrow> nat \<Rightarrow> (cell \<times> ValidityMask) result"
  AddsNulls :: bool

definition BinaryStandardOperatorWrapper :: "(cell \<Rightarrow> cell \<Rightarrow> cell result) \<Rightarrow> opwrapper" where
  "BinaryStandardOperatorWrapper f =
     \<lparr>op_run = (\<lambda>left right mask idx. bindE (f left right) (\<lambda>c. Inr (c, mask))), AddsNulls = False\<rparr>"

definition BinaryLambdaWrapperWithNulls ::
    "(cell \<Rightarrow> cell \<Rightarrow> ValidityMask \<Rightarrow> nat \<Rightarrow> (cell \<times> ValidityMask) result) \<Rightarrow> opwrapper" where
  "BinaryLambdaWrapperWithNulls f = \<lparr>op_run = f, AddsNulls = True\<rparr>"

section \<open>Execute\<close>

definition flat_row ::
    "opwrapper \<Rightarrow> bool \<Rightarrow> bool \<Rightarrow> cell list \<Rightarrow> cell list \<Rightarrow> nat \<Rightarrow> cell list \<times> ValidityMask \<Rightarrow> (cell list \<times> ValidityMask) result" where
  "flat_row w LEFT_CONSTANT RIGHT_CONSTANT ldata rdata i = (\<lambda>(result_data, mask).
     let lentry = ldata ! (if LEFT_CONSTANT then 0 else i);
         rentry = rdata ! (if RIGHT_CONSTANT then 0 else i) in
     bindE (op_run w lentry rentry mask i) (\<lambda>(c, mask). Inr (result_data[i := c], mask)))"

definition ExecuteFlatLoop ::
    "opwrapper \<Rightarrow> bool \<Rightarrow> bool \<Rightarrow> cell list \<Rightarrow> cell list \<Rightarrow> nat \<Rightarrow> cell list \<times> ValidityMask \<Rightarrow> (cell list \<times> ValidityMask) result" where
  "ExecuteFlatLoop w lc rc ldata rdata cnt st =
     (if \<not> AllValid (snd st) then foldE (\<lambda>entry_idx st. entry_loop (flat_row w lc rc ldata rdata) (snd st) cnt entry_idx st) [0..<EntryCount cnt] st
      else foldE (flat_row w lc rc ldata rdata) [0..<cnt] st)"

definition ExecuteConstant :: "opwrapper \<Rightarrow> Vector \<Rightarrow> Vector \<Rightarrow> Vector \<Rightarrow> Vector result" where
  "ExecuteConstant w left right res =
     (let res = SetVectorType CONSTANT_VECTOR res in
      if ConstantVector_IsNull left \<or> ConstantVector_IsNull right then Inr (ConstantVector_SetNull True res)
      else
        bindE (op_run w (vec_data left ! 0) (vec_data right ! 0) (vec_validity res) 0) (\<lambda>(c, mask).
          Inr (Constant (GetType res) ((vec_data res)[0 := c]) mask)))"

text \<open>
  The mask of the result. \<open>same_buffer\<close>: whether the masks of the two inputs share one buffer.
\<close>

definition result_mask :: "bool \<Rightarrow> bool \<Rightarrow> bool \<Rightarrow> bool \<Rightarrow> ValidityMask \<Rightarrow> ValidityMask \<Rightarrow> nat \<Rightarrow> ValidityMask" where
  "result_mask same_buffer adds_nulls lc rc lmask rmask cnt =
     (if lc then (if adds_nulls then Mask_Copy rmask cnt else rmask)
      else if rc then (if adds_nulls then Mask_Copy lmask cnt else lmask)
      else if adds_nulls then
        (let m = Mask_Copy lmask cnt in if AllValid m then Mask_Copy rmask cnt else Combine False rmask cnt m)
      else Combine same_buffer rmask cnt lmask)"

definition ExecuteFlat :: "bool \<Rightarrow> opwrapper \<Rightarrow> bool \<Rightarrow> bool \<Rightarrow> Vector \<Rightarrow> Vector \<Rightarrow> nat \<Rightarrow> Vector \<Rightarrow> Vector result" where
  "ExecuteFlat same_buffer w lc rc left right cnt res =
     (if lc \<and> ConstantVector_IsNull left \<or> rc \<and> ConstantVector_IsNull right then
        Inr (ConstantVector_SetNull True (SetVectorType CONSTANT_VECTOR res))
      else
        let res = SetVectorType FLAT_VECTOR res;
            mask = result_mask same_buffer (AddsNulls w) lc rc (vec_validity left) (vec_validity right) cnt in
        bindE (ExecuteFlatLoop w lc rc (vec_data left) (vec_data right) cnt (vec_data res, mask)) (\<lambda>(d, m).
          Inr (Flat (GetType res) d m)))"

definition generic_row ::
    "opwrapper \<Rightarrow> UnifiedVectorFormat \<Rightarrow> UnifiedVectorFormat \<Rightarrow> nat \<Rightarrow> cell list \<times> ValidityMask \<Rightarrow> (cell list \<times> ValidityMask) result" where
  "generic_row w l r i = (\<lambda>(result_data, mask).
     bindE (op_run w (uf_data l ! get_index (uf_sel l) i) (uf_data r ! get_index (uf_sel r) i) mask i)
       (\<lambda>(c, mask). Inr (result_data[i := c], mask)))"

definition ExecuteGenericLoop ::
    "opwrapper \<Rightarrow> UnifiedVectorFormat \<Rightarrow> UnifiedVectorFormat \<Rightarrow> nat \<Rightarrow> cell list \<times> ValidityMask \<Rightarrow> (cell list \<times> ValidityMask) result" where
  "ExecuteGenericLoop w l r cnt st =
     (if \<not> AllValid (uf_validity l) \<or> \<not> AllValid (uf_validity r) then
        foldE (\<lambda>i (d, m).
          if RowIsValid (uf_validity l) (get_index (uf_sel l) i) \<and> RowIsValid (uf_validity r) (get_index (uf_sel r) i)
          then generic_row w l r i (d, m)
          else Inr (d, SetInvalid i m)) [0..<cnt] st
      else foldE (generic_row w l r) [0..<cnt] st)"

definition ExecuteGeneric :: "junk \<Rightarrow> opwrapper \<Rightarrow> Vector \<Rightarrow> Vector \<Rightarrow> nat \<Rightarrow> Vector \<Rightarrow> Vector result" where
  "ExecuteGeneric junk w left right cnt res =
     bindE (ToUnifiedFormat junk cnt left) (\<lambda>ldata.
     bindE (ToUnifiedFormat junk cnt right) (\<lambda>rdata.
       let res = SetVectorType FLAT_VECTOR res in
       bindE (ExecuteGenericLoop w ldata rdata cnt (vec_data res, vec_validity res)) (\<lambda>(d, m).
         Inr (Flat (GetType res) d m))))"

definition ExecuteSwitch :: "bool \<Rightarrow> junk \<Rightarrow> opwrapper \<Rightarrow> Vector \<Rightarrow> Vector \<Rightarrow> nat \<Rightarrow> Vector \<Rightarrow> Vector result" where
  "ExecuteSwitch same_buffer junk w left right cnt res =
     (let lt = GetVectorType left; rt = GetVectorType right in
      if lt = CONSTANT_VECTOR \<and> rt = CONSTANT_VECTOR then ExecuteConstant w left right res
      else if lt = FLAT_VECTOR \<and> rt = CONSTANT_VECTOR then ExecuteFlat same_buffer w False True left right cnt res
      else if lt = CONSTANT_VECTOR \<and> rt = FLAT_VECTOR then ExecuteFlat same_buffer w True False left right cnt res
      else if lt = FLAT_VECTOR \<and> rt = FLAT_VECTOR then ExecuteFlat same_buffer w False False left right cnt res
      else ExecuteGeneric junk w left right cnt res)"

definition Binary_Execute :: "bool \<Rightarrow> junk \<Rightarrow> (cell \<Rightarrow> cell \<Rightarrow> cell result) \<Rightarrow> Vector \<Rightarrow> Vector \<Rightarrow> nat \<Rightarrow> Vector \<Rightarrow> Vector result" where
  "Binary_Execute same_buffer junk f left right cnt res =
     ExecuteSwitch same_buffer junk (BinaryStandardOperatorWrapper f) left right cnt res"

section \<open>Select\<close>



definition select_output :: "nat \<Rightarrow> select_state \<Rightarrow> select_output" where
  "select_output cnt st = (cnt, true_sel st, false_sel st)"

definition SelectConstant ::
    "(cell \<Rightarrow> cell \<Rightarrow> bool) \<Rightarrow> Vector \<Rightarrow> Vector \<Rightarrow> selref \<Rightarrow> nat \<Rightarrow> SelectionVector option \<Rightarrow> SelectionVector option \<Rightarrow> select_output" where
  "SelectConstant OP left right sel cnt ts fs =
     (if ConstantVector_IsNull left \<or> ConstantVector_IsNull right \<or> \<not> OP (vec_data left ! 0) (vec_data right ! 0)
      then select_output 0 (fill_output sel cnt False (select_init ts fs))
      else select_output cnt (fill_output sel cnt True (select_init ts fs)))"

definition flat_select_entry ::
    "(nat \<Rightarrow> bool) \<Rightarrow> ValidityMask \<Rightarrow> selref \<Rightarrow> nat \<Rightarrow> nat \<Rightarrow> select_state \<Rightarrow> select_state" where
  "flat_select_entry comparison vmask sel cnt entry_idx st =
     (let validity_entry = GetValidityEntry vmask entry_idx;
          base_idx = 64 * entry_idx;
          rows = [base_idx..<min cnt (base_idx + 64)] in
      if AllValid_entry validity_entry then fold (write_step sel comparison) rows st
      else if NoneValid_entry validity_entry then fold (branch_step sel (\<lambda>_. False)) rows st
      else fold (write_step sel (\<lambda>i. RowIsValid_entry validity_entry (i - base_idx) \<and> comparison i)) rows st)"

definition SelectFlatLoop ::
    "(nat \<Rightarrow> bool) \<Rightarrow> ValidityMask \<Rightarrow> selref \<Rightarrow> nat \<Rightarrow> SelectionVector option \<Rightarrow> SelectionVector option \<Rightarrow> select_output" where
  "SelectFlatLoop comparison vmask sel cnt ts fs =
     (let st = fold (flat_select_entry comparison vmask sel cnt) [0..<EntryCount cnt] (select_init ts fs)
      in select_output (select_result cnt st) st)"

definition SelectFlat ::
    "bool \<Rightarrow> (cell \<Rightarrow> cell \<Rightarrow> bool) \<Rightarrow> bool \<Rightarrow> bool \<Rightarrow> Vector \<Rightarrow> Vector \<Rightarrow> selref \<Rightarrow> nat \<Rightarrow> SelectionVector option \<Rightarrow> SelectionVector option
      \<Rightarrow> select_output" where
  "SelectFlat same_buffer OP lc rc left right sel cnt ts fs =
     (if lc \<and> ConstantVector_IsNull left then select_output 0 (fill_output sel cnt False (select_init ts fs))
      else if rc \<and> ConstantVector_IsNull right then select_output 0 (fill_output sel cnt False (select_init ts fs))
      else
        let comparison = (\<lambda>i. OP (vec_data left ! (if lc then 0 else i)) (vec_data right ! (if rc then 0 else i)));
            mask = (if lc then vec_validity right else if rc then vec_validity left
                    else Combine same_buffer (vec_validity right) cnt (vec_validity left)) in
        SelectFlatLoop comparison mask sel cnt ts fs)"

definition SelectGenericLoop ::
    "bool \<Rightarrow> (cell \<Rightarrow> cell \<Rightarrow> bool) \<Rightarrow> UnifiedVectorFormat \<Rightarrow> UnifiedVectorFormat \<Rightarrow> selref \<Rightarrow> nat
      \<Rightarrow> SelectionVector option \<Rightarrow> SelectionVector option \<Rightarrow> select_output" where
  "SelectGenericLoop NO_NULL OP l r sel cnt ts fs =
     (let P = (\<lambda>i. (NO_NULL \<or> RowIsValid (uf_validity l) (get_index (uf_sel l) i) \<and> RowIsValid (uf_validity r) (get_index (uf_sel r) i)) \<and>
              OP (uf_data l ! get_index (uf_sel l) i) (uf_data r ! get_index (uf_sel r) i));
          st = fold (branch_step sel P) [0..<cnt] (select_init ts fs)
      in select_output (select_result cnt st) st)"

definition SelectGeneric ::
    "junk \<Rightarrow> (cell \<Rightarrow> cell \<Rightarrow> bool) \<Rightarrow> Vector \<Rightarrow> Vector \<Rightarrow> selref \<Rightarrow> nat \<Rightarrow> SelectionVector option \<Rightarrow> SelectionVector option
      \<Rightarrow> select_output result" where
  "SelectGeneric junk OP left right sel cnt ts fs =
     bindE (ToUnifiedFormat junk cnt left) (\<lambda>l.
     bindE (ToUnifiedFormat junk cnt right) (\<lambda>r.
       Inr (SelectGenericLoop (AllValid (uf_validity l) \<and> AllValid (uf_validity r)) OP l r sel cnt ts fs)))"

definition Binary_Select ::
    "bool \<Rightarrow> junk \<Rightarrow> (cell \<Rightarrow> cell \<Rightarrow> bool) \<Rightarrow> Vector \<Rightarrow> Vector \<Rightarrow> selref \<Rightarrow> nat \<Rightarrow> SelectionVector option \<Rightarrow> SelectionVector option
      \<Rightarrow> select_output result" where
  "Binary_Select same_buffer junk OP left right sel cnt ts fs =
     (let lt = GetVectorType left; rt = GetVectorType right in
      if lt = CONSTANT_VECTOR \<and> rt = CONSTANT_VECTOR then Inr (SelectConstant OP left right sel cnt ts fs)
      else if lt = CONSTANT_VECTOR \<and> rt = FLAT_VECTOR then Inr (SelectFlat same_buffer OP True False left right sel cnt ts fs)
      else if lt = FLAT_VECTOR \<and> rt = CONSTANT_VECTOR then Inr (SelectFlat same_buffer OP False True left right sel cnt ts fs)
      else if lt = FLAT_VECTOR \<and> rt = FLAT_VECTOR then Inr (SelectFlat same_buffer OP False False left right sel cnt ts fs)
      else SelectGeneric junk OP left right sel cnt ts fs)"

section \<open>Selections by rows\<close>

definition flat_step_kind :: "ValidityMask \<Rightarrow> nat \<Rightarrow> selref \<Rightarrow> (nat \<Rightarrow> bool) \<Rightarrow> nat \<Rightarrow> select_state \<Rightarrow> select_state" where
  "flat_step_kind m i =
     (if \<not> AllValid_entry (GetValidityEntry m (i div 64)) \<and> NoneValid_entry (GetValidityEntry m (i div 64))
      then branch_step else write_step)"

lemma step_cong:
  "P i = Q i \<Longrightarrow> branch_step ref P i = branch_step ref Q i"
  "P i = Q i \<Longrightarrow> write_step ref P i = write_step ref Q i"
  by (auto simp: branch_step_def write_step_def fun_eq_iff)

lemma flat_select_entry_rows:
  "flat_select_entry comparison m sel cnt e st =
     fold (\<lambda>i. flat_step_kind m i sel (\<lambda>i. RowIsValid m i \<and> comparison i) i) (entry_range cnt e) st"
proof -
  let ?P = "\<lambda>i. RowIsValid m i \<and> comparison i" and ?e = "GetValidityEntry m e"
  have div: "i div 64 = e" if "i \<in> set (entry_range cnt e)" for i using that by auto
  consider "AllValid_entry ?e" | "\<not> AllValid_entry ?e" "NoneValid_entry ?e" | "\<not> AllValid_entry ?e" "\<not> NoneValid_entry ?e"
    by blast
  then show ?thesis
  proof cases
    case 1
    then have "fold (write_step sel comparison) (entry_range cnt e) st =
        fold (\<lambda>i. flat_step_kind m i sel ?P i) (entry_range cnt e) st"
      using entry_row(2) div by (intro fold_cong) (auto simp: flat_step_kind_def intro!: step_cong)
    with 1 show ?thesis by (simp add: flat_select_entry_def Let_def)
  next
    case 2
    then have "fold (branch_step sel (\<lambda>_. False)) (entry_range cnt e) st =
        fold (\<lambda>i. flat_step_kind m i sel ?P i) (entry_range cnt e) st"
      using entry_row(3) div by (intro fold_cong) (auto simp: flat_step_kind_def intro!: step_cong)
    with 2 show ?thesis by (simp add: flat_select_entry_def Let_def)
  next
    case 3
    then have "fold (write_step sel (\<lambda>i. RowIsValid_entry ?e (i - 64 * e) \<and> comparison i)) (entry_range cnt e) st =
        fold (\<lambda>i. flat_step_kind m i sel ?P i) (entry_range cnt e) st"
      using entry_row(1) div by (intro fold_cong) (auto simp: flat_step_kind_def intro!: step_cong)
    with 3 show ?thesis by (simp add: flat_select_entry_def Let_def)
  qed
qed

lemma fold_concat: "fold (\<lambda>xs. fold f xs) xss s = fold f (concat xss) s"
  by (induction xss arbitrary: s) simp_all

lemma flat_select_loop_rows:
  "fold (flat_select_entry comparison m sel cnt) [0..<EntryCount cnt] st =
     fold (\<lambda>i. flat_step_kind m i sel (\<lambda>i. RowIsValid m i \<and> comparison i) i) [0..<cnt] st"
proof -
  let ?f = "\<lambda>i. flat_step_kind m i sel (\<lambda>i. RowIsValid m i \<and> comparison i) i"
  have "flat_select_entry comparison m sel cnt = (\<lambda>e. fold ?f (entry_range cnt e))"
    by (intro ext) (rule flat_select_entry_rows)
  then have "fold (flat_select_entry comparison m sel cnt) [0..<EntryCount cnt] st =
      fold (\<lambda>xs. fold ?f xs) (map (entry_range cnt) [0..<EntryCount cnt]) st"
    by (simp add: fold_map o_def)
  then show ?thesis
    by (simp only: fold_concat concat_entry_ranges)
qed

text \<open>The rows that a comparison of two vectors selects: both values present and in relation.\<close>

definition cmp_row :: "(cell \<Rightarrow> cell \<Rightarrow> bool) \<Rightarrow> Vector \<Rightarrow> Vector \<Rightarrow> nat \<Rightarrow> bool" where
  "cmp_row OP left right i = (case (vec_row left i, vec_row right i) of (Some a, Some b) \<Rightarrow> OP a b | _ \<Rightarrow> False)"

lemma fill_rows:
  assumes "select_ready n sel ts fs" and "\<And>i. i < n \<Longrightarrow> P i = b"
  shows "splits n (sel_row sel ts fs) P ts fs (select_output (if b then n else 0) (fill_output sel n b (select_init ts fs)))"
  using fill_splits [of n _ ts fs sel P b] assms by (simp add: select_ready_def select_output_def)

lemma SelectFlatLoop_rows:
  assumes "select_ready n sel ts fs"
  shows "splits n (sel_row sel ts fs) (\<lambda>i. RowIsValid m i \<and> comparison i) ts fs (SelectFlatLoop comparison m sel n ts fs)"
  using assms loop_splits [of n _ ts fs sel "flat_step_kind m" "\<lambda>i. RowIsValid m i \<and> comparison i"]
  by (simp add: select_ready_def SelectFlatLoop_def select_output_def flat_select_loop_rows Let_def flat_step_kind_def)

lemma SelectGenericLoop_rows:
  assumes "select_ready n sel ts fs"
    and "no_null \<Longrightarrow> AllValid (uf_validity l) \<and> AllValid (uf_validity r)"
  shows "splits n (sel_row sel ts fs)
    (\<lambda>i. case (unified_row l i, unified_row r i) of (Some a, Some b) \<Rightarrow> OP a b | _ \<Rightarrow> False) ts fs
    (SelectGenericLoop no_null OP l r sel n ts fs)"
proof -
  let ?P = "\<lambda>i. (no_null \<or> RowIsValid (uf_validity l) (get_index (uf_sel l) i) \<and> RowIsValid (uf_validity r) (get_index (uf_sel r) i)) \<and>
              OP (uf_data l ! get_index (uf_sel l) i) (uf_data r ! get_index (uf_sel r) i)"
  have "?P i = (case (unified_row l i, unified_row r i) of (Some a, Some b) \<Rightarrow> OP a b | _ \<Rightarrow> False)" for i
    using assms(2) by (auto simp: unified_row_def Let_def AllValid_def RowIsValid_bit)
  then show ?thesis
    using assms(1) loop_splits [of n _ ts fs sel "\<lambda>_. branch_step" ?P]
    by (simp add: select_ready_def SelectGenericLoop_def select_output_def Let_def)
qed

lemma SelectGeneric_rows:
  assumes "vec_ok n left" and "vec_ok n right" and "select_ready n sel ts fs"
  shows "\<exists>r. SelectGeneric junk OP left right sel n ts fs = Inr r \<and> splits n (sel_row sel ts fs) (cmp_row OP left right) ts fs r"
proof -
  obtain l r where lr: "ToUnifiedFormat junk n left = Inr l" "ToUnifiedFormat junk n right = Inr r"
    "\<forall>i < n. unified_row l i = vec_row left i" "\<forall>i < n. unified_row r i = vec_row right i"
    using unified_rows [OF assms(1)] unified_rows [OF assms(2)] by blast
  have row: "cmp_row OP left right i = (case (unified_row l i, unified_row r i) of (Some a, Some b) \<Rightarrow> OP a b | _ \<Rightarrow> False)"
    if "i < n" for i
    by (simp only: cmp_row_def lr(3) [rule_format, OF that] lr(4) [rule_format, OF that])
  have "splits n (sel_row sel ts fs) (cmp_row OP left right) ts fs
      (SelectGenericLoop (AllValid (uf_validity l) \<and> AllValid (uf_validity r)) OP l r sel n ts fs)"
    by (rule splits_cong [OF SelectGenericLoop_rows [OF assms(3)] row]) simp_all
  then show ?thesis
    using lr(1,2) by (simp add: SelectGeneric_def)
qed

lemma SelectFlat_both_rows:
  assumes "select_ready n sel ts fs" and "same_buffer \<longrightarrow> validity_mask lm = validity_mask rm"
  shows "splits n (sel_row sel ts fs) (cmp_row OP (Flat lt ld lm) (Flat rt rd rm)) ts fs
    (SelectFlat same_buffer OP False False (Flat lt ld lm) (Flat rt rd rm) sel n ts fs)"
proof -
  have "cmp_row OP (Flat lt ld lm) (Flat rt rd rm) i \<longleftrightarrow> RowIsValid (Combine same_buffer rm n lm) i \<and> OP (ld ! i) (rd ! i)"
    if "i < n" for i
    using Combine_rows [OF that, of same_buffer rm lm] assms(2) by (auto simp: cmp_row_def)
  then have "splits n (sel_row sel ts fs) (cmp_row OP (Flat lt ld lm) (Flat rt rd rm)) ts fs
      (SelectFlatLoop (\<lambda>i. OP (ld ! i) (rd ! i)) (Combine same_buffer rm n lm) sel n ts fs)"
    by (rule splits_cong [OF SelectFlatLoop_rows [OF assms(1)]])
  then show ?thesis
    by (simp add: SelectFlat_def vec_data_def vec_validity_def)
qed

lemma SelectFlat_right_rows:
  assumes "select_ready n sel ts fs"
  shows "splits n (sel_row sel ts fs) (cmp_row OP (Flat lt ld lm) (Constant rt rd rm)) ts fs
    (SelectFlat same_buffer OP False True (Flat lt ld lm) (Constant rt rd rm) sel n ts fs)"
proof (cases "RowIsValid rm 0")
  case True
  then have "cmp_row OP (Flat lt ld lm) (Constant rt rd rm) i \<longleftrightarrow> RowIsValid lm i \<and> OP (ld ! i) (rd ! 0)" for i
    by (simp add: cmp_row_def)
  then have "splits n (sel_row sel ts fs) (cmp_row OP (Flat lt ld lm) (Constant rt rd rm)) ts fs
      (SelectFlatLoop (\<lambda>i. OP (ld ! i) (rd ! 0)) lm sel n ts fs)"
    by (rule splits_cong [OF SelectFlatLoop_rows [OF assms]])
  with True show ?thesis
    by (simp add: SelectFlat_def vec_data_def vec_validity_def ConstantVector_IsNull_def)
next
  case False
  with fill_rows [OF assms, of "cmp_row OP (Flat lt ld lm) (Constant rt rd rm)" False] show ?thesis
    by (simp add: SelectFlat_def ConstantVector_IsNull_def cmp_row_def)
qed

lemma SelectFlat_left_rows:
  assumes "select_ready n sel ts fs"
  shows "splits n (sel_row sel ts fs) (cmp_row OP (Constant lt ld lm) (Flat rt rd rm)) ts fs
    (SelectFlat same_buffer OP True False (Constant lt ld lm) (Flat rt rd rm) sel n ts fs)"
proof (cases "RowIsValid lm 0")
  case True
  then have "cmp_row OP (Constant lt ld lm) (Flat rt rd rm) i \<longleftrightarrow> RowIsValid rm i \<and> OP (ld ! 0) (rd ! i)" for i
    by (simp add: cmp_row_def)
  then have "splits n (sel_row sel ts fs) (cmp_row OP (Constant lt ld lm) (Flat rt rd rm)) ts fs
      (SelectFlatLoop (\<lambda>i. OP (ld ! 0) (rd ! i)) rm sel n ts fs)"
    by (rule splits_cong [OF SelectFlatLoop_rows [OF assms]])
  with True show ?thesis
    by (simp add: SelectFlat_def vec_data_def vec_validity_def ConstantVector_IsNull_def)
next
  case False
  with fill_rows [OF assms, of "cmp_row OP (Constant lt ld lm) (Flat rt rd rm)" False] show ?thesis
    by (simp add: SelectFlat_def ConstantVector_IsNull_def cmp_row_def)
qed

lemma SelectConstant_rows:
  assumes "select_ready n sel ts fs"
  shows "splits n (sel_row sel ts fs) (cmp_row OP (Constant lt ld lm) (Constant rt rd rm)) ts fs
    (SelectConstant OP (Constant lt ld lm) (Constant rt rd rm) sel n ts fs)"
proof -
  let ?b = "RowIsValid lm 0 \<and> RowIsValid rm 0 \<and> OP (ld ! 0) (rd ! 0)"
  have "cmp_row OP (Constant lt ld lm) (Constant rt rd rm) i = ?b" for i by (simp add: cmp_row_def)
  then have "splits n (sel_row sel ts fs) (cmp_row OP (Constant lt ld lm) (Constant rt rd rm)) ts fs
      (select_output (if ?b then n else 0) (fill_output sel n ?b (select_init ts fs)))"
    by (intro fill_rows [OF assms])
  then show ?thesis
    by (cases ?b) (auto simp: SelectConstant_def ConstantVector_IsNull_def vec_data_def)
qed

lemma Binary_Select_rows:
  assumes "vec_ok n left" and "vec_ok n right" and "select_ready n sel ts fs"
    and "same_buffer \<longrightarrow> validity_mask (vec_validity left) = validity_mask (vec_validity right)"
  shows "\<exists>r. Binary_Select same_buffer junk OP left right sel n ts fs = Inr r \<and>
    splits n (sel_row sel ts fs) (cmp_row OP left right) ts fs r"
  using assms(1)
proof (cases rule: vec_ok_cases)
  case (Flat lt ld lm)
  note left = this
  from assms(2) show ?thesis
    by (cases rule: vec_ok_cases)
      (use left assms(3,4) SelectFlat_both_rows SelectFlat_right_rows SelectGeneric_rows [OF assms(1-3)] in
        \<open>auto simp: Binary_Select_def vec_validity_def\<close>)
next
  case (Constant lt ld lm)
  note left = this
  from assms(2) show ?thesis
    by (cases rule: vec_ok_cases)
      (use left assms(3) SelectFlat_left_rows SelectConstant_rows SelectGeneric_rows [OF assms(1-3)] in
        \<open>auto simp: Binary_Select_def\<close>)
next
  case (Dictionary lt xs ld lm)
  then show ?thesis
    using SelectGeneric_rows [OF assms(1-3), of junk OP] by (simp add: Binary_Select_def)
qed

text \<open>
  C29: For every combination of flat, constant and dictionary inputs, \<open>BinaryExecutor::Select\<close> returns the
  number of rows whose two values are present and satisfy the comparison, and writes those rows to the
  true output and the others to the false output, in order; an output that was not passed in is not
  written, and the input selection may be one of the outputs.
\<close>

theorem binary_select_rows:
  assumes "vec_ok n left" and "vec_ok n right" and "select_ready n sel ts fs"
    and "same_buffer \<longrightarrow> validity_mask (vec_validity left) = validity_mask (vec_validity right)"
  shows "\<exists>r. Binary_Select same_buffer junk OP left right sel n ts fs = Inr r \<and>
    splits n (ref_index sel (select_init ts fs))
      (\<lambda>i. case (vec_row left i, vec_row right i) of (Some a, Some b) \<Rightarrow> OP a b | _ \<Rightarrow> False) ts fs r"
proof -
  have "cmp_row OP left right = (\<lambda>i. case (vec_row left i, vec_row right i) of (Some a, Some b) \<Rightarrow> OP a b | _ \<Rightarrow> False)"
    by (simp add: cmp_row_def fun_eq_iff)
  with Binary_Select_rows [OF assms, of junk OP] show ?thesis by (simp only:)
qed

text \<open>The witness filters the selection \<open>[2, 0]\<close> in place: row 0 of \<open>ex_dict\<close> is TRUE, row 1 is FALSE.\<close>

definition ex_true :: Vector where
  "ex_true = Constant BOOLEAN [CInt 1] (Mask_Reset 64)"

theorem binary_select_rows_witness:
  "\<exists>ts'. Binary_Select False (\<lambda>_. 0) (=) ex_dict ex_true SelTrue 2 (Some (Some [2, 0])) None = Inr (1, ts', None) \<and>
     (\<exists>ys. ts' = Some (Some ys) \<and> sel_rows (Some ys) 1 = [2])"
proof -
  let ?row = "ref_index SelTrue (select_init (Some (Some [2, 0])) None)"
  let ?P = "\<lambda>i. case (vec_row ex_dict i, vec_row ex_true i) of (Some a, Some b) \<Rightarrow> a = b | _ \<Rightarrow> False"
  have ok: "vec_ok 2 ex_dict" "vec_ok 2 ex_true"
    by (auto simp: ex_dict_def ex_true_def scalar_type_def constant_size_type_def Mask_Reset_def get_index_def less_2_cases_iff)
  have ready: "select_ready 2 SelTrue (Some (Some [2, 0])) None"
    by (auto simp: select_ready_def outputs_ready_def ref_ok_def select_init_def ref_index_def get_index_def less_2_cases_iff)
  have "?P 0" "\<not> ?P 1"
    by (simp_all add: ex_dict_def ex_true_def get_index_def Mask_Reset_def)
  then have rows: "filter ?P [0..<2] = [0]" "filter (\<lambda>i. \<not> ?P i) [0..<2] = [1]"
    by (simp_all add: upt_rec)
  obtain r where r: "Binary_Select False (\<lambda>_. 0) (=) ex_dict ex_true SelTrue 2 (Some (Some [2, 0])) None = Inr r"
      "splits 2 ?row ?P (Some (Some [2, 0])) None r"
    using binary_select_rows [OF ok ready, of False "\<lambda>_. 0" "(=)"] by auto
  have "?row 0 = 2" by (simp add: ref_index_def select_init_def get_index_def)
  with r show ?thesis
    unfolding splits_def rows by (auto simp: output_rows_def)
qed

section \<open>Results by rows\<close>

text \<open>The meaning of a row: NULL if either value is NULL, else the operation, which may throw.\<close>

definition bin_row :: "(cell \<Rightarrow> cell \<Rightarrow> cell result) \<Rightarrow> Vector \<Rightarrow> Vector \<Rightarrow> nat \<Rightarrow> cell option result" where
  "bin_row f left right i =
     (case (vec_row left i, vec_row right i) of
        (Some a, Some b) \<Rightarrow> bindE (f a b) (\<lambda>c. Inr (Some c))
      | _ \<Rightarrow> Inr None)"

abbreviation std :: "(cell \<Rightarrow> cell \<Rightarrow> cell result) \<Rightarrow> opwrapper" where
  "std \<equiv> BinaryStandardOperatorWrapper"

lemma flat_row_std:
  "V i \<Longrightarrow> flat_row (std f) lc rc ld rd i st =
     row_loop (\<lambda>i. f (ld ! (if lc then 0 else i)) (rd ! (if rc then 0 else i))) V keep_mask i st"
  by (cases st) (simp add: flat_row_def row_loop_def BinaryStandardOperatorWrapper_def bindE_def split: sum.splits)

lemma ExecuteFlatLoop_std:
  "ExecuteFlatLoop (std f) lc rc ld rd cnt (d, m) =
     foldE (row_loop (\<lambda>i. f (ld ! (if lc then 0 else i)) (rd ! (if rc then 0 else i))) (RowIsValid m) keep_mask) [0..<cnt] (d, m)"
proof (cases "AllValid m")
  case True
  then have "RowIsValid m i" for i by (simp add: AllValid_def RowIsValid_bit)
  then show ?thesis
    using True flat_row_std [of "RowIsValid m"] by (auto simp: ExecuteFlatLoop_def intro!: foldE_cong)
next
  case False
  then show ?thesis
    using own_entry_loops_rows [where m = m and step = "flat_row (std f) lc rc ld rd", OF flat_row_std]
    by (simp add: ExecuteFlatLoop_def)
qed

lemma Combine_wf:
  assumes "mask_wf lm" "mask_wf rm" "n \<le> capacity lm" "n \<le> capacity rm"
  shows "mask_wf (Combine same_buffer rm n lm)" "n \<le> capacity (Combine same_buffer rm n lm)"
  using assms by (auto simp: Combine_def mask_wf_def split: option.splits)

text \<open>\<open>ExecuteFlat\<close> on inputs that are not constant NULL.\<close>

lemma ExecuteFlat_rows:
  assumes "fresh_vec n res" and "\<not> (lc \<and> ConstantVector_IsNull left)" "\<not> (rc \<and> ConstantVector_IsNull right)"
    and "m = result_mask same_buffer False lc rc (vec_validity left) (vec_validity right) n"
    and "mask_wf m" "n \<le> capacity m"
    and "\<And>i. i < n \<Longrightarrow> bin_row f left right i =
      rowE (\<lambda>i. f (vec_data left ! (if lc then 0 else i)) (vec_data right ! (if rc then 0 else i))) (RowIsValid m) i"
  shows "executes (GetType res) n (bin_row f left right) (ExecuteFlat same_buffer (std f) lc rc left right n res)"
  using assms(1)
proof (rule fresh_vecE)
  fix t d m0
  assume res: "res = Flat t d m0" "scalar_type t" "n \<le> length d"
  have "AddsNulls (std f) = False" by (simp add: BinaryStandardOperatorWrapper_def)
  then show ?thesis
    using keep_loop_executes [OF res(2,3) assms(5-7)] res(1) assms(2,3) unfolding assms(4)
    by (auto simp: ExecuteFlat_def SetVectorType_def vec_data_def [of "Flat _ _ _"] ExecuteFlatLoop_std Let_def)
qed

lemma ExecuteFlat_null:
  assumes "fresh_vec n res" and "lc \<and> ConstantVector_IsNull left \<or> rc \<and> ConstantVector_IsNull right"
    and "\<And>i. i < n \<Longrightarrow> bin_row f left right i = Inr None"
  shows "executes (GetType res) n (bin_row f left right) (ExecuteFlat same_buffer (std f) lc rc left right n res)"
  using assms(2) fresh_null [OF assms(1,3)] by (simp add: ExecuteFlat_def)

lemma ExecuteConstant_rows:
  assumes "fresh_vec n res" and "0 < n"
  shows "executes (GetType res) n (bin_row f (Constant lt ld lm) (Constant rt rd rm))
    (ExecuteConstant (std f) (Constant lt ld lm) (Constant rt rd rm) res)"
  using assms(1)
proof (rule fresh_vecE)
  fix t d m
  assume res: "res = Flat t d m" "scalar_type t" "n \<le> length d" "d \<noteq> []" "AllValid m" "mask_wf m" "n \<le> capacity m" "0 < capacity m"
  have valid: "RowIsValid m 0" using res(5) by (simp add: AllValid_def RowIsValid_bit)
  show ?thesis
  proof (cases "RowIsValid lm 0 \<and> RowIsValid rm 0")
    case False
    then show ?thesis
      using fresh_null [OF assms(1)] by (auto simp: ExecuteConstant_def ConstantVector_IsNull_def bin_row_def)
  next
    case True
    then have row: "bin_row f (Constant lt ld lm) (Constant rt rd rm) i = bindE (f (ld ! 0) (rd ! 0)) (\<lambda>c. Inr (Some c))" for i
      by (simp add: bin_row_def)
    show ?thesis
    proof (cases "f (ld ! 0) (rd ! 0)")
      case (Inl e)
      with True executes_error [OF assms(2)] row show ?thesis
        by (simp add: ExecuteConstant_def ConstantVector_IsNull_def BinaryStandardOperatorWrapper_def vec_data_def)
    next
      case (Inr c)
      have "executes t n (bin_row f (Constant lt ld lm) (Constant rt rd rm)) (Inr (Constant t (d[0 := c]) m))"
        by (rule executes_same [where x = "Some c"]) (use row Inr res valid in auto)
      with True Inr res show ?thesis
        by (simp add: ExecuteConstant_def ConstantVector_IsNull_def BinaryStandardOperatorWrapper_def vec_data_def vec_validity_def
            SetVectorType_def)
    qed
  qed
qed

lemma ExecuteGeneric_rows:
  assumes "fresh_vec n res" and "vec_ok n left" and "vec_ok n right"
  shows "executes (GetType res) n (bin_row f left right) (ExecuteGeneric junk (std f) left right n res)"
  using assms(1)
proof (rule fresh_vecE)
  fix t d m
  assume res: "res = Flat t d m" "scalar_type t" "n \<le> length d" "d \<noteq> []" "AllValid m" "mask_wf m" "n \<le> capacity m" "0 < capacity m"
  obtain l r where lr: "ToUnifiedFormat junk n left = Inr l" "ToUnifiedFormat junk n right = Inr r"
    "\<forall>i < n. unified_row l i = vec_row left i" "\<forall>i < n. unified_row r i = vec_row right i"
    using unified_rows [OF assms(2)] unified_rows [OF assms(3)] by blast
  let ?V = "\<lambda>i. RowIsValid (uf_validity l) (get_index (uf_sel l) i) \<and> RowIsValid (uf_validity r) (get_index (uf_sel r) i)"
  let ?g = "\<lambda>i. f (uf_data l ! get_index (uf_sel l) i) (uf_data r ! get_index (uf_sel r) i)"
  have row: "bin_row f left right i = rowE ?g ?V i" if "i < n" for i
    unfolding bin_row_def lr(3) [rule_format, OF that, symmetric] lr(4) [rule_format, OF that, symmetric]
    by (simp add: unified_row_def rowE_def Let_def)
  have gen: "generic_row (std f) l r i st = row_loop ?g ?V SetInvalid i st" if "?V i" for i st
    using that by (cases st) (simp add: generic_row_def row_loop_step BinaryStandardOperatorWrapper_def bindE_def split: sum.splits)
  have loop: "ExecuteGenericLoop (std f) l r n (d, m) = foldE (row_loop ?g ?V SetInvalid) [0..<n] (d, m)"
  proof (cases "AllValid (uf_validity l) \<and> AllValid (uf_validity r)")
    case True
    then have "?V i" for i by (simp add: AllValid_def RowIsValid_def)
    with True gen show ?thesis
      unfolding ExecuteGenericLoop_def by (auto intro!: foldE_cong)
  next
    case False
    have "foldE (\<lambda>i (d, m). if ?V i then generic_row (std f) l r i (d, m) else Inr (d, SetInvalid i m)) [0..<n] (d, m) =
        foldE (row_loop ?g ?V SetInvalid) [0..<n] (d, m)"
      by (rule foldE_cong) (auto simp: gen row_loop_step)
    with False show ?thesis unfolding ExecuteGenericLoop_def by simp
  qed
  show ?thesis
    using clear_loop_executes [OF res(2,3,5,7) row] lr(1,2) loop res(1)
    by (simp add: ExecuteGeneric_def SetVectorType_def vec_data_def vec_validity_def Let_def)
qed

lemma ExecuteFlat_right_rows:
  assumes "fresh_vec n res" and "vec_ok n (Flat lt ld lm)"
  shows "executes (GetType res) n (bin_row f (Flat lt ld lm) (Constant rt rd rm))
    (ExecuteFlat same_buffer (std f) False True (Flat lt ld lm) (Constant rt rd rm) n res)"
proof (cases "RowIsValid rm 0")
  case True
  show ?thesis
    by (rule ExecuteFlat_rows [where m = lm, OF assms(1)])
      (use True assms(2) in \<open>simp_all add: ConstantVector_IsNull_def result_mask_def vec_validity_def vec_data_def bin_row_def rowE_def\<close>)
next
  case False
  then show ?thesis
    by (intro ExecuteFlat_null assms(1)) (auto simp: ConstantVector_IsNull_def bin_row_def)
qed

lemma ExecuteFlat_left_rows:
  assumes "fresh_vec n res" and "vec_ok n (Flat rt rd rm)"
  shows "executes (GetType res) n (bin_row f (Constant lt ld lm) (Flat rt rd rm))
    (ExecuteFlat same_buffer (std f) True False (Constant lt ld lm) (Flat rt rd rm) n res)"
proof (cases "RowIsValid lm 0")
  case True
  show ?thesis
    by (rule ExecuteFlat_rows [where m = rm, OF assms(1)])
      (use True assms(2) in \<open>simp_all add: ConstantVector_IsNull_def result_mask_def vec_validity_def vec_data_def bin_row_def rowE_def\<close>)
next
  case False
  then show ?thesis
    by (intro ExecuteFlat_null assms(1)) (auto simp: ConstantVector_IsNull_def bin_row_def)
qed

lemma ExecuteFlat_both_rows:
  assumes "fresh_vec n res" and "vec_ok n (Flat lt ld lm)" and "vec_ok n (Flat rt rd rm)"
    and "same_buffer \<longrightarrow> validity_mask lm = validity_mask rm"
  shows "executes (GetType res) n (bin_row f (Flat lt ld lm) (Flat rt rd rm))
    (ExecuteFlat same_buffer (std f) False False (Flat lt ld lm) (Flat rt rd rm) n res)"
proof -
  let ?m = "Combine same_buffer rm n lm"
  have "mask_wf ?m" "n \<le> capacity ?m" using assms(2,3) Combine_wf by simp_all
  moreover have "RowIsValid ?m i \<longleftrightarrow> RowIsValid lm i \<and> RowIsValid rm i" if "i < n" for i
    using Combine_rows [OF that, of same_buffer rm lm] assms(4) by auto
  ultimately show ?thesis
    by (intro ExecuteFlat_rows [where m = ?m, OF assms(1)])
      (simp_all add: result_mask_def vec_validity_def vec_data_def bin_row_def rowE_def)
qed

lemma Binary_Execute_rows:
  assumes "vec_ok n left" and "vec_ok n right" and "fresh_vec n res" and "0 < n"
    and "same_buffer \<longrightarrow> validity_mask (vec_validity left) = validity_mask (vec_validity right)"
  shows "executes (GetType res) n (bin_row f left right) (Binary_Execute same_buffer junk f left right n res)"
  using assms(1)
proof (cases rule: vec_ok_cases)
  case (Flat lt ld lm)
  note left = this
  from assms(2) show ?thesis
    by (cases rule: vec_ok_cases)
      (use left assms(1,2,5) ExecuteFlat_both_rows [OF assms(3)] ExecuteFlat_right_rows [OF assms(3)] ExecuteGeneric_rows [OF assms(3,1,2)] in
        \<open>auto simp: Binary_Execute_def ExecuteSwitch_def vec_validity_def\<close>)
next
  case (Constant lt ld lm)
  note left = this
  from assms(2) show ?thesis
    by (cases rule: vec_ok_cases)
      (use left assms(1,2) ExecuteFlat_left_rows [OF assms(3)] ExecuteConstant_rows [OF assms(3,4)] ExecuteGeneric_rows [OF assms(3,1,2)] in
        \<open>auto simp: Binary_Execute_def ExecuteSwitch_def\<close>)
next
  case (Dictionary lt xs ld lm)
  then show ?thesis
    using ExecuteGeneric_rows [OF assms(3,1,2), of f junk] by (simp add: Binary_Execute_def ExecuteSwitch_def)
qed

text \<open>
  C28: For every combination of flat, constant and dictionary inputs, \<open>BinaryExecutor::Execute\<close> computes
  each row as the operation on the two values of the row, NULL if one of them is NULL; if the operation
  throws, the error is that of the first row that throws, and no operation is run on a NULL.
\<close>

theorem binary_execute_rows:
  assumes "vec_ok n left" and "vec_ok n right" and "fresh_vec n res" and "0 < n"
    and "same_buffer \<longrightarrow> validity_mask (vec_validity left) = validity_mask (vec_validity right)"
  shows "case mapE (bin_row f left right) [0..<n] of
      Inl e \<Rightarrow> Binary_Execute same_buffer junk f left right n res = Inl e
    | Inr out \<Rightarrow> \<exists>v. Binary_Execute same_buffer junk f left right n res = Inr v \<and> GetType v = GetType res \<and>
        vec_ok n v \<and> (\<forall>i < n. vec_row v i = out ! i)"
  using Binary_Execute_rows [OF assms, of f junk] by (simp add: executes_def)

text \<open>Two witnesses in one: a sum of a dictionary and a constant, and an operation that throws.\<close>

definition ex_add :: "cell \<Rightarrow> cell \<Rightarrow> cell result" where
  "ex_add a b = (case (a, b) of (CInt x, CInt y) \<Rightarrow> if x = y then Inl OutOfRangeException else Inr (CInt (x + y)) | _ \<Rightarrow> Inl InternalException)"

theorem binary_execute_rows_witness:
  "(let res = Vector_Initialize (\<lambda>_. 0) BOOLEAN 64; zero = Constant BOOLEAN [CInt 0] (Mask_Reset 64) in
    Binary_Execute False (\<lambda>_. 0) ex_add ex_dict ex_true 3 res = Inl OutOfRangeException \<and>
    (\<exists>v. Binary_Execute False (\<lambda>_. 0) ex_add ex_dict zero 1 res = Inr v \<and> vec_row v 0 = Some (CInt 1)))"
proof -
  let ?res = "Vector_Initialize (\<lambda>_. 0) BOOLEAN 64" and ?zero = "Constant BOOLEAN [CInt 0] (Mask_Reset 64)"
  have ok: "vec_ok 3 ex_true" "vec_ok 1 ?zero" "vec_ok 1 ex_dict" "fresh_vec 3 ?res" "fresh_vec 1 ?res"
    by (simp_all add: ex_true_def ex_dict_def scalar_type_def constant_size_type_def Mask_Reset_def Vector_Initialize_def fresh_vec_def
        AllValid_def get_index_def)
  have "mapE (bin_row ex_add ex_dict ex_true) [0..<3] = Inl OutOfRangeException"
    "mapE (bin_row ex_add ex_dict ?zero) [0..<1] = Inr [Some (CInt 1)]"
    by (simp_all add: upt_rec ex_true_def ex_dict_def bin_row_def ex_add_def Mask_Reset_def get_index_def)
  then show ?thesis
    using binary_execute_rows [OF ex_dict_ok ok(1,4), where same_buffer = False and f = ex_add and junk = "\<lambda>_. 0"]
      binary_execute_rows [OF ok(3,2,5), where same_buffer = False and f = ex_add and junk = "\<lambda>_. 0"]
    by (auto simp: Let_def)
qed

end
