(* ===== verification/Unary_Executor.thy ===== *)
theory Unary_Executor
  imports Row_Loops Select_Loops
begin

text \<open>
  \<open>UnaryExecutor\<close> (\<open>unary_executor.hpp\<close>): the template that applies an operation to every row of a
  vector. A dictionary vector of known size whose operation cannot fail is computed once per dictionary
  entry; the result is a dictionary again. The operation is an argument; with the wrapper for nullable
  results it may clear the row it computes. How many entries a dictionary has is an argument, because
  \<open>Vector\<close> does not keep the size.
\<close>

section \<open>Operation wrappers\<close>

type_synonym unary_wrapper = "cell \<Rightarrow> ValidityMask \<Rightarrow> nat \<Rightarrow> (cell \<times> ValidityMask) result"

definition UnaryOperatorWrapper :: "(cell \<Rightarrow> cell result) \<Rightarrow> unary_wrapper" where
  "UnaryOperatorWrapper f input result_mask idx = bindE (f input) (\<lambda>c. Inr (c, result_mask))"

definition UnaryLambdaWrapperWithNulls :: "(cell \<Rightarrow> ValidityMask \<Rightarrow> nat \<Rightarrow> (cell \<times> ValidityMask) result) \<Rightarrow> unary_wrapper" where
  "UnaryLambdaWrapperWithNulls f input result_mask idx = f input result_mask idx"

section \<open>Execute\<close>

definition unary_step :: "unary_wrapper \<Rightarrow> cell list \<Rightarrow> nat \<Rightarrow> nat \<Rightarrow> cell list \<times> ValidityMask \<Rightarrow> (cell list \<times> ValidityMask) result" where
  "unary_step w ldata idx i = (\<lambda>(result_data, result_mask).
     bindE (w (ldata ! idx) result_mask i) (\<lambda>(c, result_mask). Inr (result_data[i := c], result_mask)))"

definition Unary_ExecuteLoop ::
    "unary_wrapper \<Rightarrow> cell list \<Rightarrow> nat \<Rightarrow> SelectionVector \<Rightarrow> ValidityMask \<Rightarrow> cell list \<times> ValidityMask \<Rightarrow> (cell list \<times> ValidityMask) result" where
  "Unary_ExecuteLoop w ldata cnt sel_vector lmask st =
     (if \<not> AllValid lmask then
        foldE (\<lambda>i (d, result_mask).
          let idx = get_index sel_vector i in
          if RowIsValid lmask idx then unary_step w ldata idx i (d, result_mask)
          else Inr (d, SetInvalid i result_mask)) [0..<cnt] st
      else foldE (\<lambda>i. unary_step w ldata (get_index sel_vector i) i) [0..<cnt] st)"

definition Unary_ExecuteFlat ::
    "unary_wrapper \<Rightarrow> bool \<Rightarrow> cell list \<Rightarrow> nat \<Rightarrow> ValidityMask \<Rightarrow> cell list \<times> ValidityMask \<Rightarrow> (cell list \<times> ValidityMask) result" where
  "Unary_ExecuteFlat w adds_nulls ldata cnt lmask = (\<lambda>(result_data, result_mask).
     if \<not> AllValid lmask then
       let result_mask = (if \<not> adds_nulls then lmask else Mask_Copy lmask cnt) in
       foldE (entry_loop (\<lambda>i. unary_step w ldata i i) lmask cnt) [0..<EntryCount cnt] (result_data, result_mask)
     else foldE (\<lambda>i. unary_step w ldata i i) [0..<cnt] (result_data, result_mask))"

definition Unary_ExecuteConstant :: "unary_wrapper \<Rightarrow> Vector \<Rightarrow> Vector \<Rightarrow> Vector result" where
  "Unary_ExecuteConstant w input res =
     (let res = SetVectorType CONSTANT_VECTOR res in
      if ConstantVector_IsNull input then Inr (ConstantVector_SetNull True res)
      else
        let res = ConstantVector_SetNull False res in
        bindE (w (vec_data input ! 0) (vec_validity res) 0) (\<lambda>(c, mask).
          Inr (Constant (GetType res) ((vec_data res)[0 := c]) mask)))"

text \<open>\<open>dict_size\<close>: \<open>DictionaryVector::DictionarySize\<close> of the input.\<close>

definition Unary_ExecuteStandard ::
    "junk \<Rightarrow> unary_wrapper \<Rightarrow> bool \<Rightarrow> bool \<Rightarrow> nat option \<Rightarrow> Vector \<Rightarrow> nat \<Rightarrow> Vector \<Rightarrow> Vector result" where
  "Unary_ExecuteStandard junk w adds_nulls cannot_error dict_size input cnt res =
     (let generic =
        bindE (ToUnifiedFormat junk cnt input) (\<lambda>vdata.
          let res = SetVectorType FLAT_VECTOR res in
          bindE (Unary_ExecuteLoop w (uf_data vdata) cnt (uf_sel vdata) (uf_validity vdata) (vec_data res, vec_validity res))
            (\<lambda>(d, m). Inr (Flat (GetType res) d m)))
      in case input of
        Constant t d m \<Rightarrow> Unary_ExecuteConstant w input res
      | Flat t ldata m \<Rightarrow>
          (let res = SetVectorType FLAT_VECTOR res in
           bindE (Unary_ExecuteFlat w adds_nulls ldata cnt m (vec_data res, vec_validity res))
             (\<lambda>(d, m). Inr (Flat (GetType res) d m)))
      | Dictionary t offsets dictionary_values \<Rightarrow>
          (case (dict_size, dictionary_values) of
             (Some dict_size, Flat t ldata m) \<Rightarrow>
               if cannot_error \<and> dict_size * 2 \<le> cnt then
                 bindE (Unary_ExecuteFlat w adds_nulls ldata dict_size m (vec_data res, vec_validity res)) (\<lambda>(d, m).
                   let res = Flat (GetType res) d m in
                   Slice_other res offsets cnt res)
               else generic
           | _ \<Rightarrow> generic))"

definition Unary_Execute :: "junk \<Rightarrow> (cell \<Rightarrow> cell result) \<Rightarrow> bool \<Rightarrow> nat option \<Rightarrow> Vector \<Rightarrow> nat \<Rightarrow> Vector \<Rightarrow> Vector result" where
  "Unary_Execute junk func cannot_error dict_size input cnt res =
     Unary_ExecuteStandard junk (UnaryOperatorWrapper func) False cannot_error dict_size input cnt res"

definition Unary_ExecuteWithNulls ::
    "junk \<Rightarrow> (cell \<Rightarrow> ValidityMask \<Rightarrow> nat \<Rightarrow> (cell \<times> ValidityMask) result) \<Rightarrow> nat option \<Rightarrow> Vector \<Rightarrow> nat \<Rightarrow> Vector \<Rightarrow> Vector result" where
  "Unary_ExecuteWithNulls junk func dict_size input cnt res =
     Unary_ExecuteStandard junk (UnaryLambdaWrapperWithNulls func) True False dict_size input cnt res"

section \<open>Select\<close>

definition Unary_SelectLoop ::
    "bool \<Rightarrow> UnifiedVectorFormat \<Rightarrow> selref \<Rightarrow> nat \<Rightarrow> (cell \<Rightarrow> bool) \<Rightarrow> SelectionVector option \<Rightarrow> SelectionVector option
      \<Rightarrow> select_output" where
  "Unary_SelectLoop NO_NULL input_data result_sel cnt func ts fs =
     (let P = (\<lambda>i. let idx = get_index (uf_sel input_data) i in
                 (NO_NULL \<or> RowIsValid (uf_validity input_data) idx) \<and> func (uf_data input_data ! idx));
          st = fold (write_step result_sel P) [0..<cnt] (select_init ts fs)
      in (select_result cnt st, true_sel st, false_sel st))"

definition Unary_Select ::
    "junk \<Rightarrow> Vector \<Rightarrow> selref \<Rightarrow> nat \<Rightarrow> (cell \<Rightarrow> bool) \<Rightarrow> SelectionVector option \<Rightarrow> SelectionVector option
      \<Rightarrow> select_output result" where
  "Unary_Select junk input sel cnt func ts fs =
     bindE (ToUnifiedFormat junk cnt input) (\<lambda>input_data.
       Inr (Unary_SelectLoop (AllValid (uf_validity input_data)) input_data sel cnt func ts fs))"

section \<open>Results by rows\<close>

definition un_row :: "(cell \<Rightarrow> cell result) \<Rightarrow> Vector \<Rightarrow> nat \<Rightarrow> cell option result" where
  "un_row f input i = (case vec_row input i of Some a \<Rightarrow> bindE (f a) (\<lambda>c. Inr (Some c)) | None \<Rightarrow> Inr None)"

lemma unary_step_std:
  "V i \<Longrightarrow> unary_step (UnaryOperatorWrapper f) ld (idx i) i st = row_loop (\<lambda>i. f (ld ! idx i)) V h i st"
  by (cases st) (simp add: unary_step_def row_loop_step UnaryOperatorWrapper_def bindE_def split: sum.splits)

lemma Unary_ExecuteFlat_rows:
  assumes "vec_ok n (Flat lt ld lm)" and "scalar_type t" "n \<le> length d" and "AllValid m" "n \<le> capacity m"
  shows "executes t n (un_row f (Flat lt ld lm))
    (bindE (Unary_ExecuteFlat (UnaryOperatorWrapper f) False ld n lm (d, m)) (\<lambda>(d, m). Inr (Flat t d m)))"
proof -
  let ?V = "RowIsValid lm" and ?g = "\<lambda>i. f (ld ! i)"
  have row: "un_row f (Flat lt ld lm) i = rowE ?g ?V i" for i
    by (simp add: un_row_def rowE_def)
  show ?thesis
  proof (cases "AllValid lm")
    case True
    then have valid: "?V i" for i by (simp add: AllValid_def RowIsValid_def)
    then have "foldE (\<lambda>i. unary_step (UnaryOperatorWrapper f) ld i i) [0..<n] (d, m) =
        foldE (row_loop ?g ?V SetInvalid) [0..<n] (d, m)"
      using unary_step_std [where idx = "\<lambda>i. i"] by (intro foldE_cong) blast
    with True clear_loop_executes [where V = ?V and g = ?g, OF assms(2-5) row] show ?thesis
      by (simp add: Unary_ExecuteFlat_def)
  next
    case False
    have "foldE (entry_loop (\<lambda>i. unary_step (UnaryOperatorWrapper f) ld i i) lm n) [0..<EntryCount n] (d, lm) =
        foldE (row_loop ?g ?V keep_mask) [0..<n] (d, lm)"
      by (rule entry_loops_rows) (rule unary_step_std [where idx = "\<lambda>i. i"])
    with False keep_loop_executes [where m = lm and g = ?g, OF assms(2,3) _ _ row] assms(1) show ?thesis
      by (simp add: Unary_ExecuteFlat_def)
  qed
qed

lemma Unary_generic_rows:
  assumes "ToUnifiedFormat junk n input = Inr u" and "\<forall>i < n. unified_row u i = vec_row input i"
    and "scalar_type t" "n \<le> length d" and "AllValid m" "n \<le> capacity m"
  shows "executes t n (un_row f input)
    (bindE (Unary_ExecuteLoop (UnaryOperatorWrapper f) (uf_data u) n (uf_sel u) (uf_validity u) (d, m)) (\<lambda>(d, m). Inr (Flat t d m)))"
proof -
  let ?idx = "get_index (uf_sel u)"
  let ?V = "\<lambda>i. RowIsValid (uf_validity u) (?idx i)" and ?g = "\<lambda>i. f (uf_data u ! ?idx i)"
  have row: "un_row f input i = rowE ?g ?V i" if "i < n" for i
    unfolding un_row_def assms(2) [rule_format, OF that, symmetric] by (simp add: unified_row_def rowE_def Let_def)
  have step: "unary_step (UnaryOperatorWrapper f) (uf_data u) (?idx i) i st = row_loop ?g ?V SetInvalid i st" if "?V i" for i st
    using that by (rule unary_step_std)
  have "Unary_ExecuteLoop (UnaryOperatorWrapper f) (uf_data u) n (uf_sel u) (uf_validity u) (d, m) =
      foldE (row_loop ?g ?V SetInvalid) [0..<n] (d, m)"
  proof (cases "AllValid (uf_validity u)")
    case True
    then have "?V i" for i by (simp add: AllValid_def RowIsValid_def)
    with True step show ?thesis
      unfolding Unary_ExecuteLoop_def by (auto intro!: foldE_cong)
  next
    case False
    have "foldE (\<lambda>i (d, rm). let idx = ?idx i in
          if RowIsValid (uf_validity u) idx then unary_step (UnaryOperatorWrapper f) (uf_data u) idx i (d, rm)
          else Inr (d, SetInvalid i rm)) [0..<n] (d, m) =
        foldE (row_loop ?g ?V SetInvalid) [0..<n] (d, m)"
      by (rule foldE_cong) (auto simp: step row_loop_step Let_def)
    with False show ?thesis unfolding Unary_ExecuteLoop_def by simp
  qed
  then show ?thesis
    using clear_loop_executes [OF assms(3-6) row] by simp
qed

lemma Unary_ExecuteConstant_rows:
  assumes "fresh_vec n res" and "0 < n"
  shows "executes (GetType res) n (un_row f (Constant lt ld lm)) (Unary_ExecuteConstant (UnaryOperatorWrapper f) (Constant lt ld lm) res)"
  using assms(1)
proof (rule fresh_vecE)
  fix t d m
  assume res: "res = Flat t d m" "scalar_type t" "n \<le> length d" "d \<noteq> []" "AllValid m" "mask_wf m" "n \<le> capacity m" "0 < capacity m"
  have m: "validity_mask m = None" using res(5) by (simp add: AllValid_def)
  then have valid: "RowIsValid m 0" by (simp add: RowIsValid_def)
  show ?thesis
  proof (cases "RowIsValid lm 0")
    case False
    then show ?thesis
      using fresh_null [OF assms(1)] by (auto simp: Unary_ExecuteConstant_def ConstantVector_IsNull_def un_row_def)
  next
    case True
    have set: "ConstantVector_SetNull False (SetVectorType CONSTANT_VECTOR (Flat t d m)) = Constant t d m"
      using m by (simp add: ConstantVector_SetNull_def SetVectorType_def Set_def SetValid_def)
    show ?thesis
    proof (cases "f (ld ! 0)")
      case (Inl e)
      with True executes_error [OF assms(2)] show ?thesis
        using res(1) by (simp add: Unary_ExecuteConstant_def set ConstantVector_IsNull_def UnaryOperatorWrapper_def vec_data_def un_row_def)
    next
      case (Inr c)
      have "executes t n (un_row f (Constant lt ld lm)) (Inr (Constant t (d[0 := c]) m))"
        by (rule executes_same [where x = "Some c"]) (use True Inr res valid in \<open>auto simp: un_row_def\<close>)
      with True Inr res(1) show ?thesis
        by (simp add: Unary_ExecuteConstant_def set ConstantVector_IsNull_def UnaryOperatorWrapper_def vec_data_def vec_validity_def Let_def)
    qed
  qed
qed

text \<open>
  The path over the entries of a dictionary: the operation cannot fail on any of them, and the rows
  refer to entries.
\<close>

lemma Unary_dictionary_rows:
  assumes res: "fresh_vec n res" and k: "k * 2 \<le> n" "0 < n"
    and d: "scalar_type lt" "k \<le> length ld" "mask_wf lm" "k \<le> capacity lm"
    and xs: "n \<le> length xs" "\<forall>i < n. get_index (Some xs) i < k"
    and f: "\<forall>c. \<exists>c'. f c = Inr c'"
  shows "executes (GetType res) n (un_row f (Dictionary lt (Some xs) (Flat lt ld lm)))
    (bindE (Unary_ExecuteFlat (UnaryOperatorWrapper f) False ld k lm (vec_data res, vec_validity res)) (\<lambda>(d, m).
       let res = Flat (GetType res) d m in Slice_other res (Some xs) n res))"
  using res
proof (rule fresh_vecE)
  fix t d m
  assume r: "res = Flat t d m" "scalar_type t" "n \<le> length d" "AllValid m" "n \<le> capacity m"
  let ?row = "un_row f (Flat lt ld lm)"
  obtain g where g: "f c = Inr (g c)" for c using f by metis
  have rows: "?row i = Inr (map_option g (vec_row (Flat lt ld lm) i))" for i
    by (simp add: un_row_def g split: option.splits)
  then have "mapE ?row xs = Inr (map (\<lambda>i. map_option g (vec_row (Flat lt ld lm) i)) xs)" for xs
    by (rule mapE_total)
  moreover have "executes t k ?row
      (bindE (Unary_ExecuteFlat (UnaryOperatorWrapper f) False ld k lm (d, m)) (\<lambda>(d, m). Inr (Flat t d m)))"
    by (rule Unary_ExecuteFlat_rows) (use d k r in simp_all)
  ultimately obtain d' m' where dm: "Unary_ExecuteFlat (UnaryOperatorWrapper f) False ld k lm (d, m) = Inr (d', m')"
      "vec_ok k (Flat t d' m')" "\<forall>i < k. vec_row (Flat t d' m') i = map_option g (vec_row (Flat lt ld lm) i)"
    by (auto simp: executes_def bindE_Inr_iff simp del: vec_row.simps vec_ok.simps)
  let ?v = "Dictionary t (Some xs) (Flat t d' m')"
  have ok: "vec_ok n ?v" using dm(2) xs by (auto intro: less_le_trans)
  have row: "vec_row ?v i = map_option g (vec_row (Flat lt ld lm) (get_index (Some xs) i))" if "i < n" for i
    using dm(3) xs(2) that by (simp del: vec_row.simps(1))
  have "mapE (un_row f (Dictionary lt (Some xs) (Flat lt ld lm))) [0..<n] =
      Inr (map (\<lambda>i. map_option g (vec_row (Flat lt ld lm) (get_index (Some xs) i))) [0..<n])"
    using rows by (intro mapE_total) (simp add: un_row_def)
  then have "executes t n (un_row f (Dictionary lt (Some xs) (Flat lt ld lm))) (Inr ?v)"
    using ok row by (simp add: executes_def del: vec_row.simps vec_ok.simps)
  then show ?thesis
    using k dm(1) r(1)
    by (simp add: vec_data_def vec_validity_def Slice_other_def Reference_def ConstReference_def Slice_sel_def sel_IsSet_def Let_def)
qed

text \<open>What the dictionary path relies on: the size covers the rows in use, and the operation does not throw.\<close>

definition dictionary_ok :: "(cell \<Rightarrow> cell result) \<Rightarrow> nat option \<Rightarrow> nat \<Rightarrow> Vector \<Rightarrow> bool" where
  "dictionary_ok f dict_size n input \<longleftrightarrow>
     (\<forall>k t sel t' d m. dict_size = Some k \<longrightarrow> input = Dictionary t sel (Flat t' d m) \<longrightarrow>
        k \<le> length d \<and> k \<le> capacity m \<and> (\<forall>i < n. get_index sel i < k)) \<and>
     (\<forall>c. \<exists>c'. f c = Inr c')"

lemma Unary_Execute_rows:
  assumes "vec_ok n input" and "fresh_vec n res" and "0 < n" and "cannot_error \<longrightarrow> dictionary_ok f dict_size n input"
  shows "executes (GetType res) n (un_row f input) (Unary_Execute junk f cannot_error dict_size input n res)"
  using assms(2)
proof (rule fresh_vecE)
  fix t d m
  assume r: "res = Flat t d m" "scalar_type t" "n \<le> length d" "AllValid m" "n \<le> capacity m"
  obtain u where u: "ToUnifiedFormat junk n input = Inr u" "\<forall>i < n. unified_row u i = vec_row input i"
    using unified_rows [OF assms(1)] by blast
  note generic = Unary_generic_rows [OF u r(2-5)]
  note res = vec_data_def vec_validity_def SetVectorType_def Let_def
  from assms(1) show ?thesis
  proof (cases rule: vec_ok_cases)
    case (Flat lt ld lm)
    with assms(1) Unary_ExecuteFlat_rows [OF _ r(2-5)] r(1) show ?thesis
      by (simp add: Unary_Execute_def Unary_ExecuteStandard_def res del: vec_ok.simps)
  next
    case (Constant lt ld lm)
    with Unary_ExecuteConstant_rows [OF assms(2,3)] show ?thesis
      by (simp add: Unary_Execute_def Unary_ExecuteStandard_def)
  next
    case (Dictionary lt xs ld lm)
    show ?thesis
    proof (cases "\<exists>k. dict_size = Some k \<and> cannot_error \<and> k * 2 \<le> n")
      case True
      then obtain k where k: "dict_size = Some k" "cannot_error" "k * 2 \<le> n" by blast
      have "executes (GetType res) n (un_row f input)
        (bindE (Unary_ExecuteFlat (UnaryOperatorWrapper f) False ld k lm (vec_data res, vec_validity res)) (\<lambda>(d, m).
           let res = Flat (GetType res) d m in Slice_other res (Some xs) n res))"
        unfolding Dictionary
        by (rule Unary_dictionary_rows [OF assms(2)]) (use k Dictionary assms in \<open>auto simp: dictionary_ok_def\<close>)
      with Dictionary k show ?thesis
        by (simp add: Unary_Execute_def Unary_ExecuteStandard_def)
    next
      case False
      with Dictionary generic u r(1) show ?thesis
        by (auto simp: Unary_Execute_def Unary_ExecuteStandard_def res split: option.split)
    qed
  qed
qed

text \<open>
  C30: For flat, constant and dictionary inputs \<open>UnaryExecutor::Execute\<close> computes each row as the operation
  on its value, NULL for NULL, and raises the error of the first row that throws. An operation declared
  not to fail is run once per dictionary entry instead, with the same rows as result.
\<close>

theorem unary_execute_rows:
  assumes "vec_ok n input" and "fresh_vec n res" and "0 < n" and "cannot_error \<longrightarrow> dictionary_ok f dict_size n input"
  shows "case mapE (un_row f input) [0..<n] of
      Inl e \<Rightarrow> Unary_Execute junk f cannot_error dict_size input n res = Inl e
    | Inr out \<Rightarrow> \<exists>v. Unary_Execute junk f cannot_error dict_size input n res = Inr v \<and> GetType v = GetType res \<and>
        vec_ok n v \<and> (\<forall>i < n. vec_row v i = out ! i)"
  using Unary_Execute_rows [OF assms, of junk] by (simp add: executes_def)

text \<open>The dictionary path on four rows over two entries, with an operation that negates a truth value.\<close>

definition ex_dict4 :: Vector where
  "ex_dict4 = Dictionary BOOLEAN (Some [1, 0, 1, 1]) (Flat BOOLEAN [CInt 0, CInt 1] (Mask_Reset 64))"

theorem unary_execute_rows_witness:
  "\<exists>v. Unary_Execute (\<lambda>_. 0) (\<lambda>c. Inr (CInt (if c = CInt 0 then 1 else 0))) True (Some 2) ex_dict4 4 (Vector_Initialize (\<lambda>_. 0) BOOLEAN 64) = Inr v \<and>
     vec_row v 0 = Some (CInt 0) \<and> vec_row v 1 = Some (CInt 1)"
proof -
  let ?f = "\<lambda>c. Inr (CInt (if c = CInt 0 then 1 else 0)) :: cell result" and ?res = "Vector_Initialize (\<lambda>_. 0) BOOLEAN 64"
  have rows: "\<forall>i < 4. get_index (Some [1, 0, 1, 1]) i < 2"
    by (auto simp: get_index_def less_Suc_eq numeral_eq_Suc)
  then have ok: "vec_ok 4 ex_dict4" "fresh_vec 4 ?res" "dictionary_ok ?f (Some 2) 4 ex_dict4"
    by (auto simp: ex_dict4_def scalar_type_def constant_size_type_def Mask_Reset_def Vector_Initialize_def fresh_vec_def
        AllValid_def dictionary_ok_def)
  have "mapE (un_row ?f ex_dict4) [0..<4] = Inr [Some (CInt 0), Some (CInt 1), Some (CInt 0), Some (CInt 0)]"
    by (simp add: upt_rec ex_dict4_def un_row_def Mask_Reset_def get_index_def numeral_eq_Suc)
  then show ?thesis
    using unary_execute_rows [OF ok(1,2), of True ?f "Some 2" "\<lambda>_. 0"] ok(3) by auto
qed

section \<open>Selections by rows\<close>

lemma Unary_Select_rows:
  assumes "vec_ok n input" and "select_ready n sel ts fs"
  shows "\<exists>r. Unary_Select junk input sel n func ts fs = Inr r \<and>
    splits n (sel_row sel ts fs) (\<lambda>i. case vec_row input i of Some a \<Rightarrow> func a | None \<Rightarrow> False) ts fs r"
proof -
  obtain u where u: "ToUnifiedFormat junk n input = Inr u" "\<forall>i < n. unified_row u i = vec_row input i"
    using unified_rows [OF assms(1)] by blast
  let ?b = "AllValid (uf_validity u)"
  let ?P = "\<lambda>i. let idx = get_index (uf_sel u) i in (?b \<or> RowIsValid (uf_validity u) idx) \<and> func (uf_data u ! idx)"
  have P: "(case vec_row input i of Some a \<Rightarrow> func a | None \<Rightarrow> False) = ?P i" if "i < n" for i
    unfolding u(2) [rule_format, OF that, symmetric] by (auto simp: unified_row_def Let_def AllValid_def RowIsValid_def)
  have "splits n (sel_row sel ts fs) ?P ts fs (Unary_SelectLoop ?b u sel n func ts fs)"
    using assms(2) loop_splits [of n _ ts fs sel "\<lambda>_. write_step" ?P]
    by (simp add: select_ready_def Unary_SelectLoop_def Let_def)
  then have "splits n (sel_row sel ts fs) (\<lambda>i. case vec_row input i of Some a \<Rightarrow> func a | None \<Rightarrow> False) ts fs
      (Unary_SelectLoop ?b u sel n func ts fs)"
    by (rule splits_cong) (rule P)
  then show ?thesis using u(1) by (simp add: Unary_Select_def)
qed

end
