(* ===== verification/Row_Semantics.thy ===== *)
theory Row_Semantics
  imports Bound_Expressions
begin

text \<open>
  What an integer expression means on one row, independently of how it is executed: exact integer
  arithmetic with an out-of-range error where the result does not fit the node's type, NULL for a
  NULL operand, and a way to combine the operands of AND and OR that is a parameter: the code
  generator combines them strictly, SQL combines them in three-valued logic. Beside it,
  \<open>wrap_eval\<close> evaluates the same trees in two's complement without an overflow check.
\<close>

section \<open>Integer types\<close>

definition int_bits :: "PhysicalType \<Rightarrow> nat" where
  "int_bits pt =
     (if pt \<in> {PT_BOOL, PT_UINT8, PT_INT8} then 8
      else if pt \<in> {PT_UINT16, PT_INT16} then 16
      else if pt \<in> {PT_UINT32, PT_INT32} then 32
      else if pt \<in> {PT_UINT64, PT_INT64} then 64
      else if pt \<in> {PT_UINT128, PT_INT128} then 128
      else 0)"

definition signed_type :: "PhysicalType \<Rightarrow> bool" where
  "signed_type pt \<longleftrightarrow> pt \<in> {PT_INT8, PT_INT16, PT_INT32, PT_INT64, PT_INT128}"

definition int_type :: "PhysicalType \<Rightarrow> bool" where
  "int_type pt \<longleftrightarrow> 0 < int_bits pt"

text \<open>The values of a type: 0 and 1 for BOOL, \<open>NumericLimits\<close> for the others.\<close>

definition type_min :: "PhysicalType \<Rightarrow> int" where
  "type_min pt = (if signed_type pt then - (2 ^ (int_bits pt - 1)) else 0)"

definition type_max :: "PhysicalType \<Rightarrow> int" where
  "type_max pt =
     (if pt = PT_BOOL then 1 else if signed_type pt then 2 ^ (int_bits pt - 1) - 1 else 2 ^ int_bits pt - 1)"

definition in_type :: "PhysicalType \<Rightarrow> int \<Rightarrow> bool" where
  "in_type pt v \<longleftrightarrow> type_min pt \<le> v \<and> v \<le> type_max pt"

lemma int_bits_cases: "int_type pt \<Longrightarrow> int_bits pt \<in> {8, 16, 32, 64, 128}"
  by (auto simp: int_type_def int_bits_def split: if_splits)

lemma int_bits_BOOL [simp]: "int_bits PT_BOOL = 8"
  by (simp add: int_bits_def)

lemma int_type_BOOL [simp]: "int_type PT_BOOL"
  by (simp add: int_type_def)

lemma in_type_BOOL [simp]: "in_type PT_BOOL v \<longleftrightarrow> v = 0 \<or> v = 1"
  by (auto simp: in_type_def type_min_def type_max_def signed_type_def)

section \<open>Operations\<close>

definition checked :: "PhysicalType \<Rightarrow> int \<Rightarrow> int option result" where
  "checked pt v = (if in_type pt v then Inr (Some v) else Inl OutOfRangeException)"

definition arith :: "string \<Rightarrow> (int \<Rightarrow> int \<Rightarrow> int) option" where
  "arith nm =
     (if nm \<in> {''+'', ''add''} then Some (+)
      else if nm \<in> {''-'', ''subtract''} then Some (-)
      else if nm \<in> {''*'', ''multiply''} then Some (*)
      else None)"

definition compare_int :: "ExpressionType \<Rightarrow> (int \<Rightarrow> int \<Rightarrow> bool) option" where
  "compare_int et =
     (if et = ET_COMPARE_EQUAL then Some (=)
      else if et = ET_COMPARE_NOTEQUAL then Some (\<noteq>)
      else if et = ET_COMPARE_LESSTHAN then Some (<)
      else if et = ET_COMPARE_GREATERTHAN then Some (>)
      else if et = ET_COMPARE_LESSTHANOREQUALTO then Some (\<le>)
      else if et = ET_COMPARE_GREATERTHANOREQUALTO then Some (\<ge>)
      else None)"

definition strict2 :: "(int \<Rightarrow> int \<Rightarrow> int option result) \<Rightarrow> int option \<Rightarrow> int option \<Rightarrow> int option result" where
  "strict2 f x y = (case (x, y) of (Some a, Some b) \<Rightarrow> f a b | _ \<Rightarrow> Inr None)"

definition strict1 :: "(int \<Rightarrow> int option result) \<Rightarrow> int option \<Rightarrow> int option result" where
  "strict1 f x = (case x of Some a \<Rightarrow> f a | None \<Rightarrow> Inr None)"

text \<open>Two ways to combine two truth values: NULL as soon as one is NULL, and SQL's three-valued logic.\<close>

definition strict_conj :: "bool \<Rightarrow> int option \<Rightarrow> int option \<Rightarrow> int option" where
  "strict_conj is_and x y =
     (case (x, y) of
        (Some a, Some b) \<Rightarrow> Some (of_bool (if is_and then a \<noteq> 0 \<and> b \<noteq> 0 else a \<noteq> 0 \<or> b \<noteq> 0))
      | _ \<Rightarrow> None)"

definition sql_conj :: "bool \<Rightarrow> int option \<Rightarrow> int option \<Rightarrow> int option" where
  "sql_conj is_and x y =
     (if x = Some (of_bool (\<not> is_and)) \<or> y = Some (of_bool (\<not> is_and)) then Some (of_bool (\<not> is_and))
      else if x = None \<or> y = None then None
      else Some (of_bool is_and))"

lemma sql_conj_strict:
  "x \<in> {Some 0, Some 1} \<Longrightarrow> y \<in> {Some 0, Some 1} \<Longrightarrow> sql_conj a x y = strict_conj a x y"
  by (cases a) (auto simp: sql_conj_def strict_conj_def)

section \<open>Integer expressions\<close>

text \<open>The logical types whose values are plain integers.\<close>

definition plain_int_id :: "LogicalTypeId \<Rightarrow> bool" where
  "plain_int_id t \<longleftrightarrow> t \<in> {LT_BOOLEAN, LT_TINYINT, LT_SMALLINT, LT_INTEGER, LT_BIGINT, LT_HUGEINT,
     LT_UTINYINT, LT_USMALLINT, LT_UINTEGER, LT_UBIGINT, LT_UHUGEINT}"

definition plain_int :: "LogicalType \<Rightarrow> bool" where
  "plain_int t \<longleftrightarrow> plain_int_id (lt_id t) \<and> int_type (InternalType t)"

definition int_constant :: "Value \<Rightarrow> bool" where
  "int_constant v \<longleftrightarrow>
     plain_int (value_type v) \<and>
     (is_null v \<or> (case value_data v of CInt i \<Rightarrow> in_type (InternalType (value_type v)) i | _ \<Rightarrow> False))"

text \<open>
  Trees over columns and constants with addition, subtraction, multiplication, negation, the six
  comparisons, AND, OR and integer casts, typed as the binder types them: the operands of an
  arithmetic function have its return type, those of a comparison have one type, those of a
  conjunction are BOOLEAN.
\<close>

fun int_expr :: "Expression \<Rightarrow> bool" where
  "int_expr (BoundReference t i) \<longleftrightarrow> plain_int t"
| "int_expr (BoundConstant v) \<longleftrightarrow> int_constant v"
| "int_expr (BoundFunction t f [a]) \<longleftrightarrow>
     plain_int t \<and> fn_name f \<in> {''+'', ''add'', ''-'', ''subtract''} \<and> phys a = InternalType t \<and> int_expr a"
| "int_expr (BoundFunction t f [a, b]) \<longleftrightarrow>
     plain_int t \<and> arith (fn_name f) \<noteq> None \<and> phys a = InternalType t \<and> phys b = InternalType t \<and>
     int_expr a \<and> int_expr b"
| "int_expr (BoundComparison et l r) \<longleftrightarrow> compare_int et \<noteq> None \<and> phys l = phys r \<and> int_expr l \<and> int_expr r"
| "int_expr (BoundConjunction et cs) \<longleftrightarrow>
     et \<in> {ET_CONJUNCTION_AND, ET_CONJUNCTION_OR} \<and> cs \<noteq> [] \<and> (\<forall>c \<in> set cs. phys c = PT_BOOL \<and> int_expr c)"
| "int_expr (BoundCast t try_cast c) \<longleftrightarrow> plain_int t \<and> int_expr c"
| "int_expr _ \<longleftrightarrow> False"

text \<open>The meaning of such a tree, given the values of the columns in the row.\<close>

fun int_eval :: "(bool \<Rightarrow> int option \<Rightarrow> int option \<Rightarrow> int option) \<Rightarrow> (nat \<Rightarrow> int option) \<Rightarrow> Expression \<Rightarrow> int option result"
  and int_evals :: "(bool \<Rightarrow> int option \<Rightarrow> int option \<Rightarrow> int option) \<Rightarrow> (nat \<Rightarrow> int option) \<Rightarrow> bool \<Rightarrow> int option
      \<Rightarrow> Expression list \<Rightarrow> int option result" where
  "int_eval cj row (BoundReference t i) = Inr (row (unat i))"
| "int_eval cj row (BoundConstant v) =
     Inr (if is_null v then None else case value_data v of CInt i \<Rightarrow> Some i | _ \<Rightarrow> None)"
| "int_eval cj row (BoundFunction t f [a]) =
     bindE (int_eval cj row a) (strict1 (\<lambda>x.
       checked (InternalType t) (if fn_name f \<in> {''-'', ''subtract''} then - x else x)))"
| "int_eval cj row (BoundFunction t f [a, b]) =
     bindE (int_eval cj row a) (\<lambda>x. bindE (int_eval cj row b) (\<lambda>y.
       case arith (fn_name f) of
         None \<Rightarrow> Inl NotImplementedException
       | Some g \<Rightarrow> strict2 (\<lambda>a b. checked (InternalType t) (g a b)) x y))"
| "int_eval cj row (BoundComparison et l r) =
     bindE (int_eval cj row l) (\<lambda>x. bindE (int_eval cj row r) (\<lambda>y.
       case compare_int et of
         None \<Rightarrow> Inl NotImplementedException
       | Some p \<Rightarrow> strict2 (\<lambda>a b. Inr (Some (of_bool (p a b)))) x y))"
| "int_eval cj row (BoundConjunction et []) = Inl InternalException"
| "int_eval cj row (BoundConjunction et (c # cs)) =
     bindE (int_eval cj row c) (\<lambda>x. int_evals cj row (et = ET_CONJUNCTION_AND) x cs)"
| "int_eval cj row (BoundCast t try_cast c) =
     bindE (int_eval cj row c) (strict1 (checked (InternalType t)))"
| "int_eval cj row e = Inl NotImplementedException"
| "int_evals cj row is_and acc [] = Inr acc"
| "int_evals cj row is_and acc (c # cs) =
     bindE (int_eval cj row c) (\<lambda>x. int_evals cj row is_and (cj is_and acc x) cs)"

section \<open>Two's complement arithmetic\<close>

text \<open>
  The same trees evaluated in fixed-width arithmetic without an overflow check, which is what the
  code generator emits: every result is reduced to the width of its node, a cast keeps the low bits,
  and a row is NULL as soon as one operand is. A BOOL is a byte, which the generated code extends
  and compares as a signed one.
\<close>

definition wrap :: "PhysicalType \<Rightarrow> int \<Rightarrow> int" where
  "wrap pt v =
     (if signed_type pt \<or> pt = PT_BOOL then signed_take_bit (int_bits pt - 1) v else take_bit (int_bits pt) v)"

definition wrap_conj :: "bool \<Rightarrow> int option \<Rightarrow> int option \<Rightarrow> int option" where
  "wrap_conj is_and x y =
     (case (x, y) of (Some a, Some b) \<Rightarrow> Some (if is_and then a AND b else a OR b) | _ \<Rightarrow> None)"

fun wrap_eval :: "(nat \<Rightarrow> int option) \<Rightarrow> Expression \<Rightarrow> int option"
  and wrap_evals :: "(nat \<Rightarrow> int option) \<Rightarrow> bool \<Rightarrow> int option \<Rightarrow> Expression list \<Rightarrow> int option" where
  "wrap_eval row (BoundReference t i) = row (unat i)"
| "wrap_eval row (BoundConstant v) =
     (if is_null v then None else case value_data v of CInt i \<Rightarrow> Some i | _ \<Rightarrow> None)"
| "wrap_eval row (BoundFunction t f [a]) =
     map_option (\<lambda>x. wrap (InternalType t) (if fn_name f \<in> {''-'', ''subtract''} then - x else x)) (wrap_eval row a)"
| "wrap_eval row (BoundFunction t f [a, b]) =
     (case (arith (fn_name f), wrap_eval row a, wrap_eval row b) of
        (Some g, Some x, Some y) \<Rightarrow> Some (wrap (InternalType t) (g x y))
      | _ \<Rightarrow> None)"
| "wrap_eval row (BoundComparison et l r) =
     (case (compare_int et, wrap_eval row l, wrap_eval row r) of
        (Some p, Some x, Some y) \<Rightarrow> Some (of_bool (p x y))
      | _ \<Rightarrow> None)"
| "wrap_eval row (BoundConjunction et []) = None"
| "wrap_eval row (BoundConjunction et (c # cs)) =
     wrap_evals row (et = ET_CONJUNCTION_AND) (wrap_eval row c) cs"
| "wrap_eval row (BoundCast t try_cast c) = map_option (wrap (InternalType t)) (wrap_eval row c)"
| "wrap_eval row e = None"
| "wrap_evals row is_and acc [] = acc"
| "wrap_evals row is_and acc (c # cs) = wrap_evals row is_and (wrap_conj is_and acc (wrap_eval row c)) cs"

text \<open>Whether a column that the tree reads, or a constant in it, is NULL in the row.\<close>

fun null_leaf :: "(nat \<Rightarrow> int option) \<Rightarrow> Expression \<Rightarrow> bool" where
  "null_leaf row (BoundReference t i) \<longleftrightarrow> row (unat i) = None"
| "null_leaf row (BoundConstant v) \<longleftrightarrow> is_null v"
| "null_leaf row (BoundFunction t f cs) \<longleftrightarrow> (\<exists>c \<in> set cs. null_leaf row c)"
| "null_leaf row (BoundComparison et l r) \<longleftrightarrow> null_leaf row l \<or> null_leaf row r"
| "null_leaf row (BoundConjunction et cs) \<longleftrightarrow> (\<exists>c \<in> set cs. null_leaf row c)"
| "null_leaf row (BoundCast t try_cast c) \<longleftrightarrow> null_leaf row c"
| "null_leaf row e \<longleftrightarrow> False"

text \<open>A value of its type is not changed by reducing it to the width.\<close>

lemma in_type_wrap: "int_type pt \<Longrightarrow> in_type pt v \<Longrightarrow> wrap pt v = v"
  by (auto simp: wrap_def in_type_def type_min_def type_max_def int_type_def signed_take_bit_int_eq_self_iff
      take_bit_int_eq_self_iff split: if_splits)

lemma wrap_wrap [simp]: "wrap pt (wrap pt v) = wrap pt v"
  by (simp add: wrap_def)

lemma wrap_BOOL: "wrap PT_BOOL v = signed_take_bit 7 v"
  by (simp add: wrap_def)

lemma wrap_bool [simp]: "wrap PT_BOOL (of_bool b) = of_bool b"
  by (simp add: wrap_BOOL of_bool_def)

lemma take_bit_wrap [simp]: "int_type pt \<Longrightarrow> take_bit (int_bits pt) (wrap pt v) = take_bit (int_bits pt) v"
  by (auto simp: wrap_def int_type_def take_bit_signed_take_bit)

lemma wrap_signed: "int_type pt \<Longrightarrow> signed_type pt \<or> pt = PT_BOOL \<Longrightarrow> wrap pt v = v \<Longrightarrow>
    signed_take_bit (int_bits pt - 1) (take_bit (int_bits pt) v) = v"
  by (auto simp: wrap_def int_type_def signed_take_bit_take_bit)

lemma wrap_unsigned: "\<not> (signed_type pt \<or> pt = PT_BOOL) \<Longrightarrow> wrap pt v = v \<Longrightarrow> take_bit (int_bits pt) v = v"
  by (simp add: wrap_def)

lemma wrap_inject:
  "int_type pt \<Longrightarrow> wrap pt v = v \<Longrightarrow> wrap pt u = u \<Longrightarrow> take_bit (int_bits pt) v = take_bit (int_bits pt) u \<longleftrightarrow> v = u"
  using wrap_signed wrap_unsigned by metis

lemma signed_take_bit_conj:
  "signed_take_bit n (a AND b) = signed_take_bit n a AND signed_take_bit n (b :: int)"
  "signed_take_bit n (a OR b) = signed_take_bit n a OR signed_take_bit n (b :: int)"
  by (rule bit_eqI; auto simp: bit_simps)+

lemma wrap_conj_BOOL:
  "wrap PT_BOOL a = a \<Longrightarrow> wrap PT_BOOL b = b \<Longrightarrow> wrap PT_BOOL (a AND b) = a AND b"
  "wrap PT_BOOL a = a \<Longrightarrow> wrap PT_BOOL b = b \<Longrightarrow> wrap PT_BOOL (a OR b) = a OR b"
  by (simp_all add: wrap_BOOL signed_take_bit_conj)

lemma wrap_evals_None: "wrap_evals row is_and acc cs = None \<longleftrightarrow> acc = None \<or> (\<exists>c \<in> set cs. wrap_eval row c = None)"
  by (induction cs arbitrary: acc) (auto simp: wrap_conj_def split: option.splits)

lemma wrap_eval_None: "int_expr e \<Longrightarrow> wrap_eval row e = None \<longleftrightarrow> null_leaf row e"
proof (induction e rule: int_expr.induct)
  case (2 v)
  then show ?case by (auto simp: int_constant_def split: cell.splits)
next
  case (6 et cs)
  then obtain c cs' where "cs = c # cs'" by (cases cs) auto
  with 6 show ?case by (auto simp: wrap_evals_None)
qed (auto split: option.splits)

end
