(* ===== verification/Boolean_Operators.thy ===== *)
theory Boolean_Operators
  imports Unary_Executor Row_Semantics
begin

text \<open>
  AND, OR and NOT on vectors (\<open>boolean_operators.cpp\<close>), and the evaluation of a conjunction that
  combines the results of its children with them (\<open>execute_conjunction.cpp\<close>). Truth values are bytes:
  the operators read them as \<open>uint8_t\<close> and compare with 0.

  The theorems relate the operators to SQL's three-valued logic, \<open>sql_conj\<close>.
\<close>

section \<open>Operators\<close>

definition byte_true :: "cell \<Rightarrow> bool" where
  "byte_true c = (case c of CInt b \<Rightarrow> b mod 256 > 0 | _ \<Rightarrow> False)"

definition bool_cell :: "bool \<Rightarrow> cell" where
  "bool_cell b = CInt (of_bool b)"

text \<open>\<open>Operation\<close> returns whether the result is NULL and the value it stores, if it stores one.\<close>

record ternary_op =
  SimpleOperation :: "bool \<Rightarrow> bool \<Rightarrow> bool"
  Operation :: "bool \<Rightarrow> bool \<Rightarrow> bool \<Rightarrow> bool \<Rightarrow> bool \<times> bool option"

definition TernaryAnd :: ternary_op where
  "TernaryAnd =
     \<lparr>SimpleOperation = (\<lambda>left right. left \<and> right),
      Operation = (\<lambda>left right left_null right_null.
        if left_null \<and> right_null then (True, None)
        else if left_null then (right, Some right)
        else if right_null then (left, Some left)
        else (False, Some (left \<and> right)))\<rparr>"

definition TernaryOr :: ternary_op where
  "TernaryOr =
     \<lparr>SimpleOperation = (\<lambda>left right. left \<or> right),
      Operation = (\<lambda>left right left_null right_null.
        if left_null \<and> right_null then (True, None)
        else if left_null then (\<not> right, Some right)
        else if right_null then (\<not> left, Some left)
        else (False, Some (left \<or> right)))\<rparr>"

definition store_bool :: "nat \<Rightarrow> bool option \<Rightarrow> cell list \<Rightarrow> cell list" where
  "store_bool i r d = (case r of None \<Rightarrow> d | Some b \<Rightarrow> d[i := bool_cell b])"

definition boolean_row ::
    "ternary_op \<Rightarrow> UnifiedVectorFormat \<Rightarrow> UnifiedVectorFormat \<Rightarrow> nat \<Rightarrow> cell list \<times> ValidityMask \<Rightarrow> cell list \<times> ValidityMask" where
  "boolean_row OP ldata rdata i = (\<lambda>(result_data, result_mask).
     let lidx = get_index (uf_sel ldata) i;
         ridx = get_index (uf_sel rdata) i;
         (is_null, r) = Operation OP (byte_true (uf_data ldata ! lidx)) (byte_true (uf_data rdata ! ridx))
                          (\<not> RowIsValid (uf_validity ldata) lidx) (\<not> RowIsValid (uf_validity rdata) ridx)
     in (store_bool i r result_data, Set i (\<not> is_null) result_mask))"

definition TemplatedBooleanNullmask :: "junk \<Rightarrow> ternary_op \<Rightarrow> Vector \<Rightarrow> Vector \<Rightarrow> nat \<Rightarrow> Vector \<Rightarrow> Vector result" where
  "TemplatedBooleanNullmask junk OP left right cnt res =
     (if GetVectorType left = CONSTANT_VECTOR \<and> GetVectorType right = CONSTANT_VECTOR then
        (let res = SetVectorType CONSTANT_VECTOR res;
             (is_null, r) = Operation OP (byte_true (vec_data left ! 0)) (byte_true (vec_data right ! 0))
                              (ConstantVector_IsNull left) (ConstantVector_IsNull right)
         in Inr (ConstantVector_SetNull is_null (Constant (GetType res) (store_bool 0 r (vec_data res)) (vec_validity res))))
      else
        bindE (ToUnifiedFormat junk cnt left) (\<lambda>ldata.
        bindE (ToUnifiedFormat junk cnt right) (\<lambda>rdata.
          let res = SetVectorType FLAT_VECTOR res;
              (d, m) =
                (if \<not> AllValid (uf_validity ldata) \<or> \<not> AllValid (uf_validity rdata) then
                   fold (boolean_row OP ldata rdata) [0..<cnt] (vec_data res, vec_validity res)
                 else
                   (fold (\<lambda>i d. d[i := bool_cell (SimpleOperation OP
                        (byte_true (uf_data ldata ! get_index (uf_sel ldata) i))
                        (byte_true (uf_data rdata ! get_index (uf_sel rdata) i)))]) [0..<cnt] (vec_data res),
                    vec_validity res))
          in Inr (Flat (GetType res) d m))))"

definition VectorOperations_And :: "junk \<Rightarrow> Vector \<Rightarrow> Vector \<Rightarrow> nat \<Rightarrow> Vector \<Rightarrow> Vector result" where
  "VectorOperations_And junk left right cnt res = TemplatedBooleanNullmask junk TernaryAnd left right cnt res"

definition VectorOperations_Or :: "junk \<Rightarrow> Vector \<Rightarrow> Vector \<Rightarrow> nat \<Rightarrow> Vector \<Rightarrow> Vector result" where
  "VectorOperations_Or junk left right cnt res = TemplatedBooleanNullmask junk TernaryOr left right cnt res"

definition NotOperator :: "cell \<Rightarrow> cell result" where
  "NotOperator left = Inr (bool_cell (\<not> byte_true left))"

definition VectorOperations_Not :: "junk \<Rightarrow> nat option \<Rightarrow> Vector \<Rightarrow> nat \<Rightarrow> Vector \<Rightarrow> Vector result" where
  "VectorOperations_Not junk dict_size input cnt res = Unary_Execute junk NotOperator False dict_size input cnt res"

section \<open>Conjunctions\<close>

text \<open>
  \<open>ExpressionExecutor::Execute\<close> of a conjunction: \<open>exec i\<close> is the result of executing child \<open>i\<close>. Every
  child is executed, the running result is replaced by the combination.
\<close>

fun conjunction_loop :: "junk \<Rightarrow> bool \<Rightarrow> (nat \<Rightarrow> Vector result) \<Rightarrow> nat \<Rightarrow> nat list \<Rightarrow> Vector \<Rightarrow> Vector result" where
  "conjunction_loop junk is_and exec cnt [] res = Inr res"
| "conjunction_loop junk is_and exec cnt (i # idxs) res =
     bindE (exec i) (\<lambda>current_result.
       if i = 0 then bindE (Reference current_result res) (conjunction_loop junk is_and exec cnt idxs)
       else
         let intermediate = Vector_Initialize junk BOOLEAN STANDARD_VECTOR_SIZE in
         bindE (if is_and then VectorOperations_And junk current_result res cnt intermediate
                else VectorOperations_Or junk current_result res cnt intermediate) (\<lambda>intermediate.
         bindE (Reference intermediate res) (conjunction_loop junk is_and exec cnt idxs)))"

definition Execute_Conjunction :: "junk \<Rightarrow> bool \<Rightarrow> (nat \<Rightarrow> Vector result) \<Rightarrow> nat \<Rightarrow> nat \<Rightarrow> Vector \<Rightarrow> Vector result" where
  "Execute_Conjunction junk is_and exec children cnt res = conjunction_loop junk is_and exec cnt [0..<children] res"

section \<open>Three-valued logic\<close>

definition truth :: "Vector \<Rightarrow> nat \<Rightarrow> int option" where
  "truth v i = map_option (\<lambda>c. of_bool (byte_true c)) (vec_row v i)"

abbreviation ternary :: "bool \<Rightarrow> ternary_op" where
  "ternary is_and \<equiv> (if is_and then TernaryAnd else TernaryOr)"

lemma byte_true_bool_cell [simp]: "byte_true (bool_cell b) = b"
  by (cases b) (simp_all add: byte_true_def bool_cell_def)

lemma ternary_Operation:
  assumes "Operation (ternary is_and) l r (x = None) (y = None) = (null, v)"
    and "\<And>c. x = Some c \<Longrightarrow> l = byte_true c" "\<And>c. y = Some c \<Longrightarrow> r = byte_true c"
  defines "z \<equiv> sql_conj is_and (map_option (\<lambda>c. of_bool (byte_true c)) x) (map_option (\<lambda>c. of_bool (byte_true c)) y)"
  shows "null \<Longrightarrow> z = None" and "\<not> null \<Longrightarrow> \<exists>b. v = Some b \<and> z = Some (of_bool b)"
  using assms(1-3) unfolding z_def
  by (cases x; cases y; cases is_and; auto simp: TernaryAnd_def TernaryOr_def sql_conj_def split: if_splits)+

lemma ternary_SimpleOperation:
  "Operation (ternary is_and) l r False False = (False, Some (SimpleOperation (ternary is_and) l r))"
  by (simp add: TernaryAnd_def TernaryOr_def)

definition unified_op :: "ternary_op \<Rightarrow> UnifiedVectorFormat \<Rightarrow> UnifiedVectorFormat \<Rightarrow> nat \<Rightarrow> bool \<times> bool option" where
  "unified_op OP l r i =
     (let lidx = get_index (uf_sel l) i; ridx = get_index (uf_sel r) i in
      Operation OP (byte_true (uf_data l ! lidx)) (byte_true (uf_data r ! ridx))
        (\<not> RowIsValid (uf_validity l) lidx) (\<not> RowIsValid (uf_validity r) ridx))"

lemma boolean_row_step:
  "boolean_row OP l r i (d, m) = (store_bool i (snd (unified_op OP l r i)) d, Set i (\<not> fst (unified_op OP l r i)) m)"
  by (simp add: boolean_row_def unified_op_def Let_def case_prod_beta)

lemma length_store_bool [simp]: "length (store_bool i r d) = length d"
  by (simp add: store_bool_def split: option.splits)

lemma nth_store_bool: "j \<noteq> i \<Longrightarrow> store_bool i r d ! j = d ! j" "i < length d \<Longrightarrow> store_bool i (Some b) d ! i = bool_cell b"
  by (simp_all add: store_bool_def split: option.splits)

lemma boolean_rows:
  assumes "n \<le> length d" "mask_wf m" "n \<le> capacity m"
  shows "\<exists>d' m'. fold (boolean_row OP l r) [0..<n] (d, m) = (d', m') \<and> length d' = length d \<and> mask_wf m' \<and> capacity m' = capacity m \<and>
    (\<forall>i < n. RowIsValid m' i = (\<not> fst (unified_op OP l r i)) \<and> (\<forall>b. snd (unified_op OP l r i) = Some b \<longrightarrow> d' ! i = bool_cell b))"
  using assms
proof (induction n)
  case (Suc n)
  then obtain d' m' where "fold (boolean_row OP l r) [0..<n] (d, m) = (d', m')" "length d' = length d" "mask_wf m'" "capacity m' = capacity m"
    "\<forall>i < n. RowIsValid m' i = (\<not> fst (unified_op OP l r i)) \<and> (\<forall>b. snd (unified_op OP l r i) = Some b \<longrightarrow> d' ! i = bool_cell b)"
    by auto
  with Suc.prems show ?case
    by (auto simp: boolean_row_step RowIsValid_Set less_Suc_eq nth_store_bool)
qed auto

text \<open>The meaning of a row of AND and OR.\<close>

definition conj_row :: "bool \<Rightarrow> Vector \<Rightarrow> Vector \<Rightarrow> nat \<Rightarrow> cell option" where
  "conj_row is_and left right i = map_option CInt (sql_conj is_and (truth left i) (truth right i))"

lemma conj_row_op:
  assumes "Operation (ternary is_and) l r (vec_row left i = None) (vec_row right i = None) = (null, v)"
    and "\<And>c. vec_row left i = Some c \<Longrightarrow> l = byte_true c" "\<And>c. vec_row right i = Some c \<Longrightarrow> r = byte_true c"
  shows "null \<Longrightarrow> conj_row is_and left right i = None" and "\<not> null \<Longrightarrow> \<exists>b. v = Some b \<and> conj_row is_and left right i = Some (bool_cell b)"
  using ternary_Operation [OF assms] by (auto simp: conj_row_def truth_def bool_cell_def)

lemma unified_op_row:
  assumes "unified_row l i = vec_row left i" and "unified_row r i = vec_row right i"
  shows "fst (unified_op (ternary is_and) l r i) \<Longrightarrow> conj_row is_and left right i = None"
    and "\<not> fst (unified_op (ternary is_and) l r i) \<Longrightarrow>
      \<exists>b. snd (unified_op (ternary is_and) l r i) = Some b \<and> conj_row is_and left right i = Some (bool_cell b)"
proof -
  let ?li = "get_index (uf_sel l) i" and ?ri = "get_index (uf_sel r) i"
  have lr: "vec_row left i = (if RowIsValid (uf_validity l) ?li then Some (uf_data l ! ?li) else None)"
    "vec_row right i = (if RowIsValid (uf_validity r) ?ri then Some (uf_data r ! ?ri) else None)"
    using assms by (simp_all add: unified_row_def Let_def)
  have nulls: "(vec_row left i = None) = (\<not> RowIsValid (uf_validity l) ?li)" "(vec_row right i = None) = (\<not> RowIsValid (uf_validity r) ?ri)"
    unfolding lr by simp_all
  have eq: "Operation (ternary is_and) (byte_true (uf_data l ! ?li)) (byte_true (uf_data r ! ?ri)) (vec_row left i = None) (vec_row right i = None) =
      (fst (unified_op (ternary is_and) l r i), snd (unified_op (ternary is_and) l r i))"
    unfolding unified_op_def Let_def prod.collapse nulls ..
  note row = conj_row_op [OF eq]
  show "fst (unified_op (ternary is_and) l r i) \<Longrightarrow> conj_row is_and left right i = None"
    by (rule row(1)) (auto simp: lr split: if_splits)
  show "\<not> fst (unified_op (ternary is_and) l r i) \<Longrightarrow>
      \<exists>b. snd (unified_op (ternary is_and) l r i) = Some b \<and> conj_row is_and left right i = Some (bool_cell b)"
    by (rule row(2)) (auto simp: lr split: if_splits)
qed

lemma boolean_constant_rows:
  assumes "fresh_vec n res"
  shows "\<exists>v. TemplatedBooleanNullmask junk (ternary is_and) (Constant lt ld lm) (Constant rt rd rm) n res = Inr v \<and>
    GetType v = GetType res \<and> vec_ok n v \<and> (\<forall>i < n. vec_row v i = conj_row is_and (Constant lt ld lm) (Constant rt rd rm) i)"
  using assms
proof (rule fresh_vecE)
  fix t d m
  assume res: "res = Flat t d m" "scalar_type t" "n \<le> length d" "d \<noteq> []" "AllValid m" "mask_wf m" "n \<le> capacity m" "0 < capacity m"
  obtain null v where op: "Operation (ternary is_and) (byte_true (ld ! 0)) (byte_true (rd ! 0)) (\<not> RowIsValid lm 0) (\<not> RowIsValid rm 0) = (null, v)"
    using prod.exhaust by blast
  let ?v = "Constant t (store_bool 0 v d) (Set 0 (\<not> null) m)"
  have eq: "TemplatedBooleanNullmask junk (ternary is_and) (Constant lt ld lm) (Constant rt rd rm) n res = Inr ?v"
    using op res(1) by (simp add: TemplatedBooleanNullmask_def SetVectorType_def vec_data_def vec_validity_def ConstantVector_IsNull_def
        ConstantVector_SetNull_def split del: if_split)
  have nulls: "(vec_row (Constant lt ld lm) i = None) = (\<not> RowIsValid lm 0)" "(vec_row (Constant rt rd rm) i = None) = (\<not> RowIsValid rm 0)" for i
    by simp_all
  have op': "Operation (ternary is_and) (byte_true (ld ! 0)) (byte_true (rd ! 0))
      (vec_row (Constant lt ld lm) i = None) (vec_row (Constant rt rd rm) i = None) = (null, v)" for i
    unfolding nulls by (rule op)
  have row: "vec_row ?v i = conj_row is_and (Constant lt ld lm) (Constant rt rd rm) i" for i
  proof (cases null)
    case True
    then have "conj_row is_and (Constant lt ld lm) (Constant rt rd rm) i = None"
      by (intro conj_row_op(1) [OF op']) (auto split: if_splits)
    with True res show ?thesis by (simp add: RowIsValid_Set)
  next
    case False
    then have "\<exists>b. v = Some b \<and> conj_row is_and (Constant lt ld lm) (Constant rt rd rm) i = Some (bool_cell b)"
      by (intro conj_row_op(2) [OF op']) (auto split: if_splits)
    with False res show ?thesis by (auto simp: RowIsValid_Set nth_store_bool)
  qed
  show ?thesis
    using eq row res by auto
qed

lemma boolean_generic_rows:
  assumes res: "fresh_vec n res" and l: "ToUnifiedFormat junk n left = Inr l" "\<forall>i < n. unified_row l i = vec_row left i"
    and r: "ToUnifiedFormat junk n right = Inr r" "\<forall>i < n. unified_row r i = vec_row right i"
    and not_const: "\<not> (GetVectorType left = CONSTANT_VECTOR \<and> GetVectorType right = CONSTANT_VECTOR)"
  shows "\<exists>v. TemplatedBooleanNullmask junk (ternary is_and) left right n res = Inr v \<and>
    GetType v = GetType res \<and> vec_ok n v \<and> (\<forall>i < n. vec_row v i = conj_row is_and left right i)"
  using res
proof (rule fresh_vecE)
  fix t d m
  assume res: "res = Flat t d m" "scalar_type t" "n \<le> length d" "AllValid m" "mask_wf m" "n \<le> capacity m"
  let ?OP = "ternary is_and" and ?op = "unified_op (ternary is_and) l r"
  let ?b = "\<lambda>i. bool_cell (SimpleOperation ?OP (byte_true (uf_data l ! get_index (uf_sel l) i)) (byte_true (uf_data r ! get_index (uf_sel r) i)))"
  have row: "vec_row (Flat t d' m') i = conj_row is_and left right i"
    if "i < n" "RowIsValid m' i = (\<not> fst (?op i))" "\<forall>b. snd (?op i) = Some b \<longrightarrow> d' ! i = bool_cell b" for d' m' i
    using unified_op_row [of l i left r right is_and] l(2) r(2) that by (cases "fst (?op i)") auto
  show ?thesis
  proof (cases "AllValid (uf_validity l) \<and> AllValid (uf_validity r)")
    case True
    let ?d = "fold (\<lambda>i d. d[i := ?b i]) [0..<n] d"
    have op: "?op i = (False, Some (SimpleOperation ?OP (byte_true (uf_data l ! get_index (uf_sel l) i)) (byte_true (uf_data r ! get_index (uf_sel r) i))))" for i
      using True ternary_SimpleOperation by (simp add: unified_op_def Let_def AllValid_def RowIsValid_def)
    have d: "length ?d = length d" "\<forall>i < n. ?d ! i = ?b i"
      using fold_rows_nth [of n d "\<lambda>_. True" ?b] res(3) by simp_all
    have "TemplatedBooleanNullmask junk ?OP left right n res = Inr (Flat t ?d m)"
      using not_const l r res(1) True
      by (auto simp: TemplatedBooleanNullmask_def SetVectorType_def vec_data_def vec_validity_def Let_def split del: if_split)
    moreover have "vec_row (Flat t ?d m) i = conj_row is_and left right i" if "i < n" for i
      by (rule row [OF that]) (use op d that res(4) in \<open>simp_all add: AllValid_def RowIsValid_def\<close>)
    ultimately show ?thesis
      using d res by (auto simp del: vec_row.simps)
  next
    case False
    obtain d' m' where dm: "fold (boolean_row ?OP l r) [0..<n] (d, m) = (d', m')" "length d' = length d" "mask_wf m'" "capacity m' = capacity m"
      "\<forall>i < n. RowIsValid m' i = (\<not> fst (?op i)) \<and> (\<forall>b. snd (?op i) = Some b \<longrightarrow> d' ! i = bool_cell b)"
      using boolean_rows [OF res(3,5,6)] by blast
    have "TemplatedBooleanNullmask junk ?OP left right n res = Inr (Flat t d' m')"
      using not_const l r res(1) False dm(1)
      by (auto simp: TemplatedBooleanNullmask_def SetVectorType_def vec_data_def vec_validity_def Let_def split del: if_split)
    moreover have "vec_row (Flat t d' m') i = conj_row is_and left right i" if "i < n" for i
      by (rule row [OF that]) (use dm(5) that in auto)
    ultimately show ?thesis
      using dm res by (auto simp del: vec_row.simps)
  qed
qed

lemma boolean_rows_ok:
  assumes "vec_ok n left" and "vec_ok n right" and "fresh_vec n res"
  shows "\<exists>v. TemplatedBooleanNullmask junk (ternary is_and) left right n res = Inr v \<and>
    GetType v = GetType res \<and> vec_ok n v \<and> (\<forall>i < n. vec_row v i = conj_row is_and left right i)"
proof (cases "GetVectorType left = CONSTANT_VECTOR \<and> GetVectorType right = CONSTANT_VECTOR")
  case True
  then show ?thesis
    using boolean_constant_rows [OF assms(3)] by (cases left; cases right) simp_all
next
  case False
  obtain l r where "ToUnifiedFormat junk n left = Inr l" "ToUnifiedFormat junk n right = Inr r"
    "\<forall>i < n. unified_row l i = vec_row left i" "\<forall>i < n. unified_row r i = vec_row right i"
    using unified_rows [OF assms(1)] unified_rows [OF assms(2)] by blast
  with False show ?thesis using boolean_generic_rows [OF assms(3)] by blast
qed

text \<open>
  C31: AND and OR of two vectors, whatever their form, are SQL's three-valued AND and OR row by row: a FALSE
  (for OR a TRUE) on either side decides, otherwise a NULL makes the row NULL.
\<close>

theorem boolean_operators_rows:
  assumes "vec_ok n left" and "vec_ok n right" and "fresh_vec n res"
  shows "\<exists>v. (if is_and then VectorOperations_And junk left right n res else VectorOperations_Or junk left right n res) = Inr v \<and>
    vec_ok n v \<and> (\<forall>i < n. vec_row v i = map_option CInt (sql_conj is_and (truth left i) (truth right i)))"
  using boolean_rows_ok [OF assms, of junk is_and]
  by (auto simp: VectorOperations_And_def VectorOperations_Or_def conj_row_def split: if_splits)

definition ex_null :: Vector where
  "ex_null = Constant BOOLEAN [CInt 1] (SetInvalid 0 (Mask_Reset 64))"

lemma ex_null_ok [simp]: "vec_ok n ex_null" "vec_row ex_null i = None"
  by (simp_all add: ex_null_def scalar_type_def constant_size_type_def Mask_Reset_def RowIsValid_SetInvalid)

lemma ex_result [simp]: "n \<le> 64 \<Longrightarrow> fresh_vec n (Vector_Initialize junk BOOLEAN 64)"
  by (simp add: Vector_Initialize_def fresh_vec_def AllValid_def Mask_Reset_def scalar_type_def constant_size_type_def)

text \<open>Row 0 of \<open>ex_dict\<close> is TRUE, row 1 is FALSE: with NULL, AND gives NULL and FALSE.\<close>

theorem boolean_operators_rows_witness:
  "\<exists>v. VectorOperations_And (\<lambda>_. 0) ex_dict ex_null 3 (Vector_Initialize (\<lambda>_. 0) BOOLEAN 64) = Inr v \<and>
     vec_row v 0 = None \<and> vec_row v 1 = Some (CInt 0)"
proof -
  let ?res = "Vector_Initialize (\<lambda>_. 0) BOOLEAN 64"
  have rows: "truth ex_dict 0 = Some 1" "truth ex_dict 1 = Some 0" "truth ex_null i = None" for i
    by (simp_all add: truth_def ex_dict_def Mask_Reset_def get_index_def byte_true_def)
  have "fresh_vec 3 ?res" by simp
  then obtain v where v: "VectorOperations_And (\<lambda>_. 0) ex_dict ex_null 3 ?res = Inr v"
      "\<forall>i < 3. vec_row v i = map_option CInt (sql_conj True (truth ex_dict i) (truth ex_null i))"
    using boolean_operators_rows [OF ex_dict_ok ex_null_ok(1), of ?res True "\<lambda>_. 0"] by auto
  have "vec_row v 0 = None" "vec_row v 1 = Some (CInt 0)"
    using v(2) rows by (simp_all add: sql_conj_def)
  with v(1) show ?thesis by blast
qed

text \<open>NOT.\<close>

lemma not_rows:
  assumes "vec_ok n input" and "fresh_vec n res" and "0 < n"
  shows "\<exists>v. VectorOperations_Not junk dict_size input n res = Inr v \<and> vec_ok n v \<and>
    (\<forall>i < n. vec_row v i = map_option (\<lambda>c. bool_cell (\<not> byte_true c)) (vec_row input i))"
proof -
  have "un_row NotOperator input i = Inr (map_option (\<lambda>c. bool_cell (\<not> byte_true c)) (vec_row input i))" for i
    by (simp add: un_row_def NotOperator_def split: option.splits)
  then have "mapE (un_row NotOperator input) [0..<n] = Inr (map (\<lambda>i. map_option (\<lambda>c. bool_cell (\<not> byte_true c)) (vec_row input i)) [0..<n])"
    by (rule mapE_total)
  then show ?thesis
    using Unary_Execute_rows [OF assms, of False NotOperator dict_size junk]
    by (auto simp: executes_def VectorOperations_Not_def)
qed

section \<open>A conjunction is the three-valued combination of its children\<close>

definition sql_all :: "bool \<Rightarrow> int option list \<Rightarrow> int option" where
  "sql_all is_and xs =
     (if Some (of_bool (\<not> is_and)) \<in> set xs then Some (of_bool (\<not> is_and))
      else if None \<in> set xs then None
      else Some (of_bool is_and))"

lemma sql_all_Cons:
  "set (x # y # xs) \<subseteq> {None, Some 0, Some 1} \<Longrightarrow> sql_all a (sql_conj a y x # xs) = sql_all a (x # y # xs)"
  by (cases a) (auto simp: sql_all_def sql_conj_def)

lemma sql_all_single: "x \<in> {None, Some 0, Some 1} \<Longrightarrow> sql_all a [x] = x"
  by (cases a) (auto simp: sql_all_def)

lemma sql_conj_range: "sql_conj a x y \<in> {None, Some 0, Some 1}"
  by (cases a) (auto simp: sql_conj_def)

lemma truth_range: "truth v i \<in> {None, Some 0, Some 1}"
  by (cases "vec_row v i") (auto simp: truth_def)

lemma with_type_same [simp]: "GetType v = t \<Longrightarrow> with_type t v = v"
  by (cases v) auto

lemma truth_conj_row: "vec_row v i = conj_row is_and l r i \<Longrightarrow> truth v i = sql_conj is_and (truth l i) (truth r i)"
  using sql_conj_range [of is_and "truth l i" "truth r i"] by (auto simp: truth_def conj_row_def byte_true_def)

lemma conjunction_step:
  assumes "vec_ok n w" and "vec_ok n res" and "GetType res = BOOLEAN" and "n \<le> STANDARD_VECTOR_SIZE"
  shows "\<exists>v. (if is_and then VectorOperations_And junk w res n (Vector_Initialize junk BOOLEAN STANDARD_VECTOR_SIZE)
        else VectorOperations_Or junk w res n (Vector_Initialize junk BOOLEAN STANDARD_VECTOR_SIZE)) = Inr v \<and>
    Reference v res = Inr v \<and> vec_ok n v \<and> GetType v = BOOLEAN \<and>
    (\<forall>i < n. truth v i = sql_conj is_and (truth w i) (truth res i))"
proof -
  let ?init = "Vector_Initialize junk BOOLEAN STANDARD_VECTOR_SIZE"
  have "fresh_vec n ?init" "GetType ?init = BOOLEAN"
    using assms(4) by (simp_all add: Vector_Initialize_eq fresh_vec_def AllValid_def scalar_type_def constant_size_type_def)
  then obtain v where v: "TemplatedBooleanNullmask junk (ternary is_and) w res n ?init = Inr v" "GetType v = BOOLEAN" "vec_ok n v"
      "\<forall>i < n. vec_row v i = conj_row is_and w res i"
    using boolean_rows_ok [OF assms(1,2), of ?init junk is_and] by auto
  have eq: "(if is_and then VectorOperations_And junk w res n ?init else VectorOperations_Or junk w res n ?init) =
      TemplatedBooleanNullmask junk (ternary is_and) w res n ?init"
    by (simp add: VectorOperations_And_def VectorOperations_Or_def)
  show ?thesis
    unfolding eq using v assms(3) truth_conj_row by (auto simp: Reference_def ConstReference_def)
qed

lemma conjunction_loop_rows:
  assumes exec: "\<And>i w. exec i = Inr w \<Longrightarrow> vec_ok n w \<and> GetType w = BOOLEAN" and n: "n \<le> STANDARD_VECTOR_SIZE"
    and "0 \<notin> set idxs" and "vec_ok n res" and "GetType res = BOOLEAN"
  shows "case mapE exec idxs of
      Inl e \<Rightarrow> conjunction_loop junk is_and exec n idxs res = Inl e
    | Inr ws \<Rightarrow> \<exists>v. conjunction_loop junk is_and exec n idxs res = Inr v \<and> vec_ok n v \<and>
        (\<forall>i < n. truth v i = sql_all is_and (truth res i # map (\<lambda>w. truth w i) ws))"
  using assms(3-)
proof (induction idxs arbitrary: res)
  case Nil
  then show ?case using sql_all_single [OF truth_range] by auto
next
  case (Cons j js)
  show ?case
  proof (cases "exec j")
    case (Inr w)
    then have w: "vec_ok n w" "j \<noteq> 0" using exec Cons.prems(1) by auto
    obtain v where v: "(if is_and then VectorOperations_And junk w res n (Vector_Initialize junk BOOLEAN STANDARD_VECTOR_SIZE)
        else VectorOperations_Or junk w res n (Vector_Initialize junk BOOLEAN STANDARD_VECTOR_SIZE)) = Inr v"
      "Reference v res = Inr v" "vec_ok n v" "GetType v = BOOLEAN" "\<forall>i < n. truth v i = sql_conj is_and (truth w i) (truth res i)"
      using conjunction_step [OF w(1) Cons.prems(2,3) n] by blast
    have step: "conjunction_loop junk is_and exec n (j # js) res = conjunction_loop junk is_and exec n js v"
      using Inr w(2) v(1,2) by (simp add: Let_def split del: if_split)
    have all: "sql_all is_and (truth v i # map (\<lambda>w. truth w i) ws) = sql_all is_and (truth res i # truth w i # map (\<lambda>w. truth w i) ws)"
      if "i < n" for i ws
    proof -
      have "set (truth res i # truth w i # map (\<lambda>w. truth w i) ws) \<subseteq> {None, Some 0, Some 1}"
        using truth_range by (simp only: list.set set_map insert_subset image_subset_iff) blast
      then show ?thesis using sql_all_Cons v(5) that by simp
    qed
    show ?thesis
      using Cons.IH [of v] Cons.prems(1) v(3,4) Inr all unfolding step
      by (cases "mapE exec js") (auto simp del: conjunction_loop.simps)
  qed simp
qed

text \<open>
  Executing a conjunction combines all its children in SQL's three-valued logic: an AND is FALSE where
  some child is FALSE, else NULL where some child is NULL, else TRUE, and dually for OR. A child that
  throws makes the conjunction throw the error of the first child that does, even when earlier children
  decide every row: there is no short circuit between the children here.
\<close>

theorem conjunction_execute_rows:
  assumes "\<forall>i w. exec i = Inr w \<longrightarrow> vec_ok n w \<and> GetType w = BOOLEAN" and "n \<le> STANDARD_VECTOR_SIZE"
    and "0 < children" and "GetType res = BOOLEAN"
  shows "case mapE exec [0..<children] of
      Inl e \<Rightarrow> Execute_Conjunction junk is_and exec children n res = Inl e
    | Inr ws \<Rightarrow> \<exists>v. Execute_Conjunction junk is_and exec children n res = Inr v \<and> vec_ok n v \<and>
        (\<forall>i < n. truth v i = sql_all is_and (map (\<lambda>w. truth w i) ws))"
proof -
  have upt: "[0..<children] = 0 # [1..<children]" using assms(3) by (simp add: upt_rec)
  show ?thesis
  proof (cases "exec 0")
    case (Inr w)
    then have w: "vec_ok n w" "GetType w = BOOLEAN" "Reference w res = Inr w"
      using assms(1,4) by (auto simp: Reference_def ConstReference_def)
    have "Execute_Conjunction junk is_and exec children n res = conjunction_loop junk is_and exec n [1..<children] w"
      using Inr w(3) unfolding Execute_Conjunction_def upt by simp
    then show ?thesis
      using conjunction_loop_rows [OF assms(1) [rule_format] assms(2) _ w(1,2), where exec = exec and idxs = "[1..<children]" and junk = junk and is_and = is_and] Inr unfolding upt
      by (cases "mapE exec [1..<children]") auto
  qed (simp add: Execute_Conjunction_def upt)
qed

theorem conjunction_execute_rows_witness:
  "(let exec = (\<lambda>i. Inr (if i = 0 then ex_dict else ex_null)) in
    \<exists>v. Execute_Conjunction (\<lambda>_. 0) False exec 2 3 ex_dict = Inr v \<and> truth v 0 = Some 1 \<and> truth v 1 = None)"
proof -
  let ?exec = "\<lambda>i :: nat. Inr (if i = 0 then ex_dict else ex_null) :: Vector result"
  have ok: "\<forall>i w. ?exec i = Inr w \<longrightarrow> vec_ok 3 w \<and> GetType w = BOOLEAN"
    using ex_dict_ok ex_null_ok(1) [of 3] by (auto simp: ex_dict_def ex_null_def)
  have ty: "GetType ex_dict = BOOLEAN" by (simp add: ex_dict_def)
  have rows: "truth ex_dict 0 = Some 1" "truth ex_dict 1 = Some 0" "truth ex_null i = None" for i
    by (simp_all add: truth_def ex_dict_def Mask_Reset_def get_index_def byte_true_def)
  have "mapE ?exec [0..<2] = Inr [ex_dict, ex_null]" by (simp add: upt_rec)
  then obtain v where "Execute_Conjunction (\<lambda>_. 0) False ?exec 2 3 ex_dict = Inr v"
      "\<forall>i < 3. truth v i = sql_all False (map (\<lambda>w. truth w i) [ex_dict, ex_null])"
    using conjunction_execute_rows [where exec = ?exec and children = 2 and junk = "\<lambda>_. 0" and is_and = False, OF ok _ _ ty] by auto
  then show ?thesis
    using rows by (auto simp: Let_def sql_all_def)
qed

end
