(* ===== verification/Comparison_Operators.thy ===== *)
theory Comparison_Operators
  imports Binary_Executor Boolean_Operators
begin

text \<open>
  Comparisons: of single values (\<open>comparison_operators.hpp\<close>, the float versions of
  \<open>comparison_operators.cpp\<close>, strings in \<open>string_type.hpp\<close>), of vectors (\<open>VectorOperations::Equals\<close> and its
  siblings) and as filters (\<open>TemplatedSelectOperation\<close> of \<open>execute_comparison.cpp\<close>). Floats are bit
  patterns with the IEEE order; DuckDB puts NaN above every number and equal to itself. Strings are
  compared by their first four bytes as one big-endian number before the bytes are looked at.

  The comparisons of nested types and intervals are an argument of the vector operations.
\<close>

section \<open>Floats\<close>

text \<open>Sign, magnitude and NaN of a bit pattern; IEEE comparison is false as soon as one side is NaN.\<close>

definition float_key :: "nat \<Rightarrow> int \<Rightarrow> int" where
  "float_key bits w = (if bit w (bits - 1) then - take_bit (bits - 1) w else take_bit (bits - 1) w)"

definition IsNan :: "nat \<Rightarrow> int \<Rightarrow> int \<Rightarrow> bool" where
  "IsNan bits infty w \<longleftrightarrow> take_bit (bits - 1) w > infty"

definition ieee_eq :: "nat \<Rightarrow> int \<Rightarrow> int \<Rightarrow> int \<Rightarrow> bool" where
  "ieee_eq bits infty l r \<longleftrightarrow> \<not> IsNan bits infty l \<and> \<not> IsNan bits infty r \<and> float_key bits l = float_key bits r"

definition ieee_gt :: "nat \<Rightarrow> int \<Rightarrow> int \<Rightarrow> int \<Rightarrow> bool" where
  "ieee_gt bits infty l r \<longleftrightarrow> \<not> IsNan bits infty l \<and> \<not> IsNan bits infty r \<and> float_key bits l > float_key bits r"

definition ieee_ge :: "nat \<Rightarrow> int \<Rightarrow> int \<Rightarrow> int \<Rightarrow> bool" where
  "ieee_ge bits infty l r \<longleftrightarrow> \<not> IsNan bits infty l \<and> \<not> IsNan bits infty r \<and> float_key bits l \<ge> float_key bits r"

definition EqualsFloat :: "nat \<Rightarrow> int \<Rightarrow> int \<Rightarrow> int \<Rightarrow> bool" where
  "EqualsFloat bits infty left right =
     (if IsNan bits infty left \<and> IsNan bits infty right then True else ieee_eq bits infty left right)"

definition GreaterThanFloat :: "nat \<Rightarrow> int \<Rightarrow> int \<Rightarrow> int \<Rightarrow> bool" where
  "GreaterThanFloat bits infty left right =
     (let left_is_nan = IsNan bits infty left; right_is_nan = IsNan bits infty right in
      if right_is_nan then False else if left_is_nan then True else ieee_gt bits infty left right)"

definition GreaterThanEqualsFloat :: "nat \<Rightarrow> int \<Rightarrow> int \<Rightarrow> int \<Rightarrow> bool" where
  "GreaterThanEqualsFloat bits infty left right =
     (let left_is_nan = IsNan bits infty left; right_is_nan = IsNan bits infty right in
      if right_is_nan then left_is_nan else if left_is_nan then True else ieee_ge bits infty left right)"

abbreviation INF32 :: int where "INF32 \<equiv> 0x7F800000"
abbreviation INF64 :: int where "INF64 \<equiv> 0x7FF0000000000000"

section \<open>Strings\<close>

text \<open>The first four bytes, zero-padded, and the next eight of a string of at most twelve.\<close>

definition GetPrefix :: "8 word list \<Rightarrow> 8 word list" where
  "GetPrefix s = take 4 (s @ replicate 4 0)"

definition inlined_rest :: "8 word list \<Rightarrow> 8 word list" where
  "inlined_rest s = take 8 (drop 4 (s @ replicate 12 0))"

text \<open>\<open>BSwapIfLE\<close> of the four prefix bytes loaded as an integer: their big-endian value.\<close>

definition prefix_value :: "8 word list \<Rightarrow> nat" where
  "prefix_value s = foldl (\<lambda>v b. 256 * v + unat b) 0 (GetPrefix s)"

definition string_Equals :: "8 word list \<Rightarrow> 8 word list \<Rightarrow> bool" where
  "string_Equals a b =
     (if length a \<noteq> length b \<or> GetPrefix a \<noteq> GetPrefix b then False
      else if length a \<le> 12 then inlined_rest a = inlined_rest b
      else a = b)"

text \<open>\<open>memcmp\<close> of the first \<open>n\<close> bytes: the sign of the first difference.\<close>

fun memcmp :: "nat \<Rightarrow> 8 word list \<Rightarrow> 8 word list \<Rightarrow> int" where
  "memcmp (Suc n) (a # as) (b # bs) = (if a = b then memcmp n as bs else if a > b then 1 else - 1)"
| "memcmp _ _ _ = 0"

definition string_GreaterThan :: "8 word list \<Rightarrow> 8 word list \<Rightarrow> bool" where
  "string_GreaterThan left right =
     (let min_length = min (length left) (length right) in
      if GetPrefix left \<noteq> GetPrefix right then prefix_value left > prefix_value right
      else
        let memcmp_res = memcmp min_length left right in
        memcmp_res > 0 \<or> memcmp_res = 0 \<and> length left > length right)"

section \<open>Values\<close>

definition Equals :: "cell \<Rightarrow> cell \<Rightarrow> bool" where
  "Equals left right =
     (case (left, right) of
        (CInt a, CInt b) \<Rightarrow> a = b
      | (CFloat a, CFloat b) \<Rightarrow> EqualsFloat 32 INF32 (uint a) (uint b)
      | (CDouble a, CDouble b) \<Rightarrow> EqualsFloat 64 INF64 (uint a) (uint b)
      | (CString a, CString b) \<Rightarrow> string_Equals a b
      | _ \<Rightarrow> False)"

definition NotEquals :: "cell \<Rightarrow> cell \<Rightarrow> bool" where
  "NotEquals left right = (\<not> Equals left right)"

definition GreaterThan :: "cell \<Rightarrow> cell \<Rightarrow> bool" where
  "GreaterThan left right =
     (case (left, right) of
        (CInt a, CInt b) \<Rightarrow> a > b
      | (CFloat a, CFloat b) \<Rightarrow> GreaterThanFloat 32 INF32 (uint a) (uint b)
      | (CDouble a, CDouble b) \<Rightarrow> GreaterThanFloat 64 INF64 (uint a) (uint b)
      | (CString a, CString b) \<Rightarrow> string_GreaterThan a b
      | _ \<Rightarrow> False)"

definition GreaterThanEquals :: "cell \<Rightarrow> cell \<Rightarrow> bool" where
  "GreaterThanEquals left right =
     (case (left, right) of
        (CFloat a, CFloat b) \<Rightarrow> GreaterThanEqualsFloat 32 INF32 (uint a) (uint b)
      | (CDouble a, CDouble b) \<Rightarrow> GreaterThanEqualsFloat 64 INF64 (uint a) (uint b)
      | _ \<Rightarrow> \<not> GreaterThan right left)"

definition LessThan :: "cell \<Rightarrow> cell \<Rightarrow> bool" where
  "LessThan left right = GreaterThan right left"

definition LessThanEquals :: "cell \<Rightarrow> cell \<Rightarrow> bool" where
  "LessThanEquals left right = (\<not> GreaterThan left right)"

section \<open>The order of floats\<close>

text \<open>The position of a bit pattern: its signed magnitude, and NaN above infinity.\<close>

definition float_rank :: "nat \<Rightarrow> int \<Rightarrow> int \<Rightarrow> int" where
  "float_rank bits infty w = (if IsNan bits infty w then infty + 1 else float_key bits w)"

lemma float_key_le: "\<not> IsNan bits infty w \<Longrightarrow> 0 \<le> infty \<Longrightarrow> float_key bits w \<le> infty"
proof -
  assume "\<not> IsNan bits infty w" "0 \<le> infty"
  moreover have "0 \<le> take_bit (bits - 1) w" by simp
  ultimately show ?thesis unfolding IsNan_def float_key_def by (simp only: split: if_split) linarith
qed

lemma float_rank_nan: "0 \<le> infty \<Longrightarrow> IsNan bits infty w \<longleftrightarrow> float_rank bits infty w = infty + 1"
  using float_key_le [of bits infty w] by (auto simp: float_rank_def)

lemma float_rank_le: "0 \<le> infty \<Longrightarrow> float_rank bits infty w \<le> infty + 1"
  using float_key_le [of bits infty w] by (auto simp: float_rank_def)

lemma float_order:
  assumes "0 \<le> infty"
  shows "EqualsFloat bits infty l r \<longleftrightarrow> float_rank bits infty l = float_rank bits infty r"
    and "GreaterThanFloat bits infty l r \<longleftrightarrow> float_rank bits infty l > float_rank bits infty r"
    and "GreaterThanEqualsFloat bits infty l r \<longleftrightarrow> float_rank bits infty l \<ge> float_rank bits infty r"
proof -
  note nan = float_rank_nan [OF assms, of bits] and le = float_rank_le [OF assms, of bits]
  have key: "\<not> IsNan bits infty w \<Longrightarrow> float_key bits w = float_rank bits infty w" for w by (simp add: float_rank_def)
  show "EqualsFloat bits infty l r \<longleftrightarrow> float_rank bits infty l = float_rank bits infty r"
    using nan [of l] nan [of r] key by (auto simp: EqualsFloat_def ieee_eq_def)
  show "GreaterThanFloat bits infty l r \<longleftrightarrow> float_rank bits infty l > float_rank bits infty r"
    using nan [of l] nan [of r] le [of l] le [of r] key by (auto simp: GreaterThanFloat_def ieee_gt_def)
  show "GreaterThanEqualsFloat bits infty l r \<longleftrightarrow> float_rank bits infty l \<ge> float_rank bits infty r"
    using nan [of l] nan [of r] le [of l] le [of r] key by (auto simp: GreaterThanEqualsFloat_def ieee_ge_def)
qed

section \<open>The order of strings\<close>

abbreviation string_less :: "8 word list \<Rightarrow> 8 word list \<Rightarrow> bool" where
  "string_less a b \<equiv> (a, b) \<in> lexord {(x, y). x < y}"

lemma memcmp_lexord:
  "memcmp (min (length a) (length b)) a b > 0 \<or> memcmp (min (length a) (length b)) a b = 0 \<and> length a > length b \<longleftrightarrow> string_less b a"
proof (induction a arbitrary: b)
  case Nil
  then show ?case by simp
next
  case (Cons x xs)
  then show ?case by (cases b) auto
qed

definition padded :: "nat \<Rightarrow> 8 word list \<Rightarrow> 8 word list" where
  "padded k s = take k (s @ replicate k 0)"

definition be_value :: "8 word list \<Rightarrow> nat" where
  "be_value = foldl (\<lambda>v b. 256 * v + unat b) 0"

lemma padded_Suc [simp]:
  "padded (Suc k) [] = 0 # padded k []" "padded (Suc k) (x # s) = x # padded k s" "padded 0 s = []" "length (padded k s) = k"
proof -
  have "replicate (Suc k) (0 :: 8 word) = replicate k 0 @ [0]" by (simp only: replicate_Suc replicate_append_same)
  then show "padded (Suc k) (x # s) = x # padded k s" by (simp add: padded_def)
qed (simp_all add: padded_def)

lemma be_foldl: "foldl (\<lambda>v b. 256 * v + unat b) v s = v * 256 ^ length s + foldl (\<lambda>v b. 256 * v + unat b) 0 (s :: 8 word list)"
proof (induction s arbitrary: v)
  case (Cons b s)
  show ?case using Cons.IH [of "256 * v + unat b"] Cons.IH [of "unat b"] by (simp add: algebra_simps)
qed simp

lemma be_Cons [simp]: "be_value (b # s) = unat b * 256 ^ length s + be_value s"
  using be_foldl [of "unat b" s] by (simp add: be_value_def)

lemma be_value_less: "be_value s < 256 ^ length s"
proof (induction s)
  case (Cons b s)
  have "unat b < 256" using unsigned_less [of b] by simp
  then have "unat b \<le> 255" by simp
  then have "unat b * 256 ^ length s \<le> 255 * 256 ^ length s" by (rule mult_right_mono) simp
  then show ?case unfolding be_Cons length_Cons power_Suc using Cons.IH by linarith
qed (simp add: be_value_def)

lemma be_compare:
  fixes x y :: nat
  assumes "v < b" "w < b" "x \<noteq> y"
  shows "x * b + v > y * b + w \<longleftrightarrow> x > y"
proof
  assume "y < x"
  then have "(y + 1) * b \<le> x * b" by (intro mult_right_mono) auto
  with assms show "x * b + v > y * b + w" by simp
next
  assume gt: "x * b + v > y * b + w"
  show "y < x"
  proof (rule ccontr)
    assume "\<not> y < x"
    then have "(x + 1) * b \<le> y * b" using assms(3) by (intro mult_right_mono) auto
    with assms gt show False by simp
  qed
qed

lemma prefix_order: "padded k a \<noteq> padded k b \<Longrightarrow> be_value (padded k a) > be_value (padded k b) \<longleftrightarrow> string_less b a"
proof (induction k arbitrary: a b)
  case (Suc k)
  define x y xs ys where "x = (case a of [] \<Rightarrow> 0 | x # _ \<Rightarrow> x)" and "y = (case b of [] \<Rightarrow> 0 | y # _ \<Rightarrow> y)"
    and "xs = tl a" and "ys = tl b"
  have p: "padded (Suc k) a = x # padded k xs" "padded (Suc k) b = y # padded k ys"
    by (cases a; simp add: x_def xs_def) (cases b; simp add: y_def ys_def)
  show ?case
  proof (cases "x = y")
    case True
    then have "padded k xs \<noteq> padded k ys" using Suc.prems p by simp
    then have IH: "be_value (padded k xs) > be_value (padded k ys) \<longleftrightarrow> string_less ys xs" by (rule Suc.IH)
    have "string_less ys xs \<longleftrightarrow> string_less b a"
      using \<open>padded k xs \<noteq> padded k ys\<close> True
      by (cases a; cases b; cases xs; cases ys) (auto simp: x_def y_def xs_def ys_def)
    with IH True p show ?thesis by simp
  next
    case False
    have "be_value (padded (Suc k) a) > be_value (padded (Suc k) b) \<longleftrightarrow> unat x > unat y"
      unfolding p be_Cons padded_Suc(4)
      using be_compare [of "be_value (padded k xs)" "256 ^ k" "be_value (padded k ys)" "unat x" "unat y"]
        be_value_less [of "padded k xs"] be_value_less [of "padded k ys"] False by (simp add: word_unat_eq_iff)
    also have "\<dots> \<longleftrightarrow> string_less b a"
      using False by (cases a; cases b) (auto simp: x_def y_def word_less_nat_alt unat_gt_0)
    finally show ?thesis .
  qed
qed simp

lemma string_order: "string_GreaterThan a b \<longleftrightarrow> string_less b a"
proof -
  have p: "GetPrefix s = padded 4 s" "prefix_value s = be_value (padded 4 s)" for s
    by (simp_all add: GetPrefix_def padded_def prefix_value_def be_value_def)
  show ?thesis
    using prefix_order [of 4 a b] memcmp_lexord [of a b] by (auto simp: string_GreaterThan_def p Let_def)
qed

lemma string_equal: "string_Equals a b \<longleftrightarrow> a = b"
proof -
  have split: "take 12 (s @ replicate 12 0) = GetPrefix s @ inlined_rest s" for s :: "8 word list"
  proof -
    have "take 4 (s @ replicate 4 0) = take 4 (s @ replicate 12 (0 :: 8 word))" by simp
    then show ?thesis
      unfolding GetPrefix_def inlined_rest_def using take_add [of 4 8 "s @ replicate 12 (0 :: 8 word)"] by simp
  qed
  have "a = b" if "length a = length b" "GetPrefix a = GetPrefix b" "length a \<le> 12" "inlined_rest a = inlined_rest b"
  proof -
    have "take 12 (a @ replicate 12 0) = take 12 (b @ replicate 12 0)" using that by (simp only: split)
    then have "take (length a) (take 12 (a @ replicate 12 0)) = take (length a) (take 12 (b @ replicate 12 0))" by simp
    with that show ?thesis by (simp add: min_def split: if_splits)
  qed
  then show ?thesis by (auto simp: string_Equals_def)
qed

section \<open>One order for every type\<close>

lemma string_less_laws:
  "\<not> string_less a a" "string_less a b \<Longrightarrow> string_less b c \<Longrightarrow> string_less a c" "string_less a b \<or> a = b \<or> string_less b a"
proof -
  show "\<not> string_less a a" by (rule lexord_irreflexive) auto
  show "string_less a b \<Longrightarrow> string_less b c \<Longrightarrow> string_less a c" by (rule lexord_trans) (auto simp: trans_def)
  show "string_less a b \<or> a = b \<or> string_less b a" by (rule lexord_linear) auto
qed

interpretation float32: strict_weak_order "\<lambda>a b. GreaterThanFloat 32 INF32 b a"
  by unfold_locales (auto simp: float_order)

interpretation float64: strict_weak_order "\<lambda>a b. GreaterThanFloat 64 INF64 b a"
  by unfold_locales (auto simp: float_order)

interpretation strings: strict_weak_order "\<lambda>a b. string_GreaterThan b a"
  by unfold_locales (use string_less_laws in \<open>unfold string_order, blast+\<close>)

text \<open>Two values of one physical type.\<close>

fun same_kind :: "cell \<Rightarrow> cell \<Rightarrow> bool" where
  "same_kind (CInt a) (CInt b) = True"
| "same_kind (CFloat a) (CFloat b) = True"
| "same_kind (CDouble a) (CDouble b) = True"
| "same_kind (CString a) (CString b) = True"
| "same_kind _ _ = False"

lemma string_trichotomy: "a = b \<longleftrightarrow> \<not> string_less b a \<and> \<not> string_less a b" "\<not> (string_less b a \<and> string_less a b)"
  using string_less_laws by blast+

lemmas order_defs = Equals_def GreaterThan_def GreaterThanEquals_def float_order string_order string_equal

lemma same_kind_order:
  assumes "same_kind l r"
  shows "Equals l r \<longleftrightarrow> \<not> GreaterThan l r \<and> \<not> GreaterThan r l" and "\<not> (GreaterThan l r \<and> GreaterThan r l)"
    and "GreaterThanEquals l r \<longleftrightarrow> \<not> GreaterThan r l"
  using assms string_trichotomy
  by (cases l; cases r; simp add: order_defs; linarith)+

lemma same_kind_trans:
  assumes "same_kind l r" "same_kind r s" "GreaterThan l r" "GreaterThan r s"
  shows "GreaterThan l s"
proof (cases l)
  case (CString a)
  then obtain b c where "r = CString b" "s = CString c" using assms(1,2) by (cases r; cases s) simp_all
  with CString assms(3,4) string_less_laws(2) [of c b a] show ?thesis by (simp add: order_defs)
qed (use assms in \<open>cases r; cases s; simp add: order_defs; linarith\<close>)+

text \<open>
  C37: The comparison operators form one total order on the values of each type: of \<open>>\<close>, \<open>=\<close> and \<open><\<close> exactly one
  holds, the other three are their negations, and \<open>>\<close> is transitive. For floats, NaN is equal to itself
  and above everything, and the two zeros are equal; for strings, the comparison of the zero-padded
  four-byte prefixes does not change the byte order.
\<close>

theorem comparison_operators_order:
  assumes "same_kind l r" and "same_kind r s"
  shows "(if GreaterThan l r then \<not> Equals l r \<and> \<not> LessThan l r else Equals l r \<noteq> LessThan l r) \<and>
    NotEquals l r = (\<not> Equals l r) \<and> GreaterThanEquals l r = (\<not> LessThan l r) \<and> LessThanEquals l r = (\<not> GreaterThan l r) \<and>
    (GreaterThan l r \<and> GreaterThan r s \<longrightarrow> GreaterThan l s)"
  using same_kind_order [OF assms(1)] same_kind_trans [OF assms]
  by (auto simp: LessThan_def NotEquals_def LessThanEquals_def)

text \<open>A NaN is above infinity; the empty string is below the string of one zero byte.\<close>

theorem comparison_operators_order_witness:
  "GreaterThan (CDouble 0x7FF8000000000000) (CDouble 0x7FF0000000000000) \<and>
   \<not> LessThan (CDouble 0x7FF8000000000000) (CDouble 0x7FF0000000000000) \<and>
   LessThan (CString []) (CString [0]) \<and> \<not> Equals (CString []) (CString [0])"
proof -
  have 1: "GreaterThan (CDouble 0x7FF8000000000000) (CDouble 0x7FF0000000000000)"
    by (simp add: GreaterThan_def GreaterThanFloat_def IsNan_def Let_def)
  have 2: "\<not> GreaterThan (CString []) (CString [0])" "\<not> Equals (CString []) (CString [0])"
    by (simp_all add: GreaterThan_def string_order Equals_def string_equal)
  show ?thesis
    using comparison_operators_order [of "CDouble 0x7FF8000000000000" "CDouble 0x7FF0000000000000" "CDouble 0"]
      comparison_operators_order [of "CString []" "CString [0]" "CString []"] 1 2 by (auto split: if_splits)
qed

section \<open>Vectors\<close>

text \<open>
  The physical types with a loop of their own, and those compared element by element. INTERVAL has a
  loop as well; its comparison is not modelled, so it is left to the argument for nested values.
\<close>

definition loop_type :: "PhysicalType \<Rightarrow> bool" where
  "loop_type pt \<longleftrightarrow> pt \<in> {PT_BOOL, PT_INT8, PT_INT16, PT_INT32, PT_INT64, PT_UINT8, PT_UINT16, PT_UINT32, PT_UINT64,
     PT_INT128, PT_UINT128, PT_FLOAT, PT_DOUBLE, PT_VARCHAR}"

definition nested_type :: "PhysicalType \<Rightarrow> bool" where
  "nested_type pt \<longleftrightarrow> pt \<in> {PT_LIST, PT_STRUCT, PT_ARRAY, PT_INTERVAL}"

type_synonym nested_compare = "ExpressionType \<Rightarrow> Vector \<Rightarrow> Vector \<Rightarrow> nat \<Rightarrow> Vector \<Rightarrow> Vector result"

definition ComparisonExecutor_Execute ::
    "nested_compare \<Rightarrow> bool \<Rightarrow> junk \<Rightarrow> ExpressionType \<Rightarrow> (cell \<Rightarrow> cell \<Rightarrow> bool) \<Rightarrow> Vector \<Rightarrow> Vector \<Rightarrow> nat \<Rightarrow> Vector \<Rightarrow> Vector result" where
  "ComparisonExecutor_Execute nested same_buffer junk et OP left right cnt res =
     (let pt = InternalType (GetType left) in
      if loop_type pt then Binary_Execute same_buffer junk (\<lambda>a b. Inr (bool_cell (OP a b))) left right cnt res
      else if nested_type pt then nested et left right cnt res
      else Inl InternalException)"

definition VectorOperations_Equals :: "nested_compare \<Rightarrow> bool \<Rightarrow> junk \<Rightarrow> Vector \<Rightarrow> Vector \<Rightarrow> nat \<Rightarrow> Vector \<Rightarrow> Vector result" where
  "VectorOperations_Equals nested same junk left right = ComparisonExecutor_Execute nested same junk ET_COMPARE_EQUAL Equals left right"

definition VectorOperations_NotEquals :: "nested_compare \<Rightarrow> bool \<Rightarrow> junk \<Rightarrow> Vector \<Rightarrow> Vector \<Rightarrow> nat \<Rightarrow> Vector \<Rightarrow> Vector result" where
  "VectorOperations_NotEquals nested same junk left right =
     ComparisonExecutor_Execute nested same junk ET_COMPARE_NOTEQUAL NotEquals left right"

definition VectorOperations_GreaterThanEquals :: "nested_compare \<Rightarrow> bool \<Rightarrow> junk \<Rightarrow> Vector \<Rightarrow> Vector \<Rightarrow> nat \<Rightarrow> Vector \<Rightarrow> Vector result" where
  "VectorOperations_GreaterThanEquals nested same junk left right =
     ComparisonExecutor_Execute nested same junk ET_COMPARE_GREATERTHANOREQUALTO GreaterThanEquals left right"

definition VectorOperations_LessThanEquals :: "nested_compare \<Rightarrow> bool \<Rightarrow> junk \<Rightarrow> Vector \<Rightarrow> Vector \<Rightarrow> nat \<Rightarrow> Vector \<Rightarrow> Vector result" where
  "VectorOperations_LessThanEquals nested same junk left right =
     ComparisonExecutor_Execute nested same junk ET_COMPARE_GREATERTHANOREQUALTO GreaterThanEquals right left"

definition VectorOperations_GreaterThan :: "nested_compare \<Rightarrow> bool \<Rightarrow> junk \<Rightarrow> Vector \<Rightarrow> Vector \<Rightarrow> nat \<Rightarrow> Vector \<Rightarrow> Vector result" where
  "VectorOperations_GreaterThan nested same junk left right =
     ComparisonExecutor_Execute nested same junk ET_COMPARE_GREATERTHAN GreaterThan left right"

definition VectorOperations_LessThan :: "nested_compare \<Rightarrow> bool \<Rightarrow> junk \<Rightarrow> Vector \<Rightarrow> Vector \<Rightarrow> nat \<Rightarrow> Vector \<Rightarrow> Vector result" where
  "VectorOperations_LessThan nested same junk left right =
     ComparisonExecutor_Execute nested same junk ET_COMPARE_GREATERTHAN GreaterThan right left"

section \<open>Filters\<close>

text \<open>Marks the rows in which the vector is NULL, under their row numbers.\<close>

definition UpdateNullMask :: "junk \<Rightarrow> Vector \<Rightarrow> SelectionVector \<Rightarrow> nat \<Rightarrow> ValidityMask \<Rightarrow> ValidityMask result" where
  "UpdateNullMask junk vec sel cnt null_mask =
     bindE (ToUnifiedFormat junk cnt vec) (\<lambda>vdata.
       if AllValid (uf_validity vdata) then Inr null_mask
       else Inr (fold (\<lambda>i m. if RowIsValid (uf_validity vdata) (get_index (uf_sel vdata) i) then m else SetInvalid (get_index sel i) m)
                  [0..<cnt] null_mask))"

type_synonym nested_select =
  "ExpressionType \<Rightarrow> Vector \<Rightarrow> Vector \<Rightarrow> selref \<Rightarrow> nat \<Rightarrow> SelectionVector option \<Rightarrow> SelectionVector option \<Rightarrow> select_output result"

definition ref_sel :: "selref \<Rightarrow> SelectionVector option \<Rightarrow> SelectionVector option \<Rightarrow> SelectionVector" where
  "ref_sel ref ts fs = (case ref of SelFixed s \<Rightarrow> s | SelTrue \<Rightarrow> the ts | SelFalse \<Rightarrow> the fs)"

definition TemplatedSelectOperation ::
    "nested_select \<Rightarrow> bool \<Rightarrow> junk \<Rightarrow> ExpressionType \<Rightarrow> (cell \<Rightarrow> cell \<Rightarrow> bool) \<Rightarrow> Vector \<Rightarrow> Vector \<Rightarrow> selref \<Rightarrow> nat
      \<Rightarrow> SelectionVector option \<Rightarrow> SelectionVector option \<Rightarrow> ValidityMask option \<Rightarrow> (select_output \<times> ValidityMask option) result" where
  "TemplatedSelectOperation nested same_buffer junk et OP left right sel cnt ts fs null_mask =
     bindE (case null_mask of
              None \<Rightarrow> Inr None
            | Some m \<Rightarrow>
                bindE (UpdateNullMask junk left (ref_sel sel ts fs) cnt m) (\<lambda>m.
                bindE (UpdateNullMask junk right (ref_sel sel ts fs) cnt m) (\<lambda>m. Inr (Some m)))) (\<lambda>null_mask.
       let pt = InternalType (GetType left) in
       bindE (if loop_type pt then Binary_Select same_buffer junk OP left right sel cnt ts fs
              else if nested_type pt then nested et left right sel cnt ts fs
              else Inl InternalException) (\<lambda>r. Inr (r, null_mask)))"

section \<open>Comparisons by rows\<close>

lemma fold_SetInvalid_at:
  assumes "mask_wf m" and "\<forall>i < n. f i < capacity m"
  shows "mask_wf (fold (\<lambda>i m. if V i then m else SetInvalid (f i) m) [0..<n] m) \<and>
    capacity (fold (\<lambda>i m. if V i then m else SetInvalid (f i) m) [0..<n] m) = capacity m \<and>
    (\<forall>r < capacity m. RowIsValid (fold (\<lambda>i m. if V i then m else SetInvalid (f i) m) [0..<n] m) r \<longleftrightarrow>
       RowIsValid m r \<and> \<not> (\<exists>i < n. f i = r \<and> \<not> V i))"
  using assms by (induction n) (auto simp: RowIsValid_SetInvalid less_Suc_eq)

text \<open>The mask loses exactly the row numbers under which the vector has a NULL.\<close>

lemma UpdateNullMask_rows:
  assumes "vec_ok n v" and "mask_wf m" and "\<forall>i < n. get_index sel i < capacity m"
  shows "\<exists>m'. UpdateNullMask junk v sel n m = Inr m' \<and> mask_wf m' \<and> capacity m' = capacity m \<and>
    (\<forall>r < capacity m. RowIsValid m' r \<longleftrightarrow> RowIsValid m r \<and> (\<forall>i < n. get_index sel i = r \<longrightarrow> vec_row v i \<noteq> None))"
proof -
  obtain u where u: "ToUnifiedFormat junk n v = Inr u" "\<forall>i < n. unified_row u i = vec_row v i"
    using unified_rows [OF assms(1)] by blast
  let ?V = "\<lambda>i. RowIsValid (uf_validity u) (get_index (uf_sel u) i)"
  have V: "?V i \<longleftrightarrow> vec_row v i \<noteq> None" if "i < n" for i
    unfolding u(2) [rule_format, OF that, symmetric] by (simp add: unified_row_def Let_def)
  show ?thesis
  proof (cases "AllValid (uf_validity u)")
    case True
    then have "vec_row v i \<noteq> None" if "i < n" for i using V that by (simp add: AllValid_def RowIsValid_def)
    with True u(1) assms(2) show ?thesis by (auto simp: UpdateNullMask_def)
  next
    case False
    with u(1) have "UpdateNullMask junk v sel n m = Inr (fold (\<lambda>i m. if ?V i then m else SetInvalid (get_index sel i) m) [0..<n] m)"
      by (simp add: UpdateNullMask_def)
    with fold_SetInvalid_at [OF assms(2,3), of ?V] V show ?thesis by auto
  qed
qed

text \<open>The value a comparison gives for a row: NULL if a side is NULL.\<close>

definition compare_row :: "(cell \<Rightarrow> cell \<Rightarrow> bool) \<Rightarrow> Vector \<Rightarrow> Vector \<Rightarrow> nat \<Rightarrow> cell option" where
  "compare_row OP left right i =
     (case (vec_row left i, vec_row right i) of (Some a, Some b) \<Rightarrow> Some (bool_cell (OP a b)) | _ \<Rightarrow> None)"

lemma ComparisonExecutor_rows:
  assumes "loop_type (InternalType (GetType left))" and "vec_ok n left" "vec_ok n right" "fresh_vec n res" "0 < n"
    and "same_buffer \<longrightarrow> validity_mask (vec_validity left) = validity_mask (vec_validity right)"
  shows "executes (GetType res) n (\<lambda>i. Inr (compare_row OP left right i)) (ComparisonExecutor_Execute nested same_buffer junk et OP left right n res)"
proof -
  have row: "bin_row (\<lambda>a b. Inr (bool_cell (OP a b))) left right = (\<lambda>i. Inr (compare_row OP left right i))"
    by (auto simp: bin_row_def compare_row_def fun_eq_iff split: option.splits)
  show ?thesis
    using Binary_Execute_rows [OF assms(2-6), of "\<lambda>a b. Inr (bool_cell (OP a b))" junk] assms(1)
    unfolding row by (simp add: ComparisonExecutor_Execute_def)
qed

lemma TemplatedSelectOperation_rows:
  assumes "loop_type (InternalType (GetType left))" and "vec_ok n left" "vec_ok n right" and "select_ready n sel ts fs"
    and "same_buffer \<longrightarrow> validity_mask (vec_validity left) = validity_mask (vec_validity right)"
  shows "\<exists>r. TemplatedSelectOperation nested same_buffer junk et OP left right sel n ts fs None = Inr (r, None) \<and>
    splits n (sel_row sel ts fs) (cmp_row OP left right) ts fs r"
  using Binary_Select_rows [OF assms(2-5), of junk OP] assms(1) by (auto simp: TemplatedSelectOperation_def)

end
