(* ===== verification/Expression_Select.thy ===== *)
theory Expression_Select
  imports Boolean_Operators "HOL-Library.Multiset"
begin

text \<open>
  Filters: \<open>ExpressionExecutor::Select\<close> (\<open>expression_executor.cpp\<close>, \<open>execute_conjunction.cpp\<close>). A
  predicate splits the selected rows into those that pass and the others. \<open>DefaultSelect\<close> executes the
  predicate and reads its result vector; a conjunction runs its children in the order of the adaptive
  filter, each on the rows its predecessors left.

  The arrays may be shared: a nested conjunction filters the caller's true output in place. Where the
  input selection is one of the outputs, a reference \<open>selref\<close> says so.

  The interface is the locale \<open>selector\<close>: what a filter promises to the conjunction around it. It is
  interpreted on \<open>DefaultSelect\<close> and, through \<open>conjunction\<close>, on the conjunctions themselves, so filters
  nest to any depth.
\<close>

section \<open>Operations\<close>

type_synonym filter_fn = "selref \<Rightarrow> nat \<Rightarrow> SelectionVector option \<Rightarrow> SelectionVector option \<Rightarrow> select_output result"

definition DefaultSelectLoop ::
    "bool \<Rightarrow> UnifiedVectorFormat \<Rightarrow> selref \<Rightarrow> nat \<Rightarrow> SelectionVector option \<Rightarrow> SelectionVector option \<Rightarrow> select_output" where
  "DefaultSelectLoop NO_NULL idata sel cnt ts fs =
     (let P = (\<lambda>i. let bidx = get_index (uf_sel idata) i in
                 (NO_NULL \<or> RowIsValid (uf_validity idata) bidx) \<and> byte_true (uf_data idata ! bidx));
          st = fold (branch_step sel P) [0..<cnt] (select_init ts fs)
      in (select_result cnt st, true_sel st, false_sel st))"

text \<open>The rows a reference reads.\<close>

definition ref_rows :: "selref \<Rightarrow> SelectionVector option \<Rightarrow> SelectionVector option \<Rightarrow> nat \<Rightarrow> nat list" where
  "ref_rows ref ts fs n = map (ref_index ref (select_init ts fs)) [0..<n]"

lemma length_ref_rows [simp]: "length (ref_rows ref ts fs n) = n"
  by (simp add: ref_rows_def)

text \<open>\<open>exec\<close>: the result of executing the predicate on the given rows.\<close>

definition DefaultSelect :: "junk \<Rightarrow> (nat list \<Rightarrow> Vector result) \<Rightarrow> filter_fn" where
  "DefaultSelect junk exec sel cnt ts fs =
     bindE (exec (ref_rows sel ts fs cnt)) (\<lambda>intermediate.
     bindE (ToUnifiedFormat junk cnt intermediate) (\<lambda>idata.
       Inr (DefaultSelectLoop (AllValid (uf_validity idata)) idata sel cnt ts fs)))"

text \<open>\<open>Select\<close> before the dispatch on the expression's class: an empty selection is not run.\<close>

definition Select_expression :: "filter_fn \<Rightarrow> filter_fn" where
  "Select_expression select sel cnt ts fs = (if cnt = 0 then Inr (0, ts, fs) else select sel cnt ts fs)"

text \<open>Appending the first \<open>n\<close> rows of \<open>src\<close> behind the first \<open>c\<close> rows of \<open>dst\<close>.\<close>

definition append_rows :: "SelectionVector \<Rightarrow> nat \<Rightarrow> nat \<Rightarrow> SelectionVector \<Rightarrow> SelectionVector" where
  "append_rows src n c dst = fold (\<lambda>i dst. set_index (c + i) (get_index src i) dst) [0..<n] dst"

text \<open>
  The loop of an AND. \<open>ks\<close> are the children still to run, \<open>ts\<close> the array of passing rows (the caller's or
  a temporary one), \<open>tf\<close> the temporary array for the failing rows of one child.
\<close>

fun and_loop ::
    "(nat \<Rightarrow> filter_fn) \<Rightarrow> nat \<Rightarrow> nat list \<Rightarrow> selref \<Rightarrow> nat \<Rightarrow> SelectionVector \<Rightarrow> SelectionVector option \<Rightarrow> SelectionVector option \<Rightarrow> nat
      \<Rightarrow> (nat \<times> SelectionVector \<times> SelectionVector option) result" where
  "and_loop child cnt [] ref current_count ts fs tf failed = Inr (current_count, ts, fs)"
| "and_loop child cnt (k # ks) ref current_count ts fs tf failed =
     bindE (Select_expression (child k) (if ref = SelFalse then SelFixed (the fs) else ref) current_count (Some ts) tf)
       (\<lambda>(tcount, ts', tf').
         let ts = the ts';
             fcount = current_count - tcount;
             (fs, failed) =
               (if fcount > 0 \<and> fs \<noteq> None
                then (map_option (append_rows (the tf') fcount failed) fs, failed + fcount)
                else (fs, failed)) in
         if tcount = 0 then Inr (0, ts, fs)
         else and_loop child cnt ks (if tcount < cnt then SelTrue else ref) tcount ts fs tf' failed)"

definition Select_And :: "(nat \<Rightarrow> sel_t) \<Rightarrow> (nat \<Rightarrow> filter_fn) \<Rightarrow> nat list \<Rightarrow> filter_fn" where
  "Select_And junk child permutation sel cnt ts fs =
     (let temp_false = (if fs \<noteq> None then Some (sel_Initialize junk STANDARD_VECTOR_SIZE) else None);
          true_sel = (case ts of None \<Rightarrow> sel_Initialize junk STANDARD_VECTOR_SIZE | Some s \<Rightarrow> s) in
      bindE (and_loop child cnt permutation sel cnt true_sel fs temp_false 0) (\<lambda>(c, true_sel, fs).
        Inr (c, if ts = None then None else Some true_sel, fs)))"

text \<open>The loop of an OR: \<open>fs\<close> the array of failing rows, \<open>tt\<close> the temporary array for passing rows.\<close>

fun or_loop ::
    "(nat \<Rightarrow> filter_fn) \<Rightarrow> nat list \<Rightarrow> selref \<Rightarrow> nat \<Rightarrow> SelectionVector option \<Rightarrow> SelectionVector \<Rightarrow> SelectionVector option \<Rightarrow> nat
      \<Rightarrow> (nat \<times> SelectionVector option \<times> SelectionVector) result" where
  "or_loop child [] ref current_count ts fs tt result_count = Inr (result_count, ts, fs)"
| "or_loop child (k # ks) ref current_count ts fs tt result_count =
     bindE (Select_expression (child k) (if ref = SelTrue then SelFixed (the ts) else ref) current_count tt (Some fs))
       (\<lambda>(tcount, tt', fs').
         let fs = the fs' in
         if tcount > 0 then
           let (ts, result_count) =
             (if ts \<noteq> None then (map_option (append_rows (the tt') tcount result_count) ts, result_count + tcount)
              else (ts, result_count)) in
           or_loop child ks SelFalse (current_count - tcount) ts fs tt' result_count
         else or_loop child ks ref current_count ts fs tt' result_count)"

definition Select_Or :: "(nat \<Rightarrow> sel_t) \<Rightarrow> (nat \<Rightarrow> filter_fn) \<Rightarrow> nat list \<Rightarrow> filter_fn" where
  "Select_Or junk child permutation sel cnt ts fs =
     (let temp_true = (if ts \<noteq> None then Some (sel_Initialize junk STANDARD_VECTOR_SIZE) else None);
          false_sel = (case fs of None \<Rightarrow> sel_Initialize junk STANDARD_VECTOR_SIZE | Some s \<Rightarrow> s) in
      bindE (or_loop child permutation sel cnt ts false_sel temp_true 0) (\<lambda>(result_count, ts, false_sel).
        Inr (result_count, map_option (sel_Sort result_count) ts, if fs = None then None else Some false_sel)))"

section \<open>The contract of a filter\<close>

text \<open>
  An output that was passed in holds, at its start, the rows that go to it: each as often as in the
  input, in some order.
\<close>

definition holds :: "SelectionVector option \<Rightarrow> SelectionVector option \<Rightarrow> nat list \<Rightarrow> bool" where
  "holds s0 s rows \<longleftrightarrow>
     (case s0 of
        None \<Rightarrow> s = None
      | Some None \<Rightarrow> False
      | Some (Some xs) \<Rightarrow> (\<exists>ys. s = Some (Some ys) \<and> length ys = length xs \<and> mset (sel_rows (Some ys) (length rows)) = mset rows))"

definition parts ::
    "nat list \<Rightarrow> (nat \<Rightarrow> bool) \<Rightarrow> SelectionVector option \<Rightarrow> SelectionVector option \<Rightarrow> select_output \<Rightarrow> bool" where
  "parts rows P ts fs r \<longleftrightarrow>
     (case r of (c, ts', fs') \<Rightarrow>
        c = length (filter P rows) \<and> holds ts ts' (filter P rows) \<and> holds fs fs' (filter (\<lambda>r. \<not> P r) rows))"

text \<open>The passing rows of an ascending selection are ascending.\<close>

definition selects ::
    "nat list \<Rightarrow> (nat \<Rightarrow> bool) \<Rightarrow> SelectionVector option \<Rightarrow> SelectionVector option \<Rightarrow> select_output \<Rightarrow> bool" where
  "selects rows P ts fs r \<longleftrightarrow>
     parts rows P ts fs r \<and> (case r of (c, ts', fs') \<Rightarrow> sorted rows \<longrightarrow> (\<forall>s. ts' = Some s \<longrightarrow> sorted (sel_rows s c)))"

text \<open>
  \<open>pre\<close> says on which rows the filter can be run, \<open>P\<close> which rows pass. The caller asks for the passing
  rows: an OR that is only asked for the failing ones does not count the others (below).
\<close>

locale selector =
  fixes select :: filter_fn and pre :: "nat list \<Rightarrow> bool" and P :: "nat \<Rightarrow> bool"
  assumes select_ok:
    "0 < n \<Longrightarrow> n \<le> STANDARD_VECTOR_SIZE \<Longrightarrow> select_ready n ref ts fs \<Longrightarrow> ts \<noteq> None \<Longrightarrow> pre (ref_rows ref ts fs n) \<Longrightarrow>
     \<exists>r. select ref n ts fs = Inr r \<and> selects (ref_rows ref ts fs n) P ts fs r"
begin

lemma Select_expression_ok:
  assumes "n \<le> STANDARD_VECTOR_SIZE" and "select_ready n ref ts fs" and "ts \<noteq> None" and "pre (ref_rows ref ts fs n)"
  shows "\<exists>r. Select_expression select ref n ts fs = Inr r \<and> selects (ref_rows ref ts fs n) P ts fs r"
proof (cases "n = 0")
  case True
  have "holds ts ts []" "holds fs fs []"
    using assms(2) by (auto simp: holds_def select_ready_def outputs_ready_def select_init_def split: option.splits)
  with True show ?thesis by (simp add: Select_expression_def selects_def parts_def ref_rows_def)
next
  case False
  with select_ok [OF _ assms] show ?thesis by (simp add: Select_expression_def)
qed

end

text \<open>A loop that splits the rows in order meets the contract.\<close>

lemma filter_map_rows: "(\<And>i. i < n \<Longrightarrow> Q i = P (row i)) \<Longrightarrow> map row (filter Q [0..<n]) = filter P (map row [0..<n])"
  by (induction n) auto

lemma splits_selects:
  assumes "splits n row Q ts fs r" and "\<And>i. i < n \<Longrightarrow> Q i = P (row i)"
  shows "selects (map row [0..<n]) P ts fs r"
proof -
  obtain c ts' fs' where r: "r = (c, ts', fs')" by (cases r)
  have rows: "map row (filter Q [0..<n]) = filter P (map row [0..<n])"
    "map row (filter (\<lambda>i. \<not> Q i) [0..<n]) = filter (\<lambda>r. \<not> P r) (map row [0..<n])"
    using filter_map_rows [of n Q P row] filter_map_rows [of n "\<lambda>i. \<not> Q i" "\<lambda>r. \<not> P r" row] assms(2) by simp_all
  have out: "holds s0 s rs" if "output_rows s0 s rs" for s0 s rs
    using that by (auto simp: output_rows_def holds_def split: option.splits)
  have c: "c = length (filter P (map row [0..<n]))"
    using assms(1) r arg_cong [OF rows(1), of length] by (simp add: splits_def)
  have o: "output_rows ts ts' (filter P (map row [0..<n]))" "output_rows fs fs' (filter (\<lambda>r. \<not> P r) (map row [0..<n]))"
    unfolding rows [symmetric] using assms(1) r by (simp_all add: splits_def)
  have "sorted (sel_rows s c)" if "sorted (map row [0..<n])" "ts' = Some s" for s
  proof -
    have "sel_rows s c = filter P (map row [0..<n])"
      using o(1) that(2) c by (auto simp: output_rows_def split: option.splits)
    then show ?thesis using sorted_filter [of "\<lambda>x. x" "map row [0..<n]" P] that(1) by simp
  qed
  with c o out show ?thesis by (auto simp: selects_def parts_def r)
qed

section \<open>The default filter\<close>

text \<open>The predicate can be executed on the rows, and its result vector has \<open>TRUE\<close> exactly for the rows in \<open>P\<close>.\<close>

definition exec_ok :: "(nat list \<Rightarrow> Vector result) \<Rightarrow> (nat \<Rightarrow> bool) \<Rightarrow> nat list \<Rightarrow> bool" where
  "exec_ok exec P rows \<longleftrightarrow>
     (\<exists>v. exec rows = Inr v \<and> vec_ok (length rows) v \<and> (\<forall>i < length rows. (truth v i = Some 1) = P (rows ! i)))"

lemma truth_unified:
  "unified_row u i = vec_row v i \<Longrightarrow>
   truth v i = Some 1 \<longleftrightarrow> RowIsValid (uf_validity u) (get_index (uf_sel u) i) \<and> byte_true (uf_data u ! get_index (uf_sel u) i)"
  by (auto simp: truth_def unified_row_def Let_def split: if_splits dest: sym)

lemma DefaultSelect_selects:
  assumes "select_ready n ref ts fs" and "exec_ok exec P (ref_rows ref ts fs n)"
  shows "\<exists>r. DefaultSelect junk exec ref n ts fs = Inr r \<and> selects (ref_rows ref ts fs n) P ts fs r"
proof -
  obtain v where v: "exec (ref_rows ref ts fs n) = Inr v" "vec_ok n v" "\<forall>i < n. (truth v i = Some 1) = P (sel_row ref ts fs i)"
    using assms(2) by (auto simp: exec_ok_def ref_rows_def)
  obtain u where u: "ToUnifiedFormat junk n v = Inr u" "\<forall>i < n. unified_row u i = vec_row v i"
    using unified_rows [OF v(2)] by blast
  let ?b = "AllValid (uf_validity u)"
  let ?Q = "\<lambda>i. let bidx = get_index (uf_sel u) i in (?b \<or> RowIsValid (uf_validity u) bidx) \<and> byte_true (uf_data u ! bidx)"
  have Q: "?Q i = P (sel_row ref ts fs i)" if "i < n" for i
    using truth_unified [OF u(2) [rule_format, OF that]] v(3) that by (auto simp: Let_def AllValid_def RowIsValid_def)
  have "splits n (sel_row ref ts fs) ?Q ts fs (DefaultSelectLoop ?b u ref n ts fs)"
    using assms(1) loop_splits [of n _ ts fs ref "\<lambda>_. branch_step" ?Q]
    by (simp add: select_ready_def DefaultSelectLoop_def Let_def)
  then have "selects (ref_rows ref ts fs n) P ts fs (DefaultSelectLoop ?b u ref n ts fs)"
    unfolding ref_rows_def by (rule splits_selects) (rule Q)
  then show ?thesis
    using v(1) u(1) by (simp add: DefaultSelect_def)
qed

interpretation default: selector "DefaultSelect junk exec" "exec_ok exec P" P for junk exec P
  by unfold_locales (rule DefaultSelect_selects)

section \<open>Conjunctions\<close>

lemma append_rows_ok:
  assumes "c + n \<le> length xs"
  shows "\<exists>ys. append_rows (Some zs) n c (Some xs) = Some ys \<and> length ys = length xs \<and>
    sel_rows (Some ys) (c + n) = sel_rows (Some xs) c @ sel_rows (Some zs) n"
  using assms
proof (induction n)
  case (Suc n)
  then obtain ys where ys: "append_rows (Some zs) n c (Some xs) = Some ys" "length ys = length xs"
    "sel_rows (Some ys) (c + n) = sel_rows (Some xs) c @ sel_rows (Some zs) n" by auto
  let ?ys = "ys[c + n := zs ! n]"
  have "append_rows (Some zs) (Suc n) c (Some xs) = Some ?ys"
    using ys(1) by (simp add: append_rows_def get_index_def)
  moreover have "sel_rows (Some ?ys) (c + Suc n) = sel_rows (Some xs) c @ sel_rows (Some zs) (Suc n)"
    using ys Suc.prems by (simp add: sel_rows_Suc get_index_def)
  ultimately show ?case using ys(2) by auto
qed (simp add: append_rows_def)

lemma append_rows_0 [simp]: "append_rows src 0 c dst = dst"
  by (simp add: append_rows_def)

lemma sel_rows_take: "sel_rows (Some xs) n = map unat (take n xs)" if "n \<le> length xs"
  using that by (auto simp: sel_rows_def get_index_def intro!: nth_equalityI)

lemma sel_Sort_ok:
  assumes "n \<le> length xs"
  shows "\<exists>ys. sel_Sort n (Some xs) = Some ys \<and> length ys = length xs \<and>
    mset (sel_rows (Some ys) n) = mset (sel_rows (Some xs) n) \<and> sorted (sel_rows (Some ys) n)"
proof -
  let ?ys = "sort (take n xs) @ drop n xs"
  have rows: "sel_rows (Some ?ys) n = map unat (sort (take n xs))" "sel_rows (Some xs) n = map unat (take n xs)"
    using assms sel_rows_take [of n ?ys] sel_rows_take [of n xs] by simp_all
  have "sorted (map unat (sort (take n xs)))"
    using sorted_sort [of "take n xs"] unfolding sorted_map by (rule sorted_wrt_mono_rel [rotated]) (simp add: word_le_nat_alt)
  with rows assms show ?thesis by (simp add: sel_Sort_def)
qed

lemma holds_trans: "holds s0 s1 rs1 \<Longrightarrow> holds s1 s2 rs2 \<Longrightarrow> holds s0 s2 rs2"
  by (auto simp: holds_def split: option.splits)

lemma mset_filter_cur:
  assumes "mset rows = mset (filter D R)"
  shows "mset (filter Q rows) = mset (filter (\<lambda>r. D r \<and> Q r) R)" and "length (filter Q rows) = length (filter (\<lambda>r. D r \<and> Q r) R)"
proof -
  show "mset (filter Q rows) = mset (filter (\<lambda>r. D r \<and> Q r) R)"
    using assms by (simp add: filter_filter_mset conj_commute)
  then show "length (filter Q rows) = length (filter (\<lambda>r. D r \<and> Q r) R)"
    by (rule mset_eq_length)
qed

lemma mset_filter_rest:
  assumes "mset rows = mset (filter D R)"
  shows "mset (filter (\<lambda>r. \<not> D r) R) + mset (filter (\<lambda>r. \<not> Q r) rows) = mset (filter (\<lambda>r. \<not> (D r \<and> Q r)) R)"
  unfolding mset_filter_cur(1) [OF assms] by (induction R) auto

text \<open>
  Before each child of an AND: of the rows \<open>R\<close> those in \<open>D\<close> are still in play and are what the current
  selection reads; the others are in the false output.
\<close>

definition and_inv ::
    "nat list \<Rightarrow> (nat \<Rightarrow> bool) \<Rightarrow> selref \<Rightarrow> nat \<Rightarrow> SelectionVector \<Rightarrow> SelectionVector option \<Rightarrow> SelectionVector option \<Rightarrow> nat \<Rightarrow> bool" where
  "and_inv R D ref cc ts fs tf fc \<longleftrightarrow>
     (\<exists>xs. ts = Some xs \<and> length R \<le> length xs) \<and>
     (case fs of
        None \<Rightarrow> tf = None
      | Some s \<Rightarrow> (\<exists>xs ys. s = Some xs \<and> length R \<le> length xs \<and> tf = Some (Some ys) \<and> length R \<le> length ys) \<and>
          fc = length (filter (\<lambda>r. \<not> D r) R) \<and> mset (sel_rows s fc) = mset (filter (\<lambda>r. \<not> D r) R)) \<and>
     cc = length (filter D R) \<and> mset (ref_rows ref (Some ts) fs cc) = mset (filter D R) \<and>
     (ref = SelFalse \<longrightarrow> fs \<noteq> None) \<and>
     (cc < length R \<longrightarrow> ref = SelTrue)"

lemma and_rows: "ref_rows (if ref = SelFalse then SelFixed (the fs) else ref) (Some ts) tf cc = ref_rows ref (Some ts) fs cc"
  by (cases ref) (auto simp: ref_rows_def ref_index_def select_init_def)

lemma rows_bound:
  assumes "mset (ref_rows ref ts fs n) = mset (filter D R)" and "\<forall>r \<in> set R. r < 2 ^ 32"
  shows "set (ref_rows ref ts fs n) \<subseteq> set R" and "\<forall>i < n. ref_index ref (select_init ts fs) i < 2 ^ 32"
proof -
  show sub: "set (ref_rows ref ts fs n) \<subseteq> set R"
    using assms(1) mset_eq_setD by (metis filter_is_subset)
  show "\<forall>i < n. ref_index ref (select_init ts fs) i < 2 ^ 32"
    using sub assms(2) by (simp add: ref_rows_def image_subset_iff)
qed

lemma and_invD:
  assumes "and_inv R D ref cc ts fs tf fc"
  shows "mset (ref_rows ref (Some ts) fs cc) = mset (filter D R)" and "cc = length (filter D R)"
    and "cc \<le> length R"
    and "\<exists>xs. ts = Some xs \<and> length R \<le> length xs"
    and "tf = Some s \<Longrightarrow> \<exists>xs. s = Some xs \<and> length R \<le> length xs"
proof -
  show cc: "cc = length (filter D R)" using assms unfolding and_inv_def by blast
  then show "cc \<le> length R" by simp
  show "tf = Some s \<Longrightarrow> \<exists>xs. s = Some xs \<and> length R \<le> length xs"
    using assms by (cases fs) (auto simp: and_inv_def)
qed (use assms in \<open>unfold and_inv_def, blast+\<close>)

lemma select_readyI:
  assumes "\<forall>i < n. ref_index ref (select_init ts fs) i < 2 ^ 32"
    and "\<And>s. ts = Some s \<Longrightarrow> \<exists>xs. s = Some xs \<and> n \<le> length xs" "\<And>s. fs = Some s \<Longrightarrow> \<exists>xs. s = Some xs \<and> n \<le> length xs"
    and "ref = SelTrue \<Longrightarrow> ts \<noteq> None" "ref = SelFalse \<Longrightarrow> fs \<noteq> None" and "ts \<noteq> None \<or> fs \<noteq> None"
  shows "select_ready n ref ts fs"
  unfolding select_ready_def outputs_ready_def ref_ok_def
proof (intro conjI)
  show "\<forall>s \<in> {true_sel (select_init ts fs), false_sel (select_init ts fs)}.
      case s of None \<Rightarrow> True | Some None \<Rightarrow> False | Some (Some xs) \<Rightarrow> n \<le> length xs"
    using assms(2,3) by (cases ts; cases fs) (fastforce simp: select_init_def)+
qed (use assms in \<open>simp_all add: select_init_def\<close>)

lemma and_ready:
  assumes "and_inv R D ref cc ts fs tf fc" and "\<forall>r \<in> set R. r < 2 ^ 32"
  shows "select_ready cc (if ref = SelFalse then SelFixed (the fs) else ref) (Some ts) tf"
proof (rule select_readyI)
  let ?ref = "if ref = SelFalse then SelFixed (the fs) else ref"
  show "\<forall>i < cc. ref_index ?ref (select_init (Some ts) tf) i < 2 ^ 32"
    by (rule rows_bound(2) [where D = D, OF _ assms(2)]) (simp only: and_rows and_invD(1) [OF assms(1)])
  note cc = and_invD(3) [OF assms(1)]
  show "\<exists>xs. s = Some xs \<and> cc \<le> length xs" if "Some ts = Some s" for s
    using that and_invD(4) [OF assms(1)] cc by (auto intro: le_trans)
  show "\<exists>xs. s = Some xs \<and> cc \<le> length xs" if "tf = Some s" for s
    using and_invD(5) [OF assms(1) that] cc by (auto intro: le_trans)
qed (auto split: if_splits)

lemma holds_Some:
  assumes "holds (Some (Some xs)) s rows"
  obtains ys where "s = Some (Some ys)" "length ys = length xs" "mset (sel_rows (Some ys) (length rows)) = mset rows"
  using assms by (auto simp: holds_def)

lemma and_step:
  assumes inv: "and_inv R D ref cc ts fs tf fc"
    and child: "parts (ref_rows ref (Some ts) fs cc) Q (Some ts) tf (tcount, ts', tf')"
  defines "fs' \<equiv> map_option (append_rows (the tf') (cc - tcount) fc) fs"
  shows "and_inv R (\<lambda>r. D r \<and> Q r) (if tcount < length R then SelTrue else ref) tcount (the ts') fs' tf'
      (if fs = None then fc else fc + (cc - tcount))"
    and "holds (Some ts) ts' (filter (\<lambda>r. D r \<and> Q r) R)" and "holds fs fs' (filter (\<lambda>r. \<not> (D r \<and> Q r)) R)"
    and "tcount = length (filter (\<lambda>r. D r \<and> Q r) R)"
    and "ref_rows (if tcount < length R then SelTrue else ref) (Some (the ts')) fs' tcount \<in>
      {sel_rows (the ts') tcount, ref_rows ref (Some ts) fs cc}"
proof -
  let ?rows = "ref_rows ref (Some ts) fs cc" and ?D = "\<lambda>r. D r \<and> Q r"
  have cur: "mset ?rows = mset (filter D R)" "cc = length (filter D R)" using and_invD [OF inv] by blast+
  note pass = mset_filter_cur [OF cur(1), of Q]
  have c: "tcount = length (filter Q ?rows)" "holds (Some ts) ts' (filter Q ?rows)" "holds tf tf' (filter (\<lambda>r. \<not> Q r) ?rows)"
    using child by (auto simp: parts_def)
  have len: "length ?rows = cc" by (simp add: ref_rows_def)
  then have fcount: "cc - tcount = length (filter (\<lambda>r. \<not> Q r) ?rows)"
    using sum_length_filter_compl [of Q ?rows] c(1) by simp
  obtain txs where txs: "ts = Some txs" "length R \<le> length txs" using inv by (auto simp: and_inv_def)
  then obtain tys where tys: "ts' = Some (Some tys)" "length tys = length txs" "mset (sel_rows (Some tys) tcount) = mset (filter Q ?rows)"
    using holds_Some c(1,2) by metis
  show tcount: "tcount = length (filter ?D R)" using c(1) pass(2) by simp
  have true_rows: "mset (sel_rows (the ts') tcount) = mset (filter ?D R)" using tys pass(1) by simp
  show "holds (Some ts) ts' (filter ?D R)"
    using txs(1) tys true_rows tcount by (simp add: holds_def)
  have total: "length (filter D R) + length (filter (\<lambda>r. \<not> D r) R) = length R"
    using sum_length_filter_compl [of D R] by simp
  have false_rows: "(\<exists>xs ys. fs' = Some (Some xs) \<and> length R \<le> length xs \<and> tf' = Some (Some ys) \<and> length R \<le> length ys \<and>
      fc + (cc - tcount) = length (filter (\<lambda>r. \<not> ?D r) R) \<and> mset (sel_rows (Some xs) (fc + (cc - tcount))) = mset (filter (\<lambda>r. \<not> ?D r) R) \<and>
      (\<exists>zs. s = Some zs \<and> length zs = length xs))" if fs: "fs = Some s" for s
  proof -
    obtain fxs tfx where f: "s = Some fxs" "length R \<le> length fxs" "tf = Some (Some tfx)" "length R \<le> length tfx"
      "fc = length (filter (\<lambda>r. \<not> D r) R)" "mset (sel_rows (Some fxs) fc) = mset (filter (\<lambda>r. \<not> D r) R)"
      using inv fs by (auto simp: and_inv_def)
    obtain tfy where tfy: "tf' = Some (Some tfy)" "length tfy = length tfx"
      "mset (sel_rows (Some tfy) (cc - tcount)) = mset (filter (\<lambda>r. \<not> Q r) ?rows)"
      using holds_Some c(3) f(3) fcount by metis
    have "fc + (cc - tcount) \<le> length fxs" using f(2,5) total cur(2) by simp
    then obtain ys where ys: "append_rows (Some tfy) (cc - tcount) fc (Some fxs) = Some ys" "length ys = length fxs"
      "sel_rows (Some ys) (fc + (cc - tcount)) = sel_rows (Some fxs) fc @ sel_rows (Some tfy) (cc - tcount)"
      using append_rows_ok by blast
    have m: "mset (sel_rows (Some ys) (fc + (cc - tcount))) = mset (filter (\<lambda>r. \<not> ?D r) R)"
      using ys(3) f(6) tfy(3) mset_filter_rest [OF cur(1), of Q] by simp
    then have "fc + (cc - tcount) = length (filter (\<lambda>r. \<not> ?D r) R)"
      using mset_eq_length by fastforce
    with ys m f tfy fs show ?thesis by (auto simp: fs'_def)
  qed
  show "holds fs fs' (filter (\<lambda>r. \<not> ?D r) R)"
  proof (cases fs)
    case (Some s)
    with false_rows [OF Some] show ?thesis by (auto simp: holds_def)
  qed (simp add: holds_def fs'_def)
  let ?ref = "if tcount < length R then SelTrue else ref"
  have ref: "ref_rows ?ref (Some (the ts')) fs' tcount = sel_rows (the ts') tcount \<or>
      ref_rows ?ref (Some (the ts')) fs' tcount = ?rows \<and> filter Q ?rows = ?rows"
  proof (cases "?ref = SelTrue")
    case True
    have "ref_rows SelTrue (Some (the ts')) fs' tcount = sel_rows (the ts') tcount"
      by (simp add: ref_rows_def ref_index_def select_init_def sel_rows_def)
    then show ?thesis unfolding True by simp
  next
    case False
    moreover have "tcount \<le> length R" using tcount by simp
    ultimately have all: "tcount = length R" "ref \<noteq> SelTrue" by (auto split: if_splits)
    have "tcount \<le> cc" using c(1) len by (metis length_filter_le)
    then have cc: "cc = tcount" using all(1) and_invD(3) [OF inv] by simp
    then have "fs' = fs" by (cases fs) (simp_all add: fs'_def)
    moreover have "ref_rows ref (Some (the ts')) fs tcount = ?rows"
      using all(2) cc by (cases ref) (simp_all add: ref_rows_def ref_index_def select_init_def)
    moreover have "filter Q ?rows = ?rows" using c(1) len cc by (metis filter_id_conv length_filter_less less_irrefl)
    ultimately show ?thesis using all by simp
  qed
  then show "ref_rows ?ref (Some (the ts')) fs' tcount \<in> {sel_rows (the ts') tcount, ?rows}" by auto
  have cur': "mset (ref_rows ?ref (Some (the ts')) fs' tcount) = mset (filter ?D R)"
    using ref true_rows pass(1) by (elim disjE conjE) simp_all
  have out: "case fs' of None \<Rightarrow> tf' = None
      | Some s \<Rightarrow> (\<exists>xs ys. s = Some xs \<and> length R \<le> length xs \<and> tf' = Some (Some ys) \<and> length R \<le> length ys) \<and>
          (if fs = None then fc else fc + (cc - tcount)) = length (filter (\<lambda>r. \<not> ?D r) R) \<and>
          mset (sel_rows s (if fs = None then fc else fc + (cc - tcount))) = mset (filter (\<lambda>r. \<not> ?D r) R)"
  proof (cases fs)
    case None
    then have "tf = None" using inv by (simp add: and_inv_def)
    with None c(3) show ?thesis by (simp add: fs'_def holds_def)
  next
    case (Some s)
    with false_rows [OF Some] show ?thesis by auto
  qed
  show "and_inv R ?D ?ref tcount (the ts') fs' tf' (if fs = None then fc else fc + (cc - tcount))"
    unfolding and_inv_def using out cur' tcount tys txs inv by (auto simp: and_inv_def fs'_def)
qed

text \<open>
  An OR is an AND of the negations with the two outputs exchanged: its rows in play are those that no
  child has accepted.
\<close>

fun swap_ref :: "selref \<Rightarrow> selref" where
  "swap_ref SelTrue = SelFalse"
| "swap_ref SelFalse = SelTrue"
| "swap_ref (SelFixed s) = SelFixed s"

lemma swap_ref_simps [simp]: "swap_ref (swap_ref ref) = ref" "swap_ref ref = SelTrue \<longleftrightarrow> ref = SelFalse" "swap_ref ref = SelFalse \<longleftrightarrow> ref = SelTrue"
  by (cases ref; simp)+

lemma ref_rows_swap: "ref_rows (swap_ref ref) ts fs n = ref_rows ref fs ts n"
  by (cases ref) (auto simp: ref_rows_def ref_index_def select_init_def)

lemma select_ready_swap: "select_ready n (swap_ref ref) ts fs \<Longrightarrow> select_ready n ref fs ts"
  by (cases ref) (auto simp: select_ready_def outputs_ready_def ref_ok_def ref_index_def select_init_def)

lemma parts_swap: "parts rows P ts fs (c, ts', fs') \<Longrightarrow> parts rows (\<lambda>r. \<not> P r) fs ts (length rows - c, fs', ts')"
  using sum_length_filter_compl [of P rows] by (auto simp: parts_def)

lemma or_ready:
  assumes "and_inv R D (swap_ref ref) cc fs ts tt rc" and "\<forall>r \<in> set R. r < 2 ^ 32"
  shows "select_ready cc (if ref = SelTrue then SelFixed (the ts) else ref) tt (Some fs)"
    and "ref_rows (if ref = SelTrue then SelFixed (the ts) else ref) tt (Some fs) cc = ref_rows (swap_ref ref) (Some fs) ts cc"
proof -
  let ?ref = "if ref = SelTrue then SelFixed (the ts) else ref"
  have swap: "swap_ref ?ref = (if swap_ref ref = SelFalse then SelFixed (the ts) else swap_ref ref)" by simp
  show "select_ready cc ?ref tt (Some fs)"
    by (rule select_ready_swap) (use and_ready [OF assms] swap in simp)
  show "ref_rows ?ref tt (Some fs) cc = ref_rows (swap_ref ref) (Some fs) ts cc"
    using and_rows [of "swap_ref ref" ts fs tt cc] unfolding swap [symmetric] by (simp only: ref_rows_swap)
qed

lemma or_step:
  assumes inv: "and_inv R (\<lambda>r. \<not> D r) (swap_ref ref) cc fs ts tt rc" and ts: "ts \<noteq> None"
    and child: "parts (ref_rows (swap_ref ref) (Some fs) ts cc) Q tt (Some fs) (tcount, tt', fs')"
  defines "ts' \<equiv> map_option (append_rows (the tt') tcount rc) ts"
  shows "and_inv R (\<lambda>r. \<not> (D r \<or> Q r)) (swap_ref (if tcount > 0 then SelFalse else ref)) (cc - tcount) (the fs') ts' tt' (rc + tcount)"
    and "holds (Some fs) fs' (filter (\<lambda>r. \<not> (D r \<or> Q r)) R)" and "holds ts ts' (filter (\<lambda>r. D r \<or> Q r) R)"
    and "rc + tcount = length (filter (\<lambda>r. D r \<or> Q r) R)"
proof -
  let ?rows = "ref_rows (swap_ref ref) (Some fs) ts cc"
  have len: "length ?rows = cc" by (simp add: ref_rows_def)
  have "tcount = length (filter Q ?rows)" using child by (simp add: parts_def)
  then have tcount: "tcount \<le> cc" using len by (metis length_filter_le)
  from tcount have undo: "cc - (cc - tcount) = tcount" by simp
  note swapped = parts_swap [OF child, unfolded len]
  have ref: "(if cc - tcount < length R then SelTrue else swap_ref ref) = swap_ref (if tcount > 0 then SelFalse else ref)"
  proof -
    have "cc < length R \<longrightarrow> swap_ref ref = SelTrue" using inv unfolding and_inv_def by blast
    with and_invD(3) [OF inv] tcount show ?thesis by auto
  qed
  note step = and_step [OF inv swapped]
  show inv': "and_inv R (\<lambda>r. \<not> (D r \<or> Q r)) (swap_ref (if tcount > 0 then SelFalse else ref)) (cc - tcount) (the fs') ts' tt' (rc + tcount)"
    using step(1) ts unfolding undo ref ts'_def by simp
  show "holds (Some fs) fs' (filter (\<lambda>r. \<not> (D r \<or> Q r)) R)" using step(2) by simp
  show "holds ts ts' (filter (\<lambda>r. D r \<or> Q r) R)" using step(3) unfolding undo ts'_def by simp
  show "rc + tcount = length (filter (\<lambda>r. D r \<or> Q r) R)"
  proof -
    obtain s where "ts' = Some s" using ts by (auto simp: ts'_def)
    with inv' have "rc + tcount = length (filter (\<lambda>r. \<not> \<not> (D r \<or> Q r)) R)" by (simp add: and_inv_def)
    then show ?thesis by simp
  qed
qed

lemma select_readyD:
  assumes "select_ready n ref ts fs"
  shows "\<forall>r \<in> set (ref_rows ref ts fs n). r < 2 ^ 32"
    and "ts = Some s \<Longrightarrow> \<exists>xs. s = Some xs \<and> n \<le> length xs" and "fs = Some s \<Longrightarrow> \<exists>xs. s = Some xs \<and> n \<le> length xs"
    and "ref = SelTrue \<Longrightarrow> ts \<noteq> None" and "ref = SelFalse \<Longrightarrow> fs \<noteq> None"
  using assms
  by (auto simp: select_ready_def outputs_ready_def ref_ok_def ref_rows_def select_init_def split: option.splits)

text \<open>A child may be run on any part of the rows, in any order.\<close>

definition hereditary :: "(nat \<Rightarrow> nat list \<Rightarrow> bool) \<Rightarrow> nat list \<Rightarrow> nat list \<Rightarrow> bool" where
  "hereditary cpre ks rows \<longleftrightarrow> (\<forall>k \<in> set ks. \<forall>rs. set rs \<subseteq> set rows \<longrightarrow> cpre k rs)"

text \<open>The filters a conjunction runs, by their place in the expression.\<close>

locale conjunction =
  fixes child :: "nat \<Rightarrow> filter_fn" and cpre :: "nat \<Rightarrow> nat list \<Rightarrow> bool" and CP :: "nat \<Rightarrow> nat \<Rightarrow> bool"
  assumes child: "selector (child k) (cpre k) (CP k)"
begin

lemma and_loop_selects:
  assumes "and_inv R D ref cc ts fs tf fc" and "\<forall>r \<in> set R. r < 2 ^ 32" and "length R \<le> STANDARD_VECTOR_SIZE"
    and "\<And>k rs. k \<in> set ks \<Longrightarrow> set rs \<subseteq> set R \<Longrightarrow> cpre k rs" and "ks \<noteq> []"
    and "sorted R \<longrightarrow> sorted (ref_rows ref (Some ts) fs cc)"
  shows "\<exists>c ts' fs'. and_loop child (length R) ks ref cc ts fs tf fc = Inr (c, ts', fs') \<and>
    selects R (\<lambda>r. D r \<and> (\<forall>k \<in> set ks. CP k r)) (Some ts) fs (c, Some ts', fs')"
  using assms(1,4-6)
proof (induction ks arbitrary: D ref cc ts fs tf fc)
  case (Cons k ks)
  let ?ref = "if ref = SelFalse then SelFixed (the fs) else ref"
  note inv = Cons.prems(1)
  have "set (ref_rows ref (Some ts) fs cc) \<subseteq> set R"
    by (rule rows_bound(1) [OF and_invD(1) [OF inv] assms(2)])
  then have pre: "cpre k (ref_rows ?ref (Some ts) tf cc)" unfolding and_rows by (rule Cons.prems(2) [OF list.set_intros(1)])
  have cc: "cc \<le> STANDARD_VECTOR_SIZE" using and_invD(3) [OF inv] assms(3) by simp
  obtain tcount ts' tf' where child: "Select_expression (child k) ?ref cc (Some ts) tf = Inr (tcount, ts', tf')"
    "selects (ref_rows ref (Some ts) fs cc) (CP k) (Some ts) tf (tcount, ts', tf')"
    using selector.Select_expression_ok [OF child cc and_ready [OF inv assms(2)] _ pre] unfolding and_rows by auto
  let ?fs = "map_option (append_rows (the tf') (cc - tcount) fc) fs" and ?fc = "if fs = None then fc else fc + (cc - tcount)"
  let ?D = "\<lambda>r. D r \<and> CP k r"
  have parts: "parts (ref_rows ref (Some ts) fs cc) (CP k) (Some ts) tf (tcount, ts', tf')"
    and srt: "sorted R \<longrightarrow> (\<forall>s. ts' = Some s \<longrightarrow> sorted (sel_rows s tcount))"
    using child(2) Cons.prems(4) by (auto simp: selects_def)
  note step = and_step [OF inv parts]
  obtain tys where ts': "ts' = Some tys" using step(2) by (auto simp: holds_def split: option.splits)
  have outs: "(if cc - tcount > 0 \<and> fs \<noteq> None then (map_option (append_rows (the tf') (cc - tcount) fc) fs, fc + (cc - tcount))
      else (fs, fc)) = (?fs, ?fc)"
    by (cases fs) auto
  have loop: "and_loop child (length R) (k # ks) ref cc ts fs tf fc =
      (if tcount = 0 then Inr (0, tys, ?fs)
       else and_loop child (length R) ks (if tcount < length R then SelTrue else ref) tcount tys ?fs tf' ?fc)"
    unfolding and_loop.simps child(1) bindE_simps case_prod_conv Let_def outs ts' option.sel ..
  have all: "D r \<and> (\<forall>j \<in> set (k # ks). CP j r) \<longleftrightarrow> ?D r \<and> (\<forall>j \<in> set ks. CP j r)" for r by auto
  have next_sorted: "sorted R \<longrightarrow> sorted (ref_rows (if tcount < length R then SelTrue else ref) (Some tys) ?fs tcount)"
    using step(5) srt ts' Cons.prems(4) by auto
  show ?case
  proof (cases "tcount = 0 \<or> ks = []")
    case True
    let ?A = "\<lambda>r. D r \<and> (\<forall>j \<in> set (k # ks). CP j r)"
    have "filter ?A R = filter ?D R" "filter (\<lambda>r. \<not> ?A r) R = filter (\<lambda>r. \<not> ?D r) R"
    proof -
      have "?A r = ?D r" if "r \<in> set R" for r
        using True step(4) that by (auto simp: filter_empty_conv)
      then show "filter ?A R = filter ?D R" "filter (\<lambda>r. \<not> ?A r) R = filter (\<lambda>r. \<not> ?D r) R"
        by (auto intro!: filter_cong)
    qed
    then have "selects R ?A (Some ts) fs (tcount, Some tys, ?fs)"
      using step(2-4) srt ts' by (simp add: selects_def parts_def)
    moreover have "and_loop child (length R) (k # ks) ref cc ts fs tf fc = Inr (tcount, tys, ?fs)"
      using loop True by auto
    ultimately show ?thesis by blast
  next
    case False
    then obtain c ts'' fs'' where r:
      "and_loop child (length R) ks (if tcount < length R then SelTrue else ref) tcount tys ?fs tf' ?fc = Inr (c, ts'', fs'')"
      "selects R (\<lambda>r. ?D r \<and> (\<forall>j \<in> set ks. CP j r)) (Some tys) ?fs (c, Some ts'', fs'')"
      using Cons.IH [OF _ Cons.prems(2), of ?D "if tcount < length R then SelTrue else ref" tcount tys ?fs tf' ?fc] step(1)
        next_sorted ts' by auto
    have "selects R (\<lambda>r. D r \<and> (\<forall>j \<in> set (k # ks). CP j r)) (Some ts) fs (c, Some ts'', fs'')"
      unfolding all using r(2) holds_trans step(2,3) ts' by (auto simp: selects_def parts_def)
    with r(1) loop False show ?thesis by auto
  qed
qed simp

lemma or_loop_selects:
  assumes "and_inv R (\<lambda>r. \<not> D r) (swap_ref ref) cc fs ts tt rc" and "ts \<noteq> None"
    and "\<forall>r \<in> set R. r < 2 ^ 32" and "length R \<le> STANDARD_VECTOR_SIZE"
    and "\<And>k rs. k \<in> set ks \<Longrightarrow> set rs \<subseteq> set R \<Longrightarrow> cpre k rs" and "ks \<noteq> []"
  shows "\<exists>c ts' fs'. or_loop child ks ref cc ts fs tt rc = Inr (c, ts', fs') \<and>
    parts R (\<lambda>r. D r \<or> (\<exists>k \<in> set ks. CP k r)) ts (Some fs) (c, ts', Some fs')"
  using assms(1,2,5,6)
proof (induction ks arbitrary: D ref cc ts fs tt rc)
  case (Cons k ks)
  let ?ref = "if ref = SelTrue then SelFixed (the ts) else ref" and ?rows = "ref_rows (swap_ref ref) (Some fs) ts cc"
  note inv = Cons.prems(1)
  note ready = or_ready [OF inv assms(3)]
  have "set ?rows \<subseteq> set R"
    by (rule rows_bound(1) [OF and_invD(1) [OF inv] assms(3)])
  then have pre: "cpre k (ref_rows ?ref tt (Some fs) cc)" unfolding ready(2) by (rule Cons.prems(3) [OF list.set_intros(1)])
  have cc: "cc \<le> STANDARD_VECTOR_SIZE" using and_invD(3) [OF inv] assms(4) by simp
  have tt: "tt \<noteq> None" using inv Cons.prems(2) by (auto simp: and_inv_def)
  obtain tcount tt' fs' where child: "Select_expression (child k) ?ref cc tt (Some fs) = Inr (tcount, tt', fs')"
    "parts ?rows (CP k) tt (Some fs) (tcount, tt', fs')"
    using selector.Select_expression_ok [OF child cc ready(1) tt pre] unfolding ready(2) selects_def by auto
  let ?ts = "map_option (append_rows (the tt') tcount rc) ts"
  let ?D = "\<lambda>r. D r \<or> CP k r"
  note step = or_step [OF inv Cons.prems(2) child(2)]
  obtain fys where fs': "fs' = Some fys" using step(2) by (auto simp: holds_def split: option.splits)
  have loop: "or_loop child (k # ks) ref cc ts fs tt rc =
      or_loop child ks (if tcount > 0 then SelFalse else ref) (cc - tcount) ?ts fys tt' (rc + tcount)"
    unfolding or_loop.simps child(1) bindE_simps case_prod_conv Let_def fs' option.sel
    using Cons.prems(2) by (cases ts) simp_all
  have all: "D r \<or> (\<exists>j \<in> set (k # ks). CP j r) \<longleftrightarrow> ?D r \<or> (\<exists>j \<in> set ks. CP j r)" for r by auto
  show ?case
  proof (cases "ks = []")
    case True
    have "parts R ?D ts (Some fs) (rc + tcount, ?ts, Some fys)"
      using step(2-4) fs' by (simp add: parts_def)
    with True loop show ?thesis by simp
  next
    case False
    have "?ts \<noteq> None" using Cons.prems(2) by simp
    then obtain c ts'' fs'' where r:
      "or_loop child ks (if tcount > 0 then SelFalse else ref) (cc - tcount) ?ts fys tt' (rc + tcount) = Inr (c, ts'', fs'')"
      "parts R (\<lambda>r. ?D r \<or> (\<exists>j \<in> set ks. CP j r)) ?ts (Some fys) (c, ts'', Some fs'')"
      using Cons.IH [OF _ _ Cons.prems(3), of ?D "if tcount > 0 then SelFalse else ref" "cc - tcount" fys ?ts tt' "rc + tcount"]
        step(1) fs' False by auto
    have "parts R (\<lambda>r. D r \<or> (\<exists>j \<in> set (k # ks). CP j r)) ts (Some fs) (c, ts'', Some fs'')"
      unfolding all using r(2) holds_trans step(2,3) fs' by (auto simp: parts_def)
    with r(1) loop show ?thesis by auto
  qed
qed simp

lemma Select_And_selects:
  assumes "0 < n" and "n \<le> STANDARD_VECTOR_SIZE" and "select_ready n ref ts fs" and "ks \<noteq> []"
    and "hereditary cpre ks (ref_rows ref ts fs n)"
  shows "\<exists>r. Select_And junk child ks ref n ts fs = Inr r \<and> selects (ref_rows ref ts fs n) (\<lambda>r. \<forall>k \<in> set ks. CP k r) ts fs r"
proof -
  let ?R = "ref_rows ref ts fs n" and ?temp = "sel_Initialize junk STANDARD_VECTOR_SIZE"
  let ?ts = "case ts of None \<Rightarrow> ?temp | Some s \<Rightarrow> s" and ?tf = "if fs \<noteq> None then Some ?temp else None"
  have len: "length ?R = n" by (simp add: ref_rows_def)
  note ready = select_readyD [OF assms(3)]
  have rows: "ref_rows ref (Some ?ts) fs n = ?R"
    using ready(4) by (cases ref; cases ts) (auto simp: ref_rows_def ref_index_def select_init_def)
  have "and_inv ?R (\<lambda>_. True) ref n ?ts fs ?tf 0"
    using ready rows assms(2) unfolding and_inv_def len
    by (cases ts; cases fs) (auto simp: sel_Initialize_def)
  then obtain c ts' fs' where "and_loop child n ks ref n ?ts fs ?tf 0 = Inr (c, ts', fs')"
      "selects ?R (\<lambda>r. \<forall>k \<in> set ks. CP k r) (Some ?ts) fs (c, Some ts', fs')"
    using and_loop_selects [of ?R "\<lambda>_. True" ref n ?ts fs ?tf 0 ks] ready(1) assms rows len
    by (auto simp: hereditary_def)
  then show ?thesis
    by (cases ts) (auto simp: Select_And_def Let_def selects_def parts_def holds_def)
qed

lemma Select_Or_selects:
  assumes "0 < n" and "n \<le> STANDARD_VECTOR_SIZE" and "select_ready n ref ts fs" and "ts \<noteq> None" and "ks \<noteq> []"
    and "hereditary cpre ks (ref_rows ref ts fs n)"
  shows "\<exists>r. Select_Or junk child ks ref n ts fs = Inr r \<and> selects (ref_rows ref ts fs n) (\<lambda>r. \<exists>k \<in> set ks. CP k r) ts fs r"
proof -
  let ?R = "ref_rows ref ts fs n" and ?temp = "sel_Initialize junk STANDARD_VECTOR_SIZE"
  let ?fs = "case fs of None \<Rightarrow> ?temp | Some s \<Rightarrow> s" and ?tt = "if ts \<noteq> None then Some ?temp else None"
  have len: "length ?R = n" by (simp add: ref_rows_def)
  note ready = select_readyD [OF assms(3)]
  have rows: "ref_rows (swap_ref ref) (Some ?fs) ts n = ?R"
    using ready(5) by (cases ref; cases fs) (auto simp: ref_rows_def ref_index_def select_init_def)
  have "and_inv ?R (\<lambda>r. \<not> False) (swap_ref ref) n ?fs ts ?tt 0"
    using ready rows assms(2) unfolding and_inv_def len
    by (cases ts; cases fs) (auto simp: sel_Initialize_def)
  then obtain c ts' fs' where loop: "or_loop child ks ref n ts ?fs ?tt 0 = Inr (c, ts', fs')"
      "parts ?R (\<lambda>r. \<exists>k \<in> set ks. CP k r) ts (Some ?fs) (c, ts', Some fs')"
    using or_loop_selects [of ?R "\<lambda>_. False" ref n ?fs ts ?tt 0 ks] ready(1) assms rows len
    by (auto simp: hereditary_def)
  obtain xs ys where ts: "ts = Some (Some xs)" "ts' = Some (Some ys)" "n \<le> length xs" "length ys = length xs"
    "mset (sel_rows (Some ys) c) = mset (filter (\<lambda>r. \<exists>k \<in> set ks. CP k r) ?R)" "c = length (filter (\<lambda>r. \<exists>k \<in> set ks. CP k r) ?R)"
    using loop(2) assms(4) ready(2) by (auto simp: parts_def holds_def split: option.splits)
  have "c \<le> length ys" using ts(3,4,6) length_filter_le [of _ ?R] len by (metis le_trans)
  then obtain zs where "sel_Sort c (Some ys) = Some zs" "length zs = length ys" "mset (sel_rows (Some zs) c) = mset (sel_rows (Some ys) c)"
      "sorted (sel_rows (Some zs) c)"
    using sel_Sort_ok by blast
  with ts loop show ?thesis
    by (cases fs) (auto simp: Select_Or_def Let_def selects_def parts_def holds_def)
qed

end

text \<open>Conjunctions are filters: they nest.\<close>

sublocale conjunction \<subseteq> and_filter: selector "Select_And junk child ks"
    "\<lambda>rows. ks \<noteq> [] \<and> hereditary cpre ks rows" "\<lambda>r. \<forall>k \<in> set ks. CP k r" for junk ks
  by unfold_locales (rule Select_And_selects, blast+)

sublocale conjunction \<subseteq> or_filter: selector "Select_Or junk child ks"
    "\<lambda>rows. ks \<noteq> [] \<and> hereditary cpre ks rows" "\<lambda>r. \<exists>k \<in> set ks. CP k r" for junk ks
  by unfold_locales (rule Select_Or_selects, blast+)

end
