(* ===== verification/Distinct_Comparison.thy ===== *)
theory Distinct_Comparison
  imports Comparison_Operators Expression_Select
begin

text \<open>
  Comparisons in which NULL is a value (\<open>is_distinct_from.cpp\<close>, \<open>comparison_operators.hpp\<close>): IS DISTINCT
  FROM and the orders in which NULL is the largest or the smallest value. Every operation gets two
  values and two NULL flags; the locale \<open>null_comparison\<close> states what the loops need of it, and is
  interpreted on each operation.

  The comparison of nested types and intervals is an argument.
\<close>

section \<open>Operations\<close>

type_synonym null_op = "cell \<Rightarrow> cell \<Rightarrow> bool \<Rightarrow> bool \<Rightarrow> bool"

definition DistinctFrom :: null_op where
  "DistinctFrom left right left_null right_null =
     (if left_null \<or> right_null then left_null \<noteq> right_null else NotEquals left right)"

definition NotDistinctFrom :: null_op where
  "NotDistinctFrom left right left_null right_null = (\<not> DistinctFrom left right left_null right_null)"

definition DistinctGreaterThan :: null_op where
  "DistinctGreaterThan left right left_null right_null =
     (if left_null \<or> right_null then \<not> right_null else GreaterThan left right)"

definition DistinctGreaterThanNullsFirst :: null_op where
  "DistinctGreaterThanNullsFirst left right left_null right_null = DistinctGreaterThan left right right_null left_null"

definition DistinctGreaterThanEquals :: null_op where
  "DistinctGreaterThanEquals left right left_null right_null = (\<not> DistinctGreaterThan right left right_null left_null)"

definition DistinctLessThan :: null_op where
  "DistinctLessThan left right left_null right_null = DistinctGreaterThan right left right_null left_null"

definition DistinctLessThanNullsFirst :: null_op where
  "DistinctLessThanNullsFirst left right left_null right_null = DistinctGreaterThan right left left_null right_null"

definition DistinctLessThanEquals :: null_op where
  "DistinctLessThanEquals left right left_null right_null = (\<not> DistinctGreaterThan left right left_null right_null)"

section \<open>Result vectors\<close>

definition DistinctExecuteGenericLoop :: "null_op \<Rightarrow> UnifiedVectorFormat \<Rightarrow> UnifiedVectorFormat \<Rightarrow> nat \<Rightarrow> cell list \<Rightarrow> cell list" where
  "DistinctExecuteGenericLoop OP l r cnt result_data =
     fold (\<lambda>i d.
         let lindex = get_index (uf_sel l) i; rindex = get_index (uf_sel r) i in
         d[i := bool_cell (OP (uf_data l ! lindex) (uf_data r ! rindex)
                  (\<not> RowIsValid (uf_validity l) lindex) (\<not> RowIsValid (uf_validity r) rindex))])
       [0..<cnt] result_data"

definition DistinctExecuteConstant :: "null_op \<Rightarrow> Vector \<Rightarrow> Vector \<Rightarrow> Vector \<Rightarrow> Vector" where
  "DistinctExecuteConstant OP left right res =
     (let res = SetVectorType CONSTANT_VECTOR res in
      Constant (GetType res)
        ((vec_data res)[0 := bool_cell (OP (vec_data left ! 0) (vec_data right ! 0) (ConstantVector_IsNull left) (ConstantVector_IsNull right))])
        (vec_validity res))"

definition DistinctExecute :: "junk \<Rightarrow> null_op \<Rightarrow> Vector \<Rightarrow> Vector \<Rightarrow> nat \<Rightarrow> Vector \<Rightarrow> Vector result" where
  "DistinctExecute junk OP left right cnt res =
     (if GetVectorType left = CONSTANT_VECTOR \<and> GetVectorType right = CONSTANT_VECTOR
      then Inr (DistinctExecuteConstant OP left right res)
      else
        bindE (ToUnifiedFormat junk cnt left) (\<lambda>ldata.
        bindE (ToUnifiedFormat junk cnt right) (\<lambda>rdata.
          let res = SetVectorType FLAT_VECTOR res in
          Inr (Flat (GetType res) (DistinctExecuteGenericLoop OP ldata rdata cnt (vec_data res)) (vec_validity res)))))"

definition ExecuteDistinct ::
    "nested_compare \<Rightarrow> junk \<Rightarrow> ExpressionType \<Rightarrow> null_op \<Rightarrow> Vector \<Rightarrow> Vector \<Rightarrow> nat \<Rightarrow> Vector \<Rightarrow> Vector result" where
  "ExecuteDistinct nested junk et OP left right cnt res =
     (let pt = InternalType (GetType left) in
      if loop_type pt then DistinctExecute junk OP left right cnt res
      else if nested_type pt then nested et left right cnt res
      else Inl InternalException)"

definition VectorOperations_DistinctFrom :: "nested_compare \<Rightarrow> junk \<Rightarrow> Vector \<Rightarrow> Vector \<Rightarrow> nat \<Rightarrow> Vector \<Rightarrow> Vector result" where
  "VectorOperations_DistinctFrom nested junk left right = ExecuteDistinct nested junk ET_COMPARE_DISTINCT_FROM DistinctFrom left right"

definition VectorOperations_NotDistinctFrom :: "nested_compare \<Rightarrow> junk \<Rightarrow> Vector \<Rightarrow> Vector \<Rightarrow> nat \<Rightarrow> Vector \<Rightarrow> Vector result" where
  "VectorOperations_NotDistinctFrom nested junk left right =
     ExecuteDistinct nested junk ET_COMPARE_NOT_DISTINCT_FROM NotDistinctFrom left right"

section \<open>Selections\<close>

definition DistinctSelectGenericLoop ::
    "bool \<Rightarrow> null_op \<Rightarrow> UnifiedVectorFormat \<Rightarrow> UnifiedVectorFormat \<Rightarrow> selref \<Rightarrow> nat \<Rightarrow> SelectionVector option \<Rightarrow> SelectionVector option
      \<Rightarrow> select_output" where
  "DistinctSelectGenericLoop NO_NULL OP l r sel cnt ts fs =
     (let P = (\<lambda>i.
            let lindex = get_index (uf_sel l) i; rindex = get_index (uf_sel r) i in
            if NO_NULL then OP (uf_data l ! lindex) (uf_data r ! rindex) False False
            else OP (uf_data l ! lindex) (uf_data r ! rindex)
                   (\<not> RowIsValid (uf_validity l) lindex) (\<not> RowIsValid (uf_validity r) rindex));
          st = fold (branch_step sel P) [0..<cnt] (select_init ts fs)
      in select_output (select_result cnt st) st)"

definition DistinctSelectGeneric ::
    "junk \<Rightarrow> null_op \<Rightarrow> Vector \<Rightarrow> Vector \<Rightarrow> selref \<Rightarrow> nat \<Rightarrow> SelectionVector option \<Rightarrow> SelectionVector option \<Rightarrow> select_output result" where
  "DistinctSelectGeneric junk OP left right sel cnt ts fs =
     bindE (ToUnifiedFormat junk cnt left) (\<lambda>l.
     bindE (ToUnifiedFormat junk cnt right) (\<lambda>r.
       Inr (DistinctSelectGenericLoop (\<not> (\<not> AllValid (uf_validity l) \<or> \<not> AllValid (uf_validity r))) OP l r sel cnt ts fs)))"

definition DistinctSelectFlatLoop ::
    "null_op \<Rightarrow> bool \<Rightarrow> bool \<Rightarrow> cell list \<Rightarrow> cell list \<Rightarrow> ValidityMask \<Rightarrow> ValidityMask \<Rightarrow> selref \<Rightarrow> nat
      \<Rightarrow> SelectionVector option \<Rightarrow> SelectionVector option \<Rightarrow> select_output" where
  "DistinctSelectFlatLoop OP lc rc ldata rdata lmask rmask sel cnt ts fs =
     (let P = (\<lambda>i.
            let lidx = (if lc then 0 else i); ridx = (if rc then 0 else i);
                lnull = \<not> RowIsValid lmask lidx; rnull = \<not> RowIsValid rmask ridx in
            OP (ldata ! lidx) (rdata ! ridx) lnull rnull);
          st = fold (write_step sel P) [0..<cnt] (select_init ts fs)
      in select_output (select_result cnt st) st)"

text \<open>The mask a constant side gets: one row, valid or not.\<close>

definition constant_mask :: "Vector \<Rightarrow> ValidityMask" where
  "constant_mask v =
     (let validity = Mask_Reset STANDARD_VECTOR_SIZE in if ConstantVector_IsNull v then SetAllInvalid 1 validity else validity)"

definition DistinctSelectFlat ::
    "null_op \<Rightarrow> bool \<Rightarrow> bool \<Rightarrow> Vector \<Rightarrow> Vector \<Rightarrow> selref \<Rightarrow> nat \<Rightarrow> SelectionVector option \<Rightarrow> SelectionVector option \<Rightarrow> select_output" where
  "DistinctSelectFlat OP lc rc left right sel cnt ts fs =
     (if lc then
        DistinctSelectFlatLoop OP lc rc (vec_data left) (vec_data right) (constant_mask left) (vec_validity right) sel cnt ts fs
      else if rc then
        DistinctSelectFlatLoop OP lc rc (vec_data left) (vec_data right) (vec_validity left) (constant_mask right) sel cnt ts fs
      else
        DistinctSelectFlatLoop OP lc rc (vec_data left) (vec_data right) (vec_validity left) (vec_validity right) sel cnt ts fs)"

definition DistinctSelectConstant ::
    "null_op \<Rightarrow> Vector \<Rightarrow> Vector \<Rightarrow> selref \<Rightarrow> nat \<Rightarrow> SelectionVector option \<Rightarrow> SelectionVector option \<Rightarrow> select_output" where
  "DistinctSelectConstant OP left right sel cnt ts fs =
     (if \<not> OP (vec_data left ! 0) (vec_data right ! 0) (ConstantVector_IsNull left) (ConstantVector_IsNull right)
      then select_output 0 (fill_output sel cnt False (select_init ts fs))
      else select_output cnt (fill_output sel cnt True (select_init ts fs)))"

text \<open>The part of the operations that marks the NULL rows of both sides for the caller.\<close>

definition update_null_masks :: "junk \<Rightarrow> Vector \<Rightarrow> Vector \<Rightarrow> SelectionVector \<Rightarrow> nat \<Rightarrow> ValidityMask option \<Rightarrow> ValidityMask option result" where
  "update_null_masks junk left right sel cnt null_mask =
     (case null_mask of
        None \<Rightarrow> Inr None
      | Some m \<Rightarrow>
          bindE (UpdateNullMask junk left sel cnt m) (\<lambda>m.
          bindE (UpdateNullMask junk right sel cnt m) (\<lambda>m. Inr (Some m))))"

definition DistinctSelect ::
    "junk \<Rightarrow> null_op \<Rightarrow> Vector \<Rightarrow> Vector \<Rightarrow> selref \<Rightarrow> nat \<Rightarrow> SelectionVector option \<Rightarrow> SelectionVector option \<Rightarrow> ValidityMask option
      \<Rightarrow> (select_output \<times> ValidityMask option) result" where
  "DistinctSelect junk OP left right sel cnt ts fs null_mask =
     bindE (update_null_masks junk left right (ref_sel sel ts fs) cnt null_mask) (\<lambda>null_mask.
       let lt = GetVectorType left; rt = GetVectorType right in
       bindE (if lt = CONSTANT_VECTOR \<and> rt = CONSTANT_VECTOR then Inr (DistinctSelectConstant OP left right sel cnt ts fs)
              else if lt = CONSTANT_VECTOR \<and> rt = FLAT_VECTOR then Inr (DistinctSelectFlat OP True False left right sel cnt ts fs)
              else if lt = FLAT_VECTOR \<and> rt = CONSTANT_VECTOR then Inr (DistinctSelectFlat OP False True left right sel cnt ts fs)
              else if lt = FLAT_VECTOR \<and> rt = FLAT_VECTOR then Inr (DistinctSelectFlat OP False False left right sel cnt ts fs)
              else DistinctSelectGeneric junk OP left right sel cnt ts fs)
         (\<lambda>r. Inr (r, null_mask)))"

type_synonym nested_distinct =
  "null_op \<Rightarrow> Vector \<Rightarrow> Vector \<Rightarrow> selref \<Rightarrow> nat \<Rightarrow> SelectionVector option \<Rightarrow> SelectionVector option \<Rightarrow> ValidityMask option
    \<Rightarrow> (select_output \<times> ValidityMask option) result"

definition TemplatedDistinctSelectOperation :: "nested_distinct \<Rightarrow> junk \<Rightarrow> nested_distinct" where
  "TemplatedDistinctSelectOperation nested junk OP left right sel cnt ts fs null_mask =
     (let pt = InternalType (GetType left) in
      if loop_type pt then DistinctSelect junk OP left right sel cnt ts fs null_mask
      else if nested_type pt then nested OP left right sel cnt ts fs null_mask
      else Inl InternalException)"

text \<open>The negated comparisons exchange the outputs and count the complement.\<close>

definition complement_select ::
    "(selref \<Rightarrow> nat \<Rightarrow> SelectionVector option \<Rightarrow> SelectionVector option \<Rightarrow> ValidityMask option \<Rightarrow> (select_output \<times> ValidityMask option) result)
      \<Rightarrow> selref \<Rightarrow> nat \<Rightarrow> SelectionVector option \<Rightarrow> SelectionVector option \<Rightarrow> ValidityMask option \<Rightarrow> (select_output \<times> ValidityMask option) result" where
  "complement_select select sel cnt ts fs null_mask =
     bindE (select (swap_ref sel) cnt fs ts null_mask) (\<lambda>((c, fs', ts'), null_mask). Inr ((cnt - c, ts', fs'), null_mask))"

type_synonym compare_select =
  "Vector \<Rightarrow> Vector \<Rightarrow> selref \<Rightarrow> nat \<Rightarrow> SelectionVector option \<Rightarrow> SelectionVector option \<Rightarrow> ValidityMask option
    \<Rightarrow> (select_output \<times> ValidityMask option) result"

definition Select_DistinctFrom :: "nested_distinct \<Rightarrow> junk \<Rightarrow> Vector \<Rightarrow> Vector \<Rightarrow> filter_fn" where
  "Select_DistinctFrom nested junk left right sel cnt ts fs =
     bindE (TemplatedDistinctSelectOperation nested junk DistinctFrom left right sel cnt ts fs None) (\<lambda>(r, _). Inr r)"

definition Select_NotDistinctFrom :: "nested_distinct \<Rightarrow> junk \<Rightarrow> Vector \<Rightarrow> Vector \<Rightarrow> filter_fn" where
  "Select_NotDistinctFrom nested junk left right sel cnt ts fs =
     bindE (complement_select (TemplatedDistinctSelectOperation nested junk DistinctFrom left right) sel cnt ts fs None) (\<lambda>(r, _). Inr r)"

definition Select_DistinctGreaterThan :: "nested_distinct \<Rightarrow> junk \<Rightarrow> compare_select" where
  "Select_DistinctGreaterThan nested junk left right =
     TemplatedDistinctSelectOperation nested junk DistinctGreaterThan left right"

definition Select_DistinctGreaterThanNullsFirst :: "nested_distinct \<Rightarrow> junk \<Rightarrow> compare_select" where
  "Select_DistinctGreaterThanNullsFirst nested junk left right =
     TemplatedDistinctSelectOperation nested junk DistinctGreaterThanNullsFirst left right"

definition Select_DistinctGreaterThanEquals :: "nested_distinct \<Rightarrow> junk \<Rightarrow> compare_select" where
  "Select_DistinctGreaterThanEquals nested junk left right =
     complement_select (TemplatedDistinctSelectOperation nested junk DistinctGreaterThan right left)"

definition Select_DistinctLessThan :: "nested_distinct \<Rightarrow> junk \<Rightarrow> compare_select" where
  "Select_DistinctLessThan nested junk left right =
     TemplatedDistinctSelectOperation nested junk DistinctGreaterThan right left"

text \<open>The only one of the orders that does not pass the caller's mask on.\<close>

definition Select_DistinctLessThanNullsFirst :: "nested_distinct \<Rightarrow> junk \<Rightarrow> compare_select" where
  "Select_DistinctLessThanNullsFirst nested junk left right sel cnt ts fs null_mask =
     bindE (TemplatedDistinctSelectOperation nested junk DistinctGreaterThanNullsFirst right left sel cnt ts fs None)
       (\<lambda>(r, _). Inr (r, null_mask))"

definition Select_DistinctLessThanEquals :: "nested_distinct \<Rightarrow> junk \<Rightarrow> compare_select" where
  "Select_DistinctLessThanEquals nested junk left right =
     complement_select (TemplatedDistinctSelectOperation nested junk DistinctGreaterThan left right)"

section \<open>Loops that fill every row\<close>

lemma store_loop_executes:
  assumes "scalar_type t" "n \<le> length d" and "AllValid m" "mask_wf m" "n \<le> capacity m"
    and "\<And>i. i < n \<Longrightarrow> row i = Inr (Some (c i))"
  shows "executes t n row (Inr (Flat t (fold (\<lambda>i d. d[i := c i]) [0..<n] d) m))"
proof -
  have "mapE row [0..<n] = Inr (map (\<lambda>i. Some (c i)) [0..<n])" by (rule mapE_total) (simp add: assms(6))
  moreover have "RowIsValid m i" for i using assms(3) by (simp add: AllValid_def RowIsValid_bit)
  ultimately show ?thesis
    using fold_rows_nth [of n d "\<lambda>_. True" c] assms(1,2,4,5) by (simp add: executes_def)
qed

section \<open>What the loops need of an operation\<close>

text \<open>The order with NULL as a value: equal to itself and above, or below, every other.\<close>

fun null_equal :: "cell option \<Rightarrow> cell option \<Rightarrow> bool" where
  "null_equal None None = True"
| "null_equal (Some a) (Some b) = Equals a b"
| "null_equal _ _ = False"

fun null_greater :: "bool \<Rightarrow> cell option \<Rightarrow> cell option \<Rightarrow> bool" where
  "null_greater nulls_first (Some a) (Some b) = GreaterThan a b"
| "null_greater nulls_first None None = False"
| "null_greater nulls_first None (Some b) = (\<not> nulls_first)"
| "null_greater nulls_first (Some a) None = nulls_first"

text \<open>An operation on values and flags computes a relation of optional values; the value under a NULL is not looked at.\<close>

locale null_comparison =
  fixes OP :: null_op and R :: "cell option \<Rightarrow> cell option \<Rightarrow> bool"
  assumes flags: "OP a b ln rn = R (if ln then None else Some a) (if rn then None else Some b)"
begin

definition row :: "Vector \<Rightarrow> Vector \<Rightarrow> nat \<Rightarrow> bool" where
  "row left right i = R (vec_row left i) (vec_row right i)"

lemma unified_flags:
  assumes "unified_row l i = vec_row left i" and "unified_row r i = vec_row right i"
  shows "OP (uf_data l ! get_index (uf_sel l) i) (uf_data r ! get_index (uf_sel r) i)
    (\<not> RowIsValid (uf_validity l) (get_index (uf_sel l) i)) (\<not> RowIsValid (uf_validity r) (get_index (uf_sel r) i)) = row left right i"
  using assms by (simp add: flags row_def unified_row_def Let_def split: if_splits)

lemma constant_flags:
  "OP (vec_data (Constant lt ld lm) ! 0) (vec_data (Constant rt rd rm) ! 0) (ConstantVector_IsNull (Constant lt ld lm))
     (ConstantVector_IsNull (Constant rt rd rm)) = row (Constant lt ld lm) (Constant rt rd rm) i"
  by (simp add: flags row_def vec_data_def ConstantVector_IsNull_def)

lemma DistinctExecute_rows:
  assumes "vec_ok n left" and "vec_ok n right" and "fresh_vec n res" and "0 < n"
  shows "executes (GetType res) n (\<lambda>i. Inr (Some (bool_cell (row left right i)))) (DistinctExecute junk OP left right n res)"
  using assms(3)
proof (rule fresh_vecE)
  fix t d m
  assume res: "res = Flat t d m" "scalar_type t" "n \<le> length d" "d \<noteq> []" "AllValid m" "mask_wf m" "n \<le> capacity m" "0 < capacity m"
  show ?thesis
  proof (cases "GetVectorType left = CONSTANT_VECTOR \<and> GetVectorType right = CONSTANT_VECTOR")
    case True
    then obtain lt ld lm rt rd rm where lr: "left = Constant lt ld lm" "right = Constant rt rd rm"
      by (cases left; cases right) simp_all
    define b where "b = row left right 0"
    have same: "row left right i = b" for i by (simp add: lr row_def b_def)
    have "executes t n (\<lambda>i. Inr (Some (bool_cell (row left right i)))) (Inr (Constant t (d[0 := bool_cell b]) m))"
      by (rule executes_same [where x = "Some (bool_cell b)"])
        (use same res in \<open>simp_all add: AllValid_def RowIsValid_bit\<close>)
    then show ?thesis
      using True res(1) constant_flags [of lt ld lm rt rd rm 0]
      by (simp add: DistinctExecute_def DistinctExecuteConstant_def SetVectorType_def vec_data_def vec_validity_def lr b_def)
  next
    case False
    obtain l r where u: "ToUnifiedFormat junk n left = Inr l" "ToUnifiedFormat junk n right = Inr r"
      "\<forall>i < n. unified_row l i = vec_row left i" "\<forall>i < n. unified_row r i = vec_row right i"
      using unified_rows [OF assms(1)] unified_rows [OF assms(2)] by blast
    have loop: "DistinctExecuteGenericLoop OP l r n d = fold (\<lambda>i d. d[i := bool_cell (row left right i)]) [0..<n] d"
      unfolding DistinctExecuteGenericLoop_def Let_def
      by (rule fold_cong) (use u(3,4) unified_flags in simp_all)
    have "executes t n (\<lambda>i. Inr (Some (bool_cell (row left right i)))) (Inr (Flat t (DistinctExecuteGenericLoop OP l r n d) m))"
      unfolding loop by (rule store_loop_executes) (use res in simp_all)
    then show ?thesis
      using False u(1,2) res(1)
      by (auto simp: DistinctExecute_def SetVectorType_def vec_data_def vec_validity_def Let_def split del: if_split)
  qed
qed

lemma DistinctSelectFlatLoop_rows:
  assumes "select_ready n sel ts fs"
    and "\<And>i. i < n \<Longrightarrow> vec_row left i = (if RowIsValid lm (if lc then 0 else i) then Some (ld ! (if lc then 0 else i)) else None)"
    and "\<And>i. i < n \<Longrightarrow> vec_row right i = (if RowIsValid rm (if rc then 0 else i) then Some (rd ! (if rc then 0 else i)) else None)"
  shows "splits n (sel_row sel ts fs) (row left right) ts fs (DistinctSelectFlatLoop OP lc rc ld rd lm rm sel n ts fs)"
proof -
  let ?P = "\<lambda>i. OP (ld ! (if lc then 0 else i)) (rd ! (if rc then 0 else i))
    (\<not> RowIsValid lm (if lc then 0 else i)) (\<not> RowIsValid rm (if rc then 0 else i))"
  have P: "row left right i = ?P i" if "i < n" for i
    unfolding row_def flags assms(2,3) [OF that] if_not_P by auto
  have "splits n (sel_row sel ts fs) ?P ts fs (DistinctSelectFlatLoop OP lc rc ld rd lm rm sel n ts fs)"
    using assms(1) loop_splits [of n _ ts fs sel "\<lambda>_. write_step" ?P]
    by (simp add: select_ready_def DistinctSelectFlatLoop_def select_output_def Let_def)
  then show ?thesis by (rule splits_cong) (rule P)
qed

lemma constant_mask_row: "RowIsValid (constant_mask (Constant t d m)) 0 = RowIsValid m 0"
  using SetAllInvalid_rows [of "Mask_Reset STANDARD_VECTOR_SIZE" 1 0]
  by (simp add: constant_mask_def ConstantVector_IsNull_def Mask_Reset_def Let_def)

lemma DistinctSelectFlat_rows:
  assumes "select_ready n sel ts fs"
  shows "splits n (sel_row sel ts fs) (row (Constant lt ld lm) (Flat rt rd rm)) ts fs
      (DistinctSelectFlat OP True False (Constant lt ld lm) (Flat rt rd rm) sel n ts fs)"
    and "splits n (sel_row sel ts fs) (row (Flat lt ld lm) (Constant rt rd rm)) ts fs
      (DistinctSelectFlat OP False True (Flat lt ld lm) (Constant rt rd rm) sel n ts fs)"
    and "splits n (sel_row sel ts fs) (row (Flat lt ld lm) (Flat rt rd rm)) ts fs
      (DistinctSelectFlat OP False False (Flat lt ld lm) (Flat rt rd rm) sel n ts fs)"
  unfolding DistinctSelectFlat_def if_True if_False
  by (rule DistinctSelectFlatLoop_rows [OF assms]; simp add: constant_mask_row vec_data_def vec_validity_def)+

lemma DistinctSelectGeneric_rows:
  assumes "vec_ok n left" "vec_ok n right" and "select_ready n sel ts fs"
  shows "\<exists>r. DistinctSelectGeneric junk OP left right sel n ts fs = Inr r \<and> splits n (sel_row sel ts fs) (row left right) ts fs r"
proof -
  obtain l r where u: "ToUnifiedFormat junk n left = Inr l" "ToUnifiedFormat junk n right = Inr r"
    "\<forall>i < n. unified_row l i = vec_row left i" "\<forall>i < n. unified_row r i = vec_row right i"
    using unified_rows [OF assms(1)] unified_rows [OF assms(2)] by blast
  let ?b = "\<not> (\<not> AllValid (uf_validity l) \<or> \<not> AllValid (uf_validity r))"
  let ?P = "\<lambda>i. let lindex = get_index (uf_sel l) i; rindex = get_index (uf_sel r) i in
      if ?b then OP (uf_data l ! lindex) (uf_data r ! rindex) False False
      else OP (uf_data l ! lindex) (uf_data r ! rindex) (\<not> RowIsValid (uf_validity l) lindex) (\<not> RowIsValid (uf_validity r) rindex)"
  have P: "row left right i = ?P i" if "i < n" for i
    using unified_flags [of l i left r right] u(3,4) that by (auto simp: Let_def AllValid_def RowIsValid_bit)
  have "splits n (sel_row sel ts fs) ?P ts fs (DistinctSelectGenericLoop ?b OP l r sel n ts fs)"
    using assms(3) loop_splits [of n _ ts fs sel "\<lambda>_. branch_step" ?P]
    unfolding select_ready_def DistinctSelectGenericLoop_def select_output_def Let_def by simp
  then have "splits n (sel_row sel ts fs) (row left right) ts fs (DistinctSelectGenericLoop ?b OP l r sel n ts fs)"
    by (rule splits_cong) (rule P)
  with u(1,2) show ?thesis by (simp add: DistinctSelectGeneric_def)
qed

lemma DistinctSelectConstant_rows:
  assumes "select_ready n sel ts fs"
  shows "splits n (sel_row sel ts fs) (row (Constant lt ld lm) (Constant rt rd rm)) ts fs
    (DistinctSelectConstant OP (Constant lt ld lm) (Constant rt rd rm) sel n ts fs)"
proof -
  define b where "b = row (Constant lt ld lm) (Constant rt rd rm) 0"
  have "row (Constant lt ld lm) (Constant rt rd rm) i = b" for i by (simp add: b_def row_def)
  from fill_rows [OF assms this] show ?thesis
    unfolding DistinctSelectConstant_def constant_flags [where i = 0] b_def [symmetric] by (cases b) simp_all
qed

lemma DistinctSelect_rows:
  assumes "vec_ok n left" "vec_ok n right" and "select_ready n sel ts fs"
    and "update_null_masks junk left right (ref_sel sel ts fs) n null_mask = Inr null_mask'"
  shows "\<exists>r. DistinctSelect junk OP left right sel n ts fs null_mask = Inr (r, null_mask') \<and>
    splits n (sel_row sel ts fs) (row left right) ts fs r"
  using assms(1)
proof (cases rule: vec_ok_cases)
  case (Flat lt ld lm)
  note left = this
  from assms(2) show ?thesis
    by (cases rule: vec_ok_cases)
      (use left assms(4) DistinctSelectFlat_rows [OF assms(3)] DistinctSelectGeneric_rows [OF assms(1-3), of junk] in
        \<open>auto simp: DistinctSelect_def\<close>)
next
  case (Constant lt ld lm)
  note left = this
  from assms(2) show ?thesis
    by (cases rule: vec_ok_cases)
      (use left assms(4) DistinctSelectFlat_rows [OF assms(3)] DistinctSelectConstant_rows [OF assms(3)]
          DistinctSelectGeneric_rows [OF assms(1-3), of junk] in \<open>auto simp: DistinctSelect_def\<close>)
next
  case (Dictionary lt xs ld lm)
  then show ?thesis
    using DistinctSelectGeneric_rows [OF assms(1-3), of junk] assms(4) by (auto simp: DistinctSelect_def)
qed

end

section \<open>The operations\<close>

interpretation distinct_from: null_comparison DistinctFrom "\<lambda>x y. \<not> null_equal x y"
  by unfold_locales (simp add: DistinctFrom_def NotEquals_def)

interpretation not_distinct_from: null_comparison NotDistinctFrom null_equal
  by unfold_locales (simp add: NotDistinctFrom_def DistinctFrom_def NotEquals_def)

interpretation nulls_last: null_comparison DistinctGreaterThan "null_greater False"
  by unfold_locales (simp add: DistinctGreaterThan_def)

interpretation nulls_first: null_comparison DistinctGreaterThanNullsFirst "null_greater True"
  by unfold_locales (simp add: DistinctGreaterThanNullsFirst_def DistinctGreaterThan_def)

end
