(* ===== verification/Execute_Comparison.thy ===== *)
theory Execute_Comparison
  imports Distinct_Comparison
begin

text \<open>
  The comparison node of the executor (\<open>execute_comparison.cpp\<close>) on the vectors of its two children: the
  vector of results and the selection. Both are proved to agree with one definition of the eight SQL
  comparisons on optional values, so that a predicate gives the same rows in a projection and in a filter.
\<close>

section \<open>Operations\<close>

definition Execute_Comparison ::
    "nested_compare \<Rightarrow> bool \<Rightarrow> junk \<Rightarrow> ExpressionType \<Rightarrow> Vector \<Rightarrow> Vector \<Rightarrow> nat \<Rightarrow> Vector \<Rightarrow> Vector result" where
  "Execute_Comparison nested same junk et left right cnt res =
     (case et of
        ET_COMPARE_EQUAL \<Rightarrow> VectorOperations_Equals nested same junk left right cnt res
      | ET_COMPARE_NOTEQUAL \<Rightarrow> VectorOperations_NotEquals nested same junk left right cnt res
      | ET_COMPARE_LESSTHAN \<Rightarrow> VectorOperations_LessThan nested same junk left right cnt res
      | ET_COMPARE_GREATERTHAN \<Rightarrow> VectorOperations_GreaterThan nested same junk left right cnt res
      | ET_COMPARE_LESSTHANOREQUALTO \<Rightarrow> VectorOperations_LessThanEquals nested same junk left right cnt res
      | ET_COMPARE_GREATERTHANOREQUALTO \<Rightarrow> VectorOperations_GreaterThanEquals nested same junk left right cnt res
      | ET_COMPARE_DISTINCT_FROM \<Rightarrow> VectorOperations_DistinctFrom nested junk left right cnt res
      | ET_COMPARE_NOT_DISTINCT_FROM \<Rightarrow> VectorOperations_NotDistinctFrom nested junk left right cnt res
      | _ \<Rightarrow> Inl InternalException)"

text \<open>The selections of \<open>VectorOperations\<close> without a mask for the caller.\<close>

definition select_with ::
    "nested_select \<Rightarrow> bool \<Rightarrow> junk \<Rightarrow> ExpressionType \<Rightarrow> (cell \<Rightarrow> cell \<Rightarrow> bool) \<Rightarrow> Vector \<Rightarrow> Vector \<Rightarrow> filter_fn" where
  "select_with nested same junk et OP left right sel cnt ts fs =
     bindE (TemplatedSelectOperation nested same junk et OP left right sel cnt ts fs None) (\<lambda>(r, _). Inr r)"

definition Select_Comparison ::
    "nested_select \<Rightarrow> nested_distinct \<Rightarrow> bool \<Rightarrow> junk \<Rightarrow> ExpressionType \<Rightarrow> Vector \<Rightarrow> Vector \<Rightarrow> filter_fn" where
  "Select_Comparison nested dnested same junk et left right =
     (case et of
        ET_COMPARE_EQUAL \<Rightarrow> select_with nested same junk ET_COMPARE_EQUAL Equals left right
      | ET_COMPARE_NOTEQUAL \<Rightarrow> select_with nested same junk ET_COMPARE_NOTEQUAL NotEquals left right
      | ET_COMPARE_LESSTHAN \<Rightarrow> select_with nested same junk ET_COMPARE_GREATERTHAN GreaterThan right left
      | ET_COMPARE_GREATERTHAN \<Rightarrow> select_with nested same junk ET_COMPARE_GREATERTHAN GreaterThan left right
      | ET_COMPARE_LESSTHANOREQUALTO \<Rightarrow> select_with nested same junk ET_COMPARE_GREATERTHANOREQUALTO GreaterThanEquals right left
      | ET_COMPARE_GREATERTHANOREQUALTO \<Rightarrow> select_with nested same junk ET_COMPARE_GREATERTHANOREQUALTO GreaterThanEquals left right
      | ET_COMPARE_DISTINCT_FROM \<Rightarrow> Select_DistinctFrom dnested junk left right
      | ET_COMPARE_NOT_DISTINCT_FROM \<Rightarrow> Select_NotDistinctFrom dnested junk left right
      | _ \<Rightarrow> (\<lambda>_ _ _ _. Inl InternalException))"

section \<open>The eight comparisons\<close>

definition comparison_types :: "ExpressionType list" where
  "comparison_types = [ET_COMPARE_EQUAL, ET_COMPARE_NOTEQUAL, ET_COMPARE_LESSTHAN, ET_COMPARE_GREATERTHAN,
     ET_COMPARE_LESSTHANOREQUALTO, ET_COMPARE_GREATERTHANOREQUALTO, ET_COMPARE_DISTINCT_FROM, ET_COMPARE_NOT_DISTINCT_FROM]"

text \<open>The value of a comparison of two values, in terms of \<open>=\<close> and \<open>>\<close> only.\<close>

definition compares :: "ExpressionType \<Rightarrow> cell \<Rightarrow> cell \<Rightarrow> bool" where
  "compares et a b =
     (case et of
        ET_COMPARE_EQUAL \<Rightarrow> Equals a b
      | ET_COMPARE_NOTEQUAL \<Rightarrow> \<not> Equals a b
      | ET_COMPARE_LESSTHAN \<Rightarrow> GreaterThan b a
      | ET_COMPARE_GREATERTHAN \<Rightarrow> GreaterThan a b
      | ET_COMPARE_LESSTHANOREQUALTO \<Rightarrow> \<not> GreaterThan a b
      | _ \<Rightarrow> \<not> GreaterThan b a)"

definition sql_compare :: "ExpressionType \<Rightarrow> cell option \<Rightarrow> cell option \<Rightarrow> bool option" where
  "sql_compare et x y =
     (if et = ET_COMPARE_DISTINCT_FROM then Some (\<not> null_equal x y)
      else if et = ET_COMPARE_NOT_DISTINCT_FROM then Some (null_equal x y)
      else case (x, y) of (Some a, Some b) \<Rightarrow> Some (compares et a b) | _ \<Rightarrow> None)"

lemma GreaterThanEquals_iff: "GreaterThanEquals a b \<longleftrightarrow> \<not> GreaterThan b a"
  by (cases a; cases b) (auto simp: order_defs)

lemmas compares_simps = NotEquals_def GreaterThanEquals_iff

lemma compare_row_sql:
  "compare_row OP left right i = map_option bool_cell (sql_compare et (vec_row left i) (vec_row right i))"
  if "et \<notin> {ET_COMPARE_DISTINCT_FROM, ET_COMPARE_NOT_DISTINCT_FROM}" and "\<And>a b. OP a b = compares et a b"
  using that by (auto simp: compare_row_def sql_compare_def split: option.splits)

lemma compare_row_swap: "compare_row OP right left i = compare_row (\<lambda>a b. OP b a) left right i"
  by (simp add: compare_row_def split: option.splits)

lemma cmp_row_sql:
  "cmp_row OP left right i \<longleftrightarrow> sql_compare et (vec_row left i) (vec_row right i) = Some True"
  if "et \<notin> {ET_COMPARE_DISTINCT_FROM, ET_COMPARE_NOT_DISTINCT_FROM}" and "\<And>a b. OP a b = compares et a b"
  using that by (auto simp: cmp_row_def sql_compare_def split: option.splits)

lemma cmp_row_swap: "cmp_row OP right left i = cmp_row (\<lambda>a b. OP b a) left right i"
  by (simp add: cmp_row_def split: option.splits)

text \<open>Two vectors that a comparison can be run on.\<close>

definition comparable :: "bool \<Rightarrow> nat \<Rightarrow> Vector \<Rightarrow> Vector \<Rightarrow> bool" where
  "comparable same n left right \<longleftrightarrow>
     GetType left = GetType right \<and> loop_type (InternalType (GetType left)) \<and> vec_ok n left \<and> vec_ok n right \<and>
     (same \<longrightarrow> validity_mask (vec_validity left) = validity_mask (vec_validity right))"

lemma comparableD:
  assumes "comparable same n left right"
  shows "loop_type (InternalType (GetType left))" "loop_type (InternalType (GetType right))" "vec_ok n left" "vec_ok n right"
    "same \<longrightarrow> validity_mask (vec_validity left) = validity_mask (vec_validity right)"
    "same \<longrightarrow> validity_mask (vec_validity right) = validity_mask (vec_validity left)"
  using assms by (auto simp: comparable_def)

abbreviation sql_row :: "ExpressionType \<Rightarrow> Vector \<Rightarrow> Vector \<Rightarrow> nat \<Rightarrow> cell option" where
  "sql_row et left right i \<equiv> map_option bool_cell (sql_compare et (vec_row left i) (vec_row right i))"

lemma plain_comparison_rows:
  assumes "comparable same n left right" and "fresh_vec n res" "0 < n"
  shows "executes (GetType res) n (\<lambda>i. Inr (compare_row OP left right i)) (ComparisonExecutor_Execute nested same junk et OP left right n res)"
    and "executes (GetType res) n (\<lambda>i. Inr (compare_row (\<lambda>a b. OP b a) left right i))
      (ComparisonExecutor_Execute nested same junk et OP right left n res)"
  using ComparisonExecutor_rows [OF comparableD(1,3,4) [OF assms(1)] assms(2,3) comparableD(5) [OF assms(1)], of OP nested junk et]
    ComparisonExecutor_rows [OF comparableD(2,4,3) [OF assms(1)] assms(2,3) comparableD(6) [OF assms(1)], of OP nested junk et]
  by (simp_all add: compare_row_swap [of OP right left])

lemma distinct_comparison_rows:
  assumes "comparable same n left right" and "fresh_vec n res" "0 < n"
  shows "executes (GetType res) n (\<lambda>i. Inr (Some (bool_cell (\<not> null_equal (vec_row left i) (vec_row right i)))))
      (VectorOperations_DistinctFrom nested junk left right n res)"
    and "executes (GetType res) n (\<lambda>i. Inr (Some (bool_cell (null_equal (vec_row left i) (vec_row right i)))))
      (VectorOperations_NotDistinctFrom nested junk left right n res)"
  using distinct_from.DistinctExecute_rows [of n left right res junk] not_distinct_from.DistinctExecute_rows [of n left right res junk]
    comparableD(1,3,4) [OF assms(1)] assms(2,3)
  by (simp_all add: VectorOperations_DistinctFrom_def VectorOperations_NotDistinctFrom_def ExecuteDistinct_def
      distinct_from.row_def not_distinct_from.row_def Let_def)

lemma Execute_Comparison_rows:
  assumes "et \<in> set comparison_types" and "comparable same n left right" and "fresh_vec n res" "0 < n"
  shows "executes (GetType res) n (\<lambda>i. Inr (sql_row et left right i)) (Execute_Comparison nested same junk et left right n res)"
proof -
  note plain = plain_comparison_rows [OF assms(2-4), of _ nested junk]
  have rows: "(\<lambda>i. Inr (compare_row OP left right i)) = (\<lambda>i. Inr (sql_row et left right i))"
    if "et \<notin> {ET_COMPARE_DISTINCT_FROM, ET_COMPARE_NOT_DISTINCT_FROM}" "\<And>a b. OP a b = compares et a b" for OP
    using compare_row_sql [OF that] by simp
  show ?thesis
    using assms(1) plain(1) [of Equals ET_COMPARE_EQUAL] plain(1) [of NotEquals ET_COMPARE_NOTEQUAL]
      plain(1) [of GreaterThan ET_COMPARE_GREATERTHAN] plain(2) [of GreaterThan ET_COMPARE_GREATERTHAN]
      plain(1) [of GreaterThanEquals ET_COMPARE_GREATERTHANOREQUALTO] plain(2) [of GreaterThanEquals ET_COMPARE_GREATERTHANOREQUALTO]
      distinct_comparison_rows [OF assms(2-4), of nested junk]
    unfolding comparison_types_def
    by (auto simp: Execute_Comparison_def VectorOperations_Equals_def VectorOperations_NotEquals_def VectorOperations_LessThan_def
        VectorOperations_GreaterThan_def VectorOperations_LessThanEquals_def VectorOperations_GreaterThanEquals_def
        sql_compare_def compares_def compares_simps rows)
qed

section \<open>Selections\<close>

lemma splits_complement:
  assumes "splits n row P fs ts (c, fs', ts')"
  shows "splits n row (\<lambda>i. \<not> P i) ts fs (n - c, ts', fs')"
  using assms sum_length_filter_compl [of P "[0..<n]"] by (auto simp: splits_def)

lemma sel_row_swap: "sel_row (swap_ref sel) fs ts = sel_row sel ts fs"
  by (cases sel) (auto simp: ref_index_def select_init_def fun_eq_iff)

lemma plain_select_rows:
  assumes "comparable same n left right" and "select_ready n sel ts fs"
  shows "\<exists>r. select_with nested same junk et OP left right sel n ts fs = Inr r \<and> splits n (sel_row sel ts fs) (cmp_row OP left right) ts fs r"
    and "\<exists>r. select_with nested same junk et OP right left sel n ts fs = Inr r \<and>
      splits n (sel_row sel ts fs) (cmp_row (\<lambda>a b. OP b a) left right) ts fs r"
  using TemplatedSelectOperation_rows [OF comparableD(1,3,4) [OF assms(1)] assms(2) comparableD(5) [OF assms(1)], of nested junk et OP]
    TemplatedSelectOperation_rows [OF comparableD(2,4,3) [OF assms(1)] assms(2) comparableD(6) [OF assms(1)], of nested junk et OP]
  by (auto simp: select_with_def cmp_row_swap [of OP right left, abs_def])

lemma distinct_select_rows:
  assumes "comparable same n left right" and "select_ready n sel ts fs"
  shows "\<exists>r. Select_DistinctFrom dnested junk left right sel n ts fs = Inr r \<and>
      splits n (sel_row sel ts fs) (\<lambda>i. \<not> null_equal (vec_row left i) (vec_row right i)) ts fs r"
    and "\<exists>r. Select_NotDistinctFrom dnested junk left right sel n ts fs = Inr r \<and>
      splits n (sel_row sel ts fs) (\<lambda>i. null_equal (vec_row left i) (vec_row right i)) ts fs r"
proof -
  have run: "\<exists>r. TemplatedDistinctSelectOperation dnested junk DistinctFrom left right sel n ts fs None = Inr (r, None) \<and>
      splits n (sel_row sel ts fs) (\<lambda>i. \<not> null_equal (vec_row left i) (vec_row right i)) ts fs r"
    if "select_ready n sel ts fs" for sel ts fs
    using distinct_from.DistinctSelect_rows [of n left right sel ts fs junk None None] comparableD(1,3,4) [OF assms(1)] that
    by (simp add: TemplatedDistinctSelectOperation_def update_null_masks_def distinct_from.row_def [abs_def] Let_def)
  from run [OF assms(2)] show "\<exists>r. Select_DistinctFrom dnested junk left right sel n ts fs = Inr r \<and>
      splits n (sel_row sel ts fs) (\<lambda>i. \<not> null_equal (vec_row left i) (vec_row right i)) ts fs r"
    by (auto simp: Select_DistinctFrom_def)
  have "select_ready n (swap_ref sel) fs ts"
    using assms(2) select_ready_swap [of n "swap_ref sel" ts fs] by simp
  from run [OF this] obtain c fs' ts' where c: "TemplatedDistinctSelectOperation dnested junk DistinctFrom left right (swap_ref sel) n fs ts None = Inr ((c, fs', ts'), None)"
    "splits n (sel_row sel ts fs) (\<lambda>i. \<not> null_equal (vec_row left i) (vec_row right i)) fs ts (c, fs', ts')"
    by (auto simp: sel_row_swap)
  with splits_complement [OF c(2)] show "\<exists>r. Select_NotDistinctFrom dnested junk left right sel n ts fs = Inr r \<and>
      splits n (sel_row sel ts fs) (\<lambda>i. null_equal (vec_row left i) (vec_row right i)) ts fs r"
    by (simp add: Select_NotDistinctFrom_def complement_select_def)
qed

lemma Select_Comparison_rows:
  assumes "et \<in> set comparison_types" and "comparable same n left right" and "select_ready n sel ts fs"
  shows "\<exists>r. Select_Comparison nested dnested same junk et left right sel n ts fs = Inr r \<and>
    splits n (sel_row sel ts fs) (\<lambda>i. sql_compare et (vec_row left i) (vec_row right i) = Some True) ts fs r"
proof -
  note plain = plain_select_rows [OF assms(2,3), of nested junk]
  have rows: "cmp_row OP left right = (\<lambda>i. sql_compare et (vec_row left i) (vec_row right i) = Some True)"
    if "et \<notin> {ET_COMPARE_DISTINCT_FROM, ET_COMPARE_NOT_DISTINCT_FROM}" "\<And>a b. OP a b = compares et a b" for OP
    using cmp_row_sql [OF that] by auto
  show ?thesis
    using assms(1) plain(1) [of ET_COMPARE_EQUAL Equals] plain(1) [of ET_COMPARE_NOTEQUAL NotEquals]
      plain(1) [of ET_COMPARE_GREATERTHAN GreaterThan] plain(2) [of ET_COMPARE_GREATERTHAN GreaterThan]
      plain(1) [of ET_COMPARE_GREATERTHANOREQUALTO GreaterThanEquals] plain(2) [of ET_COMPARE_GREATERTHANOREQUALTO GreaterThanEquals]
      distinct_select_rows [OF assms(2,3), of dnested junk]
    unfolding comparison_types_def
    by (auto simp: Select_Comparison_def sql_compare_def compares_def compares_simps rows)
qed

text \<open>
  C35: A comparison gives every row the SQL value of its two values, for all eight comparison types, all
  forms of vectors and every scalar type but INTERVAL: NULL if a side is NULL, except for (NOT) DISTINCT FROM, in
  which NULL is equal to itself only. As a filter it keeps exactly the rows for which this value is
  TRUE. An expression type that is not a comparison is refused.
\<close>

theorem comparison_rows:
  assumes "comparable same n left right" and "fresh_vec n res" and "0 < n" and "select_ready n sel ts fs"
  shows "if et \<in> set comparison_types
    then (\<exists>v. Execute_Comparison nested same junk et left right n res = Inr v \<and> GetType v = GetType res \<and> vec_ok n v \<and>
           (\<forall>i < n. vec_row v i = map_option bool_cell (sql_compare et (vec_row left i) (vec_row right i)))) \<and>
         (\<exists>r. Select_Comparison snested dnested same junk et left right sel n ts fs = Inr r \<and>
           splits n (sel_row sel ts fs) (\<lambda>i. sql_compare et (vec_row left i) (vec_row right i) = Some True) ts fs r)
    else Execute_Comparison nested same junk et left right n res = Inl InternalException \<and>
         Select_Comparison snested dnested same junk et left right sel n ts fs = Inl InternalException"
proof (cases "et \<in> set comparison_types")
  case True
  then show ?thesis
    using Execute_Comparison_rows [OF True assms(1-3), of nested junk] Select_Comparison_rows [OF True assms(1,4), of snested dnested junk]
    by (simp add: executes_def mapE_total)
next
  case False
  then show ?thesis
    by (cases et) (simp_all add: comparison_types_def Execute_Comparison_def Select_Comparison_def)
qed

text \<open>The witness: a dictionary of booleans with a NULL against a constant NULL, with \<open>=\<close> and IS DISTINCT FROM.\<close>

theorem comparison_rows_witness:
  "(let null = Constant BOOLEAN [CInt 0] (SetInvalid 0 (Mask_Reset 64)) in
     (\<exists>v. Execute_Comparison (\<lambda>_ _ _ _ _. Inl InternalException) False (\<lambda>_. 0) ET_COMPARE_EQUAL ex_dict null 3
          (Vector_Initialize (\<lambda>_. 0) BOOLEAN 64) = Inr v \<and> vec_row v 0 = None) \<and>
     (\<exists>v. Execute_Comparison (\<lambda>_ _ _ _ _. Inl InternalException) False (\<lambda>_. 0) ET_COMPARE_DISTINCT_FROM ex_dict null 3
          (Vector_Initialize (\<lambda>_. 0) BOOLEAN 64) = Inr v \<and> vec_row v 0 = Some (CInt 1)))"
proof -
  let ?null = "Constant BOOLEAN [CInt 0] (SetInvalid 0 (Mask_Reset 64))" and ?res = "Vector_Initialize (\<lambda>_. 0) BOOLEAN 64"
  have null: "vec_row ?null 0 = None"
    by (simp add: RowIsValid_SetInvalid Mask_Reset_def)
  have 1: "comparable False 3 ex_dict ?null"
    using ex_dict_ok
    by (simp add: comparable_def loop_type_def ex_dict_def scalar_type_def constant_size_type_def Mask_Reset_def)
  have 2: "fresh_vec 3 ?res"
    by (simp add: Vector_Initialize_def fresh_vec_def scalar_type_def constant_size_type_def Mask_Reset_def AllValid_def)
  have 3: "select_ready 3 (SelFixed None) (Some (Some [0, 0, 0])) None"
    by (simp add: select_ready_def outputs_ready_def ref_ok_def select_init_def ref_index_def get_index_def)
  have one: "vec_row ex_dict 0 = Some (CInt 1)" by (simp add: ex_dict_def get_index_def Mask_Reset_def)
  have "ET_COMPARE_EQUAL \<in> set comparison_types" "ET_COMPARE_DISTINCT_FROM \<in> set comparison_types"
    by (simp_all add: comparison_types_def)
  then have "\<exists>v. Execute_Comparison (\<lambda>_ _ _ _ _. Inl InternalException) False (\<lambda>_. 0) et ex_dict ?null 3 ?res = Inr v \<and>
      vec_row v 0 = map_option bool_cell (sql_compare et (vec_row ex_dict 0) (vec_row ?null 0))"
    if "et \<in> {ET_COMPARE_EQUAL, ET_COMPARE_DISTINCT_FROM}" for et
    using comparison_rows [OF 1 2 _ 3, where et = et and nested = "\<lambda>_ _ _ _ _. Inl InternalException" and junk = "\<lambda>_. 0"
        and snested = "\<lambda>_ _ _ _ _ _ _. Inl InternalException" and dnested = "\<lambda>_ _ _ _ _ _ _ _. Inl InternalException"] that
    by (auto simp del: vec_row.simps)
  from this [of ET_COMPARE_EQUAL] this [of ET_COMPARE_DISTINCT_FROM] show ?thesis
    unfolding null one by (simp add: Let_def sql_compare_def bool_cell_def)
qed

section \<open>Orders with NULL as a value\<close>

text \<open>The caller's mask: the rows with a NULL on either side are cleared.\<close>

definition null_rows_marked :: "nat \<Rightarrow> (nat \<Rightarrow> nat) \<Rightarrow> Vector \<Rightarrow> Vector \<Rightarrow> ValidityMask option \<Rightarrow> ValidityMask option \<Rightarrow> bool" where
  "null_rows_marked n row left right m m' \<longleftrightarrow>
     (case m of
        None \<Rightarrow> m' = None
      | Some m0 \<Rightarrow> (\<exists>m1. m' = Some m1 \<and> mask_wf m1 \<and> capacity m1 = capacity m0 \<and>
          (\<forall>r < capacity m0. RowIsValid m1 r \<longleftrightarrow>
             RowIsValid m0 r \<and> (\<forall>i < n. row i = r \<longrightarrow> vec_row left i \<noteq> None \<and> vec_row right i \<noteq> None))))"

definition mask_ready :: "nat \<Rightarrow> (nat \<Rightarrow> nat) \<Rightarrow> ValidityMask option \<Rightarrow> bool" where
  "mask_ready n row m \<longleftrightarrow> (case m of None \<Rightarrow> True | Some m0 \<Rightarrow> mask_wf m0 \<and> (\<forall>i < n. row i < capacity m0))"

lemma ref_sel_row: "get_index (ref_sel sel ts fs) i = sel_row sel ts fs i"
  by (cases sel) (simp_all add: ref_sel_def ref_index_def select_init_def)

lemma update_null_masks_rows:
  assumes "vec_ok n left" "vec_ok n right" and "mask_ready n (sel_row sel ts fs) m"
  shows "\<exists>m'. update_null_masks junk left right (ref_sel sel ts fs) n m = Inr m' \<and> null_rows_marked n (sel_row sel ts fs) left right m m'"
proof (cases m)
  case None
  then show ?thesis by (simp add: update_null_masks_def null_rows_marked_def)
next
  case (Some m0)
  then have m0: "mask_wf m0" "\<forall>i < n. get_index (ref_sel sel ts fs) i < capacity m0"
    using assms(3) by (simp_all add: mask_ready_def ref_sel_row)
  obtain m1 where m1: "UpdateNullMask junk left (ref_sel sel ts fs) n m0 = Inr m1" "mask_wf m1" "capacity m1 = capacity m0"
    "\<forall>r < capacity m0. RowIsValid m1 r \<longleftrightarrow> RowIsValid m0 r \<and> (\<forall>i < n. get_index (ref_sel sel ts fs) i = r \<longrightarrow> vec_row left i \<noteq> None)"
    using UpdateNullMask_rows [OF assms(1) m0] by blast
  obtain m2 where "UpdateNullMask junk right (ref_sel sel ts fs) n m1 = Inr m2" "mask_wf m2" "capacity m2 = capacity m1"
    "\<forall>r < capacity m1. RowIsValid m2 r \<longleftrightarrow> RowIsValid m1 r \<and> (\<forall>i < n. get_index (ref_sel sel ts fs) i = r \<longrightarrow> vec_row right i \<noteq> None)"
    using UpdateNullMask_rows [OF assms(2) m1(2)] m0(2) m1(3) by metis
  with m1 Some show ?thesis
    by (auto simp: update_null_masks_def null_rows_marked_def ref_sel_row)
qed

definition order_select ::
    "(cell option \<Rightarrow> cell option \<Rightarrow> bool) \<Rightarrow> Vector \<Rightarrow> Vector \<Rightarrow> selref \<Rightarrow> nat \<Rightarrow> SelectionVector option \<Rightarrow> SelectionVector option \<Rightarrow>
      ValidityMask option \<Rightarrow> (select_output \<times> ValidityMask option) result \<Rightarrow> bool" where
  "order_select R left right sel n ts fs m res \<longleftrightarrow>
     (\<exists>r m'. res = Inr (r, m') \<and> splits n (sel_row sel ts fs) (\<lambda>i. R (vec_row left i) (vec_row right i)) ts fs r \<and>
        null_rows_marked n (sel_row sel ts fs) left right m m')"

lemma null_rows_marked_swap: "null_rows_marked n row left right m m' = null_rows_marked n row right left m m'"
  by (cases m) (auto simp: null_rows_marked_def)

lemma order_select_swap:
  "order_select R left right sel n ts fs m res = order_select (\<lambda>x y. R y x) right left sel n ts fs m res"
  by (simp add: order_select_def null_rows_marked_swap [of n _ left right])

lemma order_select_complement:
  assumes "order_select R left right (swap_ref sel) n fs ts m (select (swap_ref sel) n fs ts m)"
  shows "order_select (\<lambda>x y. \<not> R x y) left right sel n ts fs m (complement_select select sel n ts fs m)"
  using assms by (auto simp: order_select_def complement_select_def sel_row_swap intro!: splits_complement)

lemma distinct_order_rows:
  assumes "vec_ok n left" "vec_ok n right" "loop_type (InternalType (GetType left))" and "select_ready n sel ts fs"
    and "mask_ready n (sel_row sel ts fs) m"
  shows "order_select (null_greater False) left right sel n ts fs m
      (TemplatedDistinctSelectOperation dnested junk DistinctGreaterThan left right sel n ts fs m)"
    and "order_select (null_greater True) left right sel n ts fs m
      (TemplatedDistinctSelectOperation dnested junk DistinctGreaterThanNullsFirst left right sel n ts fs m)"
proof -
  obtain m' where m': "update_null_masks junk left right (ref_sel sel ts fs) n m = Inr m'" "null_rows_marked n (sel_row sel ts fs) left right m m'"
    using update_null_masks_rows [OF assms(1,2,5)] by blast
  from nulls_last.DistinctSelect_rows [OF assms(1,2,4) m'(1)] nulls_first.DistinctSelect_rows [OF assms(1,2,4) m'(1)] m'(2) assms(3)
  show "order_select (null_greater False) left right sel n ts fs m
      (TemplatedDistinctSelectOperation dnested junk DistinctGreaterThan left right sel n ts fs m)"
    and "order_select (null_greater True) left right sel n ts fs m
      (TemplatedDistinctSelectOperation dnested junk DistinctGreaterThanNullsFirst left right sel n ts fs m)"
    unfolding order_select_def TemplatedDistinctSelectOperation_def nulls_last.row_def [abs_def] nulls_first.row_def [abs_def]
    by (auto simp: Let_def)
qed

text \<open>
  C38: The order comparisons with NULL as a value split the rows by one total order per position of NULL:
  \<open>>\<close> with NULL last or first, and \<open>>=\<close>, \<open><\<close>, \<open><=\<close> as its mirror images and complements; each of them
  also clears, in the caller's mask, exactly the rows in which a side is NULL.
\<close>

theorem distinct_orders_select:
  assumes "comparable same n left right" and "select_ready n sel ts fs" and "mask_ready n (sel_row sel ts fs) m"
  shows "order_select (null_greater False) left right sel n ts fs m (Select_DistinctGreaterThan dn junk left right sel n ts fs m) \<and>
    order_select (null_greater True) left right sel n ts fs m (Select_DistinctGreaterThanNullsFirst dn junk left right sel n ts fs m) \<and>
    order_select (\<lambda>x y. null_greater False y x) left right sel n ts fs m (Select_DistinctLessThan dn junk left right sel n ts fs m) \<and>
    order_select (\<lambda>x y. \<not> null_greater False y x) left right sel n ts fs m (Select_DistinctGreaterThanEquals dn junk left right sel n ts fs m) \<and>
    order_select (\<lambda>x y. \<not> null_greater False x y) left right sel n ts fs m (Select_DistinctLessThanEquals dn junk left right sel n ts fs m)"
proof -
  note ok = comparableD [OF assms(1)]
  have swap: "select_ready n (swap_ref sel) fs ts" "mask_ready n (sel_row (swap_ref sel) fs ts) m"
    using assms(2,3) select_ready_swap [of n "swap_ref sel" ts fs] by (simp_all add: sel_row_swap)
  show ?thesis
    unfolding Select_DistinctGreaterThan_def Select_DistinctGreaterThanNullsFirst_def Select_DistinctLessThan_def
      Select_DistinctGreaterThanEquals_def Select_DistinctLessThanEquals_def
    using distinct_order_rows [OF ok(3,4,1) assms(2,3)] distinct_order_rows(1) [OF ok(4,3,2) assms(2,3)]
      order_select_complement [where select = "TemplatedDistinctSelectOperation dn junk DistinctGreaterThan right left",
        OF distinct_order_rows(1) [OF ok(4,3,2) swap]]
      order_select_complement [where select = "TemplatedDistinctSelectOperation dn junk DistinctGreaterThan left right",
        OF distinct_order_rows(1) [OF ok(3,4,1) swap]]
    unfolding order_select_swap [of _ right left] by blast
qed

definition ex_nulls :: Vector where
  "ex_nulls = Constant BOOLEAN [CInt 0] (SetInvalid 0 (Mask_Reset 64))"

lemma ex_nulls_row: "vec_row ex_nulls i = None"
  by (simp add: ex_nulls_def RowIsValid_SetInvalid Mask_Reset_def)

lemma ex_comparable: "comparable False 3 ex_dict ex_nulls"
  using ex_dict_ok
  by (simp add: comparable_def loop_type_def ex_dict_def ex_nulls_def scalar_type_def constant_size_type_def Mask_Reset_def)

text \<open>With NULL last, no boolean is above NULL; the mask loses every row.\<close>

theorem distinct_orders_select_witness:
  "\<exists>r m. Select_DistinctGreaterThan (\<lambda>_ _ _ _ _ _ _ _. Inl InternalException) (\<lambda>_. 0) ex_dict ex_nulls (SelFixed None) 3
      (Some (Some [0, 0, 0])) None (Some (Mask_Reset 64)) = Inr (r, Some m) \<and> fst r = 0 \<and> \<not> RowIsValid m 2"
proof -
  have ready: "select_ready 3 (SelFixed None) (Some (Some [0, 0, 0])) None"
    "mask_ready 3 (sel_row (SelFixed None) (Some (Some [0, 0, 0])) None) (Some (Mask_Reset 64))"
    by (simp_all add: select_ready_def outputs_ready_def ref_ok_def select_init_def ref_index_def get_index_def mask_ready_def Mask_Reset_def)
  have none: "filter (\<lambda>i. null_greater False (vec_row ex_dict i) None) [0..<3] = []"
    by (rule filter_False) (auto simp: ex_dict_def get_index_def Mask_Reset_def upt_rec)
  show ?thesis
    using distinct_orders_select [OF ex_comparable ready, of "\<lambda>_ _ _ _ _ _ _ _. Inl InternalException" "\<lambda>_. 0"] none
    by (auto simp: order_select_def splits_def null_rows_marked_def ex_nulls_row Mask_Reset_def ref_index_def get_index_def)
qed

text \<open>
  \<open>DistinctLessThanNullsFirst\<close> gives the mirror image too, but leaves the caller's mask as it is: its mask
  parameter is not used.
\<close>

lemma less_than_nulls_first:
  assumes "comparable same n left right" and "select_ready n sel ts fs"
  shows "\<exists>r. Select_DistinctLessThanNullsFirst dn junk left right sel n ts fs m = Inr (r, m) \<and>
    splits n (sel_row sel ts fs) (\<lambda>i. null_greater True (vec_row right i) (vec_row left i)) ts fs r"
  using distinct_order_rows(2) [OF comparableD(4,3,2) [OF assms(1)] assms(2), of None dn junk]
  by (auto simp: Select_DistinctLessThanNullsFirst_def order_select_def mask_ready_def)

text \<open>The order is total on the values of a type, with NULL at the end.\<close>

fun same_kind_opt :: "cell option \<Rightarrow> cell option \<Rightarrow> bool" where
  "same_kind_opt (Some a) (Some b) = same_kind a b"
| "same_kind_opt _ _ = True"

lemma null_greater_total:
  "same_kind_opt x y \<Longrightarrow> (null_greater nf x y \<longrightarrow> \<not> null_equal x y \<and> \<not> null_greater nf y x) \<and> (null_greater nf x y \<or> null_equal x y \<or> null_greater nf y x)"
  using same_kind_order by (cases x; cases y) auto

end
