(* ===== verification/Executor_Monad.thy ===== *)
theory Executor_Monad
  imports Execute_Comparison
begin

text \<open>
  The interface between a node of \<open>ExpressionExecutor\<close> and its children. Executing a child may throw and
  changes the state the executor carries from batch to batch (the profiler's counts, compiled kernels,
  adaptive filters), also when it throws: a run maps a state to a result and a state.

  What a child promises is the locale \<open>children\<close>. Its rows are described by sets of outcomes: several
  outcomes are allowed where the executor may stop at a row early or not, depending on the order in
  which filters run.
\<close>

section \<open>Runs\<close>

type_synonym ('w, 'a) run = "'w \<Rightarrow> 'a result \<times> 'w"

definition returnW :: "'a \<Rightarrow> ('w, 'a) run" where
  "returnW a w = (Inr a, w)"

definition liftW :: "'a result \<Rightarrow> ('w, 'a) run" where
  "liftW r w = (r, w)"

definition bindW :: "('w, 'a) run \<Rightarrow> ('a \<Rightarrow> ('w, 'b) run) \<Rightarrow> ('w, 'b) run" where
  "bindW m f w = (case m w of (Inl e, w') \<Rightarrow> (Inl e, w') | (Inr a, w') \<Rightarrow> f a w')"

text \<open>\<open>try { m } catch\<close>: the handler sees the error and the state it left.\<close>

definition catchW :: "('w, 'a) run \<Rightarrow> (error \<Rightarrow> ('w, 'a) run) \<Rightarrow> ('w, 'a) run" where
  "catchW m h w = (case m w of (Inl e, w') \<Rightarrow> h e w' | (Inr a, w') \<Rightarrow> (Inr a, w'))"

text \<open>A run that keeps the invariant of the state and whose result, a value or an error, satisfies \<open>Q\<close>.\<close>

definition yields :: "('w \<Rightarrow> bool) \<Rightarrow> ('a result \<Rightarrow> bool) \<Rightarrow> ('w, 'a) run \<Rightarrow> bool" where
  "yields I Q m \<longleftrightarrow> (\<forall>w. I w \<longrightarrow> Q (fst (m w)) \<and> I (snd (m w)))"

named_theorems yields_intros

lemma yields_return [yields_intros]: "Q (Inr a) \<Longrightarrow> yields I Q (returnW a)"
  by (simp add: yields_def returnW_def)

lemma yields_lift [yields_intros]: "Q r \<Longrightarrow> yields I Q (liftW r)"
  by (simp add: yields_def liftW_def)

lemma yields_bind:
  assumes "yields I Q m" and "\<And>e. Q (Inl e) \<Longrightarrow> R (Inl e)" and "\<And>a. Q (Inr a) \<Longrightarrow> yields I R (f a)"
  shows "yields I R (bindW m f)"
  unfolding yields_def bindW_def
proof (intro allI impI)
  fix w assume "I w"
  with assms(1) have "Q (fst (m w))" "I (snd (m w))" by (simp_all add: yields_def)
  then show "R (fst (case m w of (Inl e, w') \<Rightarrow> (Inl e, w') | (Inr a, w') \<Rightarrow> f a w')) \<and>
      I (snd (case m w of (Inl e, w') \<Rightarrow> (Inl e, w') | (Inr a, w') \<Rightarrow> f a w'))"
    using assms(2,3) by (cases "m w"; cases "fst (m w)") (auto simp: yields_def)
qed

lemma yields_catch:
  assumes "yields I Q m" and "\<And>a. Q (Inr a) \<Longrightarrow> R (Inr a)" and "\<And>e. Q (Inl e) \<Longrightarrow> yields I R (h e)"
  shows "yields I R (catchW m h)"
  unfolding yields_def catchW_def
proof (intro allI impI)
  fix w assume "I w"
  with assms(1) have "Q (fst (m w))" "I (snd (m w))" by (simp_all add: yields_def)
  then show "R (fst (case m w of (Inl e, w') \<Rightarrow> h e w' | (Inr a, w') \<Rightarrow> (Inr a, w'))) \<and>
      I (snd (case m w of (Inl e, w') \<Rightarrow> h e w' | (Inr a, w') \<Rightarrow> (Inr a, w')))"
    using assms(2,3) by (cases "m w"; cases "fst (m w)") (auto simp: yields_def)
qed

lemma yields_mono: "yields I Q m \<Longrightarrow> (\<And>r. Q r \<Longrightarrow> R r) \<Longrightarrow> yields I R m"
  by (auto simp: yields_def)

lemma bindW_lift [simp]: "bindW (liftW (Inr a)) f = f a" "bindW (returnW a) f = f a" "bindW (liftW (Inl e)) f = liftW (Inl e)"
  by (simp_all add: bindW_def liftW_def returnW_def fun_eq_iff)

section \<open>Outcomes\<close>

type_synonym outcome = "cell option result"

text \<open>The rows a child is run on: distinct rows of the chunk.\<close>

definition rows_ok :: "nat \<Rightarrow> nat list \<Rightarrow> bool" where
  "rows_ok chunk_size rows \<longleftrightarrow>
     rows \<noteq> [] \<and> distinct rows \<and> set rows \<subseteq> {..<chunk_size} \<and> chunk_size \<le> STANDARD_VECTOR_SIZE"

lemma rows_ok_length: "rows_ok s rows \<Longrightarrow> 0 < length rows \<and> length rows \<le> STANDARD_VECTOR_SIZE"
proof -
  assume rows: "rows_ok s rows"
  then have "card (set rows) = length rows" by (simp add: rows_ok_def distinct_card)
  moreover have "card (set rows) \<le> s"
    using rows card_mono [of "{..<s}" "set rows"] by (auto simp: rows_ok_def)
  ultimately show ?thesis using rows by (auto simp: rows_ok_def)
qed

lemma rows_ok_sub: "rows_ok s rows \<Longrightarrow> rows' \<noteq> [] \<Longrightarrow> distinct rows' \<Longrightarrow> set rows' \<subseteq> set rows \<Longrightarrow> rows_ok s rows'"
  by (auto simp: rows_ok_def)

text \<open>The result of an execution: a vector with an allowed value per row, or an error that one of the rows allows.\<close>

definition evals :: "LogicalType \<Rightarrow> (nat \<Rightarrow> outcome set) \<Rightarrow> nat list \<Rightarrow> Vector result \<Rightarrow> bool" where
  "evals t oc rows r \<longleftrightarrow>
     (case r of
        Inl e \<Rightarrow> (\<exists>x \<in> set rows. Inl e \<in> oc x)
      | Inr v \<Rightarrow> GetType v = t \<and> vec_ok (length rows) v \<and> (\<forall>i < length rows. Inr (vec_row v i) \<in> oc (rows ! i)))"

lemma evals_simps [simp]:
  "evals t oc rows (Inl e) \<longleftrightarrow> (\<exists>x \<in> set rows. Inl e \<in> oc x)"
  "evals t oc rows (Inr v) \<longleftrightarrow> GetType v = t \<and> vec_ok (length rows) v \<and> (\<forall>i < length rows. Inr (vec_row v i) \<in> oc (rows ! i))"
  by (simp_all add: evals_def)

text \<open>What a filter does with a row: TRUE passes, FALSE and NULL do not.\<close>

definition is_true :: "cell option \<Rightarrow> bool" where
  "is_true y \<longleftrightarrow> (\<exists>c. y = Some c \<and> byte_true c)"

definition can_pass :: "outcome set \<Rightarrow> bool" where
  "can_pass A \<longleftrightarrow> (\<exists>y. Inr y \<in> A \<and> is_true y)"

definition can_fail :: "outcome set \<Rightarrow> bool" where
  "can_fail A \<longleftrightarrow> (\<exists>y. Inr y \<in> A \<and> \<not> is_true y)"

definition filters ::
    "(nat \<Rightarrow> outcome set) \<Rightarrow> nat list \<Rightarrow> SelectionVector option \<Rightarrow> SelectionVector option \<Rightarrow> select_output result \<Rightarrow> bool" where
  "filters oc rows ts fs r \<longleftrightarrow>
     (case r of
        Inl e \<Rightarrow> (\<exists>x \<in> set rows. Inl e \<in> oc x)
      | Inr out \<Rightarrow> (\<exists>P. parts rows P ts fs out \<and> (\<forall>x \<in> set rows. if P x then can_pass (oc x) else can_fail (oc x))))"

lemma filters_simps [simp]:
  "filters oc rows ts fs (Inl e) \<longleftrightarrow> (\<exists>x \<in> set rows. Inl e \<in> oc x)"
  "filters oc rows ts fs (Inr out) \<longleftrightarrow>
     (\<exists>P. parts rows P ts fs out \<and> (\<forall>x \<in> set rows. if P x then can_pass (oc x) else can_fail (oc x)))"
  by (simp_all add: filters_def)

lemma evals_cong: "(\<And>x. x \<in> set rows \<Longrightarrow> oc x \<subseteq> oc' x) \<Longrightarrow> evals t oc rows r \<Longrightarrow> evals t oc' rows r"
  by (cases r) (auto, meson nth_mem subsetD)

section \<open>Children\<close>

type_synonym 'w exec_fn = "SelectionVector \<Rightarrow> nat \<Rightarrow> Vector \<Rightarrow> ('w, Vector) run"
type_synonym 'w select_fn = "selref \<Rightarrow> nat \<Rightarrow> SelectionVector option \<Rightarrow> SelectionVector option \<Rightarrow> ('w, select_output) run"

text \<open>An unwritten vector with room for every row of a chunk.\<close>

abbreviation blank :: "LogicalType \<Rightarrow> Vector \<Rightarrow> bool" where
  "blank t v \<equiv> fresh_vec STANDARD_VECTOR_SIZE v \<and> GetType v = t"

definition sel_fits :: "SelectionVector \<Rightarrow> nat \<Rightarrow> bool" where
  "sel_fits sel n \<longleftrightarrow> (case sel of None \<Rightarrow> True | Some xs \<Rightarrow> n \<le> length xs)"

lemma fresh_vec_mono: "fresh_vec n v \<Longrightarrow> m \<le> n \<Longrightarrow> fresh_vec m v"
  by (auto simp: fresh_vec_def split: Vector.splits)

text \<open>Executing some of the children one after the other, each into an unwritten vector.\<close>

fun exec_all :: "junk \<Rightarrow> (nat \<Rightarrow> LogicalType) \<Rightarrow> (nat \<Rightarrow> 'w exec_fn) \<Rightarrow> SelectionVector \<Rightarrow> nat \<Rightarrow> nat list \<Rightarrow> ('w, Vector list) run" where
  "exec_all junk types exec sel cnt [] = returnW []"
| "exec_all junk types exec sel cnt (k # ks) =
     bindW (exec k sel cnt (Vector_Initialize junk (types k) STANDARD_VECTOR_SIZE)) (\<lambda>v.
     bindW (exec_all junk types exec sel cnt ks) (\<lambda>vs. returnW (v # vs)))"

text \<open>What that gives: an error of one of the children on one of the rows, or their vectors.\<close>

definition has_rows :: "LogicalType \<Rightarrow> (nat \<Rightarrow> outcome set) \<Rightarrow> nat list \<Rightarrow> Vector \<Rightarrow> bool" where
  "has_rows t oc rows v \<longleftrightarrow> GetType v = t \<and> vec_ok (length rows) v \<and> (\<forall>i < length rows. Inr (vec_row v i) \<in> oc (rows ! i))"

lemma evals_has_rows: "evals t oc rows (Inr v) \<longleftrightarrow> has_rows t oc rows v"
  by (simp add: has_rows_def)

definition all_evals :: "(nat \<Rightarrow> LogicalType) \<Rightarrow> (nat \<Rightarrow> nat \<Rightarrow> outcome set) \<Rightarrow> nat list \<Rightarrow> nat list \<Rightarrow> Vector list result \<Rightarrow> bool" where
  "all_evals ty oc rows ks r \<longleftrightarrow>
     (case r of
        Inl e \<Rightarrow> (\<exists>x \<in> set rows. \<exists>k \<in> set ks. Inl e \<in> oc k x)
      | Inr vs \<Rightarrow> list_all2 (\<lambda>k. has_rows (ty k) (oc k) rows) ks vs)"

text \<open>The outcomes of a node that needs the values of all its children: an error of any of them, or what \<open>f\<close> allows for their values.\<close>

definition strict_out :: "(cell option list \<Rightarrow> outcome set) \<Rightarrow> outcome set list \<Rightarrow> outcome set" where
  "strict_out f As = {Inl e | e. \<exists>A \<in> set As. Inl e \<in> A} \<union> {r. \<exists>ys. list_all2 (\<lambda>A y. Inr y \<in> A) As ys \<and> r \<in> f ys}"

lemma strict_out_error: "A \<in> set As \<Longrightarrow> Inl e \<in> A \<Longrightarrow> Inl e \<in> strict_out f As"
  by (auto simp: strict_out_def)

lemma strict_out_value: "list_all2 (\<lambda>A y. Inr y \<in> A) As ys \<Longrightarrow> r \<in> f ys \<Longrightarrow> r \<in> strict_out f As"
  by (auto simp: strict_out_def)

text \<open>
  Some nodes can only be executed in some places. A node that is \<open>roomy\<close> writes its result under the row
  numbers of the chunk, so the result vector needs room for a whole chunk even if one row is asked for. A
  node that is \<open>dense\<close> is only right on the rows \<open>0, 1, \<dots>\<close>, without a selection.
\<close>

locale children =
  fixes exec :: "nat \<Rightarrow> 'w exec_fn" and select :: "nat \<Rightarrow> 'w select_fn" and I :: "'w \<Rightarrow> bool"
    and arity :: nat and ty :: "nat \<Rightarrow> LogicalType" and oc :: "nat \<Rightarrow> nat \<Rightarrow> outcome set" and chunk_size :: nat
    and roomy :: "nat \<Rightarrow> bool" and dense :: "nat \<Rightarrow> bool"
  assumes exec_ok:
    "k < arity \<Longrightarrow> sel_fits sel n \<Longrightarrow> rows_ok chunk_size (sel_rows sel n) \<Longrightarrow> dense k \<longrightarrow> sel = None \<Longrightarrow>
     GetType res = ty k \<Longrightarrow> fresh_vec n res \<Longrightarrow> roomy k \<longrightarrow> fresh_vec STANDARD_VECTOR_SIZE res \<Longrightarrow>
     yields I (evals (ty k) (oc k) (sel_rows sel n)) (exec k sel n res)"
    and select_ok:
    "k < arity \<Longrightarrow> ty k = BOOLEAN \<Longrightarrow> rows_ok chunk_size (ref_rows ref ts fs n) \<Longrightarrow> dense k \<longrightarrow> ref = SelFixed None \<Longrightarrow>
     select_ready n ref ts fs \<Longrightarrow> ts \<noteq> None \<Longrightarrow> sel_fits (ref_sel ref ts fs) n \<Longrightarrow>
     yields I (filters (oc k) (ref_rows ref ts fs n) ts fs) (select k ref n ts fs)"
    and select_none: "k < arity \<Longrightarrow> select k ref 0 ts fs = returnW (0, ts, fs)"
begin

lemma exec_blank:
  assumes "k < arity" "sel_fits sel n" "rows_ok chunk_size (sel_rows sel n)" "dense k \<longrightarrow> sel = None" "blank (ty k) res"
  shows "yields I (evals (ty k) (oc k) (sel_rows sel n)) (exec k sel n res)"
  using assms fresh_vec_mono [of STANDARD_VECTOR_SIZE res n] rows_ok_length [OF assms(3)] by (intro exec_ok) auto

lemma exec_fresh:
  assumes "k < arity" "sel_fits sel n" "rows_ok chunk_size (sel_rows sel n)" "dense k \<longrightarrow> sel = None" "scalar_type (ty k)"
  shows "yields I (evals (ty k) (oc k) (sel_rows sel n)) (exec k sel n (Vector_Initialize junk (ty k) STANDARD_VECTOR_SIZE))"
  using assms by (intro exec_blank) (simp_all add: Vector_Initialize_eq fresh_vec_def AllValid_def)

lemma exec_all_yields:
  assumes "sel_fits sel n" "rows_ok chunk_size (sel_rows sel n)"
    and "\<forall>k \<in> set ks. k < arity \<and> scalar_type (ty k) \<and> (dense k \<longrightarrow> sel = None)"
  shows "yields I (all_evals ty oc (sel_rows sel n) ks) (exec_all junk ty exec sel n ks)"
  using assms(3)
proof (induction ks)
  case (Cons k ks)
  have run: "yields I (evals (ty k) (oc k) (sel_rows sel n)) (exec k sel n (Vector_Initialize junk (ty k) STANDARD_VECTOR_SIZE))"
    using Cons.prems by (intro exec_fresh assms(1,2)) auto
  have rest: "yields I (all_evals ty oc (sel_rows sel n) (k # ks)) (bindW (exec_all junk ty exec sel n ks) (\<lambda>vs. returnW (v # vs)))"
    if "evals (ty k) (oc k) (sel_rows sel n) (Inr v)" for v
    using that by (intro yields_bind [OF Cons.IH]) (use Cons.prems in \<open>auto simp: all_evals_def has_rows_def intro!: yields_return\<close>)
  show ?case
    unfolding exec_all.simps by (rule yields_bind [OF run _ rest]) (auto simp: all_evals_def)
qed (auto simp: all_evals_def intro!: yields_return)

text \<open>A node that executes all its children and then computes its rows from theirs.\<close>

lemma strict_yields:
  assumes "sel_fits sel n" "rows_ok chunk_size (sel_rows sel n)"
    and "\<forall>k \<in> set ks. k < arity \<and> scalar_type (ty k) \<and> (dense k \<longrightarrow> sel = None)"
    and "\<And>vs. list_all2 (\<lambda>k. has_rows (ty k) (oc k) (sel_rows sel n)) ks vs \<Longrightarrow>
      yields I (evals t (\<lambda>x. strict_out F (map (\<lambda>k. oc k x) ks)) (sel_rows sel n)) (f vs)"
  shows "yields I (evals t (\<lambda>x. strict_out F (map (\<lambda>k. oc k x) ks)) (sel_rows sel n)) (bindW (exec_all junk ty exec sel n ks) f)"
proof (rule yields_bind [OF exec_all_yields [OF assms(1-3)]])
  show "evals t (\<lambda>x. strict_out F (map (\<lambda>k. oc k x) ks)) (sel_rows sel n) (Inl e)" if "all_evals ty oc (sel_rows sel n) ks (Inl e)" for e
    using that strict_out_error [where f = F and e = e] unfolding all_evals_def by simp (metis image_eqI list.set_map)
qed (use assms(4) in \<open>auto simp: all_evals_def\<close>)

end

text \<open>The value of a row of such a node, from the rows of the vectors.\<close>

lemma strict_row:
  assumes "list_all2 (\<lambda>k. has_rows (ty k) (oc k) rows) ks vs" and "i < length rows" and "r \<in> f (map (\<lambda>v. vec_row v i) vs)"
  shows "r \<in> strict_out f (map (\<lambda>k. oc k (rows ! i)) ks)"
proof (rule strict_out_value [where f = f, OF _ assms(3)])
  show "list_all2 (\<lambda>A y. Inr y \<in> A) (map (\<lambda>k. oc k (rows ! i)) ks) (map (\<lambda>v. vec_row v i) vs)"
    using assms(1,2) by (auto simp: list_all2_conv_all_nth has_rows_def)
qed

end
