(* ===== verification/Execute_Case.thy ===== *)
theory Execute_Case
  imports Executor_Monad
begin

text \<open>
  The CASE node (\<open>execute_case.cpp\<close>): each WHEN filters the rows its predecessors left, its THEN is
  executed on the rows that pass only, and the values are written to their rows of the result
  (\<open>FillSwitch\<close>). The result is shown to be the value of the first WHEN that is TRUE, row by row, and no
  THEN or ELSE is executed on a row that does not need it.

  The fill of nested types is a parameter.
\<close>

section \<open>Filling rows of a result\<close>

definition TemplatedFillLoop :: "junk \<Rightarrow> Vector \<Rightarrow> SelectionVector \<Rightarrow> nat \<Rightarrow> Vector \<Rightarrow> Vector result" where
  "TemplatedFillLoop junk vector sel cnt res =
     (let res = SetVectorType FLAT_VECTOR res; t = GetType res; d = vec_data res; result_mask = vec_validity res in
      if GetVectorType vector = CONSTANT_VECTOR then
        if ConstantVector_IsNull vector then Inr (Flat t d (fold (\<lambda>i m. SetInvalid (get_index sel i) m) [0..<cnt] result_mask))
        else Inr (Flat t (fold (\<lambda>i d. d[get_index sel i := vec_data vector ! 0]) [0..<cnt] d) result_mask)
      else
        bindE (ToUnifiedFormat junk cnt vector) (\<lambda>vdata.
          let (d, m) = fold (\<lambda>i (d, m).
                let source_idx = get_index (uf_sel vdata) i; res_idx = get_index sel i in
                (d[res_idx := uf_data vdata ! source_idx], Set res_idx (RowIsValid (uf_validity vdata) source_idx) m))
              [0..<cnt] (d, result_mask)
          in Inr (Flat t d m)))"

text \<open>The fill of STRUCT and LIST vectors, entry by entry, is a parameter of the model.\<close>

type_synonym nested_fill = "Vector \<Rightarrow> SelectionVector \<Rightarrow> nat \<Rightarrow> Vector \<Rightarrow> Vector result"

definition FillSwitch :: "nested_fill \<Rightarrow> junk \<Rightarrow> Vector \<Rightarrow> SelectionVector \<Rightarrow> nat \<Rightarrow> Vector \<Rightarrow> Vector result" where
  "FillSwitch nested junk vector sel cnt res =
     (let pt = InternalType (GetType res) in
      if constant_size_type pt \<or> pt = PT_VARCHAR then TemplatedFillLoop junk vector sel cnt res
      else if pt = PT_STRUCT \<or> pt = PT_LIST then nested vector sel cnt res
      else Inl NotImplementedException)"

section \<open>The node\<close>

text \<open>
  The loop over the checks: child \<open>2 i\<close> is the WHEN, child \<open>2 i + 1\<close> the THEN of check \<open>i\<close>. \<open>Inl\<close>: the
  call returned from the loop; \<open>Inr\<close>: the remaining rows, their number and the result so far.
\<close>

fun case_loop ::
    "nested_fill \<Rightarrow> junk \<Rightarrow> (nat \<Rightarrow> LogicalType) \<Rightarrow> (nat \<Rightarrow> 'w exec_fn) \<Rightarrow> (nat \<Rightarrow> 'w select_fn) \<Rightarrow> SelectionVector \<Rightarrow> nat \<Rightarrow> nat list \<Rightarrow> selref \<Rightarrow> nat
      \<Rightarrow> SelectionVector \<Rightarrow> SelectionVector \<Rightarrow> Vector \<Rightarrow> ('w, Vector + SelectionVector \<times> nat \<times> Vector) run" where
  "case_loop nested junk types exec select sel cnt [] current_sel current_count ts fs res =
     returnW (Inr (ref_sel current_sel (Some ts) (Some fs), current_count, res))"
| "case_loop nested junk types exec select sel cnt (i # is) current_sel current_count ts fs res =
     bindW (select (2 * i) current_sel current_count (Some ts) (Some fs)) (\<lambda>(tcount, ts', fs').
       let ts = the ts'; fs = the fs' in
       if tcount = 0 then case_loop nested junk types exec select sel cnt is current_sel current_count ts fs res
       else
         let fcount = current_count - tcount in
         if fcount = 0 \<and> current_count = cnt then bindW (exec (2 * i + 1) sel cnt res) (\<lambda>v. returnW (Inl v))
         else
           bindW (exec (2 * i + 1) ts tcount (Vector_Initialize junk (types (2 * i + 1)) STANDARD_VECTOR_SIZE)) (\<lambda>intermediate_result.
           bindW (liftW (FillSwitch nested junk intermediate_result ts tcount res)) (\<lambda>res.
             if fcount = 0 then returnW (Inr (fs, 0, res))
             else case_loop nested junk types exec select sel cnt is SelFalse fcount ts fs res)))"

definition Execute_Case ::
    "nested_fill \<Rightarrow> junk \<Rightarrow> (nat \<Rightarrow> sel_t) \<Rightarrow> (nat \<Rightarrow> LogicalType) \<Rightarrow> nat \<Rightarrow> (nat \<Rightarrow> 'w exec_fn) \<Rightarrow> (nat \<Rightarrow> 'w select_fn) \<Rightarrow> 'w exec_fn" where
  "Execute_Case nested junk sjunk types checks exec select sel cnt res =
     bindW (case_loop nested junk types exec select sel cnt [0..<checks] (SelFixed sel) cnt
              (sel_Initialize sjunk STANDARD_VECTOR_SIZE) (sel_Initialize sjunk STANDARD_VECTOR_SIZE) res) (\<lambda>r.
       case r of
         Inl v \<Rightarrow> returnW v
       | Inr (current_sel, current_count, res) \<Rightarrow>
           if current_count > 0 then
             if current_count = cnt then exec (2 * checks) sel cnt res
             else
               bindW (exec (2 * checks) current_sel current_count (Vector_Initialize junk (types (2 * checks)) STANDARD_VECTOR_SIZE))
                 (\<lambda>intermediate_result.
               bindW (liftW (FillSwitch nested junk intermediate_result current_sel current_count res)) (\<lambda>res.
                 returnW (if sel \<noteq> None then Slice_sel sel cnt res else res)))
           else returnW (if sel \<noteq> None then Slice_sel sel cnt res else res))"

section \<open>What filling does\<close>

lemma scatter_cells:
  assumes "\<forall>i < n. f i < length d" and "inj_on f {..<n}"
  shows "length (fold (\<lambda>i d. d[f i := c i]) [0..<n] d) = length d \<and> (\<forall>i < n. fold (\<lambda>i d. d[f i := c i]) [0..<n] d ! f i = c i) \<and>
    (\<forall>r. r \<notin> f ` {..<n} \<longrightarrow> fold (\<lambda>i d. d[f i := c i]) [0..<n] d ! r = d ! r)"
  using assms
proof (induction n)
  case (Suc n)
  have "f i \<noteq> f n \<and> f n \<noteq> f i" if "i < n" for i
    using that inj_onD [OF Suc.prems(2), of i n] by auto
  moreover have "inj_on f {..<n}" using Suc.prems(2) by (rule inj_on_subset) auto
  ultimately show ?case
    using Suc by (auto simp: less_Suc_eq nth_list_update image_iff)
qed simp

lemma scatter_mask:
  assumes "mask_wf m" and "\<forall>i < n. f i < capacity m" and "inj_on f {..<n}"
  shows "mask_wf (fold (\<lambda>i m. Set (f i) (b i) m) [0..<n] m) \<and> capacity (fold (\<lambda>i m. Set (f i) (b i) m) [0..<n] m) = capacity m \<and>
    (\<forall>i < n. RowIsValid (fold (\<lambda>i m. Set (f i) (b i) m) [0..<n] m) (f i) = b i) \<and>
    (\<forall>r < capacity m. r \<notin> f ` {..<n} \<longrightarrow> RowIsValid (fold (\<lambda>i m. Set (f i) (b i) m) [0..<n] m) r = RowIsValid m r)"
  using assms
proof (induction n)
  case (Suc n)
  have "f i \<noteq> f n \<and> f n \<noteq> f i" if "i < n" for i
    using that inj_onD [OF Suc.prems(3), of i n] by auto
  moreover have "inj_on f {..<n}" using Suc.prems(3) by (rule inj_on_subset) auto
  ultimately show ?case
    using Suc by (auto simp: less_Suc_eq RowIsValid_Set image_iff)
qed simp

lemma fold_pair: "fold (\<lambda>i (d, m). (g i d, h i m)) xs (d, m) = (fold g xs d, fold h xs m)"
  by (induction xs arbitrary: d m) simp_all

text \<open>The row of the vector lands in its row of the result; the other rows stay.\<close>

definition fills :: "Vector \<Rightarrow> (nat \<Rightarrow> nat) \<Rightarrow> nat \<Rightarrow> Vector \<Rightarrow> Vector \<Rightarrow> bool" where
  "fills v f n res res' \<longleftrightarrow>
     (\<exists>t d m d' m'. res = Flat t d m \<and> res' = Flat t d' m' \<and> length d' = length d \<and> mask_wf m' \<and> capacity m' = capacity m \<and>
        (\<forall>i < n. vec_row res' (f i) = vec_row v i) \<and>
        (\<forall>r < capacity m. r \<notin> f ` {..<n} \<longrightarrow> RowIsValid m' r = RowIsValid m r \<and> d' ! r = d ! r))"

lemma FillSwitch_rows:
  assumes "vec_ok n v" and "scalar_type t" "mask_wf m" "\<forall>i < n. get_index sel i < length d \<and> get_index sel i < capacity m \<and> RowIsValid m (get_index sel i)"
    and "inj_on (get_index sel) {..<n}"
  shows "\<exists>res'. FillSwitch nested junk v sel n (Flat t d m) = Inr res' \<and> fills v (get_index sel) n (Flat t d m) res'"
proof -
  let ?f = "get_index sel"
  have sw: "FillSwitch nested junk v sel n (Flat t d m) = TemplatedFillLoop junk v sel n (Flat t d m)"
    using assms(2) by (simp add: FillSwitch_def scalar_type_def Let_def)
  have len: "\<forall>i < n. ?f i < length d" "\<forall>i < n. ?f i < capacity m" using assms(4) by auto
  show ?thesis
  proof (cases "GetVectorType v = CONSTANT_VECTOR")
    case True
    then obtain vt vd vm where v: "v = Constant vt vd vm" by (cases v) simp_all
    note defs = TemplatedFillLoop_def ConstantVector_IsNull_def SetVectorType_def vec_data_def vec_validity_def Let_def
    show ?thesis
    proof (cases "RowIsValid vm 0")
      case True
      with v have "TemplatedFillLoop junk v sel n (Flat t d m) = Inr (Flat t (fold (\<lambda>i d. d[?f i := vd ! 0]) [0..<n] d) m)"
        by (simp add: defs)
      with True v scatter_cells [OF len(1) assms(5), of "\<lambda>_. vd ! 0"] assms(3,4) show ?thesis
        unfolding sw by (auto simp: fills_def)
    next
      case False
      with v have "TemplatedFillLoop junk v sel n (Flat t d m) = Inr (Flat t d (fold (\<lambda>i m. SetInvalid (?f i) m) [0..<n] m))"
        by (simp add: defs)
      with False v fold_SetInvalid_at [OF assms(3) len(2), of "\<lambda>_. False"] len(2) show ?thesis
        unfolding sw by (auto simp: fills_def)
    qed
  next
    case False
    obtain u where u: "ToUnifiedFormat junk n v = Inr u" "\<forall>i < n. unified_row u i = vec_row v i"
      using unified_rows [OF assms(1)] by blast
    let ?c = "\<lambda>i. uf_data u ! get_index (uf_sel u) i" and ?b = "\<lambda>i. RowIsValid (uf_validity u) (get_index (uf_sel u) i)"
    have row: "vec_row v i = (if ?b i then Some (?c i) else None)" if "i < n" for i
      using u(2) that by (simp add: unified_row_def Let_def)
    have eq: "TemplatedFillLoop junk v sel n (Flat t d m) =
        Inr (Flat t (fold (\<lambda>i d. d[?f i := ?c i]) [0..<n] d) (fold (\<lambda>i m. Set (?f i) (?b i) m) [0..<n] m))"
      using False u(1) fold_pair [of "\<lambda>i d. d[?f i := ?c i]" "\<lambda>i m. Set (?f i) (?b i) m" "[0..<n]" d m]
      by (simp add: TemplatedFillLoop_def SetVectorType_def vec_data_def vec_validity_def Let_def)
    show ?thesis
      unfolding sw eq using scatter_cells [OF len(1) assms(5), of ?c] scatter_mask [OF assms(3) len(2) assms(5), of ?b] row
      by (auto simp: fills_def)
  qed
qed

section \<open>The outcomes of a CASE\<close>

text \<open>Check by check: an error of the WHEN, the THEN if the WHEN can be TRUE, the rest if it can be FALSE or NULL.\<close>

fun case_out :: "(nat \<Rightarrow> nat \<Rightarrow> outcome set) \<Rightarrow> nat \<Rightarrow> nat list \<Rightarrow> nat \<Rightarrow> outcome set" where
  "case_out oc els [] x = oc els x"
| "case_out oc els (i # is) x =
     {Inl e | e. Inl e \<in> oc (2 * i) x} \<union> (if can_pass (oc (2 * i) x) then oc (2 * i + 1) x else {}) \<union>
     (if can_fail (oc (2 * i) x) then case_out oc els is x else {})"

text \<open>The result in between: the rows that are done have an allowed value, the others are not touched.\<close>

definition case_state :: "LogicalType \<Rightarrow> (nat \<Rightarrow> outcome set) \<Rightarrow> nat set \<Rightarrow> nat set \<Rightarrow> Vector \<Rightarrow> bool" where
  "case_state t A rows todo res \<longleftrightarrow>
     (\<exists>d m. res = Flat t d m \<and> scalar_type t \<and> STANDARD_VECTOR_SIZE \<le> length d \<and> mask_wf m \<and> STANDARD_VECTOR_SIZE \<le> capacity m \<and>
        (\<forall>x \<in> todo. RowIsValid m x) \<and> (\<forall>x \<in> rows - todo. Inr (vec_row res x) \<in> A x))"

lemma blank_case_state: "blank t res \<Longrightarrow> case_state t A rows rows res"
  by (auto simp: fresh_vec_def case_state_def AllValid_def mask_wf_def RowIsValid_bit split: Vector.splits)

lemma sel_rows_inj: "distinct (sel_rows sel n) \<Longrightarrow> inj_on (get_index sel) {..<n}"
  by (simp add: sel_rows_def distinct_map atLeast0LessThan)

lemma sel_rows_image: "set (sel_rows sel n) = get_index sel ` {..<n}"
  by (auto simp: sel_rows_def)

lemma sel_rows_nth: "i < n \<Longrightarrow> sel_rows sel n ! i = get_index sel i"
  by (simp add: sel_rows_def)

lemma fill_step:
  assumes "case_state t A rows todo res" and "rows \<subseteq> {..<STANDARD_VECTOR_SIZE}" "todo \<subseteq> rows"
    and sel: "distinct (sel_rows sel n)" "set (sel_rows sel n) \<subseteq> todo"
    and v: "vec_ok n v" "\<forall>i < n. Inr (vec_row v i) \<in> A (get_index sel i)"
  shows "\<exists>res'. FillSwitch nested junk v sel n res = Inr res' \<and> case_state t A rows (todo - set (sel_rows sel n)) res'"
proof -
  obtain d m where res: "res = Flat t d m" "scalar_type t" "STANDARD_VECTOR_SIZE \<le> length d" "mask_wf m" "STANDARD_VECTOR_SIZE \<le> capacity m"
    "\<forall>x \<in> todo. RowIsValid m x" "\<forall>x \<in> rows - todo. Inr (vec_row res x) \<in> A x"
    using assms(1) by (auto simp: case_state_def)
  have rows: "get_index sel i \<in> todo \<and> get_index sel i < STANDARD_VECTOR_SIZE" if "i < n" for i
    using that sel(2) assms(2,3) by (auto simp: sel_rows_image)
  then have "\<forall>i < n. get_index sel i < length d \<and> get_index sel i < capacity m \<and> RowIsValid m (get_index sel i)"
    using res(3,5,6) less_le_trans by blast
  from FillSwitch_rows [OF v(1) res(2,4) this sel_rows_inj [OF sel(1)], where nested = nested and junk = junk]
  obtain d' m' where out: "FillSwitch nested junk v sel n res = Inr (Flat t d' m')" "length d' = length d" "mask_wf m'" "capacity m' = capacity m"
    "\<forall>i < n. vec_row (Flat t d' m') (get_index sel i) = vec_row v i"
    "\<forall>r < capacity m. r \<notin> set (sel_rows sel n) \<longrightarrow> RowIsValid m' r = RowIsValid m r \<and> d' ! r = d ! r"
    unfolding res(1) sel_rows_image by (auto simp: fills_def)
  have small: "x < capacity m" if "x \<in> rows" for x using that assms(2) res(5) by auto
  have todo: "\<forall>x \<in> todo - set (sel_rows sel n). RowIsValid m' x"
    using out(6) res(6) small assms(3) by auto
  have "Inr (vec_row (Flat t d' m') x) \<in> A x" if x: "x \<in> rows - (todo - set (sel_rows sel n))" for x
  proof (cases "x \<in> set (sel_rows sel n)")
    case True
    then obtain i where "i < n" "x = get_index sel i" by (auto simp: sel_rows_image)
    with out(5) v(2) show ?thesis by metis
  next
    case False
    with x have "x \<in> rows - todo" by blast
    then have "Inr (vec_row res x) \<in> A x" "vec_row (Flat t d' m') x = vec_row res x"
      using res(1,7) out(6) small False by auto
    then show ?thesis by simp
  qed
  with out res todo show ?thesis by (auto simp: case_state_def)
qed

text \<open>What a filter leaves in the two arrays.\<close>

lemma parts_arrays:
  assumes "parts rows P (Some (Some ts)) (Some (Some fs)) (c, ts', fs')" and "distinct rows"
  shows "\<exists>ys zs. ts' = Some (Some ys) \<and> fs' = Some (Some zs) \<and> length ys = length ts \<and> length zs = length fs \<and> c \<le> length rows \<and>
    distinct (sel_rows (Some ys) c) \<and> set (sel_rows (Some ys) c) = {x \<in> set rows. P x} \<and>
    distinct (sel_rows (Some zs) (length rows - c)) \<and> set (sel_rows (Some zs) (length rows - c)) = {x \<in> set rows. \<not> P x}"
proof -
  obtain ys zs where a: "ts' = Some (Some ys)" "fs' = Some (Some zs)" "length ys = length ts" "length zs = length fs"
    "c = length (filter P rows)" "mset (sel_rows (Some ys) c) = mset (filter P rows)"
    "mset (sel_rows (Some zs) (length (filter (\<lambda>x. \<not> P x) rows))) = mset (filter (\<lambda>x. \<not> P x) rows)"
    using assms(1) by (auto simp: parts_def holds_def)
  have len: "length rows - c = length (filter (\<lambda>x. \<not> P x) rows)" "c \<le> length rows"
    using a(5) sum_length_filter_compl [of P rows] by auto
  have "distinct xs \<and> set xs = set zs" if "mset xs = mset zs" "distinct zs" for xs zs :: "nat list"
    using that mset_eq_imp_distinct_iff mset_eq_setD by blast
  from this [OF a(6)] this [OF a(7)] a(1-4) len assms(2) show ?thesis by auto
qed

section \<open>The loop\<close>

text \<open>What the loop hands on: either nothing has been written yet, or some rows are done and the array holds the others.\<close>

definition case_rest :: "LogicalType \<Rightarrow> (nat \<Rightarrow> outcome set) \<Rightarrow> nat list \<Rightarrow> (nat \<Rightarrow> outcome set) \<Rightarrow> SelectionVector \<Rightarrow> nat \<Rightarrow> Vector \<Rightarrow> bool" where
  "case_rest t A rows B s c res \<longleftrightarrow>
     (if c = length rows then blank t res \<and> (\<forall>x \<in> set rows. B x \<subseteq> A x)
      else c < length rows \<and> (\<exists>xs. s = Some xs \<and> c \<le> length xs) \<and> distinct (sel_rows s c) \<and> set (sel_rows s c) \<subseteq> set rows \<and>
        case_state t A (set rows) (set (sel_rows s c)) res \<and> (\<forall>x \<in> set (sel_rows s c). B x \<subseteq> A x))"

definition case_yield ::
    "LogicalType \<Rightarrow> (nat \<Rightarrow> outcome set) \<Rightarrow> nat list \<Rightarrow> (nat \<Rightarrow> outcome set) \<Rightarrow> (Vector + SelectionVector \<times> nat \<times> Vector) result \<Rightarrow> bool" where
  "case_yield t A rows B r \<longleftrightarrow>
     (case r of
        Inl e \<Rightarrow> (\<exists>x \<in> set rows. Inl e \<in> A x)
      | Inr (Inl v) \<Rightarrow> evals t A rows (Inr v)
      | Inr (Inr (s, c, res)) \<Rightarrow> case_rest t A rows B s c res)"

text \<open>The arrays and the reference at the head of the loop.\<close>

definition case_head :: "SelectionVector \<Rightarrow> nat \<Rightarrow> selref \<Rightarrow> nat \<Rightarrow> SelectionVector \<Rightarrow> SelectionVector \<Rightarrow> bool" where
  "case_head sel cnt ref cc ts fs \<longleftrightarrow>
     (\<exists>ys zs. ts = Some ys \<and> fs = Some zs \<and> length ys = STANDARD_VECTOR_SIZE \<and> length zs = STANDARD_VECTOR_SIZE) \<and>
     (ref = SelFixed sel \<and> cc = cnt \<or> ref = SelFalse \<and> cc < cnt)"

definition head_rows :: "selref \<Rightarrow> nat \<Rightarrow> SelectionVector \<Rightarrow> nat list" where
  "head_rows ref cc fs = (case ref of SelFixed s \<Rightarrow> sel_rows s cc | _ \<Rightarrow> sel_rows fs cc)"

lemma head_ref_rows: "case_head sel cnt ref cc ts fs \<Longrightarrow> ref_rows ref (Some ts) (Some fs) cc = head_rows ref cc fs"
  by (auto simp: case_head_def head_rows_def ref_rows_def ref_index_def select_init_def sel_rows_def)

lemma head_ready:
  assumes "case_head sel cnt ref cc ts fs" and "cc \<le> STANDARD_VECTOR_SIZE" and "set (head_rows ref cc fs) \<subseteq> {..<STANDARD_VECTOR_SIZE}"
  shows "select_ready cc ref (Some ts) (Some fs)"
proof -
  have "ref_index ref (select_init (Some ts) (Some fs)) i < 2 ^ 32" if "i < cc" for i
  proof -
    have "ref_index ref (select_init (Some ts) (Some fs)) i \<in> set (head_rows ref cc fs)"
      using that head_ref_rows [OF assms(1), symmetric] by (simp add: ref_rows_def)
    with assms(3) show ?thesis by (auto simp: subset_iff)
  qed
  with assms(1,2) show ?thesis
    by (auto simp: case_head_def select_ready_def outputs_ready_def ref_ok_def select_init_def)
qed

lemma head_fits: "case_head sel cnt ref cc ts fs \<Longrightarrow> sel_fits sel cnt \<Longrightarrow> cc \<le> STANDARD_VECTOR_SIZE \<Longrightarrow> sel_fits (ref_sel ref (Some ts) (Some fs)) cc"
  by (auto simp: case_head_def sel_fits_def ref_sel_def)

context children
begin

text \<open>The types of the children of a CASE of type \<open>t\<close> with the given number of checks.\<close>

definition case_typed :: "nat \<Rightarrow> LogicalType \<Rightarrow> bool" where
  "case_typed checks t \<longleftrightarrow>
     2 * checks < arity \<and> scalar_type t \<and> ty (2 * checks) = t \<and> (\<forall>i < checks. ty (2 * i) = BOOLEAN \<and> ty (2 * i + 1) = t) \<and>
     (\<forall>k \<le> 2 * checks. \<not> dense k)"

lemma exec_fill:
  assumes "rows_ok chunk_size rows" and k: "k < arity" "ty k = t" "scalar_type t" "\<not> dense k"
    and state: "case_state t A (set rows) todo res" "todo \<subseteq> set rows"
    and s: "s = Some xs" "0 < n" "n \<le> length xs" "distinct (sel_rows s n)" "set (sel_rows s n) \<subseteq> todo" "\<forall>x \<in> set (sel_rows s n). oc k x \<subseteq> A x"
    and rest: "\<And>res'. case_state t A (set rows) (todo - set (sel_rows s n)) res' \<Longrightarrow> yields I R (f res')"
    and err: "\<And>e. \<exists>x \<in> set rows. Inl e \<in> A x \<Longrightarrow> R (Inl e)"
  shows "yields I R
    (bindW (exec k s n (Vector_Initialize junk (ty k) STANDARD_VECTOR_SIZE)) (\<lambda>v. bindW (liftW (FillSwitch nested junk v s n res)) f))"
proof (rule yields_bind)
  have "sel_rows s n \<noteq> []" using s(2) by (simp flip: length_greater_0_conv)
  then have ok: "rows_ok chunk_size (sel_rows s n)"
    using rows_ok_sub [OF assms(1)] s(4,5) state(2) by blast
  have "blank (ty k) (Vector_Initialize junk (ty k) STANDARD_VECTOR_SIZE)"
    using k(2,3) by (simp add: Vector_Initialize_eq fresh_vec_def AllValid_def)
  with ok k(1) s(1,3) show "yields I (evals (ty k) (oc k) (sel_rows s n)) (exec k s n (Vector_Initialize junk (ty k) STANDARD_VECTOR_SIZE))"
    by (intro exec_blank) (use k(4) in \<open>auto simp: sel_fits_def\<close>)
  show "R (Inl e)" if "evals (ty k) (oc k) (sel_rows s n) (Inl e)" for e
    using that s(5,6) state(2) unfolding evals_simps by (intro err) blast
  show "yields I R (bindW (liftW (FillSwitch nested junk v s n res)) f)" if v: "evals (ty k) (oc k) (sel_rows s n) (Inr v)" for v
  proof -
    have "Inr (vec_row v i) \<in> A (get_index s i)" if "i < n" for i
    proof -
      have "get_index s i \<in> set (sel_rows s n)" using that by (auto simp: sel_rows_image)
      then show ?thesis using v s(6) that by (auto simp: sel_rows_nth)
    qed
    moreover have "set rows \<subseteq> {..<STANDARD_VECTOR_SIZE}" using assms(1) by (auto simp: rows_ok_def)
    ultimately obtain res' where "FillSwitch nested junk v s n res = Inr res'" "case_state t A (set rows) (todo - set (sel_rows s n)) res'"
      using fill_step [OF state(1) _ state(2) s(4,5), where v = v and nested = nested and junk = junk] v by auto
    with rest show ?thesis by simp
  qed
qed

text \<open>The head of the loop, and what is left to show for the checks that follow.\<close>

definition loop_inv ::
    "LogicalType \<Rightarrow> (nat \<Rightarrow> outcome set) \<Rightarrow> nat \<Rightarrow> nat list \<Rightarrow> SelectionVector \<Rightarrow> nat \<Rightarrow> selref \<Rightarrow> nat \<Rightarrow> SelectionVector \<Rightarrow> SelectionVector \<Rightarrow> Vector \<Rightarrow> bool" where
  "loop_inv t A els is sel cnt ref cc ts fs res \<longleftrightarrow>
     case_head sel cnt ref cc ts fs \<and> 0 < cc \<and> distinct (head_rows ref cc fs) \<and> set (head_rows ref cc fs) \<subseteq> set (sel_rows sel cnt) \<and>
     (if cc = cnt then blank t res else case_state t A (set (sel_rows sel cnt)) (set (head_rows ref cc fs)) res) \<and>
     (\<forall>x \<in> set (head_rows ref cc fs). case_out oc els is x \<subseteq> A x)"

lemma loop_inv_state:
  "loop_inv t A els is sel cnt ref cc ts fs res \<Longrightarrow> case_state t A (set (sel_rows sel cnt)) (set (head_rows ref cc fs)) res"
  by (auto simp: loop_inv_def case_head_def head_rows_def intro: blank_case_state split: if_splits)

lemma loop_exit:
  assumes "loop_inv t A els [] sel cnt ref cc ts fs res" and "cnt \<le> STANDARD_VECTOR_SIZE"
  shows "case_rest t A (sel_rows sel cnt) (oc els) (ref_sel ref (Some ts) (Some fs)) cc res"
  using assms by (auto simp: loop_inv_def case_rest_def case_head_def head_rows_def ref_sel_def split: if_splits)

text \<open>No row passed: the rows that are left are the same, perhaps in another order.\<close>

lemma loop_none:
  assumes inv: "loop_inv t A els (i # is) sel cnt ref cc ts fs res"
    and fail: "\<forall>x \<in> set (head_rows ref cc fs). can_fail (oc (2 * i) x)"
    and arrays: "length ys = STANDARD_VECTOR_SIZE" "length zs = STANDARD_VECTOR_SIZE" "distinct (sel_rows (Some zs) cc)"
      "set (sel_rows (Some zs) cc) = set (head_rows ref cc fs)"
  shows "loop_inv t A els is sel cnt ref cc (Some ys) (Some zs) res"
proof -
  have same: "set (head_rows ref cc (Some zs)) = set (head_rows ref cc fs)" "distinct (head_rows ref cc (Some zs))"
    using inv arrays(3,4) by (auto simp: loop_inv_def case_head_def head_rows_def)
  have out: "case_out oc els is x \<subseteq> A x" if "x \<in> set (head_rows ref cc fs)" for x
  proof -
    have "case_out oc els is x \<subseteq> case_out oc els (i # is) x" using fail that by simp
    then show ?thesis using inv that unfolding loop_inv_def by blast
  qed
  have "case_head sel cnt ref cc (Some ys) (Some zs)"
    using inv arrays(1,2) by (auto simp: loop_inv_def case_head_def)
  then show ?thesis using inv same out by (simp add: loop_inv_def)
qed

text \<open>One check, when its filter has split the rows into \<open>ys\<close> and \<open>zs\<close>.\<close>

definition check_step :: "nested_fill \<Rightarrow> junk \<Rightarrow> SelectionVector \<Rightarrow> nat \<Rightarrow> nat \<Rightarrow> nat list \<Rightarrow> selref \<Rightarrow> nat \<Rightarrow> Vector \<Rightarrow> nat \<Rightarrow> SelectionVector \<Rightarrow> SelectionVector
    \<Rightarrow> ('w, Vector + SelectionVector \<times> nat \<times> Vector) run" where
  "check_step nested junk sel cnt i is ref cc res tc ts fs =
     (if tc = 0 then case_loop nested junk ty exec select sel cnt is ref cc ts fs res
      else if cc - tc = 0 \<and> cc = cnt then bindW (exec (2 * i + 1) sel cnt res) (\<lambda>v. returnW (Inl v))
      else bindW (exec (2 * i + 1) ts tc (Vector_Initialize junk (ty (2 * i + 1)) STANDARD_VECTOR_SIZE)) (\<lambda>v.
        bindW (liftW (FillSwitch nested junk v ts tc res)) (\<lambda>res.
          if cc - tc = 0 then returnW (Inr (fs, 0, res))
          else case_loop nested junk ty exec select sel cnt is SelFalse (cc - tc) ts fs res)))"

lemma check_step_yields:
  assumes k: "2 * i + 1 < arity" "ty (2 * i + 1) = t" "scalar_type t" "\<not> dense (2 * i + 1)"
    and rows: "rows_ok chunk_size (sel_rows sel cnt)" and sel: "sel_fits sel cnt"
    and inv: "loop_inv t A els (i # is) sel cnt ref cc ts0 fs0 res"
    and P: "\<forall>x \<in> set (head_rows ref cc fs0). if P x then can_pass (oc (2 * i) x) else can_fail (oc (2 * i) x)"
    and z: "length ys = STANDARD_VECTOR_SIZE" "length zs = STANDARD_VECTOR_SIZE" "tc \<le> cc"
      "distinct (sel_rows (Some ys) tc)" "set (sel_rows (Some ys) tc) = {x \<in> set (head_rows ref cc fs0). P x}"
      "distinct (sel_rows (Some zs) (cc - tc))" "set (sel_rows (Some zs) (cc - tc)) = {x \<in> set (head_rows ref cc fs0). \<not> P x}"
    and IH: "\<And>ref cc ts fs res. loop_inv t A els is sel cnt ref cc ts fs res \<Longrightarrow>
      yields I (case_yield t A (sel_rows sel cnt) (oc els)) (case_loop nested junk ty exec select sel cnt is ref cc ts fs res)"
  shows "yields I (case_yield t A (sel_rows sel cnt) (oc els)) (check_step nested junk sel cnt i is ref cc res tc (Some ys) (Some zs))"
proof -
  let ?rows = "sel_rows sel cnt" and ?cur = "head_rows ref cc fs0"
  have cur: "set ?cur \<subseteq> set ?rows" "cc \<le> cnt" "cnt \<le> STANDARD_VECTOR_SIZE"
    using inv rows_ok_length [OF rows] by (auto simp: loop_inv_def case_head_def)
  have A: "case_out oc els (i # is) x \<subseteq> A x" if "x \<in> set ?cur" for x
    using inv that unfolding loop_inv_def by blast
  have then_A: "oc (2 * i + 1) x \<subseteq> A x" if "x \<in> set ?cur" "P x" for x
    using A [OF that(1)] P that by auto
  have rest_A: "case_out oc els is x \<subseteq> A x" if "x \<in> set ?cur" "\<not> P x" for x
    using A [OF that(1)] P that by auto
  consider "tc = 0" | "0 < tc" "cc - tc = 0" "cc = cnt" | "0 < tc" "\<not> (cc - tc = 0 \<and> cc = cnt)" by auto
  then show ?thesis
  proof cases
    case 1
    then have none: "\<not> P x" if "x \<in> set ?cur" for x using z(5) that by simp
    have "loop_inv t A els is sel cnt ref cc (Some ys) (Some zs) res"
      by (rule loop_none [OF inv]) (use none P z 1 in auto)
    with IH 1 show ?thesis by (simp add: check_step_def)
  next
    case 2
    then have all: "P x" if "x \<in> set ?cur" for x using z(7) that by simp
    have same: "?cur = ?rows" "blank t res"
      using inv 2(3) by (auto simp: loop_inv_def case_head_def head_rows_def)
    have "yields I (evals t (oc (2 * i + 1)) ?rows) (exec (2 * i + 1) sel cnt res)"
      using exec_blank [OF k(1) sel rows, of res] same(2) k(2,4) by simp
    then have "yields I (evals t A ?rows) (exec (2 * i + 1) sel cnt res)"
      by (rule yields_mono) (rule evals_cong, use then_A all same(1) in auto)
    then have "yields I (case_yield t A ?rows (oc els)) (bindW (exec (2 * i + 1) sel cnt res) (\<lambda>v. returnW (Inl v)))"
      by (rule yields_bind) (auto simp: case_yield_def intro!: yields_return)
    with 2 show ?thesis by (simp add: check_step_def)
  next
    case 3
    have "yields I (case_yield t A ?rows (oc els))
      (bindW (exec (2 * i + 1) (Some ys) tc (Vector_Initialize junk (ty (2 * i + 1)) STANDARD_VECTOR_SIZE)) (\<lambda>v.
        bindW (liftW (FillSwitch nested junk v (Some ys) tc res)) (\<lambda>res.
          if cc - tc = 0 then returnW (Inr (Some zs, 0, res))
          else case_loop nested junk ty exec select sel cnt is SelFalse (cc - tc) (Some ys) (Some zs) res)))"
    proof (rule exec_fill [OF rows k loop_inv_state [OF inv] cur(1) refl 3(1)])
      fix res' assume st: "case_state t A (set ?rows) (set ?cur - set (sel_rows (Some ys) tc)) res'"
      have left: "set ?cur - set (sel_rows (Some ys) tc) = set (sel_rows (Some zs) (cc - tc))" using z(5,7) by auto
      show "yields I (case_yield t A ?rows (oc els)) (if cc - tc = 0 then returnW (Inr (Some zs, 0, res'))
          else case_loop nested junk ty exec select sel cnt is SelFalse (cc - tc) (Some ys) (Some zs) res')"
      proof (cases "cc - tc = 0")
        case True
        then have "case_rest t A ?rows (oc els) (Some zs) 0 res'"
          using st left rows_ok_length [OF rows] by (auto simp: case_rest_def)
        with True show ?thesis by (auto simp: case_yield_def intro!: yields_return)
      next
        case False
        then have "loop_inv t A els is sel cnt SelFalse (cc - tc) (Some ys) (Some zs) res'"
          using st left z cur 3(1) rest_A by (auto simp: loop_inv_def case_head_def head_rows_def)
        with False IH show ?thesis by simp
      qed
    qed (use z cur then_A in \<open>auto simp: case_yield_def\<close>)
    with 3 show ?thesis by (auto simp: check_step_def)
  qed
qed

lemma case_loop_yields:
  assumes typed: "case_typed checks t" and rows: "rows_ok chunk_size (sel_rows sel cnt)" and sel: "sel_fits sel cnt"
    and "\<forall>i \<in> set is. i < checks" and "loop_inv t A (2 * checks) is sel cnt ref cc ts fs res"
  shows "yields I (case_yield t A (sel_rows sel cnt) (oc (2 * checks))) (case_loop nested junk ty exec select sel cnt is ref cc ts fs res)"
  using assms(4,5)
proof (induction "is" arbitrary: ref cc ts fs res)
  case Nil
  then show ?case
    using loop_exit [OF Nil(2)] rows_ok_length [OF rows] by (auto simp: case_yield_def intro!: yields_return)
next
  case (Cons i "is")
  let ?rows = "sel_rows sel cnt" and ?cur = "head_rows ref cc fs"
  note inv = Cons.prems(2)
  have i: "2 * i < arity" "ty (2 * i) = BOOLEAN" "2 * i + 1 < arity" "ty (2 * i + 1) = t" "scalar_type t" "\<not> dense (2 * i + 1)" "\<not> dense (2 * i)"
    using typed Cons.prems(1) by (auto simp: case_typed_def)
  have head: "case_head sel cnt ref cc ts fs" "0 < cc" "distinct ?cur" "set ?cur \<subseteq> set ?rows" "length ?cur = cc" "cc \<le> cnt"
    using inv by (auto simp: loop_inv_def case_head_def head_rows_def)
  have cnt: "cnt \<le> STANDARD_VECTOR_SIZE" "set ?rows \<subseteq> {..<STANDARD_VECTOR_SIZE}"
    using rows_ok_length [OF rows] rows by (auto simp: rows_ok_def)
  have A: "case_out oc (2 * checks) (i # is) x \<subseteq> A x" if "x \<in> set ?cur" for x
    using inv that unfolding loop_inv_def by blast
  obtain ys0 zs0 where arrays: "ts = Some ys0" "fs = Some zs0" "length ys0 = STANDARD_VECTOR_SIZE" "length zs0 = STANDARD_VECTOR_SIZE"
    using head(1) by (auto simp: case_head_def)
  have run: "yields I (filters (oc (2 * i)) ?cur (Some ts) (Some fs)) (select (2 * i) ref cc (Some ts) (Some fs))"
    using select_ok [OF i(1,2), of ref "Some ts" "Some fs" cc] head_ready [OF head(1)] head_fits [OF head(1) sel] head cnt rows i(7) rows_ok_sub [OF rows, of ?cur]
    by (simp add: head_ref_rows [OF head(1)]) (metis head(5) length_greater_0_conv order_trans subset_trans)
  show ?case
    unfolding case_loop.simps
  proof (rule yields_bind [OF run])
    show "case_yield t A ?rows (oc (2 * checks)) (Inl e)" if "filters (oc (2 * i)) ?cur (Some ts) (Some fs) (Inl e)" for e
      using that A head(4) by (fastforce simp: case_yield_def)
    fix out assume out: "filters (oc (2 * i)) ?cur (Some ts) (Some fs) (Inr out)"
    obtain tc ts' fs' where o: "out = (tc, ts', fs')" by (cases out)
    obtain P where P: "parts ?cur P (Some ts) (Some fs) out" "\<forall>x \<in> set ?cur. if P x then can_pass (oc (2 * i) x) else can_fail (oc (2 * i) x)"
      using out by auto
    obtain ys zs where z: "ts' = Some (Some ys)" "fs' = Some (Some zs)" "length ys = STANDARD_VECTOR_SIZE" "length zs = STANDARD_VECTOR_SIZE" "tc \<le> cc"
      "distinct (sel_rows (Some ys) tc)" "set (sel_rows (Some ys) tc) = {x \<in> set ?cur. P x}"
      "distinct (sel_rows (Some zs) (cc - tc))" "set (sel_rows (Some zs) (cc - tc)) = {x \<in> set ?cur. \<not> P x}"
      using parts_arrays [of ?cur P ys0 zs0 tc ts' fs'] P(1) head(3,5) arrays o by auto
    show "yields I (case_yield t A ?rows (oc (2 * checks)))
      (case out of (tcount, ts', fs') \<Rightarrow>
        let ts = the ts'; fs = the fs' in
        if tcount = 0 then case_loop nested junk ty exec select sel cnt is ref cc ts fs res
        else let fcount = cc - tcount in
          if fcount = 0 \<and> cc = cnt then bindW (exec (2 * i + 1) sel cnt res) (\<lambda>v. returnW (Inl v))
          else bindW (exec (2 * i + 1) ts tcount (Vector_Initialize junk (ty (2 * i + 1)) STANDARD_VECTOR_SIZE)) (\<lambda>intermediate_result.
            bindW (liftW (FillSwitch nested junk intermediate_result ts tcount res)) (\<lambda>res.
              if fcount = 0 then returnW (Inr (fs, 0, res))
              else case_loop nested junk ty exec select sel cnt is SelFalse fcount ts fs res)))"
      unfolding o z(1,2) prod.case Let_def option.sel check_step_def [symmetric]
      by (rule check_step_yields [OF i(3-6) rows sel inv P(2) z(3-9)]) (use Cons.IH Cons.prems(1) in auto)
  qed
qed

lemma case_final:
  assumes "case_state t A (set (sel_rows sel cnt)) {} res" and rows: "rows_ok chunk_size (sel_rows sel cnt)"
    and sel: "sel_fits sel cnt"
  shows "evals t A (sel_rows sel cnt) (Inr (if sel \<noteq> None then Slice_sel sel cnt res else res))"
proof -
  obtain d m where res: "res = Flat t d m" "scalar_type t" "STANDARD_VECTOR_SIZE \<le> length d" "mask_wf m" "STANDARD_VECTOR_SIZE \<le> capacity m"
    "\<forall>x \<in> set (sel_rows sel cnt). Inr (vec_row res x) \<in> A x"
    using assms(1) by (auto simp: case_state_def)
  have small: "get_index sel i < STANDARD_VECTOR_SIZE" if "i < cnt" for i
    using rows that by (auto simp: rows_ok_def sel_rows_image)
  have row: "Inr (vec_row res (get_index sel i)) \<in> A (sel_rows sel cnt ! i)" if "i < cnt" for i
    using res(6) that by (auto simp: sel_rows_image sel_rows_nth)
  have cnt: "0 < cnt" "cnt \<le> STANDARD_VECTOR_SIZE" using rows_ok_length [OF rows] by auto
  show ?thesis
  proof (cases sel)
    case None
    then have "get_index sel i = i" for i by (simp add: get_index_def)
    with None res row cnt show ?thesis by auto
  next
    case (Some xs)
    then have v: "Slice_sel sel cnt res = Dictionary t sel (Flat t d m)"
      using cnt by (simp add: Slice_sel_def sel_IsSet_def res(1))
    have "get_index sel i < length d \<and> get_index sel i < capacity m" if "i < cnt" for i
      using small [OF that] res(3,5) by linarith
    then have "vec_ok cnt (Dictionary t sel (Flat t d m))"
      using sel Some res(2,4) by (auto simp: sel_fits_def)
    with v row Some res(1) show ?thesis by (simp del: vec_row.simps add: vec_row.simps(3))
  qed
qed

lemma Execute_Case_yields:
  assumes typed: "case_typed checks t" and rows: "rows_ok chunk_size (sel_rows sel cnt)"
    and sel: "sel_fits sel cnt" and res: "blank t res"
  shows "yields I (evals t (case_out oc (2 * checks) [0..<checks]) (sel_rows sel cnt)) (Execute_Case nested junk sjunk ty checks exec select sel cnt res)"
proof -
  let ?A = "case_out oc (2 * checks) [0..<checks]" and ?rows = "sel_rows sel cnt" and ?els = "2 * checks"
  have els: "?els < arity" "ty ?els = t" "scalar_type t" "\<not> dense ?els" using typed by (auto simp: case_typed_def)
  have cnt: "0 < cnt" using rows_ok_length [OF rows] by simp
  have "loop_inv t ?A ?els [0..<checks] sel cnt (SelFixed sel) cnt (sel_Initialize sjunk STANDARD_VECTOR_SIZE)
      (sel_Initialize sjunk STANDARD_VECTOR_SIZE) res"
    using res rows cnt by (auto simp: loop_inv_def case_head_def head_rows_def sel_Initialize_def rows_ok_def)
  from case_loop_yields [OF typed rows sel _ this, where nested = nested and junk = junk]
  have loop: "yields I (case_yield t ?A ?rows (oc ?els)) (case_loop nested junk ty exec select sel cnt [0..<checks] (SelFixed sel) cnt
      (sel_Initialize sjunk STANDARD_VECTOR_SIZE) (sel_Initialize sjunk STANDARD_VECTOR_SIZE) res)"
    by simp
  show ?thesis
    unfolding Execute_Case_def
  proof (rule yields_bind [OF loop])
    show "evals t ?A ?rows (Inl e)" if "case_yield t ?A ?rows (oc ?els) (Inl e)" for e
      using that by (simp add: case_yield_def)
    fix r assume r: "case_yield t ?A ?rows (oc ?els) (Inr r)"
    show "yields I (evals t ?A ?rows) (case r of Inl v \<Rightarrow> returnW v
       | Inr (current_sel, current_count, res) \<Rightarrow>
           if current_count > 0 then
             if current_count = cnt then exec ?els sel cnt res
             else
               bindW (exec ?els current_sel current_count (Vector_Initialize junk (ty ?els) STANDARD_VECTOR_SIZE)) (\<lambda>intermediate_result.
               bindW (liftW (FillSwitch nested junk intermediate_result current_sel current_count res)) (\<lambda>res.
                 returnW (if sel \<noteq> None then Slice_sel sel cnt res else res)))
           else returnW (if sel \<noteq> None then Slice_sel sel cnt res else res))"
    proof (cases r)
      case (Inl v)
      with r show ?thesis by (auto simp: case_yield_def intro!: yields_return)
    next
      case (Inr x)
      obtain s c res' where x: "x = (s, c, res')" by (cases x)
      have rest: "case_rest t ?A ?rows (oc ?els) s c res'" using r Inr x by (simp add: case_yield_def)
      consider "c = cnt" | "c < cnt" "c = 0" | "c < cnt" "0 < c" using rest by (auto simp: case_rest_def split: if_splits)
      then show ?thesis
      proof cases
        case 1
        then have blank: "blank (ty ?els) res'" and sub: "\<And>x. x \<in> set ?rows \<Longrightarrow> oc ?els x \<subseteq> ?A x"
          using rest els(2) by (auto simp: case_rest_def)
        with exec_blank [OF els(1) sel rows _ blank] els(2,4) have "yields I (evals t (oc ?els) ?rows) (exec ?els sel cnt res')"
          by (simp del: case_out.simps)
        then have "yields I (evals t ?A ?rows) (exec ?els sel cnt res')"
          by (rule yields_mono) (rule evals_cong [OF sub])
        with 1 cnt show ?thesis by (simp add: Inr x)
      next
        case 2
        then have "case_state t ?A (set ?rows) {} res'" using rest by (auto simp: case_rest_def)
        from case_final [OF this rows sel] 2 show ?thesis by (simp add: Inr x yields_return)
      next
        case 3
        then obtain xs where xs: "s = Some xs" "c \<le> length xs" "distinct (sel_rows s c)" "set (sel_rows s c) \<subseteq> set ?rows"
          "case_state t ?A (set ?rows) (set (sel_rows s c)) res'" "\<forall>x \<in> set (sel_rows s c). oc ?els x \<subseteq> ?A x"
          using rest by (auto simp: case_rest_def)
        have "yields I (evals t ?A ?rows) (bindW (exec ?els s c (Vector_Initialize junk (ty ?els) STANDARD_VECTOR_SIZE)) (\<lambda>v.
            bindW (liftW (FillSwitch nested junk v s c res')) (\<lambda>res. returnW (if sel \<noteq> None then Slice_sel sel cnt res else res))))"
          by (rule exec_fill [OF rows els xs(5,4,1) 3(2) xs(2,3) order_refl xs(6)])
            (use case_final [OF _ rows sel] in \<open>auto intro!: yields_return\<close>)
        with 3 show ?thesis by (simp add: Inr x)
      qed
    qed
  qed
qed

end

end
