(* ===== verification/Null_Operations.thy ===== *)
theory Null_Operations
  imports Boolean_Operators
begin

text \<open>
  IS NULL and IS NOT NULL on vectors, and the questions about NULLs in a vector
  (\<open>null_operations.cpp\<close>).
\<close>

section \<open>Operations\<close>

definition IsNullLoop :: "junk \<Rightarrow> bool \<Rightarrow> Vector \<Rightarrow> nat \<Rightarrow> Vector \<Rightarrow> Vector result" where
  "IsNullLoop junk INVERSE input cnt res =
     (if GetVectorType input = CONSTANT_VECTOR then
        (let res = SetVectorType CONSTANT_VECTOR res;
             r = (if INVERSE then \<not> ConstantVector_IsNull input else ConstantVector_IsNull input)
         in Inr (Constant (GetType res) ((vec_data res)[0 := bool_cell r]) (vec_validity res)))
      else
        bindE (ToUnifiedFormat junk cnt input) (\<lambda>data.
          let res = SetVectorType FLAT_VECTOR res;
              d = fold (\<lambda>i d.
                let idx = get_index (uf_sel data) i in
                d[i := bool_cell (if INVERSE then RowIsValid (uf_validity data) idx else \<not> RowIsValid (uf_validity data) idx)])
                [0..<cnt] (vec_data res)
          in Inr (Flat (GetType res) d (vec_validity res))))"

definition VectorOperations_IsNotNull :: "junk \<Rightarrow> Vector \<Rightarrow> nat \<Rightarrow> Vector \<Rightarrow> Vector result" where
  "VectorOperations_IsNotNull junk input cnt res = IsNullLoop junk True input cnt res"

definition VectorOperations_IsNull :: "junk \<Rightarrow> Vector \<Rightarrow> nat \<Rightarrow> Vector \<Rightarrow> Vector result" where
  "VectorOperations_IsNull junk input cnt res = IsNullLoop junk False input cnt res"

text \<open>A loop that stops at the first row that satisfies \<open>P\<close>.\<close>

fun any_row :: "(nat \<Rightarrow> bool) \<Rightarrow> nat list \<Rightarrow> bool" where
  "any_row P [] = False"
| "any_row P (i # idxs) = (if P i then True else any_row P idxs)"

definition VectorOperations_HasNotNull :: "junk \<Rightarrow> Vector \<Rightarrow> nat \<Rightarrow> bool result" where
  "VectorOperations_HasNotNull junk input cnt =
     (if cnt = 0 then Inr False
      else if GetVectorType input = CONSTANT_VECTOR then Inr (\<not> ConstantVector_IsNull input)
      else
        bindE (ToUnifiedFormat junk cnt input) (\<lambda>data.
          if AllValid (uf_validity data) then Inr True
          else Inr (any_row (\<lambda>i. RowIsValid (uf_validity data) (get_index (uf_sel data) i)) [0..<cnt])))"

definition VectorOperations_HasNull :: "junk \<Rightarrow> Vector \<Rightarrow> nat \<Rightarrow> bool result" where
  "VectorOperations_HasNull junk input cnt =
     (if cnt = 0 then Inr False
      else if GetVectorType input = CONSTANT_VECTOR then Inr (ConstantVector_IsNull input)
      else
        bindE (ToUnifiedFormat junk cnt input) (\<lambda>data.
          if AllValid (uf_validity data) then Inr False
          else Inr (any_row (\<lambda>i. \<not> RowIsValid (uf_validity data) (get_index (uf_sel data) i)) [0..<cnt])))"

definition VectorOperations_CountNotNull :: "junk \<Rightarrow> Vector \<Rightarrow> nat \<Rightarrow> nat result" where
  "VectorOperations_CountNotNull junk input cnt =
     bindE (ToUnifiedFormat junk cnt input) (\<lambda>vdata.
       if AllValid (uf_validity vdata) then Inr cnt
       else
         case GetVectorType input of
           FLAT_VECTOR \<Rightarrow> Inr (CountValid (uf_validity vdata) cnt)
         | CONSTANT_VECTOR \<Rightarrow> Inr (CountValid (uf_validity vdata) 1 * cnt)
         | DICTIONARY_VECTOR \<Rightarrow>
             Inr (fold (\<lambda>i valid. valid + of_bool (RowIsValid (uf_validity vdata) (get_index (uf_sel vdata) i))) [0..<cnt] 0))"

section \<open>Rows\<close>

lemma any_row_iff: "any_row P xs \<longleftrightarrow> (\<exists>i \<in> set xs. P i)"
  by (induction xs) auto

lemma unified_null: "unified_row u i = x \<Longrightarrow> RowIsValid (uf_validity u) (get_index (uf_sel u) i) \<longleftrightarrow> x \<noteq> None"
  by (auto simp: unified_row_def Let_def split: if_splits)

lemma constant_null: "ConstantVector_IsNull (Constant t d m) \<longleftrightarrow> vec_row (Constant t d m) i = None"
  by (simp add: ConstantVector_IsNull_def)

lemma constant_cases:
  assumes "GetVectorType v = CONSTANT_VECTOR"
  obtains t d m where "v = Constant t d m"
  using assms by (cases v) simp_all

lemma IsNullLoop_rows:
  assumes "vec_ok n input" and "fresh_vec n res"
  shows "\<exists>v. IsNullLoop junk negated input n res = Inr v \<and> GetType v = GetType res \<and> vec_ok n v \<and>
    (\<forall>i < n. vec_row v i = Some (bool_cell ((vec_row input i = None) \<noteq> negated)))"
  using assms(2)
proof (rule fresh_vecE)
  fix t d m
  assume res: "res = Flat t d m" "scalar_type t" "n \<le> length d" "d \<noteq> []" "AllValid m" "mask_wf m" "n \<le> capacity m" "0 < capacity m"
  have valid: "RowIsValid m i" for i using res(5) by (simp add: AllValid_def RowIsValid_def)
  show ?thesis
  proof (cases "GetVectorType input = CONSTANT_VECTOR")
    case True
    then show ?thesis
    proof (rule constant_cases)
      fix lt ld lm
      assume "input = Constant lt ld lm"
      with res valid show ?thesis
        by (auto simp: IsNullLoop_def SetVectorType_def vec_data_def vec_validity_def ConstantVector_IsNull_def)
    qed
  next
    case False
    obtain u where u: "ToUnifiedFormat junk n input = Inr u" "\<forall>i < n. unified_row u i = vec_row input i"
      using unified_rows [OF assms(1)] by blast
    let ?b = "\<lambda>i. bool_cell (if negated then RowIsValid (uf_validity u) (get_index (uf_sel u) i) else \<not> RowIsValid (uf_validity u) (get_index (uf_sel u) i))"
    let ?d = "fold (\<lambda>i d. d[i := ?b i]) [0..<n] d"
    have "IsNullLoop junk negated input n res = Inr (Flat t ?d m)"
      using False u(1) res(1) by (simp add: IsNullLoop_def SetVectorType_def vec_data_def vec_validity_def Let_def)
    moreover have "length ?d = length d" "\<forall>i < n. ?d ! i = ?b i"
      using fold_rows_nth [of n d "\<lambda>_. True" ?b] res(3) by simp_all
    moreover have "?b i = bool_cell ((vec_row input i = None) \<noteq> negated)" if "i < n" for i
      using unified_null [OF u(2) [rule_format, OF that]] by auto
    ultimately show ?thesis
      using res valid by auto
  qed
qed

lemma ex_const: "(\<exists>i < n. c) \<longleftrightarrow> 0 < (n :: nat) \<and> c" "(\<exists>i. i < n) \<longleftrightarrow> 0 < (n :: nat)"
  by auto

lemma has_null_rows:
  assumes "vec_ok n input"
  shows "VectorOperations_HasNull junk input n = Inr (\<exists>i < n. vec_row input i = None)"
    and "VectorOperations_HasNotNull junk input n = Inr (\<exists>i < n. vec_row input i \<noteq> None)"
proof -
  obtain u where u: "ToUnifiedFormat junk n input = Inr u" "\<forall>i < n. unified_row u i = vec_row input i"
    using unified_rows [OF assms] by blast
  have rows: "RowIsValid (uf_validity u) (get_index (uf_sel u) i) \<longleftrightarrow> vec_row input i \<noteq> None" if "i < n" for i
    by (rule unified_null) (use u(2) that in blast)
  have all: "vec_row input i \<noteq> None" if "AllValid (uf_validity u)" "i < n" for i
    using rows [OF that(2)] that(1) by (auto simp: AllValid_def RowIsValid_def)
  show "VectorOperations_HasNull junk input n = Inr (\<exists>i < n. vec_row input i = None)"
  proof (cases "GetVectorType input = CONSTANT_VECTOR")
    case True
    then obtain t d m where "input = Constant t d m" by (rule constant_cases)
    then show ?thesis by (simp add: VectorOperations_HasNull_def ConstantVector_IsNull_def ex_const)
  next
    case False
    then show ?thesis using u(1) rows all by (auto simp: VectorOperations_HasNull_def any_row_iff)
  qed
  show "VectorOperations_HasNotNull junk input n = Inr (\<exists>i < n. vec_row input i \<noteq> None)"
  proof (cases "GetVectorType input = CONSTANT_VECTOR")
    case True
    then obtain t d m where "input = Constant t d m" by (rule constant_cases)
    then show ?thesis by (simp add: VectorOperations_HasNotNull_def ConstantVector_IsNull_def ex_const)
  next
    case False
    then show ?thesis using u(1) rows all by (auto simp: VectorOperations_HasNotNull_def any_row_iff intro: gr0I)
  qed
qed

lemma count_fold: "fold (\<lambda>i valid. valid + of_bool (P i)) [0..<n] 0 = length (filter P [0..<n])"
  by (induction n) simp_all

lemma count_not_null_rows:
  assumes "vec_ok n input"
  shows "VectorOperations_CountNotNull junk input n = Inr (card {i. i < n \<and> vec_row input i \<noteq> None})"
proof -
  obtain u where u: "ToUnifiedFormat junk n input = Inr u" "\<forall>i < n. unified_row u i = vec_row input i"
    using unified_rows [OF assms] by blast
  have rows: "RowIsValid (uf_validity u) (get_index (uf_sel u) i) \<longleftrightarrow> vec_row input i \<noteq> None" if "i < n" for i
    by (rule unified_null) (use u(2) that in blast)
  have card: "card {i. i < n \<and> vec_row input i \<noteq> None} = length (filter (\<lambda>i. vec_row input i \<noteq> None) [0..<n])"
  proof -
    have "{i. i < n \<and> vec_row input i \<noteq> None} = set (filter (\<lambda>i. vec_row input i \<noteq> None) [0..<n])" by auto
    then show ?thesis by (simp only: distinct_card distinct_filter distinct_upt)
  qed
  also have "\<dots> = length (filter (\<lambda>i. RowIsValid (uf_validity u) (get_index (uf_sel u) i)) [0..<n])"
    using rows by (intro arg_cong [where f = length] filter_cong) auto
  finally have card: "card {i. i < n \<and> vec_row input i \<noteq> None} =
      length (filter (\<lambda>i. RowIsValid (uf_validity u) (get_index (uf_sel u) i)) [0..<n])" .
  show ?thesis
  proof (cases "AllValid (uf_validity u)")
    case True
    then show ?thesis using u(1) card by (simp add: VectorOperations_CountNotNull_def AllValid_def RowIsValid_def)
  next
    case False
    from assms show ?thesis
    proof (cases rule: vec_ok_cases)
      case (Flat t d m)
      then have "u = \<lparr>uf_sel = None, uf_data = d, uf_validity = m\<rparr>"
        using u(1) by (simp add: ToUnifiedFormat_def Flatten_def flat_format_def IncrementalSelectionVector_def)
      with Flat False u(1) card show ?thesis
        by (simp add: VectorOperations_CountNotNull_def CountValid_rows get_index_def)
    next
      case (Constant t d m)
      then have "u = \<lparr>uf_sel = ZeroSelectionVector n, uf_data = d, uf_validity = m\<rparr>"
        using u(1) by (simp add: ToUnifiedFormat_def)
      moreover have "\<forall>i < n. get_index (ZeroSelectionVector n) i = 0"
        by (simp add: ZeroSelectionVector_def get_index_def)
      moreover from this have "filter (\<lambda>i. RowIsValid m (get_index (ZeroSelectionVector n) i)) [0..<n] = filter (\<lambda>i. RowIsValid m 0) [0..<n]"
        by (intro filter_cong) auto
      ultimately show ?thesis
        using Constant False u(1) card by (cases "RowIsValid m 0") (simp_all add: VectorOperations_CountNotNull_def CountValid_rows)
    next
      case (Dictionary t xs d m)
      with False u(1) card show ?thesis
        by (simp add: VectorOperations_CountNotNull_def count_fold)
    qed
  qed
qed

text \<open>
  IS NULL, IS NOT NULL, the tests for a NULL or a value and the count of values agree with the rows of
  the vector, whatever its form.
\<close>

theorem null_operations_rows:
  assumes "vec_ok n input" and "fresh_vec n res"
  shows "(\<exists>v. VectorOperations_IsNull junk input n res = Inr v \<and> (\<forall>i < n. vec_row v i = Some (bool_cell (vec_row input i = None)))) \<and>
    (\<exists>v. VectorOperations_IsNotNull junk input n res = Inr v \<and> (\<forall>i < n. vec_row v i = Some (bool_cell (vec_row input i \<noteq> None)))) \<and>
    VectorOperations_HasNull junk input n = Inr (\<exists>i < n. vec_row input i = None) \<and>
    VectorOperations_HasNotNull junk input n = Inr (\<exists>i < n. vec_row input i \<noteq> None) \<and>
    VectorOperations_CountNotNull junk input n = Inr (card {i. i < n \<and> vec_row input i \<noteq> None})"
  using IsNullLoop_rows [OF assms, of junk True] IsNullLoop_rows [OF assms, of junk False] has_null_rows [OF assms(1)]
    count_not_null_rows [OF assms(1)]
  by (auto simp: VectorOperations_IsNull_def VectorOperations_IsNotNull_def)

theorem null_operations_rows_witness:
  "VectorOperations_CountNotNull (\<lambda>_. 0) ex_null 3 = Inr 0 \<and> VectorOperations_HasNull (\<lambda>_. 0) ex_null 3 = Inr True"
  using null_operations_rows [where n = 3 and input = ex_null and res = "Vector_Initialize (\<lambda>_. 0) BOOLEAN 64" and junk = "\<lambda>_. 0"]
  by (auto simp: ex_const)

end
