(* ===== verification/Ternary_Executor.thy ===== *)
theory Ternary_Executor
  imports Execute_Comparison
begin

text \<open>
  \<open>TernaryExecutor\<close> (\<open>ternary_executor.hpp\<close>), the template for operations on three vectors, and the node
  that uses it, BETWEEN (\<open>execute_between.cpp\<close>). As a filter BETWEEN is one pass over the three vectors, as
  a projection it is two comparisons and an AND; the theorems show that both mean the same.
\<close>

section \<open>Execute\<close>

type_synonym op3 = "cell \<Rightarrow> cell \<Rightarrow> cell \<Rightarrow> ValidityMask \<Rightarrow> nat \<Rightarrow> (cell \<times> ValidityMask) result"

definition TernaryLambdaWrapper :: "(cell \<Rightarrow> cell \<Rightarrow> cell \<Rightarrow> cell result) \<Rightarrow> op3" where
  "TernaryLambdaWrapper f a b c vmask idx = bindE (f a b c) (\<lambda>r. Inr (r, vmask))"

definition ternary_row ::
    "op3 \<Rightarrow> UnifiedVectorFormat \<Rightarrow> UnifiedVectorFormat \<Rightarrow> UnifiedVectorFormat \<Rightarrow> nat \<Rightarrow> cell list \<times> ValidityMask
      \<Rightarrow> (cell list \<times> ValidityMask) result" where
  "ternary_row w a b c i = (\<lambda>(result_data, mask).
     bindE (w (uf_data a ! get_index (uf_sel a) i) (uf_data b ! get_index (uf_sel b) i) (uf_data c ! get_index (uf_sel c) i) mask i)
       (\<lambda>(r, mask). Inr (result_data[i := r], mask)))"

definition ExecuteLoop ::
    "op3 \<Rightarrow> UnifiedVectorFormat \<Rightarrow> UnifiedVectorFormat \<Rightarrow> UnifiedVectorFormat \<Rightarrow> nat \<Rightarrow> cell list \<times> ValidityMask
      \<Rightarrow> (cell list \<times> ValidityMask) result" where
  "ExecuteLoop w a b c cnt st =
     (if \<not> AllValid (uf_validity a) \<or> \<not> AllValid (uf_validity b) \<or> \<not> AllValid (uf_validity c) then
        foldE (\<lambda>i (d, m).
            if RowIsValid (uf_validity a) (get_index (uf_sel a) i) \<and> RowIsValid (uf_validity b) (get_index (uf_sel b) i) \<and>
               RowIsValid (uf_validity c) (get_index (uf_sel c) i)
            then ternary_row w a b c i (d, m) else Inr (d, SetInvalid i m))
          [0..<cnt] st
      else foldE (ternary_row w a b c) [0..<cnt] st)"

definition Ternary_ExecuteGeneric :: "junk \<Rightarrow> op3 \<Rightarrow> Vector \<Rightarrow> Vector \<Rightarrow> Vector \<Rightarrow> nat \<Rightarrow> Vector \<Rightarrow> Vector result" where
  "Ternary_ExecuteGeneric junk w a b c cnt res =
     (if GetVectorType a = CONSTANT_VECTOR \<and> GetVectorType b = CONSTANT_VECTOR \<and> GetVectorType c = CONSTANT_VECTOR then
        let res = SetVectorType CONSTANT_VECTOR res in
        if ConstantVector_IsNull a \<or> ConstantVector_IsNull b \<or> ConstantVector_IsNull c then Inr (ConstantVector_SetNull True res)
        else
          bindE (w (vec_data a ! 0) (vec_data b ! 0) (vec_data c ! 0) (vec_validity res) 0) (\<lambda>(r, mask).
            Inr (Constant (GetType res) ((vec_data res)[0 := r]) mask))
      else
        let res = SetVectorType FLAT_VECTOR res in
        bindE (ToUnifiedFormat junk cnt a) (\<lambda>adata.
        bindE (ToUnifiedFormat junk cnt b) (\<lambda>bdata.
        bindE (ToUnifiedFormat junk cnt c) (\<lambda>cdata.
        bindE (ExecuteLoop w adata bdata cdata cnt (vec_data res, vec_validity res)) (\<lambda>(d, m).
          Inr (Flat (GetType res) d m))))))"

definition Ternary_Execute :: "junk \<Rightarrow> (cell \<Rightarrow> cell \<Rightarrow> cell \<Rightarrow> cell result) \<Rightarrow> Vector \<Rightarrow> Vector \<Rightarrow> Vector \<Rightarrow> nat \<Rightarrow> Vector \<Rightarrow> Vector result" where
  "Ternary_Execute junk f a b c cnt res = Ternary_ExecuteGeneric junk (TernaryLambdaWrapper f) a b c cnt res"

definition Ternary_ExecuteWithNulls :: "junk \<Rightarrow> op3 \<Rightarrow> Vector \<Rightarrow> Vector \<Rightarrow> Vector \<Rightarrow> nat \<Rightarrow> Vector \<Rightarrow> Vector result" where
  "Ternary_ExecuteWithNulls junk f a b c cnt res = Ternary_ExecuteGeneric junk f a b c cnt res"

section \<open>Select\<close>

definition Ternary_SelectLoop ::
    "bool \<Rightarrow> (cell \<Rightarrow> cell \<Rightarrow> cell \<Rightarrow> bool) \<Rightarrow> UnifiedVectorFormat \<Rightarrow> UnifiedVectorFormat \<Rightarrow> UnifiedVectorFormat \<Rightarrow> selref \<Rightarrow> nat
      \<Rightarrow> SelectionVector option \<Rightarrow> SelectionVector option \<Rightarrow> select_output" where
  "Ternary_SelectLoop NO_NULL OP a b c sel cnt ts fs =
     (let P = (\<lambda>i.
            (NO_NULL \<or> RowIsValid (uf_validity a) (get_index (uf_sel a) i) \<and> RowIsValid (uf_validity b) (get_index (uf_sel b) i) \<and>
               RowIsValid (uf_validity c) (get_index (uf_sel c) i)) \<and>
            OP (uf_data a ! get_index (uf_sel a) i) (uf_data b ! get_index (uf_sel b) i) (uf_data c ! get_index (uf_sel c) i));
          st = fold (write_step sel P) [0..<cnt] (select_init ts fs)
      in select_output (select_result cnt st) st)"

definition Ternary_Select :: "junk \<Rightarrow> (cell \<Rightarrow> cell \<Rightarrow> cell \<Rightarrow> bool) \<Rightarrow> Vector \<Rightarrow> Vector \<Rightarrow> Vector \<Rightarrow> filter_fn" where
  "Ternary_Select junk OP a b c sel cnt ts fs =
     bindE (ToUnifiedFormat junk cnt a) (\<lambda>adata.
     bindE (ToUnifiedFormat junk cnt b) (\<lambda>bdata.
     bindE (ToUnifiedFormat junk cnt c) (\<lambda>cdata.
       let has_null = \<not> AllValid (uf_validity adata) \<or> \<not> AllValid (uf_validity bdata) \<or> \<not> AllValid (uf_validity cdata) in
       Inr (Ternary_SelectLoop (\<not> has_null) OP adata bdata cdata sel cnt ts fs))))"

section \<open>BETWEEN\<close>

definition BothInclusiveBetweenOperator :: "cell \<Rightarrow> cell \<Rightarrow> cell \<Rightarrow> bool" where
  "BothInclusiveBetweenOperator input lower upper \<longleftrightarrow> GreaterThanEquals input lower \<and> LessThanEquals input upper"

definition LowerInclusiveBetweenOperator :: "cell \<Rightarrow> cell \<Rightarrow> cell \<Rightarrow> bool" where
  "LowerInclusiveBetweenOperator input lower upper \<longleftrightarrow> GreaterThanEquals input lower \<and> LessThan input upper"

definition UpperInclusiveBetweenOperator :: "cell \<Rightarrow> cell \<Rightarrow> cell \<Rightarrow> bool" where
  "UpperInclusiveBetweenOperator input lower upper \<longleftrightarrow> GreaterThan input lower \<and> LessThanEquals input upper"

definition ExclusiveBetweenOperator :: "cell \<Rightarrow> cell \<Rightarrow> cell \<Rightarrow> bool" where
  "ExclusiveBetweenOperator input lower upper \<longleftrightarrow> GreaterThan input lower \<and> LessThan input upper"

text \<open>Intervals are selected by their own comparison, an argument here; nested types are refused.\<close>

definition BetweenLoopTypeSwitch ::
    "(Vector \<Rightarrow> Vector \<Rightarrow> Vector \<Rightarrow> filter_fn) \<Rightarrow> junk \<Rightarrow> (cell \<Rightarrow> cell \<Rightarrow> cell \<Rightarrow> bool) \<Rightarrow> Vector \<Rightarrow> Vector \<Rightarrow> Vector \<Rightarrow> filter_fn" where
  "BetweenLoopTypeSwitch interval_select junk OP input lower upper sel cnt ts fs =
     (let pt = InternalType (GetType input) in
      if loop_type pt then Ternary_Select junk OP input lower upper sel cnt ts fs
      else if pt = PT_INTERVAL then interval_select input lower upper sel cnt ts fs
      else Inl InvalidTypeException)"

definition Select_Between ::
    "(Vector \<Rightarrow> Vector \<Rightarrow> Vector \<Rightarrow> filter_fn) \<Rightarrow> junk \<Rightarrow> bool \<Rightarrow> bool \<Rightarrow> Vector \<Rightarrow> Vector \<Rightarrow> Vector \<Rightarrow> filter_fn" where
  "Select_Between ivs junk lower_inclusive upper_inclusive input lower upper sel cnt ts fs =
     (if upper_inclusive \<and> lower_inclusive then BetweenLoopTypeSwitch ivs junk BothInclusiveBetweenOperator input lower upper sel cnt ts fs
      else if lower_inclusive then BetweenLoopTypeSwitch ivs junk LowerInclusiveBetweenOperator input lower upper sel cnt ts fs
      else if upper_inclusive then BetweenLoopTypeSwitch ivs junk UpperInclusiveBetweenOperator input lower upper sel cnt ts fs
      else BetweenLoopTypeSwitch ivs junk ExclusiveBetweenOperator input lower upper sel cnt ts fs)"

text \<open>\<open>same1\<close> and \<open>same2\<close>: whether the input shares its mask with the lower and the upper bound.\<close>

definition Execute_Between ::
    "nested_compare \<Rightarrow> bool \<Rightarrow> bool \<Rightarrow> junk \<Rightarrow> bool \<Rightarrow> bool \<Rightarrow> Vector \<Rightarrow> Vector \<Rightarrow> Vector \<Rightarrow> nat \<Rightarrow> Vector \<Rightarrow> Vector result" where
  "Execute_Between nested same1 same2 junk lower_inclusive upper_inclusive input lower upper cnt res =
     (let intermediate1 = Vector_Initialize junk BOOLEAN STANDARD_VECTOR_SIZE;
          intermediate2 = Vector_Initialize junk BOOLEAN STANDARD_VECTOR_SIZE in
      bindE
        (if upper_inclusive \<and> lower_inclusive then
           bindE (VectorOperations_GreaterThanEquals nested same1 junk input lower cnt intermediate1) (\<lambda>i1.
           bindE (VectorOperations_LessThanEquals nested same2 junk input upper cnt intermediate2) (\<lambda>i2. Inr (i1, i2)))
         else if lower_inclusive then
           bindE (VectorOperations_GreaterThanEquals nested same1 junk input lower cnt intermediate1) (\<lambda>i1.
           bindE (VectorOperations_LessThan nested same2 junk input upper cnt intermediate2) (\<lambda>i2. Inr (i1, i2)))
         else if upper_inclusive then
           bindE (VectorOperations_GreaterThan nested same1 junk input lower cnt intermediate1) (\<lambda>i1.
           bindE (VectorOperations_LessThanEquals nested same2 junk input upper cnt intermediate2) (\<lambda>i2. Inr (i1, i2)))
         else
           bindE (VectorOperations_GreaterThan nested same1 junk input lower cnt intermediate1) (\<lambda>i1.
           bindE (VectorOperations_LessThan nested same2 junk input upper cnt intermediate2) (\<lambda>i2. Inr (i1, i2))))
        (\<lambda>(i1, i2). VectorOperations_And junk i1 i2 cnt res))"

section \<open>Rows\<close>

definition ter_row :: "(cell \<Rightarrow> cell \<Rightarrow> cell \<Rightarrow> cell result) \<Rightarrow> Vector \<Rightarrow> Vector \<Rightarrow> Vector \<Rightarrow> nat \<Rightarrow> cell option result" where
  "ter_row f a b c i =
     (case (vec_row a i, vec_row b i, vec_row c i) of
        (Some x, Some y, Some z) \<Rightarrow> bindE (f x y z) (\<lambda>r. Inr (Some r))
      | _ \<Rightarrow> Inr None)"

lemma ternary_constant_rows:
  assumes "fresh_vec n res" and "0 < n"
  shows "executes (GetType res) n (ter_row f (Constant at ad am) (Constant bt bd bm) (Constant ct cd cm))
    (Ternary_Execute junk f (Constant at ad am) (Constant bt bd bm) (Constant ct cd cm) n res)"
  using assms(1)
proof (rule fresh_vecE)
  fix t d m
  assume res: "res = Flat t d m" "scalar_type t" "n \<le> length d" "d \<noteq> []" "AllValid m" "mask_wf m" "n \<le> capacity m" "0 < capacity m"
  let ?row = "ter_row f (Constant at ad am) (Constant bt bd bm) (Constant ct cd cm)"
  note defs = Ternary_Execute_def Ternary_ExecuteGeneric_def TernaryLambdaWrapper_def ConstantVector_IsNull_def vec_data_def
  show ?thesis
  proof (cases "RowIsValid am 0 \<and> RowIsValid bm 0 \<and> RowIsValid cm 0")
    case False
    then have "?row i = Inr None" for i by (auto simp: ter_row_def)
    with False fresh_null [OF assms(1)] show ?thesis by (auto simp: defs)
  next
    case True
    then have row: "?row i = bindE (f (ad ! 0) (bd ! 0) (cd ! 0)) (\<lambda>r. Inr (Some r))" for i by (simp add: ter_row_def)
    show ?thesis
    proof (cases "f (ad ! 0) (bd ! 0) (cd ! 0)")
      case (Inl e)
      with True executes_error [OF assms(2)] row show ?thesis by (simp add: defs)
    next
      case (Inr r)
      have "executes t n ?row (Inr (Constant t (d[0 := r]) m))"
        by (rule executes_same [where x = "Some r"]) (use row Inr res in \<open>auto simp: AllValid_def RowIsValid_bit\<close>)
      with True Inr res show ?thesis by (simp add: defs vec_validity_def SetVectorType_def)
    qed
  qed
qed

lemma ternary_generic_rows:
  assumes res: "scalar_type t" "n \<le> length d" "AllValid m" "n \<le> capacity m"
    and u: "\<forall>i < n. unified_row ua i = vec_row a i" "\<forall>i < n. unified_row ub i = vec_row b i" "\<forall>i < n. unified_row uc i = vec_row c i"
  shows "executes t n (ter_row f a b c)
    (bindE (ExecuteLoop (TernaryLambdaWrapper f) ua ub uc n (d, m)) (\<lambda>(d, m). Inr (Flat t d m)))"
proof -
  let ?V = "\<lambda>i. RowIsValid (uf_validity ua) (get_index (uf_sel ua) i) \<and> RowIsValid (uf_validity ub) (get_index (uf_sel ub) i) \<and>
    RowIsValid (uf_validity uc) (get_index (uf_sel uc) i)"
  let ?g = "\<lambda>i. f (uf_data ua ! get_index (uf_sel ua) i) (uf_data ub ! get_index (uf_sel ub) i) (uf_data uc ! get_index (uf_sel uc) i)"
  have row: "ter_row f a b c i = rowE ?g ?V i" if "i < n" for i
    unfolding ter_row_def u(1) [rule_format, OF that, symmetric] u(2) [rule_format, OF that, symmetric] u(3) [rule_format, OF that, symmetric]
    by (simp add: unified_row_def rowE_def Let_def)
  have gen: "ternary_row (TernaryLambdaWrapper f) ua ub uc i st = row_loop ?g ?V SetInvalid i st" if "?V i" for i st
    using that by (cases st) (simp add: ternary_row_def row_loop_step TernaryLambdaWrapper_def bindE_def split: sum.splits)
  have "ExecuteLoop (TernaryLambdaWrapper f) ua ub uc n (d, m) = foldE (row_loop ?g ?V SetInvalid) [0..<n] (d, m)"
  proof (cases "AllValid (uf_validity ua) \<and> AllValid (uf_validity ub) \<and> AllValid (uf_validity uc)")
    case True
    then have "?V i" for i by (simp add: AllValid_def RowIsValid_def)
    with True gen show ?thesis unfolding ExecuteLoop_def by (auto intro!: foldE_cong)
  next
    case False
    have "foldE (\<lambda>i (d, m). if ?V i then ternary_row (TernaryLambdaWrapper f) ua ub uc i (d, m) else Inr (d, SetInvalid i m)) [0..<n] (d, m) =
        foldE (row_loop ?g ?V SetInvalid) [0..<n] (d, m)"
      by (rule foldE_cong) (auto simp: gen row_loop_step)
    with False show ?thesis unfolding ExecuteLoop_def by auto
  qed
  then show ?thesis using clear_loop_executes [OF res row] by simp
qed

lemma Ternary_Execute_rows:
  assumes "vec_ok n a" "vec_ok n b" "vec_ok n c" and "fresh_vec n res" and "0 < n"
  shows "executes (GetType res) n (ter_row f a b c) (Ternary_Execute junk f a b c n res)"
proof (cases "GetVectorType a = CONSTANT_VECTOR \<and> GetVectorType b = CONSTANT_VECTOR \<and> GetVectorType c = CONSTANT_VECTOR")
  case True
  then show ?thesis
    using ternary_constant_rows [OF assms(4,5)] by (cases a; cases b; cases c) simp_all
next
  case False
  obtain ua ub uc where u: "ToUnifiedFormat junk n a = Inr ua" "ToUnifiedFormat junk n b = Inr ub" "ToUnifiedFormat junk n c = Inr uc"
    "\<forall>i < n. unified_row ua i = vec_row a i" "\<forall>i < n. unified_row ub i = vec_row b i" "\<forall>i < n. unified_row uc i = vec_row c i"
    using unified_rows [OF assms(1)] unified_rows [OF assms(2)] unified_rows [OF assms(3)] by metis
  from assms(4) obtain t d m where res: "res = Flat t d m" "scalar_type t" "n \<le> length d" "AllValid m" "n \<le> capacity m"
    by (rule fresh_vecE)
  from ternary_generic_rows [OF res(2-5) u(4-6), of f] False u(1-3) res(1) show ?thesis
    by (auto simp: Ternary_Execute_def Ternary_ExecuteGeneric_def SetVectorType_def vec_data_def vec_validity_def Let_def split del: if_split)
qed

lemma Ternary_Select_rows:
  assumes "vec_ok n a" "vec_ok n b" "vec_ok n c" and "select_ready n sel ts fs"
  shows "\<exists>r. Ternary_Select junk OP a b c sel n ts fs = Inr r \<and>
    splits n (sel_row sel ts fs) (\<lambda>i. case (vec_row a i, vec_row b i, vec_row c i) of (Some x, Some y, Some z) \<Rightarrow> OP x y z | _ \<Rightarrow> False) ts fs r"
proof -
  obtain ua ub uc where u: "ToUnifiedFormat junk n a = Inr ua" "ToUnifiedFormat junk n b = Inr ub" "ToUnifiedFormat junk n c = Inr uc"
    "\<forall>i < n. unified_row ua i = vec_row a i" "\<forall>i < n. unified_row ub i = vec_row b i" "\<forall>i < n. unified_row uc i = vec_row c i"
    using unified_rows [OF assms(1)] unified_rows [OF assms(2)] unified_rows [OF assms(3)] by metis
  let ?null = "\<not> AllValid (uf_validity ua) \<or> \<not> AllValid (uf_validity ub) \<or> \<not> AllValid (uf_validity uc)"
  let ?V = "\<lambda>i. RowIsValid (uf_validity ua) (get_index (uf_sel ua) i) \<and> RowIsValid (uf_validity ub) (get_index (uf_sel ub) i) \<and>
    RowIsValid (uf_validity uc) (get_index (uf_sel uc) i)"
  let ?P = "\<lambda>i. (\<not> ?null \<or> ?V i) \<and>
    OP (uf_data ua ! get_index (uf_sel ua) i) (uf_data ub ! get_index (uf_sel ub) i) (uf_data uc ! get_index (uf_sel uc) i)"
  have P: "(case (vec_row a i, vec_row b i, vec_row c i) of (Some x, Some y, Some z) \<Rightarrow> OP x y z | _ \<Rightarrow> False) = ?P i" if "i < n" for i
    unfolding u(4) [rule_format, OF that, symmetric] u(5) [rule_format, OF that, symmetric] u(6) [rule_format, OF that, symmetric]
    by (auto simp: unified_row_def Let_def AllValid_def RowIsValid_def)
  have "splits n (sel_row sel ts fs) ?P ts fs (Ternary_SelectLoop (\<not> ?null) OP ua ub uc sel n ts fs)"
    using assms(4) loop_splits [of n _ ts fs sel "\<lambda>_. write_step" ?P]
    unfolding select_ready_def Ternary_SelectLoop_def select_output_def Let_def by simp
  from splits_cong [OF this P] u(1-3) show ?thesis by (auto simp: Ternary_Select_def Let_def)
qed

section \<open>BETWEEN by rows\<close>

text \<open>The meaning of BETWEEN: two comparisons and a three-valued AND.\<close>

definition lower_type :: "bool \<Rightarrow> ExpressionType" where
  "lower_type inclusive = (if inclusive then ET_COMPARE_GREATERTHANOREQUALTO else ET_COMPARE_GREATERTHAN)"

definition upper_type :: "bool \<Rightarrow> ExpressionType" where
  "upper_type inclusive = (if inclusive then ET_COMPARE_LESSTHANOREQUALTO else ET_COMPARE_LESSTHAN)"

definition sql_between :: "bool \<Rightarrow> bool \<Rightarrow> cell option \<Rightarrow> cell option \<Rightarrow> cell option \<Rightarrow> int option" where
  "sql_between li ui x l u =
     sql_conj True (map_option of_bool (sql_compare (lower_type li) x l)) (map_option of_bool (sql_compare (upper_type ui) x u))"

definition between_op :: "bool \<Rightarrow> bool \<Rightarrow> cell \<Rightarrow> cell \<Rightarrow> cell \<Rightarrow> bool" where
  "between_op li ui x l u \<longleftrightarrow> compares (lower_type li) x l \<and> compares (upper_type ui) x u"

lemma between_operators:
  "BothInclusiveBetweenOperator = between_op True True" "LowerInclusiveBetweenOperator = between_op True False"
  "UpperInclusiveBetweenOperator = between_op False True" "ExclusiveBetweenOperator = between_op False False"
  by (simp_all add: fun_eq_iff between_op_def lower_type_def upper_type_def compares_def GreaterThanEquals_iff LessThan_def LessThanEquals_def
      BothInclusiveBetweenOperator_def LowerInclusiveBetweenOperator_def UpperInclusiveBetweenOperator_def ExclusiveBetweenOperator_def)

lemma bound_types: "et \<notin> {ET_COMPARE_DISTINCT_FROM, ET_COMPARE_NOT_DISTINCT_FROM}" if "et \<in> {lower_type li, upper_type ui}"
  using that by (auto simp: lower_type_def upper_type_def split: if_splits)

lemma between_true:
  "sql_between li ui x l u = Some 1 \<longleftrightarrow> (case (x, l, u) of (Some a, Some b, Some c) \<Rightarrow> between_op li ui a b c | _ \<Rightarrow> False)"
  using bound_types [of "lower_type li" li ui] bound_types [of "upper_type ui" li ui]
  by (cases x; cases l; cases u) (auto simp: sql_between_def sql_conj_def sql_compare_def between_op_def split: if_splits)

lemma Select_Between_switch:
  "Select_Between ivs junk li ui input lower upper sel n ts fs =
     BetweenLoopTypeSwitch ivs junk (between_op li ui) input lower upper sel n ts fs"
  by (cases li; cases ui) (simp_all add: Select_Between_def between_operators)

lemma Execute_Between_switch:
  "Execute_Between nested same1 same2 junk li ui input lower upper n res =
     bindE (Execute_Comparison nested same1 junk (lower_type li) input lower n (Vector_Initialize junk BOOLEAN STANDARD_VECTOR_SIZE)) (\<lambda>i1.
     bindE (Execute_Comparison nested same2 junk (upper_type ui) input upper n (Vector_Initialize junk BOOLEAN STANDARD_VECTOR_SIZE)) (\<lambda>i2.
       VectorOperations_And junk i1 i2 n res))"
  by (cases li; cases ui) (simp_all add: Execute_Between_def lower_type_def upper_type_def Execute_Comparison_def bindE_def split: sum.splits)

lemma initialized_fresh: "n \<le> STANDARD_VECTOR_SIZE \<Longrightarrow> scalar_type t \<Longrightarrow> fresh_vec n (Vector_Initialize junk t STANDARD_VECTOR_SIZE)"
  by (simp add: Vector_Initialize_eq fresh_vec_def AllValid_def)

lemma initialized_type [simp]: "GetType (Vector_Initialize junk t n) = t"
  by (simp add: Vector_Initialize_eq)

lemma boolean_scalar [simp]: "scalar_type BOOLEAN"
  by (simp add: scalar_type_def constant_size_type_def)

lemma executes_total:
  assumes "executes t n (\<lambda>i. Inr (row i)) r"
  shows "\<exists>v. r = Inr v \<and> GetType v = t \<and> vec_ok n v \<and> (\<forall>i < n. vec_row v i = row i)"
  using assms by (simp add: executes_def mapE_total)

lemma Execute_Between_rows:
  assumes "comparable same1 n input lower" "comparable same2 n input upper" and "fresh_vec n res" "0 < n" "n \<le> STANDARD_VECTOR_SIZE"
  shows "\<exists>v. Execute_Between nested same1 same2 junk li ui input lower upper n res = Inr v \<and> GetType v = GetType res \<and> vec_ok n v \<and>
    (\<forall>i < n. vec_row v i = map_option CInt (sql_between li ui (vec_row input i) (vec_row lower i) (vec_row upper i)))"
proof -
  let ?init = "Vector_Initialize junk BOOLEAN STANDARD_VECTOR_SIZE"
  have fresh: "fresh_vec n ?init" using initialized_fresh [OF assms(5)] by simp
  have types: "lower_type li \<in> set comparison_types" "upper_type ui \<in> set comparison_types"
    by (simp_all add: lower_type_def upper_type_def comparison_types_def)
  obtain v1 where v1: "Execute_Comparison nested same1 junk (lower_type li) input lower n ?init = Inr v1" "vec_ok n v1"
    "\<forall>i < n. vec_row v1 i = sql_row (lower_type li) input lower i"
    using executes_total [OF Execute_Comparison_rows [OF types(1) assms(1) fresh assms(4)]] by blast
  obtain v2 where v2: "Execute_Comparison nested same2 junk (upper_type ui) input upper n ?init = Inr v2" "vec_ok n v2"
    "\<forall>i < n. vec_row v2 i = sql_row (upper_type ui) input upper i"
    using executes_total [OF Execute_Comparison_rows [OF types(2) assms(2) fresh assms(4)]] by blast
  have truth: "truth v i = map_option of_bool x" if "vec_row v i = map_option bool_cell x" for v i x
    using that by (cases x) (simp_all add: truth_def)
  have "conj_row True v1 v2 i = map_option CInt (sql_between li ui (vec_row input i) (vec_row lower i) (vec_row upper i))" if "i < n" for i
    using truth [of v1 i] truth [of v2 i] v1(3) v2(3) that by (simp add: conj_row_def sql_between_def)
  with boolean_rows_ok [OF v1(2) v2(2) assms(3), of junk True] v1(1) v2(1) show ?thesis
    by (auto simp: Execute_Between_switch VectorOperations_And_def)
qed

text \<open>
  C36: BETWEEN with either kind of bounds is, row by row, the three-valued AND of its two comparisons, and
  as a filter it keeps exactly the rows for which this is TRUE, although the filter runs a different
  loop, over the three vectors at once. On a nested type the filter throws.
\<close>

theorem between_rows:
  assumes "comparable same1 n input lower" and "comparable same2 n input upper" and "fresh_vec n res" and "0 < n" and "n \<le> STANDARD_VECTOR_SIZE"
    and "select_ready n sel ts fs"
  shows "(\<exists>v. Execute_Between nested same1 same2 junk li ui input lower upper n res = Inr v \<and> vec_ok n v \<and>
      (\<forall>i < n. vec_row v i = map_option CInt (sql_between li ui (vec_row input i) (vec_row lower i) (vec_row upper i)))) \<and>
    (\<exists>r. Select_Between ivs junk li ui input lower upper sel n ts fs = Inr r \<and>
      splits n (sel_row sel ts fs) (\<lambda>i. sql_between li ui (vec_row input i) (vec_row lower i) (vec_row upper i) = Some 1) ts fs r)"
proof -
  have "Select_Between ivs junk li ui input lower upper sel n ts fs = Ternary_Select junk (between_op li ui) input lower upper sel n ts fs"
    using comparableD(1) [OF assms(1)] by (simp add: Select_Between_switch BetweenLoopTypeSwitch_def Let_def)
  moreover have "\<exists>r. Ternary_Select junk (between_op li ui) input lower upper sel n ts fs = Inr r \<and>
      splits n (sel_row sel ts fs) (\<lambda>i. sql_between li ui (vec_row input i) (vec_row lower i) (vec_row upper i) = Some 1) ts fs r"
    unfolding between_true by (rule Ternary_Select_rows) (use comparableD [OF assms(1)] comparableD [OF assms(2)] assms(6) in auto)
  ultimately show ?thesis
    using Execute_Between_rows [OF assms(1-5), of nested junk li ui] by auto
qed

text \<open>The witness: three booleans between NULL and FALSE; TRUE is above the upper bound, so the first row is FALSE, not NULL.\<close>

theorem between_rows_witness:
  "\<exists>v. Execute_Between (\<lambda>_ _ _ _ _. Inl InternalException) False False (\<lambda>_. 0) True True ex_dict ex_nulls
      (Constant BOOLEAN [CInt 0] (Mask_Reset 64)) 3 (Vector_Initialize (\<lambda>_. 0) BOOLEAN 64) = Inr v \<and>
    vec_row v 0 = Some (CInt 0) \<and> vec_row v 1 = None"
proof -
  let ?zero = "Constant BOOLEAN [CInt 0] (Mask_Reset 64)"
  have zero: "comparable False 3 ex_dict ?zero" "vec_row ?zero i = Some (CInt 0)" for i
    using ex_dict_ok
    by (simp_all add: comparable_def loop_type_def ex_dict_def scalar_type_def constant_size_type_def Mask_Reset_def)
  have ready: "select_ready 3 (SelFixed None) (Some (Some [0, 0, 0])) None"
    by (simp add: select_ready_def outputs_ready_def ref_ok_def select_init_def ref_index_def get_index_def)
  have fresh: "fresh_vec 3 (Vector_Initialize (\<lambda>_. 0) BOOLEAN 64)" by simp
  have dict: "vec_row ex_dict 0 = Some (CInt 1)" "vec_row ex_dict 1 = Some (CInt 0)"
    by (simp_all add: ex_dict_def get_index_def Mask_Reset_def)
  obtain v where v: "Execute_Between (\<lambda>_ _ _ _ _. Inl InternalException) False False (\<lambda>_. 0) True True ex_dict ex_nulls ?zero 3
      (Vector_Initialize (\<lambda>_. 0) BOOLEAN 64) = Inr v"
    "\<forall>i < 3. vec_row v i = map_option CInt (sql_between True True (vec_row ex_dict i) (vec_row ex_nulls i) (vec_row ?zero i))"
    using between_rows [OF ex_comparable zero(1) fresh _ _ ready, where nested = "\<lambda>_ _ _ _ _. Inl InternalException" and junk = "\<lambda>_. 0"
        and ivs = "\<lambda>_ _ _ _ _ _ _. Inl InternalException" and li = True and ui = True] by auto
  have "vec_row v 0 = Some (CInt 0)" "vec_row v 1 = None"
    using v(2) [rule_format, of 0] v(2) [rule_format, of 1] unfolding zero(2) ex_nulls_row dict
    by (simp_all add: sql_between_def sql_conj_def sql_compare_def lower_type_def upper_type_def compares_def GreaterThan_def)
  with v(1) show ?thesis by blast
qed

end
