(* ===== verification/Execute_Operator.thy ===== *)
theory Execute_Operator
  imports Execute_Case Null_Operations Ternary_Executor
begin

text \<open>
  The operator node (\<open>execute_operator.cpp\<close>): IN and NOT IN, COALESCE, TRY, NOT, IS NULL and IS NOT NULL, over
  children that may throw and that change the executor's state. TRY catches the errors of its child and
  repeats it row by row. The lemmas describe the rows of each operator from the outcomes of its children.
\<close>

section \<open>Parameters\<close>

text \<open>
  What the vector operations depend on besides their arguments: the contents of fresh memory, whether two
  vectors share a mask, the size of a dictionary that comes from storage, and the loops over nested types.
\<close>

record vector_env =
  vjunk :: junk
  sjunk :: "nat \<Rightarrow> sel_t"
  same_mask :: "Vector \<Rightarrow> Vector \<Rightarrow> bool"
  dictionary_size :: "Vector \<Rightarrow> nat option"
  nested_cmp :: nested_compare
  nested_sel :: nested_select
  nested_dist :: nested_distinct
  nested_fills :: nested_fill
  interval_sel :: "Vector \<Rightarrow> Vector \<Rightarrow> Vector \<Rightarrow> filter_fn"

definition env_wf :: "('a vector_env_scheme) \<Rightarrow> bool" where
  "env_wf env \<longleftrightarrow> (\<forall>l r. same_mask env l r \<longrightarrow> validity_mask (vec_validity l) = validity_mask (vec_validity r))"

abbreviation new_vector :: "('a vector_env_scheme) \<Rightarrow> LogicalType \<Rightarrow> Vector" where
  "new_vector env t \<equiv> Vector_Initialize (vjunk env) t STANDARD_VECTOR_SIZE"

section \<open>IN\<close>

fun in_loop ::
    "('a vector_env_scheme) \<Rightarrow> (nat \<Rightarrow> LogicalType) \<Rightarrow> (nat \<Rightarrow> 'w exec_fn) \<Rightarrow> SelectionVector \<Rightarrow> nat \<Rightarrow> nat list \<Rightarrow> Vector \<Rightarrow> Vector
      \<Rightarrow> ('w, Vector) run" where
  "in_loop env types exec sel cnt [] left intermediate = returnW intermediate"
| "in_loop env types exec sel cnt (child # cs) left intermediate =
     bindW (exec child sel cnt (new_vector env (types child))) (\<lambda>vector_to_check.
     bindW (liftW (VectorOperations_Equals (nested_cmp env) (same_mask env left vector_to_check) (vjunk env) left vector_to_check cnt
       (new_vector env BOOLEAN))) (\<lambda>comp_res.
     bindW (liftW (if child = 1 then Reference comp_res intermediate
        else bindE (VectorOperations_Or (vjunk env) intermediate comp_res cnt (new_vector env BOOLEAN)) (\<lambda>new_result.
          Reference new_result intermediate))) (\<lambda>intermediate.
       in_loop env types exec sel cnt cs left intermediate)))"

definition false_val :: Value where
  "false_val = \<lparr>value_type = BOOLEAN, is_null = False, value_data = CInt 0\<rparr>"

definition Execute_In ::
    "('a vector_env_scheme) \<Rightarrow> bool \<Rightarrow> (nat \<Rightarrow> LogicalType) \<Rightarrow> nat \<Rightarrow> (nat \<Rightarrow> 'w exec_fn) \<Rightarrow> 'w exec_fn" where
  "Execute_In env not_in types nchildren exec sel cnt res =
     (if nchildren < 2 then liftW (Inl InvalidInputException)
      else
        bindW (exec 0 sel cnt (new_vector env (types 0))) (\<lambda>left.
        bindW (in_loop env types exec sel cnt [1..<nchildren] left (Reference_Value (vjunk env) false_val)) (\<lambda>intermediate.
          liftW (if not_in then VectorOperations_Not (vjunk env) (dictionary_size env intermediate) intermediate cnt res
                 else Reference intermediate res))))"

section \<open>COALESCE\<close>

text \<open>One row of a child's result: a value goes to the result, a NULL to the next child.\<close>

definition coalesce_row ::
    "UnifiedVectorFormat \<Rightarrow> SelectionVector \<Rightarrow> nat \<Rightarrow> nat \<times> SelectionVector \<times> SelectionVector \<times> nat \<times> SelectionVector
      \<Rightarrow> nat \<times> SelectionVector \<times> SelectionVector \<times> nat \<times> SelectionVector" where
  "coalesce_row vdata current_sel i = (\<lambda>(result_count, slice_sel, result_sel, next_count, next_sel).
     let base_idx = get_index current_sel i; idx = get_index (uf_sel vdata) i in
     if RowIsValid (uf_validity vdata) idx
     then (result_count + 1, set_index result_count i slice_sel, set_index result_count base_idx result_sel, next_count, next_sel)
     else (result_count, slice_sel, result_sel, next_count + 1, set_index next_count base_idx next_sel))"

text \<open>\<open>next_sel\<close> and \<open>other\<close> are the two arrays that take turns; the result is the rows left over and the vector.\<close>

fun coalesce_loop ::
    "('a vector_env_scheme) \<Rightarrow> (nat \<Rightarrow> LogicalType) \<Rightarrow> (nat \<Rightarrow> 'w exec_fn) \<Rightarrow> nat list \<Rightarrow> SelectionVector \<Rightarrow> nat \<Rightarrow> SelectionVector \<Rightarrow> SelectionVector
      \<Rightarrow> SelectionVector \<Rightarrow> SelectionVector \<Rightarrow> Vector \<Rightarrow> ('w, SelectionVector \<times> nat \<times> Vector) run" where
  "coalesce_loop env types exec [] current_sel remaining_count slice_sel result_sel next_sel other res =
     returnW (current_sel, remaining_count, res)"
| "coalesce_loop env types exec (child # cs) current_sel remaining_count slice_sel result_sel next_sel other res =
     bindW (exec child current_sel remaining_count (new_vector env (types child))) (\<lambda>vector_to_check.
     bindW (liftW (ToUnifiedFormat (vjunk env) remaining_count vector_to_check)) (\<lambda>vdata.
       let (result_count, slice_sel, result_sel, next_count, next_sel) =
             fold (coalesce_row vdata current_sel) [0..<remaining_count] (0, slice_sel, result_sel, 0, next_sel) in
       bindW (liftW (if result_count > 0
          then FillSwitch (nested_fills env) (vjunk env) (Slice_sel slice_sel result_count vector_to_check) result_sel result_count res
          else Inr res)) (\<lambda>res.
         if next_count = 0 then returnW (next_sel, 0, res)
         else coalesce_loop env types exec cs next_sel next_count slice_sel result_sel other next_sel res)))"

definition Execute_Coalesce :: "('a vector_env_scheme) \<Rightarrow> (nat \<Rightarrow> LogicalType) \<Rightarrow> nat \<Rightarrow> (nat \<Rightarrow> 'w exec_fn) \<Rightarrow> 'w exec_fn" where
  "Execute_Coalesce env types nchildren exec sel cnt res =
     (let new_sel = sel_Initialize (sjunk env) cnt in
      bindW (coalesce_loop env types exec [0..<nchildren] sel cnt new_sel new_sel new_sel new_sel res)
        (\<lambda>(current_sel, remaining_count, res).
          let res = fold (\<lambda>i. FlatVector_SetNull (get_index current_sel i) True) [0..<remaining_count] res in
          returnW (if sel \<noteq> None then Slice_sel sel cnt res
                   else if cnt = 1 then SetVectorType CONSTANT_VECTOR res
                   else res)))"

section \<open>TRY\<close>

definition IsExecutionError :: "error \<Rightarrow> bool" where
  "IsExecutionError e \<longleftrightarrow> e \<in> {InvalidInputException, OutOfRangeException, ConversionException}"

fun SetValue :: "nat \<Rightarrow> cell option \<Rightarrow> Vector \<Rightarrow> Vector" where
  "SetValue idx val (Dictionary t sel child) = Dictionary t sel (SetValue (get_index sel idx) val child)"
| "SetValue idx val (Flat t d m) = Flat t (case val of None \<Rightarrow> d | Some c \<Rightarrow> d[idx := c]) (Set idx (val \<noteq> None) m)"
| "SetValue idx val (Constant t d m) = Constant t (case val of None \<Rightarrow> d | Some c \<Rightarrow> d[idx := c]) (Set idx (val \<noteq> None) m)"

text \<open>
  The child once more, row by row, into a chunk of one row; an execution error is NULL. \<open>reset\<close> is the child
  state's \<open>ResetDictionaryStates\<close>.
\<close>

fun try_rows ::
    "('a vector_env_scheme) \<Rightarrow> ('w, unit) run \<Rightarrow> 'w exec_fn \<Rightarrow> SelectionVector \<Rightarrow> nat list \<Rightarrow> Vector \<Rightarrow> ('w, Vector) run" where
  "try_rows env reset exec sel [] res = returnW res"
| "try_rows env reset exec sel (i # is) res =
     bindW reset (\<lambda>_.
     bindW (catchW (bindW (exec (Some [word_of_nat (get_index sel i)]) 1 (Vector_Initialize (vjunk env) (GetType res) 1))
                      (\<lambda>intermediate. returnW (vec_row intermediate 0)))
              (\<lambda>e. if IsExecutionError e then returnW None else liftW (Inl e)))
       (\<lambda>val. try_rows env reset exec sel is (SetValue i val res)))"

definition Execute_Try :: "('a vector_env_scheme) \<Rightarrow> ('w, unit) run \<Rightarrow> 'w exec_fn \<Rightarrow> 'w exec_fn" where
  "Execute_Try env reset exec sel cnt res =
     catchW
       (bindW (exec sel cnt (new_vector env (GetType res))) (\<lambda>try_result.
          liftW (if GetVectorType try_result = CONSTANT_VECTOR then Reference try_result res
                 else if sel \<noteq> None then Copy_count try_result sel cnt 0 0 cnt res
                 else Copy try_result IncrementalSelectionVector cnt 0 0 res)))
       (\<lambda>e. if IsExecutionError e
            then bindW (try_rows env reset exec sel [0..<cnt] res) (\<lambda>res. returnW (if cnt = 1 then SetVectorType CONSTANT_VECTOR res else res))
            else liftW (Inl e))"

section \<open>The node\<close>

definition unary_operator :: "('a vector_env_scheme) \<Rightarrow> ExpressionType \<Rightarrow> Vector \<Rightarrow> nat \<Rightarrow> Vector \<Rightarrow> Vector result" where
  "unary_operator env et child cnt res =
     (if et = ET_OPERATOR_NOT then VectorOperations_Not (vjunk env) (dictionary_size env child) child cnt res
      else if et = ET_OPERATOR_IS_NULL then VectorOperations_IsNull (vjunk env) child cnt res
      else if et = ET_OPERATOR_IS_NOT_NULL then VectorOperations_IsNotNull (vjunk env) child cnt res
      else Inl NotImplementedException)"

definition Execute_Operator ::
    "('a vector_env_scheme) \<Rightarrow> ExpressionType \<Rightarrow> (nat \<Rightarrow> LogicalType) \<Rightarrow> nat \<Rightarrow> ('w, unit) run \<Rightarrow> (nat \<Rightarrow> 'w exec_fn) \<Rightarrow> 'w exec_fn" where
  "Execute_Operator env et types nchildren reset exec sel cnt res =
     (if et = ET_COMPARE_IN \<or> et = ET_COMPARE_NOT_IN then Execute_In env (et = ET_COMPARE_NOT_IN) types nchildren exec sel cnt res
      else if et = ET_OPERATOR_COALESCE then Execute_Coalesce env types nchildren exec sel cnt res
      else if et = ET_OPERATOR_TRY then Execute_Try env reset (exec 0) sel cnt res
      else if nchildren = 1 then
        bindW (exec 0 sel cnt (new_vector env (types 0))) (\<lambda>child. liftW (unary_operator env et child cnt res))
      else liftW (Inl NotImplementedException))"

section \<open>The rows of IN\<close>

definition equal_value :: "cell option \<Rightarrow> cell option \<Rightarrow> int option" where
  "equal_value x y = map_option of_bool (sql_compare ET_COMPARE_EQUAL x y)"

definition sql_not :: "cell option \<Rightarrow> cell option" where
  "sql_not = map_option (\<lambda>c. bool_cell (\<not> byte_true c))"

text \<open>IN is the OR of the equalities, NOT IN its negation.\<close>

definition in_value :: "cell option \<Rightarrow> cell option list \<Rightarrow> cell option" where
  "in_value x ys = map_option CInt (sql_all False (map (equal_value x) ys))"

fun in_rows :: "bool \<Rightarrow> cell option list \<Rightarrow> outcome set" where
  "in_rows not_in (x # ys) = {Inr (if not_in then sql_not (in_value x ys) else in_value x ys)}"
| "in_rows not_in [] = {}"

lemma sql_all_snoc:
  "xs \<noteq> [] \<Longrightarrow> set (y # xs) \<subseteq> {None, Some 0, Some 1} \<Longrightarrow> sql_all a (xs @ [y]) = sql_conj a (sql_all a xs) y"
  by (cases a) (auto simp: sql_all_def sql_conj_def neq_Nil_conv)

lemma equal_value_range: "equal_value x y \<in> {None, Some 0, Some 1}"
  by (cases "sql_compare ET_COMPARE_EQUAL x y") (auto simp: equal_value_def)

lemma sql_all_range: "sql_all a xs \<in> {None, Some 0, Some 1}"
  by (cases a) (auto simp: sql_all_def)

lemma truth_CInt: "vec_row v i = map_option CInt z \<Longrightarrow> z \<in> {None, Some 0, Some 1} \<Longrightarrow> truth v i = z"
  by (auto simp: truth_def byte_true_def)

lemma bool_cell_CInt: "map_option bool_cell z = map_option CInt (map_option of_bool z)"
  by (cases z) (auto simp: bool_cell_def)

lemma equals_rows:
  assumes "env_wf env" and "GetType left = GetType v" "loop_type (InternalType (GetType v))" "vec_ok n left" "vec_ok n v"
    and "0 < n" "n \<le> STANDARD_VECTOR_SIZE"
  shows "\<exists>c. VectorOperations_Equals (nested_cmp env) (same_mask env left v) (vjunk env) left v n (new_vector env BOOLEAN) = Inr c \<and>
    GetType c = BOOLEAN \<and> vec_ok n c \<and> (\<forall>i < n. vec_row c i = map_option CInt (equal_value (vec_row left i) (vec_row v i)))"
proof -
  have cmp: "comparable (same_mask env left v) n left v"
    using assms by (simp add: comparable_def env_wf_def)
  have fresh: "fresh_vec n (new_vector env BOOLEAN)" using initialized_fresh [OF assms(7)] by simp
  have "ET_COMPARE_EQUAL \<in> set comparison_types" by (simp add: comparison_types_def)
  from executes_total [OF Execute_Comparison_rows [OF this cmp fresh assms(6), of "nested_cmp env" "vjunk env"]]
  show ?thesis by (simp add: Execute_Comparison_def equal_value_def bool_cell_CInt)
qed

text \<open>The running result after the children whose vectors are \<open>vs\<close>.\<close>

definition in_so_far :: "nat \<Rightarrow> Vector \<Rightarrow> Vector list \<Rightarrow> Vector \<Rightarrow> bool" where
  "in_so_far n left vs acc \<longleftrightarrow>
     GetType acc = BOOLEAN \<and> vec_ok n acc \<and>
     (vs \<noteq> [] \<longrightarrow> (\<forall>i < n. vec_row acc i = in_value (vec_row left i) (map (\<lambda>v. vec_row v i) vs)))"

lemma in_step:
  assumes "in_so_far n left vs acc" and "n \<le> STANDARD_VECTOR_SIZE" and "(vs = []) = (child = Suc 0)"
    and c: "GetType c = BOOLEAN" "vec_ok n c" "\<forall>i < n. vec_row c i = map_option CInt (equal_value (vec_row left i) (vec_row v i))"
  shows "\<exists>acc'. (if child = Suc 0 then Reference c acc
      else bindE (VectorOperations_Or (vjunk env) acc c n (new_vector env BOOLEAN)) (\<lambda>r. Reference r acc)) = Inr acc' \<and>
    in_so_far n left (vs @ [v]) acc'"
proof (cases "vs = []")
  case True
  then have "sql_all False [equal_value x y] = equal_value x y" for x y using sql_all_single [OF equal_value_range] by blast
  with True assms show ?thesis by (auto simp: in_so_far_def in_value_def Reference_def ConstReference_def)
next
  case False
  have fresh: "fresh_vec n (new_vector env BOOLEAN)" using initialized_fresh [OF assms(2)] by simp
  have acc: "GetType acc = BOOLEAN" "vec_ok n acc" "\<forall>i < n. vec_row acc i = in_value (vec_row left i) (map (\<lambda>v. vec_row v i) vs)"
    using assms(1) False by (auto simp: in_so_far_def)
  obtain r where r: "VectorOperations_Or (vjunk env) acc c n (new_vector env BOOLEAN) = Inr r" "GetType r = BOOLEAN" "vec_ok n r"
    "\<forall>i < n. vec_row r i = conj_row False acc c i"
    using boolean_rows_ok [OF acc(2) c(2) fresh, of "vjunk env" False] by (auto simp: VectorOperations_Or_def)
  have "vec_row r i = in_value (vec_row left i) (map (\<lambda>v. vec_row v i) (vs @ [v]))" if i: "i < n" for i
  proof -
    have 1: "truth acc i = sql_all False (map (equal_value (vec_row left i)) (map (\<lambda>v. vec_row v i) vs))"
      using acc(3) i sql_all_range unfolding in_value_def by (intro truth_CInt) auto
    have 2: "truth c i = equal_value (vec_row left i) (vec_row v i)"
      using c(3) i equal_value_range by (intro truth_CInt) auto
    have range: "set (equal_value (vec_row left i) (vec_row v i) # map (equal_value (vec_row left i)) (map (\<lambda>v. vec_row v i) vs)) \<subseteq> {None, Some 0, Some 1}"
      using equal_value_range by (simp add: image_subset_iff)
    have "sql_all False (map (equal_value (vec_row left i)) (map (\<lambda>v. vec_row v i) (vs @ [v]))) = sql_conj False (truth acc i) (truth c i)"
      unfolding 1 2 using sql_all_snoc [OF _ range, of False] False by simp
    with r(4) i show ?thesis by (simp add: conj_row_def in_value_def)
  qed
  moreover have "child \<noteq> Suc 0" using False assms(3) by simp
  ultimately show ?thesis
    using r acc by (auto simp: in_so_far_def Reference_def ConstReference_def)
qed

lemma loop_scalar: "loop_type (InternalType t) \<Longrightarrow> scalar_type t"
  by (auto simp: loop_type_def scalar_type_def constant_size_type_def)

lemma Not_type:
  assumes "vec_ok n v" and "fresh_vec n res" and "0 < n" and "VectorOperations_Not junk dict_size v n res = Inr w"
  shows "GetType w = GetType res"
  using Unary_Execute_rows [OF assms(1-3), of False NotOperator dict_size junk] assms(4)
  by (auto simp: executes_def VectorOperations_Not_def split: sum.splits)

context children
begin

lemma in_loop_yields:
  assumes env: "env_wf env" and sel: "sel_fits sel n" and rows: "rows_ok chunk_size (sel_rows sel n)"
    and left: "has_rows t (oc 0) (sel_rows sel n) left" and t: "loop_type (InternalType t)" "scalar_type t"
    and "\<forall>k \<in> set ks. k < arity \<and> ty k = t \<and> (dense k \<longrightarrow> sel = None)"
    and "list_all2 (\<lambda>k. has_rows (ty k) (oc k) (sel_rows sel n)) ks0 vs0" "in_so_far n left vs0 acc"
    and "sorted_wrt (<) (ks0 @ ks)" "\<forall>k \<in> set (ks0 @ ks). 0 < k" "ks0 = [] \<longrightarrow> ks = [] \<or> hd ks = 1"
  shows "yields I (\<lambda>r. case r of
      Inl e \<Rightarrow> \<exists>x \<in> set (sel_rows sel n). \<exists>k \<in> set ks. Inl e \<in> oc k x
    | Inr v \<Rightarrow> \<exists>vs. list_all2 (\<lambda>k. has_rows (ty k) (oc k) (sel_rows sel n)) (ks0 @ ks) vs \<and> in_so_far n left vs v)
    (in_loop env ty exec sel n ks left acc)"
  using assms(7-)
proof (induction ks arbitrary: ks0 vs0 acc)
  case Nil
  then show ?case by (auto intro!: yields_return)
next
  case (Cons k ks)
  note n = rows_ok_length [OF rows]
  have run: "yields I (evals (ty k) (oc k) (sel_rows sel n)) (exec k sel n (new_vector env (ty k)))"
    using Cons.prems(1) t(2) by (intro exec_fresh sel rows) auto
  have one: "(vs0 = []) = (k = Suc 0)"
  proof
    assume "vs0 = []"
    then show "k = Suc 0" using Cons.prems(2,6) by auto
  next
    assume "k = Suc 0"
    then have "ks0 = []" using Cons.prems(4,5) by (cases ks0) (auto simp: sorted_wrt_append)
    then show "vs0 = []" using Cons.prems(2) by auto
  qed
  show ?case
    unfolding in_loop.simps
  proof (rule yields_bind [OF run])
    fix v assume "evals (ty k) (oc k) (sel_rows sel n) (Inr v)"
    then have v: "has_rows (ty k) (oc k) (sel_rows sel n) v" "GetType v = t" "vec_ok n v"
      using Cons.prems(1) by (simp_all add: has_rows_def)
    obtain c where c: "VectorOperations_Equals (nested_cmp env) (same_mask env left v) (vjunk env) left v n (new_vector env BOOLEAN) = Inr c"
      "GetType c = BOOLEAN" "vec_ok n c" "\<forall>i < n. vec_row c i = map_option CInt (equal_value (vec_row left i) (vec_row v i))"
      using equals_rows [OF env, of left v n] left t(1) v n by (auto simp: has_rows_def)
    obtain acc' where i: "(if k = Suc 0 then Reference c acc
        else bindE (VectorOperations_Or (vjunk env) acc c n (new_vector env BOOLEAN)) (\<lambda>r. Reference r acc)) = Inr acc'"
      "in_so_far n left (vs0 @ [v]) acc'"
      using in_step [OF Cons.prems(3) _ one c(2-4), of env] n by auto
    have vs: "list_all2 (\<lambda>k. has_rows (ty k) (oc k) (sel_rows sel n)) (ks0 @ [k]) (vs0 @ [v])"
      using Cons.prems(2) v(1) by (simp add: list_all2_appendI)
    have ih: "yields I (\<lambda>r. case r of
        Inl e \<Rightarrow> \<exists>x \<in> set (sel_rows sel n). \<exists>k' \<in> set ks. Inl e \<in> oc k' x
      | Inr v \<Rightarrow> \<exists>vs. list_all2 (\<lambda>k. has_rows (ty k) (oc k) (sel_rows sel n)) ((ks0 @ [k]) @ ks) vs \<and> in_so_far n left vs v)
      (in_loop env ty exec sel n ks left acc')"
      by (rule Cons.IH [OF _ vs i(2)]) (use Cons.prems(1,4,5) in auto)
    have "yields I (\<lambda>r. case r of
        Inl e \<Rightarrow> \<exists>x \<in> set (sel_rows sel n). \<exists>k' \<in> set (k # ks). Inl e \<in> oc k' x
      | Inr v \<Rightarrow> \<exists>vs. list_all2 (\<lambda>k. has_rows (ty k) (oc k) (sel_rows sel n)) (ks0 @ k # ks) vs \<and> in_so_far n left vs v)
      (in_loop env ty exec sel n ks left acc')"
      by (rule yields_mono [OF ih]) (simp split: sum.splits, blast)
    with c(1) i(1) show "yields I (\<lambda>r. case r of
        Inl e \<Rightarrow> \<exists>x \<in> set (sel_rows sel n). \<exists>k' \<in> set (k # ks). Inl e \<in> oc k' x
      | Inr v \<Rightarrow> \<exists>vs. list_all2 (\<lambda>k. has_rows (ty k) (oc k) (sel_rows sel n)) (ks0 @ k # ks) vs \<and> in_so_far n left vs v)
      (bindW (liftW (VectorOperations_Equals (nested_cmp env) (same_mask env left v) (vjunk env) left v n (new_vector env BOOLEAN))) (\<lambda>comp_res.
        bindW (liftW (if k = 1 then Reference comp_res acc
          else bindE (VectorOperations_Or (vjunk env) acc comp_res n (new_vector env BOOLEAN)) (\<lambda>r. Reference r acc))) (\<lambda>acc.
          in_loop env ty exec sel n ks left acc)))"
      by (simp del: evals_simps)
  qed auto
qed

lemma Execute_In_yields:
  assumes env: "env_wf env" and sel: "sel_fits sel n" and rows: "rows_ok chunk_size (sel_rows sel n)"
    and t: "loop_type (InternalType t)" and kids: "2 \<le> nch" "\<forall>k < nch. k < arity \<and> ty k = t \<and> (dense k \<longrightarrow> sel = None)"
    and res: "fresh_vec n res" "GetType res = BOOLEAN"
  shows "yields I (evals BOOLEAN (\<lambda>x. strict_out (in_rows not_in) (map (\<lambda>k. oc k x) [0..<nch])) (sel_rows sel n))
    (Execute_In env not_in ty nch exec sel n res)"
proof -
  let ?rows = "sel_rows sel n" and ?out = "\<lambda>x. strict_out (in_rows not_in) (map (\<lambda>k. oc k x) [0..<nch])"
  let ?fin = "\<lambda>v. if not_in then VectorOperations_Not (vjunk env) (dictionary_size env v) v n res else Reference v res"
  note n = rows_ok_length [OF rows]
  have scalar: "scalar_type t" using t by (rule loop_scalar)
  have upt: "[0..<nch] = 0 # [1..<nch]" using kids(1) by (simp add: upt_rec)
  have left: "yields I (evals (ty 0) (oc 0) ?rows) (exec 0 sel n (new_vector env (ty 0)))"
    using kids(1) kids(2) [rule_format, of 0] scalar by (intro exec_fresh sel rows) auto
  have err: "evals BOOLEAN ?out ?rows (Inl e)" if "x \<in> set ?rows" "k < nch" "Inl e \<in> oc k x" for x k e
    unfolding evals_simps using that by (intro bexI [of _ x] strict_out_error [of "oc k x"]) auto
  have fin: "evals BOOLEAN ?out ?rows (?fin v)"
    if vs: "list_all2 (\<lambda>k. has_rows (ty k) (oc k) ?rows) (0 # [1..<nch]) (left # vs)" and v: "in_so_far n left vs v" for left vs v
  proof -
    have "length vs = nch - 1" using vs by (auto dest: list_all2_lengthD)
    then have "vs \<noteq> []" using kids(1) by auto
    with v have v: "GetType v = BOOLEAN" "vec_ok n v" "\<forall>i < n. vec_row v i = in_value (vec_row left i) (map (\<lambda>v. vec_row v i) vs)"
      by (auto simp: in_so_far_def)
    obtain w where w: "?fin v = Inr w" "GetType w = BOOLEAN" "vec_ok n w" "\<forall>i < n. vec_row w i = (if not_in then sql_not (vec_row v i) else vec_row v i)"
      using not_rows [OF v(2) res(1), of "vjunk env" "dictionary_size env v"] Not_type [OF v(2) res(1), where junk = "vjunk env" and dict_size = "dictionary_size env v"] v(1,2) n res(2)
      by (cases not_in) (auto simp: sql_not_def Reference_def ConstReference_def)
    have "Inr (vec_row w i) \<in> ?out (?rows ! i)" if "i < n" for i
      unfolding upt by (rule strict_row [where f = "in_rows not_in", OF vs]) (use that w(4) v(3) in auto)
    with w show ?thesis by simp
  qed
  show ?thesis
    unfolding Execute_In_def if_not_P [OF kids(1) [folded not_less]]
  proof (rule yields_bind [OF left])
    show "evals BOOLEAN ?out ?rows (Inl e)" if "evals (ty 0) (oc 0) ?rows (Inl e)" for e
      using that err [of _ 0 e] kids(1) by auto
    fix l assume "evals (ty 0) (oc 0) ?rows (Inr l)"
    then have l: "has_rows (ty 0) (oc 0) ?rows l" "has_rows t (oc 0) ?rows l" using kids by (auto simp: has_rows_def)
    have start: "in_so_far n l [] (Reference_Value (vjunk env) false_val)"
      by (simp add: in_so_far_def Reference_Value_def false_val_def Let_def Mask_Reset_def)
    have loop: "yields I (\<lambda>r. case r of
        Inl e \<Rightarrow> \<exists>x \<in> set ?rows. \<exists>k \<in> set [1..<nch]. Inl e \<in> oc k x
      | Inr v \<Rightarrow> \<exists>vs. list_all2 (\<lambda>k. has_rows (ty k) (oc k) ?rows) ([] @ [1..<nch]) vs \<and> in_so_far n l vs v)
      (in_loop env ty exec sel n [1..<nch] l (Reference_Value (vjunk env) false_val))"
      by (rule in_loop_yields [OF env sel rows l(2) t scalar _ _ start]) (use kids in auto)
    show "yields I (evals BOOLEAN ?out ?rows)
      (bindW (in_loop env ty exec sel n [1..<nch] l (Reference_Value (vjunk env) false_val)) (\<lambda>v. liftW (?fin v)))"
    proof (rule yields_bind [OF loop])
      show "evals BOOLEAN ?out ?rows (Inl e)" if "case Inl e of Inl e \<Rightarrow> \<exists>x \<in> set ?rows. \<exists>k \<in> set [1..<nch]. Inl e \<in> oc k x
        | Inr v \<Rightarrow> \<exists>vs. list_all2 (\<lambda>k. has_rows (ty k) (oc k) ?rows) ([] @ [1..<nch]) vs \<and> in_so_far n l vs v" for e
        using that by (simp del: evals_simps) (elim bexE, rule err, auto)
      show "yields I (evals BOOLEAN ?out ?rows) (liftW (?fin v))" if "case Inr v of Inl e \<Rightarrow> \<exists>x \<in> set ?rows. \<exists>k \<in> set [1..<nch]. Inl e \<in> oc k x
        | Inr v \<Rightarrow> \<exists>vs. list_all2 (\<lambda>k. has_rows (ty k) (oc k) ?rows) ([] @ [1..<nch]) vs \<and> in_so_far n l vs v" for v
        using that fin [of l _ v] l(1) by (intro yields_lift) auto
    qed
  qed
qed

end

section \<open>The rows of NOT, IS NULL and IS NOT NULL\<close>

definition unary_types :: "ExpressionType list" where
  "unary_types = [ET_OPERATOR_NOT, ET_OPERATOR_IS_NULL, ET_OPERATOR_IS_NOT_NULL]"

definition unary_value :: "ExpressionType \<Rightarrow> cell option \<Rightarrow> cell option" where
  "unary_value et x =
     (if et = ET_OPERATOR_NOT then sql_not x
      else if et = ET_OPERATOR_IS_NULL then Some (bool_cell (x = None))
      else Some (bool_cell (x \<noteq> None)))"

fun unary_rows :: "ExpressionType \<Rightarrow> cell option list \<Rightarrow> outcome set" where
  "unary_rows et (x # xs) = {Inr (unary_value et x)}"
| "unary_rows et [] = {}"

lemma unary_operator_rows:
  assumes "et \<in> set unary_types" and "vec_ok n v" and "fresh_vec n res" "0 < n"
  shows "\<exists>w. unary_operator env et v n res = Inr w \<and> GetType w = GetType res \<and> vec_ok n w \<and> (\<forall>i < n. vec_row w i = unary_value et (vec_row v i))"
proof -
  have "\<exists>w. VectorOperations_Not (vjunk env) (dictionary_size env v) v n res = Inr w \<and> GetType w = GetType res \<and> vec_ok n w \<and>
      (\<forall>i < n. vec_row w i = sql_not (vec_row v i))"
    using not_rows [OF assms(2-4), of "vjunk env" "dictionary_size env v"]
      Not_type [OF assms(2-4), where junk = "vjunk env" and dict_size = "dictionary_size env v"] by (auto simp: sql_not_def)
  with assms(1) IsNullLoop_rows [OF assms(2,3), of "vjunk env" False] IsNullLoop_rows [OF assms(2,3), of "vjunk env" True] show ?thesis
    by (auto simp: unary_types_def unary_operator_def unary_value_def VectorOperations_IsNull_def VectorOperations_IsNotNull_def)
qed

context children
begin

lemma unary_yields:
  assumes "et \<in> set unary_types" and sel: "sel_fits sel n" and rows: "rows_ok chunk_size (sel_rows sel n)"
    and "0 < arity" "scalar_type (ty 0)" "dense 0 \<longrightarrow> sel = None" and res: "fresh_vec n res" "GetType res = BOOLEAN"
  shows "yields I (evals BOOLEAN (\<lambda>x. strict_out (unary_rows et) [oc 0 x]) (sel_rows sel n))
    (bindW (exec 0 sel n (new_vector env (ty 0))) (\<lambda>child. liftW (unary_operator env et child n res)))"
proof (rule yields_bind [OF exec_fresh [OF assms(4) sel rows assms(6,5)]])
  let ?rows = "sel_rows sel n" and ?out = "\<lambda>x. strict_out (unary_rows et) [oc 0 x]"
  show "evals BOOLEAN ?out ?rows (Inl e)" if "evals (ty 0) (oc 0) ?rows (Inl e)" for e
    using that strict_out_error [of _ "[oc 0 _]"] by (auto simp: strict_out_def)
  fix v assume v: "evals (ty 0) (oc 0) ?rows (Inr v)"
  then have "vec_ok n v" by simp
  from unary_operator_rows [OF assms(1) this res(1)] rows_ok_length [OF rows] obtain w where
    w: "unary_operator env et v n res = Inr w" "GetType w = BOOLEAN" "vec_ok n w" "\<forall>i < n. vec_row w i = unary_value et (vec_row v i)"
    using res(2) by auto
  have "Inr (vec_row w i) \<in> ?out (?rows ! i)" if "i < n" for i
    using strict_row [of ty oc ?rows "[0]" "[v]" i "Inr (vec_row w i)" "unary_rows et"] that v w(4) by (simp add: has_rows_def)
  with w show "yields I (evals BOOLEAN ?out ?rows) (liftW (unary_operator env et v n res))"
    by (intro yields_lift) simp
qed

end

section \<open>The rows of COALESCE\<close>

text \<open>Child by child: an error or a value of it, or, if it can be NULL, what the next children give; NULL at the end.\<close>

fun coalesce_out :: "(nat \<Rightarrow> nat \<Rightarrow> outcome set) \<Rightarrow> nat list \<Rightarrow> nat \<Rightarrow> outcome set" where
  "coalesce_out oc [] x = {Inr None}"
| "coalesce_out oc (k # ks) x = (oc k x - {Inr None}) \<union> (if Inr None \<in> oc k x then coalesce_out oc ks x else {})"

lemma sel_rows_set_index:
  assumes "k < length xs" and "x < 2 ^ 32"
  shows "\<exists>ys. set_index k x (Some xs) = Some ys \<and> length ys = length xs \<and> sel_rows (Some ys) (Suc k) = sel_rows (Some xs) k @ [x]"
  using assms by (auto simp: set_index_def sel_rows_def get_index_def unat_of_nat take_bit_nat_eq_self_iff)

lemma coalesce_fold:
  fixes u :: UnifiedVectorFormat
  assumes "n \<le> length s" "n \<le> length r" "n \<le> length q" and "\<forall>i < n. get_index cur i < 2 ^ 32" "n \<le> 2 ^ 32"
  defines "V \<equiv> \<lambda>i. RowIsValid (uf_validity u) (get_index (uf_sel u) i)"
  shows "\<exists>s' r' q'. fold (coalesce_row u cur) [0..<n] (0, Some s, Some r, 0, Some q) =
      (length (filter V [0..<n]), Some s', Some r', length (filter (\<lambda>i. \<not> V i) [0..<n]), Some q') \<and>
    length s' = length s \<and> length r' = length r \<and> length q' = length q \<and>
    sel_rows (Some s') (length (filter V [0..<n])) = filter V [0..<n] \<and>
    sel_rows (Some r') (length (filter V [0..<n])) = map (get_index cur) (filter V [0..<n]) \<and>
    sel_rows (Some q') (length (filter (\<lambda>i. \<not> V i) [0..<n])) = map (get_index cur) (filter (\<lambda>i. \<not> V i) [0..<n])"
  using assms(1-5)
proof (induction n)
  case (Suc n)
  then obtain s' r' q' where ih: "fold (coalesce_row u cur) [0..<n] (0, Some s, Some r, 0, Some q) =
      (length (filter V [0..<n]), Some s', Some r', length (filter (\<lambda>i. \<not> V i) [0..<n]), Some q')"
    "length s' = length s" "length r' = length r" "length q' = length q"
    "sel_rows (Some s') (length (filter V [0..<n])) = filter V [0..<n]"
    "sel_rows (Some r') (length (filter V [0..<n])) = map (get_index cur) (filter V [0..<n])"
    "sel_rows (Some q') (length (filter (\<lambda>i. \<not> V i) [0..<n])) = map (get_index cur) (filter (\<lambda>i. \<not> V i) [0..<n])"
    by auto
  have len: "length (filter V [0..<n]) \<le> n" "length (filter (\<lambda>i. \<not> V i) [0..<n]) \<le> n" by (rule length_filter_upt)+
  have cur: "get_index cur n < 2 ^ 32" "n < 2 ^ 32" using Suc.prems(4,5) by auto
  show ?case
  proof (cases "V n")
    case True
    obtain s2 where s2: "set_index (length (filter V [0..<n])) n (Some s') = Some s2" "length s2 = length s"
      "sel_rows (Some s2) (Suc (length (filter V [0..<n]))) = filter V [0..<n] @ [n]"
      using sel_rows_set_index [of "length (filter V [0..<n])" s' n] ih(2,5) len Suc.prems(1) cur(2) by auto
    obtain r2 where r2: "set_index (length (filter V [0..<n])) (get_index cur n) (Some r') = Some r2" "length r2 = length r"
      "sel_rows (Some r2) (Suc (length (filter V [0..<n]))) = map (get_index cur) (filter V [0..<n]) @ [get_index cur n]"
      using sel_rows_set_index [of "length (filter V [0..<n])" r' "get_index cur n"] ih(3,6) len Suc.prems(2) cur(1) by auto
    have "fold (coalesce_row u cur) [0..<Suc n] (0, Some s, Some r, 0, Some q) =
        (Suc (length (filter V [0..<n])), Some s2, Some r2, length (filter (\<lambda>i. \<not> V i) [0..<n]), Some q')"
      using ih(1) s2(1) r2(1) True by (simp add: coalesce_row_def Let_def V_def)
    with True s2 r2 ih(4,7) show ?thesis by simp
  next
    case False
    obtain q2 where q2: "set_index (length (filter (\<lambda>i. \<not> V i) [0..<n])) (get_index cur n) (Some q') = Some q2" "length q2 = length q"
      "sel_rows (Some q2) (Suc (length (filter (\<lambda>i. \<not> V i) [0..<n]))) = map (get_index cur) (filter (\<lambda>i. \<not> V i) [0..<n]) @ [get_index cur n]"
      using sel_rows_set_index [of "length (filter (\<lambda>i. \<not> V i) [0..<n])" q' "get_index cur n"] ih(4,7) len Suc.prems(3) cur(1) by auto
    have "fold (coalesce_row u cur) [0..<Suc n] (0, Some s, Some r, 0, Some q) =
        (length (filter V [0..<n]), Some s', Some r', Suc (length (filter (\<lambda>i. \<not> V i) [0..<n])), Some q2)"
      using ih(1) q2(1) False by (simp add: coalesce_row_def Let_def V_def)
    with False q2 ih(2,3,5,6) show ?thesis by simp
  qed
qed simp

text \<open>One child: its values are written to their rows, the rows in which it is NULL are what is left.\<close>

lemma coalesce_fill:
  assumes state: "case_state t A rows (set (sel_rows cur n)) res" and rows: "rows \<subseteq> {..<STANDARD_VECTOR_SIZE}"
    and cur: "distinct (sel_rows cur n)" "set (sel_rows cur n) \<subseteq> rows"
    and v: "vec_ok n v" "\<forall>i < n. vec_row v i \<noteq> None \<longrightarrow> Inr (vec_row v i) \<in> A (get_index cur i)"
    and u: "\<forall>i < n. unified_row u i = vec_row v i"
    and len: "n \<le> length s" "n \<le> length r" "n \<le> length q" "n \<le> STANDARD_VECTOR_SIZE"
  shows "\<exists>rc s' r' nc q' res'. fold (coalesce_row u cur) [0..<n] (0, Some s, Some r, 0, Some q) = (rc, Some s', Some r', nc, Some q') \<and>
    length s' = length s \<and> length r' = length r \<and> length q' = length q \<and> nc \<le> n \<and>
    (if rc > 0 then FillSwitch nested junk (Slice_sel (Some s') rc v) (Some r') rc res else Inr res) = Inr res' \<and>
    case_state t A rows (set (sel_rows (Some q') nc)) res' \<and> distinct (sel_rows (Some q') nc) \<and>
    set (sel_rows (Some q') nc) = {get_index cur i | i. i < n \<and> vec_row v i = None}"
proof -
  define V where "V = (\<lambda>i. RowIsValid (uf_validity u) (get_index (uf_sel u) i))"
  have V: "V i \<longleftrightarrow> vec_row v i \<noteq> None" if "i < n" for i
    unfolding V_def by (rule unified_null) (use u that in simp)
  let ?L = "filter V [0..<n]" and ?N = "filter (\<lambda>i. \<not> V i) [0..<n]"
  have "\<forall>i < n. get_index cur i < 2 ^ 32"
  proof (intro allI impI)
    fix i assume "i < n"
    then have "get_index cur i < STANDARD_VECTOR_SIZE" using cur(2) rows by (auto simp: sel_rows_image)
    then show "get_index cur i < 2 ^ 32" by simp
  qed
  then obtain s' r' q' where f: "fold (coalesce_row u cur) [0..<n] (0, Some s, Some r, 0, Some q) = (length ?L, Some s', Some r', length ?N, Some q')"
    "length s' = length s" "length r' = length r" "length q' = length q"
    "sel_rows (Some s') (length ?L) = ?L" "sel_rows (Some r') (length ?L) = map (get_index cur) ?L" "sel_rows (Some q') (length ?N) = map (get_index cur) ?N"
    using coalesce_fold [OF len(1-3), of cur u] len(4) unfolding V_def by auto
  have inj: "inj_on (get_index cur) {..<n}" using cur(1) by (rule sel_rows_inj)
  have dist: "distinct (map (get_index cur) ?L)" "distinct (map (get_index cur) ?N)"
    using inj by (auto simp: distinct_map intro: inj_on_subset)
  have left: "set (sel_rows cur n) - set (map (get_index cur) ?L) = set (map (get_index cur) ?N)"
    using inj by (auto simp: sel_rows_image inj_on_def)
  have rest: "set (map (get_index cur) ?N) = {get_index cur i | i. i < n \<and> vec_row v i = None}" using V by auto
  have le: "length ?N \<le> n" by (rule length_filter_upt)
  show ?thesis
  proof (cases "length ?L = 0")
    case True
    then have "set (sel_rows (Some q') (length ?N)) = set (sel_rows cur n)" using left f(7) by simp
    with True f rest dist(2) state le show ?thesis by auto
  next
    case False
    have si: "get_index (Some s') j = ?L ! j" "get_index (Some r') j = get_index cur (?L ! j)" "?L ! j < n" "V (?L ! j)" if "j < length ?L" for j
    proof -
      show "get_index (Some s') j = ?L ! j" using arg_cong [OF f(5), of "\<lambda>l. l ! j"] that by (simp add: sel_rows_nth)
      show "get_index (Some r') j = get_index cur (?L ! j)" using arg_cong [OF f(6), of "\<lambda>l. l ! j"] that by (simp add: sel_rows_nth)
      have "?L ! j \<in> set ?L" using that by (rule nth_mem)
      then show "?L ! j < n" "V (?L ! j)" by auto
    qed
    have len_L: "length ?L \<le> length s'" using length_filter_upt [of V n] len(1) f(2) by simp
    from Slice_sel_rows [OF v(1), of "length ?L" "Some s'"] si len_L
    have sl: "vec_ok (length ?L) (Slice_sel (Some s') (length ?L) v)"
      "\<forall>j < length ?L. vec_row (Slice_sel (Some s') (length ?L) v) j = vec_row v (?L ! j)" by auto
    have "\<exists>res'. FillSwitch nested junk (Slice_sel (Some s') (length ?L) v) (Some r') (length ?L) res = Inr res' \<and>
        case_state t A rows (set (sel_rows cur n) - set (sel_rows (Some r') (length ?L))) res'"
    proof (rule fill_step [OF state rows cur(2)])
      show "distinct (sel_rows (Some r') (length ?L))" using dist(1) f(6) by simp
      show "set (sel_rows (Some r') (length ?L)) \<subseteq> set (sel_rows cur n)" unfolding f(6) by (auto simp: sel_rows_image)
      show "\<forall>j < length ?L. Inr (vec_row (Slice_sel (Some s') (length ?L) v) j) \<in> A (get_index (Some r') j)"
        using sl(2) si V v(2) by auto
    qed (rule sl(1))
    with False f left rest dist(2) le show ?thesis by auto
  qed
qed

lemma set_null_step:
  assumes "case_state t A rows (set (sel_rows sel n)) res" and "rows \<subseteq> {..<STANDARD_VECTOR_SIZE}"
    and "distinct (sel_rows sel n)" "set (sel_rows sel n) \<subseteq> rows" and "\<forall>x \<in> set (sel_rows sel n). Inr None \<in> A x"
  shows "case_state t A rows {} (fold (\<lambda>i. FlatVector_SetNull (get_index sel i) True) [0..<n] res)"
proof -
  obtain d m where res: "res = Flat t d m" "scalar_type t" "STANDARD_VECTOR_SIZE \<le> length d" "mask_wf m" "STANDARD_VECTOR_SIZE \<le> capacity m"
    "\<forall>x \<in> rows - set (sel_rows sel n). Inr (vec_row res x) \<in> A x"
    using assms(1) by (auto simp: case_state_def)
  let ?m = "fold (\<lambda>i m. Set (get_index sel i) False m) [0..<n] m"
  have eq: "fold (\<lambda>i. FlatVector_SetNull (get_index sel i) True) [0..<n] res = Flat t d ?m"
    unfolding res(1) by (induction n) (simp_all add: FlatVector_SetNull_def)
  have small: "x < capacity m" if "x \<in> rows" for x using that assms(2) res(5) by auto
  have "\<forall>i < n. get_index sel i < capacity m" using small assms(4) by (auto simp: sel_rows_image)
  from scatter_mask [OF res(4) this sel_rows_inj [OF assms(3)], of "\<lambda>_. False"]
  have m: "mask_wf ?m" "capacity ?m = capacity m" "\<forall>x \<in> set (sel_rows sel n). \<not> RowIsValid ?m x"
    "\<forall>x < capacity m. x \<notin> set (sel_rows sel n) \<longrightarrow> RowIsValid ?m x = RowIsValid m x"
    by (auto simp: sel_rows_image)
  have "Inr (vec_row (Flat t d ?m) x) \<in> A x" if "x \<in> rows" for x
    using that m(3,4) small res(1,6) assms(5) by (cases "x \<in> set (sel_rows sel n)") auto
  with res m eq show ?thesis by (auto simp: case_state_def)
qed

definition coalesce_rest :: "LogicalType \<Rightarrow> (nat \<Rightarrow> outcome set) \<Rightarrow> nat list \<Rightarrow> (SelectionVector \<times> nat \<times> Vector) result \<Rightarrow> bool" where
  "coalesce_rest t A rows r \<longleftrightarrow>
     (case r of
        Inl e \<Rightarrow> (\<exists>x \<in> set rows. Inl e \<in> A x)
      | Inr (s, c, res) \<Rightarrow> distinct (sel_rows s c) \<and> set (sel_rows s c) \<subseteq> set rows \<and>
          case_state t A (set rows) (set (sel_rows s c)) res \<and> (\<forall>x \<in> set (sel_rows s c). Inr None \<in> A x))"

definition long :: "nat \<Rightarrow> SelectionVector \<Rightarrow> bool" where
  "long n s \<longleftrightarrow> (\<exists>xs. s = Some xs \<and> n \<le> length xs)"

context children
begin

lemma coalesce_loop_yields:
  assumes rows: "rows_ok chunk_size rows" and t: "scalar_type t" and "\<forall>k \<in> set ks. k < arity \<and> ty k = t \<and> \<not> dense k"
    and "0 < n" "n \<le> length rows" "sel_fits cur n" "distinct (sel_rows cur n)" "set (sel_rows cur n) \<subseteq> set rows"
    and "case_state t A (set rows) (set (sel_rows cur n)) res" "\<forall>x \<in> set (sel_rows cur n). coalesce_out oc ks x \<subseteq> A x"
    and "long (length rows) s" "long (length rows) r" "long (length rows) q" "long (length rows) q0"
  shows "yields I (coalesce_rest t A rows) (coalesce_loop env ty exec ks cur n s r q q0 res)"
  using assms(3-)
proof (induction ks arbitrary: cur n s r q q0 res)
  case Nil
  then show ?case by (auto simp: coalesce_rest_def intro!: yields_return)
next
  case (Cons k ks)
  let ?rows = "sel_rows cur n"
  note n = rows_ok_length [OF rows]
  have small: "set rows \<subseteq> {..<STANDARD_VECTOR_SIZE}" using rows by (auto simp: rows_ok_def)
  have "?rows \<noteq> []" using Cons.prems(2) by (simp flip: length_greater_0_conv)
  then have ok: "rows_ok chunk_size ?rows" using rows_ok_sub [OF rows] Cons.prems(5,6) by blast
  have run: "yields I (evals (ty k) (oc k) ?rows) (exec k cur n (new_vector env (ty k)))"
    using Cons.prems(1,4) t by (intro exec_fresh ok) auto
  have A: "oc k x - {Inr None} \<subseteq> A x" "Inr None \<in> oc k x \<longrightarrow> coalesce_out oc ks x \<subseteq> A x" if "x \<in> set ?rows" for x
    using bspec [OF Cons.prems(8) that] by (auto split: if_splits)
  obtain s0 r0 q1 where arrays: "s = Some s0" "r = Some r0" "q = Some q1" "length rows \<le> length s0" "length rows \<le> length r0" "length rows \<le> length q1"
    using Cons.prems(9-11) by (auto simp: long_def)
  show ?case
    unfolding coalesce_loop.simps
  proof (rule yields_bind [OF run])
    show "coalesce_rest t A rows (Inl e)" if "evals (ty k) (oc k) ?rows (Inl e)" for e
      using that A(1) Cons.prems(6) by (fastforce simp: coalesce_rest_def)
    fix v assume "evals (ty k) (oc k) ?rows (Inr v)"
    then have v: "vec_ok n v" "\<forall>i < n. Inr (vec_row v i) \<in> oc k (get_index cur i)" by (simp_all add: sel_rows_nth)
    obtain u where u: "ToUnifiedFormat (vjunk env) n v = Inr u" "\<forall>i < n. unified_row u i = vec_row v i"
      using unified_rows [OF v(1)] by blast
    have val: "\<forall>i < n. vec_row v i \<noteq> None \<longrightarrow> Inr (vec_row v i) \<in> A (get_index cur i)"
      using v(2) A(1) by (fastforce simp: sel_rows_image)
    have len: "n \<le> length s0" "n \<le> length r0" "n \<le> length q1" "n \<le> STANDARD_VECTOR_SIZE"
      using arrays(4-6) Cons.prems(3) n by linarith+
    obtain rc s' r' nc q' res' where f: "fold (coalesce_row u cur) [0..<n] (0, Some s0, Some r0, 0, Some q1) = (rc, Some s', Some r', nc, Some q')"
      "length s' = length s0" "length r' = length r0" "length q' = length q1" "nc \<le> n"
      "(if rc > 0 then FillSwitch (nested_fills env) (vjunk env) (Slice_sel (Some s') rc v) (Some r') rc res else Inr res) = Inr res'"
      "case_state t A (set rows) (set (sel_rows (Some q') nc)) res'" "distinct (sel_rows (Some q') nc)"
      "set (sel_rows (Some q') nc) = {get_index cur i | i. i < n \<and> vec_row v i = None}"
      using coalesce_fill [OF Cons.prems(7) small Cons.prems(5,6) v(1) val u(2) len, where nested = "nested_fills env" and junk = "vjunk env"]
      by (elim exE conjE) (rule that)
    have sub: "set (sel_rows (Some q') nc) \<subseteq> set ?rows" unfolding f(9) by (auto simp: sel_rows_image)
    have null: "Inr None \<in> oc k x" if "x \<in> set (sel_rows (Some q') nc)" for x
      using that v(2) unfolding f(9) by force
    have rest: "\<forall>x \<in> set (sel_rows (Some q') nc). coalesce_out oc ks x \<subseteq> A x" using sub null A(2) by blast
    have go: "yields I (coalesce_rest t A rows)
      (if nc = 0 then returnW (Some q', 0, res') else coalesce_loop env ty exec ks (Some q') nc (Some s') (Some r') q0 (Some q') res')"
    proof (cases "nc = 0")
      case True
      with f(7) show ?thesis by (auto simp: coalesce_rest_def intro!: yields_return)
    next
      case False
      have "yields I (coalesce_rest t A rows) (coalesce_loop env ty exec ks (Some q') nc (Some s') (Some r') q0 (Some q') res')"
        by (rule Cons.IH [OF _ _ _ _ f(8) _ f(7) rest])
          (use False f(2-5) arrays(4-6) Cons.prems(1,3,6,12) sub in \<open>auto simp: long_def sel_fits_def\<close>)
      with False show ?thesis by simp
    qed
    show "yields I (coalesce_rest t A rows) (bindW (liftW (ToUnifiedFormat (vjunk env) n v)) (\<lambda>vdata.
       let (rc, s, r, nc, q) = fold (coalesce_row vdata cur) [0..<n] (0, s, r, 0, q) in
       bindW (liftW (if rc > 0 then FillSwitch (nested_fills env) (vjunk env) (Slice_sel s rc v) r rc res else Inr res)) (\<lambda>res.
         if nc = 0 then returnW (q, 0, res) else coalesce_loop env ty exec ks q nc s r q0 q res)))"
      unfolding u(1) bindW_lift arrays(1-3) f(1) prod.case Let_def f(6) by (rule go)
  qed
qed

lemma Execute_Coalesce_yields:
  assumes rows: "rows_ok chunk_size (sel_rows sel n)" and sel: "sel_fits sel n" and t: "scalar_type t"
    and kids: "\<forall>k < nch. k < arity \<and> ty k = t \<and> \<not> dense k" and res: "blank t res"
  shows "yields I (evals t (coalesce_out oc [0..<nch]) (sel_rows sel n)) (Execute_Coalesce env ty nch exec sel n res)"
proof -
  let ?A = "coalesce_out oc [0..<nch]" and ?rows = "sel_rows sel n" and ?new = "sel_Initialize (sjunk env) n"
  note n = rows_ok_length [OF rows]
  have small: "set ?rows \<subseteq> {..<STANDARD_VECTOR_SIZE}" "distinct ?rows" using rows by (auto simp: rows_ok_def)
  have new: "long n ?new" by (simp add: long_def sel_Initialize_def)
  have loop: "yields I (coalesce_rest t ?A ?rows) (coalesce_loop env ty exec [0..<nch] sel n ?new ?new ?new ?new res)"
    using kids n small blank_case_state [OF res] new by (intro coalesce_loop_yields [OF rows t] sel) auto
  show ?thesis
    unfolding Execute_Coalesce_def Let_def
  proof (rule yields_bind [OF loop])
    show "evals t ?A ?rows (Inl e)" if "coalesce_rest t ?A ?rows (Inl e)" for e
      using that by (simp add: coalesce_rest_def)
    fix a assume a: "coalesce_rest t ?A ?rows (Inr a)"
    obtain s c v where x: "a = (s, c, v)" by (cases a)
    let ?v = "fold (\<lambda>i. FlatVector_SetNull (get_index s i) True) [0..<c] v"
    have st: "case_state t ?A (set ?rows) {} ?v"
      using a x small by (intro set_null_step) (auto simp: coalesce_rest_def)
    note fin = case_final [OF st rows sel]
    have "evals t ?A ?rows (Inr (if sel \<noteq> None then Slice_sel sel n ?v else if n = 1 then SetVectorType CONSTANT_VECTOR ?v else ?v))"
    proof (cases "sel = None \<and> n = 1")
      case True
      obtain d m where v: "?v = Flat t d m" using st by (auto simp: case_state_def)
      from True fin show ?thesis unfolding v by (auto simp: SetVectorType_def)
    qed (use fin in auto)
    then show "yields I (evals t ?A ?rows) (case a of (current_sel, remaining_count, res) \<Rightarrow>
        returnW (if sel \<noteq> None then Slice_sel sel n (fold (\<lambda>i. FlatVector_SetNull (get_index current_sel i) True) [0..<remaining_count] res)
          else if n = 1 then SetVectorType CONSTANT_VECTOR (fold (\<lambda>i. FlatVector_SetNull (get_index current_sel i) True) [0..<remaining_count] res)
          else fold (\<lambda>i. FlatVector_SetNull (get_index current_sel i) True) [0..<remaining_count] res))"
      unfolding x prod.case by (rule yields_return)
  qed
qed

end

section \<open>The rows of TRY\<close>

text \<open>Values stay, execution errors become NULL, other errors stay.\<close>

definition try_out :: "outcome set \<Rightarrow> outcome set" where
  "try_out A = {Inr y | y. Inr y \<in> A \<or> y = None \<and> (\<exists>e. Inl e \<in> A \<and> IsExecutionError e)} \<union> {Inl e | e. Inl e \<in> A \<and> \<not> IsExecutionError e}"

text \<open>The first \<open>j\<close> of \<open>n\<close> rows have been set.\<close>

definition try_state :: "LogicalType \<Rightarrow> (nat \<Rightarrow> outcome set) \<Rightarrow> nat \<Rightarrow> nat \<Rightarrow> Vector \<Rightarrow> bool" where
  "try_state t A n j res \<longleftrightarrow> (\<exists>d m. res = Flat t d m) \<and> vec_ok n res \<and> (\<forall>i < j. Inr (vec_row res i) \<in> A i)"

lemma SetValue_step:
  assumes "try_state t A n j res" and "j < n" and "Inr val \<in> A j"
  shows "try_state t A n (Suc j) (SetValue j val res)"
proof -
  obtain d m where res: "res = Flat t d m" "vec_ok n res" "\<forall>i < j. Inr (vec_row res i) \<in> A i" using assms(1) by (auto simp: try_state_def)
  have "vec_row (SetValue j val res) i = vec_row res i" if "i < j" for i
    using that res assms(2) by (auto simp: RowIsValid_Set split: option.splits)
  moreover have "vec_row (SetValue j val res) j = val"
    using res assms(2) by (auto simp: RowIsValid_Set split: option.splits)
  moreover have "vec_ok n (SetValue j val res)"
    using res assms(2) by (auto split: option.splits)
  ultimately show ?thesis
    using res assms(3) by (auto simp: try_state_def less_Suc_eq)
qed

lemma fresh_try_state: "fresh_vec n res \<Longrightarrow> GetType res = t \<Longrightarrow> try_state t A n 0 res"
  by (erule fresh_vecE) (auto simp: try_state_def)

context children
begin

lemma try_rows_yields:
  assumes k: "0 < arity" "ty 0 = t" "scalar_type t" "\<not> dense 0" "\<not> roomy 0" and rows: "rows_ok chunk_size [0..<n]"
    and reset: "yields I (\<lambda>r. r = Inr ()) reset" and "j \<le> n" and "try_state t (\<lambda>x. try_out (oc 0 x)) n j res"
  shows "yields I (\<lambda>r. case r of Inl e \<Rightarrow> \<exists>x < n. Inl e \<in> try_out (oc 0 x) | Inr v \<Rightarrow> try_state t (\<lambda>x. try_out (oc 0 x)) n n v)
    (try_rows env reset (exec 0) None [j..<n] res)"
  using assms(8,9)
proof (induction "n - j" arbitrary: j res)
  case 0
  then show ?case by (auto intro!: yields_return)
next
  case (Suc d)
  then have j: "j < n" "[j..<n] = j # [Suc j..<n]" by (auto simp: upt_conv_Cons)
  have n: "n \<le> STANDARD_VECTOR_SIZE" "j < chunk_size" using rows_ok_length [OF rows] rows j(1) by (auto simp: rows_ok_def)
  have one: "sel_rows (Some [word_of_nat j]) 1 = [j]"
    using n j(1) by (simp add: sel_rows_def get_index_def unat_of_nat take_bit_nat_eq_self_iff)
  have type: "GetType res = t" using Suc.prems(2) by (auto simp: try_state_def)
  have "yields I (evals (ty 0) (oc 0) [j]) (exec 0 (Some [word_of_nat j]) 1 (Vector_Initialize (vjunk env) t 1))"
    using exec_ok [of 0 "Some [word_of_nat j]" 1 "Vector_Initialize (vjunk env) t 1"] k n rows one
    by (simp add: sel_fits_def rows_ok_def Vector_Initialize_eq fresh_vec_def AllValid_def)
  then have "yields I (\<lambda>r. case r of Inl e \<Rightarrow> Inl e \<in> oc 0 j | Inr y \<Rightarrow> Inr y \<in> oc 0 j)
      (bindW (exec 0 (Some [word_of_nat j]) 1 (Vector_Initialize (vjunk env) t 1)) (\<lambda>v. returnW (vec_row v 0)))"
    by (rule yields_bind) (auto intro!: yields_return)
  then have row: "yields I (\<lambda>r. case r of Inl e \<Rightarrow> Inl e \<in> try_out (oc 0 j) | Inr y \<Rightarrow> Inr y \<in> try_out (oc 0 j))
      (catchW (bindW (exec 0 (Some [word_of_nat j]) 1 (Vector_Initialize (vjunk env) t 1)) (\<lambda>v. returnW (vec_row v 0)))
        (\<lambda>e. if IsExecutionError e then returnW None else liftW (Inl e)))"
    by (rule yields_catch) (auto simp: try_out_def intro!: yields_return yields_lift)
  have get: "get_index None j = j" by (simp add: get_index_def)
  show ?case
    unfolding j(2) try_rows.simps type get
  proof (rule yields_bind [OF reset], simp, rule yields_bind [OF row])
    show "case Inl e of Inl e \<Rightarrow> \<exists>x < n. Inl e \<in> try_out (oc 0 x) | Inr v \<Rightarrow> try_state t (\<lambda>x. try_out (oc 0 x)) n n v"
      if "case Inl e of Inl e \<Rightarrow> Inl e \<in> try_out (oc 0 j) | Inr y \<Rightarrow> Inr y \<in> try_out (oc 0 j)" for e
      using that j(1) by auto
    show "yields I (\<lambda>r. case r of Inl e \<Rightarrow> \<exists>x < n. Inl e \<in> try_out (oc 0 x) | Inr v \<Rightarrow> try_state t (\<lambda>x. try_out (oc 0 x)) n n v)
        (try_rows env reset (exec 0) None [Suc j..<n] (SetValue j y res))"
      if "case Inr y of Inl e \<Rightarrow> Inl e \<in> try_out (oc 0 j) | Inr y \<Rightarrow> Inr y \<in> try_out (oc 0 j)" for y
      by (rule Suc.hyps(1)) (use Suc.hyps(2) j(1) SetValue_step [OF Suc.prems(2) j(1)] that in auto)
  qed
qed

lemma Execute_Try_yields:
  assumes k: "0 < arity" "ty 0 = t" "scalar_type t" "\<not> dense 0" "\<not> roomy 0" and rows: "rows_ok chunk_size [0..<n]"
    and reset: "yields I (\<lambda>r. r = Inr ()) reset" and res: "fresh_vec n res" "GetType res = t"
  shows "yields I (evals t (\<lambda>x. try_out (oc 0 x)) [0..<n]) (Execute_Try env reset (exec 0) None n res)"
proof -
  let ?A = "\<lambda>x. try_out (oc 0 x)" and ?rows = "[0..<n]"
  let ?store = "\<lambda>v. if GetVectorType v = CONSTANT_VECTOR then Reference v res
    else if None \<noteq> (None :: SelectionVector) then Copy_count v None n 0 0 n res else Copy v IncrementalSelectionVector n 0 0 res"
  note n = rows_ok_length [OF rows]
  have run: "yields I (evals (ty 0) (oc 0) (sel_rows None n)) (exec 0 None n (new_vector env (ty 0)))"
    using k rows by (intro exec_fresh) (auto simp: sel_fits_def)
  have store: "\<exists>w. ?store v = Inr w \<and> evals t ?A ?rows (Inr w)" if "evals (ty 0) (oc 0) ?rows (Inr v)" for v
  proof -
    have v: "GetType v = t" "vec_ok n v" "\<forall>i < n. Inr (vec_row v i) \<in> ?A i" using that k(2) by (auto simp: try_out_def)
    show ?thesis
    proof (cases "GetVectorType v = CONSTANT_VECTOR")
      case True
      with v res(2) show ?thesis by (simp add: Reference_def ConstReference_def)
    next
      case False
      obtain d m where "res = Flat t d m" "n \<le> length d" "mask_wf m" "n \<le> capacity m"
        using res by (elim fresh_vecE) auto
      with Copy_flat_rows [OF v(2) False v(1), of d m] v(3) False show ?thesis by auto
    qed
  qed
  have first: "yields I (\<lambda>r. case r of Inl e \<Rightarrow> \<exists>x < n. Inl e \<in> oc 0 x | Inr v \<Rightarrow> evals t ?A ?rows (Inr v))
      (bindW (exec 0 None n (new_vector env (ty 0))) (\<lambda>v. liftW (?store v)))"
  proof (rule yields_bind [OF run])
    fix v assume "evals (ty 0) (oc 0) (sel_rows None n) (Inr v)"
    then obtain w where "?store v = Inr w" "evals t ?A ?rows (Inr w)" using store [of v] by auto
    then show "yields I (\<lambda>r. case r of Inl e \<Rightarrow> \<exists>x < n. Inl e \<in> oc 0 x | Inr v \<Rightarrow> evals t ?A ?rows (Inr v)) (liftW (?store v))"
      by (intro yields_lift) auto
  qed auto
  have again: "yields I (evals t ?A ?rows)
      (bindW (try_rows env reset (exec 0) None [0..<n] res) (\<lambda>res. returnW (if n = 1 then SetVectorType CONSTANT_VECTOR res else res)))"
  proof (rule yields_bind [OF try_rows_yields [OF k rows reset _ fresh_try_state [OF res]]])
    fix v assume "case Inr v of Inl e \<Rightarrow> \<exists>x < n. Inl e \<in> ?A x | Inr v \<Rightarrow> try_state t ?A n n v"
    then obtain d m where "v = Flat t d m" "vec_ok n v" "\<forall>i < n. Inr (vec_row v i) \<in> ?A i" by (auto simp: try_state_def)
    then show "yields I (evals t ?A ?rows) (returnW (if n = 1 then SetVectorType CONSTANT_VECTOR v else v))"
      by (intro yields_return) (auto simp: SetVectorType_def)
  qed auto
  show ?thesis
    unfolding Execute_Try_def res(2)
  proof (rule yields_catch [OF first [unfolded k(2)]])
    fix e assume "case Inl e of Inl e \<Rightarrow> \<exists>x < n. Inl e \<in> oc 0 x | Inr v \<Rightarrow> evals t ?A ?rows (Inr v)"
    then have "\<not> IsExecutionError e \<Longrightarrow> evals t ?A ?rows (Inl e)" by (auto simp: try_out_def)
    with again show "yields I (evals t ?A ?rows) (if IsExecutionError e
        then bindW (try_rows env reset (exec 0) None [0..<n] res) (\<lambda>res. returnW (if n = 1 then SetVectorType CONSTANT_VECTOR res else res))
        else liftW (Inl e))"
      by (auto intro: yields_lift)
  qed (simp only: sum.case)
qed

end

end
