(* ===== verification/Adaptive_Filter.thy ===== *)
theory Adaptive_Filter
  imports Prelude Complex_Main "HOL-Library.Multiset"
begin

text \<open>
  The adaptive filter (\<open>adaptive_filter.cpp\<close>): the order in which a conjunction runs its children. After
  a warm-up it alternates between running a fixed number of batches, swapping two neighbours at random,
  and observing whether the mean time went down; if not the swap is undone and made less likely.

  Times are real numbers; \<open>rnd\<close> is the rounding of \<open>double\<close> arithmetic, an argument. The random number
  generator (\<open>random_engine.cpp\<close>) is modelled from the 64 random bits it draws, with the roundings of
  the two conversions to \<open>double\<close> written out.
\<close>

section \<open>Random integers\<close>

type_synonym u32 = "32 word"

fun bit_length :: "nat \<Rightarrow> nat" where
  "bit_length n = (if n = 0 then 0 else Suc (bit_length (n div 2)))"

declare bit_length.simps [simp del]

text \<open>The \<open>double\<close> nearest to a natural number, ties to even: 53 significant bits.\<close>

definition round53 :: "nat \<Rightarrow> nat" where
  "round53 x =
     (let k = bit_length x - 53; q = x div 2 ^ k; r = x mod 2 ^ k in
      if k = 0 then x
      else if 2 ^ (k - 1) < r \<or> r = 2 ^ (k - 1) \<and> odd q then (q + 1) * 2 ^ k
      else q * 2 ^ k)"

definition NextRandomInteger64 :: "u32 \<Rightarrow> u32 \<Rightarrow> u64" where
  "NextRandomInteger64 hi lo = push_bit 32 (ucast hi) OR ucast lo"

text \<open>\<open>NextRandom()\<close> is this number divided by \<open>2 ^ 64\<close>.\<close>

definition NextRandom :: "u64 \<Rightarrow> nat" where
  "NextRandom bits = round53 (unat bits)"

text \<open>The product with \<open>double(max - min)\<close> is rounded again, the conversion to an integer truncates.\<close>

definition NextRandomInteger :: "u32 \<Rightarrow> u32 \<Rightarrow> u64 \<Rightarrow> u32" where
  "NextRandomInteger lower upper bits =
     lower + word_of_nat (round53 (NextRandom bits * unat (upper - lower)) div 2 ^ 64)"

section \<open>The filter\<close>

record AdaptiveFilter =
  permutation :: "nat list"
  disable_permutations :: bool
  iteration_count :: nat
  swap_idx :: nat
  right_random_border :: nat
  observe_interval :: nat
  execute_interval :: nat
  runtime_sum :: real
  prev_mean :: real
  observe :: bool
  warmup :: bool
  swap_likeliness :: "nat list"

text \<open>
  The constructor for a conjunction; \<open>can_throw\<close> holds \<open>CanThrow()\<close> of each child.
\<close>

definition AdaptiveFilter_init :: "bool list \<Rightarrow> AdaptiveFilter" where
  "AdaptiveFilter_init can_throw =
     (let n = length can_throw in
      \<lparr>permutation = [0..<n], disable_permutations = list_ex (\<lambda>b. b) can_throw, iteration_count = 0, swap_idx = 0,
       right_random_border = 100 * (n - 1), observe_interval = 10, execute_interval = 20, runtime_sum = 0,
       prev_mean = 0, observe = False, warmup = True, swap_likeliness = replicate (n - 1) 100\<rparr>)"

text \<open>
  The constructor for table filters; \<open>order\<close> is what \<open>ExpressionHeuristics::GetInitialOrder\<close> returns.
\<close>

definition AdaptiveFilter_init_table :: "nat list \<Rightarrow> nat \<Rightarrow> AdaptiveFilter" where
  "AdaptiveFilter_init_table order filter_count =
     \<lparr>permutation = order, disable_permutations = False, iteration_count = 0, swap_idx = 0,
      right_random_border = 100 * (filter_count - 1), observe_interval = 10, execute_interval = 20, runtime_sum = 0,
      prev_mean = 0, observe = False, warmup = True, swap_likeliness = replicate (filter_count - 1) 100\<rparr>"

text \<open>Elements of a vector are accessed with a bounds check.\<close>

definition vec_at :: "'a list \<Rightarrow> nat \<Rightarrow> 'a result" where
  "vec_at xs i = (if i < length xs then Inr (xs ! i) else Inl InternalException)"

definition swap_permutation :: "AdaptiveFilter \<Rightarrow> AdaptiveFilter result" where
  "swap_permutation af =
     (let i = swap_idx af; p = permutation af in
      bindE (vec_at p i) (\<lambda>a. bindE (vec_at p (i + 1)) (\<lambda>b.
        Inr (af\<lparr>permutation := p[i := b, i + 1 := a]\<rparr>))))"

definition reset_values :: "AdaptiveFilter \<Rightarrow> AdaptiveFilter" where
  "reset_values af = af\<lparr>iteration_count := 0, runtime_sum := 0\<rparr>"

definition end_observation :: "(real \<Rightarrow> real) \<Rightarrow> AdaptiveFilter \<Rightarrow> AdaptiveFilter result" where
  "end_observation rnd af =
     bindE
       (if rnd (prev_mean af - rnd (runtime_sum af / real (iteration_count af))) \<le> 0 then
          bindE (swap_permutation af) (\<lambda>af.
          bindE (vec_at (swap_likeliness af) (swap_idx af)) (\<lambda>l.
            Inr (if l > 1 then af\<lparr>swap_likeliness := (swap_likeliness af)[swap_idx af := l div 2]\<rparr> else af)))
        else
          bindE (vec_at (swap_likeliness af) (swap_idx af)) (\<lambda>_.
            Inr (af\<lparr>swap_likeliness := (swap_likeliness af)[swap_idx af := 100]\<rparr>)))
       (\<lambda>af. Inr (reset_values (af\<lparr>observe := False\<rparr>)))"

definition NumericCast_u32 :: "nat \<Rightarrow> u32 result" where
  "NumericCast_u32 n = (if n < 2 ^ 32 then Inr (word_of_nat n) else Inl InternalException)"

definition end_execution :: "(real \<Rightarrow> real) \<Rightarrow> u64 \<Rightarrow> AdaptiveFilter \<Rightarrow> AdaptiveFilter result" where
  "end_execution rnd bits af =
     (let af = af\<lparr>prev_mean := rnd (runtime_sum af / real (iteration_count af))\<rparr> in
      bindE (NumericCast_u32 (right_random_border af)) (\<lambda>border.
        let random_number = unat (NextRandomInteger 1 border bits);
            af = af\<lparr>swap_idx := random_number div 100\<rparr>;
            likeliness = random_number - 100 * swap_idx af in
        bindE (vec_at (swap_likeliness af) (swap_idx af)) (\<lambda>l.
        bindE (if l > likeliness then bindE (swap_permutation af) (\<lambda>af. Inr (af\<lparr>observe := True\<rparr>)) else Inr af)
          (\<lambda>af. Inr (reset_values af)))))"

definition AdaptRuntimeStatistics :: "(real \<Rightarrow> real) \<Rightarrow> u64 \<Rightarrow> real \<Rightarrow> AdaptiveFilter \<Rightarrow> AdaptiveFilter result" where
  "AdaptRuntimeStatistics rnd bits duration af =
     (let af = af\<lparr>iteration_count := iteration_count af + 1, runtime_sum := rnd (runtime_sum af + duration)\<rparr> in
      if \<not> warmup af then
        if observe af \<and> iteration_count af = observe_interval af then end_observation rnd af
        else if \<not> observe af \<and> iteration_count af = execute_interval af then end_execution rnd bits af
        else Inr af
      else if iteration_count af = 5 then Inr ((reset_values af)\<lparr>observe := False, warmup := False\<rparr>)
      else Inr af)"

text \<open>\<open>duration\<close>: the time since \<open>BeginFilter\<close>.\<close>

definition EndFilter :: "(real \<Rightarrow> real) \<Rightarrow> u64 \<Rightarrow> real \<Rightarrow> AdaptiveFilter \<Rightarrow> AdaptiveFilter result" where
  "EndFilter rnd bits duration af =
     (if length (permutation af) \<le> 1 \<or> disable_permutations af then Inr af
      else AdaptRuntimeStatistics rnd bits duration af)"

section \<open>Rounding\<close>

lemma bit_length_bounds: "x < 2 ^ bit_length x" "0 < x \<Longrightarrow> 2 ^ (bit_length x - 1) \<le> x"
proof -
  show "x < 2 ^ bit_length x"
  proof (induction x rule: bit_length.induct)
    case (1 n)
    then show ?case by (subst bit_length.simps) (auto simp: less_mult_imp_div_less)
  qed
  show "0 < x \<Longrightarrow> 2 ^ (bit_length x - 1) \<le> x"
  proof (induction x rule: bit_length.induct)
    case (1 n)
    show ?case
    proof (cases "n div 2 = 0")
      case True
      then have "bit_length n = 1" using 1(2) by (subst bit_length.simps) (simp add: bit_length.simps)
      with 1(2) show ?thesis by simp
    next
      case False
      with 1 have "2 ^ (bit_length (n div 2) - 1) \<le> n div 2" by simp
      moreover have "0 < bit_length (n div 2)" using False by (subst bit_length.simps) simp
      then have "(2 :: nat) ^ (bit_length n - 1) = 2 * 2 ^ (bit_length (n div 2) - 1)"
        using 1(2) by (subst bit_length.simps) (simp flip: power_Suc)
      ultimately show ?thesis by linarith
    qed
  qed
qed

lemma bit_length_le: "x < 2 ^ n \<Longrightarrow> bit_length x \<le> n"
proof (rule ccontr)
  assume "x < 2 ^ n" "\<not> bit_length x \<le> n"
  then have "0 < x" by (metis bit_length.simps gr0I le0)
  then have "2 ^ (bit_length x - 1) \<le> x" by (rule bit_length_bounds)
  moreover have "(2 :: nat) ^ n \<le> 2 ^ (bit_length x - 1)"
    using \<open>\<not> bit_length x \<le> n\<close> by (intro power_increasing) auto
  ultimately show False using \<open>x < 2 ^ n\<close> by linarith
qed

text \<open>Rounding moves a number by at most half of the last place.\<close>

lemma round53_upper: "round53 x \<le> x + 2 ^ (bit_length x - 53 - 1)"
proof -
  define k where "k = bit_length x - 53"
  have x: "x = x div 2 ^ k * 2 ^ k + x mod 2 ^ k" by (rule div_mult_mod_eq [symmetric])
  have "(x div 2 ^ k + 1) * 2 ^ k \<le> x + 2 ^ (k - 1)" if "0 < k" "2 ^ (k - 1) \<le> x mod 2 ^ k"
  proof -
    have "(2 :: nat) ^ k = 2 ^ (k - 1) + 2 ^ (k - 1)" using that(1) by (cases k) simp_all
    then show ?thesis using x that(2) by (simp add: algebra_simps)
  qed
  moreover have "x div 2 ^ k * 2 ^ k \<le> x + 2 ^ (k - 1)" using x by linarith
  ultimately show ?thesis
    unfolding round53_def Let_def k_def [symmetric] by (auto intro: le_trans)
qed

lemma round53_exact:
  assumes "x < 2 ^ 53"
  shows "round53 (x * 2 ^ j) = x * 2 ^ j"
proof -
  define k where "k = bit_length (x * 2 ^ j) - 53"
  have "x * 2 ^ j < 2 ^ (53 + j)" using assms by (simp add: power_add)
  then have "k \<le> j" using bit_length_le [of "x * 2 ^ j" "53 + j"] by (simp add: k_def)
  then have "(2 :: nat) ^ k dvd 2 ^ j" by (rule le_imp_power_dvd)
  then have "2 ^ k dvd x * 2 ^ j" by simp
  then have "x * 2 ^ j mod 2 ^ k = 0" "x * 2 ^ j div 2 ^ k * 2 ^ k = x * 2 ^ j" by simp_all
  then show ?thesis
    unfolding round53_def Let_def k_def [symmetric] by auto
qed

lemma place_11:
  fixes q r :: nat
  shows "q * 2048 + r < 2 ^ 64 - 1024 \<Longrightarrow> q * 2048 \<le> 2 ^ 64 - 2048"
    and "q * 2048 + r < 2 ^ 64 - 1024 \<Longrightarrow> 1024 \<le> r \<Longrightarrow> (q + 1) * 2048 \<le> 2 ^ 64 - 2048"
    and "q = 2 ^ 53 - 1 \<Longrightarrow> 2 ^ 64 - 1024 \<le> q * 2048 + r \<Longrightarrow> 1024 \<le> r"
  by simp_all

text \<open>\<open>NextRandom()\<close> stays below 1 by one last place, unless all leading bits are ones: then it is 1.\<close>

lemma NextRandom_below:
  assumes "unat bits < 2 ^ 64 - 1024"
  shows "NextRandom bits \<le> 2 ^ 64 - 2048"
proof (cases "bit_length (unat bits) \<le> 63")
  case True
  have "unat bits < 2 ^ bit_length (unat bits)" by (rule bit_length_bounds)
  also have "\<dots> \<le> 2 ^ 63" using True by (intro power_increasing) auto
  finally have "unat bits < 2 ^ 63" .
  moreover have "(2 :: nat) ^ (bit_length (unat bits) - 53 - 1) \<le> 2 ^ 9" using True by (intro power_increasing) auto
  ultimately show ?thesis
    using round53_upper [of "unat bits"] unfolding NextRandom_def by simp
next
  case False
  have "unat bits < 2 ^ 64" using unsigned_less [of bits] by simp
  then have "bit_length (unat bits) \<le> 64" by (rule bit_length_le)
  with False have k: "bit_length (unat bits) - 53 = 11" by simp
  let ?q = "unat bits div 2048" and ?r = "unat bits mod 2048"
  have x: "unat bits = ?q * 2048 + ?r" by (rule div_mult_mod_eq [symmetric])
  then have "?q * 2048 \<le> 2 ^ 64 - 2048" "1024 \<le> ?r \<Longrightarrow> (?q + 1) * 2048 \<le> 2 ^ 64 - 2048"
    using assms place_11 [of ?q ?r] by simp_all
  then show ?thesis
    unfolding NextRandom_def round53_def k Let_def by auto
qed

lemma NextRandom_one:
  assumes "2 ^ 64 - 1024 \<le> unat bits"
  shows "NextRandom bits = 2 ^ 64"
proof -
  have lt: "unat bits < 2 ^ 64" using unsigned_less [of bits] by simp
  then have "bit_length (unat bits) \<le> 64" by (rule bit_length_le)
  moreover have "\<not> bit_length (unat bits) \<le> 63"
  proof
    assume "bit_length (unat bits) \<le> 63"
    then have "(2 :: nat) ^ bit_length (unat bits) \<le> 2 ^ 63" by (intro power_increasing) auto
    then show False using bit_length_bounds(1) [of "unat bits"] assms by simp
  qed
  ultimately have k: "bit_length (unat bits) - 53 = 11" by simp
  have x: "unat bits = unat bits div 2048 * 2048 + unat bits mod 2048" by (rule div_mult_mod_eq [symmetric])
  have q: "unat bits div 2048 = 2 ^ 53 - 1" using assms lt by auto
  then have "1024 \<le> unat bits mod 2048" using x assms place_11(3) [of "unat bits div 2048" "unat bits mod 2048"] by simp
  note q = q this
  show ?thesis
    unfolding NextRandom_def round53_def k Let_def using q by auto
qed

lemma odd_not_power: "odd d \<Longrightarrow> 1 < d \<Longrightarrow> 2 ^ (bit_length d - 1) < d"
proof -
  assume d: "odd d" "1 < d"
  then have "2 ^ (bit_length d - 1) \<le> d" by (intro bit_length_bounds) simp
  moreover have "2 ^ (bit_length d - 1) \<noteq> d"
  proof
    assume eq: "2 ^ (bit_length d - 1) = d"
    then have "bit_length d - 1 \<noteq> 0" using d(2) by (metis less_irrefl power_0)
    then show False using eq d(1) by (metis dvd_power even_numeral bot_nat_0.not_eq_extremum)
  qed
  ultimately show ?thesis by simp
qed

text \<open>
  For the borders in use the random number is below the upper one, unless the generator returned 1: then
  it is the upper border itself.
\<close>

lemma random_scaled:
  assumes "unat bits < 2 ^ 64 - 1024" and "odd d" "1 < d"
  shows "round53 (NextRandom bits * d) div 2 ^ 64 < d"
proof -
  let ?R = "NextRandom bits"
  have R: "?R \<le> 2 ^ 64 - 2048" using NextRandom_below [OF assms(1)] .
  have "?R * d < 2 ^ 64 * 2 ^ bit_length d"
    using R bit_length_bounds(1) [of d] by (intro mult_strict_mono') auto
  then have bl: "bit_length (?R * d) \<le> 64 + bit_length d" by (intro bit_length_le) (simp add: power_add)
  have pos: "0 < bit_length d" using assms(3) by (subst bit_length.simps) simp
  have "round53 (?R * d) \<le> ?R * d + 2 ^ (bit_length (?R * d) - 53 - 1)" by (rule round53_upper)
  also have "\<dots> \<le> ?R * d + 2 ^ (11 + (bit_length d - 1))"
    using bl pos by (intro add_left_mono power_increasing) auto
  also have "\<dots> = ?R * d + 2048 * 2 ^ (bit_length d - 1)" by (simp add: power_add)
  also have "\<dots> < ?R * d + 2048 * d" using odd_not_power [OF assms(2,3)] by simp
  also have "\<dots> = (?R + 2048) * d" by (simp add: algebra_simps)
  also have "\<dots> \<le> 2 ^ 64 * d" using R by (intro mult_right_mono) auto
  finally have "round53 (?R * d) < d * 2 ^ 64" by (simp only: mult.commute)
  then show ?thesis by (rule less_mult_imp_div_less)
qed

lemma unat_u32: "n < 2 ^ 32 \<Longrightarrow> unat (word_of_nat n :: u32) = n"
  by (simp add: unat_of_nat)

lemma NextRandomInteger_range:
  assumes "unat bits < 2 ^ 64 - 1024" and "1 < d" "odd d" and "d + 1 < 2 ^ 32"
  shows "1 \<le> unat (NextRandomInteger 1 (word_of_nat (d + 1)) bits)" and "unat (NextRandomInteger 1 (word_of_nat (d + 1)) bits) \<le> d"
proof -
  let ?q = "round53 (NextRandom bits * d) div 2 ^ 64"
  have d: "unat (word_of_nat (d + 1) - 1 :: u32) = d"
    using assms(4) by (simp add: unat_of_nat)
  have q: "?q < d" by (rule random_scaled [OF assms(1,3,2)])
  have "NextRandomInteger 1 (word_of_nat (d + 1)) bits = word_of_nat (1 + ?q)"
    unfolding NextRandomInteger_def d by simp
  moreover have "unat (word_of_nat (1 + ?q) :: u32) = 1 + ?q"
    by (rule unat_u32) (use q assms(4) in linarith)
  ultimately show "1 \<le> unat (NextRandomInteger 1 (word_of_nat (d + 1)) bits)" "unat (NextRandomInteger 1 (word_of_nat (d + 1)) bits) \<le> d"
    using q by simp_all
qed

lemma NextRandomInteger_top:
  assumes "2 ^ 64 - 1024 \<le> unat bits" and "d + 1 < 2 ^ 32"
  shows "unat (NextRandomInteger 1 (word_of_nat (d + 1)) bits) = d + 1"
proof -
  have d: "unat (word_of_nat (d + 1) - 1 :: u32) = d"
    using assms(2) by (simp add: unat_of_nat)
  have "round53 (NextRandom bits * d) = d * 2 ^ 64"
    using round53_exact [of d 64] assms(2) NextRandom_one [OF assms(1)] by (simp add: mult.commute)
  then have "NextRandomInteger 1 (word_of_nat (d + 1)) bits = word_of_nat (1 + d)"
    unfolding NextRandomInteger_def d by simp
  moreover have "unat (word_of_nat (1 + d) :: u32) = 1 + d"
    by (rule unat_u32) (use assms(2) in linarith)
  ultimately show ?thesis by (simp only: add.commute)
qed

section \<open>The invariant\<close>

text \<open>
  The permutation is one, every neighbour keeps a chance to be swapped, and a swap under observation is
  one that can be undone.
\<close>

definition filter_ok :: "nat \<Rightarrow> AdaptiveFilter \<Rightarrow> bool" where
  "filter_ok n af \<longleftrightarrow>
     mset (permutation af) = mset [0..<n] \<and> length (swap_likeliness af) = n - 1 \<and>
     (\<forall>l \<in> set (swap_likeliness af). 1 \<le> l \<and> l \<le> 100) \<and> right_random_border af = 100 * (n - 1) \<and>
     observe_interval af = 10 \<and> execute_interval af = 20 \<and> (observe af \<longrightarrow> swap_idx af + 1 < n \<and> \<not> warmup af) \<and>
     iteration_count af < (if warmup af then 5 else if observe af then 10 else 20)"

lemma filter_ok_init: "filter_ok (length can_throw) (AdaptiveFilter_init can_throw)"
  by (simp add: filter_ok_def AdaptiveFilter_init_def Let_def)

lemma filter_ok_init_table: "mset order = mset [0..<n] \<Longrightarrow> filter_ok n (AdaptiveFilter_init_table order n)"
  by (simp add: filter_ok_def AdaptiveFilter_init_table_def)

lemma permutation_length: "filter_ok n af \<Longrightarrow> length (permutation af) = n"
  using mset_eq_length [of "permutation af" "[0..<n]"] by (simp add: filter_ok_def)

lemma swap_neighbours:
  assumes "length (permutation af) = n" and "swap_idx af + 1 < n"
  shows "\<exists>p. swap_permutation af = Inr (af\<lparr>permutation := p\<rparr>) \<and> mset p = mset (permutation af) \<and>
    p = (permutation af)[swap_idx af := permutation af ! (swap_idx af + 1), swap_idx af + 1 := permutation af ! swap_idx af]"
  using assms by (simp add: swap_permutation_def vec_at_def Let_def mset_swap)

lemma filter_ok_length: "filter_ok n af \<Longrightarrow> length (swap_likeliness af) = n - 1"
  by (simp add: filter_ok_def)

lemma likeliness_update:
  "\<forall>l \<in> set ls. 1 \<le> l \<and> l \<le> 100 \<Longrightarrow> 1 \<le> x \<Longrightarrow> x \<le> (100 :: nat) \<Longrightarrow> \<forall>l \<in> set (ls[i := x]). 1 \<le> l \<and> l \<le> 100"
  using set_update_subset_insert [of ls i x] by auto

lemma end_observation_ok:
  assumes "filter_ok n (af\<lparr>iteration_count := c\<rparr>)" and "observe af"
  shows "\<exists>af'. end_observation rnd af = Inr af' \<and> filter_ok n af' \<and> \<not> observe af' \<and>
    permutation af' = (if rnd (prev_mean af - rnd (runtime_sum af / real (iteration_count af))) \<le> 0
      then (permutation af)[swap_idx af := permutation af ! (swap_idx af + 1), swap_idx af + 1 := permutation af ! swap_idx af]
      else permutation af)"
proof -
  let ?i = "swap_idx af" and ?ls = "swap_likeliness af"
  have ok: "?i + 1 < n" "\<not> warmup af" "length ?ls = n - 1" "\<forall>l \<in> set ?ls. 1 \<le> l \<and> l \<le> 100"
    "mset (permutation af) = mset [0..<n]" "right_random_border af = 100 * (n - 1)" "observe_interval af = 10" "execute_interval af = 20"
    using assms by (simp_all add: filter_ok_def)
  have len: "length (permutation af) = n" using permutation_length [OF assms(1)] by simp
  have at: "vec_at ?ls ?i = Inr (?ls ! ?i)" "?ls ! ?i \<in> set ?ls" using ok(1,3) by (simp_all add: vec_at_def)
  obtain p where p: "swap_permutation af = Inr (af\<lparr>permutation := p\<rparr>)" "mset p = mset (permutation af)"
    "p = (permutation af)[?i := permutation af ! (?i + 1), ?i + 1 := permutation af ! ?i]"
    using swap_neighbours [OF len ok(1)] by blast
  have half: "1 \<le> ?ls ! ?i div 2" "?ls ! ?i div 2 \<le> 100" if "1 < ?ls ! ?i" using that at(2) ok(4) by auto
  show ?thesis
    using p at(1) ok likeliness_update [OF ok(4), of 100 ?i] likeliness_update [OF ok(4) half]
    by (simp add: end_observation_def reset_values_def filter_ok_def)
qed

lemma end_execution_ok:
  assumes "filter_ok n (af\<lparr>iteration_count := c\<rparr>)" and "\<not> observe af" "\<not> warmup af" and "2 \<le> n" "100 * (n - 1) < 2 ^ 32"
    and "unat bits < 2 ^ 64 - 1024"
  shows "\<exists>af'. end_execution rnd bits af = Inr af' \<and> filter_ok n af' \<and> \<not> warmup af' \<and> swap_idx af' + 1 < n \<and>
    permutation af' = (if observe af'
      then (permutation af)[swap_idx af' := permutation af ! (swap_idx af' + 1), swap_idx af' + 1 := permutation af ! swap_idx af']
      else permutation af)"
proof -
  let ?ls = "swap_likeliness af"
  define d where "d = 100 * (n - 1) - 1"
  have border: "right_random_border af = d + 1" using assms(1,4) by (simp add: filter_ok_def d_def)
  have d: "1 < d" "odd d" "d + 1 < 2 ^ 32" using assms(4,5) by (auto simp: d_def)
  define w :: u32 where "w = word_of_nat (d + 1)"
  define r where "r = unat (NextRandomInteger 1 w bits)"
  have r: "1 \<le> r" "r \<le> d" unfolding r_def w_def by (rule NextRandomInteger_range [OF assms(6) d])+
  define i where "i = r div 100"
  have i: "i + 1 < n" using r(2) assms(4) unfolding i_def d_def by linarith
  have ok: "length ?ls = n - 1" "\<forall>l \<in> set ?ls. 1 \<le> l \<and> l \<le> 100" "mset (permutation af) = mset [0..<n]"
    "right_random_border af = 100 * (n - 1)" "observe_interval af = 10" "execute_interval af = 20"
    using assms(1) by (simp_all add: filter_ok_def)
  have len: "length (permutation af) = n" using permutation_length [OF assms(1)] by simp
  let ?af = "af\<lparr>prev_mean := rnd (runtime_sum af / real (iteration_count af)), swap_idx := i\<rparr>"
  obtain p where p: "swap_permutation ?af = Inr (?af\<lparr>permutation := p\<rparr>)" "mset p = mset (permutation af)"
    "p = (permutation af)[i := permutation af ! (i + 1), i + 1 := permutation af ! i]"
    using swap_neighbours [of ?af n] len i by auto
  have at: "vec_at ?ls i = Inr (?ls ! i)" using ok(1) i by (simp add: vec_at_def)
  have cast: "NumericCast_u32 (right_random_border af) = Inr w"
    unfolding border w_def using d(3) by (simp add: NumericCast_u32_def del: of_nat_add)
  let ?af' = "reset_values (if ?ls ! i > r - 100 * i then ?af\<lparr>permutation := p, observe := True\<rparr> else ?af)"
  have "end_execution rnd bits af = Inr ?af'"
    using p(1) at cast by (simp add: end_execution_def Let_def r_def [symmetric] i_def [symmetric])
  moreover have "filter_ok n ?af' \<and> \<not> warmup ?af' \<and> swap_idx ?af' + 1 < n"
    using ok p(2) i assms(2,3) by (simp add: reset_values_def filter_ok_def)
  ultimately show ?thesis
    using p(3) assms(2) by (auto simp: reset_values_def)
qed

lemma Adapt_ok:
  assumes "filter_ok n af" and "2 \<le> n" "100 * (n - 1) < 2 ^ 32" and "unat bits < 2 ^ 64 - 1024"
  shows "\<exists>af'. AdaptRuntimeStatistics rnd bits duration af = Inr af' \<and> filter_ok n af'"
proof -
  let ?af = "af\<lparr>iteration_count := iteration_count af + 1, runtime_sum := rnd (runtime_sum af + duration)\<rparr>"
  have back_ok: "filter_ok n (?af\<lparr>iteration_count := iteration_count af\<rparr>)" using assms(1) by (auto simp: filter_ok_def split: if_splits)
  have int: "observe_interval af = 10" "execute_interval af = 20" using assms(1) by (simp_all add: filter_ok_def)
  consider (obs) "\<not> warmup af" "observe af" "iteration_count af + 1 = 10"
    | (exe) "\<not> warmup af" "\<not> observe af" "iteration_count af + 1 = 20"
    | (warm) "warmup af" "iteration_count af + 1 = 5"
    | (count) "iteration_count af + 1 < (if warmup af then 5 else if observe af then 10 else 20)"
    using assms(1) by (fastforce simp: filter_ok_def split: if_splits)
  then show ?thesis
  proof cases
    case obs
    then show ?thesis
      using end_observation_ok [OF back_ok, of rnd] int by (auto simp: AdaptRuntimeStatistics_def Let_def)
  next
    case exe
    then show ?thesis
      using end_execution_ok [OF back_ok _ _ assms(2-4), of rnd] int by (auto simp: AdaptRuntimeStatistics_def Let_def)
  next
    case warm
    then show ?thesis
      using assms(1) by (simp add: AdaptRuntimeStatistics_def Let_def reset_values_def filter_ok_def)
  next
    case count
    then show ?thesis
      using assms(1) by (auto simp: AdaptRuntimeStatistics_def Let_def filter_ok_def)
  qed
qed

lemma EndFilter_ok:
  assumes "filter_ok n af" and "100 * (n - 1) < 2 ^ 32" and "unat bits < 2 ^ 64 - 1024"
  shows "\<exists>af'. EndFilter rnd bits duration af = Inr af' \<and> filter_ok n af'"
  using Adapt_ok [OF assms(1) _ assms(2,3)] permutation_length [OF assms(1)] assms(1)
  by (cases "n \<le> 1") (auto simp: EndFilter_def)

lemma end_execution_reset: "end_execution rnd bits af = Inr af' \<Longrightarrow> iteration_count af' = 0"
  by (auto simp: end_execution_def Let_def bindE_Inr_iff reset_values_def)

lemma swap_twice:
  assumes "i + 1 < length p" and "q = p[i := p ! (i + 1), i + 1 := p ! i]"
  shows "q[i := q ! (i + 1), i + 1 := q ! i] = p"
  using assms by (auto simp: list_eq_iff_nth_eq nth_list_update)

text \<open>
  C32: The adaptive filter keeps its order a permutation of the children and every likeliness between 1 and
  100, whatever the times and the random draws, as long as a draw does not round up to 1.
\<close>

theorem adaptive_filter_invariant:
  assumes "filter_ok n af" and "100 * (n - 1) < 2 ^ 32" and "unat bits < 2 ^ 64 - 1024"
  shows "\<exists>af'. EndFilter rnd bits duration af = Inr af' \<and> filter_ok n af'"
  by (rule EndFilter_ok [OF assms])

theorem adaptive_filter_invariant_witness:
  "\<exists>af. EndFilter (\<lambda>x. x) 7 1 (AdaptiveFilter_init [False, False]) = Inr af \<and> filter_ok 2 af"
proof -
  have "filter_ok 2 (AdaptiveFilter_init [False, False])" using filter_ok_init [of "[False, False]"] by (simp add: numeral_2_eq_2)
  then show ?thesis by (rule adaptive_filter_invariant) simp_all
qed

text \<open>
  C33: At the end of an execution phase a draw of at least \<open>2 ^ 64 - 1024\<close> is converted to the \<open>double\<close> 1,
  the random number is the upper border, and the filter indexes one past the end of the likeliness
  vector: \<open>EndFilter\<close> throws an internal error and the query fails.
\<close>

theorem random_border_out_of_bounds:
  assumes "filter_ok n af" and "2 \<le> n" "100 * (n - 1) < 2 ^ 32" and "\<not> disable_permutations af"
    and "\<not> warmup af" "\<not> observe af" "iteration_count af = 19" and "2 ^ 64 - 1024 \<le> unat bits"
  shows "EndFilter rnd bits duration af = Inl InternalException"
proof -
  define d where "d = 100 * (n - 1) - 1"
  have border: "right_random_border af = d + 1" and d: "d + 1 < 2 ^ 32"
    using assms(1-3) by (auto simp: filter_ok_def d_def)
  define w :: u32 where "w = word_of_nat (d + 1)"
  have cast: "NumericCast_u32 (right_random_border af) = Inr w"
    unfolding border w_def using d by (simp add: NumericCast_u32_def del: of_nat_add)
  have "unat (NextRandomInteger 1 w bits) = 100 * (n - 1)"
    using NextRandomInteger_top [OF assms(8) d] assms(2) unfolding w_def d_def by simp
  then have "unat (NextRandomInteger 1 w bits) div 100 = n - 1" by simp
  moreover have "vec_at (swap_likeliness af) (n - 1) = Inl InternalException"
    using filter_ok_length [OF assms(1)] by (simp add: vec_at_def)
  moreover have "length (permutation af) = n" "execute_interval af = 20"
    using permutation_length [OF assms(1)] assms(1) by (simp_all add: filter_ok_def)
  ultimately show ?thesis
    using assms(2,4-7) cast by (simp add: EndFilter_def AdaptRuntimeStatistics_def end_execution_def Let_def)
qed

definition ex_filter :: AdaptiveFilter where
  "ex_filter = (AdaptiveFilter_init [False, False])\<lparr>warmup := False, iteration_count := 19\<rparr>"

lemma ex_filter_ok: "filter_ok 2 ex_filter"
  by (simp add: ex_filter_def filter_ok_def AdaptiveFilter_init_def Let_def numeral_2_eq_2)

theorem random_border_out_of_bounds_witness:
  "EndFilter (\<lambda>x. x) 0xFFFFFFFFFFFFFFFF 1 ex_filter = Inl InternalException"
  by (rule random_border_out_of_bounds [OF ex_filter_ok]) (simp_all add: ex_filter_def AdaptiveFilter_init_def Let_def)

text \<open>Between the ends of the phases a batch is only counted.\<close>

lemma Adapt_counts:
  assumes "filter_ok n af" and "iteration_count af + 1 < (if warmup af then 5 else if observe af then 10 else 20)"
  shows "AdaptRuntimeStatistics rnd bits duration af =
    Inr (af\<lparr>iteration_count := iteration_count af + 1, runtime_sum := rnd (runtime_sum af + duration)\<rparr>)"
  using assms by (auto simp: AdaptRuntimeStatistics_def Let_def filter_ok_def split: if_splits)

text \<open>
  A swap that does not lower the mean time is undone: when the observation of the swap made at the end
  of an execution phase ends without a gain, the order is the one before the swap. The batches in between
  only change the number of batches and their total time.
\<close>

theorem swap_undone:
  assumes "filter_ok n (af\<lparr>iteration_count := c\<rparr>)" and "\<not> observe af" "\<not> warmup af" and "2 \<le> n" "100 * (n - 1) < 2 ^ 32"
    and "unat bits < 2 ^ 64 - 1024"
    and "end_execution rnd bits af = Inr swapped" and "observe swapped"
    and "rnd (prev_mean swapped - rnd (spent / 10)) \<le> 0"
  shows "\<exists>af'. end_observation rnd (swapped\<lparr>iteration_count := 10, runtime_sum := spent\<rparr>) = Inr af' \<and>
    permutation af' = permutation af \<and> \<not> observe af'"
proof -
  let ?i = "swap_idx swapped" and ?obs = "swapped\<lparr>iteration_count := 10, runtime_sum := spent\<rparr>"
  have sw: "filter_ok n swapped" "\<not> warmup swapped" "?i + 1 < n"
    "permutation swapped = (permutation af)[?i := permutation af ! (?i + 1), ?i + 1 := permutation af ! ?i]"
    using end_execution_ok [OF assms(1-6), of rnd] assms(7,8) by auto
  have "filter_ok n (?obs\<lparr>iteration_count := 0\<rparr>)" using sw(1,2) by (simp add: filter_ok_def)
  then obtain af' where af': "end_observation rnd ?obs = Inr af'" "\<not> observe af'"
      "permutation af' = (permutation swapped)[?i := permutation swapped ! (?i + 1), ?i + 1 := permutation swapped ! ?i]"
    using end_observation_ok [where n = n and af = ?obs and c = 0 and rnd = rnd] assms(8,9) by auto
  have "?i + 1 < length (permutation af)" using sw(3) permutation_length [OF assms(1)] by simp
  then have "permutation af' = permutation af" using af'(3) swap_twice [OF _ sw(4)] by simp
  with af' show ?thesis by blast
qed

theorem swap_undone_witness:
  "\<exists>swapped af'. end_execution (\<lambda>x. x) 0 (ex_filter\<lparr>iteration_count := 20, runtime_sum := 40\<rparr>) = Inr swapped \<and>
     end_observation (\<lambda>x. x) (swapped\<lparr>iteration_count := 10, runtime_sum := 30\<rparr>) = Inr af' \<and> permutation af' = [0, 1]"
proof -
  let ?af = "ex_filter\<lparr>iteration_count := 20, runtime_sum := 40\<rparr>"
  have ok: "filter_ok 2 (?af\<lparr>iteration_count := 19\<rparr>)" using ex_filter_ok by (simp add: filter_ok_def ex_filter_def)
  have zero: "round53 0 = 0" by (simp add: round53_def bit_length.simps Let_def)
  have "NextRandomInteger 1 100 0 = 1" by (simp add: NextRandomInteger_def NextRandom_def zero)
  then obtain sw where sw: "end_execution (\<lambda>x. x) 0 ?af = Inr sw" "observe sw" "prev_mean sw = 2"
    by (simp add: end_execution_def Let_def ex_filter_def AdaptiveFilter_init_def NumericCast_u32_def vec_at_def swap_permutation_def
        reset_values_def)
  have "\<exists>af'. end_observation (\<lambda>x. x) (sw\<lparr>iteration_count := 10, runtime_sum := 30\<rparr>) = Inr af' \<and>
      permutation af' = permutation ?af \<and> \<not> observe af'"
    by (rule swap_undone [OF ok _ _ _ _ _ sw(1,2)]) (simp_all add: ex_filter_def AdaptiveFilter_init_def Let_def sw(3))
  then show ?thesis
    using sw(1) by (auto simp: ex_filter_def AdaptiveFilter_init_def Let_def upt_rec)
qed

end
