(* ===== verification/Conjunction_Filter.thy ===== *)
theory Conjunction_Filter
  imports Expression_Select Adaptive_Filter
begin

text \<open>
  A filter over AND or OR as \<open>PhysicalFilter\<close> runs it: batch after batch, each in the order the adaptive
  filter has arrived at (\<open>ExpressionExecutor::Select\<close> of a conjunction, \<open>execute_conjunction.cpp\<close>).
  The order changes with the measured times and the random draws; the theorems show that the rows that
  pass do not. The children are filters of any kind: what the code gets from its call of \<open>Select\<close> on a child,
  which may be \<open>DefaultSelect\<close>, a comparison, BETWEEN or another conjunction, is an argument here, with the
  contract \<open>selector\<close>; \<open>Executor_Conjunction\<close> ties the knot with the executor's own \<open>Select\<close>.
\<close>

section \<open>Batches\<close>

text \<open>
  One call: the input selection and the outputs, \<open>Select\<close> of the children on the batch's chunk, the
  time the call takes and the random bits the generator would give at its end.
\<close>

record batch =
  b_sel :: selref
  b_count :: nat
  b_true :: "SelectionVector option"
  b_false :: "SelectionVector option"
  b_child :: "nat \<Rightarrow> filter_fn"
  b_bits :: u64
  b_duration :: real

definition Select_Conjunction ::
    "(nat \<Rightarrow> sel_t) \<Rightarrow> (real \<Rightarrow> real) \<Rightarrow> bool \<Rightarrow> batch \<Rightarrow> AdaptiveFilter \<Rightarrow> (select_output \<times> AdaptiveFilter) result" where
  "Select_Conjunction sjunk rnd is_and b af =
     (let select = (if is_and then Select_And sjunk (b_child b) (permutation af) else Select_Or sjunk (b_child b) (permutation af)) in
      bindE (select (b_sel b) (b_count b) (b_true b) (b_false b)) (\<lambda>r.
      bindE (EndFilter rnd (b_bits b) (b_duration b) af) (\<lambda>af. Inr (r, af))))"

fun run_batches ::
    "(nat \<Rightarrow> sel_t) \<Rightarrow> (real \<Rightarrow> real) \<Rightarrow> bool \<Rightarrow> batch list \<Rightarrow> AdaptiveFilter \<Rightarrow> (select_output list \<times> AdaptiveFilter) result" where
  "run_batches sjunk rnd is_and [] af = Inr ([], af)"
| "run_batches sjunk rnd is_and (b # bs) af =
     bindE (Select_Conjunction sjunk rnd is_and b af) (\<lambda>(r, af).
     bindE (run_batches sjunk rnd is_and bs af) (\<lambda>(rs, af). Inr (r # rs, af)))"

section \<open>What passes\<close>

definition batch_rows :: "batch \<Rightarrow> nat list" where
  "batch_rows b = ref_rows (b_sel b) (b_true b) (b_false b) (b_count b)"

text \<open>
  \<open>pass k r\<close>: child \<open>k\<close> is TRUE on row \<open>r\<close> of the batch. Each child filters any part of the batch's rows. The
  caller asks for the passing rows, and the draw is not one of the 1024 largest, which lead to the
  index out of bounds of \<open>random_border_out_of_bounds\<close>.
\<close>

definition batch_ok :: "nat \<Rightarrow> (nat \<Rightarrow> nat \<Rightarrow> bool) \<Rightarrow> batch \<Rightarrow> bool" where
  "batch_ok n pass b \<longleftrightarrow>
     0 < b_count b \<and> b_count b \<le> STANDARD_VECTOR_SIZE \<and>
     select_ready (b_count b) (b_sel b) (b_true b) (b_false b) \<and> b_true b \<noteq> None \<and>
     (\<forall>k < n. selector (b_child b k) (\<lambda>rs. set rs \<subseteq> set (batch_rows b)) (pass k)) \<and>
     unat (b_bits b) < 2 ^ 64 - 1024"

definition passes :: "bool \<Rightarrow> nat \<Rightarrow> (nat \<Rightarrow> nat \<Rightarrow> bool) \<Rightarrow> nat \<Rightarrow> bool" where
  "passes is_and n pass r \<longleftrightarrow> (if is_and then \<forall>k < n. pass k r else \<exists>k < n. pass k r)"

interpretation defaults: conjunction "\<lambda>k. DefaultSelect junk (exec k)" "\<lambda>k. exec_ok (exec k) (CP k)" CP for junk exec CP
  by (rule conjunction.intro) (rule default.selector_axioms)

text \<open>A conjunction of filters is a filter again, so that conjunctions nest.\<close>

context conjunction
begin

lemma And_selector: "ks \<noteq> [] \<Longrightarrow> selector (Select_And junk child ks) (hereditary cpre ks) (\<lambda>r. \<forall>k \<in> set ks. CP k r)"
  by (rule selector.intro) (rule Select_And_selects)

lemma Or_selector: "ks \<noteq> [] \<Longrightarrow> selector (Select_Or junk child ks) (hereditary cpre ks) (\<lambda>r. \<exists>k \<in> set ks. CP k r)"
  by (rule selector.intro) (rule Select_Or_selects)

end

lemma selector_weaken: "selector f pre P \<Longrightarrow> (\<And>rs. pre' rs \<Longrightarrow> pre rs) \<Longrightarrow> selector f pre' P"
  by (simp add: selector_def)

lemma Select_Conjunction_ok:
  assumes "filter_ok n af" and "0 < n" "100 * (n - 1) < 2 ^ 32" and "batch_ok n pass b"
  shows "\<exists>r af'. Select_Conjunction sjunk rnd is_and b af = Inr (r, af') \<and> filter_ok n af' \<and>
    selects (batch_rows b) (passes is_and n pass) (b_true b) (b_false b) r"
proof -
  have set: "set (permutation af) = {..<n}"
  proof -
    have "mset (permutation af) = mset [0..<n]" using assms(1) unfolding filter_ok_def by blast
    then have "set (permutation af) = set [0..<n]" by (rule mset_eq_setD)
    then show ?thesis by (simp only: set_upt atLeast0LessThan)
  qed
  have ks: "permutation af \<noteq> []" using permutation_length [OF assms(1)] assms(2) by auto
  let ?pre = "\<lambda>k rs. k < n \<and> set rs \<subseteq> set (batch_rows b)"
  have "selector (b_child b k) (?pre k) (pass k)" for k
    using assms(4) by (cases "k < n") (auto simp: batch_ok_def selector_def)
  then have conj: "conjunction (b_child b) ?pre pass" by (rule conjunction.intro)
  have her: "hereditary ?pre (permutation af) (batch_rows b)"
    using set by (auto simp: hereditary_def)
  have b: "0 < b_count b" "b_count b \<le> STANDARD_VECTOR_SIZE" "select_ready (b_count b) (b_sel b) (b_true b) (b_false b)" "b_true b \<noteq> None"
    using assms(4) by (simp_all add: batch_ok_def)
  obtain af' where af': "EndFilter rnd (b_bits b) (b_duration b) af = Inr af'" "filter_ok n af'"
    using EndFilter_ok [OF assms(1,3)] assms(4) unfolding batch_ok_def by blast
  have pass: "passes is_and n pass = (if is_and then (\<lambda>r. \<forall>k \<in> set (permutation af). pass k r) else (\<lambda>r. \<exists>k \<in> set (permutation af). pass k r))"
    unfolding set by (auto simp: passes_def fun_eq_iff)
  note sel = conjunction.Select_And_selects [OF conj b(1-3) ks, of sjunk] conjunction.Select_Or_selects [OF conj b ks, of sjunk]
  show ?thesis
    using sel her af' unfolding pass batch_rows_def [symmetric]
    by (cases is_and) (auto simp: Select_Conjunction_def Let_def)
qed

lemma run_batches_ok:
  assumes "filter_ok n af" and "0 < n" "100 * (n - 1) < 2 ^ 32" and "list_all2 (batch_ok n) ps bs"
  shows "\<exists>rs af'. run_batches sjunk rnd is_and bs af = Inr (rs, af') \<and> filter_ok n af' \<and> length rs = length bs \<and>
    (\<forall>i < length bs. selects (batch_rows (bs ! i)) (passes is_and n (ps ! i)) (b_true (bs ! i)) (b_false (bs ! i)) (rs ! i))"
  using assms(4,1)
proof (induction ps bs arbitrary: af rule: list_all2_induct)
  case (Cons p ps b bs)
  obtain r af1 where 1: "Select_Conjunction sjunk rnd is_and b af = Inr (r, af1)" "filter_ok n af1"
      "selects (batch_rows b) (passes is_and n p) (b_true b) (b_false b) r"
    using Select_Conjunction_ok [OF Cons.prems assms(2,3) Cons.hyps(1)] by blast
  obtain rs af2 where 2: "run_batches sjunk rnd is_and bs af1 = Inr (rs, af2)" "filter_ok n af2" "length rs = length bs"
      "\<forall>i < length bs. selects (batch_rows (bs ! i)) (passes is_and n (ps ! i)) (b_true (bs ! i)) (b_false (bs ! i)) (rs ! i)"
    using Cons.IH [OF 1(2)] by blast
  have "\<forall>i < length (b # bs). selects (batch_rows ((b # bs) ! i)) (passes is_and n ((p # ps) ! i)) (b_true ((b # bs) ! i))
      (b_false ((b # bs) ! i)) ((r # rs) ! i)"
    using 1(3) 2(4) by (simp add: nth_Cons split: nat.split)
  then show ?case using 1(1) 2(1-3) by (intro exI [of _ "r # rs"] exI [of _ af2]) simp
qed simp

text \<open>
  C27: A conjunction filters every batch of a sequence correctly while the adaptive filter reorders its
  children between the batches, whatever the measured times and for all draws but the 1024 largest (on
  which the filter may throw): where the caller asks for the passing rows, the true output of batch \<open>i\<close>
  holds the rows on which all children (for OR, some child) are TRUE, the false output, if asked for,
  the others, and the returned count is the number of the former. The children are arbitrary filters
  with the contract \<open>selector\<close>, nested conjunctions included, which read and write the arrays in place.
\<close>

theorem adaptive_conjunction_filters:
  assumes "list_all2 (batch_ok (length can_throw)) passing batches" and "can_throw \<noteq> []" and "100 * (length can_throw - 1) < 2 ^ 32"
  shows "\<exists>rs af. run_batches sjunk rnd is_and batches (AdaptiveFilter_init can_throw) = Inr (rs, af) \<and> length rs = length batches \<and>
    (\<forall>i < length batches.
       selects (ref_rows (b_sel (batches ! i)) (b_true (batches ! i)) (b_false (batches ! i)) (b_count (batches ! i)))
         (\<lambda>r. if is_and then \<forall>k < length can_throw. (passing ! i) k r else \<exists>k < length can_throw. (passing ! i) k r)
         (b_true (batches ! i)) (b_false (batches ! i)) (rs ! i))"
proof -
  have "0 < length can_throw" using assms(2) by simp
  from run_batches_ok [OF filter_ok_init this assms(3,1), of sjunk rnd is_and] show ?thesis
    unfolding batch_rows_def passes_def [abs_def] by blast
qed

text \<open>
  The witness: OR of two children on rows 0 and 1, the first a predicate that is TRUE on row 0 only, the
  second an AND of two predicates that are NULL everywhere; row 0 passes.
\<close>

definition ex_predicate :: "nat list \<Rightarrow> Vector result" where
  "ex_predicate rs = Inr (Flat BOOLEAN (map (\<lambda>r. bool_cell (r = 0)) rs) (Mask_Reset (length rs)))"

definition ex_batch :: batch where
  "ex_batch = \<lparr>b_sel = SelFixed None, b_count = 2, b_true = Some (Some [5, 5]), b_false = None,
     b_child = (\<lambda>k. if k = 0 then DefaultSelect (\<lambda>_. 0) ex_predicate
       else Select_And (\<lambda>_. 0) (\<lambda>j. DefaultSelect (\<lambda>_. 0) (\<lambda>rs. Inr ex_null)) [0, 1]),
     b_bits = 7, b_duration = 1\<rparr>"

lemma ex_batch_ok: "batch_ok 2 (\<lambda>k r. k = 0 \<and> r = 0) ex_batch"
proof -
  have "exec_ok ex_predicate (\<lambda>r. r = 0) rs" for rs
    by (auto simp: ex_predicate_def exec_ok_def scalar_type_def constant_size_type_def Mask_Reset_def truth_def)
  then have first: "selector (b_child ex_batch 0) pre (\<lambda>r. r = 0)" for pre
    using selector_weaken [OF default.selector_axioms] by (simp add: ex_batch_def)
  have null: "hereditary (\<lambda>k. exec_ok (\<lambda>rs. Inr ex_null) (\<lambda>r. False)) [0, 1] rs" for rs
    by (simp add: hereditary_def exec_ok_def truth_def)
  have none: "(\<lambda>r :: nat. \<forall>k \<in> set [0 :: nat, 1]. False) = (\<lambda>r. False)" by auto
  have child: "b_child ex_batch 1 = Select_And (\<lambda>_. 0) (\<lambda>j. DefaultSelect (\<lambda>_. 0) (\<lambda>rs. Inr ex_null)) [0, 1]"
    by (simp add: ex_batch_def)
  have "selector (b_child ex_batch 1) pre (\<lambda>r. False)" for pre
    unfolding child by (rule selector_weaken [OF defaults.And_selector [of "[0, 1]" _ _ _ "\<lambda>_ _. False", unfolded none]]) (simp, rule null)
  with first have "\<forall>k < 2. selector (b_child ex_batch k) pre (\<lambda>r. k = 0 \<and> r = 0)" for pre
    by (auto simp: less_2_cases_iff)
  moreover have "select_ready 2 (SelFixed None) (Some (Some [5, 5])) None"
    by (auto simp: select_ready_def outputs_ready_def ref_ok_def select_init_def ref_index_def get_index_def)
  ultimately show ?thesis by (simp add: batch_ok_def) (simp add: ex_batch_def)
qed

theorem adaptive_conjunction_filters_witness:
  "\<exists>ts fs af. run_batches (\<lambda>_. 0) (\<lambda>x. x) False [ex_batch] (AdaptiveFilter_init [False, False]) = Inr ([(1, ts, fs)], af) \<and>
     (\<exists>ys. ts = Some (Some ys) \<and> sel_rows (Some ys) 1 = [0])"
proof -
  let ?P = "\<lambda>r :: nat. \<exists>k < Suc (Suc 0). k = 0 \<and> r = 0"
  have ok: "list_all2 (batch_ok (length [False, False])) [\<lambda>k r. k = 0 \<and> r = 0] [ex_batch]"
    using ex_batch_ok by (simp add: numeral_2_eq_2)
  obtain rs af where rs: "run_batches (\<lambda>_. 0) (\<lambda>x. x) False [ex_batch] (AdaptiveFilter_init [False, False]) = Inr (rs, af)"
      "length rs = 1" "selects (ref_rows (b_sel ex_batch) (b_true ex_batch) (b_false ex_batch) (b_count ex_batch)) ?P
        (b_true ex_batch) (b_false ex_batch) (rs ! 0)"
    using adaptive_conjunction_filters [OF ok, of "\<lambda>_. 0" "\<lambda>x. x" False] by auto
  have P: "?P r \<longleftrightarrow> r = 0" for r by auto
  have rows: "filter ?P (ref_rows (b_sel ex_batch) (b_true ex_batch) (b_false ex_batch) (b_count ex_batch)) = [0]"
    unfolding P by (simp add: ex_batch_def ref_rows_def ref_index_def get_index_def select_init_def upt_rec)
  obtain c ts fs where r: "rs = [(c, ts, fs)]" using rs(2) by (cases rs; cases "hd rs") auto
  have "c = 1" "holds (b_true ex_batch) ts [0]"
    using rs(3) unfolding r selects_def parts_def rows by simp_all
  then show ?thesis
    using rs(1) r by (auto simp: holds_def ex_batch_def)
qed

section \<open>An OR that is not asked for the passing rows\<close>

lemma or_loop_no_true: "or_loop child ks ref cc None fs tt rc = Inr (c, ts', fs') \<Longrightarrow> c = rc \<and> ts' = None"
proof (induction ks arbitrary: ref cc fs tt)
  case (Cons k ks)
  then show ?case by (auto simp: bindE_Inr_iff Let_def split: if_splits)
qed simp

text \<open>
  Without a true output \<open>Select\<close> of an OR returns 0, however many rows pass: the rows are only counted
  as they are copied. \<open>Select\<close> of an AND and \<open>DefaultSelect\<close> return the number of passing rows in that case.
\<close>

theorem or_without_true_sel:
  assumes "Select_Or junk child ks sel n None fs = Inr (c, ts', fs')"
  shows "c = 0 \<and> ts' = None"
  using assms or_loop_no_true by (fastforce simp: Select_Or_def Let_def bindE_Inr_iff)

definition ex_child :: "nat \<Rightarrow> filter_fn" where
  "ex_child k = DefaultSelect (\<lambda>_. 0) (\<lambda>rs. Inr (Constant BOOLEAN [CInt 1] (Mask_Reset 64)))"

theorem or_without_true_sel_witness:
  "\<exists>fs'. Select_Or (\<lambda>_. 0) ex_child [0, 1] (SelFixed None) 1 None (Some (Some [3])) = Inr (0, None, fs') \<and>
     ex_child 0 (SelFixed None) 1 None (Some (Some [3])) = Inr (1, None, Some (Some [3]))"
proof -
  have child: "ex_child 0 (SelFixed None) 1 None (Some fs) = Inr (1, None, Some fs)" for fs
    by (simp add: ex_child_def DefaultSelect_def ToUnifiedFormat_def DefaultSelectLoop_def Let_def branch_step_def select_init_def
        select_result_def ref_rows_def Mask_Reset_def AllValid_def ZeroSelectionVector_def get_index_def byte_true_def upt_rec)
  then obtain c ts' fs' where r: "Select_Or (\<lambda>_. 0) ex_child [0, 1] (SelFixed None) 1 None (Some (Some [3])) = Inr (c, ts', fs')"
    by (simp add: Select_Or_def Select_expression_def Let_def)
  then show ?thesis
    using or_without_true_sel [OF r] child by simp
qed

end
