(* ===== verification/Executor_Conjunction.thy ===== *)
theory Executor_Conjunction
  imports Execute_Operator Conjunction_Filter
begin

text \<open>
  The conjunction node (\<open>execute_conjunction.cpp\<close>) over children that may throw and that change the
  executor's state, its own adaptive filter included. As a projection it executes every child; as a filter
  it runs the children in the order of the adaptive filter, each on the rows that are not decided yet, so
  whether a child that throws is reached at all depends on that order. The loops are those of
  \<open>Expression_Select\<close> and \<open>Boolean_Operators\<close> with the state passed along.
\<close>

section \<open>Execute\<close>

definition conjunction_combine :: "('a vector_env_scheme) \<Rightarrow> ExpressionType \<Rightarrow> nat \<Rightarrow> Vector \<Rightarrow> nat \<Rightarrow> Vector \<Rightarrow> Vector result" where
  "conjunction_combine env et i current_result cnt res =
     (if i = 0 then Reference current_result res
      else
        bindE (if et = ET_CONJUNCTION_AND then VectorOperations_And (vjunk env) current_result res cnt (new_vector env BOOLEAN)
               else if et = ET_CONJUNCTION_OR then VectorOperations_Or (vjunk env) current_result res cnt (new_vector env BOOLEAN)
               else Inl InternalException) (\<lambda>intermediate. Reference intermediate res))"

fun conjunction_run ::
    "('a vector_env_scheme) \<Rightarrow> ExpressionType \<Rightarrow> (nat \<Rightarrow> LogicalType) \<Rightarrow> (nat \<Rightarrow> 'w exec_fn) \<Rightarrow> SelectionVector \<Rightarrow> nat \<Rightarrow> nat list \<Rightarrow> Vector
      \<Rightarrow> ('w, Vector) run" where
  "conjunction_run env et types exec sel cnt [] res = returnW res"
| "conjunction_run env et types exec sel cnt (i # is) res =
     bindW (exec i sel cnt (new_vector env (types i))) (\<lambda>current_result.
     bindW (liftW (conjunction_combine env et i current_result cnt res)) (\<lambda>res.
       conjunction_run env et types exec sel cnt is res))"

section \<open>Select\<close>

fun and_run ::
    "(nat \<Rightarrow> 'w select_fn) \<Rightarrow> nat \<Rightarrow> nat list \<Rightarrow> selref \<Rightarrow> nat \<Rightarrow> SelectionVector \<Rightarrow> SelectionVector option \<Rightarrow> SelectionVector option \<Rightarrow> nat
      \<Rightarrow> ('w, nat \<times> SelectionVector \<times> SelectionVector option) run" where
  "and_run select cnt [] ref current_count ts fs tf failed = returnW (current_count, ts, fs)"
| "and_run select cnt (k # ks) ref current_count ts fs tf failed =
     bindW (select k (if ref = SelFalse then SelFixed (the fs) else ref) current_count (Some ts) tf)
       (\<lambda>(tcount, ts', tf').
         let ts = the ts';
             fcount = current_count - tcount;
             (fs, failed) =
               (if fcount > 0 \<and> fs \<noteq> None
                then (map_option (append_rows (the tf') fcount failed) fs, failed + fcount)
                else (fs, failed)) in
         if tcount = 0 then returnW (0, ts, fs)
         else and_run select cnt ks (if tcount < cnt then SelTrue else ref) tcount ts fs tf' failed)"

fun or_run ::
    "(nat \<Rightarrow> 'w select_fn) \<Rightarrow> nat list \<Rightarrow> selref \<Rightarrow> nat \<Rightarrow> SelectionVector option \<Rightarrow> SelectionVector \<Rightarrow> SelectionVector option \<Rightarrow> nat
      \<Rightarrow> ('w, nat \<times> SelectionVector option \<times> SelectionVector) run" where
  "or_run select [] ref current_count ts fs tt result_count = returnW (result_count, ts, fs)"
| "or_run select (k # ks) ref current_count ts fs tt result_count =
     bindW (select k (if ref = SelTrue then SelFixed (the ts) else ref) current_count tt (Some fs))
       (\<lambda>(tcount, tt', fs').
         let fs = the fs' in
         if tcount > 0 then
           let (ts, result_count) =
             (if ts \<noteq> None then (map_option (append_rows (the tt') tcount result_count) ts, result_count + tcount)
              else (ts, result_count)) in
           or_run select ks SelFalse (current_count - tcount) ts fs tt' result_count
         else or_run select ks ref current_count ts fs tt' result_count)"

definition select_run :: "(nat \<Rightarrow> sel_t) \<Rightarrow> bool \<Rightarrow> (nat \<Rightarrow> 'w select_fn) \<Rightarrow> nat list \<Rightarrow> 'w select_fn" where
  "select_run junk is_and select ks sel cnt ts fs =
     (let temp = sel_Initialize junk STANDARD_VECTOR_SIZE in
      if is_and then
        bindW (and_run select cnt ks sel cnt (case ts of None \<Rightarrow> temp | Some s \<Rightarrow> s) fs (if fs \<noteq> None then Some temp else None) 0)
          (\<lambda>(c, true_sel, fs). returnW (c, if ts = None then None else Some true_sel, fs))
      else
        bindW (or_run select ks sel cnt ts (case fs of None \<Rightarrow> temp | Some s \<Rightarrow> s) (if ts \<noteq> None then Some temp else None) 0)
          (\<lambda>(result_count, ts, false_sel). returnW (result_count, map_option (sel_Sort result_count) ts, if fs = None then None else Some false_sel)))"

text \<open>
  \<open>get_filter\<close> and \<open>put_filter\<close> access the node's adaptive filter in the state; \<open>clock\<close> gives the random bits
  and the measured time for its update. An error of a child leaves the filter as it is.
\<close>

definition end_filter ::
    "(real \<Rightarrow> real) \<Rightarrow> ('w \<Rightarrow> AdaptiveFilter) \<Rightarrow> (AdaptiveFilter \<Rightarrow> 'w \<Rightarrow> 'w) \<Rightarrow> ('w, u64 \<times> real) run \<Rightarrow> ('w, unit) run" where
  "end_filter rnd get_filter put_filter clock =
     bindW clock (\<lambda>(bits, duration) w.
       case EndFilter rnd bits duration (get_filter w) of Inl e \<Rightarrow> (Inl e, w) | Inr af \<Rightarrow> (Inr (), put_filter af w))"

definition Select_conjunction_run ::
    "(real \<Rightarrow> real) \<Rightarrow> (nat \<Rightarrow> sel_t) \<Rightarrow> ('w \<Rightarrow> AdaptiveFilter) \<Rightarrow> (AdaptiveFilter \<Rightarrow> 'w \<Rightarrow> 'w) \<Rightarrow> ('w, u64 \<times> real) run \<Rightarrow> bool
      \<Rightarrow> (nat \<Rightarrow> 'w select_fn) \<Rightarrow> 'w select_fn" where
  "Select_conjunction_run rnd junk get_filter put_filter clock is_and select sel cnt ts fs w =
     bindW (select_run junk is_and select (permutation (get_filter w)) sel cnt ts fs) (\<lambda>r.
     bindW (end_filter rnd get_filter put_filter clock) (\<lambda>_. returnW r)) w"

section \<open>On children without a state\<close>

text \<open>With children that neither read nor change a state these are the loops of \<open>Expression_Select\<close> and \<open>Boolean_Operators\<close>.\<close>

lemma bindW_liftW: "bindW (liftW r) f = (case r of Inl e \<Rightarrow> liftW (Inl e) | Inr a \<Rightarrow> f a)"
  by (cases r) (simp_all add: bindW_def liftW_def fun_eq_iff)

lemma liftW_bindE: "liftW (bindE r f) = bindW (liftW r) (\<lambda>a. liftW (f a))"
  by (cases r) simp_all

lemma and_run_pure:
  "and_run (\<lambda>k ref n ts fs. liftW (Select_expression (child k) ref n ts fs)) cnt ks ref cc ts fs tf failed =
     liftW (and_loop child cnt ks ref cc ts fs tf failed)"
  by (induction ks arbitrary: ref cc ts fs tf failed)
    (auto simp: returnW_def liftW_def fun_eq_iff bindW_liftW liftW_bindE Let_def split: sum.splits prod.splits)

lemma or_run_pure:
  "or_run (\<lambda>k ref n ts fs. liftW (Select_expression (child k) ref n ts fs)) ks ref cc ts fs tt rc = liftW (or_loop child ks ref cc ts fs tt rc)"
  by (induction ks arbitrary: ref cc ts fs tt rc)
    (auto simp: returnW_def liftW_def fun_eq_iff bindW_liftW liftW_bindE Let_def split: sum.splits prod.splits)

section \<open>Outcomes\<close>

definition truth_value :: "cell option \<Rightarrow> int option" where
  "truth_value = map_option (\<lambda>c. of_bool (byte_true c))"

lemma truth_truth_value: "truth v i = truth_value (vec_row v i)"
  by (simp add: truth_def truth_value_def)

lemma is_true_truth: "is_true y \<longleftrightarrow> truth_value y = Some 1"
  by (cases y) (auto simp: is_true_def truth_value_def)

text \<open>
  An error of a child, or a value with the truth of the three-valued combination of values of the children.
  If some child can throw, an operand that decides the row may hide the error, depending on the order: the
  row may then count as decided (a child that has no outcome counts as one that can throw).
\<close>

definition hides :: "bool \<Rightarrow> outcome set list \<Rightarrow> cell option \<Rightarrow> bool" where
  "hides is_and As y \<longleftrightarrow>
     (\<exists>A \<in> set As. A = {} \<or> (\<exists>e. Inl e \<in> A)) \<and>
     (if is_and then \<not> is_true y \<and> (\<exists>A \<in> set As. can_fail A) else is_true y \<and> (\<exists>A \<in> set As. can_pass A))"

definition conj_out :: "bool \<Rightarrow> outcome set list \<Rightarrow> outcome set" where
  "conj_out is_and As =
     {Inl e | e. \<exists>A \<in> set As. Inl e \<in> A} \<union>
     {Inr y | y. (\<exists>ys. list_all2 (\<lambda>A y. Inr y \<in> A) As ys \<and> truth_value y = sql_all is_and (map truth_value ys)) \<or> hides is_and As y}"

lemma conj_out_value:
  assumes "list_all2 (\<lambda>A y. Inr y \<in> A) As ys"
  obtains y where "Inr y \<in> conj_out is_and As" "truth_value y = sql_all is_and (map truth_value ys)"
proof -
  have "\<exists>y. truth_value y = sql_all is_and (map truth_value ys)"
    using sql_all_range [of is_and "map truth_value ys"]
    by (auto simp: truth_value_def byte_true_def intro: exI [of _ None] exI [of _ "Some (CInt 0)"] exI [of _ "Some (CInt 1)"])
  then obtain y where y: "truth_value y = sql_all is_and (map truth_value ys)" by blast
  with assms have "Inr y \<in> conj_out is_and As" unfolding conj_out_def by blast
  with y show ?thesis using that by blast
qed

lemma values_choice:
  assumes "\<forall>A \<in> set As. A \<noteq> {} \<and> (\<forall>e. Inl e \<notin> A)" and "k < length As" "Inr y \<in> As ! k"
  shows "\<exists>ys. list_all2 (\<lambda>A y. Inr y \<in> A) As ys \<and> ys ! k = y"
proof -
  have "\<forall>A \<in> set As. \<exists>y. Inr y \<in> A" using assms(1) by (metis all_not_in_conv sum.exhaust)
  then obtain f where f: "\<forall>A \<in> set As. Inr (f A) \<in> A" by metis
  have "list_all2 (\<lambda>A y. Inr y \<in> A) As ((map f As)[k := y])"
    using f assms(2,3) by (auto simp: list_all2_conv_all_nth nth_list_update)
  then show ?thesis using assms(2) by (intro exI [of _ "(map f As)[k := y]"]) simp
qed

text \<open>What the decision of a filter on a row means for the outcomes of the conjunction.\<close>

lemma conj_all:
  assumes "\<forall>A \<in> set As. if is_and then can_pass A else can_fail A"
  shows "if is_and then can_pass (conj_out is_and As) else can_fail (conj_out is_and As)"
proof -
  have "\<forall>A \<in> set As. \<exists>y. Inr y \<in> A \<and> is_true y = is_and"
    using assms by (cases is_and) (auto simp: can_pass_def can_fail_def)
  then obtain f where f: "\<forall>A \<in> set As. Inr (f A) \<in> A \<and> is_true (f A) = is_and" by metis
  then have "list_all2 (\<lambda>A y. Inr y \<in> A) As (map f As)" by (auto simp: list_all2_conv_all_nth)
  then obtain y where y: "Inr y \<in> conj_out is_and As" "truth_value y = sql_all is_and (map truth_value (map f As))"
    by (rule conj_out_value)
  have "truth_value z \<in> {None, Some 0, Some 1}" for z by (cases z) (auto simp: truth_value_def)
  with f have "is_true y = is_and"
    unfolding is_true_truth y(2) by (cases is_and) (auto simp: sql_all_def image_iff)
  with y(1) show ?thesis by (auto simp: can_pass_def can_fail_def)
qed

lemma conj_some:
  assumes "A \<in> set As" and "if is_and then can_fail A else can_pass A"
  shows "if is_and then can_fail (conj_out is_and As) else can_pass (conj_out is_and As)"
proof (cases "\<exists>A \<in> set As. A = {} \<or> (\<exists>e. Inl e \<in> A)")
  case True
  have "is_true (Some (CInt 1))" "\<not> is_true None" by (simp_all add: is_true_def byte_true_def)
  with True assms have "hides is_and As (if is_and then None else Some (CInt 1))" by (auto simp: hides_def)
  then have "Inr (if is_and then None else Some (CInt 1)) \<in> conj_out is_and As" by (auto simp: conj_out_def)
  then show ?thesis by (auto simp: can_pass_def can_fail_def is_true_def byte_true_def split: if_splits)
next
  case False
  obtain y where y: "Inr y \<in> A" "is_true y = (\<not> is_and)" using assms(2) by (auto simp: can_pass_def can_fail_def split: if_splits)
  obtain k where k: "k < length As" "As ! k = A" using assms(1) by (auto simp: in_set_conv_nth)
  obtain ys where ys: "list_all2 (\<lambda>A y. Inr y \<in> A) As ys" "ys ! k = y"
    using values_choice [of As k y] False k y(1) by auto
  obtain z where z: "Inr z \<in> conj_out is_and As" "truth_value z = sql_all is_and (map truth_value ys)"
    using ys(1) by (rule conj_out_value)
  have mem: "y \<in> set ys" using ys k(1) by (auto dest: list_all2_lengthD)
  have "truth_value y \<in> {None, Some 0, Some 1}" by (cases y) (auto simp: truth_value_def)
  then have "is_true z = (\<not> is_and)"
    using y(2) imageI [OF mem, of truth_value] unfolding is_true_truth z(2) by (cases is_and) (auto simp: sql_all_def)
  with z(1) show ?thesis by (auto simp: can_pass_def can_fail_def)
qed

section \<open>Executing a conjunction\<close>

definition conj_so_far :: "bool \<Rightarrow> nat \<Rightarrow> Vector list \<Rightarrow> Vector \<Rightarrow> bool" where
  "conj_so_far is_and n vs res \<longleftrightarrow>
     GetType res = BOOLEAN \<and>
     (vs \<noteq> [] \<longrightarrow> vec_ok n res \<and> (\<forall>i < n. truth res i = sql_all is_and (map (\<lambda>v. truth v i) vs)))"

definition conj_type :: "bool \<Rightarrow> ExpressionType" where
  "conj_type is_and = (if is_and then ET_CONJUNCTION_AND else ET_CONJUNCTION_OR)"

lemma sql_conj_commute: "sql_conj a x y = sql_conj a y x"
  by (auto simp: sql_conj_def)

lemma combine_step:
  assumes "conj_so_far is_and n vs res" and "n \<le> STANDARD_VECTOR_SIZE" and "(vs = []) = (k = 0)" and v: "vec_ok n v" "GetType v = BOOLEAN"
  shows "\<exists>res'. conjunction_combine env (conj_type is_and) k v n res = Inr res' \<and> conj_so_far is_and n (vs @ [v]) res'"
proof (cases "vs = []")
  case True
  then show ?thesis
    using assms sql_all_single [OF truth_range] by (auto simp: conjunction_combine_def conj_so_far_def Reference_def ConstReference_def)
next
  case False
  then have res: "GetType res = BOOLEAN" "vec_ok n res" "\<forall>i < n. truth res i = sql_all is_and (map (\<lambda>v. truth v i) vs)" "k \<noteq> 0"
    using assms(1,3) by (auto simp: conj_so_far_def)
  obtain w where w: "(if is_and then VectorOperations_And (vjunk env) v res n (new_vector env BOOLEAN)
      else VectorOperations_Or (vjunk env) v res n (new_vector env BOOLEAN)) = Inr w" "Reference w res = Inr w" "vec_ok n w" "GetType w = BOOLEAN"
    "\<forall>i < n. truth w i = sql_conj is_and (truth v i) (truth res i)"
    using conjunction_step [OF v(1) res(2,1) assms(2)] by blast
  have "conjunction_combine env (conj_type is_and) k v n res = Inr w"
    using w(1,2) res(4) by (cases is_and) (simp_all add: conjunction_combine_def conj_type_def)
  moreover have "truth w i = sql_all is_and (map (\<lambda>v. truth v i) (vs @ [v]))" if "i < n" for i
  proof -
    have "set (truth v i # map (\<lambda>v. truth v i) vs) \<subseteq> {None, Some 0, Some 1}" using truth_range by (simp add: image_subset_iff)
    from sql_all_snoc [OF _ this, of is_and] False show ?thesis using w(5) res(3) that sql_conj_commute by simp
  qed
  ultimately show ?thesis using w(3,4) by (auto simp: conj_so_far_def)
qed

context children
begin

lemma conjunction_loop_yields:
  assumes sel: "sel_fits sel n" and rows: "rows_ok chunk_size (sel_rows sel n)"
    and "\<forall>k \<in> set ks. k < arity \<and> ty k = BOOLEAN \<and> (dense k \<longrightarrow> sel = None)"
    and "list_all2 (\<lambda>k. has_rows (ty k) (oc k) (sel_rows sel n)) ks0 vs0" "conj_so_far is_and n vs0 res"
    and "sorted_wrt (<) (ks0 @ ks)" "ks0 = [] \<longrightarrow> ks = [] \<or> hd ks = 0"
  shows "yields I (\<lambda>r. case r of
      Inl e \<Rightarrow> \<exists>x \<in> set (sel_rows sel n). \<exists>k \<in> set ks. Inl e \<in> oc k x
    | Inr v \<Rightarrow> \<exists>vs. list_all2 (\<lambda>k. has_rows (ty k) (oc k) (sel_rows sel n)) (ks0 @ ks) vs \<and> conj_so_far is_and n vs v)
    (conjunction_run env (conj_type is_and) ty exec sel n ks res)"
  using assms(3-)
proof (induction ks arbitrary: ks0 vs0 res)
  case Nil
  then show ?case by (auto intro!: yields_return)
next
  case (Cons k ks)
  note n = rows_ok_length [OF rows]
  have run: "yields I (evals (ty k) (oc k) (sel_rows sel n)) (exec k sel n (new_vector env (ty k)))"
    using Cons.prems(1) by (intro exec_fresh sel rows) auto
  have first: "(vs0 = []) = (k = 0)"
  proof
    assume "vs0 = []"
    then show "k = 0" using Cons.prems(2,5) by auto
  next
    assume "k = 0"
    then have "ks0 = []" using Cons.prems(4) by (cases ks0) (auto simp: sorted_wrt_append)
    then show "vs0 = []" using Cons.prems(2) by auto
  qed
  show ?case
    unfolding conjunction_run.simps
  proof (rule yields_bind [OF run])
    fix v assume "evals (ty k) (oc k) (sel_rows sel n) (Inr v)"
    then have v: "has_rows (ty k) (oc k) (sel_rows sel n) v" "GetType v = BOOLEAN" "vec_ok n v"
      using Cons.prems(1) by (simp_all add: has_rows_def)
    obtain res' where res': "conjunction_combine env (conj_type is_and) k v n res = Inr res'" "conj_so_far is_and n (vs0 @ [v]) res'"
      using combine_step [OF Cons.prems(3) _ first v(3,2), of env] n by auto
    have vs: "list_all2 (\<lambda>k. has_rows (ty k) (oc k) (sel_rows sel n)) (ks0 @ [k]) (vs0 @ [v])"
      using Cons.prems(2) v(1) by (simp add: list_all2_appendI)
    have ih: "yields I (\<lambda>r. case r of
        Inl e \<Rightarrow> \<exists>x \<in> set (sel_rows sel n). \<exists>k' \<in> set ks. Inl e \<in> oc k' x
      | Inr v \<Rightarrow> \<exists>vs. list_all2 (\<lambda>k. has_rows (ty k) (oc k) (sel_rows sel n)) ((ks0 @ [k]) @ ks) vs \<and> conj_so_far is_and n vs v)
      (conjunction_run env (conj_type is_and) ty exec sel n ks res')"
      by (rule Cons.IH [OF _ vs res'(2)]) (use Cons.prems(1,4) in auto)
    show "yields I (\<lambda>r. case r of
        Inl e \<Rightarrow> \<exists>x \<in> set (sel_rows sel n). \<exists>k' \<in> set (k # ks). Inl e \<in> oc k' x
      | Inr v \<Rightarrow> \<exists>vs. list_all2 (\<lambda>k. has_rows (ty k) (oc k) (sel_rows sel n)) (ks0 @ k # ks) vs \<and> conj_so_far is_and n vs v)
      (bindW (liftW (conjunction_combine env (conj_type is_and) k v n res)) (\<lambda>res. conjunction_run env (conj_type is_and) ty exec sel n ks res))"
      unfolding res'(1) bindW_lift by (rule yields_mono [OF ih]) (simp split: sum.splits, blast)
  qed auto
qed

lemma Execute_conjunction_yields:
  assumes sel: "sel_fits sel n" and rows: "rows_ok chunk_size (sel_rows sel n)" and res: "GetType res = BOOLEAN"
    and kids: "0 < nch" "\<forall>k < nch. k < arity \<and> ty k = BOOLEAN \<and> (dense k \<longrightarrow> sel = None)"
  shows "yields I (evals BOOLEAN (\<lambda>x. conj_out is_and (map (\<lambda>k. oc k x) [0..<nch])) (sel_rows sel n))
    (conjunction_run env (conj_type is_and) ty exec sel n [0..<nch] res)"
proof -
  let ?rows = "sel_rows sel n"
  have loop: "yields I (\<lambda>r. case r of
      Inl e \<Rightarrow> \<exists>x \<in> set ?rows. \<exists>k \<in> set [0..<nch]. Inl e \<in> oc k x
    | Inr v \<Rightarrow> \<exists>vs. list_all2 (\<lambda>k. has_rows (ty k) (oc k) ?rows) ([] @ [0..<nch]) vs \<and> conj_so_far is_and n vs v)
    (conjunction_run env (conj_type is_and) ty exec sel n [0..<nch] res)"
    by (rule conjunction_loop_yields [OF sel rows, where ?vs0.0 = "[]" and ?ks0.0 = "[]"]) (use kids res in \<open>auto simp: conj_so_far_def\<close>)
  show ?thesis
  proof (rule yields_mono [OF loop])
    fix r assume r: "case r of
      Inl e \<Rightarrow> \<exists>x \<in> set ?rows. \<exists>k \<in> set [0..<nch]. Inl e \<in> oc k x
    | Inr v \<Rightarrow> \<exists>vs. list_all2 (\<lambda>k. has_rows (ty k) (oc k) ?rows) ([] @ [0..<nch]) vs \<and> conj_so_far is_and n vs v"
    show "evals BOOLEAN (\<lambda>x. conj_out is_and (map (\<lambda>k. oc k x) [0..<nch])) ?rows r"
    proof (cases r)
      case (Inl e)
      with r show ?thesis by (fastforce simp: conj_out_def)
    next
      case (Inr v)
      then obtain vs where vs: "list_all2 (\<lambda>k. has_rows (ty k) (oc k) ?rows) [0..<nch] vs" "conj_so_far is_and n vs v" using r by auto
      have "vs \<noteq> []" using vs(1) kids(1) by (auto dest: list_all2_lengthD)
      with vs(2) have v: "GetType v = BOOLEAN" "vec_ok n v" "\<forall>i < n. truth v i = sql_all is_and (map (\<lambda>v. truth v i) vs)"
        by (auto simp: conj_so_far_def)
      have "Inr (vec_row v i) \<in> conj_out is_and (map (\<lambda>k. oc k (?rows ! i)) [0..<nch])" if i: "i < n" for i
      proof -
        have "list_all2 (\<lambda>A y. Inr y \<in> A) (map (\<lambda>k. oc k (?rows ! i)) [0..<nch]) (map (\<lambda>v. vec_row v i) vs)"
          using vs(1) i by (auto simp: list_all2_conv_all_nth has_rows_def)
        moreover have "truth_value (vec_row v i) = sql_all is_and (map truth_value (map (\<lambda>v. vec_row v i) vs))"
          using v(3) i by (simp add: truth_truth_value o_def)
        ultimately show ?thesis unfolding conj_out_def by blast
      qed
      with Inr v show ?thesis by simp
    qed
  qed
qed

end

section \<open>Filtering by a conjunction\<close>

text \<open>The decision \<open>P\<close> on the rows is one that the outcomes of the children in \<open>K\<close> allow.\<close>

definition decided :: "(nat \<Rightarrow> nat \<Rightarrow> outcome set) \<Rightarrow> bool \<Rightarrow> nat set \<Rightarrow> nat list \<Rightarrow> (nat \<Rightarrow> bool) \<Rightarrow> bool" where
  "decided oc is_and K R P \<longleftrightarrow>
     (\<forall>x \<in> set R. if P x = is_and then \<forall>k \<in> K. (if is_and then can_pass (oc k x) else can_fail (oc k x))
        else \<exists>k \<in> K. (if is_and then can_fail (oc k x) else can_pass (oc k x)))"

definition conj_yield ::
    "(nat \<Rightarrow> nat \<Rightarrow> outcome set) \<Rightarrow> bool \<Rightarrow> nat set \<Rightarrow> nat list \<Rightarrow> SelectionVector option \<Rightarrow> SelectionVector option \<Rightarrow> select_output result \<Rightarrow> bool" where
  "conj_yield oc is_and K R ts fs r \<longleftrightarrow>
     (case r of
        Inl e \<Rightarrow> (\<exists>x \<in> set R. \<exists>k \<in> K. Inl e \<in> oc k x)
      | Inr out \<Rightarrow> (\<exists>P. parts R P ts fs out \<and> decided oc is_and K R P))"

lemma parts_cong: "parts R P ts fs out \<Longrightarrow> (\<And>x. x \<in> set R \<Longrightarrow> P x = P' x) \<Longrightarrow> parts R P' ts fs out"
  by (auto simp: parts_def cong: filter_cong)

lemma parts_trans:
  assumes "parts R P ts1 fs1 out" and "holds ts ts1 rs" "holds fs fs1 rs'"
  shows "parts R P ts fs out"
  using assms holds_trans by (auto simp: parts_def)

lemma ref_sel_rows: "sel_rows (ref_sel ref ts fs) n = ref_rows ref ts fs n"
  by (cases ref) (auto simp: ref_sel_def ref_rows_def ref_index_def select_init_def sel_rows_def)

text \<open>One more child: the rows in play are those it decides for, the others are decided.\<close>

lemma decided_step:
  assumes "decided oc is_and K R D" and "\<forall>x \<in> set R. D x = is_and \<longrightarrow> (if Q x then can_pass (oc k x) else can_fail (oc k x))"
  shows "decided oc is_and (insert k K) R (\<lambda>x. if is_and then D x \<and> Q x else D x \<or> Q x)"
  using assms unfolding decided_def by (cases is_and) (simp_all, (metis (mono_tags))+)

context children
begin

definition conj_kids :: "nat list \<Rightarrow> bool" where
  "conj_kids ks \<longleftrightarrow> (\<forall>k \<in> set ks. k < arity \<and> ty k = BOOLEAN \<and> \<not> dense k)"

lemma select_child:
  assumes "k < arity" "ty k = BOOLEAN" "\<not> dense k" and R: "rows_ok chunk_size R" and "select_ready n ref ts fs" "ts \<noteq> None" "sel_fits (ref_sel ref ts fs) n"
    and cur: "mset (ref_rows ref ts fs n) = mset (filter D R)"
  shows "yields I (filters (oc k) (ref_rows ref ts fs n) ts fs) (select k ref n ts fs)"
proof (cases "n = 0")
  case True
  have "holds ts ts []" "holds fs fs []"
    using select_readyD(2,3) [OF assms(5)] by (auto simp: holds_def split: option.splits)
  with True show ?thesis
    unfolding select_none [OF assms(1)] True by (auto simp: parts_def ref_rows_def intro!: yields_return)
next
  case False
  have "ref_rows ref ts fs n \<noteq> []" using False by (simp flip: length_greater_0_conv)
  moreover have "distinct (ref_rows ref ts fs n)" using cur R by (metis rows_ok_def distinct_filter mset_eq_imp_distinct_iff)
  moreover have "set (ref_rows ref ts fs n) \<subseteq> set R" using cur by (metis mset_eq_setD filter_is_subset)
  ultimately have "rows_ok chunk_size (ref_rows ref ts fs n)" by (rule rows_ok_sub [OF R])
  with select_ok [OF assms(1,2)] assms(3,5-7) show ?thesis by blast
qed

lemma and_run_yields:
  assumes R: "rows_ok chunk_size R" and "conj_kids ks" "ks \<noteq> []" and "and_inv R D ref cc ts fs tf fc" and "decided oc True K R D"
    and "sel_fits (ref_sel ref (Some ts) fs) (length R)"
  shows "yields I (\<lambda>r. conj_yield oc True (K \<union> set ks) R (Some ts) fs (case r of Inl e \<Rightarrow> Inl e | Inr (c, ts', fs') \<Rightarrow> Inr (c, Some ts', fs')))
    (and_run select (length R) ks ref cc ts fs tf fc)"
  using assms(2-)
proof (induction ks arbitrary: K D ref cc ts fs tf fc)
  case (Cons k ks)
  let ?ref = "if ref = SelFalse then SelFixed (the fs) else ref" and ?rows = "ref_rows ref (Some ts) fs cc"
  let ?Y = "\<lambda>K ts fs r. conj_yield oc True K R (Some ts) fs (case r of Inl e \<Rightarrow> Inl e | Inr (c, ts', fs') \<Rightarrow> Inr (c, Some ts', fs'))"
  note inv = Cons.prems(3)
  have k: "k < arity" "ty k = BOOLEAN" "\<not> dense k" "conj_kids ks" using Cons.prems(1) by (auto simp: conj_kids_def)
  have small: "\<forall>x \<in> set R. x < 2 ^ 32" using R by (auto simp: rows_ok_def)
  have fits: "sel_fits (ref_sel ?ref (Some ts) tf) cc"
    using Cons.prems(5) and_invD(3) [OF inv] by (cases ref) (auto simp: sel_fits_def ref_sel_def split: option.splits)
  have sub: "set ?rows \<subseteq> set R" by (rule rows_bound(1) [OF and_invD(1) [OF inv] small])
  have run: "yields I (filters (oc k) ?rows (Some ts) tf) (select k ?ref cc (Some ts) tf)"
    using select_child [OF k(1-3) R and_ready [OF inv small] _ fits, of D] and_invD(1) [OF inv] unfolding and_rows by simp
  show ?case
    unfolding and_run.simps
  proof (rule yields_bind [OF run])
    show "?Y (K \<union> set (k # ks)) ts fs (Inl e)" if "filters (oc k) ?rows (Some ts) tf (Inl e)" for e
      using that sub by (auto simp: conj_yield_def)
    fix out assume out: "filters (oc k) ?rows (Some ts) tf (Inr out)"
    obtain tcount ts' tf' where o: "out = (tcount, ts', tf')" by (cases out)
    then obtain Q where Q: "parts ?rows Q (Some ts) tf (tcount, ts', tf')" "\<forall>x \<in> set ?rows. if Q x then can_pass (oc k x) else can_fail (oc k x)"
      using out by auto
    let ?fs = "map_option (append_rows (the tf') (cc - tcount) fc) fs" and ?fc = "if fs = None then fc else fc + (cc - tcount)"
    let ?D = "\<lambda>r. D r \<and> Q r"
    note step = and_step [OF inv Q(1)]
    obtain tys where ts': "ts' = Some tys" using step(2) by (auto simp: holds_def split: option.splits)
    have outs: "(if cc - tcount > 0 \<and> fs \<noteq> None then (map_option (append_rows (the tf') (cc - tcount) fc) fs, fc + (cc - tcount)) else (fs, fc)) = (?fs, ?fc)"
      by (cases fs) auto
    have "set ?rows = {x \<in> set R. D x}" using mset_eq_setD [OF and_invD(1) [OF inv]] by auto
    then have dec: "decided oc True (insert k K) R ?D"
      using decided_step [OF Cons.prems(4), of Q k] Q(2) by simp
    have parts: "parts R ?D (Some ts) fs (tcount, Some tys, ?fs)" using step(2-4) ts' by (simp add: parts_def)
    show "yields I (?Y (K \<union> set (k # ks)) ts fs) (case out of (tcount, ts', tf') \<Rightarrow>
         let ts = the ts'; fcount = cc - tcount;
             (fs, failed) = (if fcount > 0 \<and> fs \<noteq> None then (map_option (append_rows (the tf') fcount fc) fs, fc + fcount) else (fs, fc)) in
         if tcount = 0 then returnW (0, ts, fs)
         else and_run select (length R) ks (if tcount < length R then SelTrue else ref) tcount ts fs tf' failed)"
      unfolding o prod.case Let_def outs ts' option.sel
    proof (cases "tcount = 0 \<or> ks = []")
      case True
      have "decided oc True (K \<union> set (k # ks)) R ?D"
      proof (cases "ks = []")
        case False
        with True have "\<not> ?D x" if "x \<in> set R" for x using step(4) that by (auto simp: filter_empty_conv)
        with dec show ?thesis by (auto simp: decided_def)
      qed (use dec in simp)
      with parts have "?Y (K \<union> set (k # ks)) ts fs (Inr (tcount, tys, ?fs))" by (auto simp: conj_yield_def)
      with True show "yields I (?Y (K \<union> set (k # ks)) ts fs) (if tcount = 0 then returnW (0, tys, ?fs)
          else and_run select (length R) ks (if tcount < length R then SelTrue else ref) tcount tys ?fs tf' ?fc)"
        by (auto intro!: yields_return)
    next
      case False
      let ?ref' = "if tcount < length R then SelTrue else ref"
      have inv': "and_inv R ?D ?ref' tcount tys ?fs tf' ?fc" using step(1) ts' by simp
      have fits': "sel_fits (ref_sel ?ref' (Some tys) ?fs) (length R)"
      proof (cases "?ref' = SelTrue")
        case True
        have "\<exists>xs. tys = Some xs \<and> length R \<le> length xs" using and_invD(4) [OF inv'] .
        then show ?thesis unfolding True by (auto simp: ref_sel_def sel_fits_def)
      next
        case ref: False
        then have eq: "?ref' = ref" "ref \<noteq> SelTrue" by (auto split: if_splits)
        show ?thesis
        proof (cases ref)
          case SelFalse
          then have "?fs \<noteq> None" using inv' eq(1) by (auto simp: and_inv_def)
          then obtain s' where s': "?fs = Some s'" by blast
          then have "\<exists>xs. s' = Some xs \<and> length R \<le> length xs" using inv' unfolding and_inv_def s' by auto
          with SelFalse s' show ?thesis unfolding eq(1) by (auto simp: ref_sel_def sel_fits_def)
        qed (use Cons.prems(5) eq in \<open>auto simp: ref_sel_def\<close>)
      qed
      have "yields I (?Y (insert k K \<union> set ks) tys ?fs) (and_run select (length R) ks ?ref' tcount tys ?fs tf' ?fc)"
        by (rule Cons.IH [OF k(4) _ inv' dec fits']) (use False in simp)
      then have "yields I (?Y (K \<union> set (k # ks)) ts fs) (and_run select (length R) ks ?ref' tcount tys ?fs tf' ?fc)"
      proof (rule yields_mono)
        fix r assume "?Y (insert k K \<union> set ks) tys ?fs r"
        with step(2,3) ts' show "?Y (K \<union> set (k # ks)) ts fs r"
          by (auto simp: conj_yield_def split: sum.splits prod.splits) (use parts_trans in blast)
      qed
      with False show "yields I (?Y (K \<union> set (k # ks)) ts fs) (if tcount = 0 then returnW (0, tys, ?fs)
          else and_run select (length R) ks ?ref' tcount tys ?fs tf' ?fc)" by simp
    qed
  qed
qed simp

lemma or_run_yields:
  assumes R: "rows_ok chunk_size R" and "conj_kids ks" "ks \<noteq> []" and "and_inv R (\<lambda>r. \<not> D r) (swap_ref ref) cc fs ts tt rc" and "ts \<noteq> None"
    and "decided oc False K R D" and "sel_fits (ref_sel ref ts (Some fs)) (length R)"
  shows "yields I (\<lambda>r. conj_yield oc False (K \<union> set ks) R ts (Some fs) (case r of Inl e \<Rightarrow> Inl e | Inr (c, ts', fs') \<Rightarrow> Inr (c, ts', Some fs')))
    (or_run select ks ref cc ts fs tt rc)"
  using assms(2-)
proof (induction ks arbitrary: K D ref cc ts fs tt rc)
  case (Cons k ks)
  let ?ref = "if ref = SelTrue then SelFixed (the ts) else ref" and ?rows = "ref_rows (swap_ref ref) (Some fs) ts cc"
  let ?Y = "\<lambda>K ts fs r. conj_yield oc False K R ts (Some fs) (case r of Inl e \<Rightarrow> Inl e | Inr (c, ts', fs') \<Rightarrow> Inr (c, ts', Some fs'))"
  note inv = Cons.prems(3)
  have k: "k < arity" "ty k = BOOLEAN" "\<not> dense k" "conj_kids ks" using Cons.prems(1) by (auto simp: conj_kids_def)
  have small: "\<forall>x \<in> set R. x < 2 ^ 32" using R by (auto simp: rows_ok_def)
  note ready = or_ready [OF inv small]
  have tt: "tt \<noteq> None" using inv Cons.prems(4) by (auto simp: and_inv_def)
  have fits: "sel_fits (ref_sel ?ref tt (Some fs)) cc"
    using Cons.prems(6) and_invD(3) [OF inv] by (cases ref) (auto simp: sel_fits_def ref_sel_def split: option.splits)
  have sub: "set ?rows \<subseteq> set R" by (rule rows_bound(1) [OF and_invD(1) [OF inv] small])
  have run: "yields I (filters (oc k) ?rows tt (Some fs)) (select k ?ref cc tt (Some fs))"
    using select_child [OF k(1-3) R ready(1) tt fits, of "\<lambda>r. \<not> D r"] and_invD(1) [OF inv] unfolding ready(2) by simp
  show ?case
    unfolding or_run.simps
  proof (rule yields_bind [OF run])
    show "?Y (K \<union> set (k # ks)) ts fs (Inl e)" if "filters (oc k) ?rows tt (Some fs) (Inl e)" for e
      using that sub by (auto simp: conj_yield_def)
    fix out assume out: "filters (oc k) ?rows tt (Some fs) (Inr out)"
    obtain tcount tt' fs' where o: "out = (tcount, tt', fs')" by (cases out)
    then obtain Q where Q: "parts ?rows Q tt (Some fs) (tcount, tt', fs')" "\<forall>x \<in> set ?rows. if Q x then can_pass (oc k x) else can_fail (oc k x)"
      using out by auto
    let ?ts = "map_option (append_rows (the tt') tcount rc) ts" and ?ref' = "if tcount > 0 then SelFalse else ref"
    let ?D = "\<lambda>r. D r \<or> Q r"
    note step = or_step [OF inv Cons.prems(4) Q(1)]
    obtain fys where fs': "fs' = Some fys" using step(2) by (auto simp: holds_def split: option.splits)
    have "set ?rows = {x \<in> set R. \<not> D x}" using mset_eq_setD [OF and_invD(1) [OF inv]] by auto
    then have dec: "decided oc False (insert k K) R ?D"
      using decided_step [OF Cons.prems(5), of Q k] Q(2) by simp
    have parts: "parts R ?D ts (Some fs) (rc + tcount, ?ts, Some fys)" using step(2-4) fs' by (simp add: parts_def)
    have inv': "and_inv R (\<lambda>r. \<not> ?D r) (swap_ref ?ref') (cc - tcount) fys ?ts tt' (rc + tcount)" using step(1) fs' by simp
    obtain s0 where s0: "?ts = Some s0" using Cons.prems(4) by auto
    have long: "\<exists>xs. fys = Some xs \<and> length R \<le> length xs" "\<exists>xs. s0 = Some xs \<and> length R \<le> length xs"
      using and_invD(4) [OF inv'] inv' unfolding and_inv_def s0 by auto
    have fits': "sel_fits (ref_sel ?ref' ?ts (Some fys)) (length R)"
      using long Cons.prems(6) by (cases ref) (auto simp: s0 ref_sel_def sel_fits_def)
    have rest: "yields I (?Y (K \<union> set (k # ks)) ts fs) (or_run select ks ?ref' (cc - tcount) ?ts fys tt' (rc + tcount))"
    proof (cases "ks = []")
      case True
      with dec parts have "?Y (K \<union> set (k # ks)) ts fs (Inr (rc + tcount, ?ts, fys))" by (auto simp: conj_yield_def)
      with True show ?thesis by (auto intro!: yields_return)
    next
      case False
      have "yields I (?Y (insert k K \<union> set ks) ?ts fys) (or_run select ks ?ref' (cc - tcount) ?ts fys tt' (rc + tcount))"
        by (rule Cons.IH [OF k(4) False inv' _ dec fits']) (use Cons.prems(4) in simp)
      then show ?thesis
      proof (rule yields_mono)
        fix r assume "?Y (insert k K \<union> set ks) ?ts fys r"
        with step(2,3) fs' show "?Y (K \<union> set (k # ks)) ts fs r"
          by (auto simp: conj_yield_def split: sum.splits prod.splits) (use parts_trans in blast)
      qed
    qed
    have "ts \<noteq> None" by (rule Cons.prems(4))
    with rest show "yields I (?Y (K \<union> set (k # ks)) ts fs) (case out of (tcount, tt', fs') \<Rightarrow>
         let fs = the fs' in
         if tcount > 0 then
           let (ts, rc) = (if ts \<noteq> None then (map_option (append_rows (the tt') tcount rc) ts, rc + tcount) else (ts, rc)) in
           or_run select ks SelFalse (cc - tcount) ts fs tt' rc
         else or_run select ks ref cc ts fs tt' rc)"
      unfolding o prod.case Let_def fs' option.sel by (cases ts; cases "0 < tcount") simp_all
  qed
qed simp

lemma conj_yield_filters:
  assumes "conj_yield oc is_and (set ks) R ts fs r"
  shows "filters (\<lambda>x. conj_out is_and (map (\<lambda>k. oc k x) ks)) R ts fs r"
proof (cases r)
  case (Inl e)
  with assms show ?thesis by (fastforce simp: conj_yield_def conj_out_def)
next
  case (Inr out)
  then obtain P where P: "parts R P ts fs out" "decided oc is_and (set ks) R P" using assms by (auto simp: conj_yield_def)
  have "if P x then can_pass (conj_out is_and (map (\<lambda>k. oc k x) ks)) else can_fail (conj_out is_and (map (\<lambda>k. oc k x) ks))" if x: "x \<in> set R" for x
  proof (cases "P x = is_and")
    case True
    then have "\<forall>A \<in> set (map (\<lambda>k. oc k x) ks). if is_and then can_pass A else can_fail A" using P(2) x by (auto simp: decided_def)
    from conj_all [OF this] True show ?thesis by (cases is_and) auto
  next
    case False
    then have "\<exists>k \<in> set ks. if is_and then can_fail (oc k x) else can_pass (oc k x)"
      using bspec [OF P(2) [unfolded decided_def] x] by (simp only: if_False)
    then obtain k where "k \<in> set ks" "if is_and then can_fail (oc k x) else can_pass (oc k x)" by blast
    with conj_some [of "oc k x" "map (\<lambda>k. oc k x) ks" is_and] False show ?thesis by (cases is_and) auto
  qed
  with Inr P(1) show ?thesis by auto
qed

lemma select_run_yields:
  assumes R: "rows_ok chunk_size (ref_rows ref ts fs n)" and kids: "conj_kids ks" "ks \<noteq> []"
    and ready: "select_ready n ref ts fs" "ts \<noteq> None" "sel_fits (ref_sel ref ts fs) n"
  shows "yields I (conj_yield oc is_and (set ks) (ref_rows ref ts fs n) ts fs) (select_run junk is_and select ks ref n ts fs)"
proof -
  let ?R = "ref_rows ref ts fs n" and ?temp = "sel_Initialize junk STANDARD_VECTOR_SIZE"
  obtain s where s: "ts = Some s" using ready(2) by blast
  have n: "n \<le> STANDARD_VECTOR_SIZE" using rows_ok_length [OF R] by simp
  note rd = select_readyD [OF ready(1)]
  show ?thesis
  proof (cases is_and)
    case True
    let ?tf = "if fs \<noteq> None then Some ?temp else None"
    have "and_inv ?R (\<lambda>_. True) ref n s fs ?tf 0"
      using rd n unfolding and_inv_def length_ref_rows s by (cases fs) (auto simp: sel_Initialize_def)
    from and_run_yields [OF R kids this, of "{}"] ready(3)
    have "yields I (\<lambda>r. conj_yield oc True (set ks) ?R ts fs (case r of Inl e \<Rightarrow> Inl e | Inr (c, ts', fs') \<Rightarrow> Inr (c, Some ts', fs')))
        (and_run select n ks ref n s fs ?tf 0)"
      by (simp add: decided_def s)
    then have "yields I (conj_yield oc True (set ks) ?R ts fs) (bindW (and_run select n ks ref n s fs ?tf 0)
        (\<lambda>(c, true_sel, fs). returnW (c, Some true_sel, fs)))"
    proof (rule yields_bind)
      fix a assume "conj_yield oc True (set ks) ?R ts fs (case Inr a of Inl e \<Rightarrow> Inl e | Inr (c, ts', fs') \<Rightarrow> Inr (c, Some ts', fs'))"
      then show "yields I (conj_yield oc True (set ks) ?R ts fs) (case a of (c, ts', fs) \<Rightarrow> returnW (c, Some ts', fs))"
        by (cases a) (auto intro!: yields_return)
    qed (simp add: conj_yield_def)
    with True s show ?thesis by (simp add: select_run_def Let_def)
  next
    case False
    let ?fs = "case fs of None \<Rightarrow> ?temp | Some s \<Rightarrow> s"
    have rows: "ref_rows (swap_ref ref) (Some ?fs) ts n = ?R"
      using rd(5) by (cases ref; cases fs) (auto simp: ref_rows_def ref_index_def select_init_def)
    have inv: "and_inv ?R (\<lambda>r. \<not> False) (swap_ref ref) n ?fs ts (Some ?temp) 0"
      using rd rows n unfolding and_inv_def length_ref_rows s by (cases fs) (auto simp: sel_Initialize_def)
    have fits: "sel_fits (ref_sel ref ts (Some ?fs)) n" using ready(3) rd(5) by (cases ref; cases fs) (auto simp: ref_sel_def)
    from or_run_yields [OF R kids inv ready(2), of "{}"] fits
    have loop: "yields I (\<lambda>r. conj_yield oc False (set ks) ?R ts (Some ?fs) (case r of Inl e \<Rightarrow> Inl e | Inr (c, ts', fs') \<Rightarrow> Inr (c, ts', Some fs')))
        (or_run select ks ref n ts ?fs (Some ?temp) 0)"
      by (simp add: decided_def)
    have fin: "conj_yield oc False (set ks) ?R ts fs (Inr (c, map_option (sel_Sort c) ts', if fs = None then None else Some fs'))"
      if out: "conj_yield oc False (set ks) ?R ts (Some ?fs) (Inr (c, ts', Some fs'))" for c ts' fs'
    proof -
      obtain P where P: "parts ?R P ts (Some ?fs) (c, ts', Some fs')" "decided oc False (set ks) ?R P" using out by (auto simp: conj_yield_def)
      obtain xs ys where t: "ts = Some (Some xs)" "ts' = Some (Some ys)" "n \<le> length xs" "length ys = length xs"
        "mset (sel_rows (Some ys) c) = mset (filter P ?R)" "c = length (filter P ?R)"
        using P(1) rd(2) s by (auto simp: parts_def holds_def split: option.splits)
      have "c \<le> length ys" using t(3,4,6) length_filter_le [of P ?R] length_ref_rows by (metis le_trans)
      then obtain zs where "sel_Sort c (Some ys) = Some zs" "length zs = length ys" "mset (sel_rows (Some zs) c) = mset (sel_rows (Some ys) c)"
        using sel_Sort_ok by blast
      then have "parts ?R P ts fs (c, map_option (sel_Sort c) ts', if fs = None then None else Some fs')"
        using P(1) t by (cases fs) (auto simp: parts_def holds_def)
      with P(2) show ?thesis by (auto simp: conj_yield_def)
    qed
    have "yields I (conj_yield oc False (set ks) ?R ts fs) (bindW (or_run select ks ref n ts ?fs (Some ?temp) 0)
        (\<lambda>(c, ts', fs'). returnW (c, map_option (sel_Sort c) ts', if fs = None then None else Some fs')))"
    proof (rule yields_bind [OF loop])
      fix a assume "conj_yield oc False (set ks) ?R ts (Some ?fs) (case Inr a of Inl e \<Rightarrow> Inl e | Inr (c, ts', fs') \<Rightarrow> Inr (c, ts', Some fs'))"
      then show "yields I (conj_yield oc False (set ks) ?R ts fs)
          (case a of (c, ts', fs') \<Rightarrow> returnW (c, map_option (sel_Sort c) ts', if fs = None then None else Some fs'))"
        by (cases a) (auto intro!: yields_return fin simp del: map_option_case split del: if_split)
    qed (simp add: conj_yield_def)
    with False s show ?thesis by (simp add: select_run_def Let_def)
  qed
qed

end

section \<open>With the adaptive filter\<close>

text \<open>
  A conjunction of \<open>arity\<close> children whose state holds its adaptive filter: the invariant of the state says that
  the filter orders these children, and it survives the update of the filter.
\<close>

locale conjunction_node = children exec select I arity ty oc chunk_size roomy dense
  for exec :: "nat \<Rightarrow> 'w exec_fn" and select :: "nat \<Rightarrow> 'w select_fn" and I :: "'w \<Rightarrow> bool" and arity :: nat and ty :: "nat \<Rightarrow> LogicalType"
    and oc :: "nat \<Rightarrow> nat \<Rightarrow> outcome set" and chunk_size :: nat and roomy :: "nat \<Rightarrow> bool" and dense :: "nat \<Rightarrow> bool" +
  fixes get_filter :: "'w \<Rightarrow> AdaptiveFilter" and put_filter :: "AdaptiveFilter \<Rightarrow> 'w \<Rightarrow> 'w" and clock :: "('w, u64 \<times> real) run"
  assumes filter_kept: "0 < arity \<Longrightarrow> I w \<Longrightarrow> filter_ok arity (get_filter w)"
    and put_kept: "0 < arity \<Longrightarrow> I w \<Longrightarrow> filter_ok arity af \<Longrightarrow> I (put_filter af w)"
    and clock_ok: "0 < arity \<Longrightarrow> yields I (\<lambda>r. \<exists>bits d. r = Inr (bits, d) \<and> unat bits < 2 ^ 64 - 1024) clock"
    and arity_bound: "100 * (arity - 1) < 2 ^ 32"
begin

lemma end_filter_yields:
  assumes "0 < arity"
  shows "yields I (\<lambda>r. r = Inr ()) (end_filter rnd get_filter put_filter clock)"
  unfolding end_filter_def
proof (rule yields_bind [OF clock_ok [OF assms]])
  fix a assume "\<exists>bits d. Inr a = (Inr (bits, d) :: (u64 \<times> real) result) \<and> unat bits < 2 ^ 64 - 1024"
  then obtain bits d where a: "a = (bits, d)" "unat bits < 2 ^ 64 - 1024" by auto
  show "yields I (\<lambda>r. r = Inr ()) (case a of (bits, duration) \<Rightarrow> \<lambda>w.
      case EndFilter rnd bits duration (get_filter w) of Inl e \<Rightarrow> (Inl e, w) | Inr af \<Rightarrow> (Inr (), put_filter af w))"
    unfolding a prod.case yields_def
  proof (intro allI impI)
    fix w assume w: "I w"
    obtain af where "EndFilter rnd bits d (get_filter w) = Inr af" "filter_ok arity af"
      using EndFilter_ok [OF filter_kept [OF assms w] arity_bound a(2)] by blast
    with put_kept [OF assms w] show "fst (case EndFilter rnd bits d (get_filter w) of Inl e \<Rightarrow> (Inl e, w) | Inr af \<Rightarrow> (Inr (), put_filter af w)) = Inr () \<and>
        I (snd (case EndFilter rnd bits d (get_filter w) of Inl e \<Rightarrow> (Inl e, w) | Inr af \<Rightarrow> (Inr (), put_filter af w)))"
      by simp
  qed
qed auto

lemma Select_conjunction_yields:
  assumes R: "rows_ok chunk_size (ref_rows ref ts fs n)" and kids: "0 < arity" "\<forall>k < arity. ty k = BOOLEAN \<and> \<not> dense k"
    and ready: "select_ready n ref ts fs" "ts \<noteq> None" "sel_fits (ref_sel ref ts fs) n"
  shows "yields I (filters (\<lambda>x. conj_out is_and (map (\<lambda>k. oc k x) [0..<arity])) (ref_rows ref ts fs n) ts fs)
    (Select_conjunction_run rnd junk get_filter put_filter clock is_and select ref n ts fs)"
  unfolding yields_def
proof (intro allI impI)
  fix w assume w: "I w"
  let ?ks = "permutation (get_filter w)" and ?R = "ref_rows ref ts fs n"
  let ?F = "filters (\<lambda>x. conj_out is_and (map (\<lambda>k. oc k x) [0..<arity])) ?R ts fs"
  have perm: "mset ?ks = mset [0..<arity]" using filter_kept [OF kids(1) w] by (simp add: filter_ok_def)
  then have set: "set ?ks = set [0..<arity]" by (rule mset_eq_setD)
  have ks: "conj_kids ?ks" "?ks \<noteq> []" using kids set by (auto simp: conj_kids_def)
  have "yields I ?F (select_run junk is_and select ?ks ref n ts fs)"
  proof (rule yields_mono [OF select_run_yields [OF R ks ready, of is_and junk]])
    show "?F r" if "conj_yield oc is_and (set ?ks) ?R ts fs r" for r
      using that unfolding set by (rule conj_yield_filters)
  qed
  then have "yields I ?F (bindW (select_run junk is_and select ?ks ref n ts fs) (\<lambda>r. bindW (end_filter rnd get_filter put_filter clock) (\<lambda>_. returnW r)))"
  proof (rule yields_bind)
    show "yields I ?F (bindW (end_filter rnd get_filter put_filter clock) (\<lambda>_. returnW r))" if "?F (Inr r)" for r
      by (rule yields_bind [OF end_filter_yields [OF kids(1)]], simp) (rule yields_return, rule that)
  qed auto
  with w show "?F (fst (Select_conjunction_run rnd junk get_filter put_filter clock is_and select ref n ts fs w)) \<and>
      I (snd (Select_conjunction_run rnd junk get_filter put_filter clock is_and select ref n ts fs w))"
    by (simp add: yields_def Select_conjunction_run_def)
qed

end

end
