(* ===== verification/Expression_Properties.thy ===== *)
theory Expression_Properties
  imports Bound_Expressions
begin

text \<open>
  What the executor asks of an expression before it runs it (\<open>planner/expression.cpp\<close> and the overrides of the
  subclasses): whether it can throw, whether it gives the same value again, and whether it is a constant. All
  of them recurse over the children that \<open>ExpressionIterator::EnumerateChildren\<close> visits.
\<close>

section \<open>Children\<close>

text \<open>The children of a node in the order in which \<open>InitializeState\<close> adds them to \<open>child_states\<close>.\<close>

fun kids :: "Expression \<Rightarrow> Expression list" where
  "kids (BoundComparison et l r) = [l, r]"
| "kids (BoundConjunction et cs) = cs"
| "kids (BoundOperator et t cs) = cs"
| "kids (BoundFunction t f cs) = cs"
| "kids (BoundCast t try_cast c) = [c]"
| "kids (BoundCase t checks els) = concat (map (\<lambda>(w, t). [w, t]) checks) @ (case els of None \<Rightarrow> [] | Some e \<Rightarrow> [e])"
| "kids (BoundBetween li ui i l u) = [i, l, u]"
| "kids _ = []"

lemma kids_size: "c \<in> set (kids e) \<Longrightarrow> size c < size e"
proof (cases e)
  case (BoundCase t checks els)
  assume "c \<in> set (kids e)"
  then consider (check) w t' where "(w, t') \<in> set checks" "c = w \<or> c = t'" | (els) "els = Some c"
    using BoundCase by (auto split: option.splits)
  then show ?thesis
  proof cases
    case check
    have "size c \<le> size_prod size size (w, t')" using check(2) by auto
    also have "\<dots> < size_list (size_prod size size) checks + 1"
      using size_list_estimation' [OF check(1), of "size_prod size size (w, t')" "size_prod size size"] by simp
    finally show ?thesis using BoundCase by simp
  next
    case els
    then show ?thesis using BoundCase by simp
  qed
qed (auto dest!: size_list_estimation' [of _ _ _ size, OF _ le_refl])

section \<open>Errors and stability\<close>

text \<open>\<open>Expression::CanThrow\<close> and its overrides; \<open>force_max\<close> is \<open>LogicalType::ForceMaxLogicalType\<close>.\<close>

type_synonym force_max = "LogicalType \<Rightarrow> LogicalType \<Rightarrow> LogicalTypeId"

function CanThrow :: "force_max \<Rightarrow> Expression \<Rightarrow> bool" where
  "CanThrow force_max e \<longleftrightarrow>
     (case e of
        BoundFunction _ f _ \<Rightarrow> fn_can_throw f
      | BoundCast t _ c \<Rightarrow> lt_id t \<noteq> lt_id (return_type c) \<and> force_max t (return_type c) = lt_id (return_type c)
      | _ \<Rightarrow> False) \<or>
     (\<exists>c \<in> set (kids e). CanThrow force_max c)"
  by pat_completeness auto
termination
  by (relation "measure (\<lambda>(_, e). size e)") (auto dest!: kids_size)

declare CanThrow.simps [simp del]

function IsVolatile :: "Expression \<Rightarrow> bool" where
  "IsVolatile e \<longleftrightarrow>
     (case e of BoundFunction _ f _ \<Rightarrow> fn_stability f = FS_VOLATILE | _ \<Rightarrow> False) \<or> (\<exists>c \<in> set (kids e). IsVolatile c)"
  by pat_completeness auto
termination
  by (relation "measure size") (auto dest!: kids_size)

function IsConsistent :: "Expression \<Rightarrow> bool" where
  "IsConsistent e \<longleftrightarrow>
     (case e of BoundFunction _ f _ \<Rightarrow> fn_stability f = FS_CONSISTENT | _ \<Rightarrow> True) \<and> (\<forall>c \<in> set (kids e). IsConsistent c)"
  by pat_completeness auto
termination
  by (relation "measure size") (auto dest!: kids_size)

text \<open>References, parameters and the classes of \<open>OtherExpression\<close> (aggregates, windows, subqueries, \<dots>) are not constants.\<close>

function IsFoldable :: "Expression \<Rightarrow> bool" where
  "IsFoldable e \<longleftrightarrow>
     (case e of
        BoundReference _ _ \<Rightarrow> False
      | BoundColumnRef _ _ _ _ \<Rightarrow> False
      | BoundParameter _ _ \<Rightarrow> False
      | OtherExpression _ _ _ \<Rightarrow> False
      | BoundFunction _ f _ \<Rightarrow> \<not> fn_volatile_lambda f \<and> fn_stability f \<noteq> FS_VOLATILE
      | _ \<Rightarrow> True) \<and>
     (\<forall>c \<in> set (kids e). IsFoldable c)"
  by pat_completeness auto
termination
  by (relation "measure size") (auto dest!: kids_size)

declare IsVolatile.simps [simp del] IsConsistent.simps [simp del] IsFoldable.simps [simp del]

end
