(* ===== verification/Dictionary_Expression.thy ===== *)
theory Dictionary_Expression
  imports Executor_Conjunction Expression_Properties
begin

text \<open>
  Functions of a dictionary (\<open>execute_function.cpp\<close>). A function with one argument that is not a constant is run
  once on the dictionary of this argument, if the dictionary comes from storage, and the result is kept: batches
  with the same dictionary only look up their rows in it. The state of a function node is the kept result with
  the identifier of its dictionary.

  The lemmas show that this gives the rows that running the function on the batch gives, and that the kept
  result stays right from batch to batch.
\<close>

section \<open>State\<close>

record ExecuteFunctionState =
  input_col_idx :: "nat option"
  output_dictionary :: "Vector option"
  current_input_dictionary_id :: string

text \<open>The loop over the children: the one that is not a constant, unless there are two or it is a STRUCT.\<close>

fun find_input_col :: "Expression list \<Rightarrow> nat \<Rightarrow> nat option \<Rightarrow> nat option" where
  "find_input_col [] child_idx input_col = input_col"
| "find_input_col (child # cs) child_idx input_col =
     (if IsFoldable child then find_input_col cs (child_idx + 1) input_col
      else if input_col \<noteq> None then None
      else if phys child = PT_STRUCT then input_col
      else find_input_col cs (child_idx + 1) (Some child_idx))"

definition ExecuteFunctionState_init :: "force_max \<Rightarrow> Expression \<Rightarrow> ExecuteFunctionState" where
  "ExecuteFunctionState_init force_max expr =
     \<lparr>input_col_idx =
        (if \<not> IsConsistent expr \<or> IsVolatile expr \<or> CanThrow force_max expr then None
         else if phys expr = PT_STRUCT then None
         else case expr of BoundFunction _ _ cs \<Rightarrow> find_input_col cs 0 None | _ \<Rightarrow> None),
      output_dictionary = None, current_input_dictionary_id = ''''\<rparr>"

definition clear_dictionary :: "ExecuteFunctionState \<Rightarrow> ExecuteFunctionState" where
  "clear_dictionary st = st\<lparr>output_dictionary := None, current_input_dictionary_id := ''''\<rparr>"

section \<open>Running a function on a dictionary\<close>

definition MAX_DICTIONARY_SIZE_THRESHOLD :: nat where
  "MAX_DICTIONARY_SIZE_THRESHOLD = 20000"

text \<open>A call of the function's callback with its arguments and the number of rows.\<close>

type_synonym 'w call_fn = "Vector list \<Rightarrow> nat \<Rightarrow> Vector \<Rightarrow> ('w, Vector) run"

text \<open>The node's state lives in the executor's state; \<open>get\<close> and \<open>put\<close> access it.\<close>

definition write_dictionary ::
    "('w \<Rightarrow> ExecuteFunctionState) \<Rightarrow> (ExecuteFunctionState \<Rightarrow> 'w \<Rightarrow> 'w) \<Rightarrow> (Vector \<Rightarrow> Vector result) \<Rightarrow> ('w, unit) run" where
  "write_dictionary get put f w =
     (case output_dictionary (get w) of
        None \<Rightarrow> (Inl Undefined, w)
      | Some out \<Rightarrow>
          (case f out of
             Inl e \<Rightarrow> (Inl e, w)
           | Inr out \<Rightarrow> (Inr (), put ((get w)\<lparr>output_dictionary := Some out\<rparr>) w)))"

text \<open>
  The loop over the dictionary, at most a vector's size at a time: the part of the dictionary takes the place of
  the argument, and the function's result goes to the same place of the output.
\<close>

function fill_dictionary ::
    "('a vector_env_scheme) \<Rightarrow> ('w \<Rightarrow> ExecuteFunctionState) \<Rightarrow> (ExecuteFunctionState \<Rightarrow> 'w \<Rightarrow> 'w) \<Rightarrow> 'w call_fn \<Rightarrow> LogicalType \<Rightarrow> nat \<Rightarrow> Vector
      \<Rightarrow> Vector list \<Rightarrow> nat \<Rightarrow> nat \<Rightarrow> ('w, unit) run" where
  "fill_dictionary env get put call t col child args input_dictionary_size offset =
     (if offset < input_dictionary_size then
        let cnt = min (input_dictionary_size - offset) STANDARD_VECTOR_SIZE in
        bindW (liftW (bindE (Slice_range (sjunk env) child offset (offset + cnt) child) (\<lambda>offset_input. Reference offset_input (args ! col))))
          (\<lambda>offset_input.
        bindW (call (args[col := offset_input]) cnt (new_vector env t)) (\<lambda>output_intermediate.
        bindW (write_dictionary get put (Copy output_intermediate IncrementalSelectionVector cnt 0 offset)) (\<lambda>_.
          fill_dictionary env get put call t col child args input_dictionary_size (offset + STANDARD_VECTOR_SIZE))))
      else returnW ())"
  by pat_completeness auto
termination
  by (relation "measure (\<lambda>(_, _, _, _, _, _, _, _, input_dictionary_size, offset). input_dictionary_size - offset)") auto

declare fill_dictionary.simps [simp del]

text \<open>\<open>result.Dictionary(output_dictionary, sel)\<close>.\<close>

definition use_dictionary :: "('w \<Rightarrow> ExecuteFunctionState) \<Rightarrow> SelectionVector \<Rightarrow> Vector \<Rightarrow> ('w, bool \<times> Vector) run" where
  "use_dictionary get sel res w =
     (case output_dictionary (get w) of
        None \<Rightarrow> (Inl Undefined, w)
      | Some out \<Rightarrow> (Inr (True, Dictionary (GetType res) sel out), w))"

text \<open>
  \<open>tag\<close>: the size and the identifier of a dictionary that comes from storage (\<open>DictionaryVector::DictionarySize\<close> and
  \<open>DictionaryId\<close>). The result says whether the function was executed.
\<close>

definition TryExecuteDictionaryExpression ::
    "('a vector_env_scheme) \<Rightarrow> ('w \<Rightarrow> ExecuteFunctionState) \<Rightarrow> (ExecuteFunctionState \<Rightarrow> 'w \<Rightarrow> 'w) \<Rightarrow> (Vector \<Rightarrow> nat option \<times> string) \<Rightarrow> 'w call_fn
      \<Rightarrow> Vector list \<Rightarrow> nat \<Rightarrow> Vector \<Rightarrow> ('w, bool \<times> Vector) run" where
  "TryExecuteDictionaryExpression env get put tag call args cnt res w =
     (case input_col_idx (get w) of
        None \<Rightarrow> (Inr (False, res), w)
      | Some col \<Rightarrow>
          bindW (liftW (vec_at args col)) (\<lambda>unary_input.
            case unary_input of
              Dictionary _ sel child \<Rightarrow>
                (case tag unary_input of
                   (None, _) \<Rightarrow> returnW (False, res)
                 | (Some input_dictionary_size, input_dictionary_id) \<Rightarrow>
                     if input_dictionary_id = '''' then returnW (False, res)
                     else if input_dictionary_size \<ge> MAX_DICTIONARY_SIZE_THRESHOLD then returnW (False, res)
                     else if output_dictionary (get w) = None \<or> current_input_dictionary_id (get w) \<noteq> input_dictionary_id then
                       if input_dictionary_size > STANDARD_VECTOR_SIZE \<and> real cnt / real STANDARD_VECTOR_SIZE \<le> 1 / 2 then returnW (False, res)
                       else
                         bindW (\<lambda>w. (Inr (), put ((get w)
                             \<lparr>output_dictionary := Some (Vector_Initialize (vjunk env) (GetType res) input_dictionary_size),
                              current_input_dictionary_id := input_dictionary_id\<rparr>) w)) (\<lambda>_.
                         bindW (fill_dictionary env get put call (GetType res) col child args input_dictionary_size 0) (\<lambda>_.
                           use_dictionary get sel res))
                     else use_dictionary get sel res)
            | _ \<Rightarrow> returnW (False, res)) w)"

section \<open>Parts of a vector\<close>

text \<open>A part of a flat vector that starts at an entry of its mask.\<close>

lemma Slice_range_rows:
  assumes "vec_ok (offset + n) (Flat t d m)" and "IsAligned offset" and "GetType this = t"
  shows "\<exists>v. Slice_range junk (Flat t d m) offset (offset + n) this = Inr v \<and> GetType v = t \<and> vec_ok n v \<and>
    (\<forall>i < n. vec_row v i = vec_row (Flat t d m) (offset + i))"
proof (cases "offset = 0")
  case True
  with assms show ?thesis by (simp add: Slice_range_def Reference_def ConstReference_def)
next
  case False
  have "\<exists>m'. Mask_Slice m offset n m = Inr m' \<and> mask_wf m' \<and> n \<le> capacity m' \<and> (\<forall>i < n. RowIsValid m' i = RowIsValid m (offset + i))"
  proof (cases "AllValid m")
    case True
    with assms(1) show ?thesis by (auto simp: Mask_Slice_def AllValid_def RowIsValid_bit mask_wf_def)
  next
    case all: False
    with False Mask_SliceInPlace_rows [of "\<lparr>validity_mask = None, capacity = n\<rparr>" 0 n m offset] show ?thesis
      by (auto simp: Mask_Slice_def sliced_def)
  qed
  then obtain m' where "Mask_Slice m offset n m = Inr m'" "mask_wf m'" "n \<le> capacity m'" "\<forall>i < n. RowIsValid m' i = RowIsValid m (offset + i)"
    by blast
  with assms False show ?thesis by (auto simp: Slice_range_def Reference_def ConstReference_def)
qed

text \<open>Copying a vector to an aligned place of a flat one.\<close>

lemma Copy_at_rows:
  assumes v: "vec_ok n v" "GetType v = t" and n: "0 < n" "IsAligned offset" and td: "offset + n \<le> length td" "mask_wf tm" "offset + n \<le> capacity tm"
  shows "\<exists>td' tm'. Copy v IncrementalSelectionVector n 0 offset (Flat t td tm) = Inr (Flat t td' tm') \<and> length td' = length td \<and> mask_wf tm' \<and>
    capacity tm' = capacity tm \<and> (\<forall>i < offset. vec_row (Flat t td' tm') i = vec_row (Flat t td tm) i) \<and>
    (\<forall>i < n. vec_row (Flat t td' tm') (offset + i) = vec_row v i)"
proof -
  have t: "scalar_type t" using v(1) by (cases rule: vec_ok_cases) (use v in auto)
  let ?cs = "copy_source IncrementalSelectionVector n n v"
  have "\<exists>sel source tm'. ?cs = (sel, source) \<and> GetType source = t \<and> copy_mask sel source 0 offset n tm = Inr tm' \<and> mask_wf tm' \<and> capacity tm' = capacity tm \<and>
      (\<forall>r < capacity tm. RowIsValid tm' r = (if offset \<le> r \<and> r < offset + n then vec_row v (r - offset) \<noteq> None else RowIsValid tm r)) \<and>
      (\<forall>i < n. \<forall>c. vec_row v i = Some c \<longrightarrow> (case source of Flat t d m \<Rightarrow> d | Constant t d m \<Rightarrow> d | _ \<Rightarrow> []) ! get_index sel i = c)"
    using v(1)
  proof (cases rule: vec_ok_cases)
    case (Flat t' d m)
    with Mask_SliceInPlace_rows [of tm offset n m 0] td(2,3) n(2) v show ?thesis
      by (auto simp: IncrementalSelectionVector_def copy_mask_def CopySel_def IsAligned_def get_index_def sliced_def AllValid_def RowIsValid_bit)
  next
    case (Constant t' d m)
    have "get_index (ZeroSelectionVector n) i = 0" if "i < n" for i
      using that by (simp add: ZeroSelectionVector_def get_index_def)
    with Constant v td show ?thesis
      by (auto simp: copy_mask_def RowIsValid_copy_rows ConstantVector_IsNull_def)
  next
    case (Dictionary t' xs d m)
    then have "n \<le> length xs" using v(1) by simp
    then have "?cs = (Some (take n xs), Flat t d m)"
      using Dictionary v(2) by (simp add: IncrementalSelectionVector_def sel_Slice_identity)
    with CopySel_rows [of tm offset n m "\<lambda>i. unat (take n xs ! i)" 0] td(2,3) Dictionary v show ?thesis
      by (auto simp: copy_mask_def get_index_def)
  qed
  then obtain sel source tm' where src: "?cs = (sel, source)" "GetType source = t" "copy_mask sel source 0 offset n tm = Inr tm'" "mask_wf tm'"
    "capacity tm' = capacity tm"
    and valid: "\<forall>r < capacity tm. RowIsValid tm' r = (if offset \<le> r \<and> r < offset + n then vec_row v (r - offset) \<noteq> None else RowIsValid tm r)"
    and cells: "\<forall>i < n. \<forall>c. vec_row v i = Some c \<longrightarrow> (case source of Flat t d m \<Rightarrow> d | Constant t d m \<Rightarrow> d | _ \<Rightarrow> []) ! get_index sel i = c"
    by blast
  let ?d = "case source of Flat t d m \<Rightarrow> d | Constant t d m \<Rightarrow> d | _ \<Rightarrow> []"
  let ?c = "if constant_size_type (InternalType t) then \<lambda>_. True else RowIsValid tm'" and ?td = "\<lambda>c. copy_cells ?d sel 0 offset n c td"
  have copy: "Copy v IncrementalSelectionVector n 0 offset (Flat t td tm) = Inr (Flat t (?td ?c) tm')"
    using n(1) src t by (auto simp: Copy_def Copy_count_def Copy_flat_def scalar_type_def Let_def)
  have old: "vec_row (Flat t (?td ?c) tm') i = vec_row (Flat t td tm) i" if "i < offset" for i
    using that valid td nth_copy_cells [of offset n td i ?d sel 0 ?c] by auto
  have new: "vec_row (Flat t (?td ?c) tm') (offset + i) = vec_row v i" if "i < n" for i
    using that valid [rule_format, of "offset + i"] cells [rule_format, of i] td nth_copy_cells [of offset n td "offset + i" ?d sel 0 ?c]
    by (cases "vec_row v i") auto
  show ?thesis
    by (intro exI [of _ "?td ?c"] exI [of _ tm']) (use copy src(4,5) old new in simp)
qed

section \<open>The function's rows\<close>

text \<open>
  An identifier names a dictionary: \<open>dicts\<close> gives its values. What is known of a tagged dictionary vector: its child
  holds these values, and its rows refer to them.
\<close>

type_synonym dictionaries = "string \<Rightarrow> cell option list"

definition tag_ok :: "dictionaries \<Rightarrow> (Vector \<Rightarrow> nat option \<times> string) \<Rightarrow> Vector \<Rightarrow> bool" where
  "tag_ok dicts tag v \<longleftrightarrow>
     (case (v, tag v) of
        (Dictionary t sel child, (Some s, did)) \<Rightarrow>
          did \<noteq> '''' \<longrightarrow>
            s = length (dicts did) \<and> vec_ok s child \<and> (\<forall>i < s. vec_row child i = dicts did ! i) \<and>
            (\<forall>n i. vec_ok n v \<longrightarrow> i < n \<longrightarrow> get_index sel i < s)
      | _ \<Rightarrow> True)"

text \<open>The first \<open>k\<close> values of a dictionary are done: \<open>G\<close> gives the outcomes of the function for a value of the dictionary.\<close>

definition dictionary_rows :: "LogicalType \<Rightarrow> (cell option \<Rightarrow> outcome set) \<Rightarrow> cell option list \<Rightarrow> nat \<Rightarrow> Vector \<Rightarrow> bool" where
  "dictionary_rows t G dict k out \<longleftrightarrow>
     (\<exists>td tm. out = Flat t td tm) \<and> vec_ok (length dict) out \<and> (\<forall>i < k. i < length dict \<longrightarrow> Inr (vec_row out i) \<in> G (dict ! i))"

definition cache_ok :: "LogicalType \<Rightarrow> (cell option \<Rightarrow> outcome set) \<Rightarrow> dictionaries \<Rightarrow> ExecuteFunctionState \<Rightarrow> bool" where
  "cache_ok t G dicts st \<longleftrightarrow>
     (case output_dictionary st of
        None \<Rightarrow> True
      | Some out \<Rightarrow>
          let dict = dicts (current_input_dictionary_id st) in
          current_input_dictionary_id st \<noteq> '''' \<longrightarrow> dictionary_rows t G dict (length dict) out)"

lemma cache_ok_clear [simp]: "cache_ok t G dicts (clear_dictionary st)"
  by (simp add: cache_ok_def clear_dictionary_def)

lemma cache_ok_init [simp]: "cache_ok t G dicts (ExecuteFunctionState_init force_max e)"
  by (simp add: cache_ok_def ExecuteFunctionState_init_def)

text \<open>The arguments besides \<open>col\<close> are constants, with the values \<open>cvals\<close>.\<close>

definition constant_args :: "nat \<Rightarrow> cell option list \<Rightarrow> Vector list \<Rightarrow> bool" where
  "constant_args col cvals args \<longleftrightarrow>
     length args = length cvals \<and>
     (\<forall>k < length args. k \<noteq> col \<longrightarrow> (\<forall>n. vec_ok n (args ! k)) \<and> (\<forall>i. vec_row (args ! k) i = cvals ! k))"

lemma constant_args_row: "constant_args col cvals args \<Longrightarrow> map (\<lambda>v. vec_row v i) args = cvals[col := vec_row (args ! col) i]"
proof (rule nth_equalityI)
  fix k assume "constant_args col cvals args" "k < length (map (\<lambda>v. vec_row v i) args)"
  then show "map (\<lambda>v. vec_row v i) args ! k = cvals[col := vec_row (args ! col) i] ! k"
    by (cases "k = col") (auto simp: constant_args_def)
qed (simp add: constant_args_def)

lemma constant_args_part: "constant_args col cvals args \<Longrightarrow> constant_args col cvals (args[col := v])"
  by (auto simp: constant_args_def)

text \<open>When the dictionary is used: it comes from storage, and it is known, small, or the batch is more than half full.\<close>

definition dictionary_usable :: "(Vector \<Rightarrow> nat option \<times> string) \<Rightarrow> Vector list \<Rightarrow> nat \<Rightarrow> ExecuteFunctionState \<Rightarrow> bool" where
  "dictionary_usable tag args n st \<longleftrightarrow>
     (case input_col_idx st of
        None \<Rightarrow> False
      | Some col \<Rightarrow>
          GetVectorType (args ! col) = DICTIONARY_VECTOR \<and>
          (case tag (args ! col) of
             (None, _) \<Rightarrow> False
           | (Some s, did) \<Rightarrow>
               did \<noteq> '''' \<and> s < MAX_DICTIONARY_SIZE_THRESHOLD \<and>
               (output_dictionary st \<noteq> None \<and> current_input_dictionary_id st = did \<or> s \<le> STANDARD_VECTOR_SIZE \<or> STANDARD_VECTOR_SIZE < 2 * n)))"

lemma half_full: "real n / real STANDARD_VECTOR_SIZE \<le> 1 / 2 \<longleftrightarrow> \<not> STANDARD_VECTOR_SIZE < 2 * n"
  by (simp add: field_simps) linarith

text \<open>
  A function that works row by row, on at most \<open>limit\<close> rows at a time, and does not touch the state of its node.
\<close>

locale function_call =
  fixes call :: "'w call_fn" and I :: "'w \<Rightarrow> bool" and limit :: nat and tys :: "LogicalType list" and t :: LogicalType
    and F :: "cell option list \<Rightarrow> outcome set" and get :: "'w \<Rightarrow> ExecuteFunctionState" and put :: "ExecuteFunctionState \<Rightarrow> 'w \<Rightarrow> 'w"
  assumes call_ok:
    "0 < n \<Longrightarrow> n \<le> limit \<Longrightarrow> list_all2 (\<lambda>ty v. GetType v = ty \<and> vec_ok n v) tys args \<Longrightarrow> fresh_vec n res \<Longrightarrow> GetType res = t \<Longrightarrow>
     yields I (evals t (\<lambda>i. F (map (\<lambda>v. vec_row v i) args)) [0..<n]) (call args n res)"
    and call_keeps: "get (snd (call args n res w)) = get w"
    and get_put: "get (put st w) = st"
    and put_kept: "I w \<Longrightarrow> I (put st w)"
begin

lemma fill_ok:
  assumes limit: "limit = STANDARD_VECTOR_SIZE" and "scalar_type t" and errors: "\<And>ys e. Inl e \<notin> F ys"
    and child: "child = Flat tc d m" "vec_ok (length dict) child" "\<forall>i < length dict. vec_row child i = dict ! i"
    and args: "list_all2 (\<lambda>ty v. GetType v = ty \<and> vec_ok n v) tys args" "col < length args" "GetType (args ! col) = tc" "constant_args col cvals args"
    and "IsAligned offset" and w: "I w" "output_dictionary (get w) = Some out" "dictionary_rows t (\<lambda>y. F (cvals[col := y])) dict offset out"
  shows "\<exists>w' out'. fill_dictionary env get put call t col child args (length dict) offset w = (Inr (), w') \<and> I w' \<and>
    get w' = (get w)\<lparr>output_dictionary := Some out'\<rparr> \<and> dictionary_rows t (\<lambda>y. F (cvals[col := y])) dict (length dict) out'"
  using assms(11-)
proof (induction "length dict - offset" arbitrary: offset w out rule: less_induct)
  case less
  let ?G = "\<lambda>y. F (cvals[col := y])" and ?s = "length dict"
  let ?n = "min (?s - offset) STANDARD_VECTOR_SIZE"
  show ?case
  proof (cases "offset < ?s")
    case False
    then have "dictionary_rows t ?G dict ?s out" using less.prems(4) by (auto simp: dictionary_rows_def)
    with False less.prems show ?thesis
      by (intro exI [of _ w] exI [of _ out]) (simp add: fill_dictionary.simps returnW_def)
  next
    case True
    have n: "0 < ?n" "?n \<le> limit" "offset + ?n \<le> ?s" using True limit by auto
    have "vec_ok (offset + ?n) child" using child(1,2) n(3) by auto
    then obtain part where part: "Slice_range (sjunk env) child offset (offset + ?n) child = Inr part" "GetType part = tc" "vec_ok ?n part"
      "\<forall>i < ?n. vec_row part i = vec_row child (offset + i)"
      using Slice_range_rows [OF _ less.prems(1), of ?n tc d m child] child(1) by auto
    have ref: "Reference part (args ! col) = Inr part" using part(2) args(3) by (cases part) (auto simp: Reference_def ConstReference_def)
    let ?args = "args[col := part]"
    have types: "list_all2 (\<lambda>ty v. GetType v = ty \<and> vec_ok ?n v) tys ?args"
      using args part(2,3) by (auto simp: list_all2_conv_all_nth nth_list_update constant_args_def)
    have fresh: "fresh_vec ?n (new_vector env t)" "GetType (new_vector env t) = t"
      using \<open>scalar_type t\<close> by (simp_all add: Vector_Initialize_eq fresh_vec_def AllValid_def)
    have rows: "map (\<lambda>v. vec_row v i) ?args = cvals[col := dict ! (offset + i)]" if "i < ?n" for i
    proof -
      have "vec_row part i = dict ! (offset + i)" using part(4) child(3) that n(3) by auto
      with constant_args_row [OF constant_args_part [OF args(4)], of i part] args(2) show ?thesis by simp
    qed
    obtain r w1 where r: "call ?args ?n (new_vector env t) w = (r, w1)" by (cases "call ?args ?n (new_vector env t) w")
    have "evals t (\<lambda>i. F (map (\<lambda>v. vec_row v i) ?args)) [0..<?n] r" "I w1"
      using call_ok [OF n(1,2) types fresh] less.prems(2) r by (auto simp: yields_def)
    then obtain v where v: "r = Inr v" "GetType v = t" "vec_ok ?n v" "\<forall>i < ?n. Inr (vec_row v i) \<in> ?G (dict ! (offset + i))"
      using errors rows by (cases r) auto
    have keep: "get w1 = get w" using call_keeps [of ?args ?n "new_vector env t" w] r by simp
    obtain td tm where out: "out = Flat t td tm" "?s \<le> length td" "mask_wf tm" "?s \<le> capacity tm"
      using less.prems(4) by (auto simp: dictionary_rows_def)
    obtain td' tm' where copy: "Copy v IncrementalSelectionVector ?n 0 offset out = Inr (Flat t td' tm')" "length td' = length td" "mask_wf tm'"
      "capacity tm' = capacity tm" "\<forall>i < offset. vec_row (Flat t td' tm') i = vec_row out i" "\<forall>i < ?n. vec_row (Flat t td' tm') (offset + i) = vec_row v i"
      using Copy_at_rows [OF v(3,2) n(1) less.prems(1), of td tm] out n(3) by auto
    let ?out = "Flat t td' tm'" and ?off = "offset + STANDARD_VECTOR_SIZE"
    let ?w2 = "put ((get w)\<lparr>output_dictionary := Some ?out\<rparr>) w1"
    have done_rows: "Inr (vec_row ?out i) \<in> ?G (dict ! i)" if "i < ?off" "i < ?s" for i
    proof (cases "i < offset")
      case True
      with less.prems(4) copy(5) that(2) show ?thesis by (auto simp: dictionary_rows_def)
    next
      case False
      then have k: "i - offset < ?n" "offset + (i - offset) = i" using that by auto
      from copy(6) [rule_format, OF k(1)] v(4) [rule_format, OF k(1)] show ?thesis unfolding k(2) by simp
    qed
    have "dictionary_rows t ?G dict ?off ?out"
      using done_rows out copy(2-4) \<open>scalar_type t\<close> by (auto simp: dictionary_rows_def)
    moreover have "IsAligned ?off" using less.prems(1) unfolding IsAligned_def by presburger
    moreover have "?s - ?off < ?s - offset" using True by (rule diff_less_mono2 [rotated]) simp
    ultimately obtain w' out' where step: "fill_dictionary env get put call t col child args ?s ?off ?w2 = (Inr (), w')" "I w'"
      "get w' = (get ?w2)\<lparr>output_dictionary := Some out'\<rparr>" "dictionary_rows t ?G dict ?s out'"
      using less.hyps [of ?off ?w2 ?out] put_kept [OF \<open>I w1\<close>] get_put by auto
    have "write_dictionary get put (Copy v IncrementalSelectionVector ?n 0 offset) w1 = (Inr (), ?w2)"
      using keep less.prems(3) copy(1) by (simp add: write_dictionary_def)
    then have "fill_dictionary env get put call t col child args ?s offset w = (Inr (), w')"
      using True part(1) ref r v(1) step(1)
      by (subst fill_dictionary.simps) (simp add: Let_def bindW_def)
    with step get_put show ?thesis by (intro exI [of _ w'] exI [of _ out']) simp
  qed
qed

text \<open>The batch has the rows the function allows, and what is kept is right again; otherwise nothing happens.\<close>

lemma TryExecuteDictionaryExpression_ok:
  assumes limit: "limit = STANDARD_VECTOR_SIZE" and t: "scalar_type t" "GetType res = t" and tag: "\<And>v. tag_ok dicts tag v"
    and args: "list_all2 (\<lambda>ty v. GetType v = ty \<and> vec_ok n v) tys args"
    and col: "\<And>col. input_col_idx (get w) = Some col \<Longrightarrow> (\<forall>ys e. Inl e \<notin> F ys) \<and> col < length args \<and> constant_args col cvals args"
    and w: "I w" "\<And>col. input_col_idx (get w) = Some col \<Longrightarrow> cache_ok t (\<lambda>y. F (cvals[col := y])) dicts (get w)"
  shows "\<exists>handled v w'. TryExecuteDictionaryExpression env get put tag call args n res w = (Inr (handled, v), w') \<and> I w' \<and>
    handled = dictionary_usable tag args n (get w) \<and>
    (if handled then evals t (\<lambda>i. F (map (\<lambda>v. vec_row v i) args)) [0..<n] (Inr v) else v = res) \<and>
    input_col_idx (get w') = input_col_idx (get w) \<and>
    (\<forall>col. input_col_idx (get w) = Some col \<longrightarrow> cache_ok t (\<lambda>y. F (cvals[col := y])) dicts (get w'))"
    (is "\<exists>handled v w'. ?run w = (Inr (handled, v), w') \<and> ?post handled v w'")
proof -
  have skip: "\<exists>handled v w'. ?run w = (Inr (handled, v), w') \<and> ?post handled v w'"
    if "?run w = (Inr (False, res), w)" "\<not> dictionary_usable tag args n (get w)"
    using that w by (intro exI [of _ False] exI [of _ res] exI [of _ w]) simp
  consider (off) "input_col_idx (get w) = None" | (plain) col where "input_col_idx (get w) = Some col" "GetVectorType (args ! col) \<noteq> DICTIONARY_VECTOR"
    | (dict) col t' sel child where "input_col_idx (get w) = Some col" "args ! col = Dictionary t' sel child"
    by (cases "input_col_idx (get w)"; cases "args ! (the (input_col_idx (get w)))") auto
  then show ?thesis
  proof cases
    case off
    then show ?thesis by (intro skip) (simp_all add: TryExecuteDictionaryExpression_def dictionary_usable_def)
  next
    case plain
    with col [OF plain(1)] show ?thesis
      by (intro skip) (auto simp: TryExecuteDictionaryExpression_def dictionary_usable_def vec_at_def returnW_def split: Vector.splits)
  next
    case dict
    note c = col [OF dict(1)]
    let ?G = "\<lambda>y. F (cvals[col := y])"
    obtain so did where s: "tag (args ! col) = (so, did)" by (cases "tag (args ! col)")
    show ?thesis
    proof (cases "so = None \<or> did = [] \<or> MAX_DICTIONARY_SIZE_THRESHOLD \<le> the so")
      case True
      with c s dict show ?thesis
        by (intro skip) (auto simp: TryExecuteDictionaryExpression_def dictionary_usable_def vec_at_def returnW_def split: option.splits)
    next
      case False
      let ?dict = "dicts did" and ?st = "get w"
      have v: "vec_ok n (args ! col)" "GetType (args ! col) = t'" using args c dict(2) by (auto simp: list_all2_conv_all_nth)
      have so: "so = Some (length ?dict)" "vec_ok (length ?dict) child" "\<forall>i < length ?dict. vec_row child i = ?dict ! i"
        "\<forall>i < n. get_index sel i < length ?dict"
        using tag [of "args ! col"] s False v(1) unfolding tag_ok_def dict(2) by (auto split: option.splits)
      obtain d m xs where child: "child = Flat t' d m" "sel = Some xs" "n \<le> length xs"
        using v(1) unfolding dict(2) by (cases child; cases sel) auto
      have rows: "map (\<lambda>v. vec_row v i) args = cvals[col := ?dict ! get_index sel i]" if "i < n" for i
        using constant_args_row [of col cvals args i] c so(3,4) that by (simp add: dict(2))
      have result: "evals t (\<lambda>i. F (map (\<lambda>v. vec_row v i) args)) [0..<n] (Inr (Dictionary t sel out))" if out: "dictionary_rows t ?G ?dict (length ?dict) out" for out
      proof -
        obtain td tm where o: "out = Flat t td tm" "length ?dict \<le> length td" "mask_wf tm" "length ?dict \<le> capacity tm"
          using out by (auto simp: dictionary_rows_def)
        have "get_index sel i < length td \<and> get_index sel i < capacity tm" if "i < n" for i using so(4) that o(2,4) by auto
        moreover have "Inr (vec_row out (get_index sel i)) \<in> F (map (\<lambda>v. vec_row v i) args)" if "i < n" for i
          unfolding rows [OF that] using so(4) that out by (auto simp: dictionary_rows_def)
        ultimately show ?thesis using o child(2,3) t(1) by simp
      qed
      consider (hit) out where "output_dictionary ?st = Some out" "current_input_dictionary_id ?st = did"
        | (miss) "output_dictionary ?st = None \<or> current_input_dictionary_id ?st \<noteq> did" by (cases "output_dictionary ?st") auto
      then show ?thesis
      proof cases
        case hit
        then have "dictionary_rows t ?G ?dict (length ?dict) out" using w(2) [OF dict(1)] False by (simp add: cache_ok_def Let_def)
        note result [OF this]
        moreover have "?run w = (Inr (True, Dictionary t sel out), w)"
          using c s dict False so(1) hit t(2) by (simp add: TryExecuteDictionaryExpression_def vec_at_def use_dictionary_def)
        moreover have "dictionary_usable tag args n ?st" using dict s so(1) False hit by (simp add: dictionary_usable_def)
        ultimately show ?thesis using w by (intro exI [of _ True] exI [of _ "Dictionary t sel out"] exI [of _ w]) simp
      next
        case miss
        show ?thesis
        proof (cases "STANDARD_VECTOR_SIZE < length ?dict \<and> real n / real STANDARD_VECTOR_SIZE \<le> 1 / 2")
          case True
          with c s dict False so(1) miss show ?thesis
            by (intro skip) (auto simp: TryExecuteDictionaryExpression_def dictionary_usable_def half_full vec_at_def returnW_def)
        next
          case full: False
          let ?out = "Vector_Initialize (vjunk env) t (length ?dict)"
          let ?w1 = "put (?st\<lparr>output_dictionary := Some ?out, current_input_dictionary_id := did\<rparr>) w"
          have "dictionary_rows t ?G ?dict 0 ?out" using t(1) by (simp add: dictionary_rows_def Vector_Initialize_eq)
          with fill_ok [OF limit t(1) _ child(1) so(2,3) args, where w = ?w1 and col = col and cvals = cvals and offset = 0 and env = env] c v(2) put_kept [OF w(1)] get_put
          obtain w' out' where fill: "fill_dictionary env get put call t col child args (length ?dict) 0 ?w1 = (Inr (), w')" "I w'"
            "get w' = (get ?w1)\<lparr>output_dictionary := Some out'\<rparr>" "dictionary_rows t ?G ?dict (length ?dict) out'"
            by (auto simp: IsAligned_def)
          have "?run w = (Inr (True, Dictionary t sel out'), w')"
            using c s dict False so(1) miss full t(2) fill(1,3)
            by (auto simp: TryExecuteDictionaryExpression_def vec_at_def use_dictionary_def bindW_def liftW_def)
          moreover have "cache_ok t ?G dicts (get w')" using fill(3,4) by (simp add: cache_ok_def Let_def get_put)
          moreover have "dictionary_usable tag args n ?st" using dict s so(1) False full by (auto simp: dictionary_usable_def half_full)
          ultimately show ?thesis
            using fill result [OF fill(4)] dict(1) get_put by (intro exI [of _ True] exI [of _ "Dictionary t sel out'"] exI [of _ w']) simp
        qed
      qed
    qed
  qed
qed

end

end
