(* ===== verification/Jit_Type_Support.thy ===== *)
theory Jit_Type_Support
  imports Bound_Expressions
begin

text \<open>
  Section 1 of \<open>src/duckdb/src/execution/jit/jit_compiler.cpp\<close>, which every build has: the physical
  types the JIT supports and \<open>JITCompiler::CanCompile\<close>, the structural check that the profiler and
  the dispatcher call.
\<close>

definition IsSupportedPhysType :: "PhysicalType \<Rightarrow> bool" where
  "IsSupportedPhysType pt =
     (case pt of
        PT_BOOL \<Rightarrow> True | PT_UINT8 \<Rightarrow> True | PT_INT8 \<Rightarrow> True | PT_UINT16 \<Rightarrow> True | PT_INT16 \<Rightarrow> True
      | PT_UINT32 \<Rightarrow> True | PT_INT32 \<Rightarrow> True | PT_UINT64 \<Rightarrow> True | PT_INT64 \<Rightarrow> True
      | PT_UINT128 \<Rightarrow> True | PT_INT128 \<Rightarrow> True | PT_FLOAT \<Rightarrow> True | PT_DOUBLE \<Rightarrow> True
      | _ \<Rightarrow> False)"

text \<open>
  The loops over the children return \<open>false\<close> at the first child that fails, which is \<open>list_all\<close>.
\<close>

fun CanCompileRec :: "Expression \<Rightarrow> bool" where
  "CanCompileRec expr =
     (if \<not> IsSupportedPhysType (phys expr) then False
      else case expr of
        BoundReference t i \<Rightarrow> True
      | BoundConstant v \<Rightarrow> True
      | BoundColumnRef t tbl col depth \<Rightarrow> True
      | BoundFunction t f children \<Rightarrow>
          (let name = fn_name f in
           if length children = 0 \<or> length children > 2 then False
           else if name \<notin> {''+'', ''-'', ''*'', ''/'', ''//'', ''add'', ''subtract'', ''multiply'', ''divide''}
           then False
           else if name \<in> {''*'', ''multiply'', ''/'', ''divide'', ''//''} \<and> length children \<noteq> 2 then False
           else list_all CanCompileRec children)
      | BoundComparison et left right \<Rightarrow> CanCompileRec left \<and> CanCompileRec right
      | BoundConjunction et children \<Rightarrow> list_all CanCompileRec children
      | BoundCast t try_cast child \<Rightarrow> IsSupportedPhysType (phys child) \<and> CanCompileRec child
      | _ \<Rightarrow> False)"

declare CanCompileRec.simps [simp del]

definition CanCompile :: "Expression \<Rightarrow> bool" where
  "CanCompile expr = CanCompileRec expr"

lemma CanCompileRec_supported: "CanCompileRec e \<Longrightarrow> IsSupportedPhysType (phys e)"
  by (subst (asm) CanCompileRec.simps) (simp split: if_splits)

lemma CanCompileRec_node [simp]:
  "CanCompileRec (BoundReference t i) = IsSupportedPhysType (InternalType t)"
  "CanCompileRec (BoundConstant v) = IsSupportedPhysType (InternalType (value_type v))"
  "CanCompileRec (BoundColumnRef t tbl col depth) = IsSupportedPhysType (InternalType t)"
  "CanCompileRec (BoundParameter t v) = False"
  "CanCompileRec (BoundOperator et t cs) = False"
  "CanCompileRec (BoundCase t checks els) = False"
  "CanCompileRec (BoundBetween li ui inp lo up) = False"
  "CanCompileRec (OtherExpression et ec t) = False"
  "CanCompileRec (BoundComparison et l r) = (CanCompileRec l \<and> CanCompileRec r)"
  "CanCompileRec (BoundConjunction et cs) = list_all CanCompileRec cs"
  by (simp_all add: CanCompileRec.simps [of "BoundReference t i"]
      CanCompileRec.simps [of "BoundConstant v"] CanCompileRec.simps [of "BoundColumnRef t tbl col depth"]
      CanCompileRec.simps [of "BoundParameter t v"] CanCompileRec.simps [of "BoundOperator et t cs"]
      CanCompileRec.simps [of "BoundCase t checks els"] CanCompileRec.simps [of "BoundBetween li ui inp lo up"]
      CanCompileRec.simps [of "OtherExpression et ec t"] CanCompileRec.simps [of "BoundComparison et l r"]
      CanCompileRec.simps [of "BoundConjunction et cs"] IsSupportedPhysType_def)

lemma CanCompileRec_Cast [simp]:
  "CanCompileRec (BoundCast t try_cast c) = (IsSupportedPhysType (InternalType t) \<and> CanCompileRec c)"
  using CanCompileRec_supported [of c] by (auto simp: CanCompileRec.simps [of "BoundCast t try_cast c"])

lemma CanCompileRec_Function [simp]:
  "CanCompileRec (BoundFunction t f cs) \<longleftrightarrow>
     IsSupportedPhysType (InternalType t) \<and> (length cs = 1 \<or> length cs = 2) \<and>
     (fn_name f \<in> {''+'', ''-'', ''add'', ''subtract''} \<or>
      fn_name f \<in> {''*'', ''multiply'', ''/'', ''divide'', ''//''} \<and> length cs = 2) \<and>
     list_all CanCompileRec cs"
  by (subst CanCompileRec.simps) (auto simp: Let_def not_less le_Suc_eq numeral_2_eq_2)

end
