(* ===== verification/Jit_Fingerprint.thy ===== *)
theory Jit_Fingerprint
  imports Jit_Type_Support
begin

text \<open>
  The structural fingerprint of \<open>src/duckdb/src/execution/jit/jit_profiler.cpp\<close>: 64-bit FNV-1a over
  a walk of the bound expression tree. The lemmas show that the walk hashes one byte string per
  tree, that this byte string determines the tree up to constants, parameters and type
  modifiers, and that FNV-1a separates byte strings of equal length that differ in one byte.
\<close>

section \<open>FNV-1a\<close>

definition FNV_OFFSET_BASIS :: u64 where
  "FNV_OFFSET_BASIS = 14695981039346656037"

definition FNV_PRIME :: u64 where
  "FNV_PRIME = 1099511628211"

fun Fnv1aUpdate :: "u64 \<Rightarrow> 8 word list \<Rightarrow> u64" where
  "Fnv1aUpdate hash [] = hash"
| "Fnv1aUpdate hash (b # bytes) = Fnv1aUpdate ((hash XOR ucast b) * FNV_PRIME) bytes"

text \<open>\<open>HashPod\<close> hashes the \<open>sizeof(T)\<close> bytes of an integer.\<close>

definition HashPod :: "nat \<Rightarrow> u64 \<Rightarrow> nat \<Rightarrow> u64" where
  "HashPod size_of hash v = Fnv1aUpdate hash (le_bytes size_of v)"

definition string_bytes :: "string \<Rightarrow> 8 word list" where
  "string_bytes s = map of_char s"

definition HashString :: "u64 \<Rightarrow> string \<Rightarrow> u64" where
  "HashString hash s = Fnv1aUpdate (HashPod 8 hash (length s)) (string_bytes s)"

text \<open>
  \<open>HashExpressionTree\<close>: the node header, then the payload of the expression class. The children of
  a conjunction, operator or function go through \<open>HashChildren\<close>: their number, then each tree.
\<close>

definition HashHeader :: "u64 \<Rightarrow> Expression \<Rightarrow> u64" where
  "HashHeader hash expr =
     (let hash = HashPod 4 hash (ExpressionType_code (GetExpressionType expr));
          hash = HashPod 1 hash (ExpressionClass_code (GetExpressionClass expr));
          hash = HashPod 1 hash (LogicalTypeId_code (lt_id (return_type expr)));
          hash = HashPod 1 hash (PhysicalType_code (phys expr))
      in hash)"

fun HashExpressionTree :: "u64 \<Rightarrow> Expression \<Rightarrow> u64" where
  "HashExpressionTree hash expr =
     (let hash = HashHeader hash expr in
      case expr of
        BoundReference t index \<Rightarrow> HashPod 8 hash (unat index)
      | BoundColumnRef t table_index column_index depth \<Rightarrow>
          HashPod 8 (HashPod 8 (HashPod 8 hash (unat table_index)) (unat column_index)) (unat depth)
      | BoundConstant v \<Rightarrow> hash
      | BoundParameter t v \<Rightarrow> hash
      | BoundComparison et left right \<Rightarrow> HashExpressionTree (HashExpressionTree hash left) right
      | BoundConjunction et children \<Rightarrow>
          foldl (\<lambda>h child. HashExpressionTree h child) (HashPod 8 hash (length children)) children
      | BoundOperator et t children \<Rightarrow>
          foldl (\<lambda>h child. HashExpressionTree h child) (HashPod 8 hash (length children)) children
      | BoundFunction t f children \<Rightarrow>
          foldl (\<lambda>h child. HashExpressionTree h child)
            (HashPod 8 (HashString hash (fn_name f)) (length children)) children
      | BoundCast t try_cast child \<Rightarrow> HashPod 1 (HashExpressionTree hash child) (of_bool try_cast)
      | BoundCase t case_checks else_expr \<Rightarrow>
          (let hash = foldl (\<lambda>h check. HashExpressionTree (HashExpressionTree h (fst check)) (snd check))
                        (HashPod 8 hash (length case_checks)) case_checks
           in case else_expr of None \<Rightarrow> hash | Some e \<Rightarrow> HashExpressionTree hash e)
      | BoundBetween lower_inclusive upper_inclusive input lower upper \<Rightarrow>
          (let hash = HashPod 1 (HashPod 1 hash (of_bool lower_inclusive)) (of_bool upper_inclusive)
           in HashExpressionTree (HashExpressionTree (HashExpressionTree hash input) lower) upper)
      | OtherExpression et ec t \<Rightarrow> hash)"

declare HashExpressionTree.simps [simp del]

definition Fingerprint :: "Expression \<Rightarrow> u64" where
  "Fingerprint expr = HashExpressionTree FNV_OFFSET_BASIS expr"

definition ProfilesAsArithmeticRoot :: "Expression \<Rightarrow> bool" where
  "ProfilesAsArithmeticRoot expr =
     (case expr of
        BoundFunction t f children \<Rightarrow> fn_name f \<in> {''+'', ''-'', ''*'', ''/'', ''//'', ''%''}
      | _ \<Rightarrow> False)"

section \<open>The hashed byte string\<close>

lemma Fnv1aUpdate_append [simp]: "Fnv1aUpdate h (xs @ ys) = Fnv1aUpdate (Fnv1aUpdate h xs) ys"
  by (induction h xs rule: Fnv1aUpdate.induct) auto

text \<open>The bytes that the walk feeds to the hash, as one string.\<close>

definition header_bytes :: "Expression \<Rightarrow> 8 word list" where
  "header_bytes e =
     le_bytes 4 (ExpressionType_code (GetExpressionType e)) @
     le_bytes 1 (ExpressionClass_code (GetExpressionClass e)) @
     le_bytes 1 (LogicalTypeId_code (lt_id (return_type e))) @
     le_bytes 1 (PhysicalType_code (phys e))"

fun tree_bytes :: "Expression \<Rightarrow> 8 word list" where
  "tree_bytes e = header_bytes e @
     (case e of
        BoundReference t i \<Rightarrow> le_bytes 8 (unat i)
      | BoundColumnRef t tbl col depth \<Rightarrow>
          le_bytes 8 (unat tbl) @ le_bytes 8 (unat col) @ le_bytes 8 (unat depth)
      | BoundComparison et l r \<Rightarrow> tree_bytes l @ tree_bytes r
      | BoundConjunction et cs \<Rightarrow> le_bytes 8 (length cs) @ concat (map tree_bytes cs)
      | BoundOperator et t cs \<Rightarrow> le_bytes 8 (length cs) @ concat (map tree_bytes cs)
      | BoundFunction t f cs \<Rightarrow>
          le_bytes 8 (length (fn_name f)) @ string_bytes (fn_name f) @
          le_bytes 8 (length cs) @ concat (map tree_bytes cs)
      | BoundCast t try_cast c \<Rightarrow> tree_bytes c @ le_bytes 1 (of_bool try_cast)
      | BoundCase t checks els \<Rightarrow>
          le_bytes 8 (length checks) @ concat (map (\<lambda>c. tree_bytes (fst c) @ tree_bytes (snd c)) checks) @
          (case els of None \<Rightarrow> [] | Some e \<Rightarrow> tree_bytes e)
      | BoundBetween li ui i l u \<Rightarrow>
          le_bytes 1 (of_bool li) @ le_bytes 1 (of_bool ui) @ tree_bytes i @ tree_bytes l @ tree_bytes u
      | _ \<Rightarrow> [])"

declare tree_bytes.simps [simp del]

lemma tree_bytes_node:
  "tree_bytes (BoundReference t i) = header_bytes (BoundReference t i) @ le_bytes 8 (unat i)"
  "tree_bytes (BoundColumnRef t tbl col depth) =
     header_bytes (BoundColumnRef t tbl col depth) @
     le_bytes 8 (unat tbl) @ le_bytes 8 (unat col) @ le_bytes 8 (unat depth)"
  "tree_bytes (BoundConstant v) = header_bytes (BoundConstant v)"
  "tree_bytes (BoundParameter t v) = header_bytes (BoundParameter t v)"
  "tree_bytes (BoundComparison et l r) = header_bytes (BoundComparison et l r) @ tree_bytes l @ tree_bytes r"
  "tree_bytes (BoundConjunction et cs) =
     header_bytes (BoundConjunction et cs) @ le_bytes 8 (length cs) @ concat (map tree_bytes cs)"
  "tree_bytes (BoundOperator et t cs) =
     header_bytes (BoundOperator et t cs) @ le_bytes 8 (length cs) @ concat (map tree_bytes cs)"
  "tree_bytes (BoundFunction t f cs) =
     header_bytes (BoundFunction t f cs) @ le_bytes 8 (length (fn_name f)) @ string_bytes (fn_name f) @
     le_bytes 8 (length cs) @ concat (map tree_bytes cs)"
  "tree_bytes (BoundCast t try_cast e) =
     header_bytes (BoundCast t try_cast e) @ tree_bytes e @ le_bytes 1 (of_bool try_cast)"
  "tree_bytes (BoundCase t checks els) =
     header_bytes (BoundCase t checks els) @ le_bytes 8 (length checks) @
     concat (map (\<lambda>c. tree_bytes (fst c) @ tree_bytes (snd c)) checks) @
     (case els of None \<Rightarrow> [] | Some e \<Rightarrow> tree_bytes e)"
  "tree_bytes (BoundBetween li ui e l r) =
     header_bytes (BoundBetween li ui e l r) @
     le_bytes 1 (of_bool li) @ le_bytes 1 (of_bool ui) @ tree_bytes e @ tree_bytes l @ tree_bytes r"
  "tree_bytes (OtherExpression et ec t) = header_bytes (OtherExpression et ec t)"
  by (subst tree_bytes.simps; simp)+

lemma HashHeader_bytes: "HashHeader h e = Fnv1aUpdate h (header_bytes e)"
  by (simp add: HashHeader_def header_bytes_def HashPod_def Let_def del: le_bytes.simps)

lemma foldl_hash_bytes:
  "(\<And>c h. c \<in> set cs \<Longrightarrow> f h c = Fnv1aUpdate h (g c)) \<Longrightarrow>
   foldl f h cs = Fnv1aUpdate h (concat (map g cs))"
  by (induction cs arbitrary: h) auto

lemma HashExpressionTree_bytes: "HashExpressionTree h e = Fnv1aUpdate h (tree_bytes e)"
proof (induction e arbitrary: h)
  case (BoundConjunction et cs)
  then show ?case
    by (subst HashExpressionTree.simps)
       (simp add: Let_def HashHeader_bytes HashPod_def tree_bytes_node foldl_hash_bytes [where g = tree_bytes])
next
  case (BoundOperator et t cs)
  then show ?case
    by (subst HashExpressionTree.simps)
       (simp add: Let_def HashHeader_bytes HashPod_def tree_bytes_node foldl_hash_bytes [where g = tree_bytes])
next
  case (BoundFunction t f cs)
  then show ?case
    by (subst HashExpressionTree.simps)
       (simp add: Let_def HashHeader_bytes HashPod_def HashString_def tree_bytes_node
         foldl_hash_bytes [where g = tree_bytes])
next
  case (BoundCase t checks els)
  have "HashExpressionTree (HashExpressionTree h (fst c)) (snd c) =
          Fnv1aUpdate h (tree_bytes (fst c) @ tree_bytes (snd c))" if "c \<in> set checks" for c h
    using BoundCase(1,2) [of c] that by (cases c) auto
  then have "foldl (\<lambda>h c. HashExpressionTree (HashExpressionTree h (fst c)) (snd c)) h0 checks =
      Fnv1aUpdate h0 (concat (map (\<lambda>c. tree_bytes (fst c) @ tree_bytes (snd c)) checks))" for h0
    by (rule foldl_hash_bytes)
  with BoundCase(3) show ?case
    by (subst HashExpressionTree.simps)
       (auto simp: Let_def HashHeader_bytes HashPod_def tree_bytes_node split: option.splits)
qed (subst HashExpressionTree.simps;
     simp add: Let_def HashHeader_bytes HashPod_def tree_bytes_node del: le_bytes.simps)+

section \<open>What the byte string determines\<close>

text \<open>
  The shape of a tree: constants and parameters without their value, types without their
  modifiers (the width and scale of a DECIMAL, the dictionary of an ENUM), functions by name.
\<close>

definition shape_type :: "LogicalType \<Rightarrow> LogicalType" where
  "shape_type t = t\<lparr>lt_type_info := None\<rparr>"

definition shape_value :: "LogicalType \<Rightarrow> Value" where
  "shape_value t = \<lparr>value_type = shape_type t, is_null = False, value_data = CInt 0\<rparr>"

primrec shape :: "Expression \<Rightarrow> Expression" where
  "shape (BoundReference t i) = BoundReference (shape_type t) i"
| "shape (BoundColumnRef t tbl col depth) = BoundColumnRef (shape_type t) tbl col depth"
| "shape (BoundConstant v) = BoundConstant (shape_value (value_type v))"
| "shape (BoundParameter t v) = BoundParameter (shape_type t) (shape_value t)"
| "shape (BoundComparison et l r) = BoundComparison et (shape l) (shape r)"
| "shape (BoundConjunction et cs) = BoundConjunction et (map shape cs)"
| "shape (BoundOperator et t cs) = BoundOperator et (shape_type t) (map shape cs)"
| "shape (BoundFunction t f cs) =
     BoundFunction (shape_type t) \<lparr>fn_name = fn_name f, fn_can_throw = False, fn_stability = FS_CONSISTENT, fn_volatile_lambda = False\<rparr> (map shape cs)"
| "shape (BoundCast t try_cast c) = BoundCast (shape_type t) try_cast (shape c)"
| "shape (BoundCase t checks els) =
     BoundCase (shape_type t) (map (map_prod shape shape) checks) (map_option shape els)"
| "shape (BoundBetween li ui i l u) = BoundBetween li ui (shape i) (shape l) (shape u)"
| "shape (OtherExpression et ec t) = OtherExpression et ec (shape_type t)"

lemma shape_type_eq_iff:
  "shape_type t = shape_type t' \<longleftrightarrow> lt_id t = lt_id t' \<and> lt_physical_type t = lt_physical_type t'"
  by (cases t; cases t') (simp add: shape_type_def)

lemma shape_value_eq_iff: "shape_value t = shape_value t' \<longleftrightarrow> shape_type t = shape_type t'"
  by (simp add: shape_value_def)

text \<open>Trees of the same shape feed the same bytes to the hash.\<close>

lemma header_bytes_shape [simp]: "header_bytes (shape e) = header_bytes e"
  by (cases e) (simp_all add: header_bytes_def shape_type_def shape_value_def)

lemma tree_bytes_shape [simp]: "tree_bytes (shape e) = tree_bytes e"
proof (induction e)
  case (BoundCase t checks els)
  have "map (\<lambda>c. tree_bytes (fst c) @ tree_bytes (snd c)) (map (map_prod shape shape) checks) =
        map (\<lambda>c. tree_bytes (fst c) @ tree_bytes (snd c)) checks"
    using BoundCase(1,2) by (auto simp: map_prod_def split: prod.splits)
  moreover have "(case map_option shape els of None \<Rightarrow> [] | Some e \<Rightarrow> tree_bytes e) =
        (case els of None \<Rightarrow> [] | Some e \<Rightarrow> tree_bytes e)"
    using BoundCase(3) by (cases els) auto
  ultimately show ?case
    using header_bytes_shape [of "BoundCase t checks els"]
    by (simp add: tree_bytes_node del: header_bytes_shape map_map)
next
  case (BoundConjunction et cs)
  then have "map tree_bytes (map shape cs) = map tree_bytes cs" by simp
  then show ?case
    using header_bytes_shape [of "BoundConjunction et cs"]
    by (simp add: tree_bytes_node del: header_bytes_shape map_map)
next
  case (BoundOperator et t cs)
  then have "map tree_bytes (map shape cs) = map tree_bytes cs" by simp
  then show ?case
    using header_bytes_shape [of "BoundOperator et t cs"]
    by (simp add: tree_bytes_node del: header_bytes_shape map_map)
next
  case (BoundFunction t f cs)
  then have "map tree_bytes (map shape cs) = map tree_bytes cs" by simp
  then show ?case
    using header_bytes_shape [of "BoundFunction t f cs"]
    by (simp add: tree_bytes_node del: header_bytes_shape map_map)
qed (simp_all add: tree_bytes_node header_bytes_def shape_type_def shape_value_def)

text \<open>The other direction: the byte string is uniquely decodable.\<close>

lemma of_char_word_inject [simp]: "(of_char c :: 8 word) = of_char d \<longleftrightarrow> c = d"
proof -
  have w: "(of_char x :: 8 word) = word_of_nat (of_char x)" for x
    by (simp only: of_nat_of_char)
  have "(of_char x :: nat) < 256" for x
    by simp
  then show ?thesis
    by (simp add: w word_of_nat_eq_iff take_bit_nat_eq_self)
qed

lemma string_bytes_inject [simp]: "string_bytes s = string_bytes s' \<longleftrightarrow> s = s'"
  unfolding string_bytes_def by (rule inj_map_eq_map) (simp add: inj_def)

lemma length_string_bytes [simp]: "length (string_bytes s) = length s"
  by (simp add: string_bytes_def)

lemma byte_code_inject:
  "a < 256 \<Longrightarrow> b < 256 \<Longrightarrow> le_bytes 1 a = le_bytes 1 b \<longleftrightarrow> a = b"
  "a < 256 \<Longrightarrow> b < 256 \<Longrightarrow> le_bytes 4 a = le_bytes 4 b \<longleftrightarrow> a = b"
  by (rule le_bytes_inject; simp)+

lemma count_inject: "a < 2 ^ 64 \<Longrightarrow> b < 2 ^ 64 \<Longrightarrow> le_bytes 8 a = le_bytes 8 b \<longleftrightarrow> a = b"
  by (rule le_bytes_inject) simp_all

lemma bool_byte_inject [simp]: "le_bytes 1 (of_bool a) = le_bytes 1 (of_bool b) \<longleftrightarrow> a = b"
  by (simp add: byte_code_inject)

lemmas enum_byte_inject [simp] =
  byte_code_inject(2) [OF ExpressionType_code_byte ExpressionType_code_byte]
  byte_code_inject(1) [OF ExpressionClass_code_byte ExpressionClass_code_byte]
  byte_code_inject(1) [OF LogicalTypeId_code_byte LogicalTypeId_code_byte]
  byte_code_inject(1) [OF PhysicalType_code_byte PhysicalType_code_byte]

lemma header_bytes_append_eq:
  "header_bytes e @ xs = header_bytes e' @ ys \<longleftrightarrow>
     GetExpressionType e = GetExpressionType e' \<and> GetExpressionClass e = GetExpressionClass e' \<and>
     lt_id (return_type e) = lt_id (return_type e') \<and> phys e = phys e' \<and> xs = ys"
  by (auto simp: header_bytes_def le_bytes_append_eq simp del: le_bytes.simps One_nat_def)

definition decodable :: "Expression \<Rightarrow> bool" where
  "decodable e \<longleftrightarrow> (\<forall>e' xs ys. wf_expr e' \<longrightarrow> tree_bytes e @ xs = tree_bytes e' @ ys \<longrightarrow>
     shape e = shape e' \<and> xs = ys)"

lemma decodableD:
  "decodable e \<Longrightarrow> wf_expr e' \<Longrightarrow> tree_bytes e @ xs = tree_bytes e' @ ys \<Longrightarrow> shape e = shape e' \<and> xs = ys"
  by (auto simp: decodable_def)

lemma decodable_list:
  assumes "\<And>c. c \<in> set cs \<Longrightarrow> decodable c" and "\<And>c. c \<in> set cs' \<Longrightarrow> wf_expr c"
    and "length cs = length cs'"
    and "concat (map tree_bytes cs) @ xs = concat (map tree_bytes cs') @ ys"
  shows "map shape cs = map shape cs' \<and> xs = ys"
  using assms(3,1,2,4)
proof (induction cs cs' rule: list_induct2)
  case Nil
  then show ?case by simp
next
  case (Cons c cs c' cs')
  from Cons.prems(3) have "tree_bytes c @ concat (map tree_bytes cs) @ xs =
      tree_bytes c' @ concat (map tree_bytes cs') @ ys"
    by simp
  then have "shape c = shape c' \<and> concat (map tree_bytes cs) @ xs = concat (map tree_bytes cs') @ ys"
    using Cons.prems(1,2) by (intro decodableD) auto
  then show ?case
    using Cons.IH Cons.prems(1,2) by auto
qed

lemma decodable_checks:
  assumes "\<And>c. c \<in> set cs \<Longrightarrow> decodable (fst c) \<and> decodable (snd c)"
    and "\<And>c. c \<in> set cs' \<Longrightarrow> wf_expr (fst c) \<and> wf_expr (snd c)"
    and "length cs = length cs'"
    and "concat (map (\<lambda>c. tree_bytes (fst c) @ tree_bytes (snd c)) cs) @ xs =
         concat (map (\<lambda>c. tree_bytes (fst c) @ tree_bytes (snd c)) cs') @ ys"
  shows "map (map_prod shape shape) cs = map (map_prod shape shape) cs' \<and> xs = ys"
  using assms(3,1,2,4)
proof (induction cs cs' rule: list_induct2)
  case Nil
  then show ?case by simp
next
  case (Cons c cs c' cs')
  let ?f = "\<lambda>cs. concat (map (\<lambda>c. tree_bytes (fst c) @ tree_bytes (snd c)) cs)"
  from Cons.prems(3) have "tree_bytes (fst c) @ tree_bytes (snd c) @ ?f cs @ xs =
      tree_bytes (fst c') @ tree_bytes (snd c') @ ?f cs' @ ys"
    by simp
  then have "shape (fst c) = shape (fst c') \<and>
      tree_bytes (snd c) @ ?f cs @ xs = tree_bytes (snd c') @ ?f cs' @ ys"
    using Cons.prems(1,2) by (intro decodableD) auto
  moreover from this have "shape (snd c) = shape (snd c') \<and> ?f cs @ xs = ?f cs' @ ys"
    using Cons.prems(1,2) by (intro decodableD) auto
  ultimately show ?case
    using Cons.IH Cons.prems(1,2) by (cases c; cases c') auto
qed

lemmas node_eq_simps =
  tree_bytes_node header_bytes_append_eq own_class_def shape_type_eq_iff shape_value_eq_iff le_bytes_append_eq

lemma decodableI:
  "(\<And>e' xs ys. wf_expr e' \<Longrightarrow> tree_bytes e @ xs = tree_bytes e' @ ys \<Longrightarrow> shape e = shape e' \<and> xs = ys) \<Longrightarrow>
   decodable e"
  by (simp add: decodable_def)

lemma decodable_leaf:
  "decodable (BoundReference t i)"
  "decodable (BoundColumnRef t tbl col depth)"
  "decodable (BoundConstant v)"
  "decodable (BoundParameter t v)"
  "\<not> own_class ec \<Longrightarrow> decodable (OtherExpression et ec t)"
proof -
  show "decodable (BoundReference t i)" 
  proof (rule decodableI)
    fix e' xs ys
    assume "wf_expr e'" and "tree_bytes (BoundReference t i) @ xs = tree_bytes e' @ ys"
    then show "shape (BoundReference t i) = shape e' \<and> xs = ys"
      by (cases e') (auto simp: node_eq_simps)
  qed
  show "decodable (BoundColumnRef t tbl col depth)" 
  proof (rule decodableI)
    fix e' xs ys
    assume "wf_expr e'" and "tree_bytes (BoundColumnRef t tbl col depth) @ xs = tree_bytes e' @ ys"
    then show "shape (BoundColumnRef t tbl col depth) = shape e' \<and> xs = ys"
      by (cases e') (auto simp: node_eq_simps)
  qed
  show "decodable (BoundConstant v)" 
  proof (rule decodableI)
    fix e' xs ys
    assume "wf_expr e'" and "tree_bytes (BoundConstant v) @ xs = tree_bytes e' @ ys"
    then show "shape (BoundConstant v) = shape e' \<and> xs = ys"
      by (cases e') (auto simp: node_eq_simps)
  qed
  show "decodable (BoundParameter t v)" 
  proof (rule decodableI)
    fix e' xs ys
    assume "wf_expr e'" and "tree_bytes (BoundParameter t v) @ xs = tree_bytes e' @ ys"
    then show "shape (BoundParameter t v) = shape e' \<and> xs = ys"
      by (cases e') (auto simp: node_eq_simps)
  qed
  show "decodable (OtherExpression et ec t)" if "\<not> own_class ec"
  proof (rule decodableI)
    fix e' xs ys
    assume "wf_expr e'" and "tree_bytes (OtherExpression et ec t) @ xs = tree_bytes e' @ ys"
    then show "shape (OtherExpression et ec t) = shape e' \<and> xs = ys"
      using that by (cases e') (auto simp: node_eq_simps)
  qed
qed

lemma decodable_tree: "wf_expr e \<Longrightarrow> decodable e"
proof (induction e)
  case (BoundComparison et l r)
  then have lr: "decodable l" "decodable r" by auto
  show ?case
    unfolding decodable_def
  proof (intro allI impI)
    fix e' xs ys
    assume wf: "wf_expr e'" and eq: "tree_bytes (BoundComparison et l r) @ xs = tree_bytes e' @ ys"
    then obtain l' r' where e': "e' = BoundComparison et l' r'"
      by (cases e') (auto simp: tree_bytes_node header_bytes_append_eq own_class_def)
    then have "tree_bytes l @ tree_bytes r @ xs = tree_bytes l' @ tree_bytes r' @ ys"
      using eq by (simp add: tree_bytes_node header_bytes_append_eq)
    then have l: "shape l = shape l' \<and> tree_bytes r @ xs = tree_bytes r' @ ys"
      using wf e' by (intro decodableD [OF lr(1)]) simp_all
    then have "shape r = shape r' \<and> xs = ys"
      using decodableD [OF lr(2), of r' xs ys] wf e' by simp
    with l e' show "shape (BoundComparison et l r) = shape e' \<and> xs = ys"
      by simp
  qed
next
  case (BoundConjunction et cs)
  then have cs: "\<And>c. c \<in> set cs \<Longrightarrow> decodable c" "length cs < 2 ^ 64" by auto
  show ?case
    unfolding decodable_def
  proof (intro allI impI)
    fix e' xs ys
    assume wf: "wf_expr e'" and eq: "tree_bytes (BoundConjunction et cs) @ xs = tree_bytes e' @ ys"
    then obtain cs' where e': "e' = BoundConjunction et cs'"
      by (cases e') (auto simp: tree_bytes_node header_bytes_append_eq own_class_def)
    with eq wf cs(2) have "length cs = length cs'"
      and "concat (map tree_bytes cs) @ xs = concat (map tree_bytes cs') @ ys"
      by (auto simp: tree_bytes_node header_bytes_append_eq le_bytes_append_eq count_inject)
    with cs wf e' show "shape (BoundConjunction et cs) = shape e' \<and> xs = ys"
      using decodable_list [of cs cs' xs ys] by auto
  qed
next
  case (BoundOperator et t cs)
  then have cs: "\<And>c. c \<in> set cs \<Longrightarrow> decodable c" "length cs < 2 ^ 64" by auto
  show ?case
    unfolding decodable_def
  proof (intro allI impI)
    fix e' xs ys
    assume wf: "wf_expr e'" and eq: "tree_bytes (BoundOperator et t cs) @ xs = tree_bytes e' @ ys"
    then obtain t' cs' where e': "e' = BoundOperator et t' cs'" and t: "shape_type t = shape_type t'"
      by (cases e') (auto simp: tree_bytes_node header_bytes_append_eq own_class_def shape_type_eq_iff)
    with eq wf cs(2) have "length cs = length cs'"
      and "concat (map tree_bytes cs) @ xs = concat (map tree_bytes cs') @ ys"
      by (auto simp: tree_bytes_node header_bytes_append_eq le_bytes_append_eq count_inject)
    with cs wf e' t show "shape (BoundOperator et t cs) = shape e' \<and> xs = ys"
      using decodable_list [of cs cs' xs ys] by auto
  qed
next
  case (BoundFunction t f cs)
  then have cs: "\<And>c. c \<in> set cs \<Longrightarrow> decodable c" "length cs < 2 ^ 64" "length (fn_name f) < 2 ^ 64"
    by auto
  show ?case
    unfolding decodable_def
  proof (intro allI impI)
    fix e' xs ys
    assume wf: "wf_expr e'" and eq: "tree_bytes (BoundFunction t f cs) @ xs = tree_bytes e' @ ys"
    then obtain t' f' cs' where e': "e' = BoundFunction t' f' cs'" and t: "shape_type t = shape_type t'"
      by (cases e') (auto simp: tree_bytes_node header_bytes_append_eq own_class_def shape_type_eq_iff)
    with eq wf cs(2,3) have "fn_name f = fn_name f'" and "length cs = length cs'"
      and "concat (map tree_bytes cs) @ xs = concat (map tree_bytes cs') @ ys"
      by (auto simp: tree_bytes_node header_bytes_append_eq le_bytes_append_eq count_inject)
    with cs wf e' t show "shape (BoundFunction t f cs) = shape e' \<and> xs = ys"
      using decodable_list [of cs cs' xs ys] by auto
  qed
next
  case (BoundCast t try_cast c)
  then have c: "decodable c" by auto
  show ?case
    unfolding decodable_def
  proof (intro allI impI)
    fix e' xs ys
    assume wf: "wf_expr e'" and eq: "tree_bytes (BoundCast t try_cast c) @ xs = tree_bytes e' @ ys"
    then obtain t' tc' c' where e': "e' = BoundCast t' tc' c'" and t: "shape_type t = shape_type t'"
      by (cases e') (auto simp: tree_bytes_node header_bytes_append_eq own_class_def shape_type_eq_iff)
    with eq have "tree_bytes c @ le_bytes 1 (of_bool try_cast) @ xs =
        tree_bytes c' @ le_bytes 1 (of_bool tc') @ ys"
      by (simp add: tree_bytes_node header_bytes_append_eq del: le_bytes.simps One_nat_def)
    then have "shape c = shape c' \<and> le_bytes 1 (of_bool try_cast) @ xs = le_bytes 1 (of_bool tc') @ ys"
      using wf e' by (intro decodableD [OF c]) simp_all
    with t e' show "shape (BoundCast t try_cast c) = shape e' \<and> xs = ys"
      by (simp add: le_bytes_append_eq del: le_bytes.simps One_nat_def)
  qed
next
  case (BoundCase t checks els)
  then obtain el where els: "els = Some el" "wf_expr el"
    by (auto split: option.splits)
  have ch: "decodable (fst c) \<and> decodable (snd c)" if "c \<in> set checks" for c
    using BoundCase that by (cases c) force
  have el: "decodable el" and len: "length checks < 2 ^ 64"
    using BoundCase els by auto
  show ?case
    unfolding decodable_def
  proof (intro allI impI)
    fix e' xs ys
    assume wf: "wf_expr e'" and eq: "tree_bytes (BoundCase t checks els) @ xs = tree_bytes e' @ ys"
    let ?f = "\<lambda>cs. concat (map (\<lambda>c. tree_bytes (fst c) @ tree_bytes (snd c)) cs)"
    obtain t' checks' el' where e': "e' = BoundCase t' checks' (Some el')"
      and t: "shape_type t = shape_type t'"
      using wf eq by (cases e')
        (auto simp: tree_bytes_node header_bytes_append_eq own_class_def shape_type_eq_iff split: option.splits)
    with eq wf len els have "length checks = length checks'"
      and "?f checks @ tree_bytes el @ xs = ?f checks' @ tree_bytes el' @ ys"
      by (auto simp: tree_bytes_node header_bytes_append_eq le_bytes_append_eq count_inject)
    then have "map (map_prod shape shape) checks = map (map_prod shape shape) checks' \<and>
        tree_bytes el @ xs = tree_bytes el' @ ys"
      using ch wf e' by (intro decodable_checks) auto
    with el wf e' t els show "shape (BoundCase t checks els) = shape e' \<and> xs = ys"
      using decodableD [of el el' xs ys] by simp
  qed
next
  case (BoundBetween li ui i l u)
  then have ilu: "decodable i" "decodable l" "decodable u" by auto
  show ?case
    unfolding decodable_def
  proof (intro allI impI)
    fix e' xs ys
    assume wf: "wf_expr e'" and eq: "tree_bytes (BoundBetween li ui i l u) @ xs = tree_bytes e' @ ys"
    then obtain li' ui' i' l' u' where e': "e' = BoundBetween li' ui' i' l' u'"
      by (cases e') (auto simp: tree_bytes_node header_bytes_append_eq own_class_def)
    with eq have incl: "li = li' \<and> ui = ui'" and
      "tree_bytes i @ tree_bytes l @ tree_bytes u @ xs = tree_bytes i' @ tree_bytes l' @ tree_bytes u' @ ys"
      by (simp_all add: tree_bytes_node header_bytes_append_eq le_bytes_append_eq
          del: le_bytes.simps One_nat_def)
    then have i: "shape i = shape i' \<and> tree_bytes l @ tree_bytes u @ xs = tree_bytes l' @ tree_bytes u' @ ys"
      using wf e' by (intro decodableD [OF ilu(1)]) simp_all
    then have l: "shape l = shape l' \<and> tree_bytes u @ xs = tree_bytes u' @ ys"
      using wf e' by (intro decodableD [OF ilu(2)]) simp_all
    then have "shape u = shape u' \<and> xs = ys"
      using decodableD [OF ilu(3), of u' xs ys] wf e' by simp
    with incl i l e' show "shape (BoundBetween li ui i l u) = shape e' \<and> xs = ys"
      by simp
  qed
qed (simp_all add: decodable_leaf)

lemma tree_bytes_eq_iff:
  "wf_expr e \<Longrightarrow> wf_expr e' \<Longrightarrow> tree_bytes e = tree_bytes e' \<longleftrightarrow> shape e = shape e'"
  using decodableD [OF decodable_tree, of e e' "[]" "[]"] by (metis append_Nil2 tree_bytes_shape)

section \<open>Collisions of FNV-1a\<close>

text \<open>The prime is odd, so multiplication by it is injective on 64-bit words.\<close>

lemma FNV_PRIME_mult_inject [simp]: "a * FNV_PRIME = b * FNV_PRIME \<longleftrightarrow> a = b"
proof
  assume eq: "a * FNV_PRIME = b * FNV_PRIME"
  have inv: "FNV_PRIME * 14886173955864302971 = 1"
    by (simp add: FNV_PRIME_def)
  have "a * (FNV_PRIME * 14886173955864302971) = b * (FNV_PRIME * 14886173955864302971)"
    using eq by (simp only: mult.assoc [symmetric])
  then show "a = b" by (simp add: inv)
qed simp

lemma xor_right_cancel: "a XOR b = a XOR (c :: u64) \<longleftrightarrow> b = c"
  by (auto simp: bit_eq_iff bit_xor_iff)

lemma xor_left_cancel: "a XOR c = b XOR (c :: u64) \<longleftrightarrow> a = b"
  by (auto simp: bit_eq_iff bit_xor_iff)

lemma ucast_byte_inject: "(ucast (b :: 8 word) :: u64) = ucast b' \<longleftrightarrow> b = b'"
proof -
  have "unat (ucast x :: u64) = unat x" for x :: "8 word"
  proof -
    have "unat x < 2 ^ LENGTH(8)" by (rule unsigned_less)
    then show ?thesis by (simp add: unsigned_ucast_eq take_bit_nat_eq_self)
  qed
  then show ?thesis by (metis word_unat_eq_iff)
qed

lemma Fnv1aUpdate_inject: "Fnv1aUpdate h xs = Fnv1aUpdate h' xs \<longleftrightarrow> h = h'"
  by (induction xs arbitrary: h h') (auto simp: xor_left_cancel)

lemma Fnv1aUpdate_one_byte:
  "Fnv1aUpdate h (xs @ b # ys) = Fnv1aUpdate h (xs @ b' # ys) \<longleftrightarrow> b = b'"
  by (simp add: Fnv1aUpdate_inject xor_right_cancel ucast_byte_inject)

section \<open>Properties\<close>

text \<open>C13: The fingerprint of a tree is the FNV-1a hash of one byte string, and two well-formed trees have the
  same byte string exactly when they have the same shape: the same node kinds, type ids, physical
  types, column slots, function names, child counts and flags, whatever their constants are. A
  collision of two trees of different shape can only come from the 64-bit hash.\<close>

theorem fingerprint_characterises_shape:
  assumes "wf_expr e" and "wf_expr e'"
  shows "Fingerprint e = Fnv1aUpdate FNV_OFFSET_BASIS (tree_bytes e) \<and>
         (tree_bytes e = tree_bytes e' \<longleftrightarrow> shape e = shape e')"
  using assms by (simp add: Fingerprint_def HashExpressionTree_bytes tree_bytes_eq_iff)

lemma Fingerprint_shape: "shape e = shape e' \<Longrightarrow> Fingerprint e = Fingerprint e'"
  using tree_bytes_shape [of e] tree_bytes_shape [of e'] by (simp add: Fingerprint_def HashExpressionTree_bytes)

definition ex_int :: LogicalType where
  "ex_int = \<lparr>lt_id = LT_INTEGER, lt_physical_type = PT_INT32, lt_type_info = None\<rparr>"

definition ex_const :: "int \<Rightarrow> Expression" where
  "ex_const c = BoundConstant \<lparr>value_type = ex_int, is_null = False, value_data = CInt c\<rparr>"

definition ex_plus :: "int \<Rightarrow> Expression" where
  "ex_plus c =
     BoundFunction ex_int \<lparr>fn_name = ''+'', fn_can_throw = True, fn_stability = FS_CONSISTENT, fn_volatile_lambda = False\<rparr>
       [BoundReference ex_int 0, ex_const c]"

lemmas ex_defs = ex_int_def ex_const_def ex_plus_def

theorem fingerprint_characterises_shape_witness:
  "wf_expr (ex_plus 1) \<and> wf_expr (BoundReference ex_int 3) \<and>
   tree_bytes (ex_plus 1) \<noteq> tree_bytes (BoundReference ex_int 3)"
proof -
  have wf: "wf_expr (ex_plus 1)" "wf_expr (BoundReference ex_int 3)"
    by (simp_all add: ex_defs)
  then show ?thesis
    using fingerprint_characterises_shape [OF wf] by (simp add: ex_defs)
qed

text \<open>Two trees that differ in the values of their constants only have the same fingerprint: the
  fingerprint reads the shape and nothing else.\<close>

theorem fingerprint_ignores_constants:
  assumes "shape e = shape e'"
  shows "Fingerprint e = Fingerprint e'"
  using assms by (rule Fingerprint_shape)

theorem fingerprint_ignores_constants_witness:
  "shape (ex_plus 1) = shape (ex_plus 2) \<and> ex_plus 1 \<noteq> ex_plus 2 \<and>
   Fingerprint (ex_plus 1) = Fingerprint (ex_plus 2)"
proof -
  have "shape (ex_plus 1) = shape (ex_plus 2)"
    by (simp add: ex_defs)
  then show ?thesis
    using fingerprint_ignores_constants [of "ex_plus 1" "ex_plus 2"] by (simp add: ex_defs)
qed

lemma le_bytes_small: "v < 256 \<Longrightarrow> le_bytes 8 v = word_of_nat v # le_bytes 7 0"
  using le_bytes.simps(2) [of 7 v] by simp

lemma byte_of_nat_inject: "a < 256 \<Longrightarrow> b < 256 \<Longrightarrow> (word_of_nat a :: 8 word) = word_of_nat b \<longleftrightarrow> a = b"
  by (simp add: word_of_nat_eq_iff take_bit_nat_eq_self)

text \<open>References to two different column slots below 256 of the same type never collide, in particular
  for the 64 columns that the JIT accepts.\<close>

theorem fingerprint_separates_slots:
  assumes "i \<noteq> j" and "unat i < 256" and "unat j < 256"
  shows "Fingerprint (BoundReference t i) \<noteq> Fingerprint (BoundReference t j)"
proof -
  have "(word_of_nat (unat i) :: 8 word) \<noteq> word_of_nat (unat j)"
    using assms by (subst byte_of_nat_inject) (simp_all add: word_unat_eq_iff)
  moreover have "header_bytes (BoundReference t i) = header_bytes (BoundReference t j)"
    by (simp add: header_bytes_def)
  ultimately show ?thesis
    using assms(2,3)
    by (simp add: Fingerprint_def HashExpressionTree_bytes tree_bytes_node le_bytes_small
        Fnv1aUpdate_one_byte del: Fnv1aUpdate_append)
qed

theorem fingerprint_separates_slots_witness:
  "Fingerprint (BoundReference ex_int 0) \<noteq> Fingerprint (BoundReference ex_int 63)"
  using fingerprint_separates_slots [of 0 63 ex_int] by simp

end
