(* ===== verification/Jit_Profiler.thy ===== *)
theory Jit_Profiler
  imports Jit_Fingerprint
begin

text \<open>
  The state of \<open>src/duckdb/src/execution/jit/jit_profiler.cpp\<close>: the tuple-weighted execution counts
  per fingerprint and per query, the hot labels under a threshold with their notification, and
  the sorted exports.

  The profiler is a record of its members; the mutex makes each method one atomic step, so a
  method is a function from the state before the call to the state after it. The thread-local
  stack of query scopes is a separate argument. The nanoseconds that the clock measures around the
  critical section are an argument of \<open>Record\<close>, and a call of the callback is a value that
  \<open>Record\<close> returns.
\<close>

section \<open>State\<close>

record JITProfiler =
  counts :: "(u64, u64) umap"
  per_query_counts :: "(u64, (u64, u64) umap) umap"
  hotness_threshold :: "u64 option"
  hot_labeled_fingerprints :: "u64 list"
  on_fingerprint_became_hot :: "nat option"
  record_invocations :: u64
  tuples_accounted :: u64
  locked_section_nanoseconds :: u64

text \<open>
  The member initialisers. \<open>hot_labeled_fingerprints\<close> is a \<open>std::unordered_set\<close> (a list without
  duplicates); the callback is an identifier of the installed function, or none.
\<close>

definition JITProfiler_init :: JITProfiler where
  "JITProfiler_init =
     \<lparr>counts = [], per_query_counts = [], hotness_threshold = None, hot_labeled_fingerprints = [],
      on_fingerprint_became_hot = None, record_invocations = 0, tuples_accounted = 0,
      locked_section_nanoseconds = 0\<rparr>"

text \<open>\<open>operator[]\<close> of a map of counters inserts 0 for a missing key.\<close>

definition um_counter :: "('k, u64) umap \<Rightarrow> 'k \<Rightarrow> u64" where
  "um_counter m k = (case map_of m k of None \<Rightarrow> 0 | Some c \<Rightarrow> c)"

definition um_add :: "'k \<Rightarrow> u64 \<Rightarrow> ('k, u64) umap \<Rightarrow> ('k, u64) umap" where
  "um_add k n m = AList.update k (um_counter m k + n) m"

section \<open>Query scopes\<close>

definition PushQueryScope :: "u64 \<Rightarrow> u64 list \<Rightarrow> u64 list" where
  "PushQueryScope query_id scope = scope @ [query_id]"

definition PopQueryScope :: "u64 list \<Rightarrow> u64 list" where
  "PopQueryScope scope = (if scope \<noteq> [] then butlast scope else scope)"

section \<open>Recording\<close>

text \<open>
  The critical section of \<open>Record\<close>, under the lock: the counters and the label. The boolean is
  \<open>do_notify\<close>.
\<close>

definition Record_locked :: "u64 list \<Rightarrow> u64 \<Rightarrow> u64 \<Rightarrow> JITProfiler \<Rightarrow> bool \<times> JITProfiler" where
  "Record_locked scope fp tuple_count p =
     (let new_count = um_counter (counts p) fp + tuple_count;
          p = p\<lparr>counts := AList.update fp new_count (counts p)\<rparr>;
          p = (if scope \<noteq> []
               then (let q = last scope;
                         inner = (case map_of (per_query_counts p) q of None \<Rightarrow> [] | Some m \<Rightarrow> m)
                     in p\<lparr>per_query_counts := AList.update q (um_add fp tuple_count inner) (per_query_counts p)\<rparr>)
               else p)
      in case hotness_threshold p of
           None \<Rightarrow> (False, p)
         | Some threshold \<Rightarrow>
             (if new_count \<ge> threshold \<and> fp \<notin> set (hot_labeled_fingerprints p)
              then (True, p\<lparr>hot_labeled_fingerprints := fp # hot_labeled_fingerprints p\<rparr>)
              else (False, p)))"

definition Record_eligible :: "Expression \<Rightarrow> bool" where
  "Record_eligible expr \<longleftrightarrow> ProfilesAsArithmeticRoot expr \<or> CanCompile expr"

definition Record :: "u64 list \<Rightarrow> Expression \<Rightarrow> u64 \<Rightarrow> u64 \<Rightarrow> JITProfiler \<Rightarrow> (nat \<times> u64) option \<times> JITProfiler" where
  "Record scope expr tuple_count delta p =
     (if \<not> Record_eligible expr then (None, p)
      else
        let p = p\<lparr>record_invocations := record_invocations p + 1\<rparr>;
            p = p\<lparr>tuples_accounted := tuples_accounted p + tuple_count\<rparr>;
            fp = Fingerprint expr;
            (do_notify, p) = Record_locked scope fp tuple_count p;
            p = p\<lparr>locked_section_nanoseconds := locked_section_nanoseconds p + delta\<rparr>
        in (if do_notify then map_option (\<lambda>cb. (cb, fp)) (on_fingerprint_became_hot p) else None, p))"

definition GetCount :: "Expression \<Rightarrow> JITProfiler \<Rightarrow> u64" where
  "GetCount expr p = (case map_of (counts p) (Fingerprint expr) of None \<Rightarrow> 0 | Some c \<Rightarrow> c)"

definition GetCountForQuery :: "u64 \<Rightarrow> Expression \<Rightarrow> JITProfiler \<Rightarrow> u64" where
  "GetCountForQuery query_id expr p =
     (case map_of (per_query_counts p) query_id of
        None \<Rightarrow> 0
      | Some inner \<Rightarrow> (case map_of inner (Fingerprint expr) of None \<Rightarrow> 0 | Some c \<Rightarrow> c))"

section \<open>Hot labels\<close>

definition RebuildHotLabelsLocked :: "JITProfiler \<Rightarrow> JITProfiler" where
  "RebuildHotLabelsLocked p =
     (let p = p\<lparr>hot_labeled_fingerprints := []\<rparr> in
      case hotness_threshold p of
        None \<Rightarrow> p
      | Some threshold_value \<Rightarrow>
          foldl (\<lambda>p entry.
              if snd entry \<ge> threshold_value
              then p\<lparr>hot_labeled_fingerprints := List.insert (fst entry) (hot_labeled_fingerprints p)\<rparr>
              else p) p (counts p))"

definition SetHotnessThreshold :: "u64 \<Rightarrow> JITProfiler \<Rightarrow> JITProfiler" where
  "SetHotnessThreshold minimum_tuple_count p =
     RebuildHotLabelsLocked (p\<lparr>hotness_threshold := Some minimum_tuple_count\<rparr>)"

definition ClearHotnessThreshold :: "JITProfiler \<Rightarrow> JITProfiler" where
  "ClearHotnessThreshold p = p\<lparr>hotness_threshold := None, hot_labeled_fingerprints := []\<rparr>"

definition HasHotnessThreshold :: "JITProfiler \<Rightarrow> bool" where
  "HasHotnessThreshold p \<longleftrightarrow> hotness_threshold p \<noteq> None"

definition PassesHotnessThreshold :: "u64 \<Rightarrow> JITProfiler \<Rightarrow> bool" where
  "PassesHotnessThreshold tuple_count p =
     (case hotness_threshold p of None \<Rightarrow> tuple_count > 0 | Some t \<Rightarrow> tuple_count \<ge> t)"

definition IsFingerprintHot :: "u64 \<Rightarrow> JITProfiler \<Rightarrow> bool" where
  "IsFingerprintHot fingerprint p =
     (if hotness_threshold p \<noteq> None then fingerprint \<in> set (hot_labeled_fingerprints p)
      else case map_of (counts p) fingerprint of None \<Rightarrow> False | Some c \<Rightarrow> c > 0)"

definition IsExpressionHot :: "Expression \<Rightarrow> JITProfiler \<Rightarrow> bool" where
  "IsExpressionHot expr p = IsFingerprintHot (Fingerprint expr) p"

definition GetHotLabeledFingerprints :: "JITProfiler \<Rightarrow> u64 list" where
  "GetHotLabeledFingerprints p =
     (if hotness_threshold p = None then [] else std_sort (<) (hot_labeled_fingerprints p))"

definition SetFingerprintBecameHotCallback :: "nat \<Rightarrow> JITProfiler \<Rightarrow> JITProfiler" where
  "SetFingerprintBecameHotCallback callback p = p\<lparr>on_fingerprint_became_hot := Some callback\<rparr>"

definition ClearFingerprintBecameHotCallback :: "JITProfiler \<Rightarrow> JITProfiler" where
  "ClearFingerprintBecameHotCallback p = p\<lparr>on_fingerprint_became_hot := None\<rparr>"

section \<open>Exports\<close>

record JITProfilerFingerprintCount =
  fingerprint :: u64
  tuple_count :: u64

record JITProfilerQueryFingerprintStats =
  query_id :: u64
  per_expression :: "JITProfilerFingerprintCount list"

record JITProfilerOverheadStats =
  oh_record_calls :: u64
  oh_tuples_accounted :: u64
  oh_locked_section_nanoseconds :: u64

record JITProfilerExportData =
  global_by_fingerprint :: "JITProfilerFingerprintCount list"
  by_query :: "JITProfilerQueryFingerprintStats list"
  hotness_threshold_configured :: bool
  hotness_threshold_value :: u64
  ex_hot_labeled_fingerprints :: "u64 list"
  overhead :: JITProfilerOverheadStats

definition fp_less :: "JITProfilerFingerprintCount \<Rightarrow> JITProfilerFingerprintCount \<Rightarrow> bool" where
  "fp_less a b \<longleftrightarrow> fingerprint a < fingerprint b"

definition SortFingerprintCounts :: "JITProfilerFingerprintCount list \<Rightarrow> JITProfilerFingerprintCount list" where
  "SortFingerprintCounts v = std_sort fp_less v"

definition hot_less :: "JITProfilerFingerprintCount \<Rightarrow> JITProfilerFingerprintCount \<Rightarrow> bool" where
  "hot_less a b \<longleftrightarrow>
     (if tuple_count a \<noteq> tuple_count b then tuple_count a > tuple_count b
      else fingerprint a < fingerprint b)"

definition entries :: "(u64, u64) umap \<Rightarrow> JITProfilerFingerprintCount list" where
  "entries m = map (\<lambda>(fp, c). \<lparr>fingerprint = fp, tuple_count = c\<rparr>) m"

definition GetGlobalExpressionStats :: "JITProfiler \<Rightarrow> JITProfilerFingerprintCount list" where
  "GetGlobalExpressionStats p = SortFingerprintCounts (entries (counts p))"

text \<open>\<open>per_query_counts.find(qid)->second\<close>, for a \<open>qid\<close> that was read from the same map.\<close>

definition GetPerQueryExpressionStats :: "JITProfiler \<Rightarrow> JITProfilerQueryFingerprintStats list" where
  "GetPerQueryExpressionStats p =
     (let query_ids = std_sort (<) (map fst (per_query_counts p)) in
      map (\<lambda>qid. \<lparr>query_id = qid,
             per_expression = SortFingerprintCounts (entries (the (map_of (per_query_counts p) qid)))\<rparr>)
        query_ids)"

definition GetTopHotExpressions :: "idx_t \<Rightarrow> JITProfiler \<Rightarrow> JITProfilerFingerprintCount list" where
  "GetTopHotExpressions limit p =
     (let out = std_sort hot_less (entries (counts p)) in
      if length out > limit then take limit out else out)"

definition GetOverheadStats :: "JITProfiler \<Rightarrow> JITProfilerOverheadStats" where
  "GetOverheadStats p =
     \<lparr>oh_record_calls = record_invocations p, oh_tuples_accounted = tuples_accounted p,
      oh_locked_section_nanoseconds = locked_section_nanoseconds p\<rparr>"

definition ExportSnapshot :: "JITProfiler \<Rightarrow> JITProfilerExportData" where
  "ExportSnapshot p =
     (let query_ids = std_sort (<) (map fst (per_query_counts p)) in
      \<lparr>global_by_fingerprint = SortFingerprintCounts (entries (counts p)),
       by_query = map (\<lambda>qid. \<lparr>query_id = qid,
          per_expression = SortFingerprintCounts (entries (the (map_of (per_query_counts p) qid)))\<rparr>)
          query_ids,
       hotness_threshold_configured = (hotness_threshold p \<noteq> None),
       hotness_threshold_value = (case hotness_threshold p of None \<Rightarrow> 0 | Some t \<Rightarrow> t),
       ex_hot_labeled_fingerprints = std_sort (<) (hot_labeled_fingerprints p),
       overhead = GetOverheadStats p\<rparr>)"

definition Profiler_Reset :: "JITProfiler \<Rightarrow> JITProfiler" where
  "Profiler_Reset p =
     p\<lparr>counts := [], per_query_counts := [], hotness_threshold := None,
       hot_labeled_fingerprints := [], on_fingerprint_became_hot := None,
       record_invocations := 0, tuples_accounted := 0, locked_section_nanoseconds := 0\<rparr>"

section \<open>Comparators\<close>

interpretation fp_order: strict_weak_order fp_less
  by unfold_locales (auto simp: fp_less_def)

interpretation hot_order: strict_weak_order hot_less
  by unfold_locales (auto simp: hot_less_def split: if_splits)

lemma sorted_fingerprints: "sorted (map fingerprint (SortFingerprintCounts v))"
  using fp_order.sorted_std_sort [of v]
  by (simp add: SortFingerprintCounts_def fp_less_def not_less sorted_map)

lemma hot_less_total: "\<not> hot_less a b \<Longrightarrow> \<not> hot_less b a \<Longrightarrow> a = b"
  by (cases a; cases b) (auto simp: hot_less_def split: if_splits)

section \<open>Operations as atomic steps\<close>

text \<open>
  The mutating methods, each one atomic step under the profiler's mutex. An execution of several
  threads is a sequence of such steps. A \<open>Record\<close> step carries the query scopes of its thread.
\<close>

datatype profiler_op =
    OpRecord "u64 list" Expression u64 u64
  | OpSetThreshold u64
  | OpClearThreshold
  | OpSetCallback nat
  | OpClearCallback
  | OpReset

primrec profiler_step :: "profiler_op \<Rightarrow> JITProfiler \<Rightarrow> JITProfiler" where
  "profiler_step (OpRecord scope e n delta) p = snd (Record scope e n delta p)"
| "profiler_step (OpSetThreshold t) p = SetHotnessThreshold t p"
| "profiler_step OpClearThreshold p = ClearHotnessThreshold p"
| "profiler_step (OpSetCallback cb) p = SetFingerprintBecameHotCallback cb p"
| "profiler_step OpClearCallback p = ClearFingerprintBecameHotCallback p"
| "profiler_step OpReset p = Profiler_Reset p"

primrec profiler_notifies :: "profiler_op \<Rightarrow> JITProfiler \<Rightarrow> u64 list" where
  "profiler_notifies (OpRecord scope e n delta) p =
     (case fst (Record scope e n delta p) of None \<Rightarrow> [] | Some (cb, fp) \<Rightarrow> [fp])"
| "profiler_notifies (OpSetThreshold t) p = []"
| "profiler_notifies OpClearThreshold p = []"
| "profiler_notifies (OpSetCallback cb) p = []"
| "profiler_notifies OpClearCallback p = []"
| "profiler_notifies OpReset p = []"

fun profiler_run :: "profiler_op list \<Rightarrow> JITProfiler \<Rightarrow> u64 list \<times> JITProfiler" where
  "profiler_run [] p = ([], p)"
| "profiler_run (x # xs) p =
     (let (ns, p') = profiler_run xs (profiler_step x p) in (profiler_notifies x p @ ns, p'))"

section \<open>Effect of one step\<close>

lemma um_counter_update [simp]:
  "um_counter (AList.update k v m) k' = (if k' = k then v else um_counter m k')"
  by (simp add: um_counter_def)

lemma um_wf_um_add [simp]: "um_wf m \<Longrightarrow> um_wf (um_add k n m)"
  by (simp add: um_add_def)

lemma um_counter_um_add [simp]:
  "um_counter (um_add k n m) k' = (if k' = k then um_counter m k + n else um_counter m k')"
  by (simp add: um_add_def)

lemma GetCount_counter: "GetCount e p = um_counter (counts p) (Fingerprint e)"
  by (simp add: GetCount_def um_counter_def)

lemma Record_counts:
  "counts (snd (Record scope e n delta p)) =
     (if Record_eligible e
      then AList.update (Fingerprint e) (um_counter (counts p) (Fingerprint e) + n) (counts p)
      else counts p)"
  by (simp add: Record_def Record_locked_def Let_def split: option.splits prod.splits)

lemma Record_threshold [simp]: "hotness_threshold (snd (Record scope e n delta p)) = hotness_threshold p"
  by (simp add: Record_def Record_locked_def Let_def split: option.splits prod.splits)

lemma Record_callback [simp]:
  "on_fingerprint_became_hot (snd (Record scope e n delta p)) = on_fingerprint_became_hot p"
  by (simp add: Record_def Record_locked_def Let_def split: option.splits prod.splits)

definition becomes_hot :: "Expression \<Rightarrow> u64 \<Rightarrow> JITProfiler \<Rightarrow> bool" where
  "becomes_hot e n p \<longleftrightarrow> Record_eligible e \<and>
     (case hotness_threshold p of
        None \<Rightarrow> False
      | Some t \<Rightarrow> t \<le> um_counter (counts p) (Fingerprint e) + n \<and>
                  Fingerprint e \<notin> set (hot_labeled_fingerprints p))"

lemma Record_labels:
  "hot_labeled_fingerprints (snd (Record scope e n delta p)) =
     (if becomes_hot e n p then Fingerprint e # hot_labeled_fingerprints p
      else hot_labeled_fingerprints p)"
  by (auto simp: Record_def Record_locked_def becomes_hot_def Let_def split: option.splits prod.splits)

lemma Record_notify:
  "fst (Record scope e n delta p) =
     (if becomes_hot e n p then map_option (\<lambda>cb. (cb, Fingerprint e)) (on_fingerprint_became_hot p)
      else None)"
  by (auto simp: Record_def Record_locked_def becomes_hot_def Let_def split: option.splits prod.splits)

definition query_counter :: "JITProfiler \<Rightarrow> u64 \<Rightarrow> u64 \<Rightarrow> u64" where
  "query_counter p q fp =
     (case map_of (per_query_counts p) q of None \<Rightarrow> 0 | Some m \<Rightarrow> um_counter m fp)"

lemma GetCountForQuery_counter: "GetCountForQuery q e p = query_counter p q (Fingerprint e)"
  by (simp add: GetCountForQuery_def query_counter_def um_counter_def split: option.splits)

lemma Record_per_query:
  "per_query_counts (snd (Record scope e n delta p)) =
     (if Record_eligible e \<and> scope \<noteq> []
      then AList.update (last scope)
             (um_add (Fingerprint e) n
               (case map_of (per_query_counts p) (last scope) of None \<Rightarrow> [] | Some m \<Rightarrow> m))
             (per_query_counts p)
      else per_query_counts p)"
  by (simp add: Record_def Record_locked_def Let_def split: option.split prod.split)

lemma um_counter_Nil [simp]: "um_counter [] k = 0"
  by (simp add: um_counter_def)

lemma Record_query_counter:
  "query_counter (snd (Record scope e n delta p)) q fp =
     query_counter p q fp +
     (if Record_eligible e \<and> scope \<noteq> [] \<and> last scope = q \<and> Fingerprint e = fp then n else 0)"
  by (cases "map_of (per_query_counts p) q") (auto simp: query_counter_def Record_per_query)

lemma RebuildHotLabels_fields [simp]:
  "counts (RebuildHotLabelsLocked p) = counts p"
  "hotness_threshold (RebuildHotLabelsLocked p) = hotness_threshold p"
proof -
  have "counts (foldl (\<lambda>p entry. if snd entry \<ge> t
          then p\<lparr>hot_labeled_fingerprints := List.insert (fst entry) (hot_labeled_fingerprints p)\<rparr>
          else p) p xs) = counts p \<and>
        hotness_threshold (foldl (\<lambda>p entry. if snd entry \<ge> t
          then p\<lparr>hot_labeled_fingerprints := List.insert (fst entry) (hot_labeled_fingerprints p)\<rparr>
          else p) p xs) = hotness_threshold p"
    for p :: JITProfiler and t :: u64 and xs :: "(u64 \<times> u64) list"
    by (induction xs arbitrary: p) auto
  then show "counts (RebuildHotLabelsLocked p) = counts p"
    and "hotness_threshold (RebuildHotLabelsLocked p) = hotness_threshold p"
    by (simp_all add: RebuildHotLabelsLocked_def Let_def split: option.splits)
qed

lemma rebuild_fold:
  fixes p :: JITProfiler and t :: u64
  defines "step \<equiv> \<lambda>p entry. if snd entry \<ge> t
     then p\<lparr>hot_labeled_fingerprints := List.insert (fst entry) (hot_labeled_fingerprints p)\<rparr> else p"
  shows "set (hot_labeled_fingerprints (foldl step p xs)) =
           set (hot_labeled_fingerprints p) \<union> {fp. \<exists>c. (fp, c) \<in> set xs \<and> t \<le> c}"
    and "distinct (hot_labeled_fingerprints p) \<Longrightarrow> distinct (hot_labeled_fingerprints (foldl step p xs))"
  by (induction xs arbitrary: p) (auto simp: step_def)

lemma SetHotnessThreshold_labels:
  "set (hot_labeled_fingerprints (SetHotnessThreshold t p)) = {fp. \<exists>c. (fp, c) \<in> set (counts p) \<and> t \<le> c}"
  "distinct (hot_labeled_fingerprints (SetHotnessThreshold t p))"
  by (simp_all add: SetHotnessThreshold_def RebuildHotLabelsLocked_def Let_def rebuild_fold)

lemma SetHotnessThreshold_fields [simp]:
  "counts (SetHotnessThreshold t p) = counts p"
  "hotness_threshold (SetHotnessThreshold t p) = Some t"
  by (simp_all add: SetHotnessThreshold_def)

lemma ClearHotnessThreshold_fields [simp]:
  "counts (ClearHotnessThreshold p) = counts p"
  "hotness_threshold (ClearHotnessThreshold p) = None"
  "hot_labeled_fingerprints (ClearHotnessThreshold p) = []"
  by (simp_all add: ClearHotnessThreshold_def)

lemma callback_fields [simp]:
  "counts (SetFingerprintBecameHotCallback cb p) = counts p"
  "hotness_threshold (SetFingerprintBecameHotCallback cb p) = hotness_threshold p"
  "hot_labeled_fingerprints (SetFingerprintBecameHotCallback cb p) = hot_labeled_fingerprints p"
  "counts (ClearFingerprintBecameHotCallback p) = counts p"
  "hotness_threshold (ClearFingerprintBecameHotCallback p) = hotness_threshold p"
  "hot_labeled_fingerprints (ClearFingerprintBecameHotCallback p) = hot_labeled_fingerprints p"
  by (simp_all add: SetFingerprintBecameHotCallback_def ClearFingerprintBecameHotCallback_def)

lemma Profiler_Reset_fields [simp]:
  "counts (Profiler_Reset p) = []"
  "hotness_threshold (Profiler_Reset p) = None"
  "hot_labeled_fingerprints (Profiler_Reset p) = []"
  by (simp_all add: Profiler_Reset_def)

section \<open>Invariant\<close>

text \<open>
  The maps have distinct keys, the label set has no duplicates, and the labels mirror the counts
  under the configured threshold. The last part needs that no counter wraps around, which
  \<open>bounded\<close> gives: no counter exceeds the number of tuples recorded so far.
\<close>

definition profiler_wf :: "JITProfiler \<Rightarrow> bool" where
  "profiler_wf p \<longleftrightarrow> um_wf (counts p) \<and> distinct (hot_labeled_fingerprints p)"

definition labels_ok :: "JITProfiler \<Rightarrow> bool" where
  "labels_ok p \<longleftrightarrow>
     set (hot_labeled_fingerprints p) =
       (case hotness_threshold p of
          None \<Rightarrow> {}
        | Some t \<Rightarrow> {fp. \<exists>c. map_of (counts p) fp = Some c \<and> t \<le> c})"

definition bounded :: "nat \<Rightarrow> JITProfiler \<Rightarrow> bool" where
  "bounded b p \<longleftrightarrow> (\<forall>fp. unat (um_counter (counts p) fp) \<le> b)"

definition recorded :: "profiler_op \<Rightarrow> nat" where
  "recorded x = (case x of OpRecord scope e n delta \<Rightarrow> unat n | _ \<Rightarrow> 0)"

lemma profiler_wf_step [duck_inv]: "profiler_wf p \<Longrightarrow> profiler_wf (profiler_step x p)"
  by (cases x) (simp_all add: profiler_wf_def Record_counts Record_labels becomes_hot_def
      SetHotnessThreshold_labels split: option.splits)

lemma unat_add_le: "unat (a + b :: u64) \<le> unat a + unat b"
  by (simp add: unat_word_ariths)

lemma bounded_step:
  assumes "bounded b p"
  shows "bounded (b + recorded x) (profiler_step x p)"
proof (cases x)
  case (OpRecord scope e n delta)
  have b: "unat (um_counter (counts p) fp) \<le> b" for fp
    using assms by (simp add: bounded_def)
  have "unat (um_counter (counts p) fp + n) \<le> b + unat n" for fp
    using unat_add_le [of "um_counter (counts p) fp" n] b [of fp] by simp
  then show ?thesis
    using OpRecord b by (simp add: bounded_def recorded_def Record_counts trans_le_add1)
qed (use assms in \<open>simp_all add: bounded_def recorded_def um_counter_def\<close>)

lemma labels_ok_record:
  assumes wf: "profiler_wf p" and ok: "labels_ok p"
    and no_wrap: "unat (um_counter (counts p) (Fingerprint e)) + unat n < 2 ^ 64"
  shows "labels_ok (snd (Record scope e n delta p))"
proof (cases "Record_eligible e")
  case False
  then show ?thesis
    using ok by (simp add: labels_ok_def Record_counts Record_labels becomes_hot_def split: option.splits)
next
  case True
  let ?c = "um_counter (counts p) (Fingerprint e)"
  have grow: "?c \<le> ?c + n"
    using no_wrap by (simp add: word_le_nat_alt unat_word_ariths)
  have mono: "t \<le> ?c + n" if "map_of (counts p) (Fingerprint e) = Some c" "t \<le> c" for t c
    using that grow by (simp add: um_counter_def)
  show ?thesis
  proof (cases "hotness_threshold p")
    case None
    then show ?thesis
      using ok by (simp add: labels_ok_def Record_labels becomes_hot_def)
  next
    case (Some t)
    with ok have "set (hot_labeled_fingerprints p) = {fp. \<exists>c. map_of (counts p) fp = Some c \<and> t \<le> c}"
      by (simp add: labels_ok_def)
    with True Some mono show ?thesis
      by (auto simp: labels_ok_def Record_counts Record_labels becomes_hot_def)
  qed
qed

lemma labels_ok_step:
  assumes "profiler_wf p" and "labels_ok p" and "bounded b p" and "b + recorded x < 2 ^ 64"
  shows "labels_ok (profiler_step x p)"
proof (cases x)
  case (OpRecord scope e n delta)
  have "unat (um_counter (counts p) (Fingerprint e)) \<le> b"
    using assms(3) by (simp add: bounded_def)
  then show ?thesis
    using assms OpRecord by (simp add: recorded_def labels_ok_record)
next
  case (OpSetThreshold t)
  then show ?thesis
    using assms(1) by (simp add: labels_ok_def SetHotnessThreshold_labels profiler_wf_def um_mem_iff)
qed (use assms in \<open>simp_all add: labels_ok_def split: option.splits\<close>)

lemma labels_ok_run:
  assumes "profiler_wf p" and "labels_ok p" and "bounded b p" and "b + sum_list (map recorded xs) < 2 ^ 64"
  shows "labels_ok (snd (profiler_run xs p)) \<and> profiler_wf (snd (profiler_run xs p))"
  using assms
proof (induction xs arbitrary: p b)
  case Nil
  then show ?case by simp
next
  case (Cons x xs)
  have "labels_ok (profiler_step x p)" "profiler_wf (profiler_step x p)"
    "bounded (b + recorded x) (profiler_step x p)"
    using Cons.prems by (auto intro: labels_ok_step profiler_wf_step bounded_step)
  then show ?case
    using Cons.IH [of "profiler_step x p" "b + recorded x"] Cons.prems(4)
    by (simp add: Let_def add.assoc case_prod_beta)
qed

lemma init_ok: "profiler_wf JITProfiler_init" "labels_ok JITProfiler_init" "bounded 0 JITProfiler_init"
  by (simp_all add: profiler_wf_def labels_ok_def bounded_def JITProfiler_init_def um_counter_def)

section \<open>Totals\<close>

definition op_count :: "u64 \<Rightarrow> profiler_op \<Rightarrow> u64" where
  "op_count fp x =
     (case x of OpRecord scope e n delta \<Rightarrow> if Record_eligible e \<and> Fingerprint e = fp then n else 0 | _ \<Rightarrow> 0)"

definition op_query_count :: "u64 \<Rightarrow> u64 \<Rightarrow> profiler_op \<Rightarrow> u64" where
  "op_query_count q fp x =
     (case x of
        OpRecord scope e n delta \<Rightarrow>
          if Record_eligible e \<and> scope \<noteq> [] \<and> last scope = q \<and> Fingerprint e = fp then n else 0
      | _ \<Rightarrow> 0)"

definition is_record :: "profiler_op \<Rightarrow> bool" where
  "is_record x \<longleftrightarrow> (case x of OpRecord scope e n delta \<Rightarrow> True | _ \<Rightarrow> False)"

lemma records_counter:
  "list_all is_record xs \<Longrightarrow>
   um_counter (counts (snd (profiler_run xs p))) fp = um_counter (counts p) fp + sum_list (map (op_count fp) xs)"
proof (induction xs arbitrary: p)
  case (Cons x xs)
  then obtain scope e n delta where x: "x = OpRecord scope e n delta"
    by (cases x) (auto simp: is_record_def)
  with Cons show ?case
    by (simp add: Let_def case_prod_beta Record_counts op_count_def algebra_simps)
qed simp

lemma records_query_counter:
  "list_all is_record xs \<Longrightarrow>
   query_counter (snd (profiler_run xs p)) q fp = query_counter p q fp + sum_list (map (op_query_count q fp) xs)"
proof (induction xs arbitrary: p)
  case (Cons x xs)
  then obtain scope e n delta where x: "x = OpRecord scope e n delta"
    by (cases x) (auto simp: is_record_def)
  with Cons show ?case
    by (simp add: Let_def case_prod_beta Record_query_counter op_query_count_def algebra_simps)
qed simp

definition op_keys :: "profiler_op \<Rightarrow> u64 set" where
  "op_keys x = (case x of OpRecord scope e n delta \<Rightarrow> if Record_eligible e then {Fingerprint e} else {} | _ \<Rightarrow> {})"

lemma records_dom:
  "list_all is_record xs \<Longrightarrow>
   dom (map_of (counts (snd (profiler_run xs p)))) = dom (map_of (counts p)) \<union> (\<Union>x \<in> set xs. op_keys x)"
proof (induction xs arbitrary: p)
  case (Cons x xs)
  then obtain scope e n delta where x: "x = OpRecord scope e n delta"
    by (cases x) (auto simp: is_record_def)
  have "dom (map_of (counts (profiler_step x p))) = dom (map_of (counts p)) \<union> op_keys x"
    by (auto simp: x Record_counts op_keys_def split: if_splits)
  with Cons show ?case
    by (simp add: Let_def case_prod_beta Un_assoc)
qed simp

lemma profiler_wf_run: "profiler_wf p \<Longrightarrow> profiler_wf (snd (profiler_run xs p))"
  by (induction xs arbitrary: p) (auto simp: Let_def case_prod_beta profiler_wf_step)

text \<open>The global export depends on the map only, not on its iteration order.\<close>

lemma mset_entries:
  assumes "um_wf m" and "um_wf m'" and "map_of m = map_of m'"
  shows "mset (entries m) = mset (entries m')"
proof -
  have "set m = set m'"
    using assms by (metis map_of_eqI map_of_inject_set um_wf_def)
  then have "mset m = mset m'"
    using assms(1,2) by (metis distinct_map set_eq_iff_mset_eq_distinct um_wf_def)
  then show ?thesis
    by (simp add: entries_def)
qed

lemma distinct_entries: "um_wf m \<Longrightarrow> distinct (map fingerprint (entries m))"
  by (simp add: entries_def um_wf_def comp_def case_prod_beta)

lemma entries_separated:
  assumes "um_wf m" and "a \<in> set (entries m)" and "b \<in> set (entries m)"
    and "\<not> fp_less a b" and "\<not> fp_less b a"
  shows "a = b"
  using distinct_entries [OF assms(1)] assms(2-5)
  by (auto simp: fp_less_def not_less distinct_map dest: inj_onD)

lemma counts_from_counter:
  "map_of m k = (if k \<in> dom (map_of m) then Some (um_counter m k) else None)"
  by (auto simp: um_counter_def split: option.splits)

section \<open>Notifications\<close>

lemma run_notifies_fresh:
  "list_all is_record xs \<Longrightarrow>
   set (fst (profiler_run xs p)) \<inter> set (hot_labeled_fingerprints p) = {} \<and> distinct (fst (profiler_run xs p))"
proof (induction xs arbitrary: p)
  case (Cons x xs)
  then obtain scope e n delta where x: "x = OpRecord scope e n delta"
    by (cases x) (auto simp: is_record_def)
  have IH: "set (fst (profiler_run xs (profiler_step x p))) \<inter> set (hot_labeled_fingerprints (profiler_step x p)) = {}"
    "distinct (fst (profiler_run xs (profiler_step x p)))"
    using Cons by auto
  show ?case
  proof (cases "profiler_notifies x p = []")
    case True
    with IH show ?thesis
      by (auto simp: Let_def case_prod_beta x Record_labels split: if_splits)
  next
    case False
    then have hot: "becomes_hot e n p" and ns: "profiler_notifies x p = [Fingerprint e]"
      by (auto simp: x Record_notify split: option.splits if_splits)
    then have "Fingerprint e \<notin> set (hot_labeled_fingerprints p)"
      by (simp add: becomes_hot_def split: option.splits)
    with IH ns hot show ?thesis
      by (auto simp: Let_def case_prod_beta x Record_labels)
  qed
qed simp

text \<open>With a callback installed, the notified fingerprints are exactly the labels that the calls add.\<close>

lemma run_notifies_labels:
  assumes "list_all is_record xs" and "on_fingerprint_became_hot p = Some cb"
  shows "set (fst (profiler_run xs p)) =
      set (hot_labeled_fingerprints (snd (profiler_run xs p))) - set (hot_labeled_fingerprints p) \<and>
    set (hot_labeled_fingerprints p) \<subseteq> set (hot_labeled_fingerprints (snd (profiler_run xs p)))"
  using assms
proof (induction xs arbitrary: p)
  case (Cons x xs)
  then obtain scope e n delta where x: "x = OpRecord scope e n delta"
    by (cases x) (auto simp: is_record_def)
  let ?q = "profiler_step x p"
  have IH: "set (fst (profiler_run xs ?q)) =
        set (hot_labeled_fingerprints (snd (profiler_run xs ?q))) - set (hot_labeled_fingerprints ?q)"
    "set (hot_labeled_fingerprints ?q) \<subseteq> set (hot_labeled_fingerprints (snd (profiler_run xs ?q)))"
    using Cons x by auto
  have "profiler_notifies x p = (if becomes_hot e n p then [Fingerprint e] else [])"
    using Cons.prems(2) by (simp add: x Record_notify)
  moreover have "set (hot_labeled_fingerprints ?q) =
      (if becomes_hot e n p then {Fingerprint e} else {}) \<union> set (hot_labeled_fingerprints p)"
    by (simp add: x Record_labels)
  moreover have "becomes_hot e n p \<Longrightarrow> Fingerprint e \<notin> set (hot_labeled_fingerprints p)"
    by (simp add: becomes_hot_def split: option.splits)
  ultimately show ?case
    using IH by (auto simp: Let_def case_prod_beta)
qed simp

lemma profiler_run_append: "snd (profiler_run (xs @ ys) p) = snd (profiler_run ys (snd (profiler_run xs p)))"
  by (induction xs arbitrary: p) (simp_all add: Let_def case_prod_beta)

lemma records_threshold: "list_all is_record xs \<Longrightarrow> hotness_threshold (snd (profiler_run xs p)) = hotness_threshold p"
proof (induction xs arbitrary: p)
  case (Cons x xs)
  then obtain scope e n delta where "x = OpRecord scope e n delta"
    by (cases x) (auto simp: is_record_def)
  with Cons show ?case by (simp add: Let_def case_prod_beta)
qed simp

section \<open>Properties\<close>

text \<open>C14: The totals of a sequence of \<open>Record\<close> calls from any threads: the count of an expression grows by
  the tuple counts of the eligible calls with its fingerprint, and the count for a query by those
  made inside a scope of that query, each as a 64-bit sum.\<close>

theorem record_totals:
  assumes "list_all is_record xs"
  shows "GetCount e (snd (profiler_run xs p)) = GetCount e p + sum_list (map (op_count (Fingerprint e)) xs) \<and>
         GetCountForQuery q e (snd (profiler_run xs p)) =
           GetCountForQuery q e p + sum_list (map (op_query_count q (Fingerprint e)) xs)"
  using records_counter [OF assms] records_query_counter [OF assms]
  by (simp add: GetCount_counter GetCountForQuery_counter)

theorem record_totals_witness:
  "GetCount (ex_plus 7)
     (snd (profiler_run [OpRecord [] (ex_plus 1) 10 0, OpRecord [4] (ex_plus 2) 32 0] JITProfiler_init)) = 42"
proof -
  have rec: "list_all is_record [OpRecord [] (ex_plus 1) 10 0, OpRecord [4] (ex_plus 2) 32 0]"
    by (simp add: is_record_def)
  have fp: "Fingerprint (ex_plus c) = Fingerprint (ex_plus 7)" for c
    by (simp add: Fingerprint_def HashExpressionTree_bytes ex_defs tree_bytes_node header_bytes_def)
  have el: "Record_eligible (ex_plus c)" for c
    by (simp add: Record_eligible_def ProfilesAsArithmeticRoot_def ex_defs)
  show ?thesis
    using record_totals [OF rec, of "ex_plus 7" JITProfiler_init]
    by (simp add: op_count_def fp [of 1] fp [of 2] el GetCount_def JITProfiler_init_def)
qed

text \<open>C15: The global export does not depend on how the threads interleave: two orders of the same \<open>Record\<close>
  calls give the same list, sorted by fingerprint, with one entry per recorded fingerprint.\<close>

theorem export_order_independent:
  assumes "list_all is_record xs" and "mset xs = mset ys"
  shows "GetGlobalExpressionStats (snd (profiler_run xs JITProfiler_init)) =
           GetGlobalExpressionStats (snd (profiler_run ys JITProfiler_init)) \<and>
         sorted (map fingerprint (GetGlobalExpressionStats (snd (profiler_run xs JITProfiler_init)))) \<and>
         distinct (map fingerprint (GetGlobalExpressionStats (snd (profiler_run xs JITProfiler_init))))"
proof -
  let ?p = "snd (profiler_run xs JITProfiler_init)" and ?q = "snd (profiler_run ys JITProfiler_init)"
  have ys: "list_all is_record ys" and sets: "set xs = set ys"
    using assms by (metis list_all_iff set_mset_mset)+
  have sums: "sum_list (map (op_count fp) xs) = sum_list (map (op_count fp) ys)" for fp
    using assms(2) by (metis mset_map sum_mset_sum_list)
  have wf: "um_wf (counts ?p)" "um_wf (counts ?q)"
    using profiler_wf_run [OF init_ok(1)] by (auto simp: profiler_wf_def)
  have eq: "map_of (counts ?p) k = map_of (counts ?q) k" for k
    using records_dom [OF assms(1), of JITProfiler_init] records_dom [OF ys, of JITProfiler_init]
      records_counter [OF assms(1), of JITProfiler_init k] records_counter [OF ys, of JITProfiler_init k]
    by (simp add: counts_from_counter [of "counts ?p" k] counts_from_counter [of "counts ?q" k] sums sets)
  have "mset (entries (counts ?p)) = mset (entries (counts ?q))"
    using wf eq by (intro mset_entries) auto
  then have "GetGlobalExpressionStats ?p = GetGlobalExpressionStats ?q"
    unfolding GetGlobalExpressionStats_def SortFingerprintCounts_def
    by (rule fp_order.std_sort_perm) (rule entries_separated [OF wf(1)])
  moreover have "distinct (map fingerprint (GetGlobalExpressionStats ?p))"
    using distinct_entries [OF wf(1)]
    by (metis GetGlobalExpressionStats_def SortFingerprintCounts_def mset_eq_imp_distinct_iff mset_map mset_std_sort)
  ultimately show ?thesis
    by (simp add: GetGlobalExpressionStats_def sorted_fingerprints)
qed

theorem export_order_independent_witness:
  "GetGlobalExpressionStats (snd (profiler_run [OpRecord [] (ex_plus 1) 10 0, OpRecord [] (BoundReference ex_int 0) 5 0] JITProfiler_init)) =
   GetGlobalExpressionStats (snd (profiler_run [OpRecord [] (BoundReference ex_int 0) 5 0, OpRecord [] (ex_plus 1) 10 0] JITProfiler_init))"
proof -
  let ?a = "OpRecord [] (ex_plus 1) 10 0" and ?b = "OpRecord [] (BoundReference ex_int 0) 5 0"
  have "list_all is_record [?a, ?b]" and "mset [?a, ?b] = mset [?b, ?a]"
    by (simp_all add: is_record_def add_mset_commute)
  then show ?thesis
    using export_order_independent [of "[?a, ?b]" "[?b, ?a]"] by blast
qed

text \<open>C16: Under any sequence of profiler operations in which fewer than $2^{64}$ tuples are recorded, a
  fingerprint is labelled hot exactly when it was recorded and its total reaches the configured
  threshold; without a threshold, exactly when its total is positive.\<close>

theorem hot_iff_threshold:
  assumes "sum_list (map recorded xs) < 2 ^ 64"
  shows "let p = snd (profiler_run xs JITProfiler_init) in
         IsFingerprintHot fp p \<longleftrightarrow>
           (case map_of (counts p) fp of None \<Rightarrow> False | Some c \<Rightarrow> PassesHotnessThreshold c p)"
proof -
  let ?p = "snd (profiler_run xs JITProfiler_init)"
  have "labels_ok ?p"
    using labels_ok_run [OF init_ok] assms by auto
  then show ?thesis
    by (auto simp: Let_def IsFingerprintHot_def PassesHotnessThreshold_def labels_ok_def split: option.splits)
qed

theorem hot_iff_threshold_witness:
  "IsFingerprintHot (Fingerprint (ex_plus 1))
     (snd (profiler_run [OpSetThreshold 10, OpRecord [] (ex_plus 1) 10 0] JITProfiler_init))"
proof -
  let ?xs = "[OpSetThreshold 10, OpRecord [] (ex_plus 1) 10 0]"
  have sum: "sum_list (map recorded ?xs) < 2 ^ 64"
    by (simp add: recorded_def)
  have el: "Record_eligible (ex_plus 1)"
    by (simp add: Record_eligible_def ProfilesAsArithmeticRoot_def ex_defs)
  have "map_of (counts (snd (profiler_run ?xs JITProfiler_init))) (Fingerprint (ex_plus 1)) = Some 10"
    using el by (simp add: Let_def case_prod_beta Record_counts) (simp add: JITProfiler_init_def)
  moreover have "hotness_threshold (snd (profiler_run ?xs JITProfiler_init)) = Some 10"
    by (simp add: Let_def case_prod_beta)
  ultimately show ?thesis
    using hot_iff_threshold [OF sum, of "Fingerprint (ex_plus 1)"]
    by (simp only: Let_def option.case PassesHotnessThreshold_def)
qed

text \<open>C17: While a threshold and a callback stay configured, the hotness callback runs exactly once for each
  fingerprint that becomes hot: after any history \<open>ys\<close> of profiler operations, and as long as fewer than
  $2^{64}$ tuples are recorded in all, a sequence \<open>zs\<close> of \<open>Record\<close> calls by any threads runs the callback
  once for each fingerprint whose count was below the threshold before and reaches it in \<open>zs\<close>, and for
  no other. A change of the threshold in between rebuilds the labels, and then the callback may run
  again for a fingerprint (\<open>raised_threshold_notifies_again\<close>).\<close>

theorem callback_exactly_once:
  assumes "p = snd (profiler_run ys JITProfiler_init)"
    and "hotness_threshold p = Some t" and "on_fingerprint_became_hot p = Some cb"
    and "list_all is_record zs" and "sum_list (map recorded (ys @ zs)) < 2 ^ 64"
  shows "distinct (fst (profiler_run zs p)) \<and>
    (\<forall>fp. fp \<in> set (fst (profiler_run zs p)) \<longleftrightarrow>
       \<not> (\<exists>c \<ge> t. map_of (counts p) fp = Some c) \<and>
       (\<exists>c \<ge> t. map_of (counts (snd (profiler_run zs p))) fp = Some c))"
proof -
  let ?q = "snd (profiler_run zs p)"
  have "labels_ok p" "labels_ok ?q"
    using labels_ok_run [OF init_ok, of ys] labels_ok_run [OF init_ok, of "ys @ zs"] assms(1,5)
    by (auto simp: profiler_run_append)
  moreover have "hotness_threshold ?q = Some t"
    using records_threshold [OF assms(4)] assms(2) by simp
  ultimately have "set (hot_labeled_fingerprints p) = {fp. \<exists>c. map_of (counts p) fp = Some c \<and> t \<le> c}"
    "set (hot_labeled_fingerprints ?q) = {fp. \<exists>c. map_of (counts ?q) fp = Some c \<and> t \<le> c}"
    using assms(2) by (simp_all add: labels_ok_def)
  then show ?thesis
    using run_notifies_labels [OF assms(4,3)] run_notifies_fresh [OF assms(4), of p] by auto
qed

lemma ex_plus_eligible: "Record_eligible (ex_plus c)"
  by (simp add: Record_eligible_def ProfilesAsArithmeticRoot_def ex_defs)

text \<open>The witness: with threshold 10, three calls of 6 tuples each notify once, although two of them end above it.\<close>

theorem callback_exactly_once_witness:
  "distinct (fst (profiler_run (replicate 3 (OpRecord [] (ex_plus 1) 6 0)) (snd (profiler_run [OpSetThreshold 10, OpSetCallback 1] JITProfiler_init)))) \<and>
   set (fst (profiler_run (replicate 3 (OpRecord [] (ex_plus 1) 6 0)) (snd (profiler_run [OpSetThreshold 10, OpSetCallback 1] JITProfiler_init)))) =
     {Fingerprint (ex_plus 1)}"
proof -
  let ?ys = "[OpSetThreshold 10, OpSetCallback 1]" and ?zs = "replicate 3 (OpRecord [] (ex_plus 1) 6 0)"
  let ?p = "snd (profiler_run ?ys JITProfiler_init)"
  have rec: "list_all is_record ?zs" and sum: "sum_list (map recorded (?ys @ ?zs)) < 2 ^ 64"
    by (simp_all add: is_record_def recorded_def numeral_3_eq_3)
  have p: "hotness_threshold ?p = Some 10" "on_fingerprint_became_hot ?p = Some 1" "counts ?p = []"
    by (simp_all add: SetFingerprintBecameHotCallback_def) (simp add: JITProfiler_init_def)
  have "map_of (counts (snd (profiler_run ?zs ?p))) = [Fingerprint (ex_plus 1) \<mapsto> 18]"
    using p(3) by (simp add: numeral_3_eq_3 Let_def case_prod_beta Record_counts ex_plus_eligible um_counter_def)
  then show ?thesis
    using callback_exactly_once [OF refl p(1,2) rec sum] p(3) by (auto split: if_splits)
qed

text \<open>Raising the threshold after a fingerprint was reported makes it cold again: it is reported a second time.\<close>

lemma raised_threshold_notifies_again:
  "fst (profiler_run [OpSetThreshold 10, OpSetCallback 1, OpRecord [] (ex_plus 1) 10 0, OpSetThreshold 100,
     OpRecord [] (ex_plus 1) 90 0] JITProfiler_init) = [Fingerprint (ex_plus 1), Fingerprint (ex_plus 1)]"
  by (simp add: Let_def case_prod_beta Record_notify Record_counts becomes_hot_def ex_plus_eligible um_counter_def
      SetHotnessThreshold_def RebuildHotLabelsLocked_def SetFingerprintBecameHotCallback_def JITProfiler_init_def Record_labels
      Record_def Record_locked_def)

text \<open>\<open>GetTopHotExpressions\<close> returns at most \<open>limit\<close> of the recorded buckets, hottest first with ties in
  fingerprint order, and no bucket it leaves out is hotter than one it returns.\<close>

theorem top_hot_expressions:
  shows "let out = GetTopHotExpressions limit p in
         length out = min limit (length (counts p)) \<and>
         set out \<subseteq> set (entries (counts p)) \<and>
         sorted_wrt (\<lambda>a b. \<not> hot_less b a) out \<and>
         (\<exists>rest. mset (out @ rest) = mset (entries (counts p)) \<and>
            list_all (\<lambda>a. list_all (\<lambda>b. tuple_count b \<le> tuple_count a) rest) out)"
proof -
  let ?all = "std_sort hot_less (entries (counts p))"
  have out: "GetTopHotExpressions limit p = take limit ?all"
    by (simp add: GetTopHotExpressions_def Let_def)
  have sorted: "sorted_wrt (\<lambda>a b. \<not> hot_less b a) (take limit ?all @ drop limit ?all)"
    using hot_order.sorted_std_sort by simp
  have "tuple_count b \<le> tuple_count a"
    if "a \<in> set (take limit ?all)" "b \<in> set (drop limit ?all)" for a b
  proof -
    have "\<not> hot_less b a"
      using sorted that unfolding sorted_wrt_append by blast
    then show ?thesis
      by (simp add: hot_less_def split: if_splits)
  qed
  moreover have "set (take limit ?all) \<subseteq> set (entries (counts p))"
    by (metis set_std_sort set_take_subset)
  moreover have "mset (take limit ?all @ drop limit ?all) = mset (entries (counts p))"
    by simp
  moreover have "length (take limit ?all) = min limit (length (counts p))"
    by (simp add: entries_def min.commute)
  ultimately show ?thesis
    using sorted unfolding Let_def out list_all_iff
    unfolding sorted_wrt_append by blast
qed

end
