(* ===== verification/Jit_Cache.thy ===== *)
theory Jit_Cache
  imports Jit_Fingerprint
begin

text \<open>
  The cache of compiled kernels (\<open>jit_cache.hpp\<close>, \<open>jit_cache.cpp\<close>). The map goes from a
  fingerprint to an entry and an iterator into the recency list; a \<open>std::list\<close> is a list of
  nodes, each with the address it was allocated at, and an iterator is such an address. Erasing
  through an iterator whose node is gone is undefined behaviour, so every operation that follows
  an iterator returns a result. The public operations take the mutex for their whole body: a
  multi-threaded execution is a sequence of them.

  The second half states the cache's contract, a least-recently-used list with a capacity, as a
  locale, proves in it that a kernel used recently is still there, and interprets it on the code.
\<close>

section \<open>State\<close>

text \<open>A \<open>JITCompiledFunction\<close> is a \<open>std::function\<close>: \<open>None\<close> is the empty one.\<close>

record 'f JITCacheEntry =
  entry_function :: "'f option"
  entry_fingerprint :: u64
  hit_count :: u64
  compile_time_us :: u64

record 'f JITCache =
  max_entries :: u64
  total_hits :: u64
  total_misses :: u64
  total_evictions :: u64
  lru_list :: "(nat \<times> u64) list"
  cache :: "(u64, 'f JITCacheEntry \<times> nat) umap"
  next_node :: nat

record CacheStats =
  cs_total_entries :: nat
  cs_total_hits :: u64
  cs_total_misses :: u64
  cs_total_evictions :: u64
  cs_max_entries :: u64

definition JITCache_init :: "'f JITCache" where
  "JITCache_init = \<lparr>max_entries = 1000, total_hits = 0, total_misses = 0, total_evictions = 0,
     lru_list = [], cache = [], next_node = 0\<rparr>"

section \<open>Operations\<close>

definition EvictLRU :: "'f JITCache \<Rightarrow> 'f JITCache" where
  "EvictLRU c =
     (if lru_list c = [] then c
      else c\<lparr>lru_list := butlast (lru_list c),
             cache := AList.delete (snd (last (lru_list c))) (cache c),
             total_evictions := total_evictions c + 1\<rparr>)"

definition TouchEntry :: "u64 \<Rightarrow> 'f JITCache \<Rightarrow> 'f JITCache result" where
  "TouchEntry fp c =
     (case map_of (cache c) fp of
        None \<Rightarrow> Inr c
      | Some (entry, list_it) \<Rightarrow>
          if list_it \<notin> fst ` set (lru_list c) then Inl Undefined
          else Inr (c\<lparr>lru_list := (next_node c, fp) # filter (\<lambda>node. fst node \<noteq> list_it) (lru_list c),
                      cache := AList.update fp (entry, next_node c) (cache c),
                      next_node := Suc (next_node c)\<rparr>))"

definition Cache_Lookup :: "Expression \<Rightarrow> 'f JITCache \<Rightarrow> ('f option \<times> 'f JITCache) result" where
  "Cache_Lookup e c =
     (let fp = Fingerprint e in
      case map_of (cache c) fp of
        None \<Rightarrow> Inr (None, c\<lparr>total_misses := total_misses c + 1\<rparr>)
      | Some (entry, list_it) \<Rightarrow>
          let entry' = entry\<lparr>hit_count := hit_count entry + 1\<rparr> in
          bindE (TouchEntry fp (c\<lparr>total_hits := total_hits c + 1,
                                   cache := AList.update fp (entry', list_it) (cache c)\<rparr>))
            (\<lambda>c'. Inr (entry_function entry', c')))"

definition Cache_Insert :: "Expression \<Rightarrow> 'f option \<Rightarrow> u64 \<Rightarrow> 'f JITCache \<Rightarrow> 'f JITCache" where
  "Cache_Insert e f us c =
     (let fp = Fingerprint e in
      if map_of (cache c) fp \<noteq> None then c
      else
        let c1 = (if unat (max_entries c) \<le> length (cache c) then EvictLRU c else c);
            entry = \<lparr>entry_function = f, entry_fingerprint = fp, hit_count = 0, compile_time_us = us\<rparr>
        in c1\<lparr>lru_list := (next_node c1, fp) # lru_list c1,
              cache := AList.update fp (entry, next_node c1) (cache c1),
              next_node := Suc (next_node c1)\<rparr>)"

definition Cache_Clear :: "'f JITCache \<Rightarrow> 'f JITCache" where
  "Cache_Clear c =
     c\<lparr>cache := [], lru_list := [], total_hits := 0, total_misses := 0, total_evictions := 0\<rparr>"

definition Cache_GetStats :: "'f JITCache \<Rightarrow> CacheStats" where
  "Cache_GetStats c =
     \<lparr>cs_total_entries = length (cache c), cs_total_hits = total_hits c, cs_total_misses = total_misses c,
      cs_total_evictions = total_evictions c, cs_max_entries = max_entries c\<rparr>"

text \<open>The eviction loop of \<open>SetMaxEntries\<close> need not end on a corrupted cache: \<open>None\<close> is that case.\<close>

partial_function (option) evict_loop :: "'f JITCache \<Rightarrow> 'f JITCache option" where
  "evict_loop c = (if unat (max_entries c) < length (cache c) then evict_loop (EvictLRU c) else Some c)"

definition SetMaxEntries :: "u64 \<Rightarrow> 'f JITCache \<Rightarrow> 'f JITCache option" where
  "SetMaxEntries m c = evict_loop (c\<lparr>max_entries := m\<rparr>)"

text \<open>The lines \<open>PrintCache\<close> writes for the cached entries, in recency order.\<close>

definition PrintCache_entries :: "'f JITCache \<Rightarrow> (u64 \<times> u64 \<times> u64) list" where
  "PrintCache_entries c =
     concat (map (\<lambda>(node, fp).
       case map_of (cache c) fp of
         None \<Rightarrow> []
       | Some (entry, list_it) \<Rightarrow> [(entry_fingerprint entry, hit_count entry, compile_time_us entry)])
       (lru_list c))"

section \<open>Invariant\<close>

text \<open>
  The nodes have distinct addresses below the allocator's next one, the list holds every cached
  fingerprint once, the iterator of an entry is the node that holds its fingerprint, and the entry
  repeats the fingerprint it is stored under.
\<close>

definition linked :: "(nat \<times> u64) list \<Rightarrow> (u64, 'f JITCacheEntry \<times> nat) umap \<Rightarrow> nat \<Rightarrow> bool" where
  "linked xs m k \<longleftrightarrow>
     um_wf m \<and> distinct (map fst xs) \<and> distinct (map snd xs) \<and>
     (\<forall>(n, fp) \<in> set xs. n < k) \<and>
     snd ` set xs = dom (map_of m) \<and>
     (\<forall>fp entry n. map_of m fp = Some (entry, n) \<longrightarrow> (n, fp) \<in> set xs \<and> entry_fingerprint entry = fp)"

definition cache_inv :: "'f JITCache \<Rightarrow> bool" where
  "cache_inv c \<longleftrightarrow>
     linked (lru_list c) (cache c) (next_node c) \<and> length (cache c) \<le> max 1 (unat (max_entries c))"

text \<open>What a client sees: the cached functions, most recently used first.\<close>

definition function_of :: "(u64, 'f JITCacheEntry \<times> nat) umap \<Rightarrow> u64 \<Rightarrow> 'f option" where
  "function_of m fp = (case map_of m fp of None \<Rightarrow> None | Some (entry, it) \<Rightarrow> entry_function entry)"

definition cache_view :: "'f JITCache \<Rightarrow> (u64 \<times> 'f option) list" where
  "cache_view c = map (\<lambda>(n, fp). (fp, function_of (cache c) fp)) (lru_list c)"

lemma linked_length: "linked xs m k \<Longrightarrow> length m = length xs"
  unfolding linked_def
  by (metis distinct_card length_map list.set_map um_length_card)

lemma linked_cong:
  "linked xs m k \<Longrightarrow> um_wf m' \<Longrightarrow> map_of m' = map_of m \<Longrightarrow> linked xs m' k"
  by (simp add: linked_def)

lemma linked_iterator: "linked xs m k \<Longrightarrow> map_of m fp = Some (entry, n) \<Longrightarrow> n \<in> fst ` set xs"
  by (force simp: linked_def)

lemma linked_erase:
  assumes "linked xs m k" and "map_of m fp = Some (entry, n)"
  shows "linked (filter (\<lambda>x. fst x \<noteq> n) xs) (AList.delete fp m) k"
    and "filter (\<lambda>x. fst x \<noteq> n) xs = filter (\<lambda>x. snd x \<noteq> fp) xs"
proof -
  have mem: "(n, fp) \<in> set xs" and d1: "distinct (map fst xs)" and d2: "distinct (map snd xs)"
    using assms by (auto simp: linked_def)
  have iff: "fst x = n \<longleftrightarrow> snd x = fp" if "x \<in> set xs" for x
    using mem d1 d2 that inj_onD [of fst "set xs" x "(n, fp)"] inj_onD [of snd "set xs" x "(n, fp)"]
    by (cases x) (auto simp: distinct_map)
  then show eq: "filter (\<lambda>x. fst x \<noteq> n) xs = filter (\<lambda>x. snd x \<noteq> fp) xs"
    by (intro filter_cong refl) simp
  have keys: "snd ` set (filter (\<lambda>x. snd x \<noteq> fp) xs) = snd ` set xs - {fp}"
    by auto
  show "linked (filter (\<lambda>x. fst x \<noteq> n) xs) (AList.delete fp m) k"
    unfolding eq using assms(1) keys by (auto simp: linked_def distinct_map_filter split: if_splits)
qed

lemma linked_push:
  assumes "linked xs m k" and "map_of m fp = None" and "entry_fingerprint entry = fp"
  shows "linked ((k, fp) # xs) (AList.update fp (entry, k) m) (Suc k)"
proof -
  have "fp \<notin> snd ` set xs" and "k \<notin> fst ` set xs"
    using assms by (auto simp: linked_def)
  with assms show ?thesis
    by (auto simp: linked_def less_Suc_eq split: if_splits)
qed

lemma map_fst_view [simp]: "map fst (cache_view c) = map snd (lru_list c)"
  by (simp add: cache_view_def case_prod_beta)

lemma length_view [simp]: "length (cache_view c) = length (lru_list c)"
  by (simp add: cache_view_def)

lemma cache_inv_length: "cache_inv c \<Longrightarrow> length (cache c) = length (cache_view c)"
  by (auto simp: cache_inv_def dest: linked_length)

lemma distinct_view: "linked (lru_list c) (cache c) k \<Longrightarrow> distinct (map fst (cache_view c))"
  by (simp add: linked_def)

lemma dom_view: "linked (lru_list c) (cache c) k \<Longrightarrow> fst ` set (cache_view c) = dom (map_of (cache c))"
  by (metis linked_def list.set_map map_fst_view)

lemma map_of_view:
  assumes "linked (lru_list c) (cache c) k"
  shows "map_of (cache_view c) fp = map_option (\<lambda>(entry, it). entry_function entry) (map_of (cache c) fp)"
proof (cases "map_of (cache c) fp")
  case None
  then have "fp \<notin> fst ` set (cache_view c)"
    using dom_view [OF assms] by (metis domIff)
  then have "map_of (cache_view c) fp = None"
    by (simp only: map_of_eq_None_iff not_False_eq_True)
  with None show ?thesis by simp
next
  case (Some p)
  obtain entry n where p: "p = (entry, n)" by (cases p)
  with Some assms have "(n, fp) \<in> set (lru_list c)"
    by (auto simp: linked_def)
  then have "(fp, entry_function entry) \<in> set (cache_view c)"
    using Some p by (force simp: cache_view_def function_of_def)
  with Some p show ?thesis
    using distinct_view [OF assms] by (simp add: map_of_eq_Some_iff)
qed

lemma view_init [simp]: "cache_view JITCache_init = []"
  by (simp add: cache_view_def JITCache_init_def)

lemma inv_init [simp]: "cache_inv JITCache_init"
  by (simp add: cache_inv_def linked_def JITCache_init_def)

section \<open>Effect of the operations on the view\<close>

lemma EvictLRU_max [simp]: "max_entries (EvictLRU c) = max_entries c"
  by (simp add: EvictLRU_def)

lemma EvictLRU_linked:
  assumes "linked (lru_list c) (cache c) (next_node c)"
  shows "linked (lru_list (EvictLRU c)) (cache (EvictLRU c)) (next_node (EvictLRU c))"
    and "cache_view (EvictLRU c) = butlast (cache_view c)"
proof -
  let ?xs = "lru_list c"
  have "linked (lru_list (EvictLRU c)) (cache (EvictLRU c)) (next_node (EvictLRU c)) \<and>
    cache_view (EvictLRU c) = butlast (cache_view c)"
  proof (cases "?xs = []")
    case True
    with assms show ?thesis by (simp add: EvictLRU_def cache_view_def)
  next
    case False
    then obtain ys n fp where xs: "?xs = ys @ [(n, fp)]"
      by (metis append_butlast_last_id surj_pair)
    then have "fp \<in> dom (map_of (cache c))" and fp: "fp \<notin> snd ` set ys"
      using assms by (auto simp: linked_def)
    then obtain entry it where entry: "map_of (cache c) fp = Some (entry, it)"
      by auto
    have erase: "filter (\<lambda>x. snd x \<noteq> fp) ?xs = ys"
      using fp xs by (auto simp: filter_id_conv image_iff)
    then have "linked ys (AList.delete fp (cache c)) (next_node c)"
      using linked_erase [OF assms entry] by simp
    moreover have "cache_view (c\<lparr>lru_list := ys, cache := AList.delete fp (cache c)\<rparr>) = butlast (cache_view c)"
      using fp by (auto simp: cache_view_def xs butlast_append function_of_def image_iff)
    ultimately show ?thesis
      using xs False by (simp add: EvictLRU_def cache_view_def)
  qed
  then show "linked (lru_list (EvictLRU c)) (cache (EvictLRU c)) (next_node (EvictLRU c))"
    and "cache_view (EvictLRU c) = butlast (cache_view c)"
    by blast+
qed

text \<open>The abstract least-recently-used list: most recent first, the last one goes first.\<close>

definition lru_touch :: "'k \<Rightarrow> ('k \<times> 'v) list \<Rightarrow> ('k \<times> 'v) list" where
  "lru_touch k xs = (case map_of xs k of None \<Rightarrow> xs | Some v \<Rightarrow> (k, v) # filter (\<lambda>x. fst x \<noteq> k) xs)"

definition lru_add :: "nat \<Rightarrow> 'k \<Rightarrow> 'v \<Rightarrow> ('k \<times> 'v) list \<Rightarrow> ('k \<times> 'v) list" where
  "lru_add m k v xs =
     (if k \<in> fst ` set xs then xs else (k, v) # (if m \<le> length xs then butlast xs else xs))"

lemma Touch_linked:
  assumes "linked (lru_list c) (cache c) (next_node c)" and "map_of (cache c) fp = Some (entry, n)"
  obtains c' where "TouchEntry fp c = Inr c'" and "linked (lru_list c') (cache c') (next_node c')"
    and "max_entries c' = max_entries c" and "length (cache c') = length (cache c)"
    and "cache_view c' = (fp, entry_function entry) # filter (\<lambda>x. fst x \<noteq> fp) (cache_view c)"
    and "total_hits c' = total_hits c" and "total_misses c' = total_misses c"
proof
  let ?ys = "filter (\<lambda>x. snd x \<noteq> fp) (lru_list c)" and ?m = "AList.update fp (entry, next_node c) (cache c)"
  let ?c = "c\<lparr>lru_list := (next_node c, fp) # ?ys, cache := ?m, next_node := Suc (next_node c)\<rparr>"
  have ent: "entry_fingerprint entry = fp" and wf: "um_wf (cache c)"
    using assms by (auto simp: linked_def)
  have "linked ((next_node c, fp) # ?ys) (AList.update fp (entry, next_node c) (AList.delete fp (cache c)))
      (Suc (next_node c))"
    using linked_erase [OF assms] ent by (intro linked_push) simp_all
  then have linked: "linked ((next_node c, fp) # ?ys) ?m (Suc (next_node c))"
    by (rule linked_cong) (auto simp: fun_eq_iff wf)
  show "TouchEntry fp c = Inr ?c"
    using assms linked_iterator [OF assms] linked_erase(2) [OF assms] by (simp add: TouchEntry_def)
  show "linked (lru_list ?c) (cache ?c) (next_node ?c)"
    using linked by simp
  show "length (cache ?c) = length (cache c)"
    using wf assms(2) by (simp add: um_length_update domI)
  show "cache_view ?c = (fp, entry_function entry) # filter (\<lambda>x. fst x \<noteq> fp) (cache_view c)"
    by (simp add: cache_view_def function_of_def filter_map o_def case_prod_beta cong: filter_cong)
qed simp_all

lemma Lookup_spec:
  assumes "cache_inv c"
  shows "\<exists>c'. Cache_Lookup e c = Inr (case map_of (cache_view c) (Fingerprint e) of None \<Rightarrow> None | Some f \<Rightarrow> f, c') \<and>
    cache_inv c' \<and> max_entries c' = max_entries c \<and> cache_view c' = lru_touch (Fingerprint e) (cache_view c) \<and>
    total_hits c' + total_misses c' = total_hits c + total_misses c + 1"
proof -
  let ?fp = "Fingerprint e"
  have linked: "linked (lru_list c) (cache c) (next_node c)"
    using assms by (simp add: cache_inv_def)
  show ?thesis
  proof (cases "map_of (cache c) ?fp")
    case None
    then show ?thesis
      using assms map_of_view [OF linked, of ?fp]
      by (simp add: Cache_Lookup_def lru_touch_def cache_inv_def cache_view_def)
  next
    case (Some p)
    then obtain entry n where entry: "map_of (cache c) ?fp = Some (entry, n)" by (cases p) auto
    let ?e = "entry\<lparr>hit_count := hit_count entry + 1\<rparr>"
    let ?c = "c\<lparr>total_hits := total_hits c + 1, cache := AList.update ?fp (?e, n) (cache c)\<rparr>"
    have found: "map_of (cache ?c) ?fp = Some (?e, n)" by simp
    have wf: "um_wf (cache c)" using linked by (simp add: linked_def)
    have "linked (lru_list ?c) (cache ?c) (next_node ?c)"
      using linked entry by (auto simp: linked_def split: if_splits)
    then obtain c' where c': "TouchEntry ?fp ?c = Inr c'" "linked (lru_list c') (cache c') (next_node c')"
        "max_entries c' = max_entries ?c" "length (cache c') = length (cache ?c)"
        "cache_view c' = (?fp, entry_function ?e) # filter (\<lambda>x. fst x \<noteq> ?fp) (cache_view ?c)"
        "total_hits c' = total_hits ?c" "total_misses c' = total_misses ?c"
      using found by (rule Touch_linked)
    have "cache_view ?c = cache_view c"
      using entry by (auto simp: cache_view_def function_of_def)
    moreover have "length (cache ?c) = length (cache c)"
      using wf entry by (simp add: um_length_update domI)
    ultimately show ?thesis
      using c' entry assms map_of_view [OF linked, of ?fp]
      by (simp add: Cache_Lookup_def Let_def lru_touch_def cache_inv_def)
  qed
qed

lemma Insert_spec:
  assumes "cache_inv c"
  shows "cache_inv (Cache_Insert e f us c)" "max_entries (Cache_Insert e f us c) = max_entries c"
    "cache_view (Cache_Insert e f us c) = lru_add (unat (max_entries c)) (Fingerprint e) f (cache_view c)"
proof -
  let ?fp = "Fingerprint e"
  have linked: "linked (lru_list c) (cache c) (next_node c)"
    using assms by (simp add: cache_inv_def)
  have "cache_inv (Cache_Insert e f us c) \<and> max_entries (Cache_Insert e f us c) = max_entries c \<and>
    cache_view (Cache_Insert e f us c) = lru_add (unat (max_entries c)) ?fp f (cache_view c)"
  proof (cases "map_of (cache c) ?fp")
    case (Some p)
    then show ?thesis
      using assms dom_view [OF linked] by (auto simp: Cache_Insert_def lru_add_def)
  next
    case None
    define c1 where "c1 = (if unat (max_entries c) \<le> length (cache c) then EvictLRU c else c)"
    define entry where "entry = \<lparr>entry_function = f, entry_fingerprint = ?fp, hit_count = 0, compile_time_us = us\<rparr>"
    have view1: "cache_view c1 = (if unat (max_entries c) \<le> length (cache_view c) then butlast (cache_view c) else cache_view c)"
      using EvictLRU_linked [OF linked] cache_inv_length [OF assms] by (simp add: c1_def)
    have l1: "linked (lru_list c1) (cache c1) (next_node c1)"
      using EvictLRU_linked [OF linked] linked by (simp add: c1_def)
    have "map_of (cache c1) ?fp = None"
      using None by (simp add: c1_def EvictLRU_def)
    then have l2: "linked ((next_node c1, ?fp) # lru_list c1) (AList.update ?fp (entry, next_node c1) (cache c1)) (Suc (next_node c1))"
      using l1 by (intro linked_push) (simp_all add: entry_def)
    have len: "length (cache c1) = length (cache_view c1)"
      using linked_length [OF l1] by simp
    then have bound: "length (cache_view c1) < max 1 (unat (max_entries c))"
      using view1 assms cache_inv_length [OF assms] by (auto simp: cache_inv_def)
    have notin: "?fp \<notin> snd ` set (lru_list c1)"
      using l2 by (auto simp: linked_def)
    have ins: "Cache_Insert e f us c = c1\<lparr>lru_list := (next_node c1, ?fp) # lru_list c1,
        cache := AList.update ?fp (entry, next_node c1) (cache c1), next_node := Suc (next_node c1)\<rparr>"
      using None by (simp add: Cache_Insert_def Let_def c1_def entry_def)
    have "cache_view (Cache_Insert e f us c) = (?fp, f) # cache_view c1"
      using notin by (auto simp: ins cache_view_def function_of_def entry_def image_iff)
    moreover have "?fp \<notin> fst ` set (cache_view c)"
      using None dom_view [OF linked] by (metis domIff)
    moreover have "max_entries c1 = max_entries c"
      by (simp add: c1_def)
    moreover from this have "cache_inv (Cache_Insert e f us c)"
      using l2 linked_length [OF l2] bound unfolding cache_inv_def ins by simp
    ultimately show ?thesis
      using view1 by (simp add: lru_add_def ins)
  qed
  then show "cache_inv (Cache_Insert e f us c)" "max_entries (Cache_Insert e f us c) = max_entries c"
    "cache_view (Cache_Insert e f us c) = lru_add (unat (max_entries c)) ?fp f (cache_view c)"
    by blast+
qed

text \<open>The eviction loop ends because every round removes a node, and keeps the most recent entries.\<close>

lemma evict_loop_spec:
  assumes "linked (lru_list c) (cache c) (next_node c)"
  shows "\<exists>c'. evict_loop c = Some c' \<and> cache_inv c' \<and> max_entries c' = max_entries c \<and>
    cache_view c' = take (unat (max_entries c)) (cache_view c) \<and> total_hits c' = total_hits c \<and> total_misses c' = total_misses c"
  using assms
proof (induction "length (lru_list c)" arbitrary: c rule: less_induct)
  case less
  note len = linked_length [OF less.prems]
  show ?case
  proof (cases "unat (max_entries c) < length (cache c)")
    case False
    then show ?thesis
      using less.prems len by (simp add: evict_loop.simps [of c] cache_inv_def)
  next
    case True
    have view: "cache_view (EvictLRU c) = butlast (cache_view c)"
      and l: "linked (lru_list (EvictLRU c)) (cache (EvictLRU c)) (next_node (EvictLRU c))"
      using EvictLRU_linked [OF less.prems] by blast+
    have lenv: "length (lru_list (EvictLRU c)) = length (lru_list c) - 1"
      using arg_cong [OF view, of length] by simp
    then have "length (lru_list (EvictLRU c)) < length (lru_list c)"
      using True len by linarith
    then obtain c' where c': "evict_loop (EvictLRU c) = Some c'" "cache_inv c'"
        "max_entries c' = max_entries (EvictLRU c)"
        "cache_view c' = take (unat (max_entries (EvictLRU c))) (cache_view (EvictLRU c))"
        "total_hits c' = total_hits (EvictLRU c)" "total_misses c' = total_misses (EvictLRU c)"
      using less.hyps [OF _ l] by blast
    have "take (unat (max_entries c)) (butlast (cache_view c)) = take (unat (max_entries c)) (cache_view c)"
      using True len by (intro take_butlast) simp
    then show ?thesis
      using c' True by (simp add: evict_loop.simps [of c] view) (simp add: EvictLRU_def)
  qed
qed

section \<open>The contract of a recency cache\<close>

text \<open>
  An access is a lookup or an insertion; \<open>accesses\<close> runs a list of them through the two operations
  of a cache and fails where an operation fails.
\<close>

datatype ('e, 'v, 'u) access = Access_Lookup 'e | Access_Insert 'e 'v 'u

primrec access_key :: "('e, 'v, 'u) access \<Rightarrow> 'e" where
  "access_key (Access_Lookup e) = e"
| "access_key (Access_Insert e v u) = e"

primrec access_step ::
    "('e \<Rightarrow> 's \<Rightarrow> ('v \<times> 's) result) \<Rightarrow> ('e \<Rightarrow> 'v \<Rightarrow> 'u \<Rightarrow> 's \<Rightarrow> 's) \<Rightarrow> ('e, 'v, 'u) access \<Rightarrow> 's \<Rightarrow> 's result" where
  "access_step lk ins (Access_Lookup e) s = bindE (lk e s) (\<lambda>r. Inr (snd r))"
| "access_step lk ins (Access_Insert e v u) s = Inr (ins e v u s)"

fun accesses ::
    "('e \<Rightarrow> 's \<Rightarrow> ('v \<times> 's) result) \<Rightarrow> ('e \<Rightarrow> 'v \<Rightarrow> 'u \<Rightarrow> 's \<Rightarrow> 's) \<Rightarrow> ('e, 'v, 'u) access list \<Rightarrow> 's \<Rightarrow> 's result" where
  "accesses lk ins [] s = Inr s"
| "accesses lk ins (a # as) s = bindE (access_step lk ins a s) (accesses lk ins as)"

text \<open>
  The entry of \<open>k\<close> and the entries used after it: as long as fewer other keys than the capacity
  were accessed, the entry is not the one that goes.
\<close>

definition recent :: "'k set \<Rightarrow> 'k \<Rightarrow> 'v \<Rightarrow> ('k \<times> 'v) list \<Rightarrow> bool" where
  "recent A k v xs \<longleftrightarrow> (\<exists>us ws. xs = us @ (k, v) # ws \<and> fst ` set us \<subseteq> A) \<and> k \<notin> A"

lemma recent_map_of:
  "recent A k v xs \<Longrightarrow> distinct (map fst xs) \<Longrightarrow> map_of xs k = Some v"
  by (auto simp: recent_def map_of_eq_Some_iff)

lemma recent_touch:
  assumes "recent A k v xs" and "distinct (map fst xs)"
  shows "recent (insert j A - {k}) k v (lru_touch j xs)"
proof -
  obtain us ws where xs: "xs = us @ (k, v) # ws" and us: "fst ` set us \<subseteq> A" and k: "k \<notin> A"
    using assms by (auto simp: recent_def)
  have found: "map_of xs k = Some v"
    using recent_map_of [OF assms] .
  show ?thesis
  proof (cases "map_of xs j")
    case None
    then have "lru_touch j xs = us @ (k, v) # ws"
      using xs by (simp add: lru_touch_def del: map_of_append)
    moreover have "fst ` set us \<subseteq> insert j A - {k}"
      using us k by auto
    ultimately show ?thesis
      unfolding recent_def by blast
  next
    case (Some w)
    show ?thesis
    proof (cases "j = k")
      case True
      then have "lru_touch j xs = [] @ (k, v) # filter (\<lambda>x. fst x \<noteq> k) xs"
        using found by (simp add: lru_touch_def)
      then show ?thesis
        unfolding recent_def by fastforce
    next
      case False
      then have eq: "lru_touch j xs =
          ((j, w) # filter (\<lambda>x. fst x \<noteq> j) us) @ (k, v) # filter (\<lambda>x. fst x \<noteq> j) ws"
        using Some xs by (simp add: lru_touch_def)
      have "fst ` set ((j, w) # filter (\<lambda>x. fst x \<noteq> j) us) \<subseteq> insert j A - {k}"
        using us k False by auto
      then show ?thesis
        unfolding recent_def eq by blast
    qed
  qed
qed

lemma recent_add:
  assumes "recent A k v xs" and "distinct (map fst xs)" and "finite A" and "card (insert j A - {k}) < m"
  shows "recent (insert j A - {k}) k v (lru_add m j w xs)"
proof (cases "j \<in> fst ` set xs")
  case True
  then show ?thesis
    using assms(1) by (auto simp: recent_def lru_add_def)
next
  case False
  obtain us ws where xs: "xs = us @ (k, v) # ws" and us: "fst ` set us \<subseteq> A" and k: "k \<notin> A"
    using assms by (auto simp: recent_def)
  have jk: "j \<noteq> k" and keys: "fst ` set us \<subseteq> insert j A - {k} - {j}"
    using False xs us k by auto
  have "card (fst ` set us) = length us"
    using assms(2) xs by (metis distinct_append distinct_card length_map list.set_map map_append)
  moreover have "card (fst ` set us) \<le> card (insert j A - {k} - {j})"
    using keys assms(3) by (intro card_mono) auto
  moreover have "card (insert j A - {k} - {j}) < card (insert j A - {k})"
    using assms(3) jk by (intro psubset_card_mono) auto
  ultimately have short: "length us + 1 < m"
    using assms(4) by linarith
  have sub: "fst ` set ((j, w) # us) \<subseteq> insert j A - {k}"
    using keys jk by auto
  show ?thesis
  proof (cases "m \<le> length xs")
    case True
    then have "ws \<noteq> []" using short xs by auto
    then have "lru_add m j w xs = ((j, w) # us) @ (k, v) # butlast ws"
      using True False xs by (simp add: lru_add_def butlast_append)
    then show ?thesis using sub unfolding recent_def by blast
  next
    case no: False
    then have "lru_add m j w xs = ((j, w) # us) @ (k, v) # ws"
      using False xs by (simp add: lru_add_def)
    then show ?thesis using sub unfolding recent_def by blast
  qed
qed

locale lru_cache =
  fixes key :: "'e \<Rightarrow> 'k"
    and inv :: "'s \<Rightarrow> bool"
    and view :: "'s \<Rightarrow> ('k \<times> 'v) list"
    and capacity :: "'s \<Rightarrow> nat"
    and null :: 'v
    and lookup :: "'e \<Rightarrow> 's \<Rightarrow> ('v \<times> 's) result"
    and add :: "'e \<Rightarrow> 'v \<Rightarrow> 'u \<Rightarrow> 's \<Rightarrow> 's"
  assumes view_distinct: "inv s \<Longrightarrow> distinct (map fst (view s))"
    and lookup_law: "inv s \<Longrightarrow>
      \<exists>s'. lookup e s = Inr (case map_of (view s) (key e) of None \<Rightarrow> null | Some v \<Rightarrow> v, s') \<and>
        inv s' \<and> capacity s' = capacity s \<and> view s' = lru_touch (key e) (view s)"
    and add_law: "inv s \<Longrightarrow>
      inv (add e v u s) \<and> capacity (add e v u s) = capacity s \<and>
      view (add e v u s) = lru_add (capacity s) (key e) v (view s)"
begin

lemma access_step_law:
  assumes "inv s" and "recent A k v (view s)" and "finite A"
    and "card (insert (key (access_key a)) A - {k}) < capacity s"
  shows "\<exists>s'. access_step lookup add a s = Inr s' \<and> inv s' \<and> capacity s' = capacity s \<and>
    recent (insert (key (access_key a)) A - {k}) k v (view s')"
proof (cases a)
  case (Access_Lookup e)
  then show ?thesis
    using lookup_law [OF assms(1), of e] recent_touch [OF assms(2) view_distinct [OF assms(1)], of "key e"]
    by (auto simp: bindE_def)
next
  case (Access_Insert e w u)
  then show ?thesis
    using add_law [OF assms(1), of e w u] recent_add [OF assms(2) view_distinct [OF assms(1)] assms(3), of "key e" "capacity s" w]
      assms(4)
    by auto
qed

text \<open>A value stays cached while fewer other keys than the capacity are accessed.\<close>

lemma accesses_keep:
  assumes "inv s" and "recent A k v (view s)" and "finite A"
    and "card (A \<union> (key ` access_key ` set as - {k})) < capacity s"
  shows "\<exists>s'. accesses lookup add as s = Inr s' \<and> inv s' \<and> map_of (view s') k = Some v"
  using assms
proof (induction as arbitrary: s A)
  case Nil
  then show ?case
    using recent_map_of [OF _ view_distinct] by auto
next
  case (Cons a as)
  let ?A = "insert (key (access_key a)) A - {k}"
  have "k \<notin> A" using Cons.prems(2) by (simp add: recent_def)
  then have sets: "A \<union> (key ` access_key ` set (a # as) - {k}) = ?A \<union> (key ` access_key ` set as - {k})"
    by auto
  have "card ?A \<le> card (?A \<union> (key ` access_key ` set as - {k}))"
    using Cons.prems(3) by (intro card_mono) auto
  then have "card ?A < capacity s"
    using Cons.prems(4) unfolding sets by linarith
  then obtain s' where s': "access_step lookup add a s = Inr s'" "inv s'" "capacity s' = capacity s"
      "recent ?A k v (view s')"
    using access_step_law [OF Cons.prems(1-3)] by blast
  then show ?case
    using Cons.IH [of s' ?A] Cons.prems(3,4) sets by simp
qed

lemma recent_after_add:
  assumes "inv s" and "key e \<notin> fst ` set (view s)"
  shows "recent {} (key e) v (view (add e v u s))"
  using add_law [OF assms(1), of e v u] assms(2) by (auto simp: recent_def lru_add_def)

lemma recent_after_lookup:
  assumes "inv s" and "map_of (view s) (key e) = Some v" and "lookup e s = Inr (r, s')"
  shows "r = v \<and> inv s' \<and> capacity s' = capacity s \<and> recent {} (key e) v (view s')"
  using lookup_law [OF assms(1), of e] assms(2,3) by (auto simp: recent_def lru_touch_def)

end

text \<open>The code's cache satisfies the contract.\<close>

interpretation jit_lru: lru_cache Fingerprint cache_inv cache_view "\<lambda>c. unat (max_entries c)" None Cache_Lookup Cache_Insert
proof
  show "distinct (map fst (cache_view c))" if "cache_inv c" for c :: "'a JITCache"
    using that distinct_view by (auto simp: cache_inv_def)
qed (use Lookup_spec Insert_spec in \<open>fastforce+\<close>)

section \<open>Sequences of operations\<close>

datatype 'f cache_op =
    OpLookup Expression
  | OpInsert Expression "'f option" u64
  | OpClear
  | OpSetMax u64

text \<open>\<open>None\<close>: the operation does not return; \<open>Inl\<close>: undefined behaviour.\<close>

primrec cache_step :: "'f cache_op \<Rightarrow> 'f JITCache \<Rightarrow> 'f JITCache result option" where
  "cache_step (OpLookup e) c = Some (bindE (Cache_Lookup e c) (\<lambda>r. Inr (snd r)))"
| "cache_step (OpInsert e f us) c = Some (Inr (Cache_Insert e f us c))"
| "cache_step OpClear c = Some (Inr (Cache_Clear c))"
| "cache_step (OpSetMax m) c = map_option Inr (SetMaxEntries m c)"

fun cache_run :: "'f cache_op list \<Rightarrow> 'f JITCache \<Rightarrow> 'f JITCache result option" where
  "cache_run [] c = Some (Inr c)"
| "cache_run (op # ops) c =
     (case cache_step op c of
        Some (Inr c') \<Rightarrow> cache_run ops c'
      | r \<Rightarrow> r)"

text \<open>The specification: a capacity and a recency list.\<close>

primrec lru_step :: "'f cache_op \<Rightarrow> nat \<times> (u64 \<times> 'f option) list \<Rightarrow> nat \<times> (u64 \<times> 'f option) list" where
  "lru_step (OpLookup e) s = (fst s, lru_touch (Fingerprint e) (snd s))"
| "lru_step (OpInsert e f us) s = (fst s, lru_add (fst s) (Fingerprint e) f (snd s))"
| "lru_step OpClear s = (fst s, [])"
| "lru_step (OpSetMax m) s = (unat m, take (unat m) (snd s))"

definition abs_cache :: "'f JITCache \<Rightarrow> nat \<times> (u64 \<times> 'f option) list" where
  "abs_cache c = (unat (max_entries c), cache_view c)"

lemma Clear_spec: "cache_inv (Cache_Clear c) \<and> abs_cache (Cache_Clear c) = (unat (max_entries c), [])"
  by (simp add: Cache_Clear_def cache_inv_def linked_def abs_cache_def cache_view_def)

lemma SetMax_spec:
  assumes "cache_inv c"
  obtains c' where "SetMaxEntries m c = Some c'" "cache_inv c'" "abs_cache c' = lru_step (OpSetMax m) (abs_cache c)"
    "total_hits c' = total_hits c" "total_misses c' = total_misses c"
proof -
  have "linked (lru_list (c\<lparr>max_entries := m\<rparr>)) (cache (c\<lparr>max_entries := m\<rparr>)) (next_node (c\<lparr>max_entries := m\<rparr>))"
    using assms by (simp add: cache_inv_def)
  from evict_loop_spec [OF this] show ?thesis
    using that by (auto simp: SetMaxEntries_def abs_cache_def cache_view_def)
qed

lemma cache_step_spec:
  assumes "cache_inv c"
  shows "\<exists>c'. cache_step op c = Some (Inr c') \<and> cache_inv c' \<and> abs_cache c' = lru_step op (abs_cache c)"
proof (cases op)
  case (OpLookup e)
  then show ?thesis
    using Lookup_spec [OF assms, of e] by (auto simp: abs_cache_def)
next
  case (OpInsert e f us)
  then show ?thesis
    using Insert_spec [OF assms] by (simp add: abs_cache_def)
next
  case OpClear
  then show ?thesis
    using Clear_spec [of c] by (simp add: abs_cache_def)
next
  case (OpSetMax m)
  then show ?thesis
    using SetMax_spec [OF assms, of m] by auto
qed

lemma cache_run_spec:
  assumes "cache_inv c"
  shows "\<exists>c'. cache_run ops c = Some (Inr c') \<and> cache_inv c' \<and> abs_cache c' = fold lru_step ops (abs_cache c)"
  using assms
proof (induction ops arbitrary: c)
  case (Cons op ops)
  then show ?case
    using cache_step_spec [OF Cons.prems, of op] by force
qed simp

definition is_lookup :: "'f cache_op \<Rightarrow> bool" where
  "is_lookup op = (case op of OpLookup e \<Rightarrow> True | _ \<Rightarrow> False)"

lemma cache_step_counts:
  assumes "cache_inv c" and "op \<noteq> OpClear" and "cache_step op c = Some (Inr c')"
  shows "total_hits c' + total_misses c' = total_hits c + total_misses c + of_bool (is_lookup op)"
proof (cases op)
  case (OpLookup e)
  then show ?thesis
    using Lookup_spec [OF assms(1), of e] assms(3) by (auto simp: is_lookup_def)
next
  case (OpInsert e f us)
  then have "c' = Cache_Insert e f us c"
    using assms(3) by simp
  then have "total_hits c' = total_hits c \<and> total_misses c' = total_misses c"
    by (simp add: Cache_Insert_def Let_def EvictLRU_def)
  then show ?thesis
    using OpInsert by (simp add: is_lookup_def)
next
  case OpClear
  with assms(2) show ?thesis by simp
next
  case (OpSetMax m)
  then obtain c'' where "SetMaxEntries m c = Some c''" "total_hits c'' = total_hits c" "total_misses c'' = total_misses c"
    using SetMax_spec [OF assms(1), of m] by blast
  then show ?thesis
    using OpSetMax assms(3) by (simp add: is_lookup_def)
qed

lemma cache_run_counts:
  assumes "cache_inv c" and "OpClear \<notin> set ops" and "cache_run ops c = Some (Inr c')"
  shows "total_hits c' + total_misses c' = total_hits c + total_misses c + of_nat (length (filter is_lookup ops))"
  using assms
proof (induction ops arbitrary: c)
  case (Cons op ops)
  obtain c1 where c1: "cache_step op c = Some (Inr c1)" "cache_inv c1"
    using cache_step_spec [OF Cons.prems(1), of op] by blast
  then have "total_hits c1 + total_misses c1 = total_hits c + total_misses c + of_bool (is_lookup op)"
    using Cons.prems by (intro cache_step_counts) auto
  then show ?case
    using Cons.IH [of c1] Cons.prems c1 by (simp add: add.assoc)
qed simp

lemma PrintCache_length:
  assumes "cache_inv c"
  shows "map fst (PrintCache_entries c) = map snd (lru_list c)"
proof -
  define line where "line = (\<lambda>(n :: nat, fp). case map_of (cache c) fp of None \<Rightarrow> []
      | Some (entry, it :: nat) \<Rightarrow> [(entry_fingerprint entry, hit_count entry, compile_time_us entry)])"
  have line: "map fst (line x) = [snd x]" if "x \<in> set (lru_list c)" for x
  proof -
    have "snd x \<in> dom (map_of (cache c))"
      using assms that by (metis cache_inv_def imageI linked_def)
    then obtain entry it where "map_of (cache c) (snd x) = Some (entry, it)"
      by (metis domD surj_pair)
    moreover from this have "entry_fingerprint entry = snd x"
      using assms unfolding cache_inv_def linked_def by blast
    ultimately show ?thesis
      by (simp add: line_def case_prod_beta)
  qed
  have "map fst (concat (map line xs)) = map snd xs" if "set xs \<subseteq> set (lru_list c)" for xs
    using that by (induction xs) (simp_all add: line)
  from this [of "lru_list c"] show ?thesis
    by (simp add: PrintCache_entries_def line_def)
qed

section \<open>Properties\<close>

text \<open>C6: The cache implements a least-recently-used list: whatever sequence of lookups, insertions, clears and
  capacity changes is run on the initial cache, every operation returns (the eviction loop ends, no
  iterator dangles), and the cached functions in recency order are those of the specification.\<close>

theorem cache_refines_lru:
  "\<exists>c. cache_run ops JITCache_init = Some (Inr c) \<and> abs_cache c = fold lru_step ops (1000, [])"
  using cache_run_spec [OF inv_init, of ops] by (auto simp: abs_cache_def) (auto simp: JITCache_init_def)

text \<open>C19: After any sequence of operations the cache holds at most \<open>max_entries\<close> kernels, or one when the
  capacity is zero, its recency list names every cached fingerprint exactly once, and the listing
  that \<open>PrintCache\<close> writes has one line per entry, most recent first.\<close>

theorem cache_bounded:
  assumes "cache_run ops JITCache_init = Some (Inr c)"
  shows "cs_total_entries (Cache_GetStats c) \<le> max 1 (unat (cs_max_entries (Cache_GetStats c))) \<and>
         distinct (map snd (lru_list c)) \<and> snd ` set (lru_list c) = dom (map_of (cache c)) \<and>
         map fst (PrintCache_entries c) = map snd (lru_list c) \<and>
         cs_total_entries (Cache_GetStats c) = length (PrintCache_entries c)"
proof -
  have inv: "cache_inv c"
    using cache_run_spec [OF inv_init, of ops] assms by auto
  then have "length (PrintCache_entries c) = length (lru_list c)"
    using arg_cong [OF PrintCache_length, of c length] by simp
  then show ?thesis
    using inv PrintCache_length [OF inv] linked_length [of "lru_list c" "cache c" "next_node c"]
    by (auto simp: Cache_GetStats_def cache_inv_def linked_def)
qed

theorem cache_bounded_witness:
  "\<exists>c. cache_run [OpSetMax 0, OpInsert (ex_plus 1) (Some ()) 7] JITCache_init = Some (Inr c) \<and>
       cs_total_entries (Cache_GetStats c) \<le> max 1 (unat (cs_max_entries (Cache_GetStats c)))"
proof -
  obtain c where "cache_run [OpSetMax 0, OpInsert (ex_plus 1) (Some ()) 7] JITCache_init = Some (Inr c)"
    using cache_run_spec [OF inv_init] by blast
  then show ?thesis
    using cache_bounded by blast
qed

text \<open>C20: A kernel that was just inserted or just found stays cached while fewer than \<open>max_entries\<close> other
  fingerprints are looked up or inserted, whatever the order: the next lookup returns the same
  function.\<close>

theorem recent_kernel_survives:
  assumes "cache_inv c"
    and "Cache_Lookup e c = Inr (Some f, c1) \<or>
         (map_of (cache c) (Fingerprint e) = None \<and> c1 = Cache_Insert e (Some f) us c)"
    and "card (Fingerprint ` access_key ` set as - {Fingerprint e}) < unat (max_entries c)"
  shows "\<exists>c2 c3. accesses Cache_Lookup Cache_Insert as c1 = Inr c2 \<and> Cache_Lookup e c2 = Inr (Some f, c3)"
proof -
  have linked: "linked (lru_list c) (cache c) (next_node c)"
    using assms(1) by (simp add: cache_inv_def)
  have "cache_inv c1 \<and> unat (max_entries c1) = unat (max_entries c) \<and>
      recent {} (Fingerprint e) (Some f) (cache_view c1)"
    using assms(2)
  proof
    assume hit: "Cache_Lookup e c = Inr (Some f, c1)"
    then have "map_of (cache_view c) (Fingerprint e) = Some (Some f)"
      using Lookup_spec [OF assms(1), of e] by (auto split: option.splits)
    then show ?thesis
      using jit_lru.recent_after_lookup [OF assms(1) _ hit] by simp
  next
    assume new: "map_of (cache c) (Fingerprint e) = None \<and> c1 = Cache_Insert e (Some f) us c"
    then have "Fingerprint e \<notin> fst ` set (cache_view c)"
      using dom_view [OF linked] by (metis domIff)
    then show ?thesis
      using new jit_lru.recent_after_add [OF assms(1)] Insert_spec [OF assms(1)] by auto
  qed
  then obtain c2 where "accesses Cache_Lookup Cache_Insert as c1 = Inr c2" "cache_inv c2"
      "map_of (cache_view c2) (Fingerprint e) = Some (Some f)"
    using jit_lru.accesses_keep [of c1 "{}" "Fingerprint e" "Some f" as] assms(3) by auto
  then show ?thesis
    using Lookup_spec [of c2 e] by auto
qed

theorem recent_kernel_survives_witness:
  "\<exists>c2 c3. accesses Cache_Lookup Cache_Insert
       [Access_Lookup (ex_plus 1), Access_Insert (BoundReference ex_int 3) (Some False) 9]
       (Cache_Insert (ex_plus 1) (Some True) 7 JITCache_init) = Inr c2 \<and>
     Cache_Lookup (ex_plus 1) c2 = Inr (Some True, c3)"
proof -
  let ?as = "[Access_Lookup (ex_plus 1), Access_Insert (BoundReference ex_int 3) (Some False) 9]"
  have "card (Fingerprint ` access_key ` set ?as - {Fingerprint (ex_plus 1)})
      \<le> card {Fingerprint (BoundReference ex_int 3)}"
    by (intro card_mono) auto
  also have "\<dots> < unat (max_entries JITCache_init)"
    by (simp add: JITCache_init_def)
  finally show ?thesis
    using recent_kernel_survives [OF inv_init, of "ex_plus 1" True "Cache_Insert (ex_plus 1) (Some True) 7 JITCache_init" 7 ?as]
    by (simp add: JITCache_init_def)
qed

text \<open>Between two clears every lookup is counted once, as a hit or as a miss.\<close>

theorem lookups_counted:
  assumes "cache_inv c" and "OpClear \<notin> set ops"
  shows "\<exists>c'. cache_run ops c = Some (Inr c') \<and>
    cs_total_hits (Cache_GetStats c') + cs_total_misses (Cache_GetStats c') =
      cs_total_hits (Cache_GetStats c) + cs_total_misses (Cache_GetStats c) +
      of_nat (length (filter is_lookup ops))"
  using cache_run_spec [OF assms(1), of ops] cache_run_counts [OF assms]
  by (auto simp: Cache_GetStats_def)

theorem lookups_counted_witness:
  "\<exists>c'. cache_run [OpLookup (ex_plus 1), OpInsert (ex_plus 1) (Some ()) 5, OpLookup (ex_plus 1)] JITCache_init = Some (Inr c') \<and>
    cs_total_hits (Cache_GetStats c') + cs_total_misses (Cache_GetStats c') = 2"
  using lookups_counted [OF inv_init, of "[OpLookup (ex_plus 1), OpInsert (ex_plus 1) (Some ()) 5, OpLookup (ex_plus 1)]"]
  by (simp add: is_lookup_def Cache_GetStats_def [of JITCache_init]) (simp add: JITCache_init_def)

text \<open>With a capacity of zero an insertion still stores its kernel: the cache then holds one entry, more
  than \<open>max_entries\<close>.\<close>

theorem zero_capacity_overflow:
  assumes "cache_inv c" and "max_entries c = 0" and "map_of (cache c) (Fingerprint e) = None"
  shows "cs_total_entries (Cache_GetStats (Cache_Insert e f us c)) = 1 \<and>
         cs_max_entries (Cache_GetStats (Cache_Insert e f us c)) = 0"
proof -
  have linked: "linked (lru_list c) (cache c) (next_node c)" and "length (cache c) \<le> 1"
    using assms(1,2) by (simp_all add: cache_inv_def)
  then have len: "length (cache_view c) \<le> 1"
    using cache_inv_length [OF assms(1)] by simp
  have "Fingerprint e \<notin> fst ` set (cache_view c)"
    using assms(3) dom_view [OF linked] by (metis domIff)
  then have "length (cache_view (Cache_Insert e f us c)) = 1"
    using Insert_spec(3) [OF assms(1), of e f us] assms(2) len by (simp add: lru_add_def)
  then show ?thesis
    using cache_inv_length [OF Insert_spec(1) [OF assms(1), of e f us]] Insert_spec(2) [OF assms(1), of e f us] assms(2)
    by (simp add: Cache_GetStats_def)
qed

theorem zero_capacity_overflow_witness:
  "cs_total_entries (Cache_GetStats (Cache_Insert (ex_plus 1) (Some ()) 5 (JITCache_init\<lparr>max_entries := 0\<rparr>))) = 1"
proof -
  let ?c = "JITCache_init\<lparr>max_entries := 0\<rparr> :: unit JITCache"
  have "cache_inv ?c" and "max_entries ?c = 0" and "map_of (cache ?c) (Fingerprint (ex_plus 1)) = None"
    by (simp_all add: cache_inv_def linked_def JITCache_init_def)
  then show ?thesis
    by (intro conjunct1 [OF zero_capacity_overflow])
qed

end
