(* ===== verification/LLVM_IR.thy ===== *)
theory LLVM_IR
  imports Prelude
begin

text \<open>
  The part of LLVM's intermediate representation that the code generator uses. LLVM itself is not
  part of the repository: what the generated instructions compute is an argument \<open>sem\<close> of the
  evaluator, and the laws of the LLVM language reference that the proofs rely on are the locale
  \<open>llvm_semantics\<close>. \<open>langref\<close> is a semantics that satisfies them, with the floating-point
  instructions left as a parameter.

  A kernel has the control flow that \<open>JITCompiler::Impl::Compile\<close> builds: an entry block, a loop
  header with one phi node, a body and an exit. \<open>None\<close> is undefined behaviour, or a loop that does
  not end.
\<close>

section \<open>Values and instructions\<close>

datatype llty = TInt nat | TFloat | TDouble | TPtr

text \<open>
  An integer value is its width and its bits read as an unsigned number. Memory is made of
  allocations, each an array of values; a pointer is an allocation and an element offset.
\<close>

datatype llval = VInt nat int | VFloat "32 word" | VDouble "64 word" | VPtr nat int | VNull

primrec val_ty :: "llval \<Rightarrow> llty" where
  "val_ty (VInt w v) = TInt w"
| "val_ty (VFloat f) = TFloat"
| "val_ty (VDouble d) = TDouble"
| "val_ty (VPtr b off) = TPtr"
| "val_ty VNull = TPtr"

datatype ipred = IEQ | INE | IULT | IUGT | IULE | IUGE | ISLT | ISGT | ISLE | ISGE
datatype fpred = FOEQ | FONE | FOLT | FOGT | FOLE | FOGE

datatype llop =
    Add | Sub | Mul | SDiv | UDiv | SRem | AndOp | OrOp | XorOp | Neg
  | FAdd | FSub | FMul | FDiv | FNeg
  | ICmp ipred | FCmp fpred
  | ZExt llty | SExt llty | Trunc llty
  | FPExt llty | FPTrunc llty | UIToFP llty | SIToFP llty | FPToUI llty | FPToSI llty
  | SelectOp

text \<open>Operands: an earlier instruction, a constant, an argument of the function, or the phi node.\<close>

datatype operand = OReg nat | OConst llval | OArg nat | OPhi

datatype instr =
    IPure llop "operand list"
  | IGEP llty operand operand
  | ILoad llty operand
  | IBitCast operand
  | IStore operand operand

section \<open>Evaluation\<close>

type_synonym sem = "llop \<Rightarrow> llval list \<Rightarrow> llval option"
type_synonym mem = "nat \<Rightarrow> llval list option"

record frame =
  args :: "llval list"
  phi :: llval
  regs :: "llval list"
  memory :: mem

primrec operand_val :: "frame \<Rightarrow> operand \<Rightarrow> llval option" where
  "operand_val fr (OReg r) = (if r < length (regs fr) then Some (regs fr ! r) else None)"
| "operand_val fr (OConst v) = Some v"
| "operand_val fr (OArg a) = (if a < length (args fr) then Some (args fr ! a) else None)"
| "operand_val fr OPhi = Some (phi fr)"

fun operand_vals :: "frame \<Rightarrow> operand list \<Rightarrow> llval list option" where
  "operand_vals fr [] = Some []"
| "operand_vals fr (x # xs) =
     (case operand_val fr x of
        None \<Rightarrow> None
      | Some v \<Rightarrow> (case operand_vals fr xs of None \<Rightarrow> None | Some vs \<Rightarrow> Some (v # vs)))"

text \<open>
  The index of a \<open>getelementptr\<close> is signed; with inbounds it stays inside the allocation or one past its end; indexing a null
  pointer, or loading or storing outside an allocation or at another type, is undefined.
\<close>

definition sgn_val :: "nat \<Rightarrow> int \<Rightarrow> int" where
  "sgn_val w v = signed_take_bit (w - 1) v"

definition gep :: "mem \<Rightarrow> llval \<Rightarrow> llval \<Rightarrow> llval option" where
  "gep m p i =
     (case (p, i) of
        (VPtr b off, VInt w v) \<Rightarrow>
          (case m b of
             None \<Rightarrow> None
           | Some xs \<Rightarrow>
               let off' = off + sgn_val w v in
               if 0 \<le> off' \<and> off' \<le> int (length xs) then Some (VPtr b off') else None)
      | _ \<Rightarrow> None)"

definition load :: "mem \<Rightarrow> llty \<Rightarrow> llval \<Rightarrow> llval option" where
  "load m ty p =
     (case p of
        VPtr b off \<Rightarrow>
          (case m b of
             None \<Rightarrow> None
           | Some xs \<Rightarrow>
               if 0 \<le> off \<and> off < int (length xs) \<and> val_ty (xs ! nat off) = ty then Some (xs ! nat off) else None)
      | _ \<Rightarrow> None)"

definition store :: "mem \<Rightarrow> llval \<Rightarrow> llval \<Rightarrow> mem option" where
  "store m v p =
     (case p of
        VPtr b off \<Rightarrow>
          (case m b of
             None \<Rightarrow> None
           | Some xs \<Rightarrow>
               if 0 \<le> off \<and> off < int (length xs) then Some (m(b \<mapsto> xs[nat off := v])) else None)
      | _ \<Rightarrow> None)"

definition push :: "llval \<Rightarrow> frame \<Rightarrow> frame" where
  "push v fr = fr\<lparr>regs := regs fr @ [v]\<rparr>"

text \<open>Every instruction takes the next register; a store leaves an unused value there.\<close>

primrec exec_instr :: "sem \<Rightarrow> frame \<Rightarrow> instr \<Rightarrow> frame option" where
  "exec_instr sem fr (IPure op xs) =
     (case operand_vals fr xs of
        None \<Rightarrow> None
      | Some vs \<Rightarrow> (case sem op vs of None \<Rightarrow> None | Some v \<Rightarrow> Some (push v fr)))"
| "exec_instr sem fr (IGEP ty p i) =
     (case (operand_val fr p, operand_val fr i) of
        (Some pv, Some iv) \<Rightarrow>
          (case gep (memory fr) pv iv of None \<Rightarrow> None | Some v \<Rightarrow> Some (push v fr))
      | _ \<Rightarrow> None)"
| "exec_instr sem fr (ILoad ty p) =
     (case operand_val fr p of
        None \<Rightarrow> None
      | Some pv \<Rightarrow> (case load (memory fr) ty pv of None \<Rightarrow> None | Some v \<Rightarrow> Some (push v fr)))"
| "exec_instr sem fr (IBitCast p) =
     (case operand_val fr p of None \<Rightarrow> None | Some pv \<Rightarrow> Some (push pv fr))"
| "exec_instr sem fr (IStore x p) =
     (case (operand_val fr x, operand_val fr p) of
        (Some v, Some pv) \<Rightarrow>
          (case store (memory fr) v pv of None \<Rightarrow> None | Some m \<Rightarrow> Some (push VNull (fr\<lparr>memory := m\<rparr>)))
      | _ \<Rightarrow> None)"

fun exec :: "sem \<Rightarrow> frame \<Rightarrow> instr list \<Rightarrow> frame option" where
  "exec sem fr [] = Some fr"
| "exec sem fr (i # is) = (case exec_instr sem fr i of None \<Rightarrow> None | Some fr' \<Rightarrow> exec sem fr' is)"

lemma exec_append:
  "exec sem fr (xs @ ys) = (case exec sem fr xs of None \<Rightarrow> None | Some fr' \<Rightarrow> exec sem fr' ys)"
  by (induction xs arbitrary: fr) (auto split: option.splits)

record kernel =
  k_start :: operand
  k_cond :: instr
  k_body :: "instr list"
  k_next :: operand

text \<open>
  The loop: the header evaluates the condition on the phi node and leaves to the exit, or the body
  runs and its last value flows back into the phi node.
\<close>

partial_function (option) kernel_loop :: "sem \<Rightarrow> kernel \<Rightarrow> llval list \<Rightarrow> llval \<Rightarrow> mem \<Rightarrow> mem option" where
  "kernel_loop sem k as i m =
     (case exec_instr sem \<lparr>args = as, phi = i, regs = [], memory = m\<rparr> (k_cond k) of
        None \<Rightarrow> None
      | Some fr \<Rightarrow>
          if last (regs fr) = VInt 1 0 then Some m
          else
            (case exec sem \<lparr>args = as, phi = i, regs = [], memory = m\<rparr> (k_body k) of
               None \<Rightarrow> None
             | Some fr' \<Rightarrow>
                 (case operand_val fr' (k_next k) of
                    None \<Rightarrow> None
                  | Some i' \<Rightarrow> kernel_loop sem k as i' (memory fr'))))"

definition run_kernel :: "sem \<Rightarrow> kernel \<Rightarrow> llval list \<Rightarrow> mem \<Rightarrow> mem option" where
  "run_kernel sem k as m =
     (case operand_val \<lparr>args = as, phi = VNull, regs = [], memory = m\<rparr> (k_start k) of
        None \<Rightarrow> None
      | Some i \<Rightarrow> kernel_loop sem k as i m)"

section \<open>The laws of the language reference\<close>

text \<open>
  Integer arithmetic is modulo $2^w$; signed instructions read the operands in two's complement
  and truncate towards zero; division by zero and the overflowing signed division are undefined.
\<close>

definition trunc_div :: "int \<Rightarrow> int \<Rightarrow> int" where
  "trunc_div a b = sgn a * sgn b * (\<bar>a\<bar> div \<bar>b\<bar>)"

definition trunc_rem :: "int \<Rightarrow> int \<Rightarrow> int" where
  "trunc_rem a b = a - trunc_div a b * b"

primrec icmp :: "ipred \<Rightarrow> nat \<Rightarrow> int \<Rightarrow> int \<Rightarrow> bool" where
  "icmp IEQ w a b = (a = b)"
| "icmp INE w a b = (a \<noteq> b)"
| "icmp IULT w a b = (a < b)"
| "icmp IUGT w a b = (a > b)"
| "icmp IULE w a b = (a \<le> b)"
| "icmp IUGE w a b = (a \<ge> b)"
| "icmp ISLT w a b = (sgn_val w a < sgn_val w b)"
| "icmp ISGT w a b = (sgn_val w a > sgn_val w b)"
| "icmp ISLE w a b = (sgn_val w a \<le> sgn_val w b)"
| "icmp ISGE w a b = (sgn_val w a \<ge> sgn_val w b)"

definition canon :: "nat \<Rightarrow> int \<Rightarrow> bool" where
  "canon w v \<longleftrightarrow> 0 < w \<and> take_bit w v = v"

locale llvm_semantics =
  fixes sem :: sem
  assumes add: "canon w a \<Longrightarrow> canon w b \<Longrightarrow> sem Add [VInt w a, VInt w b] = Some (VInt w (take_bit w (a + b)))"
    and sub: "canon w a \<Longrightarrow> canon w b \<Longrightarrow> sem Sub [VInt w a, VInt w b] = Some (VInt w (take_bit w (a - b)))"
    and mul: "canon w a \<Longrightarrow> canon w b \<Longrightarrow> sem Mul [VInt w a, VInt w b] = Some (VInt w (take_bit w (a * b)))"
    and neg: "canon w a \<Longrightarrow> sem Neg [VInt w a] = Some (VInt w (take_bit w (- a)))"
    and sdiv: "canon w a \<Longrightarrow> canon w b \<Longrightarrow> b \<noteq> 0 \<Longrightarrow>
      \<not> (sgn_val w a = - (2 ^ (w - 1)) \<and> sgn_val w b = - 1) \<Longrightarrow>
      sem SDiv [VInt w a, VInt w b] = Some (VInt w (take_bit w (trunc_div (sgn_val w a) (sgn_val w b))))"
    and srem: "canon w a \<Longrightarrow> canon w b \<Longrightarrow> b \<noteq> 0 \<Longrightarrow>
      \<not> (sgn_val w a = - (2 ^ (w - 1)) \<and> sgn_val w b = - 1) \<Longrightarrow>
      sem SRem [VInt w a, VInt w b] = Some (VInt w (take_bit w (trunc_rem (sgn_val w a) (sgn_val w b))))"
    and udiv: "canon w a \<Longrightarrow> canon w b \<Longrightarrow> b \<noteq> 0 \<Longrightarrow> sem UDiv [VInt w a, VInt w b] = Some (VInt w (a div b))"
    and division_by_zero: "op \<in> {SDiv, SRem, UDiv} \<Longrightarrow> sem op [VInt w a, VInt w 0] = None"
    and and_law: "canon w a \<Longrightarrow> canon w b \<Longrightarrow> sem AndOp [VInt w a, VInt w b] = Some (VInt w (a AND b))"
    and or_law: "canon w a \<Longrightarrow> canon w b \<Longrightarrow> sem OrOp [VInt w a, VInt w b] = Some (VInt w (a OR b))"
    and xor_law: "canon w a \<Longrightarrow> canon w b \<Longrightarrow> sem XorOp [VInt w a, VInt w b] = Some (VInt w (a XOR b))"
    and icmp_law: "canon w a \<Longrightarrow> canon w b \<Longrightarrow> sem (ICmp p) [VInt w a, VInt w b] = Some (VInt 1 (of_bool (icmp p w a b)))"
    and zext: "canon w a \<Longrightarrow> w \<le> w' \<Longrightarrow> sem (ZExt (TInt w')) [VInt w a] = Some (VInt w' a)"
    and sext: "canon w a \<Longrightarrow> w \<le> w' \<Longrightarrow> sem (SExt (TInt w')) [VInt w a] = Some (VInt w' (take_bit w' (sgn_val w a)))"
    and trunc: "canon w a \<Longrightarrow> w' \<le> w \<Longrightarrow> 0 < w' \<Longrightarrow> sem (Trunc (TInt w')) [VInt w a] = Some (VInt w' (take_bit w' a))"
    and select: "sem SelectOp [VInt 1 (of_bool c), x, y] = Some (if c then x else y)"

text \<open>The reference semantics, with the floating-point instructions as a parameter.\<close>

definition langref :: "sem \<Rightarrow> sem" where
  "langref fp op vs =
     (case (op, vs) of
        (Add, [VInt w a, VInt _ b]) \<Rightarrow> Some (VInt w (take_bit w (a + b)))
      | (Sub, [VInt w a, VInt _ b]) \<Rightarrow> Some (VInt w (take_bit w (a - b)))
      | (Mul, [VInt w a, VInt _ b]) \<Rightarrow> Some (VInt w (take_bit w (a * b)))
      | (Neg, [VInt w a]) \<Rightarrow> Some (VInt w (take_bit w (- a)))
      | (SDiv, [VInt w a, VInt _ b]) \<Rightarrow>
          if b = 0 \<or> sgn_val w a = - (2 ^ (w - 1)) \<and> sgn_val w b = - 1 then None
          else Some (VInt w (take_bit w (trunc_div (sgn_val w a) (sgn_val w b))))
      | (SRem, [VInt w a, VInt _ b]) \<Rightarrow>
          if b = 0 \<or> sgn_val w a = - (2 ^ (w - 1)) \<and> sgn_val w b = - 1 then None
          else Some (VInt w (take_bit w (trunc_rem (sgn_val w a) (sgn_val w b))))
      | (UDiv, [VInt w a, VInt _ b]) \<Rightarrow> if b = 0 then None else Some (VInt w (a div b))
      | (AndOp, [VInt w a, VInt _ b]) \<Rightarrow> Some (VInt w (a AND b))
      | (OrOp, [VInt w a, VInt _ b]) \<Rightarrow> Some (VInt w (a OR b))
      | (XorOp, [VInt w a, VInt _ b]) \<Rightarrow> Some (VInt w (a XOR b))
      | (ICmp p, [VInt w a, VInt _ b]) \<Rightarrow> Some (VInt 1 (of_bool (icmp p w a b)))
      | (ZExt (TInt w'), [VInt w a]) \<Rightarrow> Some (VInt w' a)
      | (SExt (TInt w'), [VInt w a]) \<Rightarrow> Some (VInt w' (take_bit w' (sgn_val w a)))
      | (Trunc (TInt w'), [VInt w a]) \<Rightarrow> Some (VInt w' (take_bit w' a))
      | (SelectOp, [VInt _ c, x, y]) \<Rightarrow> Some (if c \<noteq> 0 then x else y)
      | _ \<Rightarrow> fp op vs)"

interpretation langref_sem: llvm_semantics "langref fp"
  by unfold_locales (auto simp: langref_def canon_def)

section \<open>Two's complement\<close>

lemma take_bit_sgn_val [simp]: "0 < w \<Longrightarrow> take_bit w (sgn_val w v) = take_bit w v"
  by (cases w) (simp_all add: sgn_val_def take_bit_signed_take_bit)

lemma canon_take_bit [simp]: "0 < w \<Longrightarrow> canon w (take_bit w v)"
  by (simp add: canon_def)

lemma canon_bool [simp]: "0 < w \<Longrightarrow> canon w (of_bool b)"
  by (cases w) (auto simp: canon_def)

lemma canon_range: "canon w v \<longleftrightarrow> 0 < w \<and> 0 \<le> v \<and> v < 2 ^ w"
  by (auto simp: canon_def take_bit_int_eq_self_iff)

lemma sgn_val_range: "0 < w \<Longrightarrow> - (2 ^ (w - 1)) \<le> v \<Longrightarrow> v < 2 ^ (w - 1) \<Longrightarrow> sgn_val w (take_bit w v) = v"
  by (cases w) (simp_all add: sgn_val_def signed_take_bit_take_bit signed_take_bit_int_eq_self)

lemma sgn_val_bounds: "0 < w \<Longrightarrow> - (2 ^ (w - 1)) \<le> sgn_val w v \<and> sgn_val w v < 2 ^ (w - 1)"
  by (simp add: sgn_val_def signed_take_bit_int_greater_eq_minus_exp signed_take_bit_int_less_exp)

section \<open>Straight-line code\<close>

text \<open>
  \<open>runs\<close>: the code emitted so far has been executed; \<open>extends\<close>: a later frame of the same iteration,
  in which every operand keeps its value.
\<close>

definition runs :: "sem \<Rightarrow> frame \<Rightarrow> instr list \<Rightarrow> frame \<Rightarrow> bool" where
  "runs sem fr0 is fr \<longleftrightarrow> exec sem fr0 is = Some fr \<and> length (regs fr) = length is"

definition extends :: "frame \<Rightarrow> frame \<Rightarrow> bool" where
  "extends fr fr' \<longleftrightarrow> args fr' = args fr \<and> phi fr' = phi fr \<and> memory fr' = memory fr \<and> (\<exists>vs. regs fr' = regs fr @ vs)"

lemma extends_refl [simp, intro]: "extends fr fr"
  by (simp add: extends_def)

lemma extends_trans [trans]: "extends a b \<Longrightarrow> extends b c \<Longrightarrow> extends a c"
  by (auto simp: extends_def)

lemma extends_push [simp, intro]: "extends fr (push v fr)"
  by (simp add: extends_def push_def)

lemma push_simps [simp]:
  "args (push v fr) = args fr" "phi (push v fr) = phi fr" "memory (push v fr) = memory fr"
  "regs (push v fr) = regs fr @ [v]"
  by (simp_all add: push_def)

lemma operand_extends:
  "extends fr fr' \<Longrightarrow> operand_val fr x = Some v \<Longrightarrow> operand_val fr' x = Some v"
  by (cases x) (auto simp: extends_def nth_append split: if_splits)

lemma operand_push [simp]: "operand_val fr x = Some v \<Longrightarrow> operand_val (push u fr) x = Some v"
  by (rule operand_extends [OF extends_push])

lemma runs_step:
  "runs sem fr0 is fr \<Longrightarrow> exec_instr sem fr i = Some (push v fr) \<Longrightarrow> runs sem fr0 (is @ [i]) (push v fr)"
  by (simp add: runs_def exec_append)

lemma operand_last: "runs sem fr0 is fr \<Longrightarrow> operand_val (push v fr) (OReg (length is)) = Some v"
  by (simp add: runs_def nth_append)

end
