(* ===== verification/Jit_Codegen.thy ===== *)
theory Jit_Codegen
  imports Jit_Type_Support LLVM_IR
begin

text \<open>
  The code generator of \<open>jit_compiler.cpp\<close>. The IR builder is state: the list of instructions
  emitted into the loop body so far, where the operand an instruction returns is its position.
  A \<open>Create\<close> call of the code is one \<open>emit\<close>. \<open>Codegen\<close> returns the pair of the code, the value and
  the \<open>i1\<close> NULL flag, or the exception that \<open>JITCompiler::Compile\<close> turns into a null pointer.
\<close>

section \<open>Type helpers\<close>

definition PhysToLLVM :: "PhysicalType \<Rightarrow> llty option" where
  "PhysToLLVM pt =
     (if pt \<in> {PT_BOOL, PT_UINT8, PT_INT8} then Some (TInt 8)
      else if pt \<in> {PT_UINT16, PT_INT16} then Some (TInt 16)
      else if pt \<in> {PT_UINT32, PT_INT32} then Some (TInt 32)
      else if pt \<in> {PT_UINT64, PT_INT64} then Some (TInt 64)
      else if pt \<in> {PT_UINT128, PT_INT128} then Some (TInt 128)
      else if pt = PT_FLOAT then Some TFloat
      else if pt = PT_DOUBLE then Some TDouble
      else None)"

definition IsFP :: "PhysicalType \<Rightarrow> bool" where
  "IsFP pt \<longleftrightarrow> pt = PT_FLOAT \<or> pt = PT_DOUBLE"

definition IsUnsignedInt :: "PhysicalType \<Rightarrow> bool" where
  "IsUnsignedInt pt \<longleftrightarrow> pt \<in> {PT_UINT8, PT_UINT16, PT_UINT32, PT_UINT64, PT_UINT128}"

definition IsInteger :: "PhysicalType \<Rightarrow> bool" where
  "IsInteger pt \<longleftrightarrow> \<not> IsFP pt"

definition IntegerWidth :: "PhysicalType \<Rightarrow> int" where
  "IntegerWidth pt =
     (if pt \<in> {PT_BOOL, PT_UINT8, PT_INT8} then 8
      else if pt \<in> {PT_UINT16, PT_INT16} then 16
      else if pt \<in> {PT_UINT32, PT_INT32} then 32
      else if pt \<in> {PT_UINT64, PT_INT64} then 64
      else if pt \<in> {PT_UINT128, PT_INT128} then 128
      else - 1)"

definition UnsignedTypeForWidth :: "int \<Rightarrow> PhysicalType" where
  "UnsignedTypeForWidth width =
     (if width = 8 then PT_UINT8
      else if width = 16 then PT_UINT16
      else if width = 32 then PT_UINT32
      else if width = 64 then PT_UINT64
      else if width = 128 then PT_UINT128
      else PT_INVALID)"

definition TypeRank :: "PhysicalType \<Rightarrow> int" where
  "TypeRank pt =
     (if pt = PT_BOOL then 0
      else if pt \<in> {PT_UINT8, PT_INT8} then 1
      else if pt \<in> {PT_UINT16, PT_INT16} then 2
      else if pt \<in> {PT_UINT32, PT_INT32} then 3
      else if pt \<in> {PT_UINT64, PT_INT64} then 4
      else if pt \<in> {PT_UINT128, PT_INT128} then 5
      else if pt = PT_FLOAT then 6
      else if pt = PT_DOUBLE then 7
      else - 1)"

definition CommonType :: "PhysicalType \<Rightarrow> PhysicalType \<Rightarrow> PhysicalType" where
  "CommonType a b =
     (if a = b then a
      else if IsInteger a \<and> IsInteger b \<and> IntegerWidth a > IntegerWidth b then a
      else if IsInteger a \<and> IsInteger b \<and> IntegerWidth b > IntegerWidth a then b
      else if IsInteger a \<and> IsInteger b \<and> (IsUnsignedInt a \<or> IsUnsignedInt b)
        then UnsignedTypeForWidth (IntegerWidth a)
      else if TypeRank a \<ge> TypeRank b then a else b)"

section \<open>The builder\<close>

type_synonym builder = "instr list"

definition emit :: "instr \<Rightarrow> builder \<Rightarrow> operand \<times> builder" where
  "emit i s = (OReg (length s), s @ [i])"

definition Create :: "llop \<Rightarrow> operand list \<Rightarrow> builder \<Rightarrow> operand \<times> builder" where
  "Create op xs s = emit (IPure op xs) s"

text \<open>\<open>Constant::getNullValue\<close>; a null type pointer is dereferenced.\<close>

definition getNullValue :: "llty option \<Rightarrow> llval result" where
  "getNullValue ty =
     (case ty of
        None \<Rightarrow> Inl Undefined
      | Some (TInt w) \<Rightarrow> Inr (VInt w 0)
      | Some TFloat \<Rightarrow> Inr (VFloat 0)
      | Some TDouble \<Rightarrow> Inr (VDouble 0)
      | Some TPtr \<Rightarrow> Inr VNull)"

abbreviation lltrue :: operand where "lltrue \<equiv> OConst (VInt 1 1)"
abbreviation llfalse :: operand where "llfalse \<equiv> OConst (VInt 1 0)"

definition Promote :: "operand \<Rightarrow> PhysicalType \<Rightarrow> PhysicalType \<Rightarrow> builder \<Rightarrow> (operand \<times> builder) result" where
  "Promote v from to s =
     (if from = to then Inr (v, s)
      else
        case PhysToLLVM to of
          None \<Rightarrow> Inl Undefined
        | Some dst \<Rightarrow>
            if IsFP from \<and> IsFP to then
              Inr (Create (if TypeRank to > TypeRank from then FPExt dst else FPTrunc dst) [v] s)
            else if \<not> IsFP from \<and> IsFP to then
              Inr (Create (if IsUnsignedInt from then UIToFP dst else SIToFP dst) [v] s)
            else if IsFP from \<and> \<not> IsFP to then
              Inr (Create (if IsUnsignedInt to then FPToUI dst else FPToSI dst) [v] s)
            else if IntegerWidth from = IntegerWidth to then Inr (v, s)
            else if IntegerWidth to > IntegerWidth from then
              Inr (Create (if IsUnsignedInt from then ZExt dst else SExt dst) [v] s)
            else Inr (Create (Trunc dst) [v] s))"

section \<open>Constants\<close>

text \<open>
  \<open>Value::GetValue<T>\<close> where \<open>T\<close> is the C++ type of the value's own physical type: the payload
  itself for the numeric types, DATE, TIME and the timestamps. A DECIMAL goes through a DOUBLE and
  back, in the floating-point arithmetic of the host, which is the argument \<open>dec\<close> (unscaled value,
  width, scale, target type); TIME_NS, TIME WITH TIME ZONE and the remaining types have no
  conversion.
\<close>

type_synonym decimal_cast = "int \<Rightarrow> nat \<Rightarrow> nat \<Rightarrow> PhysicalType \<Rightarrow> cell result"

definition GetValue :: "decimal_cast \<Rightarrow> Value \<Rightarrow> cell result" where
  "GetValue dec v =
     (let t = lt_id (value_type v) in
      if is_null v then Inl InternalException
      else if t = LT_DECIMAL then
        (case (value_data v, lt_type_info (value_type v)) of
           (CInt i, Some (DecimalTypeInfo width scale)) \<Rightarrow> dec i width scale (InternalType (value_type v))
         | _ \<Rightarrow> Inl InternalException)
      else if t \<in> {LT_BOOLEAN, LT_TINYINT, LT_SMALLINT, LT_INTEGER, LT_BIGINT, LT_HUGEINT, LT_UUID, LT_UHUGEINT,
          LT_DATE, LT_TIME, LT_TIMESTAMP, LT_TIMESTAMP_SEC, LT_TIMESTAMP_MS, LT_TIMESTAMP_NS, LT_TIMESTAMP_TZ,
          LT_UTINYINT, LT_USMALLINT, LT_UINTEGER, LT_UBIGINT, LT_FLOAT, LT_DOUBLE, LT_ENUM}
        then Inr (value_data v)
      else if t \<in> {LT_TIME_NS, LT_TIME_TZ} then Inl ConversionException
      else Inl NotImplementedException)"

definition constant_value :: "PhysicalType \<Rightarrow> cell \<Rightarrow> llval result" where
  "constant_value pt c =
     (case (PhysToLLVM pt, c) of
        (Some (TInt w), CInt i) \<Rightarrow> Inr (VInt w (take_bit w i))
      | (Some TFloat, CFloat f) \<Rightarrow> Inr (VFloat f)
      | (Some TDouble, CDouble d) \<Rightarrow> Inr (VDouble d)
      | _ \<Rightarrow> Inl Undefined)"

definition CodegenConstant :: "decimal_cast \<Rightarrow> Value \<Rightarrow> builder \<Rightarrow> ((operand \<times> operand) \<times> builder) result" where
  "CodegenConstant dec v s =
     (let pt = InternalType (value_type v) in
      if is_null v then bindE (getNullValue (PhysToLLVM pt)) (\<lambda>z. Inr ((OConst z, lltrue), s))
      else bindE (GetValue dec v) (\<lambda>c. bindE (constant_value pt c) (\<lambda>x. Inr ((OConst x, llfalse), s))))"

section \<open>Column loads and division\<close>

text \<open>The kernel's arguments: 0 \<open>col_data\<close>, 1 \<open>col_valid\<close>, 2 \<open>result_data\<close>, 3 \<open>result_valid\<close>, 4 \<open>count\<close>.\<close>

definition CodegenRef :: "nat \<Rightarrow> PhysicalType \<Rightarrow> builder \<Rightarrow> ((operand \<times> operand) \<times> builder) result" where
  "CodegenRef col pt s =
     (case PhysToLLVM pt of
        None \<Rightarrow> Inl Undefined
      | Some elem \<Rightarrow>
          let ci = OConst (VInt 64 (int col));
              (dslot, s) = emit (IGEP TPtr (OArg 0) ci) s;
              (draw, s) = emit (ILoad TPtr dslot) s;
              (dtyp, s) = emit (IBitCast draw) s;
              (ep, s) = emit (IGEP elem dtyp OPhi) s;
              (val, s) = emit (ILoad elem ep) s;
              (vslot, s) = emit (IGEP TPtr (OArg 1) ci) s;
              (varr, s) = emit (ILoad TPtr vslot) s;
              (vbp, s) = emit (IGEP (TInt 8) varr OPhi) s;
              (vbyte, s) = emit (ILoad (TInt 8) vbp) s;
              (isnull, s) = Create (ICmp IEQ) [vbyte, OConst (VInt 8 0)] s
          in Inr ((val, isnull), s))"

text \<open>The width is that of the operands' LLVM type, \<open>lv->getType()\<close>.\<close>

definition CodegenSignedFloorDiv :: "nat \<Rightarrow> operand \<Rightarrow> operand \<Rightarrow> builder \<Rightarrow> operand \<times> builder" where
  "CodegenSignedFloorDiv w lv rv s =
     (let (q, s) = Create SDiv [lv, rv] s;
          (r, s) = Create SRem [lv, rv] s;
          z = OConst (VInt w 0);
          (has_rem, s) = Create (ICmp INE) [r, z] s;
          (lhs_neg, s) = Create (ICmp ISLT) [lv, z] s;
          (rhs_neg, s) = Create (ICmp ISLT) [rv, z] s;
          (signs_differ, s) = Create XorOp [lhs_neg, rhs_neg] s;
          (need_adjust, s) = Create AndOp [has_rem, signs_differ] s;
          one = OConst (VInt w 1);
          (q_minus_one, s) = Create Sub [q, one] s
      in Create SelectOp [need_adjust, q_minus_one, q] s)"

section \<open>Expressions\<close>

definition name_in :: "string \<Rightarrow> string list \<Rightarrow> bool" where
  "name_in nm xs \<longleftrightarrow> nm \<in> set xs"

text \<open>The body of BOUND_FUNCTION after the children: promotions, the operation, the result's type.\<close>

definition CodegenUnary :: "string \<Rightarrow> PhysicalType \<Rightarrow> operand \<Rightarrow> operand \<Rightarrow> builder \<Rightarrow> ((operand \<times> operand) \<times> builder) result" where
  "CodegenUnary nm com lv en s =
     (if name_in nm [''+'', ''add''] then Inr ((lv, en), s)
      else if name_in nm [''-'', ''subtract''] then
        (let (r, s) = Create (if IsFP com then FNeg else Neg) [lv] s in Inr ((r, en), s))
      else bindE (getNullValue (PhysToLLVM com)) (\<lambda>z. Inr ((OConst z, lltrue), s)))"

definition CodegenBinary :: "string \<Rightarrow> PhysicalType \<Rightarrow> operand \<Rightarrow> operand \<Rightarrow> operand \<Rightarrow> builder \<Rightarrow> ((operand \<times> operand) \<times> builder) result" where
  "CodegenBinary nm com lv rv en s =
     (let fp = IsFP com; u = IsUnsignedInt com in
      if name_in nm [''+'', ''add''] then
        (let (r, s) = Create (if fp then FAdd else Add) [lv, rv] s in Inr ((r, en), s))
      else if name_in nm [''-'', ''subtract''] then
        (let (r, s) = Create (if fp then FSub else Sub) [lv, rv] s in Inr ((r, en), s))
      else if name_in nm [''*'', ''multiply''] then
        (let (r, s) = Create (if fp then FMul else Mul) [lv, rv] s in Inr ((r, en), s))
      else if name_in nm [''/'', ''divide''] then
        (let (r, s) = Create (if fp then FDiv else if u then UDiv else SDiv) [lv, rv] s in Inr ((r, en), s))
      else if name_in nm [''//''] then
        (let (r, s) = (if fp then Create FDiv [lv, rv] s
                       else if u then Create UDiv [lv, rv] s
                       else CodegenSignedFloorDiv (nat (IntegerWidth com)) lv rv s)
         in Inr ((r, en), s))
      else bindE (getNullValue (PhysToLLVM com)) (\<lambda>z. Inr ((OConst z, lltrue), s)))"

definition CodegenFunction1 ::
    "string \<Rightarrow> PhysicalType \<Rightarrow> PhysicalType \<Rightarrow> operand \<times> operand \<Rightarrow> builder \<Rightarrow> ((operand \<times> operand) \<times> builder) result" where
  "CodegenFunction1 nm lp rtp l s =
     (let com = CommonType lp rtp in
      bindE (Promote (fst l) lp com s) (\<lambda>(lv, s).
      bindE (CodegenUnary nm com lv (snd l) s) (\<lambda>((res, en), s).
      bindE (Promote res com rtp s) (\<lambda>(v, s). Inr ((v, en), s)))))"

definition CodegenFunction2 ::
    "string \<Rightarrow> PhysicalType \<Rightarrow> PhysicalType \<Rightarrow> PhysicalType \<Rightarrow> operand \<times> operand \<Rightarrow> operand \<times> operand \<Rightarrow> builder
      \<Rightarrow> ((operand \<times> operand) \<times> builder) result" where
  "CodegenFunction2 nm lp rp rtp l r s =
     (let (en, s) = Create OrOp [snd l, snd r] s;
          com = CommonType (CommonType lp rp) rtp in
      bindE (Promote (fst l) lp com s) (\<lambda>(lv, s).
      bindE (Promote (fst r) rp com s) (\<lambda>(rv, s).
      bindE (CodegenBinary nm com lv rv en s) (\<lambda>((res, en), s).
      bindE (Promote res com rtp s) (\<lambda>(v, s). Inr ((v, en), s))))))"

text \<open>The predicate of a comparison; \<open>None\<close> is the \<open>default\<close> branch.\<close>

definition comparison_op :: "ExpressionType \<Rightarrow> PhysicalType \<Rightarrow> llop option" where
  "comparison_op et com =
     (let fp = IsFP com; u = IsUnsignedInt com in
      if et = ET_COMPARE_EQUAL then Some (if fp then FCmp FOEQ else ICmp IEQ)
      else if et = ET_COMPARE_NOTEQUAL then Some (if fp then FCmp FONE else ICmp INE)
      else if et = ET_COMPARE_LESSTHAN then Some (if fp then FCmp FOLT else ICmp (if u then IULT else ISLT))
      else if et = ET_COMPARE_GREATERTHAN then Some (if fp then FCmp FOGT else ICmp (if u then IUGT else ISGT))
      else if et = ET_COMPARE_LESSTHANOREQUALTO then Some (if fp then FCmp FOLE else ICmp (if u then IULE else ISLE))
      else if et = ET_COMPARE_GREATERTHANOREQUALTO then Some (if fp then FCmp FOGE else ICmp (if u then IUGE else ISGE))
      else None)"

definition CodegenComparison ::
    "ExpressionType \<Rightarrow> PhysicalType \<Rightarrow> PhysicalType \<Rightarrow> operand \<times> operand \<Rightarrow> operand \<times> operand \<Rightarrow> builder
      \<Rightarrow> ((operand \<times> operand) \<times> builder) result" where
  "CodegenComparison et lp rp l r s =
     (let (en, s) = Create OrOp [snd l, snd r] s;
          com = CommonType lp rp in
      bindE (Promote (fst l) lp com s) (\<lambda>(lv, s).
      bindE (Promote (fst r) rp com s) (\<lambda>(rv, s).
        case comparison_op et com of
          Some op \<Rightarrow>
            (let (ci, s) = Create op [lv, rv] s; (b, s) = Create (ZExt (TInt 8)) [ci] s in Inr ((b, en), s))
        | None \<Rightarrow> (let (b, s) = Create (ZExt (TInt 8)) [llfalse] s in Inr ((b, lltrue), s)))))"

fun Codegen :: "decimal_cast \<Rightarrow> Expression \<Rightarrow> builder \<Rightarrow> ((operand \<times> operand) \<times> builder) result"
  and CodegenConj :: "decimal_cast \<Rightarrow> bool \<Rightarrow> operand \<times> operand \<Rightarrow> Expression list \<Rightarrow> builder
      \<Rightarrow> ((operand \<times> operand) \<times> builder) result" where
  "Codegen dec (BoundReference t i) s = CodegenRef (unat i) (InternalType t) s"
| "Codegen dec (BoundColumnRef t tbl col depth) s =
     (if depth \<noteq> 0 then bindE (getNullValue (PhysToLLVM (InternalType t))) (\<lambda>z. Inr ((OConst z, lltrue), s))
      else bindE (ProjectionIndex_GetIndex col) (\<lambda>c. CodegenRef c (InternalType t) s))"
| "Codegen dec (BoundConstant v) s = CodegenConstant dec v s"
| "Codegen dec (BoundFunction t f [a]) s =
     bindE (Codegen dec a s) (\<lambda>(l, s). CodegenFunction1 (fn_name f) (phys a) (InternalType t) l s)"
| "Codegen dec (BoundFunction t f [a, b]) s =
     bindE (Codegen dec a s) (\<lambda>(l, s).
     bindE (Codegen dec b s) (\<lambda>(r, s).
       CodegenFunction2 (fn_name f) (phys a) (phys b) (InternalType t) l r s))"
| "Codegen dec (BoundFunction t f []) s = Inl InternalException"
| "Codegen dec (BoundFunction t f (a # b # c # cs)) s = Inl Undefined"
| "Codegen dec (BoundComparison et l r) s =
     bindE (Codegen dec l s) (\<lambda>(lv, s).
     bindE (Codegen dec r s) (\<lambda>(rv, s). CodegenComparison et (phys l) (phys r) lv rv s))"
| "Codegen dec (BoundConjunction et []) s = Inl InternalException"
| "Codegen dec (BoundConjunction et (c # cs)) s =
     bindE (Codegen dec c s) (\<lambda>(acc, s). CodegenConj dec (et = ET_CONJUNCTION_AND) acc cs s)"
| "Codegen dec (BoundCast t try_cast c) s =
     bindE (Codegen dec c s) (\<lambda>((v, n), s).
     bindE (Promote v (phys c) (InternalType t) s) (\<lambda>(v, s). Inr ((v, n), s)))"
| "Codegen dec (BoundParameter t v) s = bindE (getNullValue (PhysToLLVM (InternalType t))) (\<lambda>z. Inr ((OConst z, lltrue), s))"
| "Codegen dec (BoundOperator et t cs) s = bindE (getNullValue (PhysToLLVM (InternalType t))) (\<lambda>z. Inr ((OConst z, lltrue), s))"
| "Codegen dec (BoundCase t checks els) s = bindE (getNullValue (PhysToLLVM (InternalType t))) (\<lambda>z. Inr ((OConst z, lltrue), s))"
| "Codegen dec (BoundBetween li ui i l u) s = bindE (getNullValue (PhysToLLVM PT_BOOL)) (\<lambda>z. Inr ((OConst z, lltrue), s))"
| "Codegen dec (OtherExpression et ec t) s = bindE (getNullValue (PhysToLLVM (InternalType t))) (\<lambda>z. Inr ((OConst z, lltrue), s))"
| "CodegenConj dec is_and acc [] s = Inr (acc, s)"
| "CodegenConj dec is_and acc (c # cs) s =
     bindE (Codegen dec c s) (\<lambda>((nv, nn), s).
       let (an, s) = Create OrOp [snd acc, nn] s;
           (acc', s) = Create (if is_and then AndOp else OrOp) [fst acc, nv] s
       in CodegenConj dec is_and (acc', an) cs s)"

section \<open>The kernel\<close>

text \<open>The loop body after \<open>Codegen\<close>: the validity byte, the value with zero for NULL rows, the increment.\<close>

definition CodegenStores :: "PhysicalType \<Rightarrow> operand \<times> operand \<Rightarrow> builder \<Rightarrow> (operand \<times> builder) result" where
  "CodegenStores rpt vn s =
     (let (null_i8, s) = Create (ZExt (TInt 8)) [snd vn] s;
          (valid_i8, s) = Create XorOp [null_i8, OConst (VInt 8 1)] s;
          (vgep, s) = emit (IGEP (TInt 8) (OArg 3) OPhi) s;
          (_, s) = emit (IStore valid_i8 vgep) s;
          (rptr, s) = emit (IBitCast (OArg 2)) s in
      bindE (getNullValue (PhysToLLVM rpt)) (\<lambda>z.
        let (safe, s) = Create SelectOp [snd vn, OConst z, fst vn] s;
            (rgep, s) = emit (IGEP (the (PhysToLLVM rpt)) rptr OPhi) s;
            (_, s) = emit (IStore safe rgep) s
        in Inr (Create Add [OPhi, OConst (VInt 64 1)] s)))"

definition build_kernel :: "decimal_cast \<Rightarrow> Expression \<Rightarrow> kernel result" where
  "build_kernel dec e =
     bindE (Codegen dec e []) (\<lambda>(vn, s).
     bindE (CodegenStores (phys e) vn s) (\<lambda>(nxt, s).
       Inr \<lparr>k_start = OConst (VInt 64 0), k_cond = IPure (ICmp IULT) [OPhi, OArg 4], k_body = s, k_next = nxt\<rparr>))"

text \<open>
  \<open>Impl::Compile\<close> and \<open>JITCompiler::Compile\<close>. What LLVM does with the module is an argument: whether
  the JIT could be created, whether the verifier accepts the function, and whether the module could
  be added and its symbol found. The compiled function is the kernel; every failure is a null pointer.
\<close>

record llvm_env =
  jit_created :: bool
  verifyFunction :: "kernel \<Rightarrow> bool"
  addIRModule :: "nat \<Rightarrow> kernel \<Rightarrow> bool"
  lookup_symbol :: "nat \<Rightarrow> bool"

record JITCompilerImpl =
  counter :: nat
  last_ir :: "kernel option"

definition Impl_Compile :: "llvm_env \<Rightarrow> decimal_cast \<Rightarrow> Expression \<Rightarrow> JITCompilerImpl \<Rightarrow> kernel option \<times> JITCompilerImpl" where
  "Impl_Compile env dec e st =
     (if \<not> jit_created env then (None, st)
      else
        let n = counter st; st = st\<lparr>counter := n + 1\<rparr> in
        case build_kernel dec e of
          Inl err \<Rightarrow> (None, st)
        | Inr k \<Rightarrow>
            if \<not> verifyFunction env k then (None, st)
            else
              let st = st\<lparr>last_ir := Some k\<rparr> in
              if \<not> addIRModule env n k then (None, st)
              else if \<not> lookup_symbol env n then (None, st)
              else (Some k, st))"

definition Compile :: "llvm_env \<Rightarrow> decimal_cast \<Rightarrow> Expression \<Rightarrow> JITCompilerImpl \<Rightarrow> kernel option \<times> JITCompilerImpl" where
  "Compile env dec e st = (if CanCompile e then Impl_Compile env dec e st else (None, st))"

end
