(* ===== verification/Jit_Kernel.thy ===== *)
theory Jit_Kernel
  imports Complex_Main Jit_Codegen Row_Semantics Jit_Fingerprint
begin

text \<open>
  Correctness of the generated kernels for integer expressions: for every row the kernel stores the
  value that \<open>wrap_eval\<close> gives, that is, two's complement arithmetic with no overflow check and
  strict NULL propagation, and a cleared validity byte and a zero for NULL; it returns and has no
  undefined behaviour. Where the exact evaluation stays in range (\<open>int_eval\<close>) the stored value is the
  exact one; where it overflows the kernel stores the wrapped value as a valid row. The proof follows
  the builder: the code emitted for a subtree extends the code before it, and running it leaves the
  value and the NULL flag of the subtree in the two operands that \<open>Codegen\<close> returns.
\<close>

section \<open>Types\<close>

lemma PhysToLLVM_int: "int_type pt \<Longrightarrow> PhysToLLVM pt = Some (TInt (int_bits pt))"
  by (auto simp: int_type_def int_bits_def PhysToLLVM_def split: if_splits)

lemma IntegerWidth_int: "int_type pt \<Longrightarrow> IntegerWidth pt = int (int_bits pt)"
  by (auto simp: int_type_def int_bits_def IntegerWidth_def split: if_splits)

lemma IsFP_int: "int_type pt \<Longrightarrow> \<not> IsFP pt"
  by (auto simp: int_type_def int_bits_def IsFP_def split: if_splits)

lemma unsigned_or_signed: "int_type pt \<Longrightarrow> IsUnsignedInt pt \<longleftrightarrow> \<not> signed_type pt \<and> pt \<noteq> PT_BOOL"
  by (auto simp: int_type_def int_bits_def IsUnsignedInt_def signed_type_def split: if_splits)

lemma CommonType_same [simp]: "CommonType a a = a"
  by (simp add: CommonType_def)

lemma CommonType_BOOL [simp]: "CommonType PT_BOOL PT_BOOL = PT_BOOL"
  by simp

text \<open>A value of a type is read back from its bits: as it is, or in two's complement.\<close>

lemma wrap_IsUnsignedInt:
  "int_type pt \<Longrightarrow> IsUnsignedInt pt \<Longrightarrow> wrap pt v = v \<Longrightarrow> take_bit (int_bits pt) v = v"
  using unsigned_or_signed wrap_unsigned by blast

lemma wrap_sgn_val:
  "int_type pt \<Longrightarrow> \<not> IsUnsignedInt pt \<Longrightarrow> wrap pt v = v \<Longrightarrow> sgn_val (int_bits pt) (take_bit (int_bits pt) v) = v"
  using unsigned_or_signed wrap_signed unfolding sgn_val_def by blast

section \<open>The batch in memory\<close>

text \<open>The column slots an expression reads.\<close>

fun expr_refs :: "Expression \<Rightarrow> (nat \<times> PhysicalType) list" where
  "expr_refs (BoundReference t i) = [(unat i, InternalType t)]"
| "expr_refs (BoundFunction t f cs) = concat (map expr_refs cs)"
| "expr_refs (BoundComparison et l r) = expr_refs l @ expr_refs r"
| "expr_refs (BoundConjunction et cs) = concat (map expr_refs cs)"
| "expr_refs (BoundCast t try_cast c) = expr_refs c"
| "expr_refs _ = []"

text \<open>
  Row \<open>i\<close> of column \<open>c\<close> through the two pointer tables: the value in the column's array and a validity
  byte that is zero exactly for NULL. None of the arrays is one of the blocks \<open>out\<close> the kernel writes.
\<close>

definition cell_at :: "mem \<Rightarrow> nat set \<Rightarrow> nat \<Rightarrow> nat \<Rightarrow> nat \<Rightarrow> nat \<Rightarrow> PhysicalType \<Rightarrow> int option \<Rightarrow> bool" where
  "cell_at m out bd bv i c pt ov \<longleftrightarrow>
     (\<exists>ds vs b xs b' ys x y.
        m bd = Some ds \<and> c < length ds \<and> ds ! c = VPtr b 0 \<and>
        m b = Some xs \<and> i < length xs \<and> xs ! i = VInt (int_bits pt) x \<and> canon (int_bits pt) x \<and>
        m bv = Some vs \<and> c < length vs \<and> vs ! c = VPtr b' 0 \<and>
        m b' = Some ys \<and> i < length ys \<and> ys ! i = VInt 8 y \<and> canon 8 y \<and>
        {bd, bv, b, b'} \<inter> out = {} \<and> c < 2 ^ 63 \<and>
        (y = 0 \<longleftrightarrow> ov = None) \<and>
        (\<forall>v. ov = Some v \<longrightarrow> in_type pt v \<and> x = take_bit (int_bits pt) v))"

definition row_at :: "mem \<Rightarrow> nat set \<Rightarrow> nat \<Rightarrow> nat \<Rightarrow> nat \<Rightarrow> (nat \<Rightarrow> int option) \<Rightarrow> Expression \<Rightarrow> bool" where
  "row_at m out bd bv i row e \<longleftrightarrow> (\<forall>(c, pt) \<in> set (expr_refs e). cell_at m out bd bv i c pt (row c))"

text \<open>The frame of one iteration.\<close>

definition at_row :: "frame \<Rightarrow> nat \<Rightarrow> nat \<Rightarrow> nat \<Rightarrow> bool" where
  "at_row fr bd bv i \<longleftrightarrow>
     length (args fr) = 5 \<and> args fr ! 0 = VPtr bd 0 \<and> args fr ! 1 = VPtr bv 0 \<and>
     phi fr = VInt 64 (int i) \<and> i < 2 ^ 63"

lemma at_row_extends: "extends fr fr' \<Longrightarrow> at_row fr bd bv i \<Longrightarrow> at_row fr' bd bv i"
  by (simp add: extends_def at_row_def)

text \<open>What the code of a subtree leaves behind: value and flag, related to the row's meaning.\<close>

definition holds :: "frame \<Rightarrow> operand \<times> operand \<Rightarrow> PhysicalType \<Rightarrow> int option \<Rightarrow> bool" where
  "holds fr vn pt ov \<longleftrightarrow>
     (\<exists>x. operand_val fr (fst vn) = Some (VInt (int_bits pt) x) \<and> canon (int_bits pt) x \<and>
        operand_val fr (snd vn) = Some (VInt 1 (of_bool (ov = None))) \<and>
        (\<forall>v. ov = Some v \<longrightarrow> wrap pt v = v \<and> x = take_bit (int_bits pt) v))"

lemma holds_extends: "extends fr fr' \<Longrightarrow> holds fr vn pt ov \<Longrightarrow> holds fr' vn pt ov"
  unfolding holds_def using operand_extends by blast

definition generates ::
    "sem \<Rightarrow> frame \<Rightarrow> frame \<Rightarrow> ((operand \<times> operand) \<times> builder) result \<Rightarrow> PhysicalType \<Rightarrow> int option \<Rightarrow> bool" where
  "generates sem fr0 fr r pt ov \<longleftrightarrow>
     (\<exists>vn s' fr'. r = Inr (vn, s') \<and> runs sem fr0 s' fr' \<and> extends fr fr' \<and> holds fr' vn pt ov)"

lemma generatesI:
  "r = Inr (vn, s') \<Longrightarrow> runs sem fr0 s' fr' \<Longrightarrow> extends fr fr' \<Longrightarrow> holds fr' vn pt ov \<Longrightarrow> generates sem fr0 fr r pt ov"
  by (auto simp: generates_def)

text \<open>The induction hypothesis of a subtree, ready to use.\<close>

definition codegen_ok :: "sem \<Rightarrow> decimal_cast \<Rightarrow> (nat \<Rightarrow> int option) \<Rightarrow> frame \<Rightarrow> nat set \<Rightarrow> nat \<Rightarrow> nat \<Rightarrow> nat \<Rightarrow> Expression \<Rightarrow> bool" where
  "codegen_ok sem dec row fr0 out bd bv i e \<longleftrightarrow>
     (\<forall>s fr. runs sem fr0 s fr \<longrightarrow> at_row fr bd bv i \<longrightarrow> row_at (memory fr) out bd bv i row e \<longrightarrow>
        generates sem fr0 fr (Codegen dec e s) (phys e) (wrap_eval row e))"

text \<open>What the kernel stores for a row: zero for NULL.\<close>

definition stored :: "PhysicalType \<Rightarrow> int option \<Rightarrow> llval" where
  "stored pt ov = VInt (int_bits pt) (case ov of None \<Rightarrow> 0 | Some v \<Rightarrow> take_bit (int_bits pt) v)"

lemma int_expr_type: "int_expr e \<Longrightarrow> int_type (phys e)"
  by (induction e rule: int_expr.induct) (auto simp: plain_int_def int_constant_def)

lemma GetValue_plain:
  assumes "int_constant v" and "\<not> is_null v"
  shows "GetValue dec v = Inr (value_data v)"
proof -
  have "plain_int_id (lt_id (value_type v))"
    using assms(1) by (simp add: int_constant_def plain_int_def)
  then show ?thesis
    using assms(2) unfolding GetValue_def Let_def plain_int_id_def by (elim insertE emptyE) simp_all
qed

lemma sgn_val_small: "i < 2 ^ 63 \<Longrightarrow> sgn_val 64 (int i) = int i"
  by (simp add: sgn_val_def signed_take_bit_int_eq_self)

lemma gep_small:
  "m b = Some xs \<Longrightarrow> i < length xs \<Longrightarrow> i < 2 ^ 63 \<Longrightarrow> gep m (VPtr b 0) (VInt 64 (int i)) = Some (VPtr b (int i))"
  by (simp add: gep_def sgn_val_small)

lemma load_small:
  "m b = Some xs \<Longrightarrow> i < length xs \<Longrightarrow> val_ty (xs ! i) = ty \<Longrightarrow> load m ty (VPtr b (int i)) = Some (xs ! i)"
  by (simp add: load_def)

context llvm_semantics
begin

lemma Create_runs:
  assumes "runs sem fr0 s fr" and "operand_vals fr xs = Some vs" and "sem op vs = Some v"
  shows "runs sem fr0 (snd (Create op xs s)) (push v fr)"
    and "operand_val (push v fr) (fst (Create op xs s)) = Some v"
  using assms operand_last [OF assms(1)] by (auto simp: Create_def emit_def intro!: runs_step)

lemma emit_runs:
  assumes "runs sem fr0 s fr" and "exec_instr sem fr i = Some (push v fr)"
  shows "runs sem fr0 (snd (emit i s)) (push v fr)"
    and "operand_val (push v fr) (fst (emit i s)) = Some v"
  using assms operand_last [OF assms(1)] by (auto simp: emit_def intro!: runs_step)

lemma CodegenRef_generates:
  assumes run: "runs sem fr0 s fr" and row: "at_row fr bd bv i"
    and cell: "cell_at (memory fr) out bd bv i c pt ov" and pt: "int_type pt"
  shows "generates sem fr0 fr (CodegenRef c pt s) pt ov"
proof -
  obtain ds vs b xs b' ys x y where m:
      "memory fr bd = Some ds" "c < length ds" "ds ! c = VPtr b 0"
      "memory fr b = Some xs" "i < length xs" "xs ! i = VInt (int_bits pt) x" "canon (int_bits pt) x"
      "memory fr bv = Some vs" "c < length vs" "vs ! c = VPtr b' 0"
      "memory fr b' = Some ys" "i < length ys" "ys ! i = VInt 8 y" "canon 8 y"
    and c: "c < 2 ^ 63" and y: "y = 0 \<longleftrightarrow> ov = None"
    and x: "\<forall>v. ov = Some v \<longrightarrow> in_type pt v \<and> x = take_bit (int_bits pt) v"
    using cell unfolding cell_at_def by blast
  let ?w = "int_bits pt" and ?n = "length s"
  let ?is = "[IGEP TPtr (OArg 0) (OConst (VInt 64 (int c))), ILoad TPtr (OReg ?n), IBitCast (OReg (?n + 1)),
    IGEP (TInt ?w) (OReg (?n + 2)) OPhi, ILoad (TInt ?w) (OReg (?n + 3)),
    IGEP TPtr (OArg 1) (OConst (VInt 64 (int c))), ILoad TPtr (OReg (?n + 5)),
    IGEP (TInt 8) (OReg (?n + 6)) OPhi, ILoad (TInt 8) (OReg (?n + 7)),
    IPure (ICmp IEQ) [OReg (?n + 8), OConst (VInt 8 0)]]"
  let ?vs = "[VPtr bd (int c), VPtr b 0, VPtr b 0, VPtr b (int i), VInt ?w x, VPtr bv (int c), VPtr b' 0,
    VPtr b' (int i), VInt 8 y, VInt 1 (of_bool (ov = None))]"
  let ?fr = "fr\<lparr>regs := regs fr @ ?vs\<rparr>"
  have len: "length (regs fr) = ?n" using run by (simp add: runs_def)
  have gen: "CodegenRef c pt s = Inr ((OReg (?n + 4), OReg (?n + 9)), s @ ?is)"
    by (simp add: CodegenRef_def PhysToLLVM_int [OF pt] emit_def Create_def Let_def)
  have eq: "sem (ICmp IEQ) [VInt 8 y, VInt 8 0] = Some (VInt 1 (of_bool (ov = None)))"
    using m(14) y icmp_law [of 8 y 0 IEQ] by (simp add: canon_def)
  have vals: "val_ty (ds ! c) = TPtr" "val_ty (vs ! c) = TPtr" "val_ty (xs ! i) = TInt ?w" "val_ty (ys ! i) = TInt 8"
    using m by simp_all
  have "exec sem fr ?is = Some ?fr"
    using row len m eq vals c
    by (simp add: at_row_def push_def nth_append gep_small load_small)
  then have "runs sem fr0 (s @ ?is) ?fr"
    using run by (simp add: runs_def exec_append)
  moreover have "extends fr ?fr"
    by (simp add: extends_def)
  moreover have "holds ?fr (OReg (?n + 4), OReg (?n + 9)) pt ov"
    using m x len in_type_wrap [OF pt] by (simp add: holds_def nth_append)
  ultimately show ?thesis
    using gen by (intro generatesI)
qed

lemma Promote_runs:
  assumes run: "runs sem fr0 s fr" and v: "operand_val fr v = Some (VInt (int_bits from) x)" "canon (int_bits from) x"
    and int: "int_type from" "int_type to"
  obtains v' s' fr' x' where "Promote v from to s = Inr (v', s')" "runs sem fr0 s' fr'" "extends fr fr'"
    "operand_val fr' v' = Some (VInt (int_bits to) x')" "canon (int_bits to) x'"
    "\<And>u. wrap from u = u \<Longrightarrow> x = take_bit (int_bits from) u \<Longrightarrow> x' = take_bit (int_bits to) u"
proof -
  let ?w = "int_bits from" and ?w' = "int_bits to"
  have pos: "0 < ?w" "0 < ?w'" using int by (auto simp: int_type_def)
  note shape = PhysToLLVM_int [OF int(2)] IsFP_int [OF int(1)] IsFP_int [OF int(2)]
    IntegerWidth_int [OF int(1)] IntegerWidth_int [OF int(2)]
  have vals: "operand_vals fr [v] = Some [VInt ?w x]"
    using v by simp
  consider "?w = ?w'" | "from \<noteq> to" "?w < ?w'" | "from \<noteq> to" "?w > ?w'"
    by (cases "from = to") (auto intro: linorder_cases)
  then show thesis
  proof cases
    case 1
    then have "Promote v from to s = Inr (v, s)"
      by (simp add: Promote_def shape)
    from this run extends_refl show thesis
      by (rule that) (use v 1 in simp_all)
  next
    case 2
    let ?op = "if IsUnsignedInt from then ZExt (TInt ?w') else SExt (TInt ?w')"
    let ?x = "if IsUnsignedInt from then x else take_bit ?w' (sgn_val ?w x)"
    have gen: "Promote v from to s = Inr (fst (Create ?op [v] s), snd (Create ?op [v] s))"
      using 2 by (simp add: Promote_def shape)
    have step: "sem ?op [VInt ?w x] = Some (VInt ?w' ?x)"
      using 2 v zext [of ?w x ?w'] sext [of ?w x ?w'] by simp
    have canon: "canon ?w' ?x"
      using 2 v(2) pos by (auto simp: canon_range intro: order_less_le_trans)
    have val: "?x = take_bit ?w' u" if "wrap from u = u" "x = take_bit ?w u" for u
    proof (cases "IsUnsignedInt from")
      case True
      then have "take_bit ?w u = u"
        using wrap_IsUnsignedInt [OF int(1)] that(1) by simp
      then show ?thesis
        using True that(2) canon by (simp add: canon_def)
    next
      case False
      then show ?thesis
        using wrap_sgn_val [OF int(1)] that by simp
    qed
    from gen Create_runs(1) [OF run vals step] extends_push Create_runs(2) [OF run vals step] canon val
    show thesis by (rule that)
  next
    case 3
    have gen: "Promote v from to s = Inr (fst (Create (Trunc (TInt ?w')) [v] s), snd (Create (Trunc (TInt ?w')) [v] s))"
      using 3 by (simp add: Promote_def shape)
    have step: "sem (Trunc (TInt ?w')) [VInt ?w x] = Some (VInt ?w' (take_bit ?w' x))"
      using 3 v(2) pos trunc by simp
    from gen Create_runs(1) [OF run vals step] extends_push Create_runs(2) [OF run vals step]
    show thesis
      by (rule that) (use 3 pos in \<open>simp_all add: min_def\<close>)
  qed
qed

lemma CodegenConstant_generates:
  assumes run: "runs sem fr0 s fr" and v: "int_constant v"
  shows "generates sem fr0 fr (CodegenConstant dec v s) (InternalType (value_type v))
    (if is_null v then None else case value_data v of CInt i \<Rightarrow> Some i | _ \<Rightarrow> None)"
proof -
  let ?pt = "InternalType (value_type v)"
  have int: "int_type ?pt"
    using v by (auto simp: int_constant_def plain_int_def)
  then have pos: "0 < int_bits ?pt" by (simp add: int_type_def)
  show ?thesis
  proof (cases "is_null v")
    case True
    have "CodegenConstant dec v s = Inr ((OConst (VInt (int_bits ?pt) 0), lltrue), s)"
      using True by (simp add: CodegenConstant_def Let_def PhysToLLVM_int [OF int] getNullValue_def)
    from this run extends_refl show ?thesis
      by (rule generatesI) (use True pos in \<open>simp add: holds_def canon_def\<close>)
  next
    case False
    then obtain i where i: "value_data v = CInt i" "in_type ?pt i"
      using v by (auto simp: int_constant_def split: cell.splits)
    have "GetValue dec v = Inr (CInt i)"
      using GetValue_plain [OF v False] i by simp
    then have "CodegenConstant dec v s = Inr ((OConst (VInt (int_bits ?pt) (take_bit (int_bits ?pt) i)), llfalse), s)"
      using False by (simp add: CodegenConstant_def Let_def constant_value_def PhysToLLVM_int [OF int])
    from this run extends_refl show ?thesis
      by (rule generatesI) (use False i pos in_type_wrap [OF int] in \<open>simp add: holds_def\<close>)
  qed
qed

text \<open>The flags of two operands are combined by an \<open>or\<close> of two \<open>i1\<close>.\<close>

lemma or_flags: "sem OrOp [VInt 1 (of_bool a), VInt 1 (of_bool b)] = Some (VInt 1 (of_bool (a \<or> b)))"
  using or_law [of 1 "of_bool a" "of_bool b"] by (cases a; cases b) (simp_all add: canon_def)

lemma Promote_same [simp]: "Promote v pt pt s = Inr (v, s)"
  by (simp add: Promote_def)

lemma holds_operands:
  assumes "holds fr vn pt ov"
  obtains x where "operand_val fr (fst vn) = Some (VInt (int_bits pt) x)" "canon (int_bits pt) x"
    "operand_val fr (snd vn) = Some (VInt 1 (of_bool (ov = None)))"
    "\<And>v. ov = Some v \<Longrightarrow> wrap pt v = v \<and> x = take_bit (int_bits pt) v"
  using assms unfolding holds_def by blast

lemma CodegenFunction1_generates:
  assumes run: "runs sem fr0 s fr" and l: "holds fr l pt ov" and int: "int_type pt"
    and nm: "nm \<in> {''+'', ''add'', ''-'', ''subtract''}"
    and res: "r = map_option (\<lambda>x. wrap pt (if nm \<in> {''-'', ''subtract''} then - x else x)) ov"
  shows "generates sem fr0 fr (CodegenFunction1 nm pt pt l s) pt r"
proof -
  obtain x where x: "operand_val fr (fst l) = Some (VInt (int_bits pt) x)" "canon (int_bits pt) x"
      "operand_val fr (snd l) = Some (VInt 1 (of_bool (ov = None)))"
      "\<And>v. ov = Some v \<Longrightarrow> wrap pt v = v \<and> x = take_bit (int_bits pt) v"
    using l by (rule holds_operands) blast
  have pos: "0 < int_bits pt" using int by (simp add: int_type_def)
  show ?thesis
  proof (cases "nm \<in> {''-'', ''subtract''}")
    case True
    have vals: "operand_vals fr [fst l] = Some [VInt (int_bits pt) x]" using x by simp
    note step = neg [OF x(2)]
    have "CodegenFunction1 nm pt pt l s = Inr ((fst (Create Neg [fst l] s), snd l), snd (Create Neg [fst l] s))"
      using True by (auto simp: CodegenFunction1_def CodegenUnary_def name_in_def IsFP_int [OF int] case_prod_beta Let_def)
    from this Create_runs(1) [OF run vals step] extends_push show ?thesis
    proof (rule generatesI)
      have r: "r = map_option (\<lambda>x. wrap pt (- x)) ov"
        using res True by (simp only: if_True)
      have "wrap pt v = v \<and> take_bit (int_bits pt) (- x) = take_bit (int_bits pt) v" if "r = Some v" for v
        using r that x(4) int by (cases ov) (auto simp: take_bit_minus)
      moreover have "r = None \<longleftrightarrow> ov = None"
        by (simp add: r)
      ultimately show "holds (push (VInt (int_bits pt) (take_bit (int_bits pt) (- x))) fr)
          (fst (Create Neg [fst l] s), snd l) pt r"
        using Create_runs(2) [OF run vals step] x(3) pos by (auto simp: holds_def)
    qed
  next
    case False
    then have "CodegenFunction1 nm pt pt l s = Inr (l, s)"
      using nm by (auto simp: CodegenFunction1_def CodegenUnary_def name_in_def)
    moreover have "r = map_option (wrap pt) ov"
      using res False by (simp only: if_False)
    then have "r = ov"
      using x(4) by (cases ov) simp_all
    ultimately show ?thesis
      using run l by (intro generatesI [OF _ run extends_refl]) auto
  qed
qed

lemma arith_step:
  assumes "arith nm = Some g" and "canon w x" and "canon w y"
  obtains op z where "sem op [VInt w x, VInt w y] = Some (VInt w z)" "canon w z"
    "\<And>a b. x = take_bit w a \<Longrightarrow> y = take_bit w b \<Longrightarrow> z = take_bit w (g a b)"
    "\<And>com en lv rv s. \<not> IsFP com \<Longrightarrow>
       CodegenBinary nm com lv rv en s = Inr ((fst (Create op [lv, rv] s), en), snd (Create op [lv, rv] s))"
proof -
  have pos: "0 < w" using assms by (simp add: canon_def)
  consider "nm \<in> {''+'', ''add''}" "g = (+)" | "nm \<in> {''-'', ''subtract''}" "g = (-)" | "nm \<in> {''*'', ''multiply''}" "g = (*)"
    using assms(1) by (auto simp: arith_def split: if_splits)
  then show thesis
  proof cases
    case 1
    from add [OF assms(2,3)] show thesis
      by (rule that) (use 1 pos in \<open>auto simp: take_bit_add CodegenBinary_def name_in_def case_prod_beta\<close>)
  next
    case 2
    from sub [OF assms(2,3)] show thesis
      by (rule that) (use 2 pos in \<open>auto simp: take_bit_diff CodegenBinary_def name_in_def case_prod_beta\<close>)
  next
    case 3
    from mul [OF assms(2,3)] show thesis
      by (rule that) (use 3 pos in \<open>auto simp: take_bit_mult CodegenBinary_def name_in_def case_prod_beta\<close>)
  qed
qed

lemma CodegenFunction2_generates:
  assumes run: "runs sem fr0 s fr" and l: "holds fr l pt ov" and r: "holds fr r pt ou" and int: "int_type pt"
    and nm: "arith nm = Some g"
    and res: "res = (case (ov, ou) of (Some a, Some b) \<Rightarrow> Some (wrap pt (g a b)) | _ \<Rightarrow> None)"
  shows "generates sem fr0 fr (CodegenFunction2 nm pt pt pt l r s) pt res"
proof -
  let ?w = "int_bits pt"
  obtain x where x: "operand_val fr (fst l) = Some (VInt ?w x)" "canon ?w x"
      "operand_val fr (snd l) = Some (VInt 1 (of_bool (ov = None)))"
      "\<And>v. ov = Some v \<Longrightarrow> wrap pt v = v \<and> x = take_bit ?w v"
    using l by (rule holds_operands) blast
  obtain y where y: "operand_val fr (fst r) = Some (VInt ?w y)" "canon ?w y"
      "operand_val fr (snd r) = Some (VInt 1 (of_bool (ou = None)))"
      "\<And>v. ou = Some v \<Longrightarrow> wrap pt v = v \<and> y = take_bit ?w v"
    using r by (rule holds_operands) blast
  obtain op z where op: "sem op [VInt ?w x, VInt ?w y] = Some (VInt ?w z)" "canon ?w z"
      "\<And>a b. x = take_bit ?w a \<Longrightarrow> y = take_bit ?w b \<Longrightarrow> z = take_bit ?w (g a b)"
      "\<And>com en lv rv s. \<not> IsFP com \<Longrightarrow>
        CodegenBinary nm com lv rv en s = Inr ((fst (Create op [lv, rv] s), en), snd (Create op [lv, rv] s))"
    using arith_step [OF nm x(2) y(2)] by metis
  let ?en = "Create OrOp [snd l, snd r] s" and ?f1 = "push (VInt 1 (of_bool (ov = None \<or> ou = None))) fr"
  have flags: "operand_vals fr [snd l, snd r] = Some [VInt 1 (of_bool (ov = None)), VInt 1 (of_bool (ou = None))]"
    using x y by simp
  note run1 = Create_runs [OF run flags or_flags]
  let ?op = "Create op [fst l, fst r] (snd ?en)" and ?f2 = "push (VInt ?w z) ?f1"
  have vals: "operand_vals ?f1 [fst l, fst r] = Some [VInt ?w x, VInt ?w y]"
    using x y by simp
  note run2 = Create_runs [OF run1(1) vals op(1)]
  have "CodegenFunction2 nm pt pt pt l r s = Inr ((fst ?op, fst ?en), snd ?op)"
    by (simp add: CodegenFunction2_def case_prod_beta Let_def op(4) IsFP_int [OF int])
  moreover have "extends fr ?f2"
    using extends_trans [OF extends_push extends_push] .
  moreover have "holds ?f2 (fst ?op, fst ?en) pt res"
  proof -
    have "res = None \<longleftrightarrow> ov = None \<or> ou = None"
      using res by (auto split: option.splits)
    moreover have "wrap pt v = v \<and> z = take_bit ?w v" if "res = Some v" for v
      using res that x(4) y(4) op(3) int by (auto split: option.splits)
    ultimately show ?thesis
      using run2(2) operand_push [OF run1(2)] op(2) by (auto simp: holds_def)
  qed
  ultimately show ?thesis
    using run2(1) by (intro generatesI)
qed

text \<open>The predicate chosen for a comparison agrees with the order of the integers.\<close>

lemma comparison_step:
  assumes cmp: "compare_int et = Some p" and int: "int_type pt"
    and x: "canon (int_bits pt) x" and y: "canon (int_bits pt) y"
  obtains op b where "comparison_op et pt = Some op" "sem op [VInt (int_bits pt) x, VInt (int_bits pt) y] = Some (VInt 1 (of_bool b))"
    "\<And>u v. wrap pt u = u \<Longrightarrow> wrap pt v = v \<Longrightarrow> x = take_bit (int_bits pt) u \<Longrightarrow> y = take_bit (int_bits pt) v \<Longrightarrow> b = p u v"
proof -
  let ?w = "int_bits pt"
  define ip where "ip = (if et = ET_COMPARE_EQUAL then IEQ else if et = ET_COMPARE_NOTEQUAL then INE
    else if et = ET_COMPARE_LESSTHAN then (if IsUnsignedInt pt then IULT else ISLT)
    else if et = ET_COMPARE_GREATERTHAN then (if IsUnsignedInt pt then IUGT else ISGT)
    else if et = ET_COMPARE_LESSTHANOREQUALTO then (if IsUnsignedInt pt then IULE else ISLE)
    else (if IsUnsignedInt pt then IUGE else ISGE))"
  have op: "comparison_op et pt = Some (ICmp ip)"
    using cmp unfolding comparison_op_def compare_int_def ip_def Let_def
    by (simp add: IsFP_int [OF int] split: if_splits)
  have "icmp ip ?w x y = p u v"
    if uv: "wrap pt u = u" "wrap pt v = v" "x = take_bit ?w u" "y = take_bit ?w v" for u v
  proof (cases "IsUnsignedInt pt")
    case True
    then have "x = u" "y = v"
      using uv wrap_IsUnsignedInt [OF int] by auto
    then show ?thesis
      using cmp True unfolding ip_def compare_int_def by (auto split: if_splits)
  next
    case False
    then have "sgn_val ?w x = u" "sgn_val ?w y = v"
      using uv wrap_sgn_val [OF int] by auto
    moreover have "x = y \<longleftrightarrow> u = v"
      using wrap_inject [OF int uv(1,2)] uv(3,4) by simp
    ultimately show ?thesis
      using cmp False unfolding ip_def compare_int_def by (auto split: if_splits)
  qed
  with op icmp_law [OF x y, of ip] show thesis
    by (intro that) auto
qed

lemma CodegenComparison_generates:
  assumes run: "runs sem fr0 s fr" and l: "holds fr l pt ov" and r: "holds fr r pt ou" and int: "int_type pt"
    and cmp: "compare_int et = Some p"
    and res: "res = (case (ov, ou) of (Some a, Some b) \<Rightarrow> Some (of_bool (p a b)) | _ \<Rightarrow> None)"
  shows "generates sem fr0 fr (CodegenComparison et pt pt l r s) PT_BOOL res"
proof -
  let ?w = "int_bits pt"
  obtain x where x: "operand_val fr (fst l) = Some (VInt ?w x)" "canon ?w x"
      "operand_val fr (snd l) = Some (VInt 1 (of_bool (ov = None)))"
      "\<And>v. ov = Some v \<Longrightarrow> wrap pt v = v \<and> x = take_bit ?w v"
    using l by (rule holds_operands) blast
  obtain y where y: "operand_val fr (fst r) = Some (VInt ?w y)" "canon ?w y"
      "operand_val fr (snd r) = Some (VInt 1 (of_bool (ou = None)))"
      "\<And>v. ou = Some v \<Longrightarrow> wrap pt v = v \<and> y = take_bit ?w v"
    using r by (rule holds_operands) blast
  obtain op b where op: "comparison_op et pt = Some op" "sem op [VInt ?w x, VInt ?w y] = Some (VInt 1 (of_bool b))"
      "\<And>u v. wrap pt u = u \<Longrightarrow> wrap pt v = v \<Longrightarrow> x = take_bit ?w u \<Longrightarrow> y = take_bit ?w v \<Longrightarrow> b = p u v"
    using comparison_step [OF cmp int x(2) y(2)] by metis
  let ?en = "Create OrOp [snd l, snd r] s" and ?f1 = "push (VInt 1 (of_bool (ov = None \<or> ou = None))) fr"
  have flags: "operand_vals fr [snd l, snd r] = Some [VInt 1 (of_bool (ov = None)), VInt 1 (of_bool (ou = None))]"
    using x y by simp
  note run1 = Create_runs [OF run flags or_flags]
  let ?ci = "Create op [fst l, fst r] (snd ?en)" and ?f2 = "push (VInt 1 (of_bool b)) ?f1"
  have vals: "operand_vals ?f1 [fst l, fst r] = Some [VInt ?w x, VInt ?w y]"
    using x y by simp
  note run2 = Create_runs [OF run1(1) vals op(2)]
  let ?z = "Create (ZExt (TInt 8)) [fst ?ci] (snd ?ci)" and ?f3 = "push (VInt 8 (of_bool b)) ?f2"
  have "operand_vals ?f2 [fst ?ci] = Some [VInt 1 (of_bool b)]"
    using run2(2) by simp
  moreover have "sem (ZExt (TInt 8)) [VInt 1 (of_bool b)] = Some (VInt 8 (of_bool b))"
    using zext [of 1 "of_bool b" 8] by simp
  ultimately have run3: "runs sem fr0 (snd ?z) ?f3" "operand_val ?f3 (fst ?z) = Some (VInt 8 (of_bool b))"
    using Create_runs [OF run2(1)] by blast+
  have "CodegenComparison et pt pt l r s = Inr ((fst ?z, fst ?en), snd ?z)"
    using op(1) by (simp add: CodegenComparison_def case_prod_beta Let_def)
  moreover have "extends fr ?f3"
    using extends_trans [OF extends_trans [OF extends_push extends_push] extends_push] .
  moreover have "holds ?f3 (fst ?z, fst ?en) PT_BOOL res"
  proof -
    have "res = None \<longleftrightarrow> ov = None \<or> ou = None"
      using res by (auto split: option.splits)
    moreover have "wrap PT_BOOL v = v \<and> of_bool b = take_bit 8 v" if "res = Some v" for v
      using res that x(4) y(4) op(3) by (auto split: option.splits)
    ultimately show ?thesis
      using run3(2) operand_push [OF operand_push [OF run1(2)]] by (auto simp: holds_def)
  qed
  ultimately show ?thesis
    using run3(1) by (intro generatesI)
qed

lemma conj_bits:
  assumes "canon 8 x" "canon 8 y"
  obtains z where "sem (if is_and then AndOp else OrOp) [VInt 8 x, VInt 8 y] = Some (VInt 8 z)" "canon 8 z"
    "\<And>a b. x = take_bit 8 a \<Longrightarrow> y = take_bit 8 b \<Longrightarrow> z = take_bit 8 (if is_and then a AND b else a OR b)"
proof (rule that)
  let ?z = "if is_and then x AND y else x OR y"
  show "sem (if is_and then AndOp else OrOp) [VInt 8 x, VInt 8 y] = Some (VInt 8 ?z)"
    using and_law [OF assms] or_law [OF assms] by simp
  show "canon 8 ?z"
    using assms by (auto simp: canon_def)
qed simp

text \<open>One round of the loop over the children of a conjunction.\<close>

lemma conj_round:
  assumes run: "runs sem fr0 s fr" and l: "holds fr acc PT_BOOL ov" and r: "holds fr nv PT_BOOL ou"
  obtains an acc' s' fr' where
    "(let (an, s) = Create OrOp [snd acc, snd nv] s;
          (acc', s) = Create (if is_and then AndOp else OrOp) [fst acc, fst nv] s in ((acc', an), s)) = ((acc', an), s')"
    "runs sem fr0 s' fr'" "extends fr fr'" "holds fr' (acc', an) PT_BOOL (wrap_conj is_and ov ou)"
proof -
  obtain x where x: "operand_val fr (fst acc) = Some (VInt 8 x)" "canon 8 x"
      "operand_val fr (snd acc) = Some (VInt 1 (of_bool (ov = None)))"
      "\<And>v. ov = Some v \<Longrightarrow> wrap PT_BOOL v = v \<and> x = take_bit 8 v"
    using holds_operands [OF l] unfolding int_bits_BOOL by blast
  obtain y where y: "operand_val fr (fst nv) = Some (VInt 8 y)" "canon 8 y"
      "operand_val fr (snd nv) = Some (VInt 1 (of_bool (ou = None)))"
      "\<And>v. ou = Some v \<Longrightarrow> wrap PT_BOOL v = v \<and> y = take_bit 8 v"
    using holds_operands [OF r] unfolding int_bits_BOOL by blast
  obtain z where z: "sem (if is_and then AndOp else OrOp) [VInt 8 x, VInt 8 y] = Some (VInt 8 z)" "canon 8 z"
      "\<And>a b. x = take_bit 8 a \<Longrightarrow> y = take_bit 8 b \<Longrightarrow> z = take_bit 8 (if is_and then a AND b else a OR b)"
    using conj_bits [OF x(2) y(2)] by metis
  let ?en = "Create OrOp [snd acc, snd nv] s" and ?f1 = "push (VInt 1 (of_bool (ov = None \<or> ou = None))) fr"
  have flags: "operand_vals fr [snd acc, snd nv] = Some [VInt 1 (of_bool (ov = None)), VInt 1 (of_bool (ou = None))]"
    using x y by simp
  note run1 = Create_runs [OF run flags or_flags]
  let ?op = "Create (if is_and then AndOp else OrOp) [fst acc, fst nv] (snd ?en)" and ?f2 = "push (VInt 8 z) ?f1"
  have vals: "operand_vals ?f1 [fst acc, fst nv] = Some [VInt 8 x, VInt 8 y]"
    using x y by simp
  note run2 = Create_runs [OF run1(1) vals z(1)]
  show thesis
  proof
    show "(let (an, s) = Create OrOp [snd acc, snd nv] s;
          (acc', s) = Create (if is_and then AndOp else OrOp) [fst acc, fst nv] s in ((acc', an), s)) =
        ((fst ?op, fst ?en), snd ?op)"
      by (simp add: case_prod_beta Let_def)
    show "runs sem fr0 (snd ?op) ?f2" using run2(1) .
    show "extends fr ?f2" using extends_trans [OF extends_push extends_push] .
    have "wrap PT_BOOL v = v \<and> z = take_bit 8 v" if "wrap_conj is_and ov ou = Some v" for v
      using that x(4) y(4) z(3) wrap_conj_BOOL by (auto simp: wrap_conj_def split: option.splits)
    moreover have "wrap_conj is_and ov ou = None \<longleftrightarrow> ov = None \<or> ou = None"
      by (auto simp: wrap_conj_def split: option.splits)
    ultimately show "holds ?f2 (fst ?op, fst ?en) PT_BOOL (wrap_conj is_and ov ou)"
      using run2(2) operand_push [OF run1(2)] z(2) by (auto simp: holds_def)
  qed
qed

lemma CodegenCast_generates:
  assumes run: "runs sem fr0 s fr" and l: "holds fr l pt ov" and int: "int_type pt" "int_type to"
  shows "generates sem fr0 fr (bindE (Promote (fst l) pt to s) (\<lambda>(v, s). Inr ((v, snd l), s))) to (map_option (wrap to) ov)"
proof -
  obtain x where x: "operand_val fr (fst l) = Some (VInt (int_bits pt) x)" "canon (int_bits pt) x"
      "operand_val fr (snd l) = Some (VInt 1 (of_bool (ov = None)))"
      "\<And>v. ov = Some v \<Longrightarrow> wrap pt v = v \<and> x = take_bit (int_bits pt) v"
    using l by (rule holds_operands) blast
  obtain v' s' fr' x' where p: "Promote (fst l) pt to s = Inr (v', s')" "runs sem fr0 s' fr'" "extends fr fr'"
      "operand_val fr' v' = Some (VInt (int_bits to) x')" "canon (int_bits to) x'"
      "\<And>u. wrap pt u = u \<Longrightarrow> x = take_bit (int_bits pt) u \<Longrightarrow> x' = take_bit (int_bits to) u"
    using run x(1,2) int by (rule Promote_runs) blast
  have "holds fr' (v', snd l) to (map_option (wrap to) ov)"
    using p x(4) operand_extends [OF p(3) x(3)] int(2) by (auto simp: holds_def)
  then show ?thesis
    using p(1-3) by (intro generatesI) auto
qed

lemma row_at_simps [simp]:
  "row_at m out bd bv i row (BoundReference t j) \<longleftrightarrow> cell_at m out bd bv i (unat j) (InternalType t) (row (unat j))"
  "row_at m out bd bv i row (BoundFunction t f cs) \<longleftrightarrow> (\<forall>c \<in> set cs. row_at m out bd bv i row c)"
  "row_at m out bd bv i row (BoundComparison et l r) \<longleftrightarrow> row_at m out bd bv i row l \<and> row_at m out bd bv i row r"
  "row_at m out bd bv i row (BoundConjunction et cs) \<longleftrightarrow> (\<forall>c \<in> set cs. row_at m out bd bv i row c)"
  "row_at m out bd bv i row (BoundCast t tc c) \<longleftrightarrow> row_at m out bd bv i row c"
  by (fastforce simp: row_at_def)+

lemma codegen_okD:
  assumes "codegen_ok sem dec row fr0 out bd bv i e" and "runs sem fr0 s fr" and "at_row fr bd bv i"
    and "row_at (memory fr) out bd bv i row e"
  obtains vn s' fr' where "Codegen dec e s = Inr (vn, s')" "runs sem fr0 s' fr'" "extends fr fr'"
    "holds fr' vn (phys e) (wrap_eval row e)" "at_row fr' bd bv i" "memory fr' = memory fr"
proof -
  have "generates sem fr0 fr (Codegen dec e s) (phys e) (wrap_eval row e)"
    using assms unfolding codegen_ok_def by blast
  then obtain vn s' fr' where "Codegen dec e s = Inr (vn, s')" "runs sem fr0 s' fr'" "extends fr fr'"
      "holds fr' vn (phys e) (wrap_eval row e)"
    unfolding generates_def by blast
  note gen = this
  have "memory fr' = memory fr"
    using gen(3) by (simp add: extends_def)
  with gen at_row_extends [OF gen(3) assms(3)] show thesis
    by (intro that)
qed

lemma generates_trans:
  "extends fr fr' \<Longrightarrow> generates sem fr0 fr' r pt ov \<Longrightarrow> generates sem fr0 fr r pt ov"
  unfolding generates_def using extends_trans by blast

lemma CodegenConj_generates:
  assumes "\<forall>c \<in> set cs. codegen_ok sem dec row fr0 out bd bv i c \<and> phys c = PT_BOOL \<and> row_at (memory fr) out bd bv i row c"
    and "runs sem fr0 s fr" and "at_row fr bd bv i" and "holds fr acc PT_BOOL ov"
  shows "generates sem fr0 fr (CodegenConj dec is_and acc cs s) PT_BOOL (wrap_evals row is_and ov cs)"
  using assms
proof (induction cs arbitrary: s fr acc ov)
  case Nil
  then show ?case by (auto intro: generatesI)
next
  case (Cons c cs)
  have ok: "codegen_ok sem dec row fr0 out bd bv i c" and row: "row_at (memory fr) out bd bv i row c"
    and bool: "phys c = PT_BOOL"
    using Cons.prems(1) by auto
  obtain vn s1 fr1 where c: "Codegen dec c s = Inr (vn, s1)" "runs sem fr0 s1 fr1" "extends fr fr1"
      "holds fr1 vn PT_BOOL (wrap_eval row c)" "at_row fr1 bd bv i" "memory fr1 = memory fr"
    using codegen_okD [OF ok Cons.prems(2,3) row] unfolding bool by blast
  obtain an acc' s2 fr2 where r: "(let (an, s) = Create OrOp [snd acc, snd vn] s1;
          (acc', s) = Create (if is_and then AndOp else OrOp) [fst acc, fst vn] s in ((acc', an), s)) = ((acc', an), s2)"
    "runs sem fr0 s2 fr2" "extends fr1 fr2" "holds fr2 (acc', an) PT_BOOL (wrap_conj is_and ov (wrap_eval row c))"
    using conj_round [OF c(2) holds_extends [OF c(3) Cons.prems(4)] c(4), of is_and] by metis
  have "memory fr2 = memory fr"
    using r(3) c(6) by (simp add: extends_def)
  then have "generates sem fr0 fr2 (CodegenConj dec is_and (acc', an) cs s2) PT_BOOL
      (wrap_evals row is_and (wrap_conj is_and ov (wrap_eval row c)) cs)"
    using Cons.prems(1) r at_row_extends [OF r(3) c(5)] by (intro Cons.IH) auto
  moreover have "CodegenConj dec is_and acc (c # cs) s = CodegenConj dec is_and (acc', an) cs s2"
    using c(1) r(1) by (simp add: case_prod_beta Let_def)
  ultimately show ?case
    using generates_trans [OF extends_trans [OF c(3) r(3)]] by simp
qed

lemma codegen_ok_function1:
  assumes int: "int_type (InternalType t)" and a: "codegen_ok sem dec row fr0 out bd bv i a" "phys a = InternalType t"
    and nm: "fn_name f \<in> {''+'', ''add'', ''-'', ''subtract''}"
  shows "codegen_ok sem dec row fr0 out bd bv i (BoundFunction t f [a])"
  unfolding codegen_ok_def
proof (intro allI impI)
  fix s fr
  assume run: "runs sem fr0 s fr" "at_row fr bd bv i" "row_at (memory fr) out bd bv i row (BoundFunction t f [a])"
  obtain vn s1 fr1 where c: "Codegen dec a s = Inr (vn, s1)" "runs sem fr0 s1 fr1" "extends fr fr1"
      "holds fr1 vn (InternalType t) (wrap_eval row a)"
    using codegen_okD [OF a(1) run(1,2)] run(3) unfolding a(2) by (metis list.set_intros(1) row_at_simps(2))
  have "generates sem fr0 fr1 (CodegenFunction1 (fn_name f) (InternalType t) (InternalType t) vn s1) (InternalType t)
      (wrap_eval row (BoundFunction t f [a]))"
    by (rule CodegenFunction1_generates [OF c(2,4) int nm wrap_eval.simps(3)])
  from generates_trans [OF c(3) this] c(1) a(2)
  show "generates sem fr0 fr (Codegen dec (BoundFunction t f [a]) s) (phys (BoundFunction t f [a]))
      (wrap_eval row (BoundFunction t f [a]))"
    by (simp del: wrap_eval.simps)
qed

lemma codegen_ok_function2:
  assumes int: "int_type (InternalType t)" and a: "codegen_ok sem dec row fr0 out bd bv i a" "phys a = InternalType t"
    and b: "codegen_ok sem dec row fr0 out bd bv i b" "phys b = InternalType t" and g: "arith (fn_name f) = Some g"
  shows "codegen_ok sem dec row fr0 out bd bv i (BoundFunction t f [a, b])"
  unfolding codegen_ok_def
proof (intro allI impI)
  fix s fr
  assume run: "runs sem fr0 s fr" "at_row fr bd bv i" "row_at (memory fr) out bd bv i row (BoundFunction t f [a, b])"
  have rows: "row_at (memory fr) out bd bv i row a" "row_at (memory fr) out bd bv i row b"
    using run(3) by simp_all
  obtain l s1 fr1 where c: "Codegen dec a s = Inr (l, s1)" "runs sem fr0 s1 fr1" "extends fr fr1"
      "holds fr1 l (InternalType t) (wrap_eval row a)" "at_row fr1 bd bv i" "memory fr1 = memory fr"
    using codegen_okD [OF a(1) run(1,2) rows(1)] unfolding a(2) by blast
  have row2: "row_at (memory fr1) out bd bv i row b" using rows(2) c(6) by simp
  obtain rv s2 fr2 where d: "Codegen dec b s1 = Inr (rv, s2)" "runs sem fr0 s2 fr2" "extends fr1 fr2"
      "holds fr2 rv (InternalType t) (wrap_eval row b)"
    using codegen_okD [OF b(1) c(2,5) row2] unfolding b(2) by blast
  have "generates sem fr0 fr2 (CodegenFunction2 (fn_name f) (InternalType t) (InternalType t) (InternalType t) l rv s2) (InternalType t)
      (wrap_eval row (BoundFunction t f [a, b]))"
    by (rule CodegenFunction2_generates [OF d(2) holds_extends [OF d(3) c(4)] d(4) int g]) (simp add: g split: option.splits)
  from generates_trans [OF extends_trans [OF c(3) d(3)] this] c(1) d(1) a(2) b(2)
  show "generates sem fr0 fr (Codegen dec (BoundFunction t f [a, b]) s) (phys (BoundFunction t f [a, b]))
      (wrap_eval row (BoundFunction t f [a, b]))"
    by (simp del: wrap_eval.simps)
qed

lemma codegen_ok_comparison:
  assumes int: "int_type (phys l)" and a: "codegen_ok sem dec row fr0 out bd bv i l"
    and b: "codegen_ok sem dec row fr0 out bd bv i r" "phys r = phys l" and p: "compare_int et = Some p"
  shows "codegen_ok sem dec row fr0 out bd bv i (BoundComparison et l r)"
  unfolding codegen_ok_def
proof (intro allI impI)
  fix s fr
  assume run: "runs sem fr0 s fr" "at_row fr bd bv i" "row_at (memory fr) out bd bv i row (BoundComparison et l r)"
  have rows: "row_at (memory fr) out bd bv i row l" "row_at (memory fr) out bd bv i row r"
    using run(3) by simp_all
  obtain lv s1 fr1 where c: "Codegen dec l s = Inr (lv, s1)" "runs sem fr0 s1 fr1" "extends fr fr1"
      "holds fr1 lv (phys l) (wrap_eval row l)" "at_row fr1 bd bv i" "memory fr1 = memory fr"
    using codegen_okD [OF a run(1,2) rows(1)] by blast
  have row2: "row_at (memory fr1) out bd bv i row r" using rows(2) c(6) by simp
  obtain rv s2 fr2 where d: "Codegen dec r s1 = Inr (rv, s2)" "runs sem fr0 s2 fr2" "extends fr1 fr2"
      "holds fr2 rv (phys l) (wrap_eval row r)"
    using codegen_okD [OF b(1) c(2,5) row2] unfolding b(2) by blast
  have "generates sem fr0 fr2 (CodegenComparison et (phys l) (phys l) lv rv s2) PT_BOOL (wrap_eval row (BoundComparison et l r))"
    by (rule CodegenComparison_generates [OF d(2) holds_extends [OF d(3) c(4)] d(4) int p]) (simp add: p split: option.splits)
  with generates_trans [OF extends_trans [OF c(3) d(3)]] c(1) d(1) b(2)
  show "generates sem fr0 fr (Codegen dec (BoundComparison et l r) s) (phys (BoundComparison et l r))
      (wrap_eval row (BoundComparison et l r))"
    by simp
qed

lemma codegen_ok_conjunction:
  assumes c: "codegen_ok sem dec row fr0 out bd bv i c" "phys c = PT_BOOL"
    and all: "\<forall>c \<in> set cs'. codegen_ok sem dec row fr0 out bd bv i c \<and> phys c = PT_BOOL"
  shows "codegen_ok sem dec row fr0 out bd bv i (BoundConjunction et (c # cs'))"
  unfolding codegen_ok_def
proof (intro allI impI)
  fix s fr
  assume run: "runs sem fr0 s fr" "at_row fr bd bv i" "row_at (memory fr) out bd bv i row (BoundConjunction et (c # cs'))"
  have rowc: "row_at (memory fr) out bd bv i row c" using run(3) by simp
  obtain l s1 fr1 where d: "Codegen dec c s = Inr (l, s1)" "runs sem fr0 s1 fr1" "extends fr fr1"
      "holds fr1 l PT_BOOL (wrap_eval row c)" "at_row fr1 bd bv i" "memory fr1 = memory fr"
    using codegen_okD [OF c(1) run(1,2) rowc] unfolding c(2) by blast
  have "\<forall>c \<in> set cs'. codegen_ok sem dec row fr0 out bd bv i c \<and> phys c = PT_BOOL \<and> row_at (memory fr1) out bd bv i row c"
    using all run(3) d(6) by simp
  then have "generates sem fr0 fr1 (CodegenConj dec (et = ET_CONJUNCTION_AND) l cs' s1) PT_BOOL
      (wrap_eval row (BoundConjunction et (c # cs')))"
    using CodegenConj_generates [OF _ d(2,5,4)] by simp
  with generates_trans [OF d(3)] d(1)
  show "generates sem fr0 fr (Codegen dec (BoundConjunction et (c # cs')) s) (phys (BoundConjunction et (c # cs')))
      (wrap_eval row (BoundConjunction et (c # cs')))"
    by simp
qed

lemma codegen_ok_cast:
  assumes int: "int_type (phys c)" "int_type (InternalType t)" and c: "codegen_ok sem dec row fr0 out bd bv i c"
  shows "codegen_ok sem dec row fr0 out bd bv i (BoundCast t tc c)"
  unfolding codegen_ok_def
proof (intro allI impI)
  fix s fr
  assume run: "runs sem fr0 s fr" "at_row fr bd bv i" "row_at (memory fr) out bd bv i row (BoundCast t tc c)"
  have rowc: "row_at (memory fr) out bd bv i row c" using run(3) by simp
  obtain l s1 fr1 where d: "Codegen dec c s = Inr (l, s1)" "runs sem fr0 s1 fr1" "extends fr fr1"
      "holds fr1 l (phys c) (wrap_eval row c)"
    using codegen_okD [OF c run(1,2) rowc] by blast
  show "generates sem fr0 fr (Codegen dec (BoundCast t tc c) s) (phys (BoundCast t tc c)) (wrap_eval row (BoundCast t tc c))"
    using generates_trans [OF d(3) CodegenCast_generates [OF d(2,4) int]] d(1)
    by (simp add: case_prod_beta)
qed

lemma Codegen_generates: "int_expr e \<Longrightarrow> codegen_ok sem dec row fr0 out bd bv i e"
proof (induction e rule: int_expr.induct)
  case (1 t j)
  then show ?case
    by (auto simp: codegen_ok_def plain_int_def intro: CodegenRef_generates)
next
  case (2 v)
  then show ?case
    using CodegenConstant_generates by (simp add: codegen_ok_def)
next
  case (3 t f a)
  then show ?case
    by (intro codegen_ok_function1) (auto simp: plain_int_def)
next
  case (4 t f a b)
  then obtain g where "arith (fn_name f) = Some g" by auto
  with 4 show ?case
    using codegen_ok_function2 by (auto simp: plain_int_def)
next
  case (5 et l r)
  then obtain p where "compare_int et = Some p" by auto
  with 5 show ?case
    using codegen_ok_comparison by (auto simp: int_expr_type)
next
  case (6 et cs)
  then obtain c cs' where "cs = c # cs'" by (cases cs) auto
  with 6 show ?case
    by (auto intro!: codegen_ok_conjunction)
next
  case (7 t tc c)
  then show ?case
    by (intro codegen_ok_cast) (auto simp: plain_int_def int_expr_type)
qed simp_all

text \<open>The end of the loop body: two stores and the increment.\<close>

lemma operand_later:
  "operand_val fr x = Some v \<Longrightarrow> operand_val (fr\<lparr>regs := regs fr @ ys\<rparr>) x = Some v"
  "operand_val fr x = Some v \<Longrightarrow> operand_val (fr\<lparr>regs := regs fr @ ys, memory := m\<rparr>) x = Some v"
  "operand_val fr x = Some v \<Longrightarrow> operand_val (fr\<lparr>memory := m, regs := regs fr @ ys\<rparr>) x = Some v"
  by (cases x; auto simp: nth_append split: if_splits)+

lemma store_small:
  "m b = Some xs \<Longrightarrow> i < length xs \<Longrightarrow> store m v (VPtr b (int i)) = Some (m(b \<mapsto> xs[i := v]))"
  by (simp add: store_def)

lemma CodegenStores_exec:
  assumes run: "runs sem fr0 s fr" and row: "at_row fr bd bv i" and vn: "holds fr vn pt ov" and int: "int_type pt"
    and out: "args fr ! 2 = VPtr br 0" "args fr ! 3 = VPtr bo 0" "br \<noteq> bo"
    and mem: "memory fr br = Some rs" "i < length rs" "memory fr bo = Some os" "i < length os"
  shows "\<exists>nxt s' fr'. CodegenStores pt vn s = Inr (nxt, s') \<and> exec sem fr0 s' = Some fr' \<and>
    operand_val fr' nxt = Some (VInt 64 (int (Suc i))) \<and>
    memory fr' = (memory fr)(bo \<mapsto> os[i := VInt 8 (of_bool (ov \<noteq> None))], br \<mapsto> rs[i := stored pt ov])"
proof -
  let ?w = "int_bits pt" and ?n = "length s"
  obtain x where x: "operand_val fr (fst vn) = Some (VInt ?w x)" "canon ?w x"
      "operand_val fr (snd vn) = Some (VInt 1 (of_bool (ov = None)))"
      "\<And>v. ov = Some v \<Longrightarrow> wrap pt v = v \<and> x = take_bit ?w v"
    using vn by (rule holds_operands) blast
  have len: "length (regs fr) = ?n" and ex: "exec sem fr0 s = Some fr" using run by (simp_all add: runs_def)
  let ?is = "[IPure (ZExt (TInt 8)) [snd vn], IPure XorOp [OReg ?n, OConst (VInt 8 1)],
    IGEP (TInt 8) (OArg 3) OPhi, IStore (OReg (?n + 1)) (OReg (?n + 2)), IBitCast (OArg 2),
    IPure SelectOp [snd vn, OConst (VInt ?w 0), fst vn], IGEP (TInt ?w) (OReg (?n + 4)) OPhi,
    IStore (OReg (?n + 5)) (OReg (?n + 6)), IPure Add [OPhi, OConst (VInt 64 1)]]"
  have gen: "CodegenStores pt vn s = Inr (OReg (?n + 8), s @ ?is)"
    by (simp add: CodegenStores_def getNullValue_def PhysToLLVM_int [OF int] emit_def Create_def Let_def)
  let ?nb = "VInt 8 (of_bool (ov = None))" and ?vb = "VInt 8 (of_bool (ov \<noteq> None))"
  have sem1: "sem (ZExt (TInt 8)) [VInt 1 (of_bool (ov = None))] = Some ?nb"
    using zext [of 1 "of_bool (ov = None)" 8] by simp
  have sem2: "sem XorOp [?nb, VInt 8 1] = Some ?vb"
    using xor_law [of 8 "of_bool (ov = None)" 1] by (cases ov) (simp_all add: canon_def)
  have sem3: "sem SelectOp [VInt 1 (of_bool (ov = None)), VInt ?w 0, VInt ?w x] = Some (stored pt ov)"
    using select [of "ov = None" "VInt ?w 0" "VInt ?w x"] x(4) by (cases ov) (auto simp: stored_def)
  have i: "i < 2 ^ 63" and phi: "phi fr = VInt 64 (int i)" using row by (simp_all add: at_row_def)
  have sem4: "sem Add [VInt 64 (int i), VInt 64 1] = Some (VInt 64 (int (Suc i)))"
    using i add [of 64 "int i" 1] by (simp add: canon_range take_bit_int_eq_self)
  let ?m1 = "(memory fr)(bo \<mapsto> os[i := ?vb])"
  let ?m2 = "?m1(br \<mapsto> rs[i := stored pt ov])"
  let ?vs = "[?nb, ?vb, VPtr bo (int i), VNull, VPtr br 0, stored pt ov, VPtr br (int i), VNull, VInt 64 (int (Suc i))]"
  have br: "?m1 br = Some rs" using mem out(3) by simp
  have len5: "length (args fr) = 5" using row by (simp add: at_row_def)
  have "exec sem fr ?is = Some (fr\<lparr>regs := regs fr @ ?vs, memory := ?m2\<rparr>)"
    using x(1,3) len len5 out(1,2) mem br sem1 sem2 sem3 sem4 phi i
    by (simp add: push_def nth_append gep_small store_small operand_later del: fun_upd_apply of_bool_eq_1_iff)
  then have "exec sem fr0 (s @ ?is) = Some (fr\<lparr>regs := regs fr @ ?vs, memory := ?m2\<rparr>)"
    using ex by (simp add: exec_append)
  with gen show ?thesis
    using len by (simp add: nth_append)
qed

text \<open>One iteration of the loop.\<close>

lemma body_exec:
  assumes e: "int_expr e" and k: "build_kernel dec e = Inr k"
    and as: "as = [VPtr bd 0, VPtr bv 0, VPtr br 0, VPtr bo 0, VInt 64 (int n)]"
    and row: "row_at m {br, bo} bd bv i row e" "ov = wrap_eval row e" "i < 2 ^ 63" "br \<noteq> bo"
    and mem: "m br = Some rs" "i < length rs" "m bo = Some os" "i < length os"
  shows "\<exists>fr'. exec sem \<lparr>args = as, phi = VInt 64 (int i), regs = [], memory = m\<rparr> (k_body k) = Some fr' \<and>
    operand_val fr' (k_next k) = Some (VInt 64 (int (Suc i))) \<and>
    memory fr' = m(bo \<mapsto> os[i := VInt 8 (of_bool (ov \<noteq> None))], br \<mapsto> rs[i := stored (phys e) ov])"
proof -
  let ?fr = "\<lparr>args = as, phi = VInt 64 (int i), regs = [], memory = m\<rparr>"
  have start: "runs sem ?fr [] ?fr" by (simp add: runs_def)
  have at: "at_row ?fr bd bv i" using as row(3) by (simp add: at_row_def)
  have row': "row_at (memory ?fr) {br, bo} bd bv i row e" using row(1) by simp
  obtain vn s1 fr1 where c: "Codegen dec e [] = Inr (vn, s1)" "runs sem ?fr s1 fr1" "extends ?fr fr1"
      "holds fr1 vn (phys e) ov" "at_row fr1 bd bv i" "memory fr1 = memory ?fr"
    using codegen_okD [OF Codegen_generates [OF e] start at row'] row(2) by blast
  have "args fr1 = as" using c(3) by (simp add: extends_def)
  then obtain nxt s2 fr2 where d: "CodegenStores (phys e) vn s1 = Inr (nxt, s2)" "exec sem ?fr s2 = Some fr2"
      "operand_val fr2 nxt = Some (VInt 64 (int (Suc i)))"
      "memory fr2 = (memory fr1)(bo \<mapsto> os[i := VInt 8 (of_bool (ov \<noteq> None))], br \<mapsto> rs[i := stored (phys e) ov])"
    using CodegenStores_exec [OF c(2,5,4) int_expr_type [OF e], of br bo rs os] as row(4) mem c(6) by auto
  have "k_body k = s2" "k_next k = nxt"
    using k c(1) d(1) by (auto simp: build_kernel_def)
  then show ?thesis using d c(6) by auto
qed

lemma cell_at_other:
  assumes "cell_at m out bd bv i c pt ov" and "\<And>b. b \<notin> out \<Longrightarrow> m' b = m b"
  shows "cell_at m' out bd bv i c pt ov"
proof -
  obtain ds vs b xs b' ys x y where
    c: "m bd = Some ds \<and> c < length ds \<and> ds ! c = VPtr b 0 \<and>
        m b = Some xs \<and> i < length xs \<and> xs ! i = VInt (int_bits pt) x \<and> canon (int_bits pt) x \<and>
        m bv = Some vs \<and> c < length vs \<and> vs ! c = VPtr b' 0 \<and>
        m b' = Some ys \<and> i < length ys \<and> ys ! i = VInt 8 y \<and> canon 8 y \<and>
        {bd, bv, b, b'} \<inter> out = {} \<and> c < 2 ^ 63 \<and>
        (y = 0 \<longleftrightarrow> ov = None) \<and>
        (\<forall>v. ov = Some v \<longrightarrow> in_type pt v \<and> x = take_bit (int_bits pt) v)"
    using assms(1) unfolding cell_at_def by blast
  then have "m' bd = m bd" "m' bv = m bv" "m' b = m b" "m' b' = m b'"
    using assms(2) by auto
  with c show ?thesis
    unfolding cell_at_def by metis
qed

lemma row_at_other:
  "row_at m out bd bv i row e \<Longrightarrow> (\<And>b. b \<notin> out \<Longrightarrow> m' b = m b) \<Longrightarrow> row_at m' out bd bv i row e"
  unfolding row_at_def using cell_at_other by blast

end

definition write_rows :: "nat \<Rightarrow> nat \<Rightarrow> (nat \<Rightarrow> 'a) \<Rightarrow> 'a list \<Rightarrow> 'a list" where
  "write_rows i n f xs = take i xs @ map f [i..<n] @ drop n xs"

lemma write_rows_done: "i \<ge> n \<Longrightarrow> write_rows i i f xs = xs"
  by (simp add: write_rows_def)

lemma write_rows_step:
  assumes "i < n" and "n \<le> length xs"
  shows "write_rows (Suc i) n f (xs[i := f i]) = write_rows i n f xs"
proof -
  have "take (Suc i) (xs[i := f i]) = take i xs @ [f i]"
    using assms by (simp add: take_Suc_conv_app_nth)
  then show ?thesis
    using assms by (simp add: write_rows_def upt_conv_Cons)
qed

context llvm_semantics
begin

lemma kernel_loop_rows:
  assumes e: "int_expr e" and k: "build_kernel dec e = Inr k"
    and as: "as = [VPtr bd 0, VPtr bv 0, VPtr br 0, VPtr bo 0, VInt 64 (int n)]"
    and n: "n < 2 ^ 63" "br \<noteq> bo"
    and rows: "\<And>j. j < n \<Longrightarrow> row_at m {br, bo} bd bv j (row j) e \<and> out j = wrap_eval (row j) e"
    and mem: "m' br = Some rs" "n \<le> length rs" "m' bo = Some os" "n \<le> length os" "\<And>b. b \<notin> {br, bo} \<Longrightarrow> m' b = m b"
    and i: "i \<le> n"
  shows "kernel_loop sem k as (VInt 64 (int i)) m' =
    Some (m'(bo \<mapsto> write_rows i n (\<lambda>j. VInt 8 (of_bool (out j \<noteq> None))) os,
             br \<mapsto> write_rows i n (\<lambda>j. stored (phys e) (out j)) rs))"
  using mem i
proof (induction "n - i" arbitrary: i m' rs os)
  case (0)
  note prems = 0
  have cond: "sem (ICmp IULT) [VInt 64 (int i), VInt 64 (int n)] = Some (VInt 1 (of_bool (i < n)))"
    using icmp_law [of 64 "int i" "int n" IULT] prems n by (simp add: canon_range)
  have "k_cond k = IPure (ICmp IULT) [OPhi, OArg 4]"
    using k by (auto simp: build_kernel_def bindE_Inr_iff)
  with cond prems as show ?case
    by (subst kernel_loop.simps) (simp add: write_rows_def fun_upd_idem push_def)
next
  case (Suc d)
  note prems = Suc.prems
  have lt: "i < n" using Suc.hyps(2) by simp
  have cond: "sem (ICmp IULT) [VInt 64 (int i), VInt 64 (int n)] = Some (VInt 1 1)"
    using icmp_law [of 64 "int i" "int n" IULT] lt n by (simp add: canon_range)
  have kc: "k_cond k = IPure (ICmp IULT) [OPhi, OArg 4]"
    using k by (auto simp: build_kernel_def bindE_Inr_iff)
  let ?vb = "\<lambda>j. VInt 8 (of_bool (out j \<noteq> None))" and ?sv = "\<lambda>j. stored (phys e) (out j)"
  let ?m = "m'(bo \<mapsto> os[i := ?vb i], br \<mapsto> rs[i := ?sv i])"
  have upd: "m'(bo \<mapsto> a, br \<mapsto> b, bo \<mapsto> c, br \<mapsto> d) = m'(bo \<mapsto> c, br \<mapsto> d)" for a b c d
    using n(2) by auto
  have "row_at m' {br, bo} bd bv i (row i) e"
    using rows [OF lt] prems(5) row_at_other by blast
  then obtain fr' where fr': "exec sem \<lparr>args = as, phi = VInt 64 (int i), regs = [], memory = m'\<rparr> (k_body k) = Some fr'"
      "operand_val fr' (k_next k) = Some (VInt 64 (int (Suc i)))" "memory fr' = ?m"
    using body_exec [OF e k as, of m' i "row i" "out i" rs os] rows [OF lt] n lt prems by auto
  have "exec_instr sem \<lparr>args = as, phi = VInt 64 (int i), regs = [], memory = m'\<rparr> (k_cond k) =
      Some \<lparr>args = as, phi = VInt 64 (int i), regs = [VInt 1 1], memory = m'\<rparr>"
    by (simp add: kc as cond push_def)
  then have "kernel_loop sem k as (VInt 64 (int i)) m' = kernel_loop sem k as (VInt 64 (int (Suc i))) ?m"
    by (subst kernel_loop.simps) (simp add: fr')
  also have "\<dots> = Some (?m(bo \<mapsto> write_rows (Suc i) n ?vb (os[i := ?vb i]), br \<mapsto> write_rows (Suc i) n ?sv (rs[i := ?sv i])))"
    using Suc.hyps(2) prems n(2) by (intro Suc.hyps(1)) auto
  also have "\<dots> = Some (m'(bo \<mapsto> write_rows i n ?vb os, br \<mapsto> write_rows i n ?sv rs))"
    unfolding write_rows_step [OF lt prems(4), of ?vb] write_rows_step [OF lt prems(2), of ?sv] upd ..
  finally show ?case .
qed

end

section \<open>Code generation succeeds\<close>

lemma Promote_total: "int_type from \<Longrightarrow> int_type to \<Longrightarrow> \<exists>v' s'. Promote v from to s = Inr (v', s')"
  by (auto simp: Promote_def PhysToLLVM_int IsFP_int Create_def emit_def)

lemma CodegenRef_total: "int_type pt \<Longrightarrow> \<exists>vn s'. CodegenRef c pt s = Inr (vn, s')"
  by (simp add: CodegenRef_def PhysToLLVM_int Let_def case_prod_beta)

lemma CodegenConstant_total: "int_constant v \<Longrightarrow> \<exists>vn s'. CodegenConstant dec v s = Inr (vn, s')"
  by (cases "is_null v")
    (auto simp: CodegenConstant_def GetValue_plain constant_value_def int_constant_def plain_int_def
      PhysToLLVM_int getNullValue_def split: cell.splits)

lemma CodegenFunction1_total:
  "int_type pt \<Longrightarrow> nm \<in> {''+'', ''add'', ''-'', ''subtract''} \<Longrightarrow> \<exists>vn s'. CodegenFunction1 nm pt pt l s = Inr (vn, s')"
  by (auto simp: CodegenFunction1_def CodegenUnary_def name_in_def case_prod_beta)

lemma CodegenFunction2_total:
  "int_type pt \<Longrightarrow> arith nm \<noteq> None \<Longrightarrow> \<exists>vn s'. CodegenFunction2 nm pt pt pt l r s = Inr (vn, s')"
  by (auto simp: CodegenFunction2_def CodegenBinary_def name_in_def case_prod_beta arith_def Let_def split: if_splits)

lemma CodegenComparison_total:
  "int_type pt \<Longrightarrow> compare_int et \<noteq> None \<Longrightarrow> \<exists>vn s'. CodegenComparison et pt pt l r s = Inr (vn, s')"
  by (auto simp: CodegenComparison_def case_prod_beta Let_def split: option.splits)

lemma CodegenConj_total:
  assumes "\<forall>c \<in> set cs. \<forall>s. \<exists>vn s'. Codegen dec c s = Inr (vn, s')"
  shows "\<exists>vn s'. CodegenConj dec is_and acc cs s = Inr (vn, s')"
  using assms
proof (induction cs arbitrary: acc s)
  case (Cons c cs)
  then obtain vn s' where "Codegen dec c s = Inr (vn, s')" by force
  with Cons show ?case by (simp add: case_prod_beta Let_def)
qed simp

lemma Codegen_total: "int_expr e \<Longrightarrow> \<exists>vn s'. Codegen dec e s = Inr (vn, s')"
proof (induction e arbitrary: s rule: int_expr.induct)
  case (1 t i)
  then show ?case using CodegenRef_total by (simp add: plain_int_def)
next
  case (2 v)
  then show ?case using CodegenConstant_total by simp
next
  case (3 t f a)
  then obtain vn s' where "Codegen dec a s = Inr (vn, s')" by force
  with 3 show ?case using CodegenFunction1_total by (simp add: plain_int_def)
next
  case (4 t f a b)
  then obtain l s1 where a: "Codegen dec a s = Inr (l, s1)" by force
  from 4 obtain r s2 where "Codegen dec b s1 = Inr (r, s2)" by force
  with 4 a show ?case using CodegenFunction2_total by (simp add: plain_int_def)
next
  case (5 et l r)
  then obtain lv s1 where l: "Codegen dec l s = Inr (lv, s1)" by force
  from 5 obtain rv s2 where "Codegen dec r s1 = Inr (rv, s2)" by force
  moreover have "int_type (phys r)"
    using 5 int_expr_type by auto
  ultimately show ?case
    using 5 l CodegenComparison_total by simp
next
  case (6 et cs)
  then obtain c cs' where cs: "cs = c # cs'" by (cases cs) auto
  have all: "\<forall>c \<in> set cs. \<forall>s. \<exists>vn s'. Codegen dec c s = Inr (vn, s')"
    using 6 by auto
  then obtain vn s' where "Codegen dec c s = Inr (vn, s')"
    unfolding cs by (meson list.set_intros(1))
  with all show ?case
    using CodegenConj_total by (simp add: cs)
next
  case (7 t tc c)
  then obtain vn s' where c: "Codegen dec c s = Inr (vn, s')" by force
  obtain v' s2 where "Promote (fst vn) (phys c) (InternalType t) s' = Inr (v', s2)"
    using 7 Promote_total int_expr_type by (force simp: plain_int_def)
  with c show ?case by (simp add: case_prod_beta)
qed simp_all

lemma build_kernel_total: "int_expr e \<Longrightarrow> \<exists>k. build_kernel dec e = Inr k"
  using Codegen_total [of e dec "[]"] int_expr_type [of e]
  by (auto simp: build_kernel_def CodegenStores_def case_prod_beta Let_def PhysToLLVM_int getNullValue_def)

lemma int_type_supported: "int_type pt \<Longrightarrow> IsSupportedPhysType pt"
  by (auto simp: int_type_def int_bits_def IsSupportedPhysType_def split: if_splits)

lemma int_expr_CanCompile: "int_expr e \<Longrightarrow> CanCompileRec e"
proof (induction e rule: int_expr.induct)
  case (2 v)
  then show ?case by (simp add: int_constant_def plain_int_def int_type_supported)
next
  case (4 t f a b)
  then show ?case by (auto simp: plain_int_def int_type_supported arith_def split: if_splits)
qed (auto simp: plain_int_def int_type_supported list_all_iff)

section \<open>Floor division\<close>

lemma trunc_rem_eq: "trunc_rem a b = sgn a * (\<bar>a\<bar> mod \<bar>b\<bar>)"
proof -
  have "trunc_div a b * b = sgn a * (\<bar>a\<bar> div \<bar>b\<bar> * \<bar>b\<bar>)"
    by (simp add: trunc_div_def abs_sgn ac_simps)
  moreover have "a = sgn a * \<bar>a\<bar>"
    by (rule sgn_mult_abs [symmetric])
  ultimately have "trunc_rem a b = sgn a * (\<bar>a\<bar> - \<bar>a\<bar> div \<bar>b\<bar> * \<bar>b\<bar>)"
    by (simp add: trunc_rem_def right_diff_distrib)
  then show ?thesis
    by (simp add: minus_div_mult_eq_mod)
qed

lemma trunc_rem_zero: "trunc_rem a b = 0 \<longleftrightarrow> a mod b = 0"
  by (auto simp: trunc_rem_eq mod_eq_0_iff_dvd sgn_0_0 simp del: mod_0_imp_dvd)

lemma trunc_rem_less: "b \<noteq> 0 \<Longrightarrow> \<bar>trunc_rem a b\<bar> < \<bar>b\<bar>"
  by (simp add: trunc_rem_eq abs_mult abs_sgn_eq)

text \<open>Truncated quotient, corrected by one where the signs differ and there is a remainder, is the floor.\<close>

lemma floor_adjust:
  assumes "b \<noteq> 0"
  shows "trunc_div a b - of_bool (trunc_rem a b \<noteq> 0 \<and> (a < 0) \<noteq> (b < 0)) = a div b"
proof -
  define c :: int where "c = of_bool (trunc_rem a b \<noteq> 0 \<and> (a < 0) \<noteq> (b < 0))"
  have eq: "a = b * (trunc_div a b - c) + (trunc_rem a b + c * b)"
    by (simp add: trunc_rem_def algebra_simps)
  have less: "\<bar>trunc_rem a b\<bar> < \<bar>b\<bar>"
    using trunc_rem_less [OF assms] .
  have sign: "0 \<le> a \<Longrightarrow> 0 \<le> trunc_rem a b" "a < 0 \<Longrightarrow> trunc_rem a b \<le> 0"
    using assms by (auto simp: trunc_rem_eq sgn_if)
  have "a div b = trunc_div a b - c"
  proof (cases "0 < b")
    case True
    have "0 \<le> trunc_rem a b + c * b" "trunc_rem a b + c * b < b"
      using True less sign by (auto simp: c_def)
    with eq show ?thesis by (intro int_div_pos_eq)
  next
    case False
    have "trunc_rem a b + c * b \<le> 0" "b < trunc_rem a b + c * b"
      using False assms less sign by (auto simp: c_def)
    with eq show ?thesis by (intro int_div_neg_eq)
  qed
  then show ?thesis by (simp add: c_def)
qed

lemma canon_zero_iff:
  fixes v :: int
  assumes "0 < w" "- (2 ^ (w - 1)) \<le> v" "v < 2 ^ (w - 1)"
  shows "take_bit w v = 0 \<longleftrightarrow> v = 0"
  using sgn_val_range [OF assms] by (auto simp: sgn_val_def)

lemma sgn_val_zero [simp]: "sgn_val w 0 = 0"
  by (simp add: sgn_val_def)

context llvm_semantics
begin

lemma xor_flags: "sem XorOp [VInt 1 (of_bool a), VInt 1 (of_bool b)] = Some (VInt 1 (of_bool (a \<noteq> b)))"
  using xor_law [of 1 "of_bool a" "of_bool b"] by (cases a; cases b) (simp_all add: canon_def)

lemma and_flags: "sem AndOp [VInt 1 (of_bool a), VInt 1 (of_bool b)] = Some (VInt 1 (of_bool (a \<and> b)))"
  using and_law [of 1 "of_bool a" "of_bool b"] by (cases a; cases b) (simp_all add: canon_def)

lemma CodegenSignedFloorDiv_runs:
  assumes run: "runs sem fr0 s fr"
    and l: "operand_val fr lv = Some (VInt w x)" "canon w x" and r: "operand_val fr rv = Some (VInt w y)" "canon w y"
    and ok: "y \<noteq> 0" "\<not> (sgn_val w x = - (2 ^ (w - 1)) \<and> sgn_val w y = - 1)" and w: "1 < w"
  shows "\<exists>fr'. runs sem fr0 (snd (CodegenSignedFloorDiv w lv rv s)) fr' \<and> extends fr fr' \<and>
    operand_val fr' (fst (CodegenSignedFloorDiv w lv rv s)) = Some (VInt w (take_bit w (sgn_val w x div sgn_val w y)))"
proof -
  let ?a = "sgn_val w x" and ?b = "sgn_val w y" and ?n = "length s"
  let ?q = "take_bit w (trunc_div ?a ?b)" and ?r = "take_bit w (trunc_rem ?a ?b)"
  have pos: "0 < w" using w by simp
  have b: "?b \<noteq> 0"
    using ok(1) r(2) pos by (metis canon_def sgn_val_zero take_bit_of_0 take_bit_sgn_val)
  have bounds: "\<bar>trunc_rem ?a ?b\<bar> < 2 ^ (w - 1)"
    using trunc_rem_less [OF b, of ?a] sgn_val_bounds [OF pos, of y] by linarith
  then have rem0: "?r = 0 \<longleftrightarrow> trunc_rem ?a ?b = 0"
    using pos by (intro canon_zero_iff) linarith+
  let ?h = "trunc_rem ?a ?b \<noteq> 0" and ?d = "(?a < 0) \<noteq> (?b < 0)"
  have zero: "canon w 0" and one: "canon w 1"
    using w by (auto simp: canon_def take_bit_int_eq_self_iff)
  have sems: "sem SDiv [VInt w x, VInt w y] = Some (VInt w ?q)" "sem SRem [VInt w x, VInt w y] = Some (VInt w ?r)"
    "sem (ICmp INE) [VInt w ?r, VInt w 0] = Some (VInt 1 (of_bool ?h))"
    "sem (ICmp ISLT) [VInt w x, VInt w 0] = Some (VInt 1 (of_bool (?a < 0)))"
    "sem (ICmp ISLT) [VInt w y, VInt w 0] = Some (VInt 1 (of_bool (?b < 0)))"
    "sem Sub [VInt w ?q, VInt w 1] = Some (VInt w (take_bit w (?q - 1)))"
    using sdiv [OF l(2) r(2) ok] srem [OF l(2) r(2) ok] icmp_law [OF canon_take_bit [OF pos] zero, of INE "trunc_rem ?a ?b"]
      icmp_law [OF l(2) zero, of ISLT] icmp_law [OF r(2) zero, of ISLT] sub [OF canon_take_bit [OF pos] one]
    by (simp_all add: rem0)
  let ?res = "if ?h \<and> ?d then VInt w (take_bit w (?q - 1)) else VInt w ?q"
  have sel: "sem SelectOp [VInt 1 (of_bool (?h \<and> ?d)), VInt w (take_bit w (?q - 1)), VInt w ?q] = Some ?res"
    using select [of "?h \<and> ?d"] by simp
  let ?is = "[IPure SDiv [lv, rv], IPure SRem [lv, rv], IPure (ICmp INE) [OReg (?n + 1), OConst (VInt w 0)],
    IPure (ICmp ISLT) [lv, OConst (VInt w 0)], IPure (ICmp ISLT) [rv, OConst (VInt w 0)],
    IPure XorOp [OReg (?n + 3), OReg (?n + 4)], IPure AndOp [OReg (?n + 2), OReg (?n + 5)],
    IPure Sub [OReg ?n, OConst (VInt w 1)], IPure SelectOp [OReg (?n + 6), OReg (?n + 7), OReg ?n]]"
  let ?vs = "[VInt w ?q, VInt w ?r, VInt 1 (of_bool ?h), VInt 1 (of_bool (?a < 0)), VInt 1 (of_bool (?b < 0)),
    VInt 1 (of_bool ?d), VInt 1 (of_bool (?h \<and> ?d)), VInt w (take_bit w (?q - 1)), ?res]"
  have gen: "CodegenSignedFloorDiv w lv rv s = (OReg (?n + 8), s @ ?is)"
    by (simp add: CodegenSignedFloorDiv_def Create_def emit_def Let_def)
  have len: "length (regs fr) = ?n" using run by (simp add: runs_def)
  have "exec sem fr ?is = Some (fr\<lparr>regs := regs fr @ ?vs\<rparr>)"
    using l(1) r(1) len sems sel xor_flags [of "?a < 0" "?b < 0"] and_flags [of ?h ?d]
    by (simp add: push_def nth_append operand_later del: of_bool_conj take_bit_diff)
  then have "runs sem fr0 (s @ ?is) (fr\<lparr>regs := regs fr @ ?vs\<rparr>)"
    using run by (simp add: runs_def exec_append)
  moreover have "?res = VInt w (take_bit w (?a div ?b))"
    using floor_adjust [OF b, of ?a] by (auto simp: take_bit_diff mod_diff_left_eq take_bit_eq_mod)
  ultimately show ?thesis
    using gen len by (auto simp: extends_def nth_append)
qed

end

section \<open>The call of a kernel\<close>

text \<open>
  A call as the contract in \<open>jit_compiler.hpp\<close> describes it: the two column tables, an output array
  and an output validity array of at least \<open>count\<close> elements, and the row count.
\<close>

definition kernel_call :: "mem \<Rightarrow> llval list \<Rightarrow> nat \<Rightarrow> (nat \<Rightarrow> nat \<Rightarrow> int option) \<Rightarrow> Expression \<Rightarrow> bool" where
  "kernel_call m as n row e \<longleftrightarrow>
     (\<exists>bd bv br bo rs os.
        as = [VPtr bd 0, VPtr bv 0, VPtr br 0, VPtr bo 0, VInt 64 (int n)] \<and> n < 2 ^ 63 \<and> br \<noteq> bo \<and>
        m br = Some rs \<and> n \<le> length rs \<and> m bo = Some os \<and> n \<le> length os \<and>
        (\<forall>j < n. row_at m {br, bo} bd bv j (row j) e))"

definition array_at :: "mem \<Rightarrow> llval \<Rightarrow> llval list" where
  "array_at m p = (case p of VPtr b off \<Rightarrow> (case m b of Some xs \<Rightarrow> xs | None \<Rightarrow> []) | _ \<Rightarrow> [])"

lemma write_rows_nth: "j < n \<Longrightarrow> n \<le> length xs \<Longrightarrow> write_rows 0 n f xs ! j = f j"
  by (simp add: write_rows_def nth_append)

context llvm_semantics
begin

lemma run_kernel_rows:
  assumes "int_expr e" and "build_kernel dec e = Inr k" and "kernel_call m as n row e"
    and "\<And>j. j < n \<Longrightarrow> out j = wrap_eval (row j) e"
  shows "\<exists>m'. run_kernel sem k as m = Some m' \<and>
    (\<forall>j < n. array_at m' (as ! 2) ! j = stored (phys e) (out j) \<and>
             array_at m' (as ! 3) ! j = VInt 8 (of_bool (out j \<noteq> None))) \<and>
    (\<forall>b. VPtr b 0 \<noteq> as ! 2 \<longrightarrow> VPtr b 0 \<noteq> as ! 3 \<longrightarrow> m' b = m b) \<and>
    length (array_at m' (as ! 2)) = length (array_at m (as ! 2))"
proof -
  obtain bd bv br bo rs os where call: "as = [VPtr bd 0, VPtr bv 0, VPtr br 0, VPtr bo 0, VInt 64 (int n)]"
      "n < 2 ^ 63" "br \<noteq> bo" "m br = Some rs" "n \<le> length rs" "m bo = Some os" "n \<le> length os"
      "\<And>j. j < n \<Longrightarrow> row_at m {br, bo} bd bv j (row j) e"
    using assms(3) unfolding kernel_call_def by blast
  let ?vb = "\<lambda>j. VInt 8 (of_bool (out j \<noteq> None))" and ?sv = "\<lambda>j. stored (phys e) (out j)"
  have "k_start k = OConst (VInt 64 0)"
    using assms(2) by (auto simp: build_kernel_def bindE_Inr_iff)
  moreover have "kernel_loop sem k as (VInt 64 (int 0)) m =
      Some (m(bo \<mapsto> write_rows 0 n ?vb os, br \<mapsto> write_rows 0 n ?sv rs))"
    using call(4-7) by (intro kernel_loop_rows [OF assms(1,2) call(1,2,3)]) (use call(8) assms(4) in auto)
  ultimately have "run_kernel sem k as m = Some (m(bo \<mapsto> write_rows 0 n ?vb os, br \<mapsto> write_rows 0 n ?sv rs))"
    by (simp add: run_kernel_def)
  moreover have "\<forall>j < n. write_rows 0 n ?sv rs ! j = ?sv j \<and> write_rows 0 n ?vb os ! j = ?vb j"
    using write_rows_nth call(5,7) by blast
  moreover have "length (write_rows 0 n ?sv rs) = length rs"
    using call(5) by (simp add: write_rows_def)
  ultimately show ?thesis
    using call(1,3,4) by (auto simp: array_at_def)
qed

end

section \<open>Rows that stay in range\<close>

text \<open>
  On rows whose exact evaluation does not overflow, two's complement arithmetic is exact; on the
  others its results are still values of the width of their type.
\<close>

definition row_typed :: "(nat \<Rightarrow> int option) \<Rightarrow> Expression \<Rightarrow> bool" where
  "row_typed row e \<longleftrightarrow> (\<forall>(c, pt) \<in> set (expr_refs e). \<forall>v. row c = Some v \<longrightarrow> in_type pt v)"

lemma checked_Some: "checked pt v = Inr (Some x) \<Longrightarrow> in_type pt x"
  by (simp add: checked_def split: if_splits)

lemma strict_Some:
  "strict1 f x = Inr (Some v) \<Longrightarrow> (\<And>a. f a = Inr (Some v) \<Longrightarrow> P) \<Longrightarrow> P"
  "strict2 g x y = Inr (Some v) \<Longrightarrow> (\<And>a b. g a b = Inr (Some v) \<Longrightarrow> P) \<Longrightarrow> P"
  by (auto simp: strict1_def strict2_def split: option.splits)

lemma int_evals_bool:
  "int_evals strict_conj row a acc cs = Inr (Some v) \<Longrightarrow> (acc = Some v \<Longrightarrow> cs = [] \<Longrightarrow> P) \<Longrightarrow> (v = 0 \<or> v = 1 \<Longrightarrow> P) \<Longrightarrow> P"
proof (induction cs arbitrary: acc)
  case (Cons c cs)
  then obtain x where x: "int_evals strict_conj row a (strict_conj a acc x) cs = Inr (Some v)"
    by (auto simp: bindE_Inr_iff)
  show ?case
  proof (rule Cons.IH [OF x])
    assume "strict_conj a acc x = Some v"
    then have "v = 0 \<or> v = 1" by (auto simp: strict_conj_def of_bool_def split: option.splits if_splits)
    then show P by (rule Cons.prems(3))
  qed (rule Cons.prems(3))
qed simp

lemma int_eval_in_type:
  "int_expr e \<Longrightarrow> row_typed row e \<Longrightarrow> int_eval strict_conj row e = Inr (Some v) \<Longrightarrow> in_type (phys e) v"
proof (induction e rule: int_expr.induct)
  case (1 t i)
  then show ?case by (simp add: row_typed_def)
next
  case (2 c)
  then show ?case by (auto simp: int_constant_def split: if_splits cell.splits)
next
  case (3 t f a)
  then show ?case by (auto simp: bindE_Inr_iff elim!: strict_Some dest: checked_Some)
next
  case (4 t f a b)
  then show ?case by (auto simp: bindE_Inr_iff elim!: strict_Some dest: checked_Some split: option.splits)
next
  case (5 et l r)
  then show ?case by (auto simp: bindE_Inr_iff elim!: strict_Some split: option.splits)
next
  case (6 et cs)
  show ?case
  proof (cases cs)
    case Nil
    with 6 show ?thesis by simp
  next
    case (Cons c cs')
    with 6(4) obtain x where x: "int_eval strict_conj row c = Inr x"
      "int_evals strict_conj row (et = ET_CONJUNCTION_AND) x cs' = Inr (Some v)"
      by (auto simp: bindE_Inr_iff)
    have c: "int_expr c" "phys c = PT_BOOL" "row_typed row c" using 6(2,3) Cons by (auto simp: row_typed_def)
    show ?thesis
    proof (rule int_evals_bool [OF x(2)])
      assume "x = Some v"
      then have "in_type (phys c) v" using 6(1) [of c] c x(1) Cons by simp
      then show ?thesis using c(2) by simp
    qed simp
  qed
next
  case (7 t try_cast c)
  then show ?case by (auto simp: bindE_Inr_iff elim!: strict_Some dest: checked_Some)
qed auto

lemma wrap_evals_wrap:
  assumes "\<forall>c \<in> set cs. \<forall>v. wrap_eval row c = Some v \<longrightarrow> wrap PT_BOOL v = v"
    and "\<forall>v. acc = Some v \<longrightarrow> wrap PT_BOOL v = v" and "wrap_evals row a acc cs = Some v"
  shows "wrap PT_BOOL v = v"
  using assms
proof (induction cs arbitrary: acc)
  case (Cons c cs)
  have "\<forall>v. wrap_conj a acc (wrap_eval row c) = Some v \<longrightarrow> wrap PT_BOOL v = v"
    using Cons.prems(1,2) wrap_conj_BOOL by (auto simp: wrap_conj_def split: option.splits)
  with Cons.prems show ?case by (intro Cons.IH) simp_all
qed simp

lemma wrap_eval_wrap: "int_expr e \<Longrightarrow> row_typed row e \<Longrightarrow> wrap_eval row e = Some v \<Longrightarrow> wrap (phys e) v = v"
proof (induction e arbitrary: v rule: int_expr.induct)
  case (1 t i)
  then show ?case by (auto simp: row_typed_def plain_int_def intro: in_type_wrap)
next
  case (2 c)
  then show ?case by (auto simp: int_constant_def plain_int_def intro: in_type_wrap split: if_splits cell.splits)
next
  case (6 et cs)
  then obtain c cs' where cs: "cs = c # cs'" by (cases cs) auto
  have "wrap PT_BOOL u = u" if "d \<in> set cs" "wrap_eval row d = Some u" for d u
  proof -
    have "row_typed row d" using 6(3) that(1) by (auto simp: row_typed_def)
    then show ?thesis using 6(1,2) that by force
  qed
  then show ?case
    using wrap_evals_wrap [of cs' row "wrap_eval row c" "et = ET_CONJUNCTION_AND" v] 6(4) cs by auto
qed (auto split: option.splits)

lemma wrap_evals_exact:
  assumes "\<forall>c \<in> set cs. \<forall>x. int_eval strict_conj row c = Inr x \<longrightarrow> wrap_eval row c = x \<and> x \<in> {None, Some 0, Some 1}"
    and "acc \<in> {None, Some 0, Some 1}" and "int_evals strict_conj row a acc cs = Inr ov"
  shows "wrap_evals row a acc cs = ov"
  using assms
proof (induction cs arbitrary: acc)
  case (Cons c cs)
  obtain x where x: "int_eval strict_conj row c = Inr x" "int_evals strict_conj row a (strict_conj a acc x) cs = Inr ov"
    using Cons.prems(3) by (auto simp: bindE_Inr_iff)
  have c: "wrap_eval row c = x" "x \<in> {None, Some 0, Some 1}"
    using Cons.prems(1) x(1) by auto
  have "wrap_conj a acc x = strict_conj a acc x"
    using c(2) Cons.prems(2) by (auto simp: wrap_conj_def strict_conj_def)
  moreover have "strict_conj a acc x \<in> {None, Some 0, Some 1}"
    by (auto simp: strict_conj_def of_bool_def split: option.splits)
  ultimately show ?case
    using Cons.IH [OF _ _ x(2)] Cons.prems(1) c(1) by simp
qed simp

lemma wrap_eval_exact:
  "int_expr e \<Longrightarrow> row_typed row e \<Longrightarrow> int_eval strict_conj row e = Inr ov \<Longrightarrow> wrap_eval row e = ov"
proof (induction e arbitrary: ov rule: int_expr.induct)
  case (3 t f a)
  then obtain x where x: "int_eval strict_conj row a = Inr x"
      "strict1 (\<lambda>x. checked (InternalType t) (if fn_name f \<in> {''-'', ''subtract''} then - x else x)) x = Inr ov"
    by (auto simp: bindE_Inr_iff simp del: insert_iff)
  have "wrap_eval row a = x" using 3 x(1) by (simp add: row_typed_def)
  moreover have "int_type (InternalType t)" using 3(2) by (simp add: plain_int_def)
  ultimately show ?case
    using x(2) by (auto simp: strict1_def checked_def in_type_wrap simp del: insert_iff split: option.splits if_splits)
next
  case (4 t f a b)
  then obtain g x y where g: "arith (fn_name f) = Some g" and x: "int_eval strict_conj row a = Inr x"
      and y: "int_eval strict_conj row b = Inr y" and r: "strict2 (\<lambda>a b. checked (InternalType t) (g a b)) x y = Inr ov"
    by (auto simp: bindE_Inr_iff)
  have "wrap_eval row a = x" "wrap_eval row b = y" "int_type (InternalType t)"
    using 4 x y by (simp_all add: row_typed_def plain_int_def)
  then show ?case
    using g r by (auto simp: strict2_def checked_def in_type_wrap split: option.splits if_splits)
next
  case (5 et l r)
  then show ?case
    by (auto simp: bindE_Inr_iff row_typed_def strict2_def split: option.splits)
next
  case (6 et cs)
  then obtain c cs' where cs: "cs = c # cs'" by (cases cs) auto
  have all: "\<forall>d \<in> set cs. \<forall>x. int_eval strict_conj row d = Inr x \<longrightarrow> wrap_eval row d = x \<and> x \<in> {None, Some 0, Some 1}"
  proof (intro ballI allI impI)
    fix d x
    assume d: "d \<in> set cs" "int_eval strict_conj row d = Inr x"
    then have t: "row_typed row d" "int_expr d" "phys d = PT_BOOL" using 6(2,3) by (auto simp: row_typed_def)
    with 6(1) d int_eval_in_type [OF t(2,1)] show "wrap_eval row d = x \<and> x \<in> {None, Some 0, Some 1}"
      by (cases x) auto
  qed
  obtain x where "int_eval strict_conj row c = Inr x" "int_evals strict_conj row (et = ET_CONJUNCTION_AND) x cs' = Inr ov"
    using 6(4) cs by (auto simp: bindE_Inr_iff)
  then show ?case
    using wrap_evals_exact [of cs' row x] all cs by simp
next
  case (7 t try_cast c)
  then obtain x where x: "int_eval strict_conj row c = Inr x" "strict1 (checked (InternalType t)) x = Inr ov"
    by (auto simp: bindE_Inr_iff)
  have "wrap_eval row c = x" "int_type (InternalType t)"
    using 7 x(1) by (simp_all add: row_typed_def plain_int_def)
  then show ?case
    using x(2) by (auto simp: strict1_def checked_def in_type_wrap split: option.splits if_splits)
qed auto

lemma kernel_call_typed: "kernel_call m as n row e \<Longrightarrow> j < n \<Longrightarrow> row_typed (row j) e"
  by (fastforce simp: kernel_call_def row_at_def row_typed_def cell_at_def)

text \<open>The rows a kernel stores when none of them overflows.\<close>

lemma run_kernel_exact_rows:
  assumes "llvm_semantics sem" and "int_expr e" and "build_kernel dec e = Inr k" and "kernel_call m as n row e"
    and "\<And>j. j < n \<Longrightarrow> int_eval strict_conj (row j) e = Inr (out j)"
  shows "\<exists>m'. run_kernel sem k as m = Some m' \<and>
    (\<forall>j < n. array_at m' (as ! 2) ! j = stored (phys e) (out j) \<and>
             array_at m' (as ! 3) ! j = VInt 8 (of_bool (out j \<noteq> None)))"
  using llvm_semantics.run_kernel_rows [OF assms(1-4), of out] wrap_eval_exact [OF assms(2) kernel_call_typed [OF assms(4)] assms(5)]
  by auto

section \<open>Properties\<close>

text \<open>C3: For an integer expression (columns, constants, addition, subtraction, multiplication, negation, the
  six comparisons, AND, OR, integer casts) the compiler builds a kernel, and \<open>Compile\<close> returns that
  kernel or a null pointer. Called on a batch as the contract describes, the kernel returns without
  undefined behaviour, changes no memory but the two output arrays, and stores for every row the
  value of the expression in two's complement arithmetic at the width of each node, with validity
  byte 1, or a zero with validity byte 0 where a column it reads or a constant in it is NULL. There is
  no overflow check: a row that overflows is stored wrapped and valid. On the rows whose exact
  evaluation stays in range at every node the stored value is the exact one; NULL operands of AND
  and OR make the row NULL there too, unlike in SQL's three-valued logic.\<close>

theorem kernel_computes_rows:
  assumes "llvm_semantics sem" and "int_expr e" and "kernel_call m as n row e"
  shows "\<exists>k m'. build_kernel dec e = Inr k \<and> fst (Compile env dec e st) \<in> {None, Some k} \<and>
    run_kernel sem k as m = Some m' \<and>
    (\<forall>j < n. array_at m' (as ! 2) ! j = stored (phys e) (wrap_eval (row j) e) \<and>
             array_at m' (as ! 3) ! j = VInt 8 (of_bool (\<not> null_leaf (row j) e))) \<and>
    (\<forall>j < n. \<forall>v. int_eval strict_conj (row j) e = Inr v \<longrightarrow>
             array_at m' (as ! 2) ! j = stored (phys e) v \<and> array_at m' (as ! 3) ! j = VInt 8 (of_bool (v \<noteq> None))) \<and>
    (\<forall>b. VPtr b 0 \<noteq> as ! 2 \<longrightarrow> VPtr b 0 \<noteq> as ! 3 \<longrightarrow> m' b = m b)"
proof -
  obtain k where k: "build_kernel dec e = Inr k"
    using build_kernel_total [OF assms(2)] by blast
  then have "fst (Compile env dec e st) \<in> {None, Some k}"
    by (simp add: Compile_def Impl_Compile_def Let_def)
  moreover obtain m' where m': "run_kernel sem k as m = Some m'"
      "\<forall>j < n. array_at m' (as ! 2) ! j = stored (phys e) (wrap_eval (row j) e) \<and>
        array_at m' (as ! 3) ! j = VInt 8 (of_bool (wrap_eval (row j) e \<noteq> None))"
      "\<forall>b. VPtr b 0 \<noteq> as ! 2 \<longrightarrow> VPtr b 0 \<noteq> as ! 3 \<longrightarrow> m' b = m b"
    using llvm_semantics.run_kernel_rows [OF assms(1,2) k assms(3), of "\<lambda>j. wrap_eval (row j) e"] by blast
  moreover have "\<forall>j < n. \<forall>v. int_eval strict_conj (row j) e = Inr v \<longrightarrow>
      array_at m' (as ! 2) ! j = stored (phys e) v \<and> array_at m' (as ! 3) ! j = VInt 8 (of_bool (v \<noteq> None))"
    using m'(2) wrap_eval_exact [OF assms(2) kernel_call_typed [OF assms(3)]] by blast
  ultimately show ?thesis
    using k wrap_eval_None [OF assms(2)] by (intro exI [of _ k] exI [of _ m']) simp
qed

text \<open>A batch of three rows of one INTEGER column: 41, NULL and the largest INTEGER.\<close>

definition ex_mem :: mem where
  "ex_mem = [0 \<mapsto> [VPtr 4 0], 1 \<mapsto> [VPtr 5 0], 2 \<mapsto> [VInt 32 9, VInt 32 9, VInt 32 9], 3 \<mapsto> [VInt 8 7, VInt 8 7, VInt 8 7],
     4 \<mapsto> [VInt 32 41, VInt 32 5, VInt 32 2147483647], 5 \<mapsto> [VInt 8 1, VInt 8 0, VInt 8 1]]"

definition ex_args :: "llval list" where
  "ex_args = [VPtr 0 0, VPtr 1 0, VPtr 2 0, VPtr 3 0, VInt 64 3]"

definition ex_row :: "nat \<Rightarrow> nat \<Rightarrow> int option" where
  "ex_row j c = (if j = 0 then Some 41 else if j = 1 then None else Some 2147483647)"

lemma ex_plus_int [simp]: "int_expr (ex_plus 1)"
  by (simp add: ex_defs plain_int_def plain_int_id_def int_type_def int_bits_def arith_def int_constant_def in_type_def
      type_min_def type_max_def signed_type_def)

lemma less_3_cases: "j < 3 \<longleftrightarrow> j = 0 \<or> j = Suc 0 \<or> j = 2"
  by auto

lemma ex_cell:
  "j < 3 \<Longrightarrow> cell_at ex_mem {2, 3} 0 1 j 0 PT_INT32 (ex_row j 0)"
  unfolding cell_at_def
  by (rule exI [of _ "[VPtr 4 0]"], rule exI [of _ "[VPtr 5 0]"], rule exI [of _ 4],
      rule exI [of _ "[VInt 32 41, VInt 32 5, VInt 32 2147483647]"], rule exI [of _ 5], rule exI [of _ "[VInt 8 1, VInt 8 0, VInt 8 1]"],
      rule exI [of _ "if j = 0 then 41 else if j = 1 then 5 else 2147483647"], rule exI [of _ "of_bool (j \<noteq> 1)"])
    (auto simp: ex_mem_def ex_row_def less_3_cases int_bits_def canon_def in_type_def type_min_def type_max_def signed_type_def)

lemma ex_call: "kernel_call ex_mem ex_args 3 ex_row (ex_plus 1)"
  unfolding kernel_call_def ex_args_def
  by (rule exI [of _ 0], rule exI [of _ 1], rule exI [of _ 2], rule exI [of _ 3],
      rule exI [of _ "[VInt 32 9, VInt 32 9, VInt 32 9]"], rule exI [of _ "[VInt 8 7, VInt 8 7, VInt 8 7]"])
    (use ex_cell in \<open>auto simp: ex_mem_def row_at_def ex_defs\<close>)

lemma ex_wrap_eval:
  "wrap_eval (ex_row 0) (ex_plus 1) = Some 42" "wrap_eval (ex_row 2) (ex_plus 1) = Some (- 2147483648)"
  "null_leaf (ex_row 1) (ex_plus 1)"
  by (simp_all add: ex_defs ex_row_def arith_def wrap_def signed_type_def int_bits_def signed_take_bit_int_eq_self_iff
      signed_take_bit_eq_if_negative take_bit_int_def)

text \<open>The kernel of \<open>x + 1\<close> on these rows: 42, NULL, and -2147483648 (the bits of 2147483648) as a valid row.\<close>

theorem kernel_computes_rows_witness:
  "\<exists>k m'. build_kernel (\<lambda>_ _ _ _. Inl ConversionException) (ex_plus 1) = Inr k \<and>
     run_kernel (langref (\<lambda>_ _. None)) k ex_args ex_mem = Some m' \<and>
     array_at m' (VPtr 2 0) ! 0 = VInt 32 42 \<and> array_at m' (VPtr 3 0) ! 0 = VInt 8 1 \<and>
     array_at m' (VPtr 3 0) ! 1 = VInt 8 0 \<and>
     array_at m' (VPtr 2 0) ! 2 = VInt 32 2147483648 \<and> array_at m' (VPtr 3 0) ! 2 = VInt 8 1"
proof -
  obtain k m' where "build_kernel (\<lambda>_ _ _ _. Inl ConversionException) (ex_plus 1) = Inr k"
      "run_kernel (langref (\<lambda>_ _. None)) k ex_args ex_mem = Some m'"
      "\<forall>j < 3. array_at m' (ex_args ! 2) ! j = stored (phys (ex_plus 1)) (wrap_eval (ex_row j) (ex_plus 1)) \<and>
        array_at m' (ex_args ! 3) ! j = VInt 8 (of_bool (\<not> null_leaf (ex_row j) (ex_plus 1)))"
    using kernel_computes_rows [OF langref_sem.llvm_semantics_axioms ex_plus_int ex_call] by blast
  moreover have "\<not> null_leaf (ex_row j) (ex_plus 1)" if "j \<noteq> 1" for j
    using that by (simp add: ex_defs ex_row_def)
  moreover have "take_bit 32 (- 2147483648 :: int) = 2147483648" "take_bit 32 (42 :: int) = 42"
    by (simp_all add: take_bit_int_def)
  ultimately show ?thesis
    using ex_wrap_eval
    by (intro exI [of _ k] exI [of _ m']) (simp add: ex_args_def stored_def less_3_cases all_conj_distrib ex_defs int_bits_def)
qed

text \<open>The code emitted for \<open>//\<close> on signed integers computes the floor of the quotient, when the divisor is
  not zero and the division does not overflow; the quotient of LLVM's \<open>sdiv\<close> alone truncates.\<close>

theorem signed_floor_div:
  assumes "llvm_semantics sem" and "runs sem fr0 s fr"
    and "operand_val fr lv = Some (VInt w x)" and "canon w x"
    and "operand_val fr rv = Some (VInt w y)" and "canon w y"
    and "1 < w" and "y \<noteq> 0" and "\<not> (sgn_val w x = - (2 ^ (w - 1)) \<and> sgn_val w y = - 1)"
  shows "\<exists>fr'. runs sem fr0 (snd (CodegenSignedFloorDiv w lv rv s)) fr' \<and>
    operand_val fr' (fst (CodegenSignedFloorDiv w lv rv s)) =
      Some (VInt w (take_bit w \<lfloor>real_of_int (sgn_val w x) / real_of_int (sgn_val w y)\<rfloor>))"
  using llvm_semantics.CodegenSignedFloorDiv_runs [OF assms(1,2,3,4,5,6,8,9,7)]
  by (auto simp: floor_divide_of_int_eq)

theorem signed_floor_div_witness:
  "\<exists>fr'. runs (langref (\<lambda>_ _. None)) \<lparr>args = [], phi = VNull, regs = [], memory = Map.empty\<rparr>
       (snd (CodegenSignedFloorDiv 32 (OConst (VInt 32 (take_bit 32 (- 7)))) (OConst (VInt 32 2)) [])) fr' \<and>
     operand_val fr' (fst (CodegenSignedFloorDiv 32 (OConst (VInt 32 (take_bit 32 (- 7)))) (OConst (VInt 32 2)) [])) =
       Some (VInt 32 (take_bit 32 (- 4)))"
proof -
  let ?fr = "\<lparr>args = [], phi = VNull, regs = [], memory = Map.empty\<rparr>"
  have v: "sgn_val 32 (take_bit 32 (- 7)) = - 7" "sgn_val 32 2 = 2"
    using sgn_val_range [of 32 "- 7"] sgn_val_range [of 32 2] by simp_all
  moreover have "\<lfloor>real_of_int (- 7) / real_of_int 2\<rfloor> = - 4"
    by (simp add: floor_divide_of_int_eq)
  moreover have "runs (langref (\<lambda>_ _. None)) ?fr [] ?fr"
    by (simp add: runs_def)
  ultimately show ?thesis
    using signed_floor_div [OF langref_sem.llvm_semantics_axioms, of "\<lambda>_ _. None" ?fr "[]" ?fr
        "OConst (VInt 32 (take_bit 32 (- 7)))" 32 "take_bit 32 (- 7)" "OConst (VInt 32 2)" 2]
    by (simp add: canon_def)
qed

text \<open>C18: The kernel of an OR whose first operand is TRUE and whose second is NULL marks the row NULL, where the
  three-valued logic of SQL gives TRUE: a filter that runs the kernel drops a row that qualifies.\<close>

theorem kernel_or_loses_true:
  assumes "llvm_semantics sem" and "int_expr (BoundConjunction ET_CONJUNCTION_OR [a, b])"
    and "kernel_call m as n row (BoundConjunction ET_CONJUNCTION_OR [a, b])"
    and "\<And>j. j < n \<Longrightarrow> int_eval strict_conj (row j) a = Inr (Some 1) \<and> int_eval strict_conj (row j) b = Inr None \<and>
        int_eval sql_conj (row j) a = Inr (Some 1) \<and> int_eval sql_conj (row j) b = Inr None"
    and "build_kernel dec (BoundConjunction ET_CONJUNCTION_OR [a, b]) = Inr k"
  shows "\<exists>m'. run_kernel sem k as m = Some m' \<and>
    (\<forall>j < n. array_at m' (as ! 3) ! j = VInt 8 0 \<and>
       int_eval sql_conj (row j) (BoundConjunction ET_CONJUNCTION_OR [a, b]) = Inr (Some 1))"
proof -
  have "int_eval strict_conj (row j) (BoundConjunction ET_CONJUNCTION_OR [a, b]) = Inr None"
    "int_eval sql_conj (row j) (BoundConjunction ET_CONJUNCTION_OR [a, b]) = Inr (Some 1)" if "j < n" for j
    using assms(4) [OF that] by (simp_all add: strict_conj_def sql_conj_def)
  then show ?thesis
    using run_kernel_exact_rows [OF assms(1,2,5,3), of "\<lambda>_. None"] by auto
qed

text \<open>One row of two BOOLEAN columns: TRUE and NULL.\<close>

definition ex_or :: Expression where
  "ex_or = BoundConjunction ET_CONJUNCTION_OR [BoundReference BOOLEAN 0, BoundReference BOOLEAN 1]"

definition ex_or_mem :: mem where
  "ex_or_mem = [0 \<mapsto> [VPtr 4 0, VPtr 6 0], 1 \<mapsto> [VPtr 5 0, VPtr 7 0], 2 \<mapsto> [VInt 8 9], 3 \<mapsto> [VInt 8 7],
     4 \<mapsto> [VInt 8 1], 5 \<mapsto> [VInt 8 1], 6 \<mapsto> [VInt 8 0], 7 \<mapsto> [VInt 8 0]]"

definition ex_or_args :: "llval list" where
  "ex_or_args = [VPtr 0 0, VPtr 1 0, VPtr 2 0, VPtr 3 0, VInt 64 1]"

definition ex_or_row :: "nat \<Rightarrow> nat \<Rightarrow> int option" where
  "ex_or_row j c = (if c = 0 then Some 1 else None)"

lemma ex_or_call: "kernel_call ex_or_mem ex_or_args 1 ex_or_row ex_or"
proof -
  have "cell_at ex_or_mem {2, 3} 0 1 0 0 PT_BOOL (Some 1)"
    unfolding cell_at_def
    by (rule exI [of _ "[VPtr 4 0, VPtr 6 0]"], rule exI [of _ "[VPtr 5 0, VPtr 7 0]"], rule exI [of _ 4],
        rule exI [of _ "[VInt 8 1]"], rule exI [of _ 5], rule exI [of _ "[VInt 8 1]"], rule exI [of _ 1], rule exI [of _ 1])
      (simp add: ex_or_mem_def canon_def)
  moreover have "cell_at ex_or_mem {2, 3} 0 1 0 1 PT_BOOL None"
    unfolding cell_at_def
    by (rule exI [of _ "[VPtr 4 0, VPtr 6 0]"], rule exI [of _ "[VPtr 5 0, VPtr 7 0]"], rule exI [of _ 6],
        rule exI [of _ "[VInt 8 0]"], rule exI [of _ 7], rule exI [of _ "[VInt 8 0]"], rule exI [of _ 0], rule exI [of _ 0])
      (simp add: ex_or_mem_def canon_def)
  ultimately show ?thesis
    unfolding kernel_call_def ex_or_args_def
    by (intro exI [of _ 0] exI [of _ 1] exI [of _ 2] exI [of _ 3] exI [of _ "[VInt 8 9]"] exI [of _ "[VInt 8 7]"])
      (auto simp: ex_or_mem_def row_at_def ex_or_def ex_or_row_def)
qed

theorem kernel_or_loses_true_witness:
  "\<exists>k m'. build_kernel (\<lambda>_ _ _ _. Inl ConversionException) ex_or = Inr k \<and>
     run_kernel (langref (\<lambda>_ _. None)) k ex_or_args ex_or_mem = Some m' \<and>
     array_at m' (VPtr 3 0) ! 0 = VInt 8 0 \<and> int_eval sql_conj (ex_or_row 0) ex_or = Inr (Some 1)"
proof -
  have int: "int_expr ex_or"
    by (simp add: ex_or_def plain_int_def plain_int_id_def)
  then obtain k where k: "build_kernel (\<lambda>_ _ _ _. Inl ConversionException) ex_or = Inr k"
    using build_kernel_total by blast
  obtain m' where "run_kernel (langref (\<lambda>_ _. None)) k ex_or_args ex_or_mem = Some m'"
      "\<forall>j < 1. array_at m' (ex_or_args ! 3) ! j = VInt 8 0 \<and> int_eval sql_conj (ex_or_row j) ex_or = Inr (Some 1)"
    using kernel_or_loses_true [OF langref_sem.llvm_semantics_axioms int [unfolded ex_or_def] ex_or_call [unfolded ex_or_def]
        _ k [unfolded ex_or_def]] unfolding ex_or_def
    by (auto simp: ex_or_row_def)
  with k show ?thesis
    by (intro exI [of _ k] exI [of _ m']) (simp add: ex_or_args_def)
qed

end
