(* ===== verification/Jit_Dispatcher.thy ===== *)
theory Jit_Dispatcher
  imports Jit_Profiler Jit_Cache Jit_Kernel Vectors
begin

text \<open>
  The dispatcher (\<open>jit_dispatcher.hpp\<close>, \<open>jit_dispatcher.cpp\<close>): it decides per batch between the
  compiled kernel and the interpreter, compiles hot expressions and wraps a kernel so that it can be
  called on vectors. It composes the profiler, the cache and the compiler, which are singletons: the
  record \<open>world\<close> holds the four of them. A dispatch is modelled as one step, so sequences of dispatches
  are those of one thread. Under several threads only the cache and the profiler are protected by
  mutexes: the dispatcher's counters are plain integers that the header declares not thread-safe
  (\<open>jit_dispatcher.hpp\<close>), and increments that race may be lost; what is said of the counters here is
  about dispatches that do not overlap.

  A cached function is the wrapper lambda with the two values it captures. The native call gets
  the arrays of the flattened columns as memory.
\<close>

section \<open>Columns\<close>

fun CollectJITReferencedColumnIndices :: "Expression \<Rightarrow> nat list" where
  "CollectJITReferencedColumnIndices (BoundReference t i) = [unat i]"
| "CollectJITReferencedColumnIndices (BoundFunction t f cs) = concat (map CollectJITReferencedColumnIndices cs)"
| "CollectJITReferencedColumnIndices (BoundComparison et l r) =
     CollectJITReferencedColumnIndices l @ CollectJITReferencedColumnIndices r"
| "CollectJITReferencedColumnIndices (BoundConjunction et cs) = concat (map CollectJITReferencedColumnIndices cs)"
| "CollectJITReferencedColumnIndices (BoundCast t try_cast c) = CollectJITReferencedColumnIndices c"
| "CollectJITReferencedColumnIndices _ = []"

definition PopulateSparseColumnPointers ::
    "Expression \<Rightarrow> Vector list \<Rightarrow> nat \<Rightarrow> Vector option list \<Rightarrow> Vector option list" where
  "PopulateSparseColumnPointers expr chunk max_cols col_ptrs =
     fold (\<lambda>ref col_ptrs. if ref < length chunk \<and> ref < max_cols then col_ptrs[ref := Some (chunk ! ref)] else col_ptrs)
       (CollectJITReferencedColumnIndices expr) col_ptrs"

abbreviation MAX_COLS :: nat where "MAX_COLS \<equiv> 64"

definition InputsSafeForJITMaterialize :: "Vector option list \<Rightarrow> bool" where
  "InputsSafeForJITMaterialize inputs =
     list_all (\<lambda>c. case inputs ! c of None \<Rightarrow> True | Some v \<Rightarrow> InternalType (GetType v) \<noteq> PT_INVALID) [0..<MAX_COLS]"

section \<open>The wrapper\<close>

text \<open>A row of a buffer as the native code sees it, and back.\<close>

definition cell_image :: "PhysicalType \<Rightarrow> cell \<Rightarrow> llval" where
  "cell_image pt c =
     (case (PhysToLLVM pt, c) of
        (Some (TInt w), CInt i) \<Rightarrow> VInt w (take_bit w i)
      | (Some TFloat, CFloat f) \<Rightarrow> VFloat f
      | (Some TDouble, CDouble d) \<Rightarrow> VDouble d
      | _ \<Rightarrow> VNull)"

definition cell_read :: "PhysicalType \<Rightarrow> llval \<Rightarrow> cell" where
  "cell_read pt v =
     (case v of
        VInt w i \<Rightarrow> CInt (if signed_type pt then sgn_val w i else i)
      | VFloat f \<Rightarrow> CFloat f
      | VDouble d \<Rightarrow> CDouble d
      | _ \<Rightarrow> CInt 0)"

text \<open>A local reference to the column, flattened: the caller's vector is not changed.\<close>

definition flat_column :: "junk \<Rightarrow> nat \<Rightarrow> Vector option \<Rightarrow> Vector option result" where
  "flat_column junk cnt inp =
     (case inp of
        None \<Rightarrow> Inr None
      | Some v \<Rightarrow>
          bindE (Reference v (Vector_Initialize junk (GetType v) STANDARD_VECTOR_SIZE)) (\<lambda>r.
          bindE (Flatten junk cnt r) (\<lambda>f. Inr (Some f))))"

text \<open>
  The memory of the call: blocks 0 and 1 are the pointer tables \<open>col_data\<close> and \<open>col_valid\<close>, 2 and 3 the
  result's data and validity bytes, \<open>4 + 2c\<close> and \<open>5 + 2c\<close> the data and validity bytes of column \<open>c\<close>.
\<close>

definition column_block :: "nat \<Rightarrow> Vector option list \<Rightarrow> nat \<Rightarrow> llval list option" where
  "column_block cnt cols b =
     (let c = (b - 4) div 2 in
      if c < length cols then
        case cols ! c of
          Some (Flat t d m) \<Rightarrow>
            Some (if even b then map (cell_image (InternalType t)) d
                  else map (\<lambda>r. VInt 8 (if RowIsValid m r then 1 else 0)) [0..<cnt])
        | _ \<Rightarrow> None
      else None)"

definition call_memory :: "nat \<Rightarrow> Vector option list \<Rightarrow> PhysicalType \<Rightarrow> cell list \<Rightarrow> mem" where
  "call_memory cnt cols rpt out b =
     (if b = 0 then Some (map (\<lambda>c. if cols ! c = None then VNull else VPtr (4 + 2 * c) 0) [0..<length cols])
      else if b = 1 then Some (map (\<lambda>c. if cols ! c = None then VNull else VPtr (5 + 2 * c) 0) [0..<length cols])
      else if b = 2 then Some (map (cell_image rpt) out)
      else if b = 3 then Some (replicate cnt (VInt 8 1))
      else column_block cnt cols b)"

definition call_args :: "nat \<Rightarrow> llval list" where
  "call_args cnt = [VPtr 0 0, VPtr 1 0, VPtr 2 0, VPtr 3 0, VInt 64 (int cnt)]"

record JITCompiledFunction =
  cf_fn :: kernel
  cf_return_type :: LogicalType

definition call_wrapper ::
    "sem \<Rightarrow> junk \<Rightarrow> JITCompiledFunction \<Rightarrow> Vector option list \<Rightarrow> nat \<Rightarrow> Vector \<Rightarrow> Vector result" where
  "call_wrapper sem junk f inputs cnt res =
     bindE (mapE (\<lambda>c. flat_column junk cnt (inputs ! c)) [0..<MAX_COLS]) (\<lambda>cols.
     bindE (Flatten junk cnt (Vector_Initialize junk (cf_return_type f) STANDARD_VECTOR_SIZE)) (\<lambda>out_vec.
       let rpt = InternalType (cf_return_type f) in
       case run_kernel sem (cf_fn f) (call_args cnt) (call_memory cnt cols rpt (vec_cells out_vec)) of
         None \<Rightarrow> Inl Undefined
       | Some m \<Rightarrow>
           bindE (FlatVector_Validity out_vec) (\<lambda>out_validity.
             let out_validity =
                   fold (\<lambda>r mask. if array_at m (VPtr 3 0) ! r = VInt 8 0 then SetInvalid r mask else mask) [0..<cnt] out_validity
             in Reference (Flat (cf_return_type f) (map (cell_read rpt) (array_at m (VPtr 2 0))) out_validity) res)))"

section \<open>State and configuration\<close>

record JITDispatcher =
  compilation_threshold :: u64
  enable_jit :: bool
  jit_executions :: u64
  interpreter_executions :: u64
  compilation_attempts :: u64
  compilation_successes :: u64
  compilation_failures :: u64

record world =
  dispatcher :: JITDispatcher
  jit_cache :: "JITCompiledFunction JITCache"
  profiler :: JITProfiler
  compiler :: JITCompilerImpl

abbreviation upd_dispatcher :: "(JITDispatcher \<Rightarrow> JITDispatcher) \<Rightarrow> world \<Rightarrow> world" where
  "upd_dispatcher f w \<equiv> w\<lparr>dispatcher := f (dispatcher w)\<rparr>"

definition JITDispatcher_init :: "JITProfiler \<Rightarrow> JITDispatcher \<times> JITProfiler" where
  "JITDispatcher_init p =
     (\<lparr>compilation_threshold = 1000, enable_jit = False, jit_executions = 0, interpreter_executions = 0,
       compilation_attempts = 0, compilation_successes = 0, compilation_failures = 0\<rparr>,
      SetHotnessThreshold 1000 p)"

definition SetCompilationThreshold :: "u64 \<Rightarrow> world \<Rightarrow> world" where
  "SetCompilationThreshold threshold w =
     w\<lparr>dispatcher := (dispatcher w)\<lparr>compilation_threshold := threshold\<rparr>,
       profiler := SetHotnessThreshold threshold (profiler w)\<rparr>"

definition SetEnableJIT :: "bool \<Rightarrow> world \<Rightarrow> world" where
  "SetEnableJIT enable w = upd_dispatcher (\<lambda>d. d\<lparr>enable_jit := enable\<rparr>) w"

record DispatchStats =
  ds_jit_executions :: u64
  ds_interpreter_executions :: u64
  ds_compilation_attempts :: u64
  ds_compilation_successes :: u64
  ds_compilation_failures :: u64

definition Dispatcher_GetStats :: "JITDispatcher \<Rightarrow> DispatchStats" where
  "Dispatcher_GetStats d =
     \<lparr>ds_jit_executions = jit_executions d, ds_interpreter_executions = interpreter_executions d,
      ds_compilation_attempts = compilation_attempts d, ds_compilation_successes = compilation_successes d,
      ds_compilation_failures = compilation_failures d\<rparr>"

definition ResetStats :: "world \<Rightarrow> world" where
  "ResetStats w = upd_dispatcher (\<lambda>d. d\<lparr>jit_executions := 0, interpreter_executions := 0, compilation_attempts := 0,
     compilation_successes := 0, compilation_failures := 0\<rparr>) w"

section \<open>Dispatch\<close>

definition ShouldCompile :: "Expression \<Rightarrow> world \<Rightarrow> bool" where
  "ShouldCompile expr w \<longleftrightarrow> GetCount expr (profiler w) \<ge> compilation_threshold (dispatcher w)"

definition TryCompile :: "llvm_env \<Rightarrow> decimal_cast \<Rightarrow> Expression \<Rightarrow> world \<Rightarrow> (bool \<times> world) result" where
  "TryCompile env dec expr w =
     bindE (Cache_Lookup expr (jit_cache w)) (\<lambda>(cached, cache').
       let w = w\<lparr>jit_cache := cache'\<rparr> in
       if cached \<noteq> None then Inr (True, w)
       else
         let w = upd_dispatcher (\<lambda>d. d\<lparr>compilation_attempts := compilation_attempts d + 1\<rparr>) w in
         if \<not> CanCompile expr then
           Inr (False, upd_dispatcher (\<lambda>d. d\<lparr>compilation_failures := compilation_failures d + 1\<rparr>) w)
         else
           let (fn, compiler') = Compile env dec expr (compiler w); w = w\<lparr>compiler := compiler'\<rparr> in
           case fn of
             None \<Rightarrow> Inr (False, upd_dispatcher (\<lambda>d. d\<lparr>compilation_failures := compilation_failures d + 1\<rparr>) w)
           | Some k \<Rightarrow>
               let wrapper = \<lparr>cf_fn = k, cf_return_type = return_type expr\<rparr>;
                   w = w\<lparr>jit_cache := Cache_Insert expr (Some wrapper) 0 (jit_cache w)\<rparr> in
               Inr (True, upd_dispatcher (\<lambda>d. d\<lparr>compilation_successes := compilation_successes d + 1\<rparr>) w))"

text \<open>The result is whether the kernel ran, and the result vector.\<close>

definition run_cached ::
    "sem \<Rightarrow> junk \<Rightarrow> JITCompiledFunction \<Rightarrow> Vector option list \<Rightarrow> Vector \<Rightarrow> nat \<Rightarrow> world \<Rightarrow> (bool \<times> Vector \<times> world) result" where
  "run_cached sem junk f inputs res cnt w =
     bindE (call_wrapper sem junk f inputs cnt res) (\<lambda>res.
       Inr (True, res, upd_dispatcher (\<lambda>d. d\<lparr>jit_executions := jit_executions d + 1\<rparr>) w))"

definition use_interpreter :: "Vector \<Rightarrow> world \<Rightarrow> (bool \<times> Vector \<times> world) result" where
  "use_interpreter res w =
     Inr (False, res, upd_dispatcher (\<lambda>d. d\<lparr>interpreter_executions := interpreter_executions d + 1\<rparr>) w)"

definition TryExecuteJIT ::
    "llvm_env \<Rightarrow> decimal_cast \<Rightarrow> sem \<Rightarrow> junk \<Rightarrow> Expression \<Rightarrow> Vector option list \<Rightarrow> Vector \<Rightarrow> nat \<Rightarrow> world
      \<Rightarrow> (bool \<times> Vector \<times> world) result" where
  "TryExecuteJIT env dec sem junk expr inputs res cnt w =
     (if \<not> enable_jit (dispatcher w) then use_interpreter res w
      else if \<not> InputsSafeForJITMaterialize inputs then use_interpreter res w
      else
        bindE (Cache_Lookup expr (jit_cache w)) (\<lambda>(cached, cache').
          let w = w\<lparr>jit_cache := cache'\<rparr> in
          case cached of
            Some f \<Rightarrow> run_cached sem junk f inputs res cnt w
          | None \<Rightarrow>
              if ShouldCompile expr w then
                bindE (TryCompile env dec expr w) (\<lambda>(compiled, w).
                  if compiled then
                    bindE (Cache_Lookup expr (jit_cache w)) (\<lambda>(cached, cache').
                      let w = w\<lparr>jit_cache := cache'\<rparr> in
                      case cached of
                        Some f \<Rightarrow> run_cached sem junk f inputs res cnt w
                      | None \<Rightarrow> use_interpreter res w)
                  else use_interpreter res w)
              else use_interpreter res w))"

section \<open>Sparse columns\<close>

lemma Collect_refs: "CollectJITReferencedColumnIndices e = map fst (expr_refs e)"
  by (induction e rule: expr_refs.induct) (simp_all add: map_concat o_def cong: map_cong)

lemma fold_sparse:
  "c < length ptrs \<Longrightarrow>
   fold (\<lambda>ref ptrs. if ref < length chunk \<and> ref < mx then ptrs[ref := Some (chunk ! ref)] else ptrs) refs ptrs ! c =
     (if c \<in> set refs \<and> c < length chunk \<and> c < mx then Some (chunk ! c) else ptrs ! c)"
  by (induction refs arbitrary: ptrs) (auto simp: nth_list_update)

lemma Populate_nth:
  "c < length ptrs \<Longrightarrow> PopulateSparseColumnPointers e chunk mx ptrs ! c =
     (if c \<in> fst ` set (expr_refs e) \<and> c < length chunk \<and> c < mx then Some (chunk ! c) else ptrs ! c)"
  by (simp add: PopulateSparseColumnPointers_def fold_sparse Collect_refs)

section \<open>Statistics\<close>

text \<open>What every dispatch keeps: the configuration, the profiler, and that each attempt is a success or a failure.\<close>

definition balanced :: "JITDispatcher \<Rightarrow> JITDispatcher \<Rightarrow> bool" where
  "balanced d d' \<longleftrightarrow>
     compilation_threshold d' = compilation_threshold d \<and> enable_jit d' = enable_jit d \<and>
     compilation_attempts d' - (compilation_successes d' + compilation_failures d') =
       compilation_attempts d - (compilation_successes d + compilation_failures d)"

lemma TryCompile_stats:
  assumes "TryCompile env dec e w = Inr (b, w')"
  shows "balanced (dispatcher w) (dispatcher w') \<and> profiler w' = profiler w \<and>
    jit_executions (dispatcher w') = jit_executions (dispatcher w) \<and>
    interpreter_executions (dispatcher w') = interpreter_executions (dispatcher w)"
  using assms
  by (auto simp: TryCompile_def bindE_Inr_iff Let_def balanced_def split: if_splits option.splits prod.splits)

lemma run_cached_stats:
  "run_cached sem junk f inputs res cnt w = Inr (b, res', w') \<Longrightarrow>
   b \<and> w' = upd_dispatcher (\<lambda>d. d\<lparr>jit_executions := jit_executions d + 1\<rparr>) w"
  by (auto simp: run_cached_def bindE_Inr_iff)

lemma use_interpreter_stats:
  "use_interpreter res w = Inr (b, res', w') \<Longrightarrow>
   \<not> b \<and> res' = res \<and> w' = upd_dispatcher (\<lambda>d. d\<lparr>interpreter_executions := interpreter_executions d + 1\<rparr>) w"
  by (auto simp: use_interpreter_def)

definition dispatch_effect :: "world \<Rightarrow> Vector \<Rightarrow> bool \<times> Vector \<times> world \<Rightarrow> bool" where
  "dispatch_effect w res r \<longleftrightarrow>
     (case r of (b, res', w') \<Rightarrow>
        balanced (dispatcher w) (dispatcher w') \<and> profiler w' = profiler w \<and>
        jit_executions (dispatcher w') = jit_executions (dispatcher w) + of_bool b \<and>
        interpreter_executions (dispatcher w') = interpreter_executions (dispatcher w) + of_bool (\<not> b) \<and>
        (b \<or> res' = res))"

lemma effect_run:
  assumes "balanced (dispatcher w) (dispatcher w0)" "profiler w0 = profiler w"
    "jit_executions (dispatcher w0) = jit_executions (dispatcher w)"
    "interpreter_executions (dispatcher w0) = interpreter_executions (dispatcher w)"
  shows "run_cached sem junk f inputs res cnt w0 = Inr r \<Longrightarrow> dispatch_effect w res r"
    and "use_interpreter res w0 = Inr r \<Longrightarrow> dispatch_effect w res r"
  using assms
  by (auto simp: dispatch_effect_def balanced_def run_cached_def use_interpreter_def bindE_Inr_iff)

lemma balanced_refl [simp]: "balanced d d"
  by (simp add: balanced_def)

lemma TryExecuteJIT_effect:
  assumes "TryExecuteJIT env dec sem junk e inputs res cnt w = Inr r"
  shows "dispatch_effect w res r"
proof -
  consider (interp) w0 where "use_interpreter res w0 = Inr r" "balanced (dispatcher w) (dispatcher w0)"
      "profiler w0 = profiler w" "jit_executions (dispatcher w0) = jit_executions (dispatcher w)"
      "interpreter_executions (dispatcher w0) = interpreter_executions (dispatcher w)"
    | (run) f w0 where "run_cached sem junk f inputs res cnt w0 = Inr r" "balanced (dispatcher w) (dispatcher w0)"
      "profiler w0 = profiler w" "jit_executions (dispatcher w0) = jit_executions (dispatcher w)"
      "interpreter_executions (dispatcher w0) = interpreter_executions (dispatcher w)"
    using assms
    by (fastforce simp: TryExecuteJIT_def bindE_Inr_iff Let_def dest: TryCompile_stats split: if_splits option.splits)
  then show ?thesis
    using effect_run by cases auto
qed

section \<open>The wrapper computes the rows\<close>

text \<open>An integer column, and the values of row \<open>j\<close> of the columns of a call.\<close>

definition int_column :: "nat \<Rightarrow> PhysicalType \<Rightarrow> Vector \<Rightarrow> bool" where
  "int_column n pt v \<longleftrightarrow>
     vec_ok n v \<and> InternalType (GetType v) = pt \<and> int_type pt \<and>
     (\<forall>c \<in> set (vec_cells v). \<exists>i. c = CInt i) \<and>
     (\<forall>j < n. \<forall>c. vec_row v j = Some c \<longrightarrow> (\<exists>i. c = CInt i \<and> in_type pt i))"

definition cell_int :: "cell option \<Rightarrow> int option" where
  "cell_int oc = (case oc of Some (CInt i) \<Rightarrow> Some i | _ \<Rightarrow> None)"

definition input_row :: "Vector option list \<Rightarrow> nat \<Rightarrow> nat \<Rightarrow> int option" where
  "input_row inputs j c = (case inputs ! c of None \<Rightarrow> None | Some v \<Rightarrow> cell_int (vec_row v j))"

lemma Reference_self:
  "Reference v (Vector_Initialize junk (GetType v) n) = Inr v"
  by (cases v) (simp_all add: Reference_def ConstReference_def Vector_Initialize_eq)

text \<open>The columns after flattening.\<close>

definition flattened :: "nat \<Rightarrow> Vector option \<Rightarrow> Vector option \<Rightarrow> bool" where
  "flattened n inp col \<longleftrightarrow>
     (case inp of
        None \<Rightarrow> col = None
      | Some v \<Rightarrow> (\<exists>d m. col = Some (Flat (GetType v) d m) \<and> vec_ok n (Flat (GetType v) d m) \<and>
          (\<forall>j < n. vec_row (Flat (GetType v) d m) j = vec_row v j) \<and>
          (\<forall>pt. int_column n pt v \<longrightarrow> (\<forall>j < n. \<exists>i. d ! j = CInt i))))"

lemma junk_cell_int: "int_type pt \<Longrightarrow> \<exists>i. junk_cell pt b = CInt i"
  by (auto simp: junk_cell_def int_type_def int_bits_def)

lemma flat_column_flattened:
  assumes "\<And>v. inp = Some v \<Longrightarrow> vec_ok n v"
  shows "\<exists>col. flat_column junk n inp = Inr col \<and> flattened n inp col"
proof (cases inp)
  case None
  then show ?thesis by (simp add: flat_column_def flattened_def)
next
  case (Some v)
  let ?P = "\<lambda>c. \<forall>pt. int_column n pt v \<longrightarrow> (\<exists>i. c = CInt i)"
  obtain d m where "Flatten junk n v = Inr (Flat (GetType v) d m)" "vec_ok n (Flat (GetType v) d m)"
      "\<forall>i < n. ?P (d ! i)" "\<forall>i < n. vec_row (Flat (GetType v) d m) i = vec_row v i"
    using Flatten_rows [OF assms [OF Some], of ?P junk] junk_cell_int by (auto simp: int_column_def)
  with Some show ?thesis
    by (simp add: flat_column_def flattened_def Reference_self del: vec_row.simps vec_ok.simps)
qed

lemma flat_columns:
  assumes "\<And>c v. c < N \<Longrightarrow> inputs ! c = Some v \<Longrightarrow> vec_ok n v"
  shows "\<exists>cols. mapE (\<lambda>c. flat_column junk n (inputs ! c)) [0..<N] = Inr cols \<and> length cols = N \<and>
    (\<forall>c < N. flattened n (inputs ! c) (cols ! c))"
proof -
  have "\<forall>c. \<exists>col. c < N \<longrightarrow> flat_column junk n (inputs ! c) = Inr col \<and> flattened n (inputs ! c) col"
    using flat_column_flattened assms by blast
  then obtain g where g: "\<And>c. c < N \<Longrightarrow> flat_column junk n (inputs ! c) = Inr (g c) \<and> flattened n (inputs ! c) (g c)"
    by metis
  then have "mapE (\<lambda>c. flat_column junk n (inputs ! c)) [0..<N] = Inr (map g [0..<N])"
    by (intro mapE_total) simp
  with g show ?thesis by auto
qed

lemma call_memory_tables [simp]:
  "call_memory n cols rpt out 0 = Some (map (\<lambda>c. if cols ! c = None then VNull else VPtr (4 + 2 * c) 0) [0..<length cols])"
  "call_memory n cols rpt out (Suc 0) = Some (map (\<lambda>c. if cols ! c = None then VNull else VPtr (5 + 2 * c) 0) [0..<length cols])"
  "call_memory n cols rpt out 2 = Some (map (cell_image rpt) out)"
  "call_memory n cols rpt out 3 = Some (replicate n (VInt 8 1))"
  by (simp_all add: call_memory_def)

lemma call_memory_column:
  assumes "c < length cols" "cols ! c = Some (Flat t d m)"
  shows "call_memory n cols rpt out (4 + 2 * c) = Some (map (cell_image (InternalType t)) d)"
    and "call_memory n cols rpt out (5 + 2 * c) = Some (map (\<lambda>r. VInt 8 (if RowIsValid m r then 1 else 0)) [0..<n])"
  using assms by (simp_all add: call_memory_def column_block_def)

lemma cell_at_call:
  assumes col: "flattened n (Some v) (cols ! c)" "int_column n pt v" and c: "c < length cols" "c < 2 ^ 63"
    and j: "j < n"
  shows "cell_at (call_memory n cols rpt out) {2, 3} 0 1 j c pt (cell_int (vec_row v j))"
proof -
  obtain d m where dm: "cols ! c = Some (Flat (GetType v) d m)" "n \<le> length d"
      "vec_row (Flat (GetType v) d m) j = vec_row v j" "\<exists>i. d ! j = CInt i"
    using col j by (auto simp: flattened_def)
  then obtain i where i: "d ! j = CInt i" by blast
  have pt: "InternalType (GetType v) = pt" "int_type pt"
    and typed: "\<And>c. vec_row v j = Some c \<Longrightarrow> \<exists>i. c = CInt i \<and> in_type pt i"
    using col(2) j by (auto simp: int_column_def)
  let ?y = "if RowIsValid m j then 1 else 0 :: int"
  have null: "cell_int (vec_row v j) = (if RowIsValid m j then Some i else None)"
    using i by (simp add: cell_int_def dm(3) [symmetric])
  have "in_type pt i" if "RowIsValid m j"
    using typed [of "CInt i"] dm(3) i that by auto
  moreover have "cell_image pt (d ! j) = VInt (int_bits pt) (take_bit (int_bits pt) i)"
    using PhysToLLVM_int [OF pt(2)] i by (simp add: cell_image_def)
  moreover note call_memory_column [OF c(1) dm(1), of n rpt out]
  ultimately show ?thesis
    unfolding cell_at_def null
    using dm(1,2) pt c j
    by (intro exI [of _ "map (\<lambda>c. if cols ! c = None then VNull else VPtr (4 + 2 * c) 0) [0..<length cols]"]
        exI [of _ "map (\<lambda>c. if cols ! c = None then VNull else VPtr (5 + 2 * c) 0) [0..<length cols]"]
        exI [of _ "4 + 2 * c"] exI [of _ "map (cell_image pt) d"] exI [of _ "5 + 2 * c"]
        exI [of _ "map (\<lambda>r. VInt 8 (if RowIsValid m r then 1 else 0)) [0..<n]"] exI [of _ "take_bit (int_bits pt) i"] exI [of _ ?y])
      (simp add: int_type_def canon_def)
qed

text \<open>The cell of a result row: a BOOL is the byte that the kernel stored.\<close>

definition result_cell :: "PhysicalType \<Rightarrow> int \<Rightarrow> cell" where
  "result_cell pt v = CInt (if pt = PT_BOOL then take_bit 8 v else v)"

lemma cell_read_stored:
  assumes "int_type pt" and "wrap pt v = v"
  shows "cell_read pt (stored pt (Some v)) = result_cell pt v"
  using assms wrap_signed [OF assms(1) _ assms(2)] wrap_unsigned [OF _ assms(2)]
  by (auto simp: cell_read_def stored_def result_cell_def sgn_val_def signed_type_def)

lemma result_cell_in_type: "in_type pt v \<Longrightarrow> result_cell pt v = CInt v"
  by (cases "pt = PT_BOOL") (auto simp: result_cell_def)

text \<open>
  A call that the wrapper can serve: at most one standard vector of rows, readable columns, an
  integer column in every slot the expression reads.
\<close>

definition call_ready :: "Vector option list \<Rightarrow> nat \<Rightarrow> Expression \<Rightarrow> bool" where
  "call_ready inputs n e \<longleftrightarrow>
     n \<le> STANDARD_VECTOR_SIZE \<and> int_expr e \<and>
     (\<forall>c < MAX_COLS. \<forall>v. inputs ! c = Some v \<longrightarrow> vec_ok n v) \<and>
     (\<forall>(c, pt) \<in> set (expr_refs e). c < MAX_COLS \<and> (\<exists>v. inputs ! c = Some v \<and> int_column n pt v))"

text \<open>Such a call on rows whose exact evaluation stays in range, with the results \<open>out\<close>.\<close>

definition call_ok :: "Vector option list \<Rightarrow> nat \<Rightarrow> Expression \<Rightarrow> (nat \<Rightarrow> int option) \<Rightarrow> bool" where
  "call_ok inputs n e out \<longleftrightarrow>
     call_ready inputs n e \<and> (\<forall>j < n. int_eval strict_conj (input_row inputs j) e = Inr (out j))"

text \<open>The rows of a result: two's complement arithmetic on the rows of the columns.\<close>

definition kernel_row :: "Vector option list \<Rightarrow> Expression \<Rightarrow> nat \<Rightarrow> cell option" where
  "kernel_row inputs e j = map_option (result_cell (phys e)) (wrap_eval (input_row inputs j) e)"

lemma input_row_typed:
  assumes "call_ready inputs n e" "j < n"
  shows "row_typed (input_row inputs j) e"
proof -
  have "in_type pt x" if ref: "(c, pt) \<in> set (expr_refs e)" and x: "input_row inputs j c = Some x" for c pt x
  proof -
    obtain v where "inputs ! c = Some v" "int_column n pt v"
      using assms(1) ref by (auto simp: call_ready_def)
    with x assms(2) show ?thesis
      by (auto simp: input_row_def cell_int_def int_column_def split: option.splits cell.splits)
  qed
  then show ?thesis by (auto simp: row_typed_def)
qed

text \<open>Where the exact evaluation stays in range, a result row is the exact value.\<close>

lemma kernel_row_exact:
  assumes "call_ready inputs n e" "j < n" "int_eval strict_conj (input_row inputs j) e = Inr v"
  shows "kernel_row inputs e j = map_option CInt v"
proof -
  have int: "int_expr e" using assms(1) by (simp add: call_ready_def)
  note typed = input_row_typed [OF assms(1,2)]
  have "wrap_eval (input_row inputs j) e = v" by (rule wrap_eval_exact [OF int typed assms(3)])
  moreover have "in_type (phys e) x" if "v = Some x" for x
    using int_eval_in_type [OF int typed] assms(3) that by simp
  ultimately show ?thesis by (cases v) (simp_all add: kernel_row_def result_cell_in_type)
qed

lemma kernel_call_columns:
  assumes ok: "call_ready inputs n e" and cols: "length cols = MAX_COLS"
    and flat: "\<And>c. c < MAX_COLS \<Longrightarrow> flattened n (inputs ! c) (cols ! c)" and len: "n \<le> length buf"
  shows "kernel_call (call_memory n cols rpt buf) (call_args n) n (input_row inputs) e"
proof -
  let ?m = "call_memory n cols rpt buf"
  have "cell_at ?m {2, 3} 0 1 j c pt (input_row inputs j c)" if "(c, pt) \<in> set (expr_refs e)" "j < n" for c pt j
  proof -
    obtain v where v: "c < MAX_COLS" "inputs ! c = Some v" "int_column n pt v"
      using ok \<open>(c, pt) \<in> set (expr_refs e)\<close> by (auto simp: call_ready_def)
    then show ?thesis
      using cell_at_call [of n v cols c pt j rpt buf] flat [of c] cols \<open>j < n\<close> by (simp add: input_row_def)
  qed
  then have "row_at ?m {2, 3} 0 1 j (input_row inputs j) e" if "j < n" for j
    using that by (auto simp: row_at_def)
  moreover have "n < 2 ^ 63" using ok by (simp add: call_ready_def)
  ultimately show ?thesis
    unfolding kernel_call_def call_args_def using len
    by (intro exI [of _ 0] exI [of _ 1] exI [of _ 2] exI [of _ 3] exI [of _ "map (cell_image rpt) buf"]
        exI [of _ "replicate n (VInt 8 1)"]) simp
qed

lemma call_wrapper_rows:
  assumes sem: "llvm_semantics sem" and k: "build_kernel dec e = Inr k" and ok: "call_ready inputs n e"
    and t: "lt_id (return_type e) = lt_id (GetType res)"
  shows "\<exists>d m. call_wrapper sem junk \<lparr>cf_fn = k, cf_return_type = return_type e\<rparr> inputs n res = Inr (Flat (GetType res) d m) \<and>
    (\<forall>j < n. vec_row (Flat (GetType res) d m) j = kernel_row inputs e j)"
proof -
  have int: "int_expr e" and n: "n \<le> STANDARD_VECTOR_SIZE"
    using ok by (auto simp: call_ready_def)
  define out where "out j = wrap_eval (input_row inputs j) e" for j
  obtain cols where cols: "mapE (\<lambda>c. flat_column junk n (inputs ! c)) [0..<MAX_COLS] = Inr cols" "length cols = MAX_COLS"
      "\<And>c. c < MAX_COLS \<Longrightarrow> flattened n (inputs ! c) (cols ! c)"
    using flat_columns [of MAX_COLS inputs n junk] ok unfolding call_ready_def by blast
  define buf where "buf = map (\<lambda>i. junk_cell (phys e) (junk i)) [0..<STANDARD_VECTOR_SIZE]"
  define mask where "mask = \<lparr>validity_mask = None, capacity = STANDARD_VECTOR_SIZE\<rparr>"
  have vec: "Flatten junk n (Vector_Initialize junk (return_type e) STANDARD_VECTOR_SIZE) = Inr (Flat (return_type e) buf mask)"
    by (simp only: Flatten_def Vector_Initialize_eq buf_def mask_def max.idem Vector.case)
  have len: "length buf = STANDARD_VECTOR_SIZE" by (simp add: buf_def del: upt_rec_numeral)
  let ?m = "call_memory n cols (phys e) buf"
  have "kernel_call ?m (call_args n) n (input_row inputs) e"
    using kernel_call_columns [OF ok cols(2,3)] len n by simp
  from llvm_semantics.run_kernel_rows [OF sem int k this out_def] obtain m' where run: "run_kernel sem k (call_args n) ?m = Some m'"
      "\<forall>j < n. array_at m' (VPtr 2 0) ! j = stored (phys e) (out j) \<and> array_at m' (VPtr 3 0) ! j = VInt 8 (of_bool (out j \<noteq> None))"
      "length (array_at m' (VPtr 2 0)) = length (array_at ?m (VPtr 2 0))"
    by (auto simp: call_args_def)
  then have len2: "length (array_at m' (VPtr 2 0)) = STANDARD_VECTOR_SIZE"
    using len by (simp add: array_at_def)
  define mask' where "mask' = fold (\<lambda>r mask. if array_at m' (VPtr 3 0) ! r = VInt 8 0 then SetInvalid r mask else mask) [0..<n] mask"
  have valid: "RowIsValid mask' j \<longleftrightarrow> out j \<noteq> None" if "j < n" for j
    using fold_SetInvalid [of mask n "\<lambda>r. array_at m' (VPtr 3 0) ! r = VInt 8 0"] run(2) that n
    by (simp add: mask_def mask'_def)
  let ?d = "map (cell_read (phys e)) (array_at m' (VPtr 2 0))"
  have "call_wrapper sem junk \<lparr>cf_fn = k, cf_return_type = return_type e\<rparr> inputs n res = Inr (Flat (GetType res) ?d mask')"
    using t by (simp add: call_wrapper_def cols(1) vec run(1) Let_def FlatVector_Validity_def Reference_def ConstReference_def
        mask'_def del: upt_rec_numeral)
  moreover have "vec_row (Flat (GetType res) ?d mask') j = map_option (result_cell (phys e)) (out j)" if "j < n" for j
  proof (cases "out j")
    case (Some x)
    then have "wrap (phys e) x = x"
      using wrap_eval_wrap [OF int input_row_typed [OF ok that]] by (simp add: out_def)
    with Some valid [OF that] run(2) that len2 n int_expr_type [OF int] show ?thesis
      by (simp add: cell_read_stored)
  qed (use valid [OF that] in simp)
  ultimately show ?thesis
    unfolding kernel_row_def out_def by blast
qed

section \<open>Dispatching through the cache\<close>

lemma call_ready_safe: "call_ready inputs n e \<Longrightarrow> InputsSafeForJITMaterialize inputs"
proof -
  assume "call_ready inputs n e"
  then have ok: "vec_ok n v" if "c < MAX_COLS" "inputs ! c = Some v" for c v
    using that by (auto simp: call_ready_def)
  have "InternalType (GetType v) \<noteq> PT_INVALID" if "vec_ok n v" for v
    using that by (cases rule: vec_ok_cases) (use that in \<open>auto simp: scalar_type_def constant_size_type_def\<close>)
  with ok show ?thesis
    by (auto simp: InputsSafeForJITMaterialize_def list_all_iff split: option.splits simp del: upt_rec_numeral)
qed

lemma dispatch_hit:
  assumes "cache_inv (jit_cache w)" and "map_of (cache_view (jit_cache w)) (Fingerprint e) = Some (Some f)"
    and "enable_jit (dispatcher w)" and "InputsSafeForJITMaterialize inputs"
  shows "\<exists>c. TryExecuteJIT env dec sem junk e inputs res n w = run_cached sem junk f inputs res n (w\<lparr>jit_cache := c\<rparr>) \<and>
    cache_inv c \<and> cache_view c = lru_touch (Fingerprint e) (cache_view (jit_cache w))"
proof -
  obtain c where "Cache_Lookup e (jit_cache w) = Inr (Some f, c)" "cache_inv c"
      "cache_view c = lru_touch (Fingerprint e) (cache_view (jit_cache w))"
    using Lookup_spec [OF assms(1), of e] assms(2) by auto
  with assms(3,4) show ?thesis
    by (auto simp: TryExecuteJIT_def Let_def)
qed

lemma dispatch_cached:
  assumes "llvm_semantics sem" and "cache_inv (jit_cache w)"
    and "map_of (cache_view (jit_cache w)) (Fingerprint e) = Some (Some \<lparr>cf_fn = k, cf_return_type = return_type e'\<rparr>)"
    and "build_kernel dec e' = Inr k" and "call_ready inputs n e'" and "enable_jit (dispatcher w)"
    and "lt_id (return_type e') = lt_id (GetType res)"
  shows "\<exists>d m w'. TryExecuteJIT env dec sem junk e inputs res n w = Inr (True, Flat (GetType res) d m, w') \<and>
    (\<forall>j < n. vec_row (Flat (GetType res) d m) j = kernel_row inputs e' j)"
proof -
  obtain c where "TryExecuteJIT env dec sem junk e inputs res n w =
      run_cached sem junk \<lparr>cf_fn = k, cf_return_type = return_type e'\<rparr> inputs res n (w\<lparr>jit_cache := c\<rparr>)"
    using dispatch_hit [OF assms(2,3,6) call_ready_safe [OF assms(5)]] by blast
  moreover obtain d m where "call_wrapper sem junk \<lparr>cf_fn = k, cf_return_type = return_type e'\<rparr> inputs n res =
      Inr (Flat (GetType res) d m)" "\<forall>j < n. vec_row (Flat (GetType res) d m) j = kernel_row inputs e' j"
    using call_wrapper_rows [OF assms(1,4,5,7)] by blast
  ultimately show ?thesis
    by (auto simp: run_cached_def simp del: vec_row.simps)
qed

text \<open>An LLVM that accepts every module.\<close>

definition llvm_works :: "llvm_env \<Rightarrow> bool" where
  "llvm_works env \<longleftrightarrow>
     jit_created env \<and> (\<forall>k. verifyFunction env k) \<and> (\<forall>n k. addIRModule env n k) \<and> (\<forall>n. lookup_symbol env n)"

lemma Compile_works:
  assumes "llvm_works env" "int_expr e" "build_kernel dec e = Inr k"
  shows "\<exists>st'. Compile env dec e st = (Some k, st')"
  using assms int_expr_CanCompile [OF assms(2)]
  by (simp add: Compile_def Impl_Compile_def Let_def llvm_works_def CanCompile_def)

lemma TryCompile_works:
  assumes "llvm_works env" and "cache_inv (jit_cache w)" and "map_of (cache_view (jit_cache w)) (Fingerprint e) = None"
    and "int_expr e" and "build_kernel dec e = Inr k"
  shows "\<exists>w'. TryCompile env dec e w = Inr (True, w') \<and> cache_inv (jit_cache w') \<and>
    map_of (cache_view (jit_cache w')) (Fingerprint e) = Some (Some \<lparr>cf_fn = k, cf_return_type = return_type e\<rparr>) \<and>
    compilation_attempts (dispatcher w') = compilation_attempts (dispatcher w) + 1 \<and>
    compilation_successes (dispatcher w') = compilation_successes (dispatcher w) + 1"
proof -
  obtain c where c: "Cache_Lookup e (jit_cache w) = Inr (None, c)" "cache_inv c"
      "cache_view c = lru_touch (Fingerprint e) (cache_view (jit_cache w))"
    using Lookup_spec [OF assms(2), of e] assms(3) by auto
  obtain st' where st: "Compile env dec e (compiler w) = (Some k, st')"
    using Compile_works [OF assms(1,4,5)] by blast
  have "cache_view c = cache_view (jit_cache w)"
    using c(3) assms(3) by (simp add: lru_touch_def)
  then have "Fingerprint e \<notin> fst ` set (cache_view c)"
    using assms(3) by (simp add: map_of_eq_None_iff)
  with c st Insert_spec [OF c(2)] int_expr_CanCompile [OF assms(4)] show ?thesis
    by (simp add: TryCompile_def Let_def CanCompile_def lru_add_def)
qed

section \<open>A batch and a state to run on\<close>

definition ex_inputs :: "Vector option list" where
  "ex_inputs = Some (Flat ex_int [CInt 41, CInt 5] (Mask_Reset 64)) # replicate 64 None"

definition ex_out :: "int \<Rightarrow> nat \<Rightarrow> int option" where
  "ex_out c j = Some ((if j = 0 then 41 else 5) + c)"

definition ex_result :: Vector where
  "ex_result = Vector_Initialize (\<lambda>_. 0) ex_int 2"

definition ex_world :: "JITCompiledFunction JITCache \<Rightarrow> world" where
  "ex_world c =
     \<lparr>dispatcher = \<lparr>compilation_threshold = 0, enable_jit = True, jit_executions = 0, interpreter_executions = 0,
        compilation_attempts = 0, compilation_successes = 0, compilation_failures = 0\<rparr>,
      jit_cache = c, profiler = JITProfiler_init, compiler = \<lparr>counter = 0, last_ir = None\<rparr>\<rparr>"

abbreviation ex_dec :: decimal_cast where "ex_dec \<equiv> \<lambda>_ _ _ _. Inl ConversionException"
abbreviation ex_sem :: sem where "ex_sem \<equiv> langref (\<lambda>_ _. None)"

lemma ex_sem_laws: "llvm_semantics ex_sem"
  by (rule langref_sem.llvm_semantics_axioms)

definition ex_llvm :: llvm_env where
  "ex_llvm = \<lparr>jit_created = True, verifyFunction = (\<lambda>_. True), addIRModule = (\<lambda>_ _. True), lookup_symbol = (\<lambda>_. True)\<rparr>"

lemma ex_llvm_works: "llvm_works ex_llvm"
  by (simp add: llvm_works_def ex_llvm_def)

lemma ex_plus_ok: "0 \<le> c \<Longrightarrow> c < 100 \<Longrightarrow> int_expr (ex_plus c)"
  by (simp add: ex_defs plain_int_def plain_int_id_def int_type_def int_bits_def arith_def int_constant_def in_type_def
      type_min_def type_max_def signed_type_def)

lemma ex_column: "int_column 2 PT_INT32 (Flat ex_int [CInt 41, CInt 5] (Mask_Reset 64))"
  by (auto simp: int_column_def scalar_type_def constant_size_type_def Mask_Reset_def ex_int_def int_type_def int_bits_def
      less_2_cases_iff in_type_def type_min_def type_max_def signed_type_def)

lemma ex_call_ok: "0 \<le> c \<Longrightarrow> c < 100 \<Longrightarrow> call_ok ex_inputs 2 (ex_plus c) (ex_out c)"
proof -
  assume c: "0 \<le> c" "c < 100"
  have col: "ex_inputs ! 0 = Some (Flat ex_int [CInt 41, CInt 5] (Mask_Reset 64))"
    by (simp add: ex_inputs_def)
  have other: "i = 0" if "i < MAX_COLS" "ex_inputs ! i = Some v" for i v
    using that by (cases i) (simp_all add: ex_inputs_def)
  have "vec_ok 2 v" if "i < MAX_COLS" "ex_inputs ! i = Some v" for i v
    using other [OF that] that(2) col ex_column by (auto simp: int_column_def)
  moreover have "input_row ex_inputs j 0 = Some (if j = 0 then 41 else 5)" if "j < 2" for j
    using that col by (auto simp: input_row_def cell_int_def Mask_Reset_def less_2_cases_iff)
  then have "int_eval strict_conj (input_row ex_inputs j) (ex_plus c) = Inr (ex_out c j)" if "j < 2" for j
    using that c by (simp add: ex_defs ex_out_def arith_def strict2_def checked_def in_type_def type_min_def type_max_def
        signed_type_def int_bits_def)
  moreover have "expr_refs (ex_plus c) = [(0, PT_INT32)]"
    by (simp add: ex_defs)
  ultimately show ?thesis
    using c ex_plus_ok col ex_column by (auto simp: call_ok_def call_ready_def)
qed

lemma ex_return: "return_type (ex_plus c) = ex_int" "GetType ex_result = ex_int"
  by (simp_all add: ex_plus_def ex_result_def Vector_Initialize_eq)

lemma ex_world_simps [simp]:
  "enable_jit (dispatcher (ex_world c))" "jit_cache (ex_world c) = c" "compilation_threshold (dispatcher (ex_world c)) = 0"
  "compilation_attempts (dispatcher (ex_world c)) = 0" "compilation_successes (dispatcher (ex_world c)) = 0"
  "profiler (ex_world c) = JITProfiler_init"
  by (simp_all add: ex_world_def)

definition ex_kernel :: kernel where
  "ex_kernel = projr (build_kernel ex_dec (ex_plus 1))"

lemma ex_kernel: "build_kernel ex_dec (ex_plus 1) = Inr ex_kernel"
  using build_kernel_total [OF ex_plus_ok, of 1 ex_dec] by (auto simp: ex_kernel_def)

definition ex_cache :: "JITCompiledFunction JITCache" where
  "ex_cache = Cache_Insert (ex_plus 1) (Some \<lparr>cf_fn = ex_kernel, cf_return_type = ex_int\<rparr>) 0 JITCache_init"

lemma ex_cache_view:
  "cache_inv ex_cache"
  "map_of (cache_view ex_cache) (Fingerprint (ex_plus 1)) = Some (Some \<lparr>cf_fn = ex_kernel, cf_return_type = ex_int\<rparr>)"
  using Insert_spec [OF inv_init, of "ex_plus 1" "Some \<lparr>cf_fn = ex_kernel, cf_return_type = ex_int\<rparr>" 0]
  by (simp_all add: ex_cache_def lru_add_def)

text \<open>A hot expression that is not cached: the dispatch compiles it and runs its kernel.\<close>

lemma dispatch_hot:
  assumes "llvm_semantics sem" and "llvm_works env" and "cache_inv (jit_cache w)"
    and "map_of (cache_view (jit_cache w)) (Fingerprint e) = None"
    and "compilation_threshold (dispatcher w) \<le> GetCount e (profiler w)" and "enable_jit (dispatcher w)"
    and "call_ready inputs n e" and "lt_id (return_type e) = lt_id (GetType res)"
  shows "\<exists>k d m w'. build_kernel dec e = Inr k \<and>
    TryExecuteJIT env dec sem junk e inputs res n w = Inr (True, Flat (GetType res) d m, w') \<and>
    (\<forall>j < n. vec_row (Flat (GetType res) d m) j = kernel_row inputs e j) \<and>
    map_of (cache_view (jit_cache w')) (Fingerprint e) = Some (Some \<lparr>cf_fn = k, cf_return_type = return_type e\<rparr>) \<and>
    compilation_attempts (dispatcher w') = compilation_attempts (dispatcher w) + 1 \<and>
    compilation_successes (dispatcher w') = compilation_successes (dispatcher w) + 1"
proof -
  let ?fp = "Fingerprint e"
  have int: "int_expr e" using assms(7) by (simp add: call_ready_def)
  then obtain k where k: "build_kernel dec e = Inr k" using build_kernel_total by blast
  let ?f = "\<lparr>cf_fn = k, cf_return_type = return_type e\<rparr>"
  obtain c where c: "Cache_Lookup e (jit_cache w) = Inr (None, c)" "cache_inv c" "cache_view c = cache_view (jit_cache w)"
    using Lookup_spec [OF assms(3), of e] assms(4) by (auto simp: lru_touch_def)
  let ?w = "w\<lparr>jit_cache := c\<rparr>"
  obtain w1 where w1: "TryCompile env dec e ?w = Inr (True, w1)" "cache_inv (jit_cache w1)"
      "map_of (cache_view (jit_cache w1)) ?fp = Some (Some ?f)"
      "compilation_attempts (dispatcher w1) = compilation_attempts (dispatcher w) + 1"
      "compilation_successes (dispatcher w1) = compilation_successes (dispatcher w) + 1"
    using TryCompile_works [OF assms(2) _ _ int k, of ?w] c assms(4) by auto
  obtain c2 where c2: "Cache_Lookup e (jit_cache w1) = Inr (Some ?f, c2)" "cache_view c2 = lru_touch ?fp (cache_view (jit_cache w1))"
    using Lookup_spec [OF w1(2), of e] w1(3) by auto
  obtain d m where wrapper: "call_wrapper sem junk ?f inputs n res = Inr (Flat (GetType res) d m)"
      "\<forall>j < n. vec_row (Flat (GetType res) d m) j = kernel_row inputs e j"
    using call_wrapper_rows [OF assms(1) k assms(7,8)] by blast
  have "ShouldCompile e ?w"
    using assms(5) by (simp add: ShouldCompile_def)
  then have "TryExecuteJIT env dec sem junk e inputs res n w = run_cached sem junk ?f inputs res n (w1\<lparr>jit_cache := c2\<rparr>)"
    using assms(6) call_ready_safe [OF assms(7)] c w1(1) c2(1) by (simp add: TryExecuteJIT_def Let_def)
  then have "TryExecuteJIT env dec sem junk e inputs res n w = Inr (True, Flat (GetType res) d m,
      w1\<lparr>jit_cache := c2, dispatcher := (dispatcher w1)\<lparr>jit_executions := jit_executions (dispatcher w1) + 1\<rparr>\<rparr>)"
    by (simp add: run_cached_def wrapper(1))
  moreover have "map_of (cache_view c2) ?fp = Some (Some ?f)"
    using c2(2) w1(3) by (simp add: lru_touch_def)
  ultimately show ?thesis
    using k wrapper(2) w1(4,5) by (intro exI [of _ k] exI [of _ d] exI [of _ m] exI conjI) (assumption | simp)+
qed

section \<open>The properties of the dispatcher\<close>

text \<open>
  C21: Two expressions of the same shape, which may differ in the values of their constants, share a
  cache entry: once the kernel of \<open>e'\<close> is cached, \<open>TryExecuteJIT\<close> of \<open>e\<close> reports success and returns
  the values of \<open>e'\<close>, here on rows on which those stay in range.
\<close>

theorem constants_share_kernel:
  assumes "llvm_semantics sem" and "cache_inv (jit_cache w)" and "shape e = shape e'"
    and "map_of (cache_view (jit_cache w)) (Fingerprint e') = Some (Some \<lparr>cf_fn = k, cf_return_type = return_type e'\<rparr>)"
    and "build_kernel dec e' = Inr k" and "call_ok inputs n e' out" and "enable_jit (dispatcher w)"
    and "lt_id (return_type e') = lt_id (GetType res)"
  shows "\<exists>d m w'. TryExecuteJIT env dec sem junk e inputs res n w = Inr (True, Flat (GetType res) d m, w') \<and>
    (\<forall>j < n. vec_row (Flat (GetType res) d m) j = map_option CInt (out j))"
proof -
  have "Fingerprint e = Fingerprint e'"
    using assms(3) by (rule Fingerprint_shape)
  moreover have ready: "call_ready inputs n e'" "\<And>j. j < n \<Longrightarrow> int_eval strict_conj (input_row inputs j) e' = Inr (out j)"
    using assms(6) by (simp_all add: call_ok_def)
  ultimately show ?thesis
    using dispatch_cached [OF assms(1,2) _ assms(5) ready(1) assms(7,8)] assms(4) kernel_row_exact [OF ready(1) _ ready(2)] by simp
qed

text \<open>The witness: \<open>x + 2\<close> on the row 41 gives 42 when the kernel of \<open>x + 1\<close> is cached.\<close>

theorem constants_share_kernel_witness:
  "\<exists>d m w'. TryExecuteJIT ex_llvm ex_dec ex_sem (\<lambda>_. 0) (ex_plus 2) ex_inputs ex_result 2 (ex_world ex_cache) =
       Inr (True, Flat ex_int d m, w') \<and> vec_row (Flat ex_int d m) 0 = Some (CInt 42) \<and>
     int_eval strict_conj (input_row ex_inputs 0) (ex_plus 2) = Inr (Some 43)"
proof -
  have "shape (ex_plus 2) = shape (ex_plus 1)" by (simp add: ex_defs)
  then obtain d m w' where "TryExecuteJIT ex_llvm ex_dec ex_sem (\<lambda>_. 0) (ex_plus 2) ex_inputs ex_result 2 (ex_world ex_cache) =
       Inr (True, Flat (GetType ex_result) d m, w')"
     "\<forall>j < 2. vec_row (Flat (GetType ex_result) d m) j = map_option CInt (ex_out 1 j)"
    using constants_share_kernel [OF ex_sem_laws, of "ex_world ex_cache" "ex_plus 2" "ex_plus 1" ex_kernel
        ex_dec ex_inputs 2 "ex_out 1" ex_result ex_llvm "\<lambda>_. 0"] ex_cache_view ex_kernel ex_call_ok [of 1] ex_return
    by auto
  moreover have "int_eval strict_conj (input_row ex_inputs 0) (ex_plus 2) = Inr (ex_out 2 0)"
    using ex_call_ok [of 2] by (auto simp: call_ok_def)
  ultimately show ?thesis
    by (auto simp: ex_return ex_out_def simp del: vec_row.simps)
qed

text \<open>
  C4: A hot integer expression gets compiled and runs at once: with the JIT enabled, a count that reaches
  the threshold, no cache entry yet and an LLVM that accepts every module (\<open>llvm_works\<close>), on readable
  integer columns, \<open>TryExecuteJIT\<close> compiles the expression, counts one successful attempt, leaves its
  kernel in the cache and runs it. Every row of the result vector is the value in two's complement
  arithmetic, reduced to the width of each node without an overflow error, or NULL where an operand
  is NULL, those of AND and OR included; on the rows whose exact evaluation (with that reading of AND
  and OR) stays in range it is the exact value.
\<close>

theorem hot_expression_compiled:
  assumes "llvm_semantics sem" and "llvm_works env" and "cache_inv (jit_cache w)"
    and "map_of (cache_view (jit_cache w)) (Fingerprint e) = None"
    and "compilation_threshold (dispatcher w) \<le> GetCount e (profiler w)" and "enable_jit (dispatcher w)"
    and "call_ready inputs n e" and "lt_id (return_type e) = lt_id (GetType res)"
  shows "\<exists>k d m w'. build_kernel dec e = Inr k \<and>
    TryExecuteJIT env dec sem junk e inputs res n w = Inr (True, Flat (GetType res) d m, w') \<and>
    (\<forall>j < n. vec_row (Flat (GetType res) d m) j = kernel_row inputs e j) \<and>
    (\<forall>j < n. \<forall>v. int_eval strict_conj (input_row inputs j) e = Inr v \<longrightarrow>
       vec_row (Flat (GetType res) d m) j = map_option CInt v) \<and>
    map_of (cache_view (jit_cache w')) (Fingerprint e) = Some (Some \<lparr>cf_fn = k, cf_return_type = return_type e\<rparr>) \<and>
    compilation_attempts (dispatcher w') = compilation_attempts (dispatcher w) + 1 \<and>
    compilation_successes (dispatcher w') = compilation_successes (dispatcher w) + 1"
proof -
  obtain k d m w' where "build_kernel dec e = Inr k"
      "TryExecuteJIT env dec sem junk e inputs res n w = Inr (True, Flat (GetType res) d m, w')"
      "\<forall>j < n. vec_row (Flat (GetType res) d m) j = kernel_row inputs e j"
      "map_of (cache_view (jit_cache w')) (Fingerprint e) = Some (Some \<lparr>cf_fn = k, cf_return_type = return_type e\<rparr>)"
      "compilation_attempts (dispatcher w') = compilation_attempts (dispatcher w) + 1"
      "compilation_successes (dispatcher w') = compilation_successes (dispatcher w) + 1"
    using dispatch_hot [OF assms] by blast
  then show ?thesis
    using kernel_row_exact [OF assms(7)] by (intro exI [of _ k] exI [of _ d] exI [of _ m] exI [of _ w']) simp
qed

theorem hot_expression_compiled_witness:
  "\<exists>d m w'. TryExecuteJIT ex_llvm ex_dec ex_sem (\<lambda>_. 0) (ex_plus 1) ex_inputs ex_result 2 (ex_world JITCache_init) =
       Inr (True, Flat ex_int d m, w') \<and> vec_row (Flat ex_int d m) 1 = Some (CInt 6) \<and>
     compilation_successes (dispatcher w') = 1"
proof -
  have ready: "call_ready ex_inputs 2 (ex_plus 1)" "int_eval strict_conj (input_row ex_inputs 1) (ex_plus 1) = Inr (ex_out 1 1)"
    using ex_call_ok [of 1] by (simp_all add: call_ok_def)
  obtain d m w' where "TryExecuteJIT ex_llvm ex_dec ex_sem (\<lambda>_. 0) (ex_plus 1) ex_inputs ex_result 2 (ex_world JITCache_init) =
       Inr (True, Flat (GetType ex_result) d m, w')"
     "\<forall>j < 2. \<forall>v. int_eval strict_conj (input_row ex_inputs j) (ex_plus 1) = Inr v \<longrightarrow>
        vec_row (Flat (GetType ex_result) d m) j = map_option CInt v"
     "compilation_successes (dispatcher w') = 1"
    using hot_expression_compiled [OF ex_sem_laws ex_llvm_works, of "ex_world JITCache_init" "ex_plus 1" ex_inputs 2 ex_result
        ex_dec "\<lambda>_. 0"] ready(1) ex_return by auto
  then show ?thesis
    using ready(2) by (intro exI [of _ d] exI [of _ m] exI [of _ w']) (simp add: ex_return ex_out_def del: vec_row.simps)
qed

text \<open>
  C22: Every dispatch that returns counts as exactly one execution, of the kernel or of the interpreter,
  as its result says; when it falls back to the interpreter the result vector is untouched; with the
  JIT disabled it always does; the configuration and the profile do not change, and every compilation
  attempt is counted as a success or as a failure. This is about one dispatch on its own: the counters
  are not synchronised, and two dispatches that overlap on different threads can lose a count.
\<close>

theorem dispatch_accounting:
  assumes "TryExecuteJIT env dec sem junk e inputs res cnt w = Inr (b, res', w')"
  shows "jit_executions (dispatcher w') = jit_executions (dispatcher w) + of_bool b \<and>
    interpreter_executions (dispatcher w') = interpreter_executions (dispatcher w) + of_bool (\<not> b) \<and>
    (b \<or> res' = res) \<and> (enable_jit (dispatcher w) \<or> \<not> b) \<and> profiler w' = profiler w \<and>
    compilation_threshold (dispatcher w') = compilation_threshold (dispatcher w) \<and>
    enable_jit (dispatcher w') = enable_jit (dispatcher w) \<and>
    compilation_attempts (dispatcher w') - (compilation_successes (dispatcher w') + compilation_failures (dispatcher w')) =
      compilation_attempts (dispatcher w) - (compilation_successes (dispatcher w) + compilation_failures (dispatcher w))"
proof -
  have "enable_jit (dispatcher w) \<or> \<not> b"
    using assms by (auto simp: TryExecuteJIT_def use_interpreter_def)
  then show ?thesis
    using TryExecuteJIT_effect [OF assms] by (auto simp: dispatch_effect_def balanced_def)
qed

text \<open>The witness dispatches \<open>x + 1\<close> twice: hot, which compiles it and runs the kernel, and with the JIT disabled.\<close>

theorem dispatch_accounting_witness:
  "(\<exists>res' w'. TryExecuteJIT ex_llvm ex_dec ex_sem (\<lambda>_. 0) (ex_plus 1) ex_inputs ex_result 2 (ex_world JITCache_init) =
       Inr (True, res', w') \<and> jit_executions (dispatcher w') = 1 \<and> interpreter_executions (dispatcher w') = 0 \<and>
       compilation_attempts (dispatcher w') = 1 \<and> compilation_failures (dispatcher w') = 0) \<and>
   (\<exists>w'. TryExecuteJIT ex_llvm ex_dec ex_sem (\<lambda>_. 0) (ex_plus 1) ex_inputs ex_result 2 (SetEnableJIT False (ex_world ex_cache)) =
       Inr (False, ex_result, w') \<and> interpreter_executions (dispatcher w') = 1)"
proof
  let ?w = "ex_world JITCache_init"
  have zero: "jit_executions (dispatcher ?w) = 0" "interpreter_executions (dispatcher ?w) = 0" "compilation_failures (dispatcher ?w) = 0"
    by (simp_all add: ex_world_def)
  have "call_ready ex_inputs 2 (ex_plus 1)"
    using ex_call_ok [of 1] by (simp add: call_ok_def)
  then obtain res' w' where run: "TryExecuteJIT ex_llvm ex_dec ex_sem (\<lambda>_. 0) (ex_plus 1) ex_inputs ex_result 2 ?w = Inr (True, res', w')"
      "compilation_attempts (dispatcher w') = 1" "compilation_successes (dispatcher w') = 1"
    using dispatch_hot [OF ex_sem_laws ex_llvm_works, of ?w "ex_plus 1" ex_inputs 2 ex_result ex_dec "\<lambda>_. 0"] ex_return by auto
  from dispatch_accounting [OF run(1)] run zero
  show "\<exists>res' w'. TryExecuteJIT ex_llvm ex_dec ex_sem (\<lambda>_. 0) (ex_plus 1) ex_inputs ex_result 2 ?w =
       Inr (True, res', w') \<and> jit_executions (dispatcher w') = 1 \<and> interpreter_executions (dispatcher w') = 0 \<and>
       compilation_attempts (dispatcher w') = 1 \<and> compilation_failures (dispatcher w') = 0"
    by (intro exI [of _ res'] exI [of _ w']) simp
next
  let ?w = "SetEnableJIT False (ex_world ex_cache)"
  obtain w' where run: "TryExecuteJIT ex_llvm ex_dec ex_sem (\<lambda>_. 0) (ex_plus 1) ex_inputs ex_result 2 ?w = Inr (False, ex_result, w')"
    by (simp add: TryExecuteJIT_def SetEnableJIT_def use_interpreter_def)
  moreover have "interpreter_executions (dispatcher ?w) = 0"
    by (simp add: SetEnableJIT_def ex_world_def)
  ultimately show "\<exists>w'. TryExecuteJIT ex_llvm ex_dec ex_sem (\<lambda>_. 0) (ex_plus 1) ex_inputs ex_result 2 ?w =
       Inr (False, ex_result, w') \<and> interpreter_executions (dispatcher w') = 1"
    using dispatch_accounting [OF run] by simp
qed

text \<open>
  After \<open>SetCompilationThreshold\<close> with a positive threshold, the expressions the dispatcher would
  compile are exactly those the profiler reports as hot.
\<close>

theorem compile_policy_is_hotness:
  assumes "profiler_wf (profiler w)" and "0 < t"
  shows "ShouldCompile e (SetCompilationThreshold t w) \<longleftrightarrow> IsExpressionHot e (profiler (SetCompilationThreshold t w))"
proof -
  let ?p = "profiler w" and ?fp = "Fingerprint e"
  have "distinct (map fst (counts ?p))"
    using assms(1) by (simp add: profiler_wf_def um_wf_def)
  then have "(?fp, c) \<in> set (counts ?p) \<longleftrightarrow> map_of (counts ?p) ?fp = Some c" for c
    by (simp add: map_of_eq_Some_iff)
  then show ?thesis
    using assms(2) SetHotnessThreshold_labels(1) [of t ?p]
    by (auto simp: ShouldCompile_def SetCompilationThreshold_def GetCount_def IsExpressionHot_def IsFingerprintHot_def
        split: option.splits)
qed

theorem compile_policy_is_hotness_witness:
  "\<not> IsExpressionHot (ex_plus 1) (profiler (SetCompilationThreshold 5 (ex_world JITCache_init)))"
proof -
  have "profiler_wf (profiler (ex_world JITCache_init))"
    by (simp add: profiler_wf_def JITProfiler_init_def)
  then show ?thesis
    using compile_policy_is_hotness [of "ex_world JITCache_init" 5 "ex_plus 1"]
    by (simp add: ShouldCompile_def SetCompilationThreshold_def GetCount_def JITProfiler_init_def SetHotnessThreshold_def
        RebuildHotLabelsLocked_def Let_def)
qed

text \<open>
  The sparse column table holds exactly the columns the expression reads through bound references,
  as far as the chunk has them; every other slot stays null.
\<close>

theorem sparse_columns:
  assumes "c < 65"
  shows "PopulateSparseColumnPointers e chunk MAX_COLS (replicate 65 None) ! c =
    (if c \<in> fst ` set (expr_refs e) \<and> c < length chunk \<and> c < MAX_COLS then Some (chunk ! c) else None)"
  using assms Populate_nth [of c "replicate 65 None" e chunk MAX_COLS] by simp

theorem sparse_columns_witness:
  "PopulateSparseColumnPointers (ex_plus 1) [ex_dict] MAX_COLS (replicate 65 None) ! 0 = Some ex_dict"
proof -
  have "expr_refs (ex_plus 1) = [(0, PT_INT32)]" by (simp add: ex_defs)
  then show ?thesis
    using sparse_columns [of 0 "ex_plus 1" "[ex_dict]"] by simp
qed

text \<open>The loop body of a kernel that reads a column starts with the load of the column's pointer.\<close>

lemma column_ref_kernel:
  assumes "build_kernel dec (BoundColumnRef t tbl c 0) = Inr k"
  shows "\<exists>elem rest. k_body k = [IGEP TPtr (OArg 0) (OConst (VInt 64 (int (unat c)))), ILoad TPtr (OReg 0), IBitCast (OReg 1),
      IGEP elem (OReg 2) OPhi] @ rest \<and> k_start k = OConst (VInt 64 0) \<and> k_cond k = IPure (ICmp IULT) [OPhi, OArg 4]"
proof -
  obtain vn s n s' where gen: "Codegen dec (BoundColumnRef t tbl c 0) [] = Inr (vn, s)"
      "CodegenStores (InternalType t) vn s = Inr (n, s')"
      "k = \<lparr>k_start = OConst (VInt 64 0), k_cond = IPure (ICmp IULT) [OPhi, OArg 4], k_body = s', k_next = n\<rparr>"
    using assms by (auto simp: build_kernel_def bindE_Inr_iff)
  have "\<exists>elem rest. s = [IGEP TPtr (OArg 0) (OConst (VInt 64 (int (unat c)))), ILoad TPtr (OReg 0), IBitCast (OReg 1),
      IGEP elem (OReg 2) OPhi] @ rest"
    using gen(1) by (auto simp: bindE_Inr_iff ProjectionIndex_GetIndex_def CodegenRef_def Create_def emit_def Let_def
        numeral_2_eq_2 split: option.splits if_splits)
  moreover have "\<exists>rest. s' = s @ rest"
    using gen(2) by (auto simp: CodegenStores_def bindE_Inr_iff Create_def emit_def Let_def)
  ultimately show ?thesis
    using gen(3) by auto
qed

lemma null_table:
  "i < N \<Longrightarrow> map (\<lambda>c. if map (\<lambda>_. None) [0..<N] ! c = None then VNull else VPtr (4 + 2 * c) 0) [0..<N] ! i = VNull"
  by simp

lemma null_column_undefined:
  assumes "llvm_semantics sem" and "build_kernel dec (BoundColumnRef t tbl c 0) = Inr k"
    and "m 0 = Some tab" and "unat c < length tab" and "tab ! unat c = VNull" and "unat c < 2 ^ 63" and "0 < n" "n < 2 ^ 63"
  shows "run_kernel sem k (call_args n) m = None"
proof -
  obtain elem rest where k: "k_body k = [IGEP TPtr (OArg 0) (OConst (VInt 64 (int (unat c)))), ILoad TPtr (OReg 0), IBitCast (OReg 1),
      IGEP elem (OReg 2) OPhi] @ rest" "k_start k = OConst (VInt 64 0)" "k_cond k = IPure (ICmp IULT) [OPhi, OArg 4]"
    using column_ref_kernel [OF assms(2)] by blast
  let ?fr = "\<lparr>args = call_args n, phi = VInt 64 0, regs = [], memory = m\<rparr>"
  have canon: "canon 64 0" "canon 64 (int n)"
    using assms(8) by (simp_all add: canon_range)
  then have "sem (ICmp IULT) [VInt 64 0, VInt 64 (int n)] = Some (VInt 1 1)"
    using llvm_semantics.icmp_law [OF assms(1) canon, of IULT] assms(7) by simp
  then have cond: "exec_instr sem ?fr (k_cond k) = Some (push (VInt 1 1) ?fr)"
    by (simp add: k(3) call_args_def)
  define i where "i = unat c"
  have "sgn_val 64 (int i) = int i"
    using sgn_val_small [OF assms(6)] by (simp only: i_def)
  then have "exec sem ?fr (k_body k) = None"
    using assms(3-5) unfolding k(1) i_def [symmetric]
    by (simp add: call_args_def gep_def load_def push_def Let_def)
  with cond show ?thesis
    unfolding run_kernel_def k(2) by (subst kernel_loop.simps) (simp add: push_def)
qed

text \<open>
  An unresolved column reference passes \<open>CanCompile\<close>, but the sparse column table leaves its slot
  null: running the compiled kernel on a batch is a load through a null pointer.
\<close>

theorem column_ref_undefined:
  assumes "llvm_semantics sem" and "build_kernel dec (BoundColumnRef t tbl c 0) = Inr k" and "unat c < MAX_COLS"
    and "0 < n" and "n \<le> STANDARD_VECTOR_SIZE" and "IsSupportedPhysType (InternalType t)"
  shows "CanCompile (BoundColumnRef t tbl c 0) \<and>
    call_wrapper sem junk \<lparr>cf_fn = k, cf_return_type = t\<rparr>
      (PopulateSparseColumnPointers (BoundColumnRef t tbl c 0) chunk MAX_COLS (replicate 65 None)) n res = Inl Undefined"
proof -
  let ?inputs = "PopulateSparseColumnPointers (BoundColumnRef t tbl c 0) chunk MAX_COLS (replicate 65 None)"
  have "?inputs = replicate 65 None"
    by (simp only: PopulateSparseColumnPointers_def CollectJITReferencedColumnIndices.simps fold_simps)
  then have none: "?inputs ! i = None" if "i < MAX_COLS" for i
    using that by (simp only: nth_replicate)
  have "mapE (\<lambda>i. flat_column junk n (?inputs ! i)) [0..<MAX_COLS] = Inr (map (\<lambda>_. None) [0..<MAX_COLS])"
    by (rule mapE_total) (simp add: none flat_column_def del: upt_rec_numeral)
  moreover obtain out where "Flatten junk n (Vector_Initialize junk t STANDARD_VECTOR_SIZE) = Inr out"
    by (simp add: Flatten_def Vector_Initialize_eq del: upt_rec_numeral)
  moreover have "run_kernel sem k (call_args n) (call_memory n (map (\<lambda>_. None) [0..<MAX_COLS]) rpt buf) = None" for rpt buf
  proof (rule null_column_undefined [OF assms(1,2)])
    let ?tab = "map (\<lambda>c. if map (\<lambda>_. None :: Vector option) [0..<MAX_COLS] ! c = None then VNull else VPtr (4 + 2 * c) 0) [0..<MAX_COLS]"
    show "call_memory n (map (\<lambda>_. None) [0..<MAX_COLS]) rpt buf 0 = Some ?tab"
      by (simp only: call_memory_tables(1) length_map length_upt diff_zero)
    show "?tab ! unat c = VNull" "unat c < length ?tab"
      using assms(3) by (simp_all only: null_table length_map length_upt diff_zero)
  qed (use assms(3-5) in simp_all)
  ultimately show ?thesis
    using assms(6) by (simp add: call_wrapper_def Let_def CanCompile_def del: upt_rec_numeral)
qed

theorem column_ref_undefined_witness:
  "\<exists>k. build_kernel ex_dec (BoundColumnRef ex_int 0 3 0) = Inr k \<and>
     call_wrapper ex_sem (\<lambda>_. 0) \<lparr>cf_fn = k, cf_return_type = ex_int\<rparr>
       (PopulateSparseColumnPointers (BoundColumnRef ex_int 0 3 0) [] MAX_COLS (replicate 65 None)) 7 ex_result = Inl Undefined"
proof -
  have "\<exists>k. build_kernel ex_dec (BoundColumnRef ex_int 0 3 0) = Inr k"
    by (simp add: build_kernel_def ProjectionIndex_GetIndex_def CodegenRef_def PhysToLLVM_def ex_int_def Create_def emit_def
        Let_def CodegenStores_def getNullValue_def)
  then obtain k where k: "build_kernel ex_dec (BoundColumnRef ex_int 0 3 0) = Inr k" ..
  have "IsSupportedPhysType (InternalType ex_int)"
    by (simp add: ex_int_def IsSupportedPhysType_def)
  with column_ref_undefined [OF ex_sem_laws k, of 7 "\<lambda>_. 0" "[]" ex_result] k show ?thesis
    by auto
qed

end
