(* ===== verification/Expression_Executor.thy ===== *)
theory Expression_Executor
  imports Dictionary_Expression Jit_Dispatcher
begin

text \<open>
  The expression executor (\<open>expression_executor.cpp\<close>, \<open>execute_*.cpp\<close>): \<open>Execute\<close> and \<open>Select\<close> over whole
  expression trees, with the profiler and the JIT at the points where the code calls them. The two are
  mutually recursive: a CASE filters its rows by \<open>Select\<close>, and the default filter executes its predicate.

  The state is what lives from batch to batch: the JIT singletons, the adaptive filter of every
  conjunction and the dictionary state of every function. An \<open>ExpressionState\<close> is named by its path, the positions in \<open>child_states\<close> from the node up to
  the root.
\<close>

section \<open>State and parameters\<close>

text \<open>
  Besides the vector operations' parameters: the chunk the executor reads (its columns and their number of
  rows), the tags of dictionaries that come from storage, the callbacks of the scalar functions and casts, LLVM, the thread's stack of query scopes, and the
  clocks and random numbers. What a call may read of the outside world (the local state of a function, a
  clock) is indexed by the number of such reads so far.
\<close>

record executor_env = vector_env +
  chunk :: "(Vector list \<times> nat) option"
  dictionary_tag :: "nat \<Rightarrow> Vector \<Rightarrow> nat option \<times> string"
  callback :: "Expression \<Rightarrow> nat \<Rightarrow> Vector list \<Rightarrow> nat \<Rightarrow> Vector \<Rightarrow> Vector result"
  cast_function :: "Expression \<Rightarrow> nat \<Rightarrow> Vector \<Rightarrow> nat \<Rightarrow> Vector \<Rightarrow> Vector result"
  llvm :: llvm_env
  decimal :: decimal_cast
  ir_sem :: sem
  query_scope :: "u64 list"
  lock_time :: "nat \<Rightarrow> u64"
  random_bits :: "nat \<Rightarrow> u64"
  filter_time :: "nat \<Rightarrow> real"
  rounding :: "real \<Rightarrow> real"

record executor_state =
  jit :: world
  adaptive :: "nat list \<Rightarrow> AdaptiveFilter"
  function_states :: "nat list \<Rightarrow> ExecuteFunctionState"
  tick :: nat

definition ticks :: "(executor_state, nat) run" where
  "ticks w = (Inr (tick w), w\<lparr>tick := tick w + 1\<rparr>)"

text \<open>\<open>JITProfiler::GetInstance().Record(expr, count)\<close>; a listener for hot fingerprints is not run here.\<close>

definition record_execution :: "executor_env \<Rightarrow> Expression \<Rightarrow> nat \<Rightarrow> (executor_state, unit) run" where
  "record_execution env expr cnt =
     bindW ticks (\<lambda>k w. (Inr (), w\<lparr>jit := (jit w)\<lparr>profiler :=
       snd (Record (query_scope env) expr (word_of_nat cnt) (lock_time env k) (profiler (jit w)))\<rparr>\<rparr>))"

text \<open>
  The JIT fast path: the kernel runs only on a dense batch of a chunk with at most 64 columns. The result
  says whether it did. The dispatcher's updates before an error of a kernel are not kept.
\<close>

definition jit_attempt :: "executor_env \<Rightarrow> Expression \<Rightarrow> bool \<Rightarrow> nat \<Rightarrow> Vector \<Rightarrow> (executor_state, bool \<times> Vector) run" where
  "jit_attempt env expr has_sel cnt res w =
     (case chunk env of
        Some (columns, _) \<Rightarrow>
          if enable_jit (dispatcher (jit w)) \<and> \<not> has_sel \<and> 0 < length columns \<and> length columns \<le> MAX_COLS then
            case TryExecuteJIT (llvm env) (decimal env) (ir_sem env) (vjunk env) expr
                (PopulateSparseColumnPointers expr columns MAX_COLS (replicate (MAX_COLS + 1) None)) res cnt (jit w) of
              Inl e \<Rightarrow> (Inl e, w)
            | Inr (handled, res, jw) \<Rightarrow> (Inr (handled, res), w\<lparr>jit := jw\<rparr>)
          else (Inr (False, res), w)
      | None \<Rightarrow> (Inr (False, res), w))"

section \<open>Nodes\<close>

abbreviation kid_type :: "Expression \<Rightarrow> nat \<Rightarrow> LogicalType" where
  "kid_type e k \<equiv> return_type (kids e ! k)"

definition Execute_Reference :: "executor_env \<Rightarrow> u64 \<Rightarrow> executor_state exec_fn" where
  "Execute_Reference env i sel cnt res =
     liftW (case chunk env of
              None \<Rightarrow> Inl Undefined
            | Some (columns, _) \<Rightarrow>
                bindE (vec_at columns (unat i)) (\<lambda>col. if sel \<noteq> None then Slice_other col sel cnt res else Reference col res))"

definition Execute_Constant :: "executor_env \<Rightarrow> Value \<Rightarrow> executor_state exec_fn" where
  "Execute_Constant env v sel cnt res = returnW (Reference_Value (vjunk env) v)"

definition function_callback :: "executor_env \<Rightarrow> Expression \<Rightarrow> executor_state call_fn" where
  "function_callback env expr arguments cnt res = bindW ticks (\<lambda>k. liftW (callback env expr k arguments cnt res))"

abbreviation put_function :: "nat list \<Rightarrow> ExecuteFunctionState \<Rightarrow> executor_state \<Rightarrow> executor_state" where
  "put_function path st w \<equiv> w\<lparr>function_states := (function_states w)(path := st)\<rparr>"

definition Execute_Function :: "executor_env \<Rightarrow> Expression \<Rightarrow> nat list \<Rightarrow> (nat \<Rightarrow> executor_state exec_fn) \<Rightarrow> executor_state exec_fn" where
  "Execute_Function env expr path run_kid sel cnt res =
     bindW (jit_attempt env expr (sel \<noteq> None) cnt res) (\<lambda>(handled, res).
       if handled then returnW res
       else
         bindW (exec_all (vjunk env) (kid_type expr) run_kid sel cnt [0..<length (kids expr)]) (\<lambda>arguments.
         bindW ticks (\<lambda>k.
         bindW (TryExecuteDictionaryExpression env (\<lambda>w. function_states w path) (put_function path) (dictionary_tag env k)
             (function_callback env expr) arguments cnt res) (\<lambda>(executed, res).
           if executed then returnW res else function_callback env expr arguments cnt res))))"

text \<open>\<open>ResetDictionaryStates\<close>: the states of functions and casts are \<open>ExecuteFunctionState\<close>s; all others only pass the call on.\<close>

function reset_states :: "Expression \<Rightarrow> nat list \<Rightarrow> (nat list \<Rightarrow> ExecuteFunctionState) \<Rightarrow> nat list \<Rightarrow> ExecuteFunctionState" where
  "reset_states e path fs =
     fold (\<lambda>k. reset_states (kids e ! k) (k # path)) [0..<length (kids e)]
       (case e of
          BoundFunction _ _ _ \<Rightarrow> fs(path := clear_dictionary (fs path))
        | BoundCast _ _ _ \<Rightarrow> fs(path := clear_dictionary (fs path))
        | _ \<Rightarrow> fs)"
  by pat_completeness auto
termination
  by (relation "measure (\<lambda>(e, _). size e)") (auto dest!: kids_size [OF nth_mem])

declare reset_states.simps [simp del]

definition ResetDictionaryStates :: "Expression \<Rightarrow> nat list \<Rightarrow> (executor_state, unit) run" where
  "ResetDictionaryStates e path w = (Inr (), w\<lparr>function_states := reset_states e path (function_states w)\<rparr>)"

definition Execute_Cast :: "executor_env \<Rightarrow> Expression \<Rightarrow> (nat \<Rightarrow> executor_state exec_fn) \<Rightarrow> executor_state exec_fn" where
  "Execute_Cast env expr run_kid sel cnt res =
     bindW (exec_all (vjunk env) (kid_type expr) run_kid sel cnt [0]) (\<lambda>vs.
     bindW ticks (\<lambda>k. liftW (cast_function env expr k (vs ! 0) cnt res)))"

definition Execute_Comparison_node ::
    "executor_env \<Rightarrow> Expression \<Rightarrow> ExpressionType \<Rightarrow> (nat \<Rightarrow> executor_state exec_fn) \<Rightarrow> executor_state exec_fn" where
  "Execute_Comparison_node env expr et run_kid sel cnt res =
     bindW (exec_all (vjunk env) (kid_type expr) run_kid sel cnt [0, 1]) (\<lambda>vs.
       let left = vs ! 0; right = vs ! 1 in
       liftW (Execute_Comparison (nested_cmp env) (same_mask env left right) (vjunk env) et left right cnt res))"

definition Execute_Between_node ::
    "executor_env \<Rightarrow> Expression \<Rightarrow> bool \<Rightarrow> bool \<Rightarrow> (nat \<Rightarrow> executor_state exec_fn) \<Rightarrow> executor_state exec_fn" where
  "Execute_Between_node env expr lower_inclusive upper_inclusive run_kid sel cnt res =
     bindW (exec_all (vjunk env) (kid_type expr) run_kid sel cnt [0, 1, 2]) (\<lambda>vs.
       let input = vs ! 0; lower = vs ! 1; upper = vs ! 2 in
       liftW (Execute_Between (nested_cmp env) (same_mask env input lower) (same_mask env input upper) (vjunk env)
         lower_inclusive upper_inclusive input lower upper cnt res))"

text \<open>The filter of a comparison on the result of a kernel.\<close>

definition jit_select_row ::
    "UnifiedVectorFormat \<Rightarrow> nat \<Rightarrow> nat \<times> SelectionVector option \<times> nat \<times> SelectionVector option
      \<Rightarrow> nat \<times> SelectionVector option \<times> nat \<times> SelectionVector option" where
  "jit_select_row idata i = (\<lambda>(true_count, ts, false_count, fs).
     let bidx = get_index (uf_sel idata) i; ridx = get_index IncrementalSelectionVector i in
     if RowIsValid (uf_validity idata) bidx \<and> byte_true (uf_data idata ! bidx)
     then (true_count + 1, map_option (set_index true_count ridx) ts, false_count, fs)
     else (true_count, ts, false_count + 1, map_option (set_index false_count ridx) fs))"

definition jit_select :: "executor_env \<Rightarrow> Vector \<Rightarrow> nat \<Rightarrow> SelectionVector option \<Rightarrow> SelectionVector option \<Rightarrow> select_output result" where
  "jit_select env jit_result cnt ts fs =
     bindE (ToUnifiedFormat (vjunk env) cnt jit_result) (\<lambda>idata.
       let (true_count, ts', false_count, fs') = fold (jit_select_row idata) [0..<cnt] (0, ts, 0, fs) in
       Inr (if ts \<noteq> None then true_count else cnt - false_count, ts', fs'))"

definition Select_Comparison_node ::
    "executor_env \<Rightarrow> Expression \<Rightarrow> ExpressionType \<Rightarrow> (nat \<Rightarrow> executor_state exec_fn) \<Rightarrow> executor_state select_fn" where
  "Select_Comparison_node env expr et run_kid sel cnt ts fs =
     bindW (record_execution env expr cnt) (\<lambda>_.
     bindW (jit_attempt env expr (sel \<noteq> SelFixed None) cnt (new_vector env BOOLEAN)) (\<lambda>(handled, jit_result).
       if handled then liftW (jit_select env jit_result cnt ts fs)
       else
         bindW (exec_all (vjunk env) (kid_type expr) run_kid (ref_sel sel ts fs) cnt [0, 1]) (\<lambda>vs.
           let left = vs ! 0; right = vs ! 1 in
           liftW (Select_Comparison (nested_sel env) (nested_dist env) (same_mask env left right) (vjunk env) et left right sel cnt ts fs))))"

definition Select_Between_node ::
    "executor_env \<Rightarrow> Expression \<Rightarrow> bool \<Rightarrow> bool \<Rightarrow> (nat \<Rightarrow> executor_state exec_fn) \<Rightarrow> executor_state select_fn" where
  "Select_Between_node env expr lower_inclusive upper_inclusive run_kid sel cnt ts fs =
     bindW (record_execution env expr cnt) (\<lambda>_.
     bindW (exec_all (vjunk env) (kid_type expr) run_kid (ref_sel sel ts fs) cnt [0, 1, 2]) (\<lambda>vs.
       liftW (Select_Between (interval_sel env) (vjunk env) lower_inclusive upper_inclusive (vs ! 0) (vs ! 1) (vs ! 2) sel cnt ts fs)))"

definition filter_clock :: "executor_env \<Rightarrow> (executor_state, u64 \<times> real) run" where
  "filter_clock env = bindW ticks (\<lambda>k. returnW (random_bits env k, filter_time env k))"

definition Select_Conjunction_node ::
    "executor_env \<Rightarrow> ExpressionType \<Rightarrow> nat list \<Rightarrow> (nat \<Rightarrow> executor_state select_fn) \<Rightarrow> executor_state select_fn" where
  "Select_Conjunction_node env et path filter_kid =
     Select_conjunction_run (rounding env) (sjunk env) (\<lambda>w. adaptive w path) (\<lambda>af w. w\<lparr>adaptive := (adaptive w)(path := af)\<rparr>)
       (filter_clock env) (et = ET_CONJUNCTION_AND) filter_kid"

definition DefaultSelect_node :: "executor_env \<Rightarrow> executor_state exec_fn \<Rightarrow> executor_state select_fn" where
  "DefaultSelect_node env run_kid sel cnt ts fs =
     bindW (run_kid (ref_sel sel ts fs) cnt (new_vector env BOOLEAN)) (\<lambda>intermediate.
       liftW (DefaultSelect (vjunk env) (\<lambda>_. Inr intermediate) sel cnt ts fs))"

section \<open>Dispatch\<close>

definition Execute_class ::
    "executor_env \<Rightarrow> Expression \<Rightarrow> nat list \<Rightarrow> (nat \<Rightarrow> executor_state exec_fn) \<Rightarrow> (nat \<Rightarrow> executor_state select_fn) \<Rightarrow> executor_state exec_fn" where
  "Execute_class env expr path run_kid filter_kid =
     (case expr of
        BoundBetween li ui _ _ _ \<Rightarrow> Execute_Between_node env expr li ui run_kid
      | BoundReference _ i \<Rightarrow> Execute_Reference env i
      | BoundCase _ checks _ \<Rightarrow>
          Execute_Case (nested_fills env) (vjunk env) (sjunk env) (kid_type expr) (length checks) run_kid filter_kid
      | BoundCast _ _ _ \<Rightarrow> Execute_Cast env expr run_kid
      | BoundComparison et _ _ \<Rightarrow> Execute_Comparison_node env expr et run_kid
      | BoundConjunction et cs \<Rightarrow> (\<lambda>sel cnt. conjunction_run env et (kid_type expr) run_kid sel cnt [0..<length cs])
      | BoundConstant v \<Rightarrow> Execute_Constant env v
      | BoundFunction _ _ _ \<Rightarrow> Execute_Function env expr path run_kid
      | BoundOperator et _ cs \<Rightarrow> Execute_Operator env et (kid_type expr) (length cs) (ResetDictionaryStates (kids expr ! 0) (0 # path)) run_kid
      | BoundParameter _ v \<Rightarrow> Execute_Constant env v
      | BoundColumnRef _ _ _ _ \<Rightarrow> (\<lambda>_ _ _. liftW (Inl InternalException))
      | OtherExpression _ _ _ \<Rightarrow> (\<lambda>_ _ _. liftW (Inl InternalException)))"

definition Execute_entry :: "executor_env \<Rightarrow> Expression \<Rightarrow> executor_state exec_fn \<Rightarrow> executor_state exec_fn" where
  "Execute_entry env expr body sel cnt res =
     (if cnt = 0 then returnW res
      else
        bindW (record_execution env expr cnt) (\<lambda>_.
          if lt_id (GetType res) \<noteq> lt_id (return_type expr) then liftW (Inl InternalException)
          else body sel cnt res))"

definition Select_class ::
    "executor_env \<Rightarrow> Expression \<Rightarrow> nat list \<Rightarrow> executor_state exec_fn \<Rightarrow> (nat \<Rightarrow> executor_state exec_fn) \<Rightarrow> (nat \<Rightarrow> executor_state select_fn)
      \<Rightarrow> executor_state select_fn" where
  "Select_class env expr path self run_kid filter_kid =
     (case expr of
        BoundBetween li ui _ _ _ \<Rightarrow> Select_Between_node env expr li ui run_kid
      | BoundComparison et _ _ \<Rightarrow> Select_Comparison_node env expr et run_kid
      | BoundConjunction et _ \<Rightarrow> Select_Conjunction_node env et path filter_kid
      | _ \<Rightarrow> DefaultSelect_node env self)"

definition Select_entry :: "executor_state select_fn \<Rightarrow> executor_state select_fn" where
  "Select_entry body sel cnt ts fs = (if cnt = 0 then returnW (0, ts, fs) else body sel cnt ts fs)"

function Execute :: "executor_env \<Rightarrow> Expression \<Rightarrow> nat list \<Rightarrow> executor_state exec_fn"
  and Select :: "executor_env \<Rightarrow> Expression \<Rightarrow> nat list \<Rightarrow> executor_state select_fn" where
  "Execute env expr path =
     Execute_entry env expr (Execute_class env expr path
       (\<lambda>k. if k < length (kids expr) then Execute env (kids expr ! k) (k # path) else (\<lambda>_ _ _. liftW (Inl Undefined)))
       (\<lambda>k. if k < length (kids expr) then Select env (kids expr ! k) (k # path) else (\<lambda>_ _ _ _. liftW (Inl Undefined))))"
| "Select env expr path =
     Select_entry (Select_class env expr path (Execute env expr path)
       (\<lambda>k. if k < length (kids expr) then Execute env (kids expr ! k) (k # path) else (\<lambda>_ _ _. liftW (Inl Undefined)))
       (\<lambda>k. if k < length (kids expr) then Select env (kids expr ! k) (k # path) else (\<lambda>_ _ _ _. liftW (Inl Undefined))))"
  by pat_completeness auto
termination
  by (relation "measure (case_sum (\<lambda>(_, expr, _). 2 * size expr) (\<lambda>(_, expr, _). 2 * size expr + 1))")
    (auto dest!: kids_size [OF nth_mem])

declare Execute.simps [simp del] Select.simps [simp del]

section \<open>Initialising the state\<close>

lemma mapE_calls [fundef_cong]: "xs = ys \<Longrightarrow> (\<And>x. x \<in> set ys \<Longrightarrow> f x = g x) \<Longrightarrow> mapE f xs = mapE g ys"
  using mapE_cong by blast

text \<open>
  The adaptive filters and function states of the new state tree, each with its path; the order of the children
  is that of \<open>AddChild\<close>. \<open>init_error\<close>: the classes that have no state, and a CASE without the ELSE that
  \<open>InitializeState\<close> dereferences.
\<close>

definition init_error :: "Expression \<Rightarrow> error option" where
  "init_error e =
     (case e of
        BoundColumnRef _ _ _ _ \<Rightarrow> Some InternalException
      | OtherExpression _ _ _ \<Rightarrow> Some InternalException
      | BoundCase _ _ els \<Rightarrow> (if els = None then Some Undefined else None)
      | _ \<Rightarrow> None)"

datatype ExpressionState = ConjunctionState AdaptiveFilter | FunctionState ExecuteFunctionState

definition own_state :: "force_max \<Rightarrow> Expression \<Rightarrow> nat list \<Rightarrow> (nat list \<times> ExpressionState) list" where
  "own_state force_max e path =
     (case e of
        BoundConjunction _ cs \<Rightarrow> [(path, ConjunctionState (AdaptiveFilter_init (map (CanThrow force_max) cs)))]
      | BoundFunction _ _ _ \<Rightarrow> [(path, FunctionState (ExecuteFunctionState_init force_max e))]
      | BoundCast _ _ _ \<Rightarrow> [(path, FunctionState (ExecuteFunctionState_init force_max e))]
      | _ \<Rightarrow> [])"

function InitializeState :: "force_max \<Rightarrow> Expression \<Rightarrow> nat list \<Rightarrow> (nat list \<times> ExpressionState) list result" where
  "InitializeState force_max e path =
     (case init_error e of
        Some err \<Rightarrow> Inl err
      | None \<Rightarrow>
          bindE (mapE (\<lambda>k. InitializeState force_max (kids e ! k) (k # path)) [0..<length (kids e)]) (\<lambda>child_states.
            Inr (own_state force_max e path @ concat child_states)))"
  by pat_completeness auto
termination
  by (relation "measure (\<lambda>(_, e, _). size e)") (auto dest!: kids_size [OF nth_mem])

declare InitializeState.simps [simp del]

definition with_states :: "(nat list \<times> ExpressionState) list \<Rightarrow> executor_state \<Rightarrow> executor_state" where
  "with_states states w =
     w\<lparr>adaptive := (\<lambda>path. case map_of states path of Some (ConjunctionState af) \<Rightarrow> af | _ \<Rightarrow> adaptive w path),
       function_states := (\<lambda>path. case map_of states path of Some (FunctionState st) \<Rightarrow> st | _ \<Rightarrow> function_states w path)\<rparr>"

text \<open>\<open>AddExpression\<close> for each expression of an executor; expression \<open>i\<close> has the root path \<open>[i]\<close>.\<close>

definition AddExpressions :: "force_max \<Rightarrow> Expression list \<Rightarrow> (executor_state, unit) run" where
  "AddExpressions force_max exprs w =
     (case mapE (\<lambda>i. InitializeState force_max (exprs ! i) [i]) [0..<length exprs] of
        Inl e \<Rightarrow> (Inl e, w)
      | Inr states \<Rightarrow> (Inr (), with_states (concat states) w))"

section \<open>The calls of a client\<close>

text \<open>The number of rows a call works on: those of the chunk, or one if there is none.\<close>

definition chunk_rows :: "executor_env \<Rightarrow> nat" where
  "chunk_rows env = (case chunk env of None \<Rightarrow> 1 | Some (_, n) \<Rightarrow> n)"

definition ExecuteExpression :: "executor_env \<Rightarrow> Expression list \<Rightarrow> nat \<Rightarrow> Vector \<Rightarrow> (executor_state, Vector) run" where
  "ExecuteExpression env exprs i res = bindW (liftW (vec_at exprs i)) (\<lambda>expr. Execute env expr [i] None (chunk_rows env) res)"

fun execute_columns :: "executor_env \<Rightarrow> Expression list \<Rightarrow> nat list \<Rightarrow> Vector list \<Rightarrow> (executor_state, Vector list) run" where
  "execute_columns env exprs [] results = returnW results"
| "execute_columns env exprs (i # is) results =
     bindW (liftW (vec_at results i)) (\<lambda>res.
     bindW (ExecuteExpression env exprs i res) (\<lambda>v.
       execute_columns env exprs is (results[i := v])))"

text \<open>The columns of the result chunk and its cardinality.\<close>

definition Execute_chunk :: "executor_env \<Rightarrow> Expression list \<Rightarrow> Vector list \<Rightarrow> (executor_state, Vector list \<times> nat) run" where
  "Execute_chunk env exprs results =
     bindW (execute_columns env exprs [0..<length exprs] results) (\<lambda>results. returnW (results, chunk_rows env))"

definition SelectExpression :: "executor_env \<Rightarrow> Expression list \<Rightarrow> executor_state select_fn" where
  "SelectExpression env exprs current_sel current_count ts fs =
     bindW (liftW (vec_at exprs 0)) (\<lambda>expr. Select env expr [0] current_sel current_count ts fs)"

definition Vector_GetValue :: "Vector \<Rightarrow> nat \<Rightarrow> Value" where
  "Vector_GetValue v i =
     (case vec_row v i of
        None \<Rightarrow> \<lparr>value_type = GetType v, is_null = True, value_data = CInt 0\<rparr>
      | Some c \<Rightarrow> \<lparr>value_type = GetType v, is_null = False, value_data = c\<rparr>)"

text \<open>A new executor for the one expression, without a chunk; its state tree is dropped at the end.\<close>

definition EvaluateScalar :: "executor_env \<Rightarrow> force_max \<Rightarrow> Expression \<Rightarrow> (executor_state, Value) run" where
  "EvaluateScalar env force_max expr w =
     (case bindW (AddExpressions force_max [expr]) (\<lambda>_.
            bindW (ExecuteExpression (env\<lparr>chunk := None\<rparr>) [expr] 0 (new_vector env (return_type expr))) (\<lambda>res.
              returnW (Vector_GetValue res 0))) w of
        (r, w') \<Rightarrow> (r, w'\<lparr>adaptive := adaptive w, function_states := function_states w\<rparr>))"

text \<open>An internal exception is thrown again, any other gives \<open>false\<close>; undefined behaviour is not an exception.\<close>

definition TryEvaluateScalar :: "executor_env \<Rightarrow> force_max \<Rightarrow> Expression \<Rightarrow> (executor_state, Value option) run" where
  "TryEvaluateScalar env force_max expr =
     catchW (bindW (EvaluateScalar env force_max expr) (\<lambda>v. returnW (Some v)))
       (\<lambda>e. if e \<in> {InternalException, Undefined} then liftW (Inl e) else returnW None)"

end
