(* ===== verification/Executor_Rows.thy ===== *)
theory Executor_Rows
  imports Expression_Executor
begin

text \<open>
  What executing an expression tree means, row by row, and that the executor does it. \<open>out\<close> gives the outcomes
  an expression allows for a row of the chunk; the executor's result has an allowed value for every row it
  was asked for, or an error that one of these rows allows, and a filter keeps exactly rows that may pass.

  The laws of \<open>children\<close> and \<open>conjunction_node\<close> are proved for the executor itself, by induction on the tree.
\<close>

section \<open>Meaning\<close>

text \<open>
  The rows of the functions and casts, a parameter like their callbacks, and the values of the dictionaries that
  come from storage.
\<close>

record function_rows =
  fn_rows :: "Expression \<Rightarrow> cell option list \<Rightarrow> outcome set"
  cast_rows :: "Expression \<Rightarrow> cell option \<Rightarrow> outcome set"
  dict_values :: dictionaries

definition value_row :: "Value \<Rightarrow> cell option" where
  "value_row v = (if is_null v then None else Some (value_data v))"

fun compare_out :: "ExpressionType \<Rightarrow> cell option list \<Rightarrow> outcome set" where
  "compare_out et [x, y] = {Inr (map_option bool_cell (sql_compare et x y))}"
| "compare_out et _ = {}"

fun between_out :: "bool \<Rightarrow> bool \<Rightarrow> cell option list \<Rightarrow> outcome set" where
  "between_out li ui [x, l, u] = {Inr (map_option CInt (sql_between li ui x l u))}"
| "between_out li ui _ = {}"

definition operator_out :: "ExpressionType \<Rightarrow> nat \<Rightarrow> (nat \<Rightarrow> nat \<Rightarrow> outcome set) \<Rightarrow> nat \<Rightarrow> outcome set" where
  "operator_out et n oc x =
     (if et = ET_COMPARE_IN \<or> et = ET_COMPARE_NOT_IN then strict_out (in_rows (et = ET_COMPARE_NOT_IN)) (map (\<lambda>k. oc k x) [0..<n])
      else if et = ET_OPERATOR_COALESCE then coalesce_out oc [0..<n] x
      else if et = ET_OPERATOR_TRY then try_out (oc 0 x)
      else strict_out (unary_rows et) [oc 0 x])"

definition node_out :: "executor_env \<Rightarrow> function_rows \<Rightarrow> Expression \<Rightarrow> (nat \<Rightarrow> nat \<Rightarrow> outcome set) \<Rightarrow> nat \<Rightarrow> outcome set" where
  "node_out env fr e oc x =
     (let all = map (\<lambda>k. oc k x) [0..<length (kids e)] in
      case e of
        BoundReference _ i \<Rightarrow> (case chunk env of None \<Rightarrow> {} | Some (columns, _) \<Rightarrow> {Inr (vec_row (columns ! unat i) x)})
      | BoundConstant v \<Rightarrow> {Inr (value_row v)}
      | BoundParameter _ v \<Rightarrow> {Inr (value_row v)}
      | BoundComparison et _ _ \<Rightarrow> strict_out (compare_out et) all
      | BoundConjunction et _ \<Rightarrow> conj_out (et = ET_CONJUNCTION_AND) all
      | BoundOperator et _ cs \<Rightarrow> operator_out et (length cs) oc x
      | BoundFunction _ _ _ \<Rightarrow> strict_out (fn_rows fr e) all
      | BoundCast _ _ _ \<Rightarrow> strict_out (\<lambda>ys. cast_rows fr e (ys ! 0)) all
      | BoundCase _ checks _ \<Rightarrow> case_out oc (2 * length checks) [0..<length checks] x
      | BoundBetween li ui _ _ _ \<Rightarrow> strict_out (between_out li ui) all
      | _ \<Rightarrow> {})"

function out :: "executor_env \<Rightarrow> function_rows \<Rightarrow> Expression \<Rightarrow> nat \<Rightarrow> outcome set" where
  "out env fr e = node_out env fr e (\<lambda>k. if k < length (kids e) then out env fr (kids e ! k) else (\<lambda>_. {}))"
  by pat_completeness auto
termination
  by (relation "measure (\<lambda>(_, _, e). size e)") (auto dest!: kids_size [OF nth_mem])

declare out.simps [simp del]

section \<open>Trees that can be executed\<close>

definition roomy :: "Expression \<Rightarrow> bool" where
  "roomy e \<longleftrightarrow> (case e of BoundCase _ _ _ \<Rightarrow> True | BoundOperator et _ _ \<Rightarrow> et = ET_OPERATOR_COALESCE | _ \<Rightarrow> False)"

function dense :: "Expression \<Rightarrow> bool" where
  "dense e \<longleftrightarrow> (case e of BoundOperator et _ _ \<Rightarrow> et = ET_OPERATOR_TRY | _ \<Rightarrow> False) \<or> (\<exists>c \<in> set (kids e). dense c)"
  by pat_completeness auto
termination
  by (relation "measure size") (auto dest!: kids_size)

declare dense.simps [simp del]

text \<open>What is assumed of a callback: it works row by row.\<close>

definition callback_ok :: "executor_env \<Rightarrow> function_rows \<Rightarrow> Expression \<Rightarrow> bool" where
  "callback_ok env fr e \<longleftrightarrow>
     (\<forall>k args n res.
        0 < n \<longrightarrow> n \<le> STANDARD_VECTOR_SIZE \<longrightarrow> list_all2 (\<lambda>c v. GetType v = return_type c \<and> vec_ok n v) (kids e) args \<longrightarrow>
        fresh_vec n res \<longrightarrow> GetType res = return_type e \<longrightarrow>
        evals (return_type e) (\<lambda>i. fn_rows fr e (map (\<lambda>v. vec_row v i) args)) [0..<n] (callback env e k args n res))"

definition cast_ok :: "executor_env \<Rightarrow> function_rows \<Rightarrow> Expression \<Rightarrow> bool" where
  "cast_ok env fr e \<longleftrightarrow>
     (\<forall>k v n res.
        0 < n \<longrightarrow> n \<le> STANDARD_VECTOR_SIZE \<longrightarrow> GetType v = kid_type e 0 \<longrightarrow> vec_ok n v \<longrightarrow>
        fresh_vec n res \<longrightarrow> GetType res = return_type e \<longrightarrow>
        evals (return_type e) (\<lambda>i. cast_rows fr e (vec_row v i)) [0..<n] (cast_function env e k v n res))"

text \<open>
  What the optimisation for dictionaries relies on: a function that declares that it does not throw does not, the
  constant arguments have been folded to literals, and an identifier names one dictionary.
\<close>

definition function_typed :: "executor_env \<Rightarrow> function_rows \<Rightarrow> Expression \<Rightarrow> ScalarFunction \<Rightarrow> Expression list \<Rightarrow> bool" where
  "function_typed env fr e f cs \<longleftrightarrow>
     (\<not> fn_can_throw f \<longrightarrow> (\<forall>ys err. Inl err \<notin> fn_rows fr e ys)) \<and>
     (\<forall>col. find_input_col cs 0 None = Some col \<longrightarrow> (\<forall>k < length cs. k \<noteq> col \<longrightarrow> (\<exists>v. cs ! k = BoundConstant v))) \<and>
     (\<forall>k v. tag_ok (dict_values fr) (dictionary_tag env k) v)"

text \<open>
  The types the binder gives a node, over scalar types, and where a TRY may stand: not below a node that
  executes its children under a selection of its own, and above neither a TRY nor directly a CASE or COALESCE.
\<close>

definition operator_typed :: "ExpressionType \<Rightarrow> LogicalType \<Rightarrow> Expression list \<Rightarrow> bool" where
  "operator_typed et t cs \<longleftrightarrow>
     (if et = ET_COMPARE_IN \<or> et = ET_COMPARE_NOT_IN then
        t = BOOLEAN \<and> 2 \<le> length cs \<and> loop_type (InternalType (return_type (cs ! 0))) \<and> (\<forall>c \<in> set cs. return_type c = return_type (cs ! 0))
      else if et = ET_OPERATOR_COALESCE then \<forall>c \<in> set cs. return_type c = t \<and> \<not> dense c
      else if et = ET_OPERATOR_TRY then length cs = 1 \<and> return_type (cs ! 0) = t \<and> \<not> dense (cs ! 0) \<and> \<not> roomy (cs ! 0)
      else et \<in> set unary_types \<and> t = BOOLEAN \<and> length cs = 1)"

definition node_typed :: "executor_env \<Rightarrow> function_rows \<Rightarrow> Expression \<Rightarrow> bool" where
  "node_typed env fr e \<longleftrightarrow>
     scalar_type (return_type e) \<and>
     (case e of
        BoundReference t i \<Rightarrow>
          (case chunk env of None \<Rightarrow> False | Some (columns, _) \<Rightarrow> unat i < length columns \<and> GetType (columns ! unat i) = t)
      | BoundConstant v \<Rightarrow> True
      | BoundParameter t v \<Rightarrow> value_type v = t
      | BoundComparison et l r \<Rightarrow> et \<in> set comparison_types \<and> return_type l = return_type r \<and> loop_type (phys l)
      | BoundConjunction et cs \<Rightarrow>
          et \<in> {ET_CONJUNCTION_AND, ET_CONJUNCTION_OR} \<and> cs \<noteq> [] \<and> 100 * (length cs - 1) < 2 ^ 32 \<and>
          (\<forall>c \<in> set cs. return_type c = BOOLEAN \<and> \<not> dense c)
      | BoundOperator et t cs \<Rightarrow> operator_typed et t cs
      | BoundFunction t f cs \<Rightarrow> callback_ok env fr e \<and> function_typed env fr e f cs
      | BoundCast t try_cast c \<Rightarrow> cast_ok env fr e
      | BoundCase t checks els \<Rightarrow>
          (case els of None \<Rightarrow> False | Some c \<Rightarrow> return_type c = t \<and> \<not> dense c) \<and>
          (\<forall>(w, c) \<in> set checks. return_type w = BOOLEAN \<and> return_type c = t \<and> \<not> dense w \<and> \<not> dense c)
      | BoundBetween li ui i l u \<Rightarrow> return_type l = return_type i \<and> return_type u = return_type i \<and> loop_type (phys i)
      | _ \<Rightarrow> False)"

function typed :: "executor_env \<Rightarrow> function_rows \<Rightarrow> Expression \<Rightarrow> bool" where
  "typed env fr e \<longleftrightarrow> node_typed env fr e \<and> (\<forall>c \<in> set (kids e). typed env fr c)"
  by pat_completeness auto
termination
  by (relation "measure (\<lambda>(_, _, e). size e)") (auto dest!: kids_size)

declare typed.simps [simp del]

definition env_ok :: "executor_env \<Rightarrow> bool" where
  "env_ok env \<longleftrightarrow>
     env_wf env \<and> (case chunk env of None \<Rightarrow> True | Some (columns, n) \<Rightarrow> \<forall>v \<in> set columns. vec_ok n v) \<and>
     (\<forall>k. unat (random_bits env k) < 2 ^ 64 - 1024)"

section \<open>The state\<close>

text \<open>The nodes of a tree with the paths of their states.\<close>

function nodes :: "Expression \<Rightarrow> nat list \<Rightarrow> (nat list \<times> Expression) set" where
  "nodes e path = insert (path, e) (\<Union>k \<in> {..<length (kids e)}. nodes (kids e ! k) (k # path))"
  by pat_completeness auto
termination
  by (relation "measure (\<lambda>(e, _). size e)") (auto dest!: kids_size [OF nth_mem])

declare nodes.simps [simp del]

lemma nodes_self: "(path, e) \<in> nodes e path"
  unfolding nodes.simps [of e path] by simp

lemma kids_paths: "k < length (kids e) \<Longrightarrow> nodes (kids e ! k) (k # path) \<subseteq> nodes e path"
  unfolding nodes.simps [of e path] by auto

text \<open>
  The JIT is off, as it is by default; every conjunction has an adaptive filter of its arity, and what a function
  has kept of a dictionary is right.
\<close>

definition filter_ready :: "Expression \<Rightarrow> AdaptiveFilter \<Rightarrow> bool" where
  "filter_ready e af \<longleftrightarrow> (case e of BoundConjunction _ cs \<Rightarrow> filter_ok (length cs) af | _ \<Rightarrow> True)"

definition literal :: "Expression \<Rightarrow> cell option" where
  "literal c = (case c of BoundConstant v \<Rightarrow> value_row v | _ \<Rightarrow> None)"

abbreviation column_rows :: "function_rows \<Rightarrow> Expression \<Rightarrow> nat \<Rightarrow> cell option \<Rightarrow> outcome set" where
  "column_rows fr e col y \<equiv> fn_rows fr e ((map literal (kids e))[col := y])"

definition function_ready :: "function_rows \<Rightarrow> Expression \<Rightarrow> ExecuteFunctionState \<Rightarrow> bool" where
  "function_ready fr e st \<longleftrightarrow>
     (case e of
        BoundFunction t f cs \<Rightarrow>
          \<forall>col. input_col_idx st = Some col \<longrightarrow>
            find_input_col cs 0 None = Some col \<and> \<not> fn_can_throw f \<and> cache_ok t (column_rows fr e col) (dict_values fr) st
      | _ \<Rightarrow> True)"

definition ready :: "function_rows \<Rightarrow> (nat list \<times> Expression) set \<Rightarrow> executor_state \<Rightarrow> bool" where
  "ready fr C w \<longleftrightarrow>
     \<not> enable_jit (dispatcher (jit w)) \<and> single_valued C \<and>
     (\<forall>(path, e) \<in> C. filter_ready e (adaptive w path) \<and> function_ready fr e (function_states w path))"

lemma ready_tick [simp]: "ready fr C (w\<lparr>tick := k\<rparr>) = ready fr C w"
  by (simp add: ready_def)

lemma ready_put:
  assumes "ready fr C w" and "(path, e) \<in> C" and "filter_ready e af"
  shows "ready fr C (w\<lparr>adaptive := (adaptive w)(path := af)\<rparr>)"
proof -
  have same: "c = e" if "(path, c) \<in> C" for c using assms(1,2) that by (auto simp: ready_def dest: single_valuedD)
  have "filter_ready c (((adaptive w)(path := af)) q)" if "(q, c) \<in> C" for q c
    using assms(1,3) that same [of c] by (cases "q = path") (auto simp: ready_def)
  with assms(1) show ?thesis by (auto simp: ready_def)
qed

text \<open>A state that is ready but for what the function at \<open>path\<close> has kept.\<close>

definition ready_but :: "function_rows \<Rightarrow> (nat list \<times> Expression) set \<Rightarrow> nat list \<Rightarrow> executor_state \<Rightarrow> bool" where
  "ready_but fr C path w \<longleftrightarrow> (\<exists>st. ready fr C (put_function path st w))"

lemma ready_but_ready: "ready fr C w \<Longrightarrow> ready_but fr C path w"
  unfolding ready_but_def by (rule exI [of _ "function_states w path"]) simp

lemma ready_but_put: "ready_but fr C path (put_function path st w) = ready_but fr C path w"
  by (simp add: ready_but_def)

lemma ready_but_tick [simp]: "ready_but fr C path (w\<lparr>tick := k\<rparr>) = ready_but fr C path w"
proof -
  have "put_function path st (w\<lparr>tick := k\<rparr>) = (put_function path st w)\<lparr>tick := k\<rparr>" for st by simp
  then show ?thesis unfolding ready_but_def by (simp only: ready_tick)
qed

lemma ready_but_restore:
  assumes "ready_but fr C path w" and "(path, e) \<in> C" and "function_ready fr e (function_states w path)"
  shows "ready fr C w"
proof -
  obtain st where st: "ready fr C (put_function path st w)" using assms(1) by (auto simp: ready_but_def)
  have same: "c = e" if "(path, c) \<in> C" for c using st assms(2) that by (auto simp: ready_def dest: single_valuedD)
  have "function_ready fr c (function_states w q)" if "(q, c) \<in> C" for q c
    using st assms(3) that same [of c] by (cases "q = path") (auto simp: ready_def)
  with st show ?thesis by (auto simp: ready_def)
qed

text \<open>\<open>ResetDictionaryStates\<close> clears what functions have kept, or leaves it.\<close>

lemma clear_twice [simp]: "clear_dictionary (clear_dictionary st) = clear_dictionary st"
  by (simp add: clear_dictionary_def)

lemma reset_states_cases: "reset_states e path fs q = fs q \<or> reset_states e path fs q = clear_dictionary (fs q)"
proof (induction e arbitrary: path fs rule: measure_induct_rule [of size])
  case (less e)
  let ?fs = "case e of BoundFunction _ _ _ \<Rightarrow> fs(path := clear_dictionary (fs path)) | BoundCast _ _ _ \<Rightarrow> fs(path := clear_dictionary (fs path)) | _ \<Rightarrow> fs"
  have "fold (\<lambda>k. reset_states (kids e ! k) (k # path)) ks gs q \<in> {gs q, clear_dictionary (gs q)}" if "set ks \<subseteq> {..<length (kids e)}" for ks gs
    using that
  proof (induction ks arbitrary: gs)
    case (Cons k ks)
    then have "reset_states (kids e ! k) (k # path) gs q \<in> {gs q, clear_dictionary (gs q)}"
      using less.IH [of "kids e ! k" "k # path" gs] kids_size [OF nth_mem [of k "kids e"]] by auto
    with Cons.IH [of "reset_states (kids e ! k) (k # path) gs"] Cons.prems show ?case by auto
  qed simp
  from this [of "[0..<length (kids e)]" ?fs] have "reset_states e path fs q \<in> {?fs q, clear_dictionary (?fs q)}"
    unfolding reset_states.simps [of e path fs] by (simp add: atLeast0LessThan)
  moreover have "?fs q \<in> {fs q, clear_dictionary (fs q)}" by (cases e) auto
  ultimately show ?case by auto
qed

lemma function_ready_clear: "function_ready fr e st \<Longrightarrow> function_ready fr e (clear_dictionary st)"
  by (cases e) (auto simp: function_ready_def, simp_all add: clear_dictionary_def)

lemma function_ready_reset: "function_ready fr c (fs q) \<Longrightarrow> function_ready fr c (reset_states e path fs q)"
  using reset_states_cases [of e path fs q] function_ready_clear [of fr c "fs q"] by auto

lemma reset_yields: "yields (ready fr C) (\<lambda>r. r = Inr ()) (ResetDictionaryStates e path)"
  unfolding yields_def ResetDictionaryStates_def
proof (intro allI impI, simp)
  fix w assume "ready fr C w"
  then show "ready fr C (w\<lparr>function_states := reset_states e path (function_states w)\<rparr>)"
    using function_ready_reset unfolding ready_def by fastforce
qed

lemma ticks_yields: "yields (ready fr C) (\<lambda>r. \<exists>k. r = Inr k) ticks"
  by (simp add: yields_def ticks_def)

lemma record_yields: "yields (ready fr C) (\<lambda>r. r = Inr ()) (record_execution env e n)"
  unfolding record_execution_def by (rule yields_bind [OF ticks_yields]) (auto simp: yields_def ready_def)

lemma jit_attempt_yields: "yields (ready fr C) (\<lambda>r. r = Inr (False, res)) (jit_attempt env e b n res)"
  by (auto simp: yields_def jit_attempt_def ready_def split: option.splits)

lemma clock_yields:
  "env_ok env \<Longrightarrow> yields (ready fr C) (\<lambda>r. \<exists>bits d. r = Inr (bits, d) \<and> unat bits < 2 ^ 64 - 1024) (filter_clock env)"
  unfolding filter_clock_def by (rule yields_bind [OF ticks_yields]) (auto simp: env_ok_def intro!: yields_return)

section \<open>The contract of a node\<close>

definition kid_exec :: "executor_env \<Rightarrow> Expression \<Rightarrow> nat list \<Rightarrow> nat \<Rightarrow> executor_state exec_fn" where
  "kid_exec env e path k = (if k < length (kids e) then Execute env (kids e ! k) (k # path) else (\<lambda>_ _ _. liftW (Inl Undefined)))"

definition kid_select :: "executor_env \<Rightarrow> Expression \<Rightarrow> nat list \<Rightarrow> nat \<Rightarrow> executor_state select_fn" where
  "kid_select env e path k = (if k < length (kids e) then Select env (kids e ! k) (k # path) else (\<lambda>_ _ _ _. liftW (Inl Undefined)))"

definition kid_out :: "executor_env \<Rightarrow> function_rows \<Rightarrow> Expression \<Rightarrow> nat \<Rightarrow> nat \<Rightarrow> outcome set" where
  "kid_out env fr e k = (if k < length (kids e) then out env fr (kids e ! k) else (\<lambda>_. {}))"

lemma Execute_unfold: "Execute env e path = Execute_entry env e (Execute_class env e path (kid_exec env e path) (kid_select env e path))"
  unfolding Execute.simps [of env e path] kid_exec_def [abs_def] kid_select_def [abs_def] ..

lemma Select_unfold:
  "Select env e path = Select_entry (Select_class env e path (Execute env e path) (kid_exec env e path) (kid_select env e path))"
  unfolding Select.simps [of env e path] kid_exec_def [abs_def] kid_select_def [abs_def] ..

lemma out_unfold: "out env fr e = node_out env fr e (kid_out env fr e)"
  unfolding out.simps [of env fr e] kid_out_def [abs_def] ..

abbreviation kids_ok ::
    "(nat list \<times> Expression) set \<Rightarrow> executor_env \<Rightarrow> function_rows \<Rightarrow> Expression \<Rightarrow> (nat \<Rightarrow> executor_state exec_fn) \<Rightarrow> (nat \<Rightarrow> executor_state select_fn) \<Rightarrow> bool" where
  "kids_ok C env fr e run_kid filter_kid \<equiv>
     children run_kid filter_kid (ready fr C) (length (kids e)) (kid_type e) (kid_out env fr e) (chunk_rows env)
       (\<lambda>k. roomy (kids e ! k)) (\<lambda>k. dense (kids e ! k))"

definition exec_pre :: "executor_env \<Rightarrow> Expression \<Rightarrow> SelectionVector \<Rightarrow> nat \<Rightarrow> Vector \<Rightarrow> bool" where
  "exec_pre env e sel n res \<longleftrightarrow>
     sel_fits sel n \<and> rows_ok (chunk_rows env) (sel_rows sel n) \<and> (dense e \<longrightarrow> sel = None) \<and> GetType res = return_type e \<and>
     fresh_vec n res \<and> (roomy e \<longrightarrow> fresh_vec STANDARD_VECTOR_SIZE res)"

definition select_pre :: "executor_env \<Rightarrow> Expression \<Rightarrow> selref \<Rightarrow> nat \<Rightarrow> SelectionVector option \<Rightarrow> SelectionVector option \<Rightarrow> bool" where
  "select_pre env e ref n ts fs \<longleftrightarrow>
     return_type e = BOOLEAN \<and> rows_ok (chunk_rows env) (ref_rows ref ts fs n) \<and> (dense e \<longrightarrow> ref = SelFixed None) \<and>
     select_ready n ref ts fs \<and> ts \<noteq> None \<and> sel_fits (ref_sel ref ts fs) n"

lemma exec_preD:
  assumes "exec_pre env e sel n res"
  shows "sel_fits sel n" "rows_ok (chunk_rows env) (sel_rows sel n)" "GetType res = return_type e" "fresh_vec n res"
    "0 < n" "n \<le> STANDARD_VECTOR_SIZE" "dense e \<longrightarrow> sel = None" "roomy e \<longrightarrow> blank (return_type e) res"
  using assms rows_ok_length [of "chunk_rows env" "sel_rows sel n"] by (auto simp: exec_pre_def)

lemma dense_kid: "k < length (kids e) \<Longrightarrow> dense (kids e ! k) \<Longrightarrow> dense e"
  unfolding dense.simps [of e] by (auto intro: nth_mem)

text \<open>The children of a node that evaluates all of them.\<close>

lemma strict_kids:
  assumes "dense e \<longrightarrow> sel = None" and "\<forall>c \<in> set (kids e). typed env fr c"
  shows "\<forall>k \<in> set [0..<length (kids e)]. k < length (kids e) \<and> scalar_type (kid_type e k) \<and> (dense (kids e ! k) \<longrightarrow> sel = None)"
proof -
  have "scalar_type (return_type c)" if "c \<in> set (kids e)" for c
    using bspec [OF assms(2) that] unfolding typed.simps [of env fr c] node_typed_def by blast
  then show ?thesis using dense_kid [of _ e] assms(1) by (auto intro: nth_mem)
qed

section \<open>Leaves\<close>

lemma vec_ok_less: "vec_ok m v \<Longrightarrow> n \<le> m \<Longrightarrow> vec_ok n v"
  by (cases v rule: vec_ok_cases [of m]) auto

lemma GetType_Slice_sel: "GetType (Slice_sel sel n v) = GetType v"
  by (auto simp: Slice_sel_def split: Vector.splits)

lemma with_own_type: "with_type (GetType v) v = v"
  by (cases v) simp_all

lemma reference_yields:
  assumes "env_ok env" and "node_typed env fr (BoundReference t i)" and pre: "exec_pre env (BoundReference t i) sel n res"
  shows "yields (ready fr C) (evals t (out env fr (BoundReference t i)) (sel_rows sel n)) (Execute_Reference env i sel n res)"
proof -
  obtain columns m where chunk: "chunk env = Some (columns, m)" "unat i < length columns" "GetType (columns ! unat i) = t"
    using assms(2) by (auto simp: node_typed_def split: option.splits)
  let ?v = "columns ! unat i"
  note pre = exec_preD [OF pre]
  have v: "vec_ok m ?v" using assms(1) chunk by (auto simp: env_ok_def)
  have rows: "set (sel_rows sel n) \<subseteq> {..<m}" using pre(2) chunk(1) by (auto simp: rows_ok_def chunk_rows_def)
  have out: "out env fr (BoundReference t i) x = {Inr (vec_row ?v x)}" for x
    by (simp add: out_unfold node_out_def chunk(1))
  have ref: "Reference ?v res = Inr ?v" using pre(3) chunk(3) with_own_type [of ?v] by (simp add: Reference_def ConstReference_def)
  show ?thesis
  proof (cases sel)
    case None
    have "n \<le> m" using rows pre(5) None by (cases n) auto
    then have "vec_ok n ?v" using v by (rule vec_ok_less [rotated])
    then show ?thesis
      using ref chunk None out by (auto simp: Execute_Reference_def vec_at_def intro!: yields_lift)
  next
    case (Some xs)
    have idx: "\<forall>i < n. get_index sel i < m" using rows by (auto simp: sel_rows_def image_subset_iff)
    have fits: "case sel of None \<Rightarrow> True | Some xs \<Rightarrow> n \<le> length xs" using pre(1) by (simp add: sel_fits_def)
    have "sel_rows sel n ! j = get_index sel j" if "j < n" for j using that by (simp add: sel_rows_def)
    then have "evals t (out env fr (BoundReference t i)) (sel_rows sel n) (Slice_other ?v sel n res)"
      using Slice_sel_rows [OF v idx fits] ref chunk(3) out by (auto simp: Slice_other_def GetType_Slice_sel)
    then show ?thesis
      using chunk Some by (auto simp: Execute_Reference_def vec_at_def intro!: yields_lift)
  qed
qed

lemma Reference_Value_rows:
  assumes "scalar_type (value_type v)"
  shows "GetType (Reference_Value junk v) = value_type v" "vec_ok n (Reference_Value junk v)" "vec_row (Reference_Value junk v) i = value_row v"
  using assms by (simp_all add: Reference_Value_def Let_def value_row_def RowIsValid_Set Mask_Reset_def)

lemma constant_yields:
  assumes "scalar_type (value_type v)" and "\<And>x. x \<in> set rows \<Longrightarrow> Inr (value_row v) \<in> oc x"
  shows "yields (ready fr C) (evals (value_type v) oc rows) (Execute_Constant env v sel n res)"
  unfolding Execute_Constant_def by (rule yields_return) (use assms Reference_Value_rows [OF assms(1)] in auto)

section \<open>Nodes that need all their children\<close>

lemma strict_evals:
  assumes "list_all2 (\<lambda>k. has_rows (ty k) (oc k) rows) ks vs" and "evals t (\<lambda>i. F (map (\<lambda>v. vec_row v i) vs)) [0..<length rows] r"
  shows "evals t (\<lambda>x. strict_out F (map (\<lambda>k. oc k x) ks)) rows r"
proof (cases r)
  case (Inl e)
  then obtain i where "i < length rows" "Inl e \<in> F (map (\<lambda>v. vec_row v i) vs)" using assms(2) by auto
  with strict_row [OF assms(1), of i "Inl e" F] Inl show ?thesis by auto
next
  case (Inr v)
  with assms(2) strict_row [OF assms(1), of _ _ F] show ?thesis by auto
qed

lemma strict_node:
  assumes node: "kids_ok C env fr e run_kid filter_kid" and pre: "exec_pre env e sel n res" and kids: "\<forall>c \<in> set (kids e). typed env fr c"
    and final: "\<And>vs. list_all2 (\<lambda>k. has_rows (kid_type e k) (kid_out env fr e k) (sel_rows sel n)) [0..<length (kids e)] vs \<Longrightarrow>
      yields (ready fr C) (evals t (\<lambda>i. F (map (\<lambda>v. vec_row v i) vs)) [0..<n]) (f vs)"
  shows "yields (ready fr C) (evals t (\<lambda>x. strict_out F (map (\<lambda>k. kid_out env fr e k x) [0..<length (kids e)])) (sel_rows sel n))
    (bindW (exec_all junk (kid_type e) run_kid sel n [0..<length (kids e)]) f)"
proof (rule children.strict_yields [OF node exec_preD(1,2) [OF pre] strict_kids [OF exec_preD(7) [OF pre] kids]])
  fix vs assume vs: "list_all2 (\<lambda>k. has_rows (kid_type e k) (kid_out env fr e k) (sel_rows sel n)) [0..<length (kids e)] vs"
  show "yields (ready fr C) (evals t (\<lambda>x. strict_out F (map (\<lambda>k. kid_out env fr e k x) [0..<length (kids e)])) (sel_rows sel n)) (f vs)"
    by (rule yields_mono [OF final [OF vs]]) (rule strict_evals [OF vs], simp)
qed

text \<open>The vectors of two and three children.\<close>

lemma kid_vectors:
  assumes "list_all2 (\<lambda>k. has_rows (kid_type e k) (kid_out env fr e k) rows) [0..<length (kids e)] vs"
  shows "length vs = length (kids e)" "\<forall>k < length (kids e). GetType (vs ! k) = kid_type e k \<and> vec_ok (length rows) (vs ! k)"
  using assms by (auto simp: list_all2_conv_all_nth has_rows_def)

lemma two_vectors: "length vs = 2 \<Longrightarrow> vs = [vs ! 0, vs ! 1]"
  by (cases vs; cases "tl vs") auto

lemma three_vectors: "length vs = 3 \<Longrightarrow> vs = [vs ! 0, vs ! 1, vs ! 2]"
  by (cases vs; cases "tl vs"; cases "tl (tl vs)") auto

lemma upt_two: "[0..<length [a, b]] = [0, 1]" and upt_three: "[0..<length [a, b, c]] = [0, 1, 2]"
  by (simp_all add: numeral_2_eq_2)

lemma same_comparable:
  assumes "env_ok env" "GetType l = GetType r" "loop_type (InternalType (GetType l))" "vec_ok n l" "vec_ok n r"
  shows "comparable (same_mask env l r) n l r"
  using assms by (auto simp: comparable_def env_ok_def env_wf_def)

lemma typedD:
  assumes "typed env fr e"
  shows "node_typed env fr e" "\<forall>c \<in> set (kids e). typed env fr c" "scalar_type (return_type e)"
  using assms unfolding typed.simps [of env fr e] node_typed_def by auto

lemma comparison_kids:
  assumes "env_ok env" and e: "e = BoundComparison et l r" and "node_typed env fr e"
    and vs: "list_all2 (\<lambda>k. has_rows (kid_type e k) (kid_out env fr e k) rows) [0..<length (kids e)] vs"
  shows "vs = [vs ! 0, vs ! 1]" "comparable (same_mask env (vs ! 0) (vs ! 1)) (length rows) (vs ! 0) (vs ! 1)" "et \<in> set comparison_types"
proof -
  have t: "return_type l = return_type r" "loop_type (phys l)" using assms(3) by (auto simp: node_typed_def e)
  note v = kid_vectors [OF vs]
  show "vs = [vs ! 0, vs ! 1]" using v(1) e by (intro two_vectors) simp
  show "comparable (same_mask env (vs ! 0) (vs ! 1)) (length rows) (vs ! 0) (vs ! 1)"
    using v(2) [rule_format, of 0] v(2) [rule_format, of 1] t e by (intro same_comparable assms(1)) auto
qed (use assms(3) in \<open>auto simp: node_typed_def e\<close>)

lemma comparison_yields:
  assumes node: "kids_ok C env fr e run_kid filter_kid" and e: "e = BoundComparison et l r" and env: "env_ok env" and typed: "typed env fr e"
    and pre: "exec_pre env e sel n res"
  shows "yields (ready fr C) (evals BOOLEAN (out env fr e) (sel_rows sel n)) (Execute_Comparison_node env e et run_kid sel n res)"
proof -
  note typed' = typedD [OF typed]
  have two: "[0..<length (kids e)] = [0, 1]" unfolding e kids.simps by (rule upt_two)
  have out: "out env fr e = (\<lambda>x. strict_out (compare_out et) (map (\<lambda>k. kid_out env fr e k x) [0..<length (kids e)]))"
    unfolding out_unfold [of env fr e] by (simp add: node_out_def e fun_eq_iff)
  have "yields (ready fr C) (evals BOOLEAN (out env fr e) (sel_rows sel n))
      (bindW (exec_all (vjunk env) (kid_type e) run_kid sel n [0..<length (kids e)]) (\<lambda>vs.
        liftW (Execute_Comparison (nested_cmp env) (same_mask env (vs ! 0) (vs ! 1)) (vjunk env) et (vs ! 0) (vs ! 1) n res)))"
    unfolding out
  proof (rule strict_node [OF node pre typed'(2)], rule yields_lift)
    fix vs assume vs: "list_all2 (\<lambda>k. has_rows (kid_type e k) (kid_out env fr e k) (sel_rows sel n)) [0..<length (kids e)] vs"
    note c = comparison_kids [OF env e typed'(1) vs]
    have n: "length (sel_rows sel n) = n" by simp
    obtain w where w: "Execute_Comparison (nested_cmp env) (same_mask env (vs ! 0) (vs ! 1)) (vjunk env) et (vs ! 0) (vs ! 1) n res = Inr w"
      "GetType w = GetType res" "vec_ok n w" "\<forall>i < n. vec_row w i = sql_row et (vs ! 0) (vs ! 1) i"
      using executes_total [OF Execute_Comparison_rows [OF c(3) c(2) [unfolded n] exec_preD(4,5) [OF pre]]] by blast
    have "Inr (vec_row w i) \<in> compare_out et (map (\<lambda>v. vec_row v i) vs)" if "i < n" for i
      using w(4) that by (subst c(1)) simp
    with w(1-3) exec_preD(3) [OF pre] show "evals BOOLEAN (\<lambda>i. compare_out et (map (\<lambda>v. vec_row v i) vs)) [0..<n]
        (Execute_Comparison (nested_cmp env) (same_mask env (vs ! 0) (vs ! 1)) (vjunk env) et (vs ! 0) (vs ! 1) n res)"
      by (simp add: e)
  qed
  then show ?thesis by (simp add: Execute_Comparison_node_def two Let_def)
qed

lemma between_kids:
  assumes "env_ok env" and e: "e = BoundBetween li ui i l u" and "node_typed env fr e"
    and vs: "list_all2 (\<lambda>k. has_rows (kid_type e k) (kid_out env fr e k) rows) [0..<length (kids e)] vs"
  shows "vs = [vs ! 0, vs ! 1, vs ! 2]" "comparable (same_mask env (vs ! 0) (vs ! 1)) (length rows) (vs ! 0) (vs ! 1)"
    "comparable (same_mask env (vs ! 0) (vs ! 2)) (length rows) (vs ! 0) (vs ! 2)"
proof -
  have t: "return_type l = return_type i" "return_type u = return_type i" "loop_type (phys i)" using assms(3) by (auto simp: node_typed_def e)
  note v = kid_vectors [OF vs]
  show "vs = [vs ! 0, vs ! 1, vs ! 2]" using v(1) e by (intro three_vectors) simp
  show "comparable (same_mask env (vs ! 0) (vs ! 1)) (length rows) (vs ! 0) (vs ! 1)"
    "comparable (same_mask env (vs ! 0) (vs ! 2)) (length rows) (vs ! 0) (vs ! 2)"
    using v(2) [rule_format, of 0] v(2) [rule_format, of 1] v(2) [rule_format, of 2] t e
    by (auto intro!: same_comparable assms(1))
qed

lemma between_yields:
  assumes node: "kids_ok C env fr e run_kid filter_kid" and e: "e = BoundBetween li ui i l u" and env: "env_ok env" and typed: "typed env fr e"
    and pre: "exec_pre env e sel n res"
  shows "yields (ready fr C) (evals BOOLEAN (out env fr e) (sel_rows sel n)) (Execute_Between_node env e li ui run_kid sel n res)"
proof -
  note typed' = typedD [OF typed]
  have three: "[0..<length (kids e)] = [0, 1, 2]" unfolding e kids.simps by (rule upt_three)
  have out: "out env fr e = (\<lambda>x. strict_out (between_out li ui) (map (\<lambda>k. kid_out env fr e k x) [0..<length (kids e)]))"
    unfolding out_unfold [of env fr e] by (simp add: node_out_def e fun_eq_iff)
  let ?run = "\<lambda>vs. Execute_Between (nested_cmp env) (same_mask env (vs ! 0) (vs ! 1)) (same_mask env (vs ! 0) (vs ! 2)) (vjunk env)
    li ui (vs ! 0) (vs ! 1) (vs ! 2) n res"
  have "yields (ready fr C) (evals BOOLEAN (out env fr e) (sel_rows sel n))
      (bindW (exec_all (vjunk env) (kid_type e) run_kid sel n [0..<length (kids e)]) (\<lambda>vs. liftW (?run vs)))"
    unfolding out
  proof (rule strict_node [OF node pre typed'(2)], rule yields_lift)
    fix vs assume vs: "list_all2 (\<lambda>k. has_rows (kid_type e k) (kid_out env fr e k) (sel_rows sel n)) [0..<length (kids e)] vs"
    note c = between_kids [OF env e typed'(1) vs]
    have n: "length (sel_rows sel n) = n" by simp
    obtain w where w: "?run vs = Inr w" "GetType w = GetType res" "vec_ok n w"
      "\<forall>i < n. vec_row w i = map_option CInt (sql_between li ui (vec_row (vs ! 0) i) (vec_row (vs ! 1) i) (vec_row (vs ! 2) i))"
      using Execute_Between_rows [OF c(2,3) [unfolded n] exec_preD(4,5,6) [OF pre]] by blast
    have "Inr (vec_row w i) \<in> between_out li ui (map (\<lambda>v. vec_row v i) vs)" if "i < n" for i
      using w(4) that by (subst c(1)) simp
    with w(1-3) exec_preD(3) [OF pre] show "evals BOOLEAN (\<lambda>i. between_out li ui (map (\<lambda>v. vec_row v i) vs)) [0..<n] (?run vs)"
      by (simp add: e)
  qed
  then show ?thesis by (simp add: Execute_Between_node_def three Let_def)
qed

lemma strict_error:
  assumes "all_evals ty oc rows ks (Inl e)"
  shows "\<exists>x \<in> set rows. Inl e \<in> strict_out F (map (\<lambda>k. oc k x) ks)"
proof -
  obtain x k where x: "x \<in> set rows" "k \<in> set ks" "Inl e \<in> oc k x" using assms by (auto simp: all_evals_def)
  have "oc k x \<in> set (map (\<lambda>k. oc k x) ks)" using x(2) by simp
  from strict_out_error [OF this x(3)] x(1) show ?thesis by blast
qed

text \<open>
  Functions. The callback may read the outside world, so the clock ticks; it does not touch the state of the node.
\<close>

lemma tick_yields:
  assumes "\<And>k. Q (f k)"
  shows "yields (ready fr C) Q (bindW ticks (\<lambda>k. liftW (f k)))"
  by (rule yields_bind [OF ticks_yields]) (auto intro!: yields_lift assms)

lemma callback_evals:
  assumes "callback_ok env fr e" and "0 < n" "n \<le> STANDARD_VECTOR_SIZE" "list_all2 (\<lambda>ty v. GetType v = ty \<and> vec_ok n v) (map return_type (kids e)) vs"
    and "fresh_vec n res" "GetType res = return_type e"
  shows "evals (return_type e) (\<lambda>i. fn_rows fr e (map (\<lambda>v. vec_row v i) vs)) [0..<n] (callback env e k vs n res)"
  using assms unfolding callback_ok_def by (simp add: list_all2_map1)

lemma executor_function_call:
  assumes "\<And>w k. I w \<Longrightarrow> I (w\<lparr>tick := k\<rparr>)" and "\<And>w st. I w \<Longrightarrow> I (put_function path st w)"
  shows "function_call (function_callback env e) I (if callback_ok env fr e then STANDARD_VECTOR_SIZE else 0) (map return_type (kids e)) (return_type e)
    (fn_rows fr e) (\<lambda>w. function_states w path) (put_function path)"
proof unfold_locales
  fix n vs res
  assume n: "0 < n" "n \<le> (if callback_ok env fr e then STANDARD_VECTOR_SIZE else 0)"
    and vs: "list_all2 (\<lambda>ty v. GetType v = ty \<and> vec_ok n v) (map return_type (kids e)) vs" "fresh_vec n res" "GetType res = return_type e"
  then have "evals (return_type e) (\<lambda>i. fn_rows fr e (map (\<lambda>v. vec_row v i) vs)) [0..<n] (callback env e k vs n res)" for k
    by (intro callback_evals) (auto split: if_splits)
  then show "yields I (evals (return_type e) (\<lambda>i. fn_rows fr e (map (\<lambda>v. vec_row v i) vs)) [0..<n]) (function_callback env e vs n res)"
    using assms(1) by (auto simp: yields_def function_callback_def bindW_def ticks_def liftW_def)
qed (use assms(2) in \<open>auto simp: function_callback_def bindW_def ticks_def liftW_def split: sum.splits prod.splits\<close>)

interpretation executor_function: function_call "function_callback env e" "ready_but fr C path"
  "if callback_ok env fr e then STANDARD_VECTOR_SIZE else 0" "map return_type (kids e)" "return_type e" "fn_rows fr e"
  "\<lambda>w. function_states w path" "put_function path" for env e fr C path
  by (rule executor_function_call) (simp_all only: ready_but_put ready_but_tick)

interpretation any_state_function: function_call "function_callback env e" "\<lambda>_. True"
  "if callback_ok env fr e then STANDARD_VECTOR_SIZE else 0" "map return_type (kids e)" "return_type e" "fn_rows fr e"
  "\<lambda>w. function_states w path" "put_function path" for env e fr path
  by (rule executor_function_call) simp_all

text \<open>The one argument that may be a dictionary is an argument.\<close>

lemma find_input_col_less: "find_input_col cs i acc = Some col \<Longrightarrow> acc = Some col \<or> i \<le> col \<and> col < i + length cs"
  by (induction cs i acc rule: find_input_col.induct) (auto split: if_splits)

text \<open>The literals among the children are constant vectors.\<close>

abbreviation literal_kids ::
    "function_rows \<Rightarrow> (nat list \<times> Expression) set \<Rightarrow> executor_env \<Rightarrow> Expression \<Rightarrow> (nat \<Rightarrow> executor_state exec_fn) \<Rightarrow> bool" where
  "literal_kids fr C env e run_kid \<equiv>
     (\<forall>k v sel n res. k < length (kids e) \<longrightarrow> kids e ! k = BoundConstant v \<longrightarrow> 0 < n \<longrightarrow> GetType res = value_type v \<longrightarrow>
        yields (ready fr C) (\<lambda>r. r = Inr (Reference_Value (vjunk env) v)) (run_kid k sel n res))"

lemma kid_exec_literal: "literal_kids fr C env e (kid_exec env e path)"
proof (intro allI impI)
  fix k n :: nat and v :: Value and sel :: SelectionVector and res :: Vector
  assume "k < length (kids e)" "kids e ! k = BoundConstant v" "0 < n" "GetType res = value_type v"
  then show "yields (ready fr C) (\<lambda>r. r = Inr (Reference_Value (vjunk env) v)) (kid_exec env e path k sel n res)"
    by (auto simp: kid_exec_def Execute_unfold Execute_entry_def Execute_class_def Execute_Constant_def
        intro!: yields_bind [OF record_yields] yields_return)
qed

lemma yields_both: "yields I Q m \<Longrightarrow> yields I R m \<Longrightarrow> yields I (\<lambda>r. Q r \<and> R r) m"
  by (simp add: yields_def)

lemma exec_all_each:
  assumes "\<And>k. k \<in> set ks \<Longrightarrow> yields I (Q k) (run k sel n (Vector_Initialize junk (ty k) STANDARD_VECTOR_SIZE))"
  shows "yields I (\<lambda>r. case r of Inl e \<Rightarrow> \<exists>k \<in> set ks. Q k (Inl e) | Inr vs \<Rightarrow> list_all2 (\<lambda>k v. Q k (Inr v)) ks vs) (exec_all junk ty run sel n ks)"
  using assms
proof (induction ks)
  case (Cons k ks)
  let ?P = "\<lambda>ks r. case r of Inl e \<Rightarrow> \<exists>k \<in> set ks. Q k (Inl e) | Inr vs \<Rightarrow> list_all2 (\<lambda>k v. Q k (Inr v)) ks vs"
  have rest: "yields I (?P ks) (exec_all junk ty run sel n ks)" using Cons by simp
  show ?case
    unfolding exec_all.simps
  proof (rule yields_bind [OF Cons.prems [of k]])
    show "yields I (?P (k # ks)) (bindW (exec_all junk ty run sel n ks) (\<lambda>vs. returnW (v # vs)))" if "Q k (Inr v)" for v
      by (rule yields_bind [OF rest]) (use that in \<open>auto intro!: yields_return\<close>)
  qed auto
qed (auto intro!: yields_return)

text \<open>The call of the function, through the dictionary of its argument or not.\<close>

lemma call_yields:
  assumes e: "e = BoundFunction t f cs" and typed: "typed env fr e" and own: "(path, e) \<in> C" and pre: "exec_pre env e sel n res"
    and vs: "list_all2 (\<lambda>c v. GetType v = return_type c \<and> vec_ok n v) (kids e) vs"
    and lit: "\<And>k v. k < length (kids e) \<Longrightarrow> kids e ! k = BoundConstant v \<Longrightarrow> vs ! k = Reference_Value (vjunk env) v"
  shows "yields (ready fr C) (evals t (\<lambda>i. fn_rows fr e (map (\<lambda>v. vec_row v i) vs)) [0..<n])
    (bindW ticks (\<lambda>k. bindW (TryExecuteDictionaryExpression env (\<lambda>w. function_states w path) (put_function path) (dictionary_tag env k)
        (function_callback env e) vs n res) (\<lambda>(executed, res). if executed then returnW res else function_callback env e vs n res)))"
proof (rule yields_bind [OF ticks_yields])
  note typed' = typedD [OF typed] and pre' = exec_preD [OF pre]
  have fn: "callback_ok env fr e" "function_typed env fr e f cs" "scalar_type t" "return_type e = t" using typed'(1) by (simp_all add: node_typed_def e)
  have len: "length vs = length (kids e)" and types: "list_all2 (\<lambda>ty v. GetType v = ty \<and> vec_ok n v) (map return_type (kids e)) vs"
    using vs by (simp_all add: list_all2_lengthD list_all2_map1)
  have call: "yields (ready fr C) (evals t (\<lambda>i. fn_rows fr e (map (\<lambda>v. vec_row v i) vs)) [0..<n]) (function_callback env e vs n res)"
    unfolding function_callback_def using callback_evals [OF fn(1) pre'(5,6) types pre'(4,3)] fn(4) by (intro tick_yields) simp
  fix k
  let ?attempt = "TryExecuteDictionaryExpression env (\<lambda>w. function_states w path) (put_function path) (dictionary_tag env k) (function_callback env e) vs n res"
  have "yields (ready fr C) (\<lambda>r. \<exists>executed v. r = Inr (executed, v) \<and>
      (if executed then evals t (\<lambda>i. fn_rows fr e (map (\<lambda>v. vec_row v i) vs)) [0..<n] (Inr v) else v = res)) ?attempt"
    unfolding yields_def
  proof (intro allI impI)
    fix w assume w: "ready fr C w"
    let ?st = "function_states w path"
    have st: "find_input_col cs 0 None = Some col \<and> \<not> fn_can_throw f \<and> cache_ok t (column_rows fr e col) (dict_values fr) ?st"
      if "input_col_idx ?st = Some col" for col
      using w own that by (auto simp: ready_def function_ready_def e)
    have col: "(\<forall>ys err. Inl err \<notin> fn_rows fr e ys) \<and> col < length vs \<and> constant_args col (map literal (kids e)) vs"
      if c: "input_col_idx ?st = Some col" for col
    proof -
      have const: "\<exists>v. kids e ! j = BoundConstant v" if "j < length (kids e)" "j \<noteq> col" for j
        using fn(2) st [OF c] that by (auto simp: function_typed_def e)
      have "(\<forall>m. vec_ok m (vs ! j)) \<and> (\<forall>i. vec_row (vs ! j) i = literal (kids e ! j))" if j: "j < length (kids e)" "j \<noteq> col" for j
      proof -
        obtain v where v: "kids e ! j = BoundConstant v" using const [OF j] by blast
        have "scalar_type (value_type v)" using typedD(3) [of env fr "kids e ! j"] typed'(2) nth_mem [OF j(1)] v by auto
        from Reference_Value_rows [OF this] lit [OF j(1) v] v show ?thesis by (simp add: literal_def)
      qed
      then have "constant_args col (map literal (kids e)) vs" using len by (simp add: constant_args_def)
      moreover have "col < length vs" using st [OF c] find_input_col_less [of cs 0 None col] len by (simp add: e)
      ultimately show ?thesis using st [OF c] fn(2) by (auto simp: function_typed_def)
    qed
    have tag: "tag_ok (dict_values fr) (dictionary_tag env k) v" for v using fn(2) by (simp add: function_typed_def)
    from executor_function.TryExecuteDictionaryExpression_ok [of env fr e res "dict_values fr" "dictionary_tag env k" n vs w path "map literal (kids e)" C env]
      fn(1,3,4) pre'(3) tag types col ready_but_ready [OF w] st
    obtain executed v w' where run: "?attempt w = (Inr (executed, v), w')" "ready_but fr C path w'"
      "if executed then evals t (\<lambda>i. fn_rows fr e (map (\<lambda>v. vec_row v i) vs)) [0..<n] (Inr v) else v = res"
      "input_col_idx (function_states w' path) = input_col_idx ?st"
      "\<forall>col. input_col_idx ?st = Some col \<longrightarrow> cache_ok t (column_rows fr e col) (dict_values fr) (function_states w' path)"
      by auto
    have "function_ready fr e (function_states w' path)" using run(4,5) st by (auto simp: function_ready_def e)
    with ready_but_restore [OF run(2) own] run(1,3) show "(\<exists>executed v. fst (?attempt w) = Inr (executed, v) \<and>
        (if executed then evals t (\<lambda>i. fn_rows fr e (map (\<lambda>v. vec_row v i) vs)) [0..<n] (Inr v) else v = res)) \<and> ready fr C (snd (?attempt w))"
      by auto
  qed
  then show "yields (ready fr C) (evals t (\<lambda>i. fn_rows fr e (map (\<lambda>v. vec_row v i) vs)) [0..<n])
      (bindW ?attempt (\<lambda>(executed, res). if executed then returnW res else function_callback env e vs n res))"
    by (rule yields_bind) (use call in \<open>auto intro!: yields_return split: if_splits\<close>)
qed auto

lemma function_yields:
  assumes node: "kids_ok C env fr e run_kid filter_kid" and e: "e = BoundFunction t f cs" and typed: "typed env fr e" and pre: "exec_pre env e sel n res"
    and own: "(path, e) \<in> C" and lit: "literal_kids fr C env e run_kid"
  shows "yields (ready fr C) (evals t (out env fr e) (sel_rows sel n)) (Execute_Function env e path run_kid sel n res)"
proof -
  note typed' = typedD [OF typed] and pre' = exec_preD [OF pre]
  let ?ks = "[0..<length (kids e)]" and ?rows = "sel_rows sel n"
  let ?call = "\<lambda>vs. bindW ticks (\<lambda>k. bindW (TryExecuteDictionaryExpression env (\<lambda>w. function_states w path) (put_function path) (dictionary_tag env k)
    (function_callback env e) vs n res) (\<lambda>(executed, res). if executed then returnW res else function_callback env e vs n res))"
  let ?Q = "\<lambda>k r. evals (kid_type e k) (kid_out env fr e k) ?rows r \<and> (\<forall>v. kids e ! k = BoundConstant v \<longrightarrow> r = Inr (Reference_Value (vjunk env) v))"
  have out: "out env fr e = (\<lambda>x. strict_out (fn_rows fr e) (map (\<lambda>k. kid_out env fr e k x) ?ks))"
    unfolding out_unfold [of env fr e] by (simp add: node_out_def e fun_eq_iff)
  have kid: "yields (ready fr C) (?Q k) (run_kid k sel n (new_vector env (kid_type e k)))" if "k \<in> set ?ks" for k
  proof (rule yields_both)
    have k: "k < length (kids e)" "scalar_type (kid_type e k)" "dense (kids e ! k) \<longrightarrow> sel = None"
      using bspec [OF strict_kids [OF pre'(7) typed'(2)] that] by auto
    show "yields (ready fr C) (evals (kid_type e k) (kid_out env fr e k) ?rows) (run_kid k sel n (new_vector env (kid_type e k)))"
      by (rule children.exec_fresh [OF node k(1) pre'(1,2) k(3,2)])
    show "yields (ready fr C) (\<lambda>r. \<forall>v. kids e ! k = BoundConstant v \<longrightarrow> r = Inr (Reference_Value (vjunk env) v)) (run_kid k sel n (new_vector env (kid_type e k)))"
    proof (cases "\<exists>v. kids e ! k = BoundConstant v")
      case True
      then obtain v where v: "kids e ! k = BoundConstant v" by blast
      have "yields (ready fr C) (\<lambda>r. r = Inr (Reference_Value (vjunk env) v)) (run_kid k sel n (new_vector env (kid_type e k)))"
        using lit k(1) v pre'(5) by (simp add: Vector_Initialize_eq)
      then show ?thesis by (rule yields_mono) (simp add: v)
    next
      case False
      show ?thesis by (rule yields_mono [OF children.exec_fresh [OF node k(1) pre'(1,2) k(3,2)]]) (use False in blast)
    qed
  qed
  have "yields (ready fr C) (evals t (out env fr e) ?rows) (bindW (exec_all (vjunk env) (kid_type e) run_kid sel n ?ks) ?call)"
  proof (rule yields_bind [OF exec_all_each [where Q = ?Q and run = run_kid and ty = "kid_type e", OF kid]])
    show "evals t (out env fr e) ?rows (Inl err)"
      if "case Inl err of Inl e \<Rightarrow> \<exists>k \<in> set ?ks. ?Q k (Inl e) | Inr vs \<Rightarrow> list_all2 (\<lambda>k v. ?Q k (Inr v)) ?ks vs" for err
      using that strict_error [of "kid_type e" "kid_out env fr e" ?rows ?ks err] unfolding out by (auto simp: all_evals_def)
    fix vs assume "case Inr vs of Inl e \<Rightarrow> \<exists>k \<in> set ?ks. ?Q k (Inl e) | Inr vs \<Rightarrow> list_all2 (\<lambda>k v. ?Q k (Inr v)) ?ks vs"
    then have all: "list_all2 (\<lambda>k v. ?Q k (Inr v)) ?ks vs" by simp
    then have vs: "list_all2 (\<lambda>k. has_rows (kid_type e k) (kid_out env fr e k) ?rows) ?ks vs"
      by (rule list_all2_mono) (simp add: has_rows_def)
    have lits: "vs ! k = Reference_Value (vjunk env) v" if "k < length (kids e)" "kids e ! k = BoundConstant v" for k v
      using list_all2_nthD [OF all, of k] that by simp
    have types: "list_all2 (\<lambda>c v. GetType v = return_type c \<and> vec_ok n v) (kids e) vs"
      using kid_vectors [OF vs] by (auto simp: list_all2_conv_all_nth)
    show "yields (ready fr C) (evals t (out env fr e) ?rows) (?call vs)"
      using yields_mono [OF call_yields [OF e typed own pre types lits]] strict_evals [OF vs, of t "fn_rows fr e"] unfolding out by simp
  qed
  then show ?thesis
    unfolding Execute_Function_def by (intro yields_bind [OF jit_attempt_yields]) auto
qed

lemma cast_yields:
  assumes node: "kids_ok C env fr e run_kid filter_kid" and e: "e = BoundCast t b c" and typed: "typed env fr e" and pre: "exec_pre env e sel n res"
  shows "yields (ready fr C) (evals t (out env fr e) (sel_rows sel n)) (Execute_Cast env e run_kid sel n res)"
proof -
  note typed' = typedD [OF typed]
  have one: "[0..<length (kids e)] = [0]" by (simp add: e)
  have out: "out env fr e = (\<lambda>x. strict_out (\<lambda>ys. cast_rows fr e (ys ! 0)) (map (\<lambda>k. kid_out env fr e k x) [0..<length (kids e)]))"
    unfolding out_unfold [of env fr e] by (simp add: node_out_def e fun_eq_iff)
  have call: "evals t (\<lambda>i. cast_rows fr e (map (\<lambda>v. vec_row v i) vs ! 0)) [0..<n] (cast_function env e k (vs ! 0) n res)"
    if vs: "list_all2 (\<lambda>k. has_rows (kid_type e k) (kid_out env fr e k) (sel_rows sel n)) [0..<length (kids e)] vs" for vs k
  proof -
    have v: "length vs = 1" "GetType (vs ! 0) = kid_type e 0" "vec_ok n (vs ! 0)" using kid_vectors [OF vs] by (simp_all add: e)
    have "cast_ok env fr e" "return_type e = t" using typed'(1) by (simp_all add: node_typed_def e)
    then show ?thesis using exec_preD [OF pre] v unfolding cast_ok_def by simp
  qed
  have "yields (ready fr C) (evals t (out env fr e) (sel_rows sel n))
      (bindW (exec_all (vjunk env) (kid_type e) run_kid sel n [0..<length (kids e)]) (\<lambda>vs. bindW ticks (\<lambda>k. liftW (cast_function env e k (vs ! 0) n res))))"
    unfolding out by (rule strict_node [OF node pre typed'(2)]) (rule tick_yields, rule call)
  then show ?thesis
    unfolding Execute_Cast_def one .
qed

section \<open>The other nodes\<close>

lemma conjunction_yields:
  assumes node: "kids_ok C env fr e run_kid filter_kid" and e: "e = BoundConjunction et cs" and typed: "typed env fr e" and pre: "exec_pre env e sel n res"
  shows "yields (ready fr C) (evals BOOLEAN (out env fr e) (sel_rows sel n)) (conjunction_run env et (kid_type e) run_kid sel n [0..<length cs] res)"
proof -
  have t: "et = conj_type (et = ET_CONJUNCTION_AND)" "0 < length cs" "\<forall>c \<in> set cs. return_type c = BOOLEAN \<and> \<not> dense c"
    using typedD(1) [OF typed] by (auto simp: node_typed_def e conj_type_def)
  have out: "out env fr e = (\<lambda>x. conj_out (et = ET_CONJUNCTION_AND) (map (\<lambda>k. kid_out env fr e k x) [0..<length cs]))"
    unfolding out_unfold [of env fr e] by (simp add: node_out_def e fun_eq_iff)
  have kids: "\<forall>k < length cs. k < length (kids e) \<and> kid_type e k = BOOLEAN \<and> (dense (kids e ! k) \<longrightarrow> sel = None)"
    using t(3) by (auto simp: e)
  have res: "GetType res = BOOLEAN" using exec_preD(3) [OF pre] by (simp add: e)
  show ?thesis
    unfolding out by (subst t(1)) (rule children.Execute_conjunction_yields [OF node exec_preD(1,2) [OF pre] res t(2) kids])
qed

lemma operator_yields:
  assumes node: "kids_ok C env fr e run_kid filter_kid" and e: "e = BoundOperator et t cs" and env: "env_ok env" and typed: "typed env fr e"
    and pre: "exec_pre env e sel n res"
  shows "yields (ready fr C) (evals t (out env fr e) (sel_rows sel n)) (Execute_Operator env et (kid_type e) (length cs) (ResetDictionaryStates c path) run_kid sel n res)"
proof -
  note pre' = exec_preD [OF pre] and typed' = typedD [OF typed]
  have ot: "operator_typed et t cs" "scalar_type t" using typed'(1) by (simp_all add: node_typed_def e)
  have out: "out env fr e = operator_out et (length cs) (kid_out env fr e)"
    unfolding out_unfold [of env fr e] by (simp add: node_out_def e fun_eq_iff)
  have wf: "env_wf env" using env by (simp add: env_ok_def)
  have res: "GetType res = t" using pre'(3) by (simp add: e)
  have len: "length (kids e) = length cs" by (simp add: e)
  have dense: "k < length cs \<Longrightarrow> dense (kids e ! k) \<longrightarrow> sel = None" for k using dense_kid [of k e] pre'(7) by (auto simp: e)
  consider (isin) "et = ET_COMPARE_IN \<or> et = ET_COMPARE_NOT_IN" | (coalesce) "et = ET_OPERATOR_COALESCE" | (attempt) "et = ET_OPERATOR_TRY"
    | (unary) "et \<in> set unary_types" using ot(1) by (auto simp: operator_typed_def split: if_splits)
  then show ?thesis
  proof cases
    case isin
    then have kids: "2 \<le> length cs" "t = BOOLEAN" "loop_type (InternalType (return_type (cs ! 0)))"
      "\<forall>k < length cs. k < length (kids e) \<and> kid_type e k = return_type (cs ! 0) \<and> (dense (kids e ! k) \<longrightarrow> sel = None)"
      using ot(1) dense by (auto simp: operator_typed_def e)
    from children.Execute_In_yields [OF node wf pre'(1,2) kids(3,1,4) pre'(4), of "et = ET_COMPARE_NOT_IN"] res kids(2) isin
    show ?thesis by (auto simp: out operator_out_def [abs_def] Execute_Operator_def)
  next
    case coalesce
    then have "\<forall>k < length cs. k < length (kids e) \<and> kid_type e k = t \<and> \<not> dense (kids e ! k)" "blank t res"
      using ot(1) pre'(8) by (auto simp: operator_typed_def e roomy_def)
    from children.Execute_Coalesce_yields [OF node pre'(2,1) ot(2) this, of env] coalesce
    show ?thesis by (simp add: out operator_out_def [abs_def] Execute_Operator_def)
  next
    case attempt
    have "dense e" unfolding dense.simps [of e] using attempt by (simp add: e)
    then have sel: "sel = None" using pre'(7) by simp
    have kid: "0 < length (kids e)" "kid_type e 0 = t" "\<not> dense (kids e ! 0)" "\<not> roomy (kids e ! 0)"
      using ot(1) attempt by (auto simp: operator_typed_def e)
    from children.Execute_Try_yields [OF node kid(1,2) ot(2) kid(3,4) _ reset_yields pre'(4) res, of env] pre'(2) attempt sel
    show ?thesis by (simp add: out operator_out_def [abs_def] Execute_Operator_def)
  next
    case unary
    then have t: "t = BOOLEAN" "length cs = 1" "et \<notin> {ET_COMPARE_IN, ET_COMPARE_NOT_IN, ET_OPERATOR_COALESCE, ET_OPERATOR_TRY}"
      using ot(1) by (auto simp: operator_typed_def unary_types_def)
    have kid: "0 < length (kids e)" "scalar_type (kid_type e 0)" "dense (kids e ! 0) \<longrightarrow> sel = None"
      using strict_kids [OF pre'(7) typed'(2)] t(2) by (auto simp: e)
    from children.unary_yields [OF node unary pre'(1,2) kid pre'(4), of env] res t
    show ?thesis by (simp add: out operator_out_def [abs_def] Execute_Operator_def)
  qed
qed

lemma case_kids: "length (concat (map (\<lambda>(w, t). [w, t]) checks)) = 2 * length checks"
  "i < length checks \<Longrightarrow> concat (map (\<lambda>(w, t). [w, t]) checks) ! (2 * i) = fst (checks ! i) \<and>
     concat (map (\<lambda>(w, t). [w, t]) checks) ! (2 * i + 1) = snd (checks ! i)"
proof (induction checks arbitrary: i)
  case (Cons c checks)
  { case 1 show ?case using Cons.IH(1) by (cases c) simp
  next
    case 2 then show ?case using Cons.IH(2) [of "i - 1"] by (cases c; cases i) auto }
qed simp_all

lemma case_yields:
  assumes node: "kids_ok C env fr e run_kid filter_kid" and e: "e = BoundCase t checks els" and typed: "typed env fr e" and pre: "exec_pre env e sel n res"
  shows "yields (ready fr C) (evals t (out env fr e) (sel_rows sel n))
    (Execute_Case (nested_fills env) (vjunk env) (sjunk env) (kid_type e) (length checks) run_kid filter_kid sel n res)"
proof -
  let ?n = "length checks"
  obtain c where c: "els = Some c" "return_type c = t" "\<not> dense c" "scalar_type t"
    using typedD(1) [OF typed] by (auto simp: node_typed_def e split: option.splits)
  have checks: "return_type (fst (checks ! i)) = BOOLEAN \<and> return_type (snd (checks ! i)) = t \<and> \<not> dense (fst (checks ! i)) \<and> \<not> dense (snd (checks ! i))"
    if "i < ?n" for i
    using typedD(1) [OF typed] nth_mem [OF that] by (cases "checks ! i") (auto simp: node_typed_def e)
  have kids: "length (kids e) = 2 * ?n + 1" "kids e ! (2 * ?n) = c"
    "i < ?n \<Longrightarrow> kids e ! (2 * i) = fst (checks ! i)" "i < ?n \<Longrightarrow> kids e ! (2 * i + 1) = snd (checks ! i)" for i
    using case_kids [where checks = checks] by (simp_all add: e c(1) nth_append)
  have dense: "\<not> dense (kids e ! k)" if "k \<le> 2 * ?n" for k
  proof -
    have "k = 2 * (k div 2) \<or> k = 2 * (k div 2) + 1" "k = 2 * ?n \<or> k div 2 < ?n" using that by linarith+
    then consider "k = 2 * ?n" | i where "i < ?n" "k = 2 * i" | i where "i < ?n" "k = 2 * i + 1" by blast
    then show ?thesis using kids checks c(3) by cases auto
  qed
  have "children.case_typed (length (kids e)) (kid_type e) (\<lambda>k. dense (kids e ! k)) ?n t"
    unfolding children.case_typed_def [OF node] using kids checks c dense by simp
  from children.Execute_Case_yields [OF node this exec_preD(2,1) [OF pre], of res] exec_preD(8) [OF pre]
  show ?thesis
    unfolding out_unfold [of env fr e] by (simp add: node_out_def [abs_def] e roomy_def)
qed

section \<open>Filters\<close>

lemma select_preD:
  assumes "select_pre env e ref n ts fs"
  shows "return_type e = BOOLEAN" "rows_ok (chunk_rows env) (ref_rows ref ts fs n)" "select_ready n ref ts fs" "ts \<noteq> None"
    "sel_fits (ref_sel ref ts fs) n" "dense e \<longrightarrow> ref_sel ref ts fs = None" "distinct (ref_rows ref ts fs n)" "0 < n" "n \<le> STANDARD_VECTOR_SIZE"
  using assms rows_ok_length [of "chunk_rows env" "ref_rows ref ts fs n"] by (auto simp: select_pre_def rows_ok_def ref_sel_def)

text \<open>What a split by position means for the rows, which are distinct.\<close>

definition passes_at :: "nat list \<Rightarrow> (nat \<Rightarrow> bool) \<Rightarrow> nat \<Rightarrow> bool" where
  "passes_at rows Q x \<longleftrightarrow> (\<exists>i < length rows. rows ! i = x \<and> Q i)"

lemma passes_at_nth: "distinct rows \<Longrightarrow> i < length rows \<Longrightarrow> passes_at rows Q (rows ! i) = Q i"
  by (auto simp: passes_at_def nth_eq_iff_index_eq)

lemma parts_filters:
  assumes "parts rows (passes_at rows Q) ts fs r" and "distinct rows"
    and "\<And>i. i < length rows \<Longrightarrow> \<exists>y. Inr y \<in> oc (rows ! i) \<and> is_true y = Q i"
  shows "filters oc rows ts fs (Inr r)"
proof -
  have "if passes_at rows Q x then can_pass (oc x) else can_fail (oc x)" if "x \<in> set rows" for x
  proof -
    obtain i where i: "i < length rows" "rows ! i = x" using \<open>x \<in> set rows\<close> by (auto simp: in_set_conv_nth)
    have "passes_at rows Q x = Q i" using passes_at_nth [OF assms(2) i(1)] i(2) by simp
    moreover obtain y where "Inr y \<in> oc x" "is_true y = Q i" using assms(3) [OF i(1)] i(2) by auto
    ultimately show ?thesis by (auto simp: can_pass_def can_fail_def)
  qed
  with assms(1) show ?thesis by auto
qed

lemma splits_parts:
  assumes "splits n (sel_row ref ts fs) Q ts fs r" and "distinct (ref_rows ref ts fs n)"
  shows "parts (ref_rows ref ts fs n) (passes_at (ref_rows ref ts fs n) Q) ts fs r"
proof -
  have "Q i = passes_at (ref_rows ref ts fs n) Q (sel_row ref ts fs i)" if "i < n" for i
    using passes_at_nth [OF assms(2), of i Q] that by (simp add: ref_rows_def)
  from splits_selects [OF assms(1) this] show ?thesis by (simp add: selects_def ref_rows_def)
qed

lemma strict_filter:
  assumes node: "kids_ok C env fr e run_kid filter_kid" and pre: "select_pre env e ref n ts fs" and kids: "\<forall>c \<in> set (kids e). typed env fr c"
    and final: "\<And>vs. list_all2 (\<lambda>k. has_rows (kid_type e k) (kid_out env fr e k) (ref_rows ref ts fs n)) [0..<length (kids e)] vs \<Longrightarrow>
      \<exists>r Q. f vs = Inr r \<and> splits n (sel_row ref ts fs) Q ts fs r \<and> (\<forall>i < n. \<exists>y. Inr y \<in> F (map (\<lambda>v. vec_row v i) vs) \<and> is_true y = Q i)"
  shows "yields (ready fr C) (filters (\<lambda>x. strict_out F (map (\<lambda>k. kid_out env fr e k x) [0..<length (kids e)])) (ref_rows ref ts fs n) ts fs)
    (bindW (exec_all junk (kid_type e) run_kid (ref_sel ref ts fs) n [0..<length (kids e)]) (\<lambda>vs. liftW (f vs)))"
    (is "yields _ (filters ?oc ?rows ts fs) _")
proof -
  note pre' = select_preD [OF pre]
  have run: "yields (ready fr C) (all_evals (kid_type e) (kid_out env fr e) ?rows [0..<length (kids e)])
      (exec_all junk (kid_type e) run_kid (ref_sel ref ts fs) n [0..<length (kids e)])"
    by (rule children.exec_all_yields [OF node pre'(5) _ strict_kids [OF pre'(6) kids], of junk, unfolded ref_sel_rows, OF pre'(2)])
  show ?thesis
  proof (rule yields_bind [OF run])
    show "filters ?oc ?rows ts fs (Inl err)" if "all_evals (kid_type e) (kid_out env fr e) ?rows [0..<length (kids e)] (Inl err)" for err
      unfolding filters_simps by (rule strict_error [OF that])
    fix vs assume "all_evals (kid_type e) (kid_out env fr e) ?rows [0..<length (kids e)] (Inr vs)"
    then have vs: "list_all2 (\<lambda>k. has_rows (kid_type e k) (kid_out env fr e k) ?rows) [0..<length (kids e)] vs" by (simp add: all_evals_def)
    from final [OF vs] obtain r Q where r: "f vs = Inr r" "splits n (sel_row ref ts fs) Q ts fs r"
      "\<forall>i < n. \<exists>y. Inr y \<in> F (map (\<lambda>v. vec_row v i) vs) \<and> is_true y = Q i" by (elim exE conjE)
    have "filters ?oc ?rows ts fs (Inr r)"
    proof (rule parts_filters [OF splits_parts [OF r(2) pre'(7)] pre'(7)])
      fix i assume i: "i < length ?rows"
      then obtain y where y: "Inr y \<in> F (map (\<lambda>v. vec_row v i) vs)" "is_true y = Q i" using r(3) by auto
      from strict_row [where f = F, OF vs i y(1)] y(2) show "\<exists>y. Inr y \<in> ?oc (?rows ! i) \<and> is_true y = Q i" by blast
    qed
    then show "yields (ready fr C) (filters ?oc ?rows ts fs) (liftW (f vs))" unfolding r(1) by (rule yields_lift)
  qed
qed

lemma is_true_cell: "is_true (map_option bool_cell x) \<longleftrightarrow> x = Some True" "is_true (map_option CInt y) \<longleftrightarrow> (\<exists>i. y = Some i \<and> byte_true (CInt i))"
  by (cases x; simp add: is_true_def) (cases y; simp add: is_true_def)

lemma select_comparison_yields:
  assumes node: "kids_ok C env fr e run_kid filter_kid" and e: "e = BoundComparison et l r" and env: "env_ok env" and typed: "typed env fr e"
    and pre: "select_pre env e ref n ts fs"
  shows "yields (ready fr C) (filters (out env fr e) (ref_rows ref ts fs n) ts fs) (Select_Comparison_node env e et run_kid ref n ts fs)"
proof -
  note typed' = typedD [OF typed] and pre' = select_preD [OF pre]
  have two: "[0..<length (kids e)] = [0, 1]" unfolding e kids.simps by (rule upt_two)
  have out: "out env fr e = (\<lambda>x. strict_out (compare_out et) (map (\<lambda>k. kid_out env fr e k x) [0..<length (kids e)]))"
    unfolding out_unfold [of env fr e] by (simp add: node_out_def e fun_eq_iff)
  let ?run = "\<lambda>vs. Select_Comparison (nested_sel env) (nested_dist env) (same_mask env (vs ! 0) (vs ! 1)) (vjunk env) et (vs ! 0) (vs ! 1) ref n ts fs"
  have "yields (ready fr C) (filters (out env fr e) (ref_rows ref ts fs n) ts fs)
      (bindW (exec_all (vjunk env) (kid_type e) run_kid (ref_sel ref ts fs) n [0..<length (kids e)]) (\<lambda>vs. liftW (?run vs)))"
    unfolding out
  proof (rule strict_filter [OF node pre typed'(2)])
    fix vs assume vs: "list_all2 (\<lambda>k. has_rows (kid_type e k) (kid_out env fr e k) (ref_rows ref ts fs n)) [0..<length (kids e)] vs"
    note c = comparison_kids [OF env e typed'(1) vs]
    let ?Q = "\<lambda>i. sql_compare et (vec_row (vs ! 0) i) (vec_row (vs ! 1) i) = Some True"
    obtain r where r: "?run vs = Inr r" "splits n (sel_row ref ts fs) ?Q ts fs r"
      using Select_Comparison_rows [OF c(3) c(2) [unfolded length_ref_rows] pre'(3)] by blast
    have "\<exists>y. Inr y \<in> compare_out et (map (\<lambda>v. vec_row v i) vs) \<and> is_true y = ?Q i" for i
      by (subst c(1)) (auto simp: is_true_cell)
    with r show "\<exists>r Q. ?run vs = Inr r \<and> splits n (sel_row ref ts fs) Q ts fs r \<and>
        (\<forall>i < n. \<exists>y. Inr y \<in> compare_out et (map (\<lambda>v. vec_row v i) vs) \<and> is_true y = Q i)" by blast
  qed
  then have "yields (ready fr C) (filters (out env fr e) (ref_rows ref ts fs n) ts fs)
      (bindW (jit_attempt env e (ref \<noteq> SelFixed None) n (new_vector env BOOLEAN)) (\<lambda>(handled, jit_result).
       if handled then liftW (jit_select env jit_result n ts fs)
       else bindW (exec_all (vjunk env) (kid_type e) run_kid (ref_sel ref ts fs) n [0, 1]) (\<lambda>vs. liftW (?run vs))))"
    unfolding two by (intro yields_bind [OF jit_attempt_yields]) auto
  then show ?thesis
    unfolding Select_Comparison_node_def Let_def by (intro yields_bind [OF record_yields]) auto
qed

lemma between_is_true: "is_true (map_option CInt (sql_between li ui x l u)) \<longleftrightarrow> sql_between li ui x l u = Some 1"
proof -
  have "sql_between li ui x l u \<in> {None, Some 0, Some 1}" by (auto simp: sql_between_def sql_conj_def)
  then show ?thesis by (auto simp: is_true_cell byte_true_def)
qed

lemma select_between_yields:
  assumes node: "kids_ok C env fr e run_kid filter_kid" and e: "e = BoundBetween li ui i l u" and env: "env_ok env" and typed: "typed env fr e"
    and pre: "select_pre env e ref n ts fs"
  shows "yields (ready fr C) (filters (out env fr e) (ref_rows ref ts fs n) ts fs) (Select_Between_node env e li ui run_kid ref n ts fs)"
proof -
  note typed' = typedD [OF typed] and pre' = select_preD [OF pre]
  have three: "[0..<length (kids e)] = [0, 1, 2]" unfolding e kids.simps by (rule upt_three)
  have out: "out env fr e = (\<lambda>x. strict_out (between_out li ui) (map (\<lambda>k. kid_out env fr e k x) [0..<length (kids e)]))"
    unfolding out_unfold [of env fr e] by (simp add: node_out_def e fun_eq_iff)
  let ?run = "\<lambda>vs. Select_Between (interval_sel env) (vjunk env) li ui (vs ! 0) (vs ! 1) (vs ! 2) ref n ts fs"
  have "yields (ready fr C) (filters (out env fr e) (ref_rows ref ts fs n) ts fs)
      (bindW (exec_all (vjunk env) (kid_type e) run_kid (ref_sel ref ts fs) n [0..<length (kids e)]) (\<lambda>vs. liftW (?run vs)))"
    unfolding out
  proof (rule strict_filter [OF node pre typed'(2)])
    fix vs assume vs: "list_all2 (\<lambda>k. has_rows (kid_type e k) (kid_out env fr e k) (ref_rows ref ts fs n)) [0..<length (kids e)] vs"
    note c = between_kids [OF env e typed'(1) vs]
    note ok = comparableD [OF c(2) [unfolded length_ref_rows]] comparableD [OF c(3) [unfolded length_ref_rows]]
    let ?Q = "\<lambda>i. sql_between li ui (vec_row (vs ! 0) i) (vec_row (vs ! 1) i) (vec_row (vs ! 2) i) = Some 1"
    have switch: "?run vs = Ternary_Select (vjunk env) (between_op li ui) (vs ! 0) (vs ! 1) (vs ! 2) ref n ts fs"
      using ok(1) by (simp add: Select_Between_switch BetweenLoopTypeSwitch_def Let_def)
    obtain r where r: "?run vs = Inr r" "splits n (sel_row ref ts fs) ?Q ts fs r"
      unfolding switch between_true using Ternary_Select_rows [OF ok(3,4,10) pre'(3)] by blast
    have "\<exists>y. Inr y \<in> between_out li ui (map (\<lambda>v. vec_row v i) vs) \<and> is_true y = ?Q i" for i
      by (subst c(1)) (simp add: between_is_true)
    with r show "\<exists>r Q. ?run vs = Inr r \<and> splits n (sel_row ref ts fs) Q ts fs r \<and>
        (\<forall>i < n. \<exists>y. Inr y \<in> between_out li ui (map (\<lambda>v. vec_row v i) vs) \<and> is_true y = Q i)" by blast
  qed
  then show ?thesis
    unfolding Select_Between_node_def three by (intro yields_bind [OF record_yields]) auto
qed

text \<open>The default filter, on a predicate that is executed rightly.\<close>

lemma default_yields:
  assumes run: "yields (ready fr C) (evals BOOLEAN oc (ref_rows ref ts fs n)) (self (ref_sel ref ts fs) n (new_vector env BOOLEAN))"
    and ready: "select_ready n ref ts fs" and dist: "distinct (ref_rows ref ts fs n)"
  shows "yields (ready fr C) (filters oc (ref_rows ref ts fs n) ts fs) (DefaultSelect_node env self ref n ts fs)"
    (is "yields _ (filters oc ?rows ts fs) _")
  unfolding DefaultSelect_node_def
proof (rule yields_bind [OF run])
  fix v assume v: "evals BOOLEAN oc ?rows (Inr v)"
  let ?Q = "\<lambda>i. truth v i = Some 1"
  have "exec_ok (\<lambda>_. Inr v) (passes_at ?rows ?Q) ?rows"
    using v passes_at_nth [OF dist, of _ ?Q] by (auto simp: exec_ok_def)
  from DefaultSelect_selects [OF ready this, of "vjunk env"] obtain r
    where r: "DefaultSelect (vjunk env) (\<lambda>_. Inr v) ref n ts fs = Inr r" "parts ?rows (passes_at ?rows ?Q) ts fs r"
    unfolding selects_def by blast
  have "filters oc ?rows ts fs (Inr r)"
  proof (rule parts_filters [OF r(2) dist])
    show "\<exists>y. Inr y \<in> oc (?rows ! i) \<and> is_true y = ?Q i" if "i < length ?rows" for i
      using v that by (intro exI [of _ "vec_row v i"]) (simp add: is_true_truth truth_truth_value)
  qed
  then show "yields (ready fr C) (filters oc ?rows ts fs) (liftW (DefaultSelect (vjunk env) (\<lambda>_. Inr v) ref n ts fs))"
    unfolding r(1) by (rule yields_lift)
qed auto

section \<open>The dispatch\<close>

lemma class_yields:
  assumes node: "kids_ok C env fr e run_kid filter_kid" and env: "env_ok env" and typed: "typed env fr e" and pre: "exec_pre env e sel n res"
    and own: "(path, e) \<in> C" and lit: "literal_kids fr C env e run_kid"
  shows "yields (ready fr C) (evals (return_type e) (out env fr e) (sel_rows sel n)) (Execute_class env e path run_kid filter_kid sel n res)"
proof (cases e)
  case (BoundReference t i)
  with reference_yields [OF env typedD(1) [OF typed, unfolded BoundReference] pre [unfolded BoundReference]] show ?thesis
    by (simp add: Execute_class_def)
next
  case (BoundConstant v)
  then show ?thesis
    using constant_yields [of v] typedD(3) [OF typed] by (simp add: Execute_class_def out_unfold node_out_def)
next
  case (BoundParameter t v)
  then have "value_type v = t" using typedD(1) [OF typed] by (simp add: node_typed_def)
  with BoundParameter show ?thesis
    using constant_yields [of v] typedD(3) [OF typed] by (simp add: Execute_class_def out_unfold node_out_def)
next
  case (BoundComparison et l r)
  from comparison_yields [OF node this env typed pre] this show ?thesis by (simp add: Execute_class_def)
next
  case (BoundConjunction et cs)
  from conjunction_yields [OF node this typed pre] this show ?thesis by (simp add: Execute_class_def)
next
  case (BoundOperator et t cs)
  from operator_yields [OF node this env typed pre] this show ?thesis by (simp add: Execute_class_def)
next
  case (BoundFunction t f cs)
  from function_yields [OF node this typed pre own lit] this show ?thesis by (simp add: Execute_class_def)
next
  case (BoundCast t b c)
  from cast_yields [OF node this typed pre] this show ?thesis by (simp add: Execute_class_def)
next
  case (BoundCase t checks els)
  from case_yields [OF node this typed pre] this show ?thesis by (simp add: Execute_class_def)
next
  case (BoundBetween li ui i l u)
  from between_yields [OF node this env typed pre] this show ?thesis by (simp add: Execute_class_def)
qed (use typedD(1) [OF typed] in \<open>simp_all add: node_typed_def\<close>)

lemma execute_yields:
  assumes node: "kids_ok C env fr e (kid_exec env e path) (kid_select env e path)" and env: "env_ok env" and typed: "typed env fr e"
    and own: "(path, e) \<in> C" and pre: "exec_pre env e sel n res"
  shows "yields (ready fr C) (evals (return_type e) (out env fr e) (sel_rows sel n)) (Execute env e path sel n res)"
  using exec_preD(3,5) [OF pre] class_yields [OF node env typed pre own kid_exec_literal]
  by (auto simp: Execute_unfold Execute_entry_def intro!: yields_bind [OF record_yields])

lemma conjunction_kids:
  assumes node: "kids_ok C env fr e run_kid filter_kid" and "env_ok env" and e: "e = BoundConjunction et cs" and "(path, e) \<in> C" and "100 * (length (kids e) - 1) < 2 ^ 32"
  shows "conjunction_node run_kid filter_kid (ready fr C) (length (kids e)) (kid_type e) (kid_out env fr e) (chunk_rows env)
    (\<lambda>k. roomy (kids e ! k)) (\<lambda>k. dense (kids e ! k)) (\<lambda>w. adaptive w path) (\<lambda>af w. w\<lparr>adaptive := (adaptive w)(path := af)\<rparr>) (filter_clock env)"
proof (intro conjunction_node.intro [OF node] conjunction_node_axioms.intro)
  show "filter_ok (length (kids e)) (adaptive w path)" if "ready fr C w" for w
    using that assms(4) by (auto simp: ready_def filter_ready_def e)
  show "ready fr C (w\<lparr>adaptive := (adaptive w)(path := af)\<rparr>)" if "ready fr C w" "filter_ok (length (kids e)) af" for w af
    using ready_put [OF that(1) assms(4)] that(2) by (simp add: filter_ready_def e)
qed (use assms clock_yields in auto)

lemma select_yields:
  assumes node: "kids_ok C env fr e (kid_exec env e path) (kid_select env e path)" and env: "env_ok env" and typed: "typed env fr e"
    and paths: "nodes e path \<subseteq> C" and pre: "select_pre env e ref n ts fs"
  shows "yields (ready fr C) (filters (out env fr e) (ref_rows ref ts fs n) ts fs) (Select env e path ref n ts fs)"
proof -
  note pre' = select_preD [OF pre]
  have own: "(path, e) \<in> C" using paths nodes_self by blast
  have exec: "exec_pre env e (ref_sel ref ts fs) n (new_vector env BOOLEAN)"
    using pre' initialized_fresh [OF pre'(9), of BOOLEAN "vjunk env"] initialized_fresh [of STANDARD_VECTOR_SIZE BOOLEAN "vjunk env"]
    by (simp add: exec_pre_def ref_sel_rows)
  have default: "yields (ready fr C) (filters (out env fr e) (ref_rows ref ts fs n) ts fs) (DefaultSelect_node env (Execute env e path) ref n ts fs)"
    using execute_yields [OF node env typed own exec] pre'(1) by (intro default_yields pre'(3,7)) (simp add: ref_sel_rows)
  have "yields (ready fr C) (filters (out env fr e) (ref_rows ref ts fs n) ts fs)
      (Select_class env e path (Execute env e path) (kid_exec env e path) (kid_select env e path) ref n ts fs)"
  proof (cases e)
    case (BoundComparison et l r)
    from select_comparison_yields [OF node this env typed pre] this show ?thesis by (simp add: Select_class_def)
  next
    case (BoundBetween li ui i l u)
    from select_between_yields [OF node this env typed pre] this show ?thesis by (simp add: Select_class_def)
  next
    case (BoundConjunction et cs)
    have t: "100 * (length (kids e) - 1) < 2 ^ 32" "0 < length (kids e)" "\<forall>k < length (kids e). kid_type e k = BOOLEAN \<and> \<not> dense (kids e ! k)"
      using typedD(1) [OF typed] by (auto simp: node_typed_def BoundConjunction)
    note conj = conjunction_kids [OF node env BoundConjunction own t(1)]
    have "out env fr e = (\<lambda>x. conj_out (et = ET_CONJUNCTION_AND) (map (\<lambda>k. kid_out env fr e k x) [0..<length (kids e)]))"
      unfolding out_unfold [of env fr e] by (simp add: node_out_def BoundConjunction fun_eq_iff)
    with conjunction_node.Select_conjunction_yields [OF conj pre'(2) t(2,3) pre'(3,4,5), of "et = ET_CONJUNCTION_AND"] BoundConjunction show ?thesis
      by (simp add: Select_class_def Select_Conjunction_node_def)
  qed (use default in \<open>simp_all add: Select_class_def\<close>)
  then show ?thesis using pre'(8) by (simp add: Select_unfold Select_entry_def)
qed

lemma Select_none: "Select env e path ref 0 ts fs = returnW (0, ts, fs)"
  by (simp add: Select_unfold Select_entry_def)

section \<open>All trees\<close>

lemma executor_kids:
  assumes "env_ok env" and "typed env fr e" and "nodes e path \<subseteq> C"
  shows "kids_ok C env fr e (kid_exec env e path) (kid_select env e path)"
  using assms(2,3)
proof (induction e arbitrary: path rule: measure_induct_rule [of size])
  case (less e)
  have kid: "typed env fr (kids e ! k) \<and> nodes (kids e ! k) (k # path) \<subseteq> C \<and>
      kids_ok C env fr (kids e ! k) (kid_exec env (kids e ! k) (k # path)) (kid_select env (kids e ! k) (k # path))"
    if "k < length (kids e)" for k
    using that less.IH [OF kids_size [OF nth_mem [OF that]], of "k # path"] typedD(2) [OF less.prems(1)] kids_paths [OF that, of path] less.prems(2)
    by (auto intro: nth_mem)
  show ?case
  proof (rule children.intro)
    fix k sel n res
    assume k: "k < length (kids e)" and a: "sel_fits sel n" "rows_ok (chunk_rows env) (sel_rows sel n)" "dense (kids e ! k) \<longrightarrow> sel = None"
      "GetType res = kid_type e k" "fresh_vec n res" "roomy (kids e ! k) \<longrightarrow> fresh_vec STANDARD_VECTOR_SIZE res"
    have "exec_pre env (kids e ! k) sel n res" using a by (simp add: exec_pre_def)
    moreover have "(k # path, kids e ! k) \<in> C" using kid [OF k] nodes_self by blast
    ultimately have "yields (ready fr C) (evals (kid_type e k) (out env fr (kids e ! k)) (sel_rows sel n)) (Execute env (kids e ! k) (k # path) sel n res)"
      using kid [OF k] assms(1) by (intro execute_yields) blast+
    with k show "yields (ready fr C) (evals (kid_type e k) (kid_out env fr e k) (sel_rows sel n)) (kid_exec env e path k sel n res)"
      by (simp add: kid_exec_def kid_out_def)
  next
    fix k ref ts fs n
    assume k: "k < length (kids e)" and a: "kid_type e k = BOOLEAN" "rows_ok (chunk_rows env) (ref_rows ref ts fs n)"
      "dense (kids e ! k) \<longrightarrow> ref = SelFixed None" "select_ready n ref ts fs" "ts \<noteq> None" "sel_fits (ref_sel ref ts fs) n"
    have "select_pre env (kids e ! k) ref n ts fs" using a by (simp add: select_pre_def)
    with select_yields [where C = C and env = env and fr = fr and e = "kids e ! k" and path = "k # path"] kid [OF k] assms(1) k
    show "yields (ready fr C) (filters (kid_out env fr e k) (ref_rows ref ts fs n) ts fs) (kid_select env e path k ref n ts fs)"
      by (simp add: kid_select_def kid_out_def)
  qed (simp add: kid_select_def Select_none)
qed

text \<open>The executor provides the two interfaces: for the children of every tree that can be executed.\<close>

definition executable :: "(nat list \<times> Expression) set \<Rightarrow> executor_env \<Rightarrow> function_rows \<Rightarrow> Expression \<Rightarrow> nat list \<Rightarrow> bool" where
  "executable C env fr e path \<longleftrightarrow> env_ok env \<and> typed env fr e \<and> nodes e path \<subseteq> C"

lemma children_none: "children run_kid filter_kid I 0 ty oc s r d"
  by unfold_locales simp_all

interpretation executor_children: children "kid_exec env e path" "kid_select env e path" "ready fr C"
  "if executable C env fr e path then length (kids e) else 0" "kid_type e" "kid_out env fr e" "chunk_rows env"
  "\<lambda>k. roomy (kids e ! k)" "\<lambda>k. dense (kids e ! k)" for env e path C fr
  using executor_kids [of env fr e path C] children_none [of "kid_exec env e path" "kid_select env e path" "ready fr C"]
  by (simp add: executable_def)

definition conjunction_arity :: "(nat list \<times> Expression) set \<Rightarrow> executor_env \<Rightarrow> function_rows \<Rightarrow> Expression \<Rightarrow> nat list \<Rightarrow> nat" where
  "conjunction_arity C env fr e path =
     (if executable C env fr e path then (case e of BoundConjunction _ cs \<Rightarrow> length cs | _ \<Rightarrow> 0) else 0)"

lemma executor_conjunction_node:
  "conjunction_node (kid_exec env e path) (kid_select env e path) (ready fr C) (conjunction_arity C env fr e path) (kid_type e) (kid_out env fr e)
     (chunk_rows env) (\<lambda>k. roomy (kids e ! k)) (\<lambda>k. dense (kids e ! k)) (\<lambda>w. adaptive w path)
     (\<lambda>af w. w\<lparr>adaptive := (adaptive w)(path := af)\<rparr>) (filter_clock env)"
proof (cases "conjunction_arity C env fr e path = 0")
  case True
  show ?thesis
    unfolding True by (intro conjunction_node.intro [OF children_none] conjunction_node_axioms.intro) simp_all
next
  case False
  then obtain et cs where e: "e = BoundConjunction et cs" and ok: "executable C env fr e path" and arity: "conjunction_arity C env fr e path = length (kids e)"
    by (cases e) (auto simp: conjunction_arity_def split: if_splits)
  have env: "env_ok env" "typed env fr e" "nodes e path \<subseteq> C" using ok by (auto simp: executable_def)
  have own: "(path, e) \<in> C" using env(3) nodes_self by blast
  have "100 * (length (kids e) - 1) < 2 ^ 32" using typedD(1) [OF env(2)] by (simp add: node_typed_def e)
  then show ?thesis unfolding arity by (rule conjunction_kids [OF executor_kids [OF env] env(1) e own])
qed

interpretation executor_conjunction: conjunction_node "kid_exec env e path" "kid_select env e path" "ready fr C"
  "conjunction_arity C env fr e path" "kid_type e" "kid_out env fr e" "chunk_rows env"
  "\<lambda>k. roomy (kids e ! k)" "\<lambda>k. dense (kids e ! k)" "\<lambda>w. adaptive w path"
  "\<lambda>af w. w\<lparr>adaptive := (adaptive w)(path := af)\<rparr>" "filter_clock env" for env e path C fr
  by (rule executor_conjunction_node)

text \<open>The whole executor on the rows of the chunk.\<close>

lemma Execute_yields:
  assumes "env_ok env" and "typed env fr e" and "nodes e path \<subseteq> C" and "exec_pre env e sel n res"
  shows "yields (ready fr C) (evals (return_type e) (out env fr e) (sel_rows sel n)) (Execute env e path sel n res)"
  using execute_yields [OF executor_kids [OF assms(1-3)] assms(1,2) _ assms(4)] assms(3) nodes_self by blast

lemma Select_yields:
  assumes "env_ok env" and "typed env fr e" and "nodes e path \<subseteq> C" and "select_pre env e ref n ts fs"
  shows "yields (ready fr C) (filters (out env fr e) (ref_rows ref ts fs n) ts fs) (Select env e path ref n ts fs)"
  by (rule select_yields [OF executor_kids [OF assms(1-3)] assms])

section \<open>Errors\<close>

text \<open>The errors of a tree come from its functions and casts.\<close>

definition call_errors :: "function_rows \<Rightarrow> error set \<Rightarrow> Expression \<Rightarrow> bool" where
  "call_errors fr E e \<longleftrightarrow>
     (case e of
        BoundFunction _ _ _ \<Rightarrow> \<forall>ys err. Inl err \<in> fn_rows fr e ys \<longrightarrow> err \<in> E
      | BoundCast _ _ _ \<Rightarrow> \<forall>y err. Inl err \<in> cast_rows fr e y \<longrightarrow> err \<in> E
      | _ \<Rightarrow> True)"

function raises_only :: "function_rows \<Rightarrow> error set \<Rightarrow> Expression \<Rightarrow> bool" where
  "raises_only fr E e \<longleftrightarrow> call_errors fr E e \<and> (\<forall>c \<in> set (kids e). raises_only fr E c)"
  by pat_completeness auto
termination
  by (relation "measure (\<lambda>(_, _, e). size e)") (auto dest!: kids_size)

declare raises_only.simps [simp del]

lemma strict_out_errors: "Inl err \<in> strict_out F As \<Longrightarrow> (\<And>A. A \<in> set As \<Longrightarrow> Inl err \<notin> A) \<Longrightarrow> \<exists>ys. Inl err \<in> F ys"
  by (auto simp: strict_out_def)

lemma no_pure_errors [simp]:
  "Inl err \<notin> compare_out et ys" "Inl err \<notin> between_out li ui ys" "Inl err \<notin> in_rows b ys" "Inl err \<notin> unary_rows et ys"
proof -
  show "Inl err \<notin> compare_out et ys" by (cases "(et, ys)" rule: compare_out.cases) simp_all
  show "Inl err \<notin> between_out li ui ys" by (cases "(li, ui, ys)" rule: between_out.cases) simp_all
  show "Inl err \<notin> in_rows b ys" "Inl err \<notin> unary_rows et ys" by (cases ys; simp)+
qed

lemma case_out_errors: "Inl err \<in> case_out oc els is x \<Longrightarrow> \<exists>k. Inl err \<in> oc k x"
  by (induction "is") (auto split: if_splits)

lemma coalesce_out_errors: "Inl err \<in> coalesce_out oc ks x \<Longrightarrow> \<exists>k. Inl err \<in> oc k x"
  by (induction ks) (auto split: if_splits)

lemma out_errors:
  assumes "raises_only fr E e" and "Inl err \<in> out env fr e x"
  shows "err \<in> E"
  using assms
proof (induction e rule: measure_induct_rule [of size])
  case (less e)
  have own: "call_errors fr E e" using less.prems(1) unfolding raises_only.simps [of fr E e] by simp
  have kid: "err \<in> E" if "Inl err \<in> kid_out env fr e k x" for k
  proof -
    have k: "k < length (kids e)" "Inl err \<in> out env fr (kids e ! k) x" using that by (auto simp: kid_out_def split: if_splits)
    have "raises_only fr E (kids e ! k)" using less.prems(1) nth_mem [OF k(1)] unfolding raises_only.simps [of fr E e] by blast
    with less.IH [OF kids_size [OF nth_mem [OF k(1)]]] k(2) show ?thesis by blast
  qed
  have strict: "err \<in> E" if "Inl err \<in> strict_out F (map (\<lambda>k. kid_out env fr e k x) ks)" "\<And>ys. Inl err \<in> F ys \<Longrightarrow> err \<in> E" for F ks
    using strict_out_errors [OF that(1)] that(2) kid by auto
  note out = less.prems(2) [unfolded out_unfold [of env fr e] node_out_def Let_def]
  let ?all = "map (\<lambda>k. kid_out env fr e k x) [0..<length (kids e)]"
  show ?case
  proof (cases e)
    case (BoundReference t i)
    with out show ?thesis by (auto split: option.splits)
  next
    case (BoundComparison et l r)
    from out have "Inl err \<in> strict_out (compare_out et) ?all" unfolding BoundComparison Expression.case .
    from strict [OF this] show ?thesis by simp
  next
    case (BoundConjunction et cs)
    with out kid show ?thesis by (auto simp: conj_out_def)
  next
    case (BoundOperator et t cs)
    from out have "Inl err \<in> operator_out et (length cs) (kid_out env fr e) x" unfolding BoundOperator Expression.case .
    then consider (isin) F where "Inl err \<in> strict_out F (map (\<lambda>k. kid_out env fr e k x) [0..<length cs])" "F = in_rows (et = ET_COMPARE_NOT_IN)"
      | (coalesce) "Inl err \<in> coalesce_out (kid_out env fr e) [0..<length cs] x" | (attempt) "Inl err \<in> try_out (kid_out env fr e 0 x)"
      | (unary) "Inl err \<in> strict_out (unary_rows et) (map (\<lambda>k. kid_out env fr e k x) [0])"
      unfolding operator_out_def by (simp split: if_splits)
    then show ?thesis
    proof cases
      case isin
      with strict [OF isin(1)] show ?thesis by simp
    next
      case coalesce
      with coalesce_out_errors kid show ?thesis by blast
    next
      case attempt
      with kid show ?thesis by (auto simp: try_out_def)
    next
      case unary
      from strict [OF this] show ?thesis by simp
    qed
  next
    case (BoundFunction t f cs)
    from out have "Inl err \<in> strict_out (fn_rows fr e) ?all" unfolding BoundFunction Expression.case .
    from strict [OF this] own show ?thesis by (auto simp: BoundFunction call_errors_def)
  next
    case (BoundCast t b c)
    from out have "Inl err \<in> strict_out (\<lambda>ys. cast_rows fr e (ys ! 0)) ?all" unfolding BoundCast Expression.case .
    from strict [OF this] own show ?thesis by (auto simp: BoundCast call_errors_def)
  next
    case (BoundCase t checks els)
    from out case_out_errors kid show ?thesis unfolding BoundCase Expression.case by blast
  next
    case (BoundBetween li ui i l u)
    from out have "Inl err \<in> strict_out (between_out li ui) ?all" unfolding BoundBetween Expression.case .
    from strict [OF this] show ?thesis by simp
  qed (use out in auto)
qed

end
