(* ===== verification/Hugeint.thy ===== *)
theory Hugeint
  imports Prelude
begin

text \<open>
  128-bit integers as two 64-bit halves (\<open>hugeint.hpp\<close>, \<open>hugeint.cpp\<close>, \<open>uhugeint.cpp\<close>): negation,
  addition, subtraction and multiplication with overflow detection. The upper half of a \<open>hugeint_t\<close>
  is an \<open>int64_t\<close>: arithmetic on it that leaves the type is undefined behaviour and is modelled as the
  error \<open>Undefined\<close>, so the theorems also show that it does not happen. Multiplication is the branch for
  compilers with \<open>__int128\<close>.
\<close>

section \<open>Representation\<close>

abbreviation I64_MAX :: int where "I64_MAX \<equiv> 9223372036854775807"
abbreviation I64_MIN :: int where "I64_MIN \<equiv> - 9223372036854775808"
abbreviation TWO64 :: int where "TWO64 \<equiv> 18446744073709551616"
abbreviation TWO127 :: int where "TWO127 \<equiv> 170141183460469231731687303715884105728"

definition i64 :: "int \<Rightarrow> int result" where
  "i64 x = (if I64_MIN \<le> x \<and> x \<le> I64_MAX then Inr x else Inl Undefined)"

record hugeint_t =
  h_lower :: u64
  h_upper :: int

record uhugeint_t =
  uh_lower :: u64
  uh_upper :: u64

section \<open>Operations\<close>

definition NegateInPlace :: "hugeint_t \<Rightarrow> hugeint_t result" where
  "NegateInPlace inp =
     (let lower = - 1 - h_lower inp + 1 in
      bindE (i64 (- 1 - h_upper inp)) (\<lambda>u.
      bindE (i64 (u + of_bool (lower = 0))) (\<lambda>u. Inr \<lparr>h_lower = lower, h_upper = u\<rparr>)))"

definition TryNegate :: "hugeint_t \<Rightarrow> (bool \<times> hugeint_t) result" where
  "TryNegate inp =
     (if h_upper inp = I64_MIN \<and> h_lower inp = 0 then Inr (False, inp)
      else bindE (NegateInPlace inp) (\<lambda>r. Inr (True, r)))"

definition Hugeint_TryAddInPlace :: "hugeint_t \<Rightarrow> hugeint_t \<Rightarrow> (bool \<times> hugeint_t) result" where
  "Hugeint_TryAddInPlace lhs rhs =
     (let overflow = of_bool (h_lower lhs + h_lower rhs < h_lower lhs) in
      if h_upper rhs \<ge> 0 then
        bindE (i64 (I64_MAX - h_upper rhs)) (\<lambda>x.
        bindE (i64 (x - overflow)) (\<lambda>bound.
          if h_upper lhs > bound then Inr (False, lhs)
          else
            bindE (i64 (h_upper lhs + overflow)) (\<lambda>y.
            bindE (i64 (y + h_upper rhs)) (\<lambda>u. Inr (True, \<lparr>h_lower = h_lower lhs + h_lower rhs, h_upper = u\<rparr>)))))
      else
        bindE (i64 (I64_MIN - h_upper rhs)) (\<lambda>x.
        bindE (i64 (x - overflow)) (\<lambda>bound.
          if h_upper lhs < bound then Inr (False, lhs)
          else
            bindE (i64 (overflow + h_upper rhs)) (\<lambda>y.
            bindE (i64 (h_upper lhs + y)) (\<lambda>u. Inr (True, \<lparr>h_lower = h_lower lhs + h_lower rhs, h_upper = u\<rparr>))))))"

definition Hugeint_TrySubtractInPlace :: "hugeint_t \<Rightarrow> hugeint_t \<Rightarrow> (bool \<times> hugeint_t) result" where
  "Hugeint_TrySubtractInPlace lhs rhs =
     (let underflow = of_bool (h_lower lhs - h_lower rhs > h_lower lhs) in
      if h_upper rhs \<ge> 0 then
        bindE (i64 (I64_MIN + h_upper rhs)) (\<lambda>x.
        bindE (i64 (x + underflow)) (\<lambda>bound.
          if h_upper lhs < bound then Inr (False, lhs)
          else
            bindE (i64 (h_upper lhs - h_upper rhs)) (\<lambda>y.
            bindE (i64 (y - underflow)) (\<lambda>u. Inr (True, \<lparr>h_lower = h_lower lhs - h_lower rhs, h_upper = u\<rparr>)))))
      else
        bindE (if h_upper lhs > I64_MIN then
                 bindE (i64 (h_upper lhs - 1)) (\<lambda>l.
                 bindE (i64 (I64_MAX + h_upper rhs)) (\<lambda>x.
                 bindE (i64 (x + underflow)) (\<lambda>bound. Inr (l \<ge> bound))))
               else Inr False) (\<lambda>overflow.
          if overflow then Inr (False, lhs)
          else
            bindE (i64 (h_upper rhs + underflow)) (\<lambda>y.
            bindE (i64 (h_upper lhs - y)) (\<lambda>u. Inr (True, \<lparr>h_lower = h_lower lhs - h_lower rhs, h_upper = u\<rparr>)))))"

text \<open>The operand as \<open>__uint128_t\<close>, and the multiplication after the signs are removed.\<close>

definition uint128 :: "hugeint_t \<Rightarrow> int" where
  "uint128 h = take_bit 128 (uint (h_lower h) + push_bit 64 (take_bit 128 (h_upper h)))"

definition multiply_magnitudes :: "hugeint_t \<Rightarrow> hugeint_t \<Rightarrow> hugeint_t option" where
  "multiply_magnitudes lhs rhs =
     (let result_i128 = uint128 lhs * uint128 rhs in
      if result_i128 \<ge> 2 ^ 128 then None
      else
        let upper = take_bit 64 (drop_bit 64 result_i128) in
        if bit upper 63 then None
        else Some \<lparr>h_lower = word_of_int result_i128, h_upper = upper\<rparr>)"

definition Hugeint_Minimum :: hugeint_t where
  "Hugeint_Minimum = \<lparr>h_lower = 0, h_upper = I64_MIN\<rparr>"

definition hugeint_of :: "int \<Rightarrow> hugeint_t" where
  "hugeint_of v = \<lparr>h_lower = word_of_int v, h_upper = v div TWO64\<rparr>"

definition Hugeint_TryMultiply :: "hugeint_t \<Rightarrow> hugeint_t \<Rightarrow> hugeint_t option result" where
  "Hugeint_TryMultiply lhs rhs =
     (if lhs = Hugeint_Minimum \<or> rhs = Hugeint_Minimum then
        (if lhs = hugeint_of 0 \<or> rhs = hugeint_of 0 then Inr (Some (hugeint_of 0))
         else if lhs = hugeint_of 1 \<or> rhs = hugeint_of 1 then Inr (Some Hugeint_Minimum)
         else Inr None)
      else
        let lhs_negative = h_upper lhs < 0; rhs_negative = h_upper rhs < 0 in
        bindE (if lhs_negative then TryNegate lhs else Inr (True, lhs)) (\<lambda>(lhs_ok, lhs).
        if \<not> lhs_ok then Inr None
        else
          bindE (if rhs_negative then TryNegate rhs else Inr (True, rhs)) (\<lambda>(rhs_ok, rhs).
          if \<not> rhs_ok then Inr None
          else
            case multiply_magnitudes lhs rhs of
              None \<Rightarrow> Inr None
            | Some r \<Rightarrow> if lhs_negative \<noteq> rhs_negative then bindE (NegateInPlace r) (\<lambda>r. Inr (Some r)) else Inr (Some r))))"

definition Uhugeint_TryAddInPlace :: "uhugeint_t \<Rightarrow> uhugeint_t \<Rightarrow> bool \<times> uhugeint_t" where
  "Uhugeint_TryAddInPlace lhs rhs =
     (let new_upper = uh_upper lhs + uh_upper rhs;
          no_overflow = (\<not> (new_upper < uh_upper lhs \<or> new_upper < uh_upper rhs));
          new_upper = new_upper + of_bool (uh_lower lhs + uh_lower rhs < uh_lower lhs);
          no_overflow = (if new_upper < uh_upper lhs \<or> new_upper < uh_upper rhs then False else no_overflow)
      in (no_overflow, \<lparr>uh_lower = uh_lower lhs + uh_lower rhs, uh_upper = new_upper\<rparr>))"

definition Uhugeint_TrySubtractInPlace :: "uhugeint_t \<Rightarrow> uhugeint_t \<Rightarrow> bool \<times> uhugeint_t" where
  "Uhugeint_TrySubtractInPlace lhs rhs =
     (let new_upper = uh_upper lhs - uh_upper rhs - of_bool (uh_lower lhs - uh_lower rhs > uh_lower lhs);
          no_overflow = (\<not> new_upper > uh_upper lhs)
      in (no_overflow, \<lparr>uh_lower = uh_lower lhs - uh_lower rhs, uh_upper = new_upper\<rparr>))"

definition Uhugeint_TryMultiply :: "uhugeint_t \<Rightarrow> uhugeint_t \<Rightarrow> uhugeint_t option" where
  "Uhugeint_TryMultiply lhs rhs =
     (let left = uint (uh_lower lhs) + push_bit 64 (uint (uh_upper lhs));
          right = uint (uh_lower rhs) + push_bit 64 (uint (uh_upper rhs));
          result_u128 = left * right in
      if result_u128 \<ge> 2 ^ 128 then None
      else Some \<lparr>uh_lower = word_of_int result_u128, uh_upper = word_of_int (drop_bit 64 result_u128)\<rparr>)"

section \<open>Values\<close>

definition huge_val :: "hugeint_t \<Rightarrow> int" where
  "huge_val h = h_upper h * TWO64 + uint (h_lower h)"

definition hugeint_wf :: "hugeint_t \<Rightarrow> bool" where
  "hugeint_wf h \<longleftrightarrow> I64_MIN \<le> h_upper h \<and> h_upper h \<le> I64_MAX"

definition uhuge_val :: "uhugeint_t \<Rightarrow> int" where
  "uhuge_val h = uint (uh_upper h) * TWO64 + uint (uh_lower h)"

definition uhugeint_of :: "int \<Rightarrow> uhugeint_t" where
  "uhugeint_of v = \<lparr>uh_lower = word_of_int v, uh_upper = word_of_int (v div TWO64)\<rparr>"

definition in_int128 :: "int \<Rightarrow> bool" where
  "in_int128 v \<longleftrightarrow> - TWO127 \<le> v \<and> v < TWO127"

definition in_uint128 :: "int \<Rightarrow> bool" where
  "in_uint128 v \<longleftrightarrow> 0 \<le> v \<and> v < TWO64 * TWO64"

lemma uint64_bounds: "0 \<le> uint (w :: u64)" "uint (w :: u64) < TWO64"
  using uint_lt2p [of w] by simp_all

lemma uint_of_int64: "uint (word_of_int v :: u64) = v mod TWO64"
  by (simp add: uint_word_of_int)

text \<open>A quotient with a remainder below the divisor.\<close>

lemma halves:
  assumes "0 \<le> r" "r < TWO64"
  shows "(q * TWO64 + r) div TWO64 = q" and "(q * TWO64 + r) mod TWO64 = r"
  using assms by simp_all

lemma huge_val_of [simp]: "huge_val (hugeint_of v) = v"
  using div_mult_mod_eq [of v TWO64] by (simp add: huge_val_def hugeint_of_def uint_of_int64)

lemma hugeint_eqI: "huge_val a = v \<Longrightarrow> a = hugeint_of v"
proof -
  assume "huge_val a = v"
  then have v: "v = h_upper a * TWO64 + uint (h_lower a)" by (simp add: huge_val_def)
  have "uint (word_of_int v :: u64) = uint (h_lower a)"
    unfolding uint_of_int64 v by (rule halves(2) [OF uint64_bounds])
  moreover have "v div TWO64 = h_upper a"
    unfolding v by (rule halves(1) [OF uint64_bounds])
  ultimately show ?thesis by (cases a) (simp add: hugeint_of_def word_uint_eq_iff)
qed

lemma hugeint_of_wf: "in_int128 v \<Longrightarrow> hugeint_wf (hugeint_of v)"
proof -
  assume "in_int128 v"
  then have "(- TWO127) div TWO64 \<le> v div TWO64" "v div TWO64 \<le> (TWO127 - 1) div TWO64"
    unfolding in_int128_def by (auto intro: zdiv_mono1)
  then show ?thesis by (simp add: hugeint_wf_def hugeint_of_def)
qed

lemma huge_val_range: "hugeint_wf h \<Longrightarrow> in_int128 (huge_val h)"
  using uint64_bounds [of "h_lower h"] unfolding hugeint_wf_def huge_val_def in_int128_def by linarith

lemma int128_halves: "0 \<le> r \<Longrightarrow> r < TWO64 \<Longrightarrow> in_int128 (u * TWO64 + r) \<longleftrightarrow> I64_MIN \<le> u \<and> u \<le> I64_MAX"
  unfolding in_int128_def by linarith

lemma uint128_halves: "0 \<le> r \<Longrightarrow> r < TWO64 \<Longrightarrow> in_uint128 (u * TWO64 + r) \<longleftrightarrow> 0 \<le> u \<and> u < TWO64"
  unfolding in_uint128_def by linarith

section \<open>Negation, addition and subtraction are exact\<close>

text \<open>A carry out of the lower halves, and a borrow.\<close>

lemma carry:
  "uint ((a :: u64) + b) = uint a + uint b - TWO64 * of_bool (a + b < a)"
  "uint (a - b) = uint a - uint b + TWO64 * of_bool (a < a - b)"
  using uint64_bounds [of a] uint64_bounds [of b]
  by (auto simp: uint_plus_if' uint_sub_if' word_less_def split: if_splits)

lemma i64_ok: "I64_MIN \<le> x \<Longrightarrow> x \<le> I64_MAX \<Longrightarrow> i64 x = Inr x"
  by (simp add: i64_def)

lemma add_exact:
  assumes "hugeint_wf lhs" and "hugeint_wf rhs"
  shows "Hugeint_TryAddInPlace lhs rhs =
    Inr (if in_int128 (huge_val lhs + huge_val rhs) then (True, hugeint_of (huge_val lhs + huge_val rhs)) else (False, lhs))"
proof -
  define c :: int where "c = of_bool (h_lower lhs + h_lower rhs < h_lower lhs)"
  define u where "u = h_upper lhs + h_upper rhs + c"
  have c: "0 \<le> c" "c \<le> 1" by (simp_all add: c_def)
  have lo: "uint (h_lower lhs + h_lower rhs) = uint (h_lower lhs) + uint (h_lower rhs) - TWO64 * c"
    unfolding c_def by (rule carry)
  have val: "huge_val \<lparr>h_lower = h_lower lhs + h_lower rhs, h_upper = u\<rparr> = huge_val lhs + huge_val rhs"
    by (simp add: huge_val_def lo u_def algebra_simps)
  have range: "in_int128 (huge_val lhs + huge_val rhs) \<longleftrightarrow> I64_MIN \<le> u \<and> u \<le> I64_MAX"
    unfolding val [symmetric] unfolding huge_val_def by (simp only: int128_halves [OF uint64_bounds] hugeint_t.simps)
  note r = assms [unfolded hugeint_wf_def]
  have "Hugeint_TryAddInPlace lhs rhs =
      Inr (if I64_MIN \<le> u \<and> u \<le> I64_MAX then (True, \<lparr>h_lower = h_lower lhs + h_lower rhs, h_upper = u\<rparr>) else (False, lhs))"
    unfolding Hugeint_TryAddInPlace_def c_def [symmetric] Let_def using r c
    by (auto simp: i64_ok u_def i64_def algebra_simps)
  then show ?thesis
    unfolding range using hugeint_eqI [OF val] by simp
qed


lemma subtract_exact:
  assumes "hugeint_wf lhs" and "hugeint_wf rhs"
  shows "Hugeint_TrySubtractInPlace lhs rhs =
    Inr (if in_int128 (huge_val lhs - huge_val rhs) then (True, hugeint_of (huge_val lhs - huge_val rhs)) else (False, lhs))"
proof -
  define c :: int where "c = of_bool (h_lower lhs < h_lower lhs - h_lower rhs)"
  define u where "u = h_upper lhs - h_upper rhs - c"
  have c: "0 \<le> c" "c \<le> 1" by (simp_all add: c_def)
  have lo: "uint (h_lower lhs - h_lower rhs) = uint (h_lower lhs) - uint (h_lower rhs) + TWO64 * c"
    unfolding c_def by (rule carry)
  have val: "huge_val \<lparr>h_lower = h_lower lhs - h_lower rhs, h_upper = u\<rparr> = huge_val lhs - huge_val rhs"
    by (simp add: huge_val_def lo u_def algebra_simps)
  have range: "in_int128 (huge_val lhs - huge_val rhs) \<longleftrightarrow> I64_MIN \<le> u \<and> u \<le> I64_MAX"
    unfolding val [symmetric] unfolding huge_val_def by (simp only: int128_halves [OF uint64_bounds] hugeint_t.simps)
  note r = assms [unfolded hugeint_wf_def]
  have "Hugeint_TrySubtractInPlace lhs rhs =
      Inr (if I64_MIN \<le> u \<and> u \<le> I64_MAX then (True, \<lparr>h_lower = h_lower lhs - h_lower rhs, h_upper = u\<rparr>) else (False, lhs))"
    unfolding Hugeint_TrySubtractInPlace_def c_def [symmetric] Let_def using r c
    by (auto simp: i64_ok u_def i64_def algebra_simps)
  then show ?thesis
    unfolding range using hugeint_eqI [OF val] by simp
qed

lemma negate_lower: "uint (- (w :: u64)) = (if w = 0 then 0 else TWO64 - uint w)"
proof -
  have "w \<noteq> 0 \<Longrightarrow> 0 < uint (- w)" by (simp add: less_le unsigned_eq_0_iff)
  then show ?thesis using carry(2) [of 0 w] by (auto simp: word_less_def)
qed

lemma NegateInPlace_exact:
  assumes "hugeint_wf h" and "huge_val h \<noteq> - TWO127"
  shows "NegateInPlace h = Inr (hugeint_of (- huge_val h))"
proof -
  define c :: int where "c = of_bool (h_lower h = 0)"
  define u where "u = - 1 - h_upper h + c"
  have val: "huge_val \<lparr>h_lower = - h_lower h, h_upper = u\<rparr> = - huge_val h"
    by (simp add: huge_val_def negate_lower u_def c_def)
  have "h_lower h = 0 \<Longrightarrow> h_upper h \<noteq> I64_MIN" using assms(2) by (auto simp: huge_val_def)
  then have "NegateInPlace h = Inr \<lparr>h_lower = - h_lower h, h_upper = u\<rparr>"
    using assms(1) by (auto simp: NegateInPlace_def hugeint_wf_def i64_ok u_def c_def)
  then show ?thesis using hugeint_eqI [OF val] by simp
qed


section \<open>Multiplication\<close>

lemma uint128_val: "hugeint_wf h \<Longrightarrow> 0 \<le> h_upper h \<Longrightarrow> uint128 h = huge_val h"
proof -
  assume h: "hugeint_wf h" "0 \<le> h_upper h"
  have "take_bit 128 (h_upper h) = h_upper h"
    using h by (simp add: take_bit_int_eq_self_iff hugeint_wf_def)
  moreover have "take_bit 128 (huge_val h) = huge_val h"
    using huge_val_range [OF h(1)] h(2) uint64_bounds [of "h_lower h"]
    by (simp add: take_bit_int_eq_self_iff in_int128_def huge_val_def)
  ultimately show ?thesis
    by (simp add: uint128_def push_bit_eq_mult huge_val_def add.commute)
qed

lemma upper_nonneg: "0 \<le> h_upper h \<longleftrightarrow> 0 \<le> huge_val h"
  using uint64_bounds [of "h_lower h"] unfolding huge_val_def by linarith

lemma multiply_magnitudes_exact:
  assumes "hugeint_wf a" "hugeint_wf b" "0 \<le> huge_val a" "0 \<le> huge_val b"
  shows "multiply_magnitudes a b = (if huge_val a * huge_val b < TWO127 then Some (hugeint_of (huge_val a * huge_val b)) else None)"
proof -
  define p where "p = huge_val a * huge_val b"
  have p: "uint128 a * uint128 b = p" "0 \<le> p"
    using assms uint128_val upper_nonneg by (simp_all add: p_def)
  have top: "bit (p div TWO64) 63 \<longleftrightarrow> TWO127 \<le> p" if "p < 2 ^ 128"
  proof -
    have "p div TWO64 < 2 * 2 ^ 63" "0 \<le> p div TWO64" using that p(2) by (simp_all add: div_less_iff_less_mult)
    then have "p div TWO64 div 2 ^ 63 = of_bool (2 ^ 63 \<le> p div TWO64)"
      using div_pos_pos_trivial [of "p div TWO64 - 2 ^ 63" "2 ^ 63"] div_add_self2 [of "2 ^ 63" "p div TWO64 - 2 ^ 63"]
      by (cases "2 ^ 63 \<le> p div TWO64") simp_all
    moreover have "2 ^ 63 \<le> p div TWO64 \<longleftrightarrow> TWO127 \<le> p"
      using div_mult_mod_eq [of p TWO64] pos_mod_bound [of TWO64 p] pos_mod_sign [of TWO64 p] by simp linarith
    ultimately show ?thesis by (simp add: bit_iff_odd)
  qed
  have up: "take_bit 64 (p div TWO64) = p div TWO64" if "p < 2 ^ 128"
  proof -
    have "p div TWO64 < TWO64"
      using div_mult_mod_eq [of p TWO64] pos_mod_sign [of TWO64 p] that by simp
    then show ?thesis using p(2) by (simp add: take_bit_int_eq_self_iff pos_imp_zdiv_nonneg_iff)
  qed
  show ?thesis
    unfolding multiply_magnitudes_def p(1) p_def [symmetric] Let_def using top up
    by (auto simp: hugeint_of_def drop_bit_eq_div)
qed


text \<open>
  The product is computed on the magnitudes, which both have to stay below \<open>2 ^ 127\<close>: a product that is
  exactly the minimum of the type counts as an overflow unless an operand is the minimum itself.
\<close>

lemma TryNegate_exact:
  assumes "hugeint_wf h" and "huge_val h \<noteq> - TWO127"
  shows "TryNegate h = Inr (True, hugeint_of (- huge_val h))"
proof -
  have "\<not> (h_upper h = I64_MIN \<and> h_lower h = 0)" using assms(2) by (auto simp: huge_val_def)
  then show ?thesis using NegateInPlace_exact [OF assms] by (simp add: TryNegate_def)
qed

lemma Minimum_val: "Hugeint_Minimum = hugeint_of (- TWO127)"
  by (simp add: Hugeint_Minimum_def hugeint_of_def)

lemma eq_hugeint_of: "h = hugeint_of v \<longleftrightarrow> huge_val h = v"
  using hugeint_eqI by auto

definition mul128 :: "int \<Rightarrow> int \<Rightarrow> int option" where
  "mul128 a b =
     (if a = - TWO127 \<or> b = - TWO127 then (if a * b = 0 \<or> a * b = - TWO127 then Some (a * b) else None)
      else if \<bar>a * b\<bar> < TWO127 then Some (a * b) else None)"

lemma magnitude:
  assumes "hugeint_wf h" "huge_val h \<noteq> - TWO127"
  shows "\<exists>m. (if h_upper h < 0 then TryNegate h else Inr (True, h)) = Inr (True, m) \<and> hugeint_wf m \<and> huge_val m = \<bar>huge_val h\<bar>"
proof (cases "h_upper h < 0")
  case True
  then have "huge_val h < 0" using upper_nonneg [of h] by simp
  with True TryNegate_exact [OF assms] huge_val_range [OF assms(1)] assms(2) show ?thesis
    by (auto intro!: hugeint_of_wf simp: in_int128_def)
next
  case False
  then have "0 \<le> huge_val h" using upper_nonneg [of h] by simp
  with False assms show ?thesis by auto
qed

lemma multiply_exact:
  assumes "hugeint_wf lhs" and "hugeint_wf rhs"
  shows "Hugeint_TryMultiply lhs rhs = Inr (map_option hugeint_of (mul128 (huge_val lhs) (huge_val rhs)))"
proof (cases "huge_val lhs = - TWO127 \<or> huge_val rhs = - TWO127")
  case True
  have eq: "a * b = - TWO127 \<longleftrightarrow> a = 1 \<or> b = 1" if "a = - TWO127 \<or> b = - TWO127" "\<not> (a = 0 \<or> b = 0)" for a b :: int
    using that by auto
  have "Hugeint_TryMultiply lhs rhs =
      Inr (if huge_val lhs = 0 \<or> huge_val rhs = 0 then Some (hugeint_of 0)
        else if huge_val lhs = 1 \<or> huge_val rhs = 1 then Some (hugeint_of (- TWO127)) else None)"
    using True by (simp add: Hugeint_TryMultiply_def Minimum_val eq_hugeint_of)
  then show ?thesis
    using True eq [OF True] by (auto simp: mul128_def)
next
  case False
  define p where "p = huge_val lhs * huge_val rhs"
  have no_min: "huge_val lhs \<noteq> - TWO127" "huge_val rhs \<noteq> - TWO127" using False by blast+
  obtain l where l: "(if h_upper lhs < 0 then TryNegate lhs else Inr (True, lhs)) = Inr (True, l)" "hugeint_wf l" "huge_val l = \<bar>huge_val lhs\<bar>"
    using magnitude [OF assms(1) no_min(1)] by blast
  obtain r where r: "(if h_upper rhs < 0 then TryNegate rhs else Inr (True, rhs)) = Inr (True, r)" "hugeint_wf r" "huge_val r = \<bar>huge_val rhs\<bar>"
    using magnitude [OF assms(2) no_min(2)] by blast
  have m: "multiply_magnitudes l r = (if \<bar>p\<bar> < TWO127 then Some (hugeint_of \<bar>p\<bar>) else None)"
    using multiply_magnitudes_exact [OF l(2) r(2)] l(3) r(3) by (simp add: p_def abs_mult)
  have sign: "(h_upper lhs < 0) \<noteq> (h_upper rhs < 0) \<Longrightarrow> p \<le> 0" "(h_upper lhs < 0) = (h_upper rhs < 0) \<Longrightarrow> 0 \<le> p"
    using upper_nonneg [of lhs] upper_nonneg [of rhs] by (auto simp: p_def mult_le_0_iff zero_le_mult_iff)
  have neg: "NegateInPlace (hugeint_of \<bar>p\<bar>) = Inr (hugeint_of (- \<bar>p\<bar>))" if "\<bar>p\<bar> < TWO127"
    using that by (subst NegateInPlace_exact) (auto intro!: hugeint_of_wf simp: in_int128_def)
  have "Hugeint_TryMultiply lhs rhs = Inr (if \<bar>p\<bar> < TWO127 then Some (hugeint_of p) else None)"
  proof (cases "\<bar>p\<bar> < TWO127")
    case True
    then have "Hugeint_TryMultiply lhs rhs =
        (if (h_upper lhs < 0) \<noteq> (h_upper rhs < 0) then Inr (Some (hugeint_of (- \<bar>p\<bar>))) else Inr (Some (hugeint_of \<bar>p\<bar>)))"
      using False l(1) r(1) m neg by (simp add: Hugeint_TryMultiply_def Minimum_val eq_hugeint_of)
    with True sign show ?thesis by (simp split: if_splits)
  next
    case big: False
    with False l(1) r(1) m show ?thesis by (simp add: Hugeint_TryMultiply_def Minimum_val eq_hugeint_of)
  qed
  then show ?thesis
    using False by (simp add: mul128_def p_def)
qed


section \<open>Unsigned integers\<close>

lemma uhuge_val_bounds: "in_uint128 (uhuge_val h)"
  using uint64_bounds [of "uh_lower h"] uint64_bounds [of "uh_upper h"] unfolding in_uint128_def uhuge_val_def by linarith

lemma uhugeint_eqI: "uhuge_val a = v \<Longrightarrow> a = uhugeint_of v"
proof -
  assume "uhuge_val a = v"
  then have v: "v = uint (uh_upper a) * TWO64 + uint (uh_lower a)" by (simp add: uhuge_val_def)
  have "uint (word_of_int v :: u64) = uint (uh_lower a)"
    unfolding uint_of_int64 v by (rule halves(2) [OF uint64_bounds])
  moreover have "v div TWO64 = uint (uh_upper a)"
    unfolding v by (rule halves(1) [OF uint64_bounds])
  ultimately show ?thesis by (cases a) (simp add: uhugeint_of_def word_uint_eq_iff)
qed

lemma uadd_exact:
  assumes "Uhugeint_TryAddInPlace lhs rhs = (no_overflow, res)"
  shows "no_overflow = in_uint128 (uhuge_val lhs + uhuge_val rhs)"
    and "no_overflow \<Longrightarrow> res = uhugeint_of (uhuge_val lhs + uhuge_val rhs)"
proof -
  define a b where "a = uint (uh_upper lhs)" and "b = uint (uh_upper rhs)"
  define c :: int where "c = of_bool (uh_lower lhs + uh_lower rhs < uh_lower lhs)"
  define n where "n = uint (uh_upper lhs + uh_upper rhs + of_bool (uh_lower lhs + uh_lower rhs < uh_lower lhs))"
  have ab: "0 \<le> a" "a < TWO64" "0 \<le> b" "b < TWO64" unfolding a_def b_def by (rule uint64_bounds)+
  have c: "c = 0 \<or> c = 1" by (simp add: c_def)
  have s: "uint (uh_upper lhs + uh_upper rhs) = (if a + b < TWO64 then a + b else a + b - TWO64)"
    by (simp add: uint_plus_if' a_def b_def)
  have n: "n = (if uint (uh_upper lhs + uh_upper rhs) + c < TWO64 then uint (uh_upper lhs + uh_upper rhs) + c
      else uint (uh_upper lhs + uh_upper rhs) + c - TWO64)"
    by (simp add: n_def c_def uint_plus_if')
  have lo: "uint (uh_lower lhs + uh_lower rhs) = uint (uh_lower lhs) + uint (uh_lower rhs) - TWO64 * c"
    unfolding c_def by (rule carry)
  have sum: "uhuge_val lhs + uhuge_val rhs = (a + b + c) * TWO64 + uint (uh_lower lhs + uh_lower rhs)"
    by (simp add: uhuge_val_def lo a_def b_def algebra_simps)
  have range: "in_uint128 (uhuge_val lhs + uhuge_val rhs) \<longleftrightarrow> a + b + c < TWO64"
    unfolding sum uint128_halves [OF uint64_bounds] using ab c by linarith
  have no: "no_overflow \<longleftrightarrow> \<not> (uint (uh_upper lhs + uh_upper rhs) < a \<or> uint (uh_upper lhs + uh_upper rhs) < b) \<and> \<not> (n < a \<or> n < b)"
    and res: "res = \<lparr>uh_lower = uh_lower lhs + uh_lower rhs,
      uh_upper = uh_upper lhs + uh_upper rhs + of_bool (uh_lower lhs + uh_lower rhs < uh_lower lhs)\<rparr>"
    using assms by (auto simp: Uhugeint_TryAddInPlace_def Let_def word_less_def a_def b_def n_def split: if_splits)
  show 1: "no_overflow = in_uint128 (uhuge_val lhs + uhuge_val rhs)"
    unfolding no range using c ab by (simp only: s n split: if_split) linarith
  assume no_overflow
  with 1 range have "a + b + c < TWO64" by simp
  then have "n = a + b + c" unfolding n s using ab c by auto
  moreover have "uhuge_val res = n * TWO64 + uint (uh_lower lhs + uh_lower rhs)" by (simp add: res uhuge_val_def n_def)
  ultimately have "uhuge_val res = uhuge_val lhs + uhuge_val rhs" by (simp add: sum)
  then show "res = uhugeint_of (uhuge_val lhs + uhuge_val rhs)" by (rule uhugeint_eqI)
qed

text \<open>
  Subtraction compares the new upper half with the old one. If the subtrahend's upper half is all ones
  and there is a borrow, the upper half comes back unchanged and the underflow is not seen.
\<close>

lemma usubtract_result:
  assumes "Uhugeint_TrySubtractInPlace lhs rhs = (no_overflow, res)"
  shows "no_overflow = (in_uint128 (uhuge_val lhs - uhuge_val rhs) \<or> uh_upper rhs = - 1 \<and> uh_lower lhs < uh_lower lhs - uh_lower rhs)"
    and "in_uint128 (uhuge_val lhs - uhuge_val rhs) \<Longrightarrow> res = uhugeint_of (uhuge_val lhs - uhuge_val rhs)"
proof -
  define a b where "a = uint (uh_upper lhs)" and "b = uint (uh_upper rhs)"
  define c :: int where "c = of_bool (uh_lower lhs < uh_lower lhs - uh_lower rhs)"
  define n where "n = uint (uh_upper lhs - uh_upper rhs - of_bool (uh_lower lhs < uh_lower lhs - uh_lower rhs))"
  have ab: "0 \<le> a" "a < TWO64" "0 \<le> b" "b < TWO64" unfolding a_def b_def by (rule uint64_bounds)+
  have c: "c = 0 \<or> c = 1" by (simp add: c_def)
  have s: "uint (uh_upper lhs - uh_upper rhs) = (if b \<le> a then a - b else a - b + TWO64)"
    by (simp add: uint_sub_if' a_def b_def)
  have n: "n = (if c \<le> uint (uh_upper lhs - uh_upper rhs) then uint (uh_upper lhs - uh_upper rhs) - c
      else uint (uh_upper lhs - uh_upper rhs) - c + TWO64)"
    by (simp add: n_def c_def uint_sub_if')
  have lo: "uint (uh_lower lhs - uh_lower rhs) = uint (uh_lower lhs) - uint (uh_lower rhs) + TWO64 * c"
    unfolding c_def by (rule carry)
  have diff: "uhuge_val lhs - uhuge_val rhs = (a - b - c) * TWO64 + uint (uh_lower lhs - uh_lower rhs)"
    by (simp add: uhuge_val_def lo a_def b_def algebra_simps)
  have range: "in_uint128 (uhuge_val lhs - uhuge_val rhs) \<longleftrightarrow> 0 \<le> a - b - c"
    unfolding diff uint128_halves [OF uint64_bounds] using ab c by linarith
  have ones: "uh_upper rhs = - 1 \<longleftrightarrow> b = TWO64 - 1"
    unfolding b_def word_uint_eq_iff by (simp add: unsigned_minus_1_eq_mask mask_eq_exp_minus_1)
  have no: "no_overflow \<longleftrightarrow> \<not> a < n"
    and res: "res = \<lparr>uh_lower = uh_lower lhs - uh_lower rhs,
      uh_upper = uh_upper lhs - uh_upper rhs - of_bool (uh_lower lhs < uh_lower lhs - uh_lower rhs)\<rparr>"
    using assms by (auto simp: Uhugeint_TrySubtractInPlace_def Let_def word_less_def a_def n_def)
  have c1: "uh_lower lhs < uh_lower lhs - uh_lower rhs \<longleftrightarrow> c = 1" by (simp add: c_def)
  show "no_overflow = (in_uint128 (uhuge_val lhs - uhuge_val rhs) \<or> uh_upper rhs = - 1 \<and> uh_lower lhs < uh_lower lhs - uh_lower rhs)"
    unfolding no range ones c1 using c ab by (simp only: s n split: if_split) linarith
  assume "in_uint128 (uhuge_val lhs - uhuge_val rhs)"
  with range have "0 \<le> a - b - c" by simp
  then have "n = a - b - c" unfolding n s using ab c by auto
  moreover have "uhuge_val res = n * TWO64 + uint (uh_lower lhs - uh_lower rhs)" by (simp add: res uhuge_val_def n_def)
  ultimately have "uhuge_val res = uhuge_val lhs - uhuge_val rhs" by (simp add: diff)
  then show "res = uhugeint_of (uhuge_val lhs - uhuge_val rhs)" by (rule uhugeint_eqI)
qed

lemma umultiply_exact:
  "Uhugeint_TryMultiply lhs rhs =
     (if in_uint128 (uhuge_val lhs * uhuge_val rhs) then Some (uhugeint_of (uhuge_val lhs * uhuge_val rhs)) else None)"
proof -
  have "0 \<le> uhuge_val lhs * uhuge_val rhs"
    using uhuge_val_bounds [of lhs] uhuge_val_bounds [of rhs] by (simp add: in_uint128_def)
  moreover have "uint (uh_lower h) + push_bit 64 (uint (uh_upper h)) = uhuge_val h" for h
    by (simp add: uhuge_val_def push_bit_eq_mult)
  ultimately show ?thesis
    by (simp add: Uhugeint_TryMultiply_def in_uint128_def uhugeint_of_def drop_bit_eq_div Let_def)
qed

end
