(* ===== verification/Arithmetic_Operators.thy ===== *)
theory Arithmetic_Operators
  imports Hugeint Row_Semantics Binary_Executor Unary_Executor
begin

text \<open>
  The interpreter's integer arithmetic (\<open>add.cpp\<close>, \<open>subtract.cpp\<close>, \<open>multiply.cpp\<close>, \<open>negate.hpp\<close>): the
  operations with overflow check for every physical integer type, and the vector functions that
  \<open>arithmetic.cpp\<close> builds from them. The small types compute in the next wider type and compare with the
  limits, the 64-bit types use their own checks, the 128-bit types those of \<open>Hugeint\<close>.
\<close>

section \<open>Operations with overflow check\<close>

text \<open>The conversion to an integer type, which is modular.\<close>

definition int_convert :: "PhysicalType \<Rightarrow> int \<Rightarrow> int" where
  "int_convert pt v = (if signed_type pt then signed_take_bit (int_bits pt - 1) v else take_bit (int_bits pt) v)"

text \<open>
  \<open>OverflowCheckedAddition\<close>, \<open>OverflowCheckedSubtract\<close> and \<open>OverflowCheckedMultiply\<close>, one template each,
  with the operation as argument: compute in \<open>UTYPE\<close>, compare with the limits of \<open>SRCTYPE\<close>.
\<close>

definition OverflowChecked :: "(int \<Rightarrow> int \<Rightarrow> int) \<Rightarrow> PhysicalType \<Rightarrow> PhysicalType \<Rightarrow> int \<Rightarrow> int \<Rightarrow> int option" where
  "OverflowChecked f SRCTYPE UTYPE left right =
     (let uresult = int_convert UTYPE (f (int_convert UTYPE left) (int_convert UTYPE right)) in
      if uresult < type_min SRCTYPE \<or> uresult > type_max SRCTYPE then None
      else Some (int_convert SRCTYPE uresult))"

text \<open>\<open>__builtin_add_overflow\<close> and its siblings: the infinitely precise result, if it fits.\<close>

definition builtin_overflow :: "PhysicalType \<Rightarrow> int \<Rightarrow> int option" where
  "builtin_overflow pt v = (if in_type pt v then Some v else None)"

text \<open>The template arguments of the specialisations that compute in a wider type.\<close>

definition wider :: "PhysicalType \<Rightarrow> PhysicalType option" where
  "wider pt =
     (if pt = PT_UINT8 then Some PT_UINT16 else if pt = PT_UINT16 then Some PT_UINT32 else if pt = PT_UINT32 then Some PT_UINT64
      else if pt = PT_INT8 then Some PT_INT16 else if pt = PT_INT16 then Some PT_INT32 else if pt = PT_INT32 then Some PT_INT64
      else None)"

definition huge_option :: "(bool \<times> hugeint_t) \<Rightarrow> int option" where
  "huge_option r = (if fst r then Some (huge_val (snd r)) else None)"

definition uhuge_option :: "(bool \<times> uhugeint_t) \<Rightarrow> int option" where
  "uhuge_option r = (if fst r then Some (uhuge_val (snd r)) else None)"

definition TryAddOperator :: "PhysicalType \<Rightarrow> int \<Rightarrow> int \<Rightarrow> int option result" where
  "TryAddOperator pt left right =
     (case wider pt of
        Some ut \<Rightarrow> Inr (OverflowChecked (+) pt ut left right)
      | None \<Rightarrow>
          if pt = PT_UINT64 then
            Inr (if type_max PT_UINT64 - left < right then None else OverflowChecked (+) PT_UINT64 PT_UINT64 left right)
          else if pt = PT_INT64 then Inr (builtin_overflow PT_INT64 (left + right))
          else if pt = PT_UINT128 then Inr (uhuge_option (Uhugeint_TryAddInPlace (uhugeint_of left) (uhugeint_of right)))
          else if pt = PT_INT128 then
            bindE (Hugeint_TryAddInPlace (hugeint_of left) (hugeint_of right)) (\<lambda>r. Inr (huge_option r))
          else Inl InternalException)"

definition TrySubtractOperator :: "PhysicalType \<Rightarrow> int \<Rightarrow> int \<Rightarrow> int option result" where
  "TrySubtractOperator pt left right =
     (case wider pt of
        Some ut \<Rightarrow>
          if pt \<in> {PT_UINT8, PT_UINT16, PT_UINT32} \<and> right > left then Inr None
          else Inr (OverflowChecked (-) pt ut left right)
      | None \<Rightarrow>
          if pt = PT_UINT64 then
            Inr (if right > left then None else OverflowChecked (-) PT_UINT64 PT_UINT64 left right)
          else if pt = PT_INT64 then Inr (builtin_overflow PT_INT64 (left - right))
          else if pt = PT_UINT128 then Inr (uhuge_option (Uhugeint_TrySubtractInPlace (uhugeint_of left) (uhugeint_of right)))
          else if pt = PT_INT128 then
            bindE (Hugeint_TrySubtractInPlace (hugeint_of left) (hugeint_of right)) (\<lambda>r. Inr (huge_option r))
          else Inl InternalException)"

text \<open>The 64-bit unsigned product: the smaller operand times the halves of the larger one.\<close>

definition TryMultiply_u64 :: "u64 \<Rightarrow> u64 \<Rightarrow> u64 option" where
  "TryMultiply_u64 l r =
     (let (left, right) = (if l > r then (r, l) else (l, r)) in
      if left > 0xFFFFFFFF then None
      else
        let c = drop_bit 32 right; d = 0xFFFFFFFF AND right; r = left * c; s = left * d in
        if r > 0xFFFFFFFF then None
        else
          let r = push_bit 32 r in
          if - 1 - s < r then None else Some (left * right))"

definition TryMultiplyOperator :: "PhysicalType \<Rightarrow> int \<Rightarrow> int \<Rightarrow> int option result" where
  "TryMultiplyOperator pt left right =
     (case wider pt of
        Some ut \<Rightarrow> Inr (OverflowChecked (*) pt ut left right)
      | None \<Rightarrow>
          if pt = PT_UINT64 then Inr (map_option uint (TryMultiply_u64 (word_of_int left) (word_of_int right)))
          else if pt = PT_INT64 then Inr (builtin_overflow PT_INT64 (left * right))
          else if pt = PT_UINT128 then Inr (map_option uhuge_val (Uhugeint_TryMultiply (uhugeint_of left) (uhugeint_of right)))
          else if pt = PT_INT128 then
            bindE (Hugeint_TryMultiply (hugeint_of left) (hugeint_of right)) (\<lambda>r. Inr (map_option huge_val r))
          else Inl InternalException)"

text \<open>The same for compilers without the builtins, on 64-bit signed integers.\<close>

definition TryMultiply_portable :: "int \<Rightarrow> int \<Rightarrow> bool" where
  "TryMultiply_portable left right =
     (if left = I64_MIN then right = 0 \<or> right = 1
      else if right = I64_MIN then left = 0 \<or> left = 1
      else
        let l = word_of_int \<bar>left\<bar> :: u64; r = word_of_int \<bar>right\<bar> :: u64;
            left_high_bits = drop_bit 32 l; left_low_bits = l AND 0xFFFFFFFF;
            right_high_bits = drop_bit 32 r; right_low_bits = r AND 0xFFFFFFFF in
        if left_high_bits = 0 then
          right_high_bits = 0 \<or>
          (let high_bits = left_low_bits * right_high_bits + drop_bit 32 (left_low_bits * right_low_bits)
           in high_bits AND 0xFFFFFF80000000 = 0)
        else if right_high_bits = 0 then
          (let high_bits = left_high_bits * right_low_bits + drop_bit 32 (left_low_bits * right_low_bits)
           in high_bits AND 0xFFFFFF80000000 = 0)
        else False)"

definition overflow_check :: "int option result \<Rightarrow> int result" where
  "overflow_check r = bindE r (\<lambda>o'. case o' of None \<Rightarrow> Inl OutOfRangeException | Some v \<Rightarrow> Inr v)"

definition AddOperatorOverflowCheck :: "PhysicalType \<Rightarrow> int \<Rightarrow> int \<Rightarrow> int result" where
  "AddOperatorOverflowCheck pt left right = overflow_check (TryAddOperator pt left right)"

definition SubtractOperatorOverflowCheck :: "PhysicalType \<Rightarrow> int \<Rightarrow> int \<Rightarrow> int result" where
  "SubtractOperatorOverflowCheck pt left right = overflow_check (TrySubtractOperator pt left right)"

definition MultiplyOperatorOverflowCheck :: "PhysicalType \<Rightarrow> int \<Rightarrow> int \<Rightarrow> int result" where
  "MultiplyOperatorOverflowCheck pt left right = overflow_check (TryMultiplyOperator pt left right)"

definition NegateOperator :: "PhysicalType \<Rightarrow> int \<Rightarrow> int result" where
  "NegateOperator pt v =
     (if signed_type pt \<and> v = type_min pt then Inl OutOfRangeException else Inr (int_convert pt (- v)))"

section \<open>The operations are exact\<close>

text \<open>The integer types other than BOOL, which has no arithmetic.\<close>

definition arith_type :: "PhysicalType \<Rightarrow> bool" where
  "arith_type pt \<longleftrightarrow> int_type pt \<and> pt \<noteq> PT_BOOL"

lemma arith_type_cases [consumes 1]:
  assumes "arith_type pt"
  obtains "pt \<in> {PT_UINT8, PT_UINT16, PT_UINT32}" | "pt \<in> {PT_INT8, PT_INT16, PT_INT32}"
    | "pt = PT_UINT64" | "pt = PT_INT64" | "pt = PT_UINT128" | "pt = PT_INT128"
  using assms by (auto simp: arith_type_def int_type_def int_bits_def split: if_splits)

lemmas limits = in_type_def type_min_def type_max_def signed_type_def int_bits_def

lemma int_convert_id:
  assumes "arith_type pt" and "in_type pt v"
  shows "int_convert pt v = v"
proof (cases "signed_type pt")
  case True
  then have "- (2 ^ (int_bits pt - 1)) \<le> v" "v < 2 ^ (int_bits pt - 1)"
    using assms(2) by (auto simp: in_type_def type_min_def type_max_def signed_type_def)
  then show ?thesis using True by (simp add: int_convert_def signed_take_bit_int_eq_self)
next
  case False
  then have "0 \<le> v" "v < 2 ^ int_bits pt"
    using assms by (auto simp: in_type_def type_min_def type_max_def arith_type_def)
  then show ?thesis using False by (simp add: int_convert_def take_bit_int_eq_self)
qed

lemma OverflowChecked_exact:
  assumes "arith_type pt" "arith_type ut" and "in_type ut l" "in_type ut r" "in_type ut (f l r)"
  shows "OverflowChecked f pt ut l r = (if in_type pt (f l r) then Some (f l r) else None)"
  using assms int_convert_id [of ut] int_convert_id [of pt "f l r"]
  by (auto simp: OverflowChecked_def in_type_def)

lemma wider_type: "wider pt = Some ut \<Longrightarrow> arith_type pt \<and> arith_type ut"
  by (auto simp: wider_def arith_type_def int_type_def int_bits_def split: if_splits)

lemma mult_bound:
  fixes a b m :: int
  assumes "\<bar>a\<bar> \<le> m" "\<bar>b\<bar> \<le> m"
  shows "\<bar>a * b\<bar> \<le> m * m"
  using assms by (simp add: abs_mult mult_mono)

lemma wider_room:
  assumes "wider pt = Some ut" and "in_type pt l" "in_type pt r"
  shows "in_type ut l" "in_type ut r" "in_type ut (l + r)" "in_type ut (l * r)" "signed_type pt \<or> r \<le> l \<Longrightarrow> in_type ut (l - r)"
proof -
  define m where "m = (if signed_type pt then - type_min pt else type_max pt)"
  have "\<bar>l\<bar> \<le> m" "\<bar>r\<bar> \<le> m" using assms by (auto simp: wider_def limits m_def split: if_splits)
  then have "\<bar>l * r\<bar> \<le> m * m" by (rule mult_bound)
  moreover have "\<not> signed_type pt \<Longrightarrow> 0 \<le> l * r" using assms by (auto simp: in_type_def type_min_def)
  ultimately show "in_type ut (l * r)"
    using assms by (auto simp: wider_def limits m_def split: if_splits)
  show "in_type ut l" "in_type ut r" "in_type ut (l + r)" "signed_type pt \<or> r \<le> l \<Longrightarrow> in_type ut (l - r)"
    using assms by (auto simp: wider_def limits split: if_splits)
qed

lemma in_int128: "in_type PT_INT128 v \<longleftrightarrow> in_int128 v"
  by (auto simp: limits in_int128_def)

lemma in_uint128: "in_type PT_UINT128 v \<longleftrightarrow> in_uint128 v"
  by (auto simp: limits in_uint128_def)

lemma uhuge_val_of: "in_uint128 v \<Longrightarrow> uhuge_val (uhugeint_of v) = v"
proof -
  assume v: "in_uint128 v"
  have "0 \<le> v div TWO64" "v div TWO64 < TWO64"
    using v div_mult_mod_eq [of v TWO64] pos_mod_sign [of TWO64 v] pos_mod_bound [of TWO64 v] unfolding in_uint128_def by linarith+
  then have "uint (word_of_int (v div TWO64) :: u64) = v div TWO64" unfolding uint_of_int64 by simp
  then show ?thesis
    using div_mult_mod_eq [of v TWO64] by (simp add: uhuge_val_def uhugeint_of_def uint_of_int64)
qed

lemma wider_small: "pt \<in> {PT_UINT8, PT_UINT16, PT_UINT32} \<or> pt \<in> {PT_INT8, PT_INT16, PT_INT32} \<Longrightarrow> \<exists>ut. wider pt = Some ut"
  by (auto simp: wider_def)

lemma wider_big [simp]: "wider PT_UINT64 = None" "wider PT_INT64 = None" "wider PT_UINT128 = None" "wider PT_INT128 = None"
  by (simp_all add: wider_def)

lemma u64_arith [simp]: "arith_type PT_UINT64"
  by (simp add: arith_type_def int_type_def int_bits_def)

lemma TryAddOperator_exact:
  assumes "arith_type pt" and "in_type pt l" and "in_type pt r"
  shows "TryAddOperator pt l r = Inr (builtin_overflow pt (l + r))"
  using assms(1)
proof (cases rule: arith_type_cases)
  case 3
  then have "in_type PT_UINT64 (l + r)" if "\<not> type_max PT_UINT64 - l < r" using assms that by (auto simp: limits)
  then show ?thesis
    using assms 3 OverflowChecked_exact [of PT_UINT64 PT_UINT64 l r "(+)"]
    by (auto simp: TryAddOperator_def builtin_overflow_def) (auto simp: limits)
next
  case 5
  obtain no res where res: "Uhugeint_TryAddInPlace (uhugeint_of l) (uhugeint_of r) = (no, res)" using prod.exhaust by blast
  have "no = in_uint128 (l + r)" "no \<Longrightarrow> uhuge_val res = l + r"
    using uadd_exact [OF res] assms 5 by (auto simp: uhuge_val_of in_uint128)
  then show ?thesis using res 5 by (simp add: TryAddOperator_def builtin_overflow_def uhuge_option_def in_uint128)
next
  case 6
  then show ?thesis
    using add_exact [of "hugeint_of l" "hugeint_of r"] assms
    by (simp add: TryAddOperator_def builtin_overflow_def huge_option_def in_int128 hugeint_of_wf)
qed (use assms wider_small [of pt] OverflowChecked_exact wider_room wider_type in
    \<open>auto simp: TryAddOperator_def builtin_overflow_def\<close>)

text \<open>
  The two cases of the 128-bit types in which an operation is not exact. \<open>TrySubtractInPlace\<close> of
  unsigned integers only compares the new upper half with the old one: if the upper half of the
  subtrahend is all ones and the lower halves borrow, the upper half comes back unchanged. \<open>TryMultiply\<close>
  of signed integers multiplies the magnitudes, so it refuses a product that is the minimum unless
  one operand is.
\<close>

definition underflow_missed :: "PhysicalType \<Rightarrow> int \<Rightarrow> int \<Rightarrow> bool" where
  "underflow_missed pt l r \<longleftrightarrow> pt = PT_UINT128 \<and> (2 ^ 64 - 1) * 2 ^ 64 \<le> r \<and> l mod 2 ^ 64 < r mod 2 ^ 64"

definition minimum_refused :: "PhysicalType \<Rightarrow> int \<Rightarrow> int \<Rightarrow> bool" where
  "minimum_refused pt l r \<longleftrightarrow> pt = PT_INT128 \<and> l * r = - (2 ^ 127) \<and> l \<noteq> - (2 ^ 127) \<and> r \<noteq> - (2 ^ 127)"

lemma borrow_iff: "(a :: u64) < a - b \<longleftrightarrow> a < b"
  using uint64_bounds [of a] uint64_bounds [of b] by (auto simp: word_less_def uint_sub_if')

lemma usubtract_missed:
  assumes "uh_upper rhs = - 1" and "uh_lower lhs < uh_lower rhs"
  shows "fst (Uhugeint_TrySubtractInPlace lhs rhs) \<and>
    uhuge_val (snd (Uhugeint_TrySubtractInPlace lhs rhs)) = uhuge_val lhs - uhuge_val rhs + 2 ^ 128"
proof -
  have "uint (uh_lower lhs - uh_lower rhs) = uint (uh_lower lhs) - uint (uh_lower rhs) + TWO64"
    using assms(2) by (simp add: word_less_def uint_sub_if')
  moreover have "uint (uh_upper rhs) = TWO64 - 1"
    by (simp add: assms(1) unsigned_minus_1_eq_mask mask_eq_exp_minus_1)
  moreover have "Uhugeint_TrySubtractInPlace lhs rhs =
      (True, \<lparr>uh_lower = uh_lower lhs - uh_lower rhs, uh_upper = uh_upper lhs\<rparr>)"
    using assms by (simp add: Uhugeint_TrySubtractInPlace_def Let_def borrow_iff)
  ultimately show ?thesis
    by (simp add: uhuge_val_def)
qed

lemma uhuge_halves:
  assumes "in_uint128 v"
  shows "uint (uh_upper (uhugeint_of v)) = v div TWO64" "uint (uh_lower (uhugeint_of v)) = v mod TWO64"
    "uh_upper (uhugeint_of v) = - 1 \<longleftrightarrow> (TWO64 - 1) * TWO64 \<le> v"
proof -
  have val: "uhuge_val (uhugeint_of v) = v" using assms by (rule uhuge_val_of)
  show "uint (uh_lower (uhugeint_of v)) = v mod TWO64"
    by (simp add: uhugeint_of_def uint_of_int64)
  then have up: "uint (uh_upper (uhugeint_of v)) * TWO64 = v - v mod TWO64"
    using val unfolding uhuge_val_def by linarith
  then show div: "uint (uh_upper (uhugeint_of v)) = v div TWO64"
    using minus_mod_eq_mult_div [of v TWO64] by simp
  have "uh_upper (uhugeint_of v) = - 1 \<longleftrightarrow> v div TWO64 = TWO64 - 1"
    unfolding word_uint_eq_iff div by (simp add: unsigned_minus_1_eq_mask mask_eq_exp_minus_1)
  then show "uh_upper (uhugeint_of v) = - 1 \<longleftrightarrow> (TWO64 - 1) * TWO64 \<le> v"
    using assms unfolding in_uint128_def by auto
qed

lemma TrySubtractOperator_exact:
  assumes "arith_type pt" and "in_type pt l" and "in_type pt r"
  shows "TrySubtractOperator pt l r =
    Inr (if underflow_missed pt l r then Some (l - r + 2 ^ 128) else builtin_overflow pt (l - r))"
  using assms(1)
proof (cases rule: arith_type_cases)
  case 1
  obtain ut where ut: "wider pt = Some ut" using wider_small 1 by blast
  have neg: "r > l \<Longrightarrow> \<not> in_type pt (l - r)" using 1 by (auto simp: limits)
  show ?thesis
    using ut 1 neg OverflowChecked_exact [of pt ut l r "(-)"] wider_room [OF ut assms(2,3)] wider_type [OF ut]
    by (auto simp: TrySubtractOperator_def builtin_overflow_def underflow_missed_def)
next
  case 2
  obtain ut where ut: "wider pt = Some ut" using wider_small 2 by blast
  have "signed_type pt" using 2 by (auto simp: signed_type_def)
  then show ?thesis
    using ut 2 OverflowChecked_exact [of pt ut l r "(-)"] wider_room [OF ut assms(2,3)] wider_type [OF ut]
    by (auto simp: TrySubtractOperator_def builtin_overflow_def underflow_missed_def)
next
  case 3
  then have "in_type PT_UINT64 (l - r) \<longleftrightarrow> \<not> r > l" using assms by (auto simp: limits)
  then show ?thesis
    using assms 3 OverflowChecked_exact [of PT_UINT64 PT_UINT64 l r "(-)"]
    by (auto simp: TrySubtractOperator_def builtin_overflow_def underflow_missed_def)
next
  case 5
  obtain no res where res: "Uhugeint_TrySubtractInPlace (uhugeint_of l) (uhugeint_of r) = (no, res)" using prod.exhaust by blast
  have lr: "in_uint128 l" "in_uint128 r" using assms 5 by (simp_all add: in_uint128)
  have missed: "underflow_missed pt l r \<longleftrightarrow>
      uh_upper (uhugeint_of r) = - 1 \<and> uh_lower (uhugeint_of l) < uh_lower (uhugeint_of r)"
    using 5 lr by (simp add: underflow_missed_def uhuge_halves word_less_def)
  show ?thesis
  proof (cases "underflow_missed pt l r")
    case True
    then show ?thesis
      using missed usubtract_missed [of "uhugeint_of r" "uhugeint_of l"] 5 lr
      by (simp add: TrySubtractOperator_def uhuge_option_def uhuge_val_of)
  next
    case False
    then have "no = in_uint128 (l - r)" "no \<Longrightarrow> uhuge_val res = l - r"
      using usubtract_result [OF res] missed lr by (auto simp: uhuge_val_of borrow_iff)
    then show ?thesis
      using res 5 False by (simp add: TrySubtractOperator_def builtin_overflow_def uhuge_option_def in_uint128)
  qed
next
  case 6
  then show ?thesis
    using subtract_exact [of "hugeint_of l" "hugeint_of r"] assms
    by (simp add: TrySubtractOperator_def builtin_overflow_def huge_option_def in_int128 hugeint_of_wf underflow_missed_def)
qed (simp add: TrySubtractOperator_def underflow_missed_def)

lemma mul128_exact:
  assumes "in_int128 a" "in_int128 b"
  shows "mul128 a b = (if minimum_refused PT_INT128 a b \<or> \<not> in_int128 (a * b) then None else Some (a * b))"
proof (cases "a = - TWO127 \<or> b = - TWO127")
  case True
  then have "a * b = 0 \<or> a * b = - TWO127 \<or> \<not> in_int128 (a * b)"
    by (auto simp: in_int128_def)
  with True show ?thesis by (auto simp: mul128_def minimum_refused_def in_int128_def)
next
  case False
  then show ?thesis by (auto simp: mul128_def minimum_refused_def in_int128_def)
qed

lemma TryMultiply_u64_exact: "TryMultiply_u64 l r = (if uint l * uint r < TWO64 then Some (l * r) else None)"
proof -
  define a b where "a = (if l > r then r else l)" and "b = (if l > r then l else r)"
  define c d where "c = drop_bit 32 b" and "d = 0xFFFFFFFF AND b"
  have ab: "uint a * uint b = uint l * uint r" "a * b = l * r" "uint a \<le> uint b"
    by (auto simp: a_def b_def word_less_def mult.commute)
  have low: "0xFFFFFFFF AND b = take_bit 32 b" by (simp add: take_bit_eq_mask mask_numeral and.commute)
  have cd: "uint c = uint b div 4294967296" "uint d = uint b mod 4294967296"
    unfolding c_def d_def low unsigned_drop_bit_eq unsigned_take_bit_eq using uint64_bounds [of b]
    by (simp_all add: drop_bit_eq_div take_bit_eq_mod)
  have bnd: "0 \<le> uint c" "uint c < 4294967296" "0 \<le> uint d" "uint d < 4294967296" "uint b = uint c * 4294967296 + uint d" "0 \<le> uint a"
    using uint64_bounds [of b] by (simp_all add: cd pos_imp_zdiv_nonneg_iff)
  have eq: "TryMultiply_u64 l r =
      (if a > 0xFFFFFFFF then None else if a * c > 0xFFFFFFFF then None
       else if - 1 - a * d < push_bit 32 (a * c) then None else Some (l * r))"
    using ab(2) by (simp add: TryMultiply_u64_def Let_def a_def b_def c_def d_def)
  have prod: "uint l * uint r = uint a * uint c * 4294967296 + uint a * uint d"
    unfolding ab(1) [symmetric] bnd(5) by (simp add: algebra_simps)
  show ?thesis
  proof (cases "uint a < 4294967296")
    case False
    then have "4294967296 * 4294967296 \<le> uint a * uint b" using ab(3) by (intro mult_mono) auto
    with False ab(1) eq show ?thesis by (simp add: word_less_def)
  next
    case True
    have small: "uint a * uint c \<le> (4294967296 - 1) * (4294967296 - 1)" "uint a * uint d \<le> (4294967296 - 1) * (4294967296 - 1)"
      by (intro mult_mono; use True bnd in simp)+
    have nonneg: "0 \<le> uint a * uint c" "0 \<le> uint a * uint d" using bnd by auto
    with small have w: "uint (a * c) = uint a * uint c" "uint (a * d) = uint a * uint d"
      by (simp_all flip: uint_mult_lem)
    show ?thesis
    proof (cases "uint a * uint c < 4294967296")
      case False
      then have "\<not> uint l * uint r < TWO64" unfolding prod using nonneg by linarith
      with False True w eq show ?thesis by (simp add: word_less_def)
    next
      case c: True
      have p: "uint (push_bit 32 (a * c)) = uint a * uint c * 4294967296"
        unfolding unsigned_push_bit_eq w(1) using c nonneg(1) by (simp add: push_bit_eq_mult take_bit_int_eq_self)
      have m: "uint (- 1 - a * d) = TWO64 - 1 - uint a * uint d"
        using small(2) w(2) by (simp add: uint_sub_if' unsigned_minus_1_eq_mask mask_eq_exp_minus_1)
      show ?thesis
        using c True eq prod by (simp add: word_less_def w p m)
    qed
  qed
qed

lemma TryMultiplyOperator_exact:
  assumes "arith_type pt" and "in_type pt l" and "in_type pt r"
  shows "TryMultiplyOperator pt l r = Inr (if minimum_refused pt l r then None else builtin_overflow pt (l * r))"
  using assms(1)
proof (cases rule: arith_type_cases)
  case 3
  then have lr: "0 \<le> l" "l < TWO64" "0 \<le> r" "r < TWO64" using assms(2,3) by (auto simp: limits)
  then have "uint (word_of_int l :: u64) = l" "uint (word_of_int r :: u64) = r" by (simp_all add: uint_of_int64)
  moreover have "uint (word_of_int l * word_of_int r :: u64) = l * r" if "l * r < TWO64"
    using lr that by (simp add: uint_of_int64 flip: of_int_mult)
  moreover have "in_type PT_UINT64 (l * r) \<longleftrightarrow> l * r < TWO64" using lr by (auto simp: limits)
  ultimately show ?thesis
    using 3 by (simp add: TryMultiplyOperator_def builtin_overflow_def minimum_refused_def TryMultiply_u64_exact)
next
  case 5
  have "uhuge_val (uhugeint_of v) = v" if "in_uint128 v" for v using that by (rule uhuge_val_of)
  then show ?thesis
    using 5 assms by (simp add: TryMultiplyOperator_def builtin_overflow_def minimum_refused_def umultiply_exact in_uint128)
next
  case 6
  then show ?thesis
    using multiply_exact [of "hugeint_of l" "hugeint_of r"] assms mul128_exact [of l r]
    by (simp add: TryMultiplyOperator_def builtin_overflow_def in_int128 hugeint_of_wf)
qed (use assms wider_small [of pt] OverflowChecked_exact wider_room wider_type in
    \<open>auto simp: TryMultiplyOperator_def builtin_overflow_def minimum_refused_def\<close>)

lemma NegateOperator_exact:
  assumes "arith_type pt" and "in_type pt v"
  shows "NegateOperator pt v =
    (if signed_type pt then (if in_type pt (- v) then Inr (- v) else Inl OutOfRangeException)
     else Inr (- v mod 2 ^ int_bits pt))"
proof (cases "signed_type pt")
  case True
  then have "v = type_min pt \<longleftrightarrow> \<not> in_type pt (- v)"
    using assms(2) by (auto simp: in_type_def type_min_def type_max_def signed_type_def int_bits_def)
  with True int_convert_id [OF assms(1), of "- v"] show ?thesis by (auto simp: NegateOperator_def)
next
  case False
  then show ?thesis by (simp add: NegateOperator_def int_convert_def take_bit_eq_mod)
qed

text \<open>
  C34: The interpreter's integer arithmetic, for operands of any integer type: \<open>+\<close>, \<open>-\<close> and \<open>*\<close> with
  overflow check return the mathematical result when it lies in the type and throw otherwise, and no
  step has undefined behaviour, with two exceptions at 128 bits: where the code misses an unsigned
  underflow (\<open>underflow_missed\<close>) the subtraction returns the difference plus $2^{128}$, and where it refuses
  the signed minimum as a product (\<open>minimum_refused\<close>) the multiplication throws although the result
  fits. Negation is exact or throws for the signed types and wraps around for the unsigned ones.
\<close>

theorem integer_arithmetic_exact:
  assumes "arith_type pt" and "in_type pt l" and "in_type pt r"
  shows "AddOperatorOverflowCheck pt l r = (if in_type pt (l + r) then Inr (l + r) else Inl OutOfRangeException) \<and>
    SubtractOperatorOverflowCheck pt l r =
      (if underflow_missed pt l r then Inr (l - r + 2 ^ 128)
       else if in_type pt (l - r) then Inr (l - r) else Inl OutOfRangeException) \<and>
    MultiplyOperatorOverflowCheck pt l r =
      (if in_type pt (l * r) \<and> \<not> minimum_refused pt l r then Inr (l * r) else Inl OutOfRangeException) \<and>
    NegateOperator pt l =
      (if signed_type pt then (if in_type pt (- l) then Inr (- l) else Inl OutOfRangeException)
       else Inr (- l mod 2 ^ int_bits pt))"
  using TryAddOperator_exact [OF assms] TrySubtractOperator_exact [OF assms] TryMultiplyOperator_exact [OF assms]
    NegateOperator_exact [OF assms(1,2)]
  by (simp add: AddOperatorOverflowCheck_def SubtractOperatorOverflowCheck_def MultiplyOperatorOverflowCheck_def overflow_check_def
      builtin_overflow_def)

theorem integer_arithmetic_exact_witness:
  "AddOperatorOverflowCheck PT_INT8 100 27 = Inr 127 \<and> AddOperatorOverflowCheck PT_INT8 100 28 = Inl OutOfRangeException \<and>
   SubtractOperatorOverflowCheck PT_UINT16 3 5 = Inl OutOfRangeException \<and>
   SubtractOperatorOverflowCheck PT_UINT128 0 (2 ^ 128 - 1) = Inr 1 \<and>
   MultiplyOperatorOverflowCheck PT_UINT64 4294967296 4294967295 = Inr 18446744069414584320 \<and>
   MultiplyOperatorOverflowCheck PT_INT128 (- (2 ^ 126)) 2 = Inl OutOfRangeException \<and>
   NegateOperator PT_INT8 (- 128) = Inl OutOfRangeException"
  using integer_arithmetic_exact [of PT_INT8 100 27] integer_arithmetic_exact [of PT_INT8 100 28]
    integer_arithmetic_exact [of PT_UINT16 3 5] integer_arithmetic_exact [of PT_UINT64 4294967296 4294967295]
    integer_arithmetic_exact [of PT_UINT128 0 "2 ^ 128 - 1"] integer_arithmetic_exact [of PT_INT128 "- (2 ^ 126)" 2]
    integer_arithmetic_exact [of PT_INT8 "- 128" 0]
  by (simp add: arith_type_def int_type_def limits underflow_missed_def minimum_refused_def)

text \<open>
  The subtraction of 128-bit unsigned integers misses an underflow: if the upper half of the
  subtrahend is all ones and the lower halves borrow, the upper half of the difference comes back
  unchanged and \<open>TrySubtractInPlace\<close> reports success, although the minuend is smaller.
\<close>

theorem uhugeint_underflow_missed:
  assumes "uh_upper rhs = - 1" and "uh_lower lhs < uh_lower rhs"
  shows "uhuge_val lhs < uhuge_val rhs \<and> fst (Uhugeint_TrySubtractInPlace lhs rhs)"
proof
  have "uint (uh_upper lhs) \<le> uint (uh_upper rhs)"
    using uint64_bounds [of "uh_upper lhs"] by (simp add: assms(1) unsigned_minus_1_eq_mask mask_eq_exp_minus_1)
  then have "uint (uh_upper lhs) * TWO64 \<le> uint (uh_upper rhs) * TWO64" by simp
  moreover have "uint (uh_lower lhs) < uint (uh_lower rhs)" using assms(2) by (simp add: word_less_def)
  ultimately show "uhuge_val lhs < uhuge_val rhs" unfolding uhuge_val_def by linarith
  have "uh_lower lhs < uh_lower lhs - uh_lower rhs"
    using assms(2) uint64_bounds [of "uh_lower rhs"] by (simp add: word_less_def uint_sub_if')
  then show "fst (Uhugeint_TrySubtractInPlace lhs rhs)"
    using assms(1) by (simp add: Uhugeint_TrySubtractInPlace_def)
qed

theorem uhugeint_underflow_missed_witness:
  "uhuge_val \<lparr>uh_lower = 0, uh_upper = 5\<rparr> < uhuge_val \<lparr>uh_lower = 1, uh_upper = - 1\<rparr> \<and>
   Uhugeint_TrySubtractInPlace \<lparr>uh_lower = 0, uh_upper = 5\<rparr> \<lparr>uh_lower = 1, uh_upper = - 1\<rparr> =
     (True, \<lparr>uh_lower = - 1, uh_upper = 5\<rparr>)"
  using uhugeint_underflow_missed [of "\<lparr>uh_lower = 1, uh_upper = - 1\<rparr>" "\<lparr>uh_lower = 0, uh_upper = 5\<rparr>"]
  by (simp add: Uhugeint_TrySubtractInPlace_def Let_def word_neq_0_conv [symmetric])

text \<open>
  A product equal to the signed 128-bit minimum is reported as an overflow although it fits; and the
  64-bit product for compilers without builtins masks the high bits with a constant that lacks the top
  byte, so it accepts \<open>2 ^ 31 * 2 ^ 57\<close>.
\<close>

lemma minimum_product_refused:
  "TryMultiplyOperator PT_INT128 (- (2 ^ 126)) 2 = Inr None \<and> in_type PT_INT128 (- (2 ^ 126) * 2)"
proof
  have wf: "hugeint_wf (hugeint_of (- (2 ^ 126)))" "hugeint_wf (hugeint_of 2)"
    by (intro hugeint_of_wf; simp add: in_int128_def)+
  show "TryMultiplyOperator PT_INT128 (- (2 ^ 126)) 2 = Inr None"
    using multiply_exact [OF wf] by (simp add: TryMultiplyOperator_def mul128_def)
qed (simp add: limits)

lemma portable_multiply_accepts_overflow:
  "TryMultiply_portable (2 ^ 31) (2 ^ 57) \<and> \<not> in_type PT_INT64 (2 ^ 31 * 2 ^ 57)"
  by (simp add: TryMultiply_portable_def Let_def limits)

end
