(* ===== verification/Executor_Entry.thy ===== *)
theory Executor_Entry
  imports Executor_Rows Arithmetic_Operators
begin

text \<open>
  The executor as its clients use it: expressions are added, which builds their state, and then batch after
  batch is projected or filtered. The integer functions are supplied with the callbacks that
  \<open>arithmetic.cpp\<close> builds, so that the properties apply to executable expressions.
\<close>

section \<open>The callbacks of the integer functions\<close>

text \<open>An operation on integers as an operation on the rows of a vector.\<close>

definition integer_cells :: "(int \<Rightarrow> int \<Rightarrow> int result) \<Rightarrow> cell \<Rightarrow> cell \<Rightarrow> cell result" where
  "integer_cells OP a b = (case (a, b) of (CInt x, CInt y) \<Rightarrow> bindE (OP x y) (\<lambda>r. Inr (CInt r)) | _ \<Rightarrow> Inl Undefined)"

text \<open>\<open>same\<close>: whether two vectors share their mask.\<close>

definition BinaryFunction ::
    "(Vector \<Rightarrow> Vector \<Rightarrow> bool) \<Rightarrow> junk \<Rightarrow> (cell \<Rightarrow> cell \<Rightarrow> cell result) \<Rightarrow> Vector list \<Rightarrow> nat \<Rightarrow> Vector \<Rightarrow> Vector result" where
  "BinaryFunction same junk OP input cnt res = Binary_Execute (same (input ! 0) (input ! 1)) junk OP (input ! 0) (input ! 1) cnt res"

definition GetScalarIntegerFunction ::
    "(Vector \<Rightarrow> Vector \<Rightarrow> bool) \<Rightarrow> junk \<Rightarrow> (PhysicalType \<Rightarrow> int \<Rightarrow> int \<Rightarrow> int result) \<Rightarrow> PhysicalType
      \<Rightarrow> (Vector list \<Rightarrow> nat \<Rightarrow> Vector \<Rightarrow> Vector result) result" where
  "GetScalarIntegerFunction same junk OP pt =
     (if arith_type pt then Inr (BinaryFunction same junk (integer_cells (OP pt))) else Inl NotImplementedException)"

fun binary_rows :: "(cell \<Rightarrow> cell \<Rightarrow> cell result) \<Rightarrow> cell option list \<Rightarrow> outcome set" where
  "binary_rows f [Some a, Some b] = {bindE (f a b) (\<lambda>c. Inr (Some c))}"
| "binary_rows f _ = {Inr None}"

lemma mapE_error: "mapE f xs = Inl e \<Longrightarrow> \<exists>x \<in> set xs. f x = Inl e"
  by (induction xs) (auto simp: bindE_def split: sum.splits)

lemma executes_evals:
  assumes "executes t n row r" and oc: "\<And>i. i < n \<Longrightarrow> row i \<in> oc i"
  shows "evals t oc [0..<n] r"
proof (cases "mapE row [0..<n]")
  case (Inl e)
  then obtain i where i: "i < n" "row i = Inl e" using mapE_error [OF Inl] by auto
  then have "Inl e \<in> oc i" using oc [OF i(1)] by simp
  with Inl i(1) assms(1) show ?thesis by (auto simp: executes_def)
next
  case (Inr out)
  then obtain v where v: "r = Inr v" "GetType v = t" "vec_ok n v" "\<forall>i < n. vec_row v i = out ! i" using assms(1) by (auto simp: executes_def)
  have "Inr (vec_row v i) \<in> oc i" if "i < n" for i
    using mapE_nth [OF Inr] v(4) oc [OF that] that by auto
  with v show ?thesis by simp
qed

lemma BinaryFunction_ok:
  assumes "env_wf env" and e: "e = BoundFunction t f [l, r]" and "\<And>k. callback env e k = BinaryFunction (same_mask env) (vjunk env) OP"
    and "fn_rows fr e = binary_rows OP"
  shows "callback_ok env fr e"
  unfolding callback_ok_def
proof (intro allI impI)
  fix k args n res
  assume n: "0 < n" "n \<le> STANDARD_VECTOR_SIZE" and args: "list_all2 (\<lambda>c v. GetType v = return_type c \<and> vec_ok n v) (kids e) args"
    and res: "fresh_vec n res" "GetType res = return_type e"
  obtain a b where ab: "args = [a, b]" "vec_ok n a" "vec_ok n b" using args by (auto simp: e list_all2_Cons1)
  have "executes (GetType res) n (bin_row OP a b) (callback env e k args n res)"
    using Binary_Execute_rows [OF ab(2,3) res(1) n(1)] assms(1) by (simp add: assms(3) BinaryFunction_def ab(1) env_wf_def)
  moreover have "bin_row OP a b i \<in> fn_rows fr e (map (\<lambda>v. vec_row v i) args)" for i
    by (cases "vec_row a i"; cases "vec_row b i") (simp_all add: assms(4) ab(1) bin_row_def)
  ultimately show "evals (return_type e) (\<lambda>i. fn_rows fr e (map (\<lambda>v. vec_row v i) args)) [0..<n] (callback env e k args n res)"
    using executes_evals res(2) by metis
qed

section \<open>A new state tree\<close>

lemma nodes_iff:
  "(q, c) \<in> nodes e path \<longleftrightarrow> q = path \<and> c = e \<or> (\<exists>k < length (kids e). (q, c) \<in> nodes (kids e ! k) (k # path))"
  unfolding nodes.simps [of e path] by auto

lemma node_suffix: "(q, c) \<in> nodes e path \<Longrightarrow> \<exists>p. q = p @ path"
proof (induction e arbitrary: path rule: measure_induct_rule [of size])
  case (less e)
  from less.prems consider "q = path" | k where "k < length (kids e)" "(q, c) \<in> nodes (kids e ! k) (k # path)"
    unfolding nodes_iff [of q c e path] by blast
  then show ?case
  proof cases
    case 2
    obtain p where "q = p @ k # path" using less.IH [OF kids_size [OF nth_mem [OF 2(1)]] 2(2)] by blast
    then show ?thesis by (intro exI [of _ "p @ [k]"]) simp
  qed simp
qed

lemma node_unique:
  assumes "(q, c) \<in> nodes e path" and "(q, d) \<in> nodes e path"
  shows "c = d"
  using assms
proof (induction e arbitrary: path rule: measure_induct_rule [of size])
  case (less e)
  have kid: "\<exists>p. q = p @ k # path" if "(q, b) \<in> nodes (kids e ! k) (k # path)" for k b
    using node_suffix [OF that] .
  note cases = less.prems [unfolded nodes_iff [of q _ e path]]
  show ?case
  proof (cases "q = path")
    case True
    have own: "\<not> (\<exists>k < length (kids e). (q, b) \<in> nodes (kids e ! k) (k # path))" for b
    proof (intro notI, elim exE conjE)
      fix k assume "(q, b) \<in> nodes (kids e ! k) (k # path)"
      from kid [OF this] True show False by auto
    qed
    with cases show ?thesis by blast
  next
    case False
    then obtain k j where k: "k < length (kids e)" "(q, c) \<in> nodes (kids e ! k) (k # path)"
      and j: "j < length (kids e)" "(q, d) \<in> nodes (kids e ! j) (j # path)"
      using cases by blast
    obtain p p' where "q = p @ k # path" "q = p' @ j # path" using kid [OF k(2)] kid [OF j(2)] by blast
    then have "(p @ [k]) @ path = (p' @ [j]) @ path" by simp
    then have "j = k" unfolding append_same_eq by simp
    with less.IH [OF kids_size [OF nth_mem [OF k(1)]]] k(2) j(2) show ?thesis by blast
  qed
qed

text \<open>The states that are made are those of the nodes.\<close>

lemma set_concat_nth: "set (concat xss) = (\<Union>i < length xss. set (xss ! i))"
  by (auto simp: in_set_conv_nth [of _ xss]) (use nth_mem in blast)

lemma InitializeState_states:
  assumes "InitializeState force_max e path = Inr states"
  shows "set states = (\<Union>(q, c) \<in> nodes e path. set (own_state force_max c q))"
  using assms
proof (induction e arbitrary: path states rule: measure_induct_rule [of size])
  case (less e)
  obtain subs where subs: "mapE (\<lambda>k. InitializeState force_max (kids e ! k) (k # path)) [0..<length (kids e)] = Inr subs"
    and states: "states = own_state force_max e path @ concat subs"
    using less.prems unfolding InitializeState.simps [of force_max e path] by (auto simp: bindE_Inr_iff split: option.splits)
  have sub: "InitializeState force_max (kids e ! k) (k # path) = Inr (subs ! k)" if "k < length (kids e)" for k
    using mapE_nth [OF subs] that by auto
  have len: "length subs = length (kids e)" using mapE_nth [OF subs] by simp
  have "set (subs ! k) = (\<Union>(q, c) \<in> nodes (kids e ! k) (k # path). set (own_state force_max c q))" if "k < length (kids e)" for k
    by (rule less.IH [OF kids_size [OF nth_mem [OF that]] sub [OF that]])
  then have "(\<Union>k < length (kids e). set (subs ! k)) = (\<Union>k < length (kids e). \<Union>(q, c) \<in> nodes (kids e ! k) (k # path). set (own_state force_max c q))"
    by simp
  moreover have "set (concat subs) = (\<Union>k < length (kids e). set (subs ! k))"
    unfolding set_concat_nth len ..
  ultimately show ?case unfolding states nodes.simps [of e path] by simp
qed

lemma typed_init_error: "typed env fr e \<Longrightarrow> init_error e = None"
  using typedD(1) [of env fr e] by (cases e) (auto simp: init_error_def node_typed_def split: option.splits)

lemma InitializeState_total: "typed env fr e \<Longrightarrow> \<exists>states. InitializeState force_max e path = Inr states"
proof (induction e arbitrary: path rule: measure_induct_rule [of size])
  case (less e)
  have "\<exists>states. InitializeState force_max (kids e ! k) (k # path) = Inr states" if "k < length (kids e)" for k
    using less.IH [OF kids_size [OF nth_mem [OF that]]] typedD(2) [OF less.prems] nth_mem [OF that] by blast
  then have "\<exists>subs. mapE (\<lambda>k. InitializeState force_max (kids e ! k) (k # path)) [0..<length (kids e)] = Inr subs"
    using mapE_error [of "\<lambda>k. InitializeState force_max (kids e ! k) (k # path)" "[0..<length (kids e)]"]
    by (cases "mapE (\<lambda>k. InitializeState force_max (kids e ! k) (k # path)) [0..<length (kids e)]") fastforce+
  then show ?case using typed_init_error [OF less.prems] unfolding InitializeState.simps [of force_max e path] by auto
qed

definition all_nodes :: "Expression list \<Rightarrow> (nat list \<times> Expression) set" where
  "all_nodes exprs = (\<Union>i \<in> {..<length exprs}. nodes (exprs ! i) [i])"

lemma all_nodes_single: "single_valued (all_nodes exprs)"
proof (rule single_valuedI)
  fix q c d assume "(q, c) \<in> all_nodes exprs" "(q, d) \<in> all_nodes exprs"
  then obtain i j where i: "(q, c) \<in> nodes (exprs ! i) [i]" and j: "(q, d) \<in> nodes (exprs ! j) [j]" by (auto simp: all_nodes_def)
  have "last q = i" "last q = j" using node_suffix [OF i] node_suffix [OF j] by auto
  with i j node_unique show "c = d" by blast
qed

text \<open>A new state is ready.\<close>

lemma own_state_ready:
  "(q, ConjunctionState af) \<in> set (own_state force_max c q) \<Longrightarrow> filter_ready c af"
  "(q, FunctionState st) \<in> set (own_state force_max c q) \<Longrightarrow> function_ready fr c st"
proof -
  show "filter_ready c af" if "(q, ConjunctionState af) \<in> set (own_state force_max c q)"
    using that filter_ok_init by (cases c) (auto simp: own_state_def filter_ready_def, metis length_map)
  show "function_ready fr c st" if "(q, FunctionState st) \<in> set (own_state force_max c q)"
  proof (cases c)
    case (BoundFunction t f cs)
    then have st: "st = ExecuteFunctionState_init force_max c" using that by (simp add: own_state_def)
    have "\<not> fn_can_throw f" "find_input_col cs 0 None = Some col" if "input_col_idx st = Some col" for col
      using that CanThrow.simps [of force_max c] unfolding st by (auto simp: ExecuteFunctionState_init_def BoundFunction split: if_splits)
    then show ?thesis by (auto simp: function_ready_def BoundFunction st)
  qed (simp_all add: function_ready_def)
qed

lemma AddExpressions_ready:
  assumes "\<forall>e \<in> set exprs. typed env fr e" and "\<not> enable_jit (dispatcher (jit w))"
  shows "\<exists>w'. AddExpressions force_max exprs w = (Inr (), w') \<and> ready fr (all_nodes exprs) w'"
proof -
  let ?init = "\<lambda>i. InitializeState force_max (exprs ! i) [i]" and ?N = "all_nodes exprs"
  have each: "\<exists>states. ?init i = Inr states" if "i < length exprs" for i
    using InitializeState_total assms(1) nth_mem [OF that] by blast
  obtain states where states: "mapE ?init [0..<length exprs] = Inr states"
    using mapE_error [of ?init "[0..<length exprs]"] each by (cases "mapE ?init [0..<length exprs]") fastforce+
  have len: "length states = length exprs" and nth: "i < length exprs \<Longrightarrow> ?init i = Inr (states ! i)" for i
    using mapE_nth [OF states] by auto
  have "set (concat states) = (\<Union>i < length exprs. set (states ! i))"
    unfolding set_concat_nth len ..
  also have "\<dots> = (\<Union>(q, c) \<in> ?N. set (own_state force_max c q))"
    using InitializeState_states [OF nth] by (auto simp: all_nodes_def)
  finally have set: "set (concat states) = (\<Union>(q, c) \<in> ?N. set (own_state force_max c q))" .
  have keys: "(q', st) \<in> set (own_state force_max c q) \<Longrightarrow> q' = q" for q' q c st by (cases c) (auto simp: own_state_def)
  have found: "\<exists>s. map_of (concat states) q = Some s \<and> (q, s) \<in> set (own_state force_max c q)"
    if q: "(q, c) \<in> ?N" and own: "own_state force_max c q \<noteq> []" for q c
  proof -
    obtain s0 where "(q, s0) \<in> set (own_state force_max c q)" using own by (cases c) (auto simp: own_state_def)
    with q set have "(q, s0) \<in> set (concat states)" by blast
    then obtain s where s: "map_of (concat states) q = Some s" by (metis not_None_eq weak_map_of_SomeI)
    then obtain q' d where d: "(q', d) \<in> ?N" "(q, s) \<in> set (own_state force_max d q')" using map_of_SomeD [OF s] unfolding set by blast
    with keys have "q' = q" by blast
    with d q single_valuedD [OF all_nodes_single] have "d = c" by blast
    with s d \<open>q' = q\<close> show ?thesis by blast
  qed
  let ?w = "with_states (concat states) w"
  have "filter_ready c (adaptive ?w q) \<and> function_ready fr c (function_states ?w q)" if q: "(q, c) \<in> ?N" for q c
  proof (cases "own_state force_max c q = []")
    case True
    then show ?thesis by (cases c) (simp_all add: own_state_def filter_ready_def function_ready_def)
  next
    case False
    then obtain s where s: "map_of (concat states) q = Some s" "(q, s) \<in> set (own_state force_max c q)" using found [OF q] by blast
    with own_state_ready [where q = q and c = c and force_max = force_max] show ?thesis
      by (cases c; cases s) (auto simp: own_state_def with_states_def filter_ready_def function_ready_def)
  qed
  then have "ready fr ?N ?w"
    using assms(2) all_nodes_single by (auto simp: ready_def with_states_def)
  with states show ?thesis by (simp add: AddExpressions_def)
qed

section \<open>Projecting a chunk\<close>

lemma whole_chunk_pre:
  assumes "0 < chunk_rows env" "chunk_rows env \<le> STANDARD_VECTOR_SIZE" "blank (return_type e) res"
  shows "exec_pre env e None (chunk_rows env) res"
  using assms fresh_vec_mono [of STANDARD_VECTOR_SIZE res "chunk_rows env"] by (auto simp: exec_pre_def sel_fits_def rows_ok_def)

definition columns_out ::
    "executor_env \<Rightarrow> function_rows \<Rightarrow> Expression list \<Rightarrow> nat list \<Rightarrow> Vector list \<Rightarrow> Vector list result \<Rightarrow> bool" where
  "columns_out env fr exprs is results r \<longleftrightarrow>
     (case r of
        Inl err \<Rightarrow> \<exists>i \<in> set is. \<exists>x < chunk_rows env. Inl err \<in> out env fr (exprs ! i) x
      | Inr vs \<Rightarrow>
          length vs = length results \<and> (\<forall>i. i \<notin> set is \<longrightarrow> vs ! i = results ! i) \<and>
          (\<forall>i \<in> set is. has_rows (return_type (exprs ! i)) (out env fr (exprs ! i)) [0..<chunk_rows env] (vs ! i)))"

lemma execute_columns_yields:
  assumes env: "env_ok env" "0 < chunk_rows env" "chunk_rows env \<le> STANDARD_VECTOR_SIZE"
    and exprs: "\<forall>e \<in> set exprs. typed env fr e" and "all_nodes exprs \<subseteq> C" and "length results = length exprs"
    and "distinct is" "set is \<subseteq> {..<length exprs}" "\<forall>i \<in> set is. blank (return_type (exprs ! i)) (results ! i)"
  shows "yields (ready fr C) (columns_out env fr exprs is results) (execute_columns env exprs is results)"
  using assms(6-)
proof (induction "is" arbitrary: results)
  case Nil
  then show ?case by (auto simp: columns_out_def intro!: yields_return)
next
  case (Cons i "is")
  let ?n = "chunk_rows env" and ?e = "exprs ! i"
  have i: "i < length exprs" "i \<notin> set is" "blank (return_type ?e) (results ! i)" using Cons.prems by auto
  have paths: "nodes ?e [i] \<subseteq> C" using assms(5) i(1) by (auto simp: all_nodes_def)
  have run: "yields (ready fr C) (evals (return_type ?e) (out env fr ?e) [0..<?n]) (Execute env ?e [i] None ?n (results ! i))"
    using Execute_yields [OF env(1) _ paths whole_chunk_pre [OF env(2,3) i(3)], of fr] exprs i(1) by simp
  have rest: "yields (ready fr C) (columns_out env fr exprs (i # is) results) (execute_columns env exprs is (results[i := v]))"
    if v: "evals (return_type ?e) (out env fr ?e) [0..<?n] (Inr v)" for v
  proof (rule yields_mono [OF Cons.IH [of "results[i := v]"]])
    show "columns_out env fr exprs (i # is) results r" if r: "columns_out env fr exprs is (results[i := v]) r" for r
    proof (cases r)
      case (Inl err)
      with r show ?thesis by (auto simp: columns_out_def)
    next
      case (Inr vs)
      have "vs ! i = v" using r i Cons.prems(1) by (simp add: columns_out_def Inr)
      with r v show ?thesis by (auto simp: columns_out_def Inr has_rows_def)
    qed
  qed (use Cons.prems i in \<open>auto simp: nth_list_update\<close>)
  have err: "columns_out env fr exprs (i # is) results (Inl err)" if "evals (return_type ?e) (out env fr ?e) [0..<?n] (Inl err)" for err
    using that by (auto simp: columns_out_def)
  show ?case
    using Cons.prems(1) i(1) yields_bind [OF run err rest] by (simp add: ExecuteExpression_def vec_at_def)
qed

section \<open>Batches\<close>

text \<open>A client's calls on one executor. The chunk and the outside world may differ from call to call.\<close>

datatype batch =
    Project executor_env "Vector list"
  | Filter executor_env selref nat "SelectionVector option" "SelectionVector option"

datatype batch_result = Projected "(Vector list \<times> nat) result" | Filtered "select_output result"

definition run_call :: "Expression list \<Rightarrow> batch \<Rightarrow> executor_state \<Rightarrow> batch_result \<times> executor_state" where
  "run_call exprs b w =
     (case b of
        Project env results \<Rightarrow> map_prod Projected id (Execute_chunk env exprs results w)
      | Filter env sel cnt ts fs \<Rightarrow> map_prod Filtered id (SelectExpression env exprs sel cnt ts fs w))"

fun run_calls :: "Expression list \<Rightarrow> batch list \<Rightarrow> executor_state \<Rightarrow> batch_result list \<times> executor_state" where
  "run_calls exprs [] w = ([], w)"
| "run_calls exprs (b # bs) w = (let (r, w) = run_call exprs b w; (rs, w) = run_calls exprs bs w in (r # rs, w))"

text \<open>What a call needs, and what it promises.\<close>

definition batch_pre :: "function_rows \<Rightarrow> Expression list \<Rightarrow> batch \<Rightarrow> bool" where
  "batch_pre fr exprs b \<longleftrightarrow>
     (case b of
        Project env results \<Rightarrow>
          env_ok env \<and> (\<forall>e \<in> set exprs. typed env fr e) \<and> 0 < chunk_rows env \<and> chunk_rows env \<le> STANDARD_VECTOR_SIZE \<and>
          list_all2 (\<lambda>e res. blank (return_type e) res) exprs results
      | Filter env sel cnt ts fs \<Rightarrow>
          env_ok env \<and> exprs \<noteq> [] \<and> typed env fr (exprs ! 0) \<and> select_pre env (exprs ! 0) sel cnt ts fs)"

definition batch_post :: "function_rows \<Rightarrow> Expression list \<Rightarrow> batch \<Rightarrow> batch_result \<Rightarrow> bool" where
  "batch_post fr exprs b r \<longleftrightarrow>
     (case (b, r) of
        (Project env results, Projected (Inl err)) \<Rightarrow> \<exists>e \<in> set exprs. \<exists>x < chunk_rows env. Inl err \<in> out env fr e x
      | (Project env results, Projected (Inr (vs, n))) \<Rightarrow>
          n = chunk_rows env \<and> list_all2 (\<lambda>e v. has_rows (return_type e) (out env fr e) [0..<n] v) exprs vs
      | (Filter env sel cnt ts fs, Filtered r) \<Rightarrow> filters (out env fr (exprs ! 0)) (ref_rows sel ts fs cnt) ts fs r
      | _ \<Rightarrow> False)"

lemma run_call_ok:
  assumes "batch_pre fr exprs b" and "ready fr (all_nodes exprs) w"
  shows "batch_post fr exprs b (fst (run_call exprs b w)) \<and> ready fr (all_nodes exprs) (snd (run_call exprs b w))"
proof (cases b)
  case (Project env results)
  have pre: "env_ok env" "0 < chunk_rows env" "chunk_rows env \<le> STANDARD_VECTOR_SIZE" "\<forall>e \<in> set exprs. typed env fr e"
    "length results = length exprs" "\<forall>i \<in> set [0..<length exprs]. blank (return_type (exprs ! i)) (results ! i)"
    using assms(1) by (auto simp: batch_pre_def Project list_all2_conv_all_nth)
  let ?post = "\<lambda>r. batch_post fr exprs b (Projected r)"
  have "yields (ready fr (all_nodes exprs)) ?post (Execute_chunk env exprs results)"
    unfolding Execute_chunk_def
  proof (rule yields_bind [OF execute_columns_yields [OF pre(1-4) subset_refl pre(5) distinct_upt _ pre(6)]])
    show "?post (Inl err)" if "columns_out env fr exprs [0..<length exprs] results (Inl err)" for err
      using that by (auto simp: columns_out_def batch_post_def Project)
    show "yields (ready fr (all_nodes exprs)) ?post (returnW (vs, chunk_rows env))"
      if "columns_out env fr exprs [0..<length exprs] results (Inr vs)" for vs
      using that pre(5) by (intro yields_return) (auto simp: columns_out_def batch_post_def Project list_all2_conv_all_nth)
  qed auto
  with assms(2) show ?thesis by (simp add: yields_def run_call_def Project)
next
  case (Filter env sel cnt ts fs)
  have pre: "env_ok env" "exprs \<noteq> []" "typed env fr (exprs ! 0)" "select_pre env (exprs ! 0) sel cnt ts fs"
    using assms(1) by (auto simp: batch_pre_def Filter)
  have "nodes (exprs ! 0) [0] \<subseteq> all_nodes exprs" using pre(2) by (auto simp: all_nodes_def)
  from Select_yields [OF pre(1,3) this pre(4)] assms(2) pre(2) show ?thesis
    by (simp add: yields_def run_call_def Filter batch_post_def SelectExpression_def vec_at_def)
qed

lemma run_calls_ok:
  assumes "\<forall>b \<in> set bs. batch_pre fr exprs b" and "ready fr (all_nodes exprs) w"
  shows "list_all2 (batch_post fr exprs) bs (fst (run_calls exprs bs w)) \<and> ready fr (all_nodes exprs) (snd (run_calls exprs bs w))"
  using assms
proof (induction bs arbitrary: w)
  case (Cons b bs)
  have b: "batch_pre fr exprs b" using Cons.prems(1) by simp
  from run_call_ok [OF b Cons.prems(2)] Cons.IH [of "snd (run_call exprs b w)"] Cons.prems(1) show ?case
    by (cases "run_call exprs b w"; cases "run_calls exprs bs (snd (run_call exprs b w))") simp
qed simp

section \<open>Scalars\<close>

lemma Vector_GetValue_row: "value_type (Vector_GetValue v i) = GetType v" "value_row (Vector_GetValue v i) = vec_row v i"
  by (simp_all add: Vector_GetValue_def value_row_def split: option.splits)

definition scalar_post :: "executor_env \<Rightarrow> function_rows \<Rightarrow> Expression \<Rightarrow> Value result \<Rightarrow> bool" where
  "scalar_post env fr e r \<longleftrightarrow>
     (case r of
        Inl err \<Rightarrow> Inl err \<in> out (env\<lparr>chunk := None\<rparr>) fr e 0
      | Inr v \<Rightarrow> value_type v = return_type e \<and> Inr (value_row v) \<in> out (env\<lparr>chunk := None\<rparr>) fr e 0)"

lemma EvaluateScalar_ok:
  assumes env: "env_ok (env\<lparr>chunk := None\<rparr>)" and typed: "typed (env\<lparr>chunk := None\<rparr>) fr e" and off: "\<not> enable_jit (dispatcher (jit w))"
  shows "\<exists>r w'. EvaluateScalar env force_max e w = (r, w') \<and> scalar_post env fr e r \<and> adaptive w' = adaptive w \<and> function_states w' = function_states w \<and> \<not> enable_jit (dispatcher (jit w'))"
proof -
  let ?env = "env\<lparr>chunk := None\<rparr>" and ?C = "all_nodes [e]"
  obtain w1 where w1: "AddExpressions force_max [e] w = (Inr (), w1)" "ready fr ?C w1"
    using AddExpressions_ready [of "[e]" ?env fr w] typed off by auto
  have rows: "chunk_rows ?env = 1" by (simp add: chunk_rows_def)
  have pre: "exec_pre ?env e None 1 (new_vector env (return_type e))"
    using whole_chunk_pre [where env = ?env and e = e and res = "new_vector env (return_type e)"] initialized_fresh [OF le_refl typedD(3) [OF typed]] by (simp add: rows)
  have paths: "nodes e [0] \<subseteq> ?C" by (auto simp: all_nodes_def)
  let ?run = "bindW (ExecuteExpression ?env [e] 0 (new_vector env (return_type e))) (\<lambda>res. returnW (Vector_GetValue res 0))"
  have call: "ExecuteExpression ?env [e] 0 res = Execute ?env e [0] None 1 res" for res
    unfolding ExecuteExpression_def rows by (simp add: vec_at_def)
  have "yields (ready fr ?C) (scalar_post env fr e) ?run"
    unfolding call
  proof (rule yields_bind [OF Execute_yields [OF env typed paths pre]])
    show "yields (ready fr ?C) (scalar_post env fr e) (returnW (Vector_GetValue v 0))"
      if "evals (return_type e) (out ?env fr e) (sel_rows None 1) (Inr v)" for v
      using that by (intro yields_return) (simp add: scalar_post_def Vector_GetValue_row)
  qed (simp add: scalar_post_def)
  with w1(2) obtain r w2 where r: "?run w1 = (r, w2)" "scalar_post env fr e r" "ready fr ?C w2"
    by (cases "?run w1") (auto simp: yields_def)
  have "EvaluateScalar env force_max e w = (r, w2\<lparr>adaptive := adaptive w, function_states := function_states w\<rparr>)"
    using w1(1) r(1) by (simp add: EvaluateScalar_def bindW_def)
  with r show ?thesis by (simp add: ready_def)
qed

section \<open>An example\<close>

text \<open>A column of two integers, the larger one the maximum of its type, and \<open>+\<close> with its callback.\<close>

abbreviation ex_add_op :: "cell \<Rightarrow> cell \<Rightarrow> cell result" where
  "ex_add_op \<equiv> integer_cells (AddOperatorOverflowCheck PT_INT32)"

definition ex_col :: Vector where
  "ex_col = Flat ex_int [CInt 41, CInt 2147483647] (Mask_Reset 64)"

definition ex_env :: executor_env where
  "ex_env =
     \<lparr>vjunk = \<lambda>_. 0, sjunk = \<lambda>_. 0, same_mask = \<lambda>_ _. False, dictionary_size = \<lambda>_. None,
      nested_cmp = \<lambda>_ _ _ _ _. Inl InternalException, nested_sel = \<lambda>_ _ _ _ _ _ _. Inl InternalException,
      nested_dist = \<lambda>_ _ _ _ _ _ _ _. Inl InternalException, nested_fills = \<lambda>_ _ _ _. Inl InternalException,
      interval_sel = \<lambda>_ _ _ _ _ _ _. Inl InternalException,
      chunk = Some ([ex_col], 2), dictionary_tag = \<lambda>_ _. (None, ''''), callback = \<lambda>_ _. BinaryFunction (\<lambda>_ _. False) (\<lambda>_. 0) ex_add_op,
      cast_function = \<lambda>_ _ _ _ _. Inl ConversionException, llvm = ex_llvm, decimal = ex_dec, ir_sem = ex_sem,
      query_scope = [], lock_time = \<lambda>_. 0, random_bits = \<lambda>_. 0, filter_time = \<lambda>_. 0, rounding = id\<rparr>"

definition ex_rows :: function_rows where
  "ex_rows = \<lparr>fn_rows = \<lambda>_. binary_rows ex_add_op, cast_rows = \<lambda>_ _. {Inl ConversionException}, dict_values = \<lambda>_. []\<rparr>"

definition ex_state :: executor_state where
  "ex_state = \<lparr>jit = SetEnableJIT False (ex_world JITCache_init), adaptive = \<lambda>_. AdaptiveFilter_init [],
      function_states = \<lambda>_. \<lparr>input_col_idx = None, output_dictionary = None, current_input_dictionary_id = ''''\<rparr>, tick = 0\<rparr>"

lemma ex_env_simps [simp]:
  "chunk ex_env = Some ([ex_col], 2)" "chunk_rows ex_env = 2" "vjunk ex_env = (\<lambda>_. 0)" "env_wf ex_env" "same_mask ex_env = (\<lambda>_ _. False)"
  "callback ex_env e k = BinaryFunction (\<lambda>_ _. False) (\<lambda>_. 0) ex_add_op" "fn_rows ex_rows e = binary_rows ex_add_op"
  by (simp_all add: ex_env_def ex_rows_def chunk_rows_def env_wf_def)

lemma ex_env_ok: "env_ok ex_env"
  by (simp add: env_ok_def ex_col_def scalar_type_def constant_size_type_def ex_int_def Mask_Reset_def) (simp add: ex_env_def)

text \<open>Trees without conjunctions: there is nothing to prepare in the state.\<close>

definition plain :: "Expression \<Rightarrow> bool" where
  "plain e \<longleftrightarrow> (\<forall>path. \<forall>(q, c) \<in> nodes e path. \<forall>et cs. c \<noteq> BoundConjunction et cs)"

lemma plain_node: "(\<forall>et cs. e \<noteq> BoundConjunction et cs) \<Longrightarrow> (\<forall>c \<in> set (kids e). plain c) \<Longrightarrow> plain e"
proof -
  assume own: "\<forall>et cs. e \<noteq> BoundConjunction et cs" and kids: "\<forall>c \<in> set (kids e). plain c"
  have "c \<noteq> BoundConjunction et cs" if "(q, c) \<in> nodes e path" for q c path et cs
    using that own kids nth_mem [of _ "kids e"] unfolding nodes_iff [of q c e path] plain_def by blast
  then show "plain e" unfolding plain_def by blast
qed

lemma ex_state_off: "\<not> enable_jit (dispatcher (jit ex_state))"
  by (simp add: ex_state_def SetEnableJIT_def)

lemma ex_state_ready: "plain e \<Longrightarrow> ready fr (nodes e path) ex_state"
proof -
  assume "plain e"
  then have "filter_ready c (adaptive ex_state q)" if "(q, c) \<in> nodes e path" for q c
    using that unfolding plain_def filter_ready_def by (cases c) (fastforce+)
  moreover have "function_ready fr c (function_states ex_state q)" for q c
    by (cases c) (simp_all add: function_ready_def ex_state_def)
  moreover have "single_valued (nodes e path)" using node_unique by (auto intro: single_valuedI)
  ultimately show ?thesis by (auto simp: ready_def ex_state_def SetEnableJIT_def)
qed

lemma ex_scalar: "scalar_type ex_int" "loop_type (InternalType ex_int)"
  by (simp_all add: scalar_type_def constant_size_type_def ex_int_def loop_type_def)

lemma ex_leaves:
  "typed ex_env ex_rows (BoundReference ex_int 0)" "typed ex_env ex_rows (ex_const c)"
  "out ex_env ex_rows (BoundReference ex_int 0) x = {Inr (vec_row ex_col x)}" "out ex_env ex_rows (ex_const c) x = {Inr (Some (CInt c))}"
  unfolding typed.simps [of ex_env ex_rows "BoundReference ex_int 0"] typed.simps [of ex_env ex_rows "ex_const c"]
    out_unfold [of ex_env ex_rows "BoundReference ex_int 0"] out_unfold [of ex_env ex_rows "ex_const c"]
  by (simp_all add: node_typed_def node_out_def ex_scalar ex_col_def ex_const_def value_row_def)

lemma strict_out_values: "strict_out f (map (\<lambda>y. {Inr y}) ys) = f ys"
proof -
  have "list_all2 (\<lambda>A y. Inr y \<in> A) (map (\<lambda>y. {Inr y :: outcome}) ys) zs \<longleftrightarrow> zs = ys" for zs
    by (auto simp: list_all2_conv_all_nth intro: nth_equalityI)
  then show ?thesis by (auto simp: strict_out_def)
qed

text \<open>A function of a column and a literal, without dictionaries from storage.\<close>

lemma untagged_function_typed:
  assumes "fn_can_throw f" and "\<And>k v. dictionary_tag env k v = (None, '''')"
  shows "function_typed env fr e f [a, BoundConstant v]"
proof -
  have "IsFoldable (BoundConstant v)" unfolding IsFoldable.simps [of "BoundConstant v"] by simp
  then have "col = 0" if "find_input_col [a, BoundConstant v] 0 None = Some col" for col using that by (simp split: if_splits)
  then show ?thesis using assms by (auto simp: function_typed_def less_Suc_eq tag_ok_def split: Vector.splits)
qed

lemma ex_plus_typed: "typed ex_env ex_rows (ex_plus c)"
proof -
  have "callback_ok ex_env ex_rows (ex_plus c)"
    unfolding ex_plus_def by (rule BinaryFunction_ok) simp_all
  moreover have "function_typed ex_env ex_rows e f [BoundReference ex_int 0, ex_const c]" if "fn_can_throw f" for e f
    unfolding ex_const_def by (rule untagged_function_typed [OF that]) (simp add: ex_env_def)
  ultimately show ?thesis
    unfolding typed.simps [of ex_env ex_rows "ex_plus c"] using ex_leaves(1,2) by (simp add: node_typed_def ex_plus_def ex_scalar)
qed

lemma ex_plus_out:
  "out ex_env ex_rows (ex_plus 1) 0 = {Inr (Some (CInt 42))}" "out ex_env ex_rows (ex_plus 1) 1 = {Inl OutOfRangeException}"
proof -
  have kids: "kids (ex_plus 1) = [BoundReference ex_int 0, ex_const 1]" by (simp add: ex_plus_def)
  have all: "map (\<lambda>k. kid_out ex_env ex_rows (ex_plus 1) k x) [0..<length (kids (ex_plus 1))] = map (\<lambda>y. {Inr y}) [vec_row ex_col x, Some (CInt 1)]" for x
    unfolding kids upt_two by (simp add: kid_out_def kids ex_leaves)
  have "out ex_env ex_rows (ex_plus 1) x = strict_out (binary_rows ex_add_op) (map (\<lambda>k. kid_out ex_env ex_rows (ex_plus 1) k x) [0..<length (kids (ex_plus 1))])" for x
    unfolding out_unfold [of ex_env ex_rows "ex_plus 1"] node_out_def Let_def by (simp add: ex_plus_def)
  then have out: "out ex_env ex_rows (ex_plus 1) x = binary_rows ex_add_op [vec_row ex_col x, Some (CInt 1)]" for x
    unfolding all strict_out_values .
  have row: "vec_row ex_col 0 = Some (CInt 41)" "vec_row ex_col 1 = Some (CInt 2147483647)" by (simp_all add: ex_col_def Mask_Reset_def)
  have int: "arith_type PT_INT32" "in_type PT_INT32 41" "in_type PT_INT32 1" "in_type PT_INT32 2147483647"
    by (simp_all add: arith_type_def int_type_def limits)
  show "out ex_env ex_rows (ex_plus 1) 0 = {Inr (Some (CInt 42))}" "out ex_env ex_rows (ex_plus 1) 1 = {Inl OutOfRangeException}"
    unfolding out row using TryAddOperator_exact [OF int(1,2,3)] TryAddOperator_exact [OF int(1,4,3)]
    by (simp_all add: integer_cells_def AddOperatorOverflowCheck_def overflow_check_def builtin_overflow_def limits)
qed

end
