(* ===== verification/Executor_Correctness.thy ===== *)
theory Executor_Correctness
  imports Executor_Entry
begin

text \<open>
  The properties of the expression executor as a whole: what it computes, that a filter agrees with a
  projection, which errors can surface, what CASE and TRY guarantee, and that it can be used for any
  sequence of batches. The JIT is off throughout, as it is by default; its own properties are in
  \<open>Jit_Kernel\<close> and \<open>Jit_Dispatcher\<close>.
\<close>

section \<open>Rows\<close>

text \<open>
  C1: Executing a well-typed expression on the rows of a chunk, with or without a selection and whatever
  the profiler has counted, the adaptive filters have learned and functions have kept of dictionaries, gives a vector of the expression's type
  whose every row has a value that the SQL meaning of the expression allows, or an error that one of the
  selected rows allows; the executor's state stays usable.
\<close>

theorem execute_rows:
  assumes "env_ok env" and "typed env fr e" and "exec_pre env e sel n res" and "ready fr (nodes e path) w"
  shows "\<exists>r w'. Execute env e path sel n res w = (r, w') \<and> evals (return_type e) (out env fr e) (sel_rows sel n) r \<and> ready fr (nodes e path) w'"
  using Execute_yields [OF assms(1,2) subset_refl assms(3), of path] assms(4)
  by (cases "Execute env e path sel n res w") (auto simp: yields_def)

text \<open>The witness: \<open>col + 1\<close> on the first row, selected, is 42; the second row, which overflows, is not touched.\<close>

lemma ex_leaf_plain: "plain (BoundReference ex_int 0)" "plain (ex_const c)"
  by (rule plain_node; simp add: ex_const_def)+

lemma ex_plus_plain: "plain (ex_plus c)"
  by (rule plain_node) (simp_all add: ex_plus_def ex_leaf_plain)

lemma ex_leaf_dense: "\<not> dense (BoundReference ex_int 0)" "\<not> dense (ex_const c)"
  unfolding dense.simps [of "BoundReference ex_int 0"] dense.simps [of "ex_const c"] by (simp_all add: ex_const_def)

lemma ex_plus_dense: "\<not> dense (ex_plus c)" "\<not> roomy (ex_plus c)"
  unfolding dense.simps [of "ex_plus c"] using ex_leaf_dense by (simp_all add: ex_plus_def roomy_def)

lemma ex_fresh: "fresh_vec STANDARD_VECTOR_SIZE (new_vector ex_env ex_int)" "n \<le> STANDARD_VECTOR_SIZE \<Longrightarrow> fresh_vec n (new_vector ex_env ex_int)"
  using initialized_fresh [OF _ ex_scalar(1)] by simp_all

theorem execute_rows_witness:
  "\<exists>v w'. Execute ex_env (ex_plus 1) [0] (Some [0]) 1 (new_vector ex_env ex_int) ex_state = (Inr v, w') \<and> vec_row v 0 = Some (CInt 42)"
proof -
  have rows: "sel_rows (Some [0]) 1 = [0]" by (simp add: sel_rows_def get_index_def)
  have pre: "exec_pre ex_env (ex_plus 1) (Some [0]) 1 (new_vector ex_env ex_int)"
    unfolding exec_pre_def rows using ex_plus_dense ex_fresh(2) [of 1] by (simp add: sel_fits_def rows_ok_def ex_plus_def)
  obtain r w' where r: "Execute ex_env (ex_plus 1) [0] (Some [0]) 1 (new_vector ex_env ex_int) ex_state = (r, w')"
    "evals (return_type (ex_plus 1)) (out ex_env ex_rows (ex_plus 1)) [0] r"
    using execute_rows [OF ex_env_ok ex_plus_typed pre ex_state_ready [OF ex_plus_plain]] unfolding rows by blast
  then show ?thesis by (cases r) (auto simp: ex_plus_out)
qed

section \<open>Filters\<close>

text \<open>
  C2: A predicate means the same in a WHERE clause as in a SELECT list: if it has one value per row, then
  \<open>Select\<close> puts into the true selection exactly the rows for which the vector of \<open>Execute\<close> is TRUE and into the
  false selection the others, although comparisons, BETWEEN and conjunctions run different code as
  filters and the two calls may start in different states.
\<close>

theorem select_agrees_with_execute:
  assumes "env_ok env" and "typed env fr e" and "select_pre env e ref n ts fs" and "exec_pre env e (ref_sel ref ts fs) n res"
    and "ready fr (nodes e path) w" and "ready fr (nodes e path) w'"
    and one: "\<forall>x \<in> set (ref_rows ref ts fs n). out env fr e x = {Inr (y x)}"
  shows "\<exists>v r. fst (Execute env e path (ref_sel ref ts fs) n res w) = Inr v \<and> fst (Select env e path ref n ts fs w') = Inr r \<and>
    parts (ref_rows ref ts fs n) (passes_at (ref_rows ref ts fs n) (\<lambda>i. is_true (vec_row v i))) ts fs r"
proof -
  let ?rows = "ref_rows ref ts fs n"
  have dist: "distinct ?rows" using select_preD(7) [OF assms(3)] .
  have e: "evals (return_type e) (out env fr e) ?rows (fst (Execute env e path (ref_sel ref ts fs) n res w))"
    using Execute_yields [OF assms(1,2) subset_refl assms(4), of path] assms(5) by (simp add: yields_def ref_sel_rows)
  have s: "filters (out env fr e) ?rows ts fs (fst (Select env e path ref n ts fs w'))"
    using Select_yields [OF assms(1,2) subset_refl assms(3), of path] assms(6) by (simp add: yields_def)
  obtain v where v: "fst (Execute env e path (ref_sel ref ts fs) n res w) = Inr v" "\<forall>i < n. vec_row v i = y (?rows ! i)"
    using e one by (cases "fst (Execute env e path (ref_sel ref ts fs) n res w)") auto
  obtain r P where r: "fst (Select env e path ref n ts fs w') = Inr r" "parts ?rows P ts fs r"
    "\<forall>x \<in> set ?rows. if P x then can_pass (out env fr e x) else can_fail (out env fr e x)"
    using s one by (cases "fst (Select env e path ref n ts fs w')") auto
  have "P x = passes_at ?rows (\<lambda>i. is_true (vec_row v i)) x" if x: "x \<in> set ?rows" for x
  proof -
    obtain i where i: "i < n" "?rows ! i = x" using x by (auto simp: in_set_conv_nth)
    have "P x = is_true (y x)" using bspec [OF r(3) x] one x by (cases "P x") (auto simp: can_pass_def can_fail_def)
    with passes_at_nth [OF dist, of i] v(2) i show ?thesis by auto
  qed
  then have "parts ?rows (passes_at ?rows (\<lambda>i. is_true (vec_row v i))) ts fs r"
    using r(2) unfolding parts_def by (simp cong: filter_cong)
  with v(1) r(1) show ?thesis by blast
qed

text \<open>The witness: \<open>col > 41\<close> on 41 and the maximum.\<close>

definition ex_gt :: Expression where
  "ex_gt = BoundComparison ET_COMPARE_GREATERTHAN (BoundReference ex_int 0) (ex_const 41)"

lemma ex_gt_kids: "kids ex_gt = [BoundReference ex_int 0, ex_const 41]" "return_type ex_gt = BOOLEAN"
  by (simp_all add: ex_gt_def)

lemma ex_gt_ok: "typed ex_env ex_rows ex_gt" "plain ex_gt" "\<not> dense ex_gt" "\<not> roomy ex_gt"
proof -
  show "typed ex_env ex_rows ex_gt"
    unfolding typed.simps [of ex_env ex_rows ex_gt] ex_gt_kids using ex_leaves(1,2) ex_scalar
    by (simp add: node_typed_def ex_gt_def comparison_types_def ex_const_def)
  show "plain ex_gt" by (rule plain_node) (simp_all add: ex_gt_def ex_leaf_plain)
  show "\<not> dense ex_gt" unfolding dense.simps [of ex_gt] ex_gt_kids using ex_leaf_dense by (simp add: ex_gt_def)
  show "\<not> roomy ex_gt" by (simp add: ex_gt_def roomy_def)
qed

lemma ex_gt_out: "out ex_env ex_rows ex_gt x = {Inr (map_option bool_cell (sql_compare ET_COMPARE_GREATERTHAN (vec_row ex_col x) (Some (CInt 41))))}"
proof -
  have all: "map (\<lambda>k. kid_out ex_env ex_rows ex_gt k x) [0..<length (kids ex_gt)] = map (\<lambda>y. {Inr y}) [vec_row ex_col x, Some (CInt 41)]"
    unfolding ex_gt_kids upt_two by (simp add: kid_out_def ex_gt_kids ex_leaves)
  have "out ex_env ex_rows ex_gt x = strict_out (compare_out ET_COMPARE_GREATERTHAN) (map (\<lambda>k. kid_out ex_env ex_rows ex_gt k x) [0..<length (kids ex_gt)])"
    unfolding out_unfold [of ex_env ex_rows ex_gt] node_out_def Let_def by (simp add: ex_gt_def)
  then show ?thesis unfolding all strict_out_values by simp
qed

lemma ex_gt_true: "is_true (map_option bool_cell (sql_compare ET_COMPARE_GREATERTHAN (vec_row ex_col x) (Some (CInt 41)))) \<longleftrightarrow> x \<noteq> 0" if "x < 2"
  using that by (auto simp: less_2_cases_iff ex_col_def Mask_Reset_def sql_compare_def compares_def GreaterThan_def is_true_def)

lemma ex_chunk_rows: "rows_ok (chunk_rows ex_env) [0..<2]"
  by (auto simp: rows_ok_def)

theorem select_agrees_with_execute_witness:
  "\<exists>ts fs. fst (Select ex_env ex_gt [0] (SelFixed None) 2 (Some (Some [0, 0])) None ex_state) = Inr (1, ts, fs)"
proof -
  let ?ref = "SelFixed None" and ?ts = "Some (Some [0, 0]) :: SelectionVector option"
  have rows: "ref_rows ?ref ?ts None 2 = [0..<2]" "ref_sel ?ref ?ts None = None"
    by (simp_all add: ref_rows_def ref_index_def ref_sel_def get_index_def upt_rec)
  have pre: "select_pre ex_env ex_gt ?ref 2 ?ts None"
    unfolding select_pre_def rows using ex_chunk_rows ex_gt_ok(3)
    by (simp add: ex_gt_kids select_ready_def outputs_ready_def ref_ok_def select_init_def ref_index_def get_index_def sel_fits_def)
  have epre: "exec_pre ex_env ex_gt (ref_sel ?ref ?ts None) 2 (new_vector ex_env BOOLEAN)"
    unfolding exec_pre_def rows using ex_chunk_rows ex_gt_ok(4) initialized_fresh [of 2 BOOLEAN "\<lambda>_. 0"] by (simp add: sel_fits_def ex_gt_kids)
  let ?y = "\<lambda>x. map_option bool_cell (sql_compare ET_COMPARE_GREATERTHAN (vec_row ex_col x) (Some (CInt 41)))"
  obtain v r where r: "fst (Execute ex_env ex_gt [0] None 2 (new_vector ex_env BOOLEAN) ex_state) = Inr v"
    "fst (Select ex_env ex_gt [0] ?ref 2 ?ts None ex_state) = Inr r" "parts [0..<2] (passes_at [0..<2] (\<lambda>i. is_true (vec_row v i))) ?ts None r"
    using select_agrees_with_execute [OF ex_env_ok ex_gt_ok(1) pre epre, of "[0]" ex_state ex_state ?y] ex_state_ready [OF ex_gt_ok(2)]
    unfolding rows ex_gt_out by blast
  have "evals (return_type ex_gt) (out ex_env ex_rows ex_gt) (sel_rows None 2) (Inr v)"
    using Execute_yields [OF ex_env_ok ex_gt_ok(1) subset_refl epre, of "[0]"] ex_state_ready [OF ex_gt_ok(2)] r(1) unfolding rows yields_def by fastforce
  then have v: "vec_row v i = ?y i" if "i < 2" for i using that by (simp add: ex_gt_out)
  have "passes_at [0..<2] (\<lambda>i. is_true (vec_row v i)) i \<longleftrightarrow> i \<noteq> 0" if "i < 2" for i
    using passes_at_nth [of "[0..<2]" i] that v [OF that] ex_gt_true [OF that] by simp
  then have "filter (passes_at [0..<2] (\<lambda>i. is_true (vec_row v i))) [0..<2] = [1]" by (simp add: numeral_2_eq_2)
  with r(3) have "fst r = 1" by (auto simp: parts_def)
  with r(2) show ?thesis by (cases r) auto
qed

section \<open>Types and errors\<close>






text \<open>
  C9: TRY turns the execution errors of its operand into NULL, row by row: it raises only other errors, and
  a row has a value of the operand on that row, or it is NULL and the operand can raise an execution error
  on this very row.
\<close>

theorem try_execution_errors:
  assumes "env_ok env" and "e = BoundOperator ET_OPERATOR_TRY t [c]" and "typed env fr e" and "exec_pre env e sel n res"
    and "ready fr (nodes e path) w"
  shows "case fst (Execute env e path sel n res w) of
      Inl err \<Rightarrow> \<not> IsExecutionError err \<and> (\<exists>x < n. Inl err \<in> out env fr c x)
    | Inr v \<Rightarrow> GetType v = t \<and> (\<forall>x < n. Inr (vec_row v x) \<in> out env fr c x \<or>
        vec_row v x = None \<and> (\<exists>err. Inl err \<in> out env fr c x \<and> IsExecutionError err))"
proof -
  have "dense e" unfolding dense.simps [of e] by (simp add: assms(2))
  then have sel: "sel = None" using exec_preD(7) [OF assms(4)] by simp
  have out: "out env fr e x = try_out (out env fr c x)" for x
    unfolding out_unfold [of env fr e] by (simp add: node_out_def assms(2) operator_out_def kid_out_def)
  have "evals (return_type e) (out env fr e) (sel_rows sel n) (fst (Execute env e path sel n res w))"
    using Execute_yields [OF assms(1,3) subset_refl assms(4), of path] assms(5) by (simp add: yields_def)
  then show ?thesis
    unfolding sel out [abs_def] by (cases "fst (Execute env e path None n res w)") (auto simp: try_out_def assms(2))
qed

text \<open>The witness: \<open>TRY(col + 1)\<close> is 42 on the first row and NULL on the second, where the sum overflows.\<close>

definition ex_try :: Expression where
  "ex_try = BoundOperator ET_OPERATOR_TRY ex_int [ex_plus 1]"

lemma ex_try_ok: "typed ex_env ex_rows ex_try" "plain ex_try" "exec_pre ex_env ex_try None 2 (new_vector ex_env ex_int)"
proof -
  show "typed ex_env ex_rows ex_try"
    unfolding typed.simps [of ex_env ex_rows ex_try] using ex_plus_typed ex_plus_dense
    by (simp add: ex_try_def node_typed_def operator_typed_def ex_scalar ex_return)
  show "plain ex_try" by (rule plain_node) (simp_all add: ex_try_def ex_plus_plain)
  show "exec_pre ex_env ex_try None 2 (new_vector ex_env ex_int)"
    using ex_fresh(2) [of 2] ex_chunk_rows by (simp add: exec_pre_def sel_fits_def ex_try_def roomy_def)
qed

theorem try_execution_errors_witness:
  "\<exists>v. fst (Execute ex_env ex_try [0] None 2 (new_vector ex_env ex_int) ex_state) = Inr v \<and> vec_row v 0 = Some (CInt 42) \<and> vec_row v 1 = None"
proof -
  note p = try_execution_errors [OF ex_env_ok ex_try_def ex_try_ok(1,3) ex_state_ready [OF ex_try_ok(2)], of "[0]"]
  have "out ex_env ex_rows (ex_plus 1) x \<in> {{Inr (Some (CInt 42))}, {Inl OutOfRangeException}}" if "x < 2" for x
    using that ex_plus_out by (auto simp: less_2_cases_iff)
  then have no: "\<not> IsExecutionError err \<Longrightarrow> x < 2 \<Longrightarrow> Inl err \<notin> out ex_env ex_rows (ex_plus 1) x" for err x
    by (auto simp: IsExecutionError_def)
  show ?thesis
  proof (cases "fst (Execute ex_env ex_try [0] None 2 (new_vector ex_env ex_int) ex_state)")
    case (Inl err)
    with p no [of err] show ?thesis by auto
  next
    case (Inr v)
    with p have "\<forall>x < 2. Inr (vec_row v x) \<in> out ex_env ex_rows (ex_plus 1) x \<or>
        vec_row v x = None \<and> (\<exists>err. Inl err \<in> out ex_env ex_rows (ex_plus 1) x \<and> IsExecutionError err)"
      by auto
    from this [rule_format, of 0] this [rule_format, of 1] have "vec_row v 0 = Some (CInt 42)" "vec_row v 1 = None"
      unfolding ex_plus_out by auto
    with Inr show ?thesis by blast
  qed
qed

text \<open>
  C40: TRY under a selection reads the wrong rows. The operand is executed on the selected rows, so row \<open>i\<close> of
  its result belongs to the \<open>i\<close>-th selected row; but the result is then copied through the selection
  again, so row \<open>i\<close> of the TRY is row \<open>sel[i]\<close> of that result, which belongs to another row of the chunk or
  was never written. This is why the properties above keep TRY away from nodes that select rows.
\<close>

theorem try_selects_twice:
  assumes "run (Some xs) n (new_vector env (GetType res)) w = (Inr (Flat t d m), w')" and "GetType res = t" and "fresh_vec n res" and "0 < n"
    and "scalar_type t"
  shows "\<exists>v. Execute_Try env reset run (Some xs) n res w = (Inr v, w') \<and> (\<forall>i < n. vec_row v i = vec_row (Flat t d m) (unat (xs ! i)))"
proof -
  obtain td tm where res: "res = Flat t td tm" "n \<le> length td" "AllValid tm" "n \<le> capacity tm"
    using assms(2,3) by (auto simp: fresh_vec_def split: Vector.splits)
  have "mask_wf tm" using res(3) by (simp add: mask_wf_def AllValid_def)
  moreover have "copy_source (Some xs) n n (Flat t d m) = (Some xs, Flat t d m)" by simp
  ultimately obtain v where "Copy_count (Flat t d m) (Some xs) n 0 0 n (Flat t td tm) = Inr v"
    "\<forall>i < n. vec_row v i = vec_row (Flat t d m) (get_index (Some xs) i)"
    using Copy_count_rows [OF _ assms(5,4) res(2) _ res(4)] by blast
  with assms(1) res(1) show ?thesis
    by (auto simp: Execute_Try_def catchW_def bindW_def liftW_def get_index_def)
qed

text \<open>The witness: the operand has the value 7 on the one selected row, row 1; the TRY has 0, which is not a row at all.\<close>

theorem try_selects_twice_witness:
  "\<exists>v. fst (Execute_Try ex_env (returnW ()) (\<lambda>_ _ _. returnW (Flat ex_int [CInt 7, CInt 0] (Mask_Reset 64))) (Some [1]) 1 (new_vector ex_env ex_int) ex_state) = Inr v \<and>
     vec_row v 0 = Some (CInt 0)"
proof -
  let ?run = "\<lambda>_ _ _. returnW (Flat ex_int [CInt 7, CInt 0] (Mask_Reset 64)) :: (executor_state, Vector) run"
  have "fresh_vec 1 (new_vector ex_env ex_int)" using ex_fresh(2) [of 1] by simp
  from try_selects_twice [where run = ?run and env = ex_env and xs = "[1]" and w = ex_state and reset = "returnW ()", OF _ _ this _ ex_scalar(1)]
  show ?thesis by (auto simp: returnW_def Mask_Reset_def)
qed

section \<open>CASE\<close>

text \<open>The branch a row takes, given the values of the conditions on it.\<close>

definition case_branch :: "(Expression \<Rightarrow> cell option) \<Rightarrow> (Expression \<times> Expression) list \<Rightarrow> Expression \<Rightarrow> Expression" where
  "case_branch when checks els = (case find (\<lambda>(p, _). is_true (when p)) checks of None \<Rightarrow> els | Some (_, c) \<Rightarrow> c)"

lemma case_out_branch:
  assumes e: "e = BoundCase t checks (Some els)" and det: "\<forall>(p, c) \<in> set checks. out env fr p x = {Inr (when p)}"
  shows "out env fr e x = out env fr (case_branch when checks els) x"
proof -
  let ?n = "length checks" and ?oc = "kid_out env fr e"
  have kids: "length (kids e) = 2 * ?n + 1" "kids e ! (2 * ?n) = els"
    "i < ?n \<Longrightarrow> kids e ! (2 * i) = fst (checks ! i)" "i < ?n \<Longrightarrow> kids e ! (2 * i + 1) = snd (checks ! i)" for i
    using case_kids [where checks = checks] by (simp_all add: e nth_append)
  have oc: "?oc (2 * ?n) x = out env fr els x" "i < ?n \<Longrightarrow> ?oc (2 * i) x = {Inr (when (fst (checks ! i)))}"
    "i < ?n \<Longrightarrow> ?oc (2 * i + 1) x = out env fr (snd (checks ! i)) x" for i
    using kids bspec [OF det nth_mem [of i checks]] by (simp_all add: kid_out_def split_beta)
  have "case_out ?oc (2 * ?n) [i..<?n] x = out env fr (case_branch when (drop i checks) els) x" if "i \<le> ?n" for i
    using that
  proof (induction "?n - i" arbitrary: i)
    case 0
    then show ?case using oc(1) by (simp add: case_branch_def)
  next
    case (Suc d)
    then have i: "i < ?n" "[i..<?n] = i # [Suc i..<?n]" "drop i checks = checks ! i # drop (Suc i) checks"
      by (simp_all add: upt_conv_Cons Cons_nth_drop_Suc)
    have "case_out ?oc (2 * ?n) [Suc i..<?n] x = out env fr (case_branch when (drop (Suc i) checks) els) x" using Suc i(1) by simp
    then show ?case
      unfolding i(2,3) case_out.simps oc(2,3) [OF i(1)]
      by (cases "checks ! i") (auto simp: case_branch_def can_pass_def can_fail_def)
  qed
  from this [of 0] show ?thesis unfolding out_unfold [of env fr e] by (simp add: node_out_def e)
qed

text \<open>
  C10: CASE is lazy: if the WHEN conditions have one value per row, every row of the result is a value that
  the THEN of the first WHEN that is TRUE on this row allows, or the ELSE if none is, and an error can only
  come from a branch on a row that takes this branch. So a WHEN guards its THEN against the rows on
  which the THEN would raise an error.
\<close>

theorem case_first_true:
  assumes "env_ok env" and "e = BoundCase t checks (Some els)" and "typed env fr e" and "exec_pre env e sel n res"
    and "ready fr (nodes e path) w" and "\<forall>x \<in> set (sel_rows sel n). \<forall>(p, c) \<in> set checks. out env fr p x = {Inr (when x p)}"
  shows "evals t (\<lambda>x. out env fr (case_branch (when x) checks els) x) (sel_rows sel n) (fst (Execute env e path sel n res w))"
proof -
  have "evals (return_type e) (out env fr e) (sel_rows sel n) (fst (Execute env e path sel n res w))"
    using Execute_yields [OF assms(1,3) subset_refl assms(4), of path] assms(5) by (simp add: yields_def)
  then have "evals (return_type e) (\<lambda>x. out env fr (case_branch (when x) checks els) x) (sel_rows sel n) (fst (Execute env e path sel n res w))"
    by (rule evals_cong [rotated]) (use assms(6) case_out_branch [OF assms(2)] in blast)
  then show ?thesis by (simp add: assms(2))
qed

text \<open>The witness: \<open>CASE WHEN col > 41 THEN col ELSE col + 1 END\<close> adds only where the sum does not overflow.\<close>

definition ex_case :: Expression where
  "ex_case = BoundCase ex_int [(ex_gt, BoundReference ex_int 0)] (Some (ex_plus 1))"

lemma ex_case_ok: "typed ex_env ex_rows ex_case" "plain ex_case" "exec_pre ex_env ex_case None 2 (new_vector ex_env ex_int)"
proof -
  show "typed ex_env ex_rows ex_case"
    unfolding typed.simps [of ex_env ex_rows ex_case] using ex_plus_typed ex_plus_dense ex_gt_ok ex_leaves(1) ex_leaf_dense
    by (simp add: ex_case_def node_typed_def ex_scalar ex_return ex_gt_kids)
  show "plain ex_case" by (rule plain_node) (simp_all add: ex_case_def ex_plus_plain ex_leaf_plain ex_gt_ok(2))
  have "\<not> dense ex_case"
    unfolding dense.simps [of ex_case] using ex_plus_dense ex_gt_ok(3) ex_leaf_dense by (simp add: ex_case_def)
  then show "exec_pre ex_env ex_case None 2 (new_vector ex_env ex_int)"
    using ex_fresh(1) ex_fresh(2) [of 2] ex_chunk_rows by (simp add: exec_pre_def sel_fits_def ex_case_def)
qed

theorem case_first_true_witness:
  "\<exists>v. fst (Execute ex_env ex_case [0] None 2 (new_vector ex_env ex_int) ex_state) = Inr v \<and>
     vec_row v 0 = Some (CInt 42) \<and> vec_row v 1 = Some (CInt 2147483647)"
proof -
  let ?when = "\<lambda>x p. map_option bool_cell (sql_compare ET_COMPARE_GREATERTHAN (vec_row ex_col x) (Some (CInt 41)))"
  let ?checks = "[(ex_gt, BoundReference ex_int 0)]"
  have branch: "out ex_env ex_rows (case_branch (?when x) ?checks (ex_plus 1)) x = {Inr (if x = 0 then Some (CInt 42) else Some (CInt 2147483647))}"
    if x: "x < 2" for x
    using x ex_gt_true [OF x] ex_plus_out(1) ex_leaves(3) by (auto simp: case_branch_def less_2_cases_iff ex_col_def Mask_Reset_def)
  have "evals ex_int (\<lambda>x. out ex_env ex_rows (case_branch (?when x) ?checks (ex_plus 1)) x) (sel_rows None 2)
      (fst (Execute ex_env ex_case [0] None 2 (new_vector ex_env ex_int) ex_state))"
    using case_first_true [OF ex_env_ok ex_case_def ex_case_ok(1,3), of "[0]" ex_state ?when] ex_state_ready [OF ex_case_ok(2)]
    by (simp add: ex_gt_out)
  then show ?thesis
    using branch [of 0] branch [of 1] by (cases "fst (Execute ex_env ex_case [0] None 2 (new_vector ex_env ex_int) ex_state)")
      (auto simp: branch)
qed

section \<open>Sessions\<close>

text \<open>
  C11: An executor serves any sequence of batches: adding well-typed expressions succeeds, and of any
  sequence of projections and filters that follows, each on its own chunk, every one gives the rows the
  expressions mean on its chunk, also after errors and however the adaptive filters have reordered the
  conjunctions meanwhile.
\<close>

theorem executor_serves_batches:
  assumes "\<forall>e \<in> set exprs. typed env fr e" and "\<not> enable_jit (dispatcher (jit w))" and "\<forall>b \<in> set bs. batch_pre fr exprs b"
  shows "\<exists>w1. AddExpressions force_max exprs w = (Inr (), w1) \<and> list_all2 (batch_post fr exprs) bs (fst (run_calls exprs bs w1)) \<and>
    ready fr (all_nodes exprs) (snd (run_calls exprs bs w1))"
  using AddExpressions_ready [OF assms(1,2), of force_max] run_calls_ok [OF assms(3)] by blast

text \<open>The witness: the conjunction \<open>col > 41 AND col > 41\<close> as a filter, twice.\<close>

definition ex_and :: Expression where
  "ex_and = BoundConjunction ET_CONJUNCTION_AND [ex_gt, ex_gt]"

definition ex_batch :: batch where
  "ex_batch = Filter ex_env (SelFixed None) 2 (Some (Some [0, 0])) None"

lemma ex_and_typed: "typed ex_env ex_rows ex_and"
  unfolding typed.simps [of ex_env ex_rows ex_and] using ex_gt_ok by (simp add: ex_and_def node_typed_def ex_gt_kids)

lemma ex_batch_pre: "batch_pre ex_rows [ex_and] ex_batch"
proof -
  have "\<not> dense ex_and" unfolding dense.simps [of ex_and] using ex_gt_ok(3) by (simp add: ex_and_def)
  moreover have "ref_rows (SelFixed None) (Some (Some [0, 0])) None 2 = [0..<2]"
    by (simp add: ref_rows_def ref_index_def get_index_def upt_rec)
  ultimately have "select_pre ex_env ex_and (SelFixed None) 2 (Some (Some [0, 0])) None"
    using ex_chunk_rows
    by (simp add: select_pre_def select_ready_def outputs_ready_def ref_ok_def select_init_def ref_index_def get_index_def sel_fits_def ref_sel_def
        ex_and_def)
  then show ?thesis using ex_env_ok ex_and_typed by (simp add: batch_pre_def ex_batch_def)
qed

theorem executor_serves_batches_witness:
  "\<exists>w1. AddExpressions (\<lambda>t _. lt_id t) [ex_and] ex_state = (Inr (), w1) \<and>
     list_all2 (batch_post ex_rows [ex_and]) [ex_batch, ex_batch] (fst (run_calls [ex_and] [ex_batch, ex_batch] w1))"
  using executor_serves_batches [of "[ex_and]" ex_env ex_rows ex_state "[ex_batch, ex_batch]" "\<lambda>t _. lt_id t"]
    ex_and_typed ex_batch_pre ex_state_off by auto

text \<open>
  C39: \<open>EvaluateScalar\<close> gives the value of the expression without a chunk, with the expression's type, or an
  error the expression allows, and leaves the states of other executors alone (it runs an executor of its
  own, which the model drops at the end). \<open>TryEvaluateScalar\<close> gives the same value, reports failure for an
  error, and passes on internal exceptions only.
\<close>

theorem evaluate_scalar:
  assumes "env_ok (env\<lparr>chunk := None\<rparr>)" and "typed (env\<lparr>chunk := None\<rparr>) fr e" and "\<not> enable_jit (dispatcher (jit w))"
  shows "\<exists>r w'. EvaluateScalar env force_max e w = (r, w') \<and> adaptive w' = adaptive w \<and> function_states w' = function_states w \<and>
    (case r of
       Inl err \<Rightarrow> Inl err \<in> out (env\<lparr>chunk := None\<rparr>) fr e 0 \<and>
         TryEvaluateScalar env force_max e w = (if err = InternalException \<or> err = Undefined then (Inl err, w') else (Inr None, w'))
     | Inr v \<Rightarrow> value_type v = return_type e \<and> Inr (value_row v) \<in> out (env\<lparr>chunk := None\<rparr>) fr e 0 \<and>
         TryEvaluateScalar env force_max e w = (Inr (Some v), w'))"
proof -
  obtain r w' where r: "EvaluateScalar env force_max e w = (r, w')" "scalar_post env fr e r" "adaptive w' = adaptive w" "function_states w' = function_states w"
    using EvaluateScalar_ok [OF assms, of force_max] by blast
  have "TryEvaluateScalar env force_max e w =
      (case r of Inl err \<Rightarrow> if err = InternalException \<or> err = Undefined then (Inl err, w') else (Inr None, w') | Inr v \<Rightarrow> (Inr (Some v), w'))"
    using r(1) by (cases r) (auto simp: TryEvaluateScalar_def catchW_def bindW_def returnW_def liftW_def)
  with r show ?thesis by (cases r) (auto simp: scalar_post_def)
qed

text \<open>The witness: \<open>2147483647 + 1\<close> cannot be folded.\<close>

definition ex_sum :: Expression where
  "ex_sum = BoundFunction ex_int \<lparr>fn_name = ''+'', fn_can_throw = True, fn_stability = FS_CONSISTENT, fn_volatile_lambda = False\<rparr> [ex_const 2147483647, ex_const 1]"

lemma ex_sum_out: "out (ex_env\<lparr>chunk := None\<rparr>) ex_rows ex_sum 0 = {Inl OutOfRangeException}"
  and ex_sum_typed: "typed (ex_env\<lparr>chunk := None\<rparr>) ex_rows ex_sum"
proof -
  let ?env = "ex_env\<lparr>chunk := None\<rparr>"
  have kids: "kids ex_sum = [ex_const 2147483647, ex_const 1]" by (simp add: ex_sum_def)
  have leaf: "out ?env ex_rows (ex_const c) x = {Inr (Some (CInt c))}" "typed ?env ex_rows (ex_const c)" for c x
    unfolding typed.simps [of ?env ex_rows "ex_const c"] out_unfold [of ?env ex_rows "ex_const c"]
    by (simp_all add: node_typed_def node_out_def ex_scalar ex_const_def value_row_def)
  have all: "map (\<lambda>k. kid_out ?env ex_rows ex_sum k x) [0..<length (kids ex_sum)] = map (\<lambda>y. {Inr y}) [Some (CInt 2147483647), Some (CInt 1)]" for x
    unfolding kids upt_two by (simp add: kid_out_def kids leaf)
  have "out ?env ex_rows ex_sum 0 = strict_out (binary_rows ex_add_op) (map (\<lambda>k. kid_out ?env ex_rows ex_sum k 0) [0..<length (kids ex_sum)])"
    unfolding out_unfold [of ?env ex_rows ex_sum] node_out_def Let_def by (simp add: ex_sum_def)
  then have out: "out ?env ex_rows ex_sum 0 = binary_rows ex_add_op [Some (CInt 2147483647), Some (CInt 1)]"
    unfolding all strict_out_values .
  have "TryAddOperator PT_INT32 2147483647 1 = Inr None"
    using TryAddOperator_exact [of PT_INT32 2147483647 1] by (simp add: arith_type_def int_type_def builtin_overflow_def limits)
  then show "out ?env ex_rows ex_sum 0 = {Inl OutOfRangeException}"
    unfolding out by (simp add: integer_cells_def AddOperatorOverflowCheck_def overflow_check_def)
  have "callback_ok ?env ex_rows ex_sum"
    unfolding ex_sum_def by (rule BinaryFunction_ok) (simp_all add: ex_env_def ex_rows_def env_wf_def)
  moreover have "function_typed ?env ex_rows e f [ex_const a, ex_const b]" if "fn_can_throw f" for e f a b
    unfolding ex_const_def [of b] by (rule untagged_function_typed [OF that]) (simp add: ex_env_def)
  ultimately show "typed ?env ex_rows ex_sum"
    unfolding typed.simps [of ?env ex_rows ex_sum] using leaf(2) by (simp add: node_typed_def ex_sum_def ex_scalar)
qed

theorem evaluate_scalar_witness:
  "fst (EvaluateScalar ex_env (\<lambda>t _. lt_id t) ex_sum ex_state) = Inl OutOfRangeException \<and>
   fst (TryEvaluateScalar ex_env (\<lambda>t _. lt_id t) ex_sum ex_state) = Inr None"
proof -
  have env: "env_ok (ex_env\<lparr>chunk := None\<rparr>)" using ex_env_ok by (simp add: env_ok_def env_wf_def)
  from evaluate_scalar [OF env ex_sum_typed ex_state_off, of "\<lambda>t _. lt_id t", unfolded ex_sum_out]
  obtain r w' where "EvaluateScalar ex_env (\<lambda>t _. lt_id t) ex_sum ex_state = (r, w')"
    "case r of Inl err \<Rightarrow> Inl err \<in> {Inl OutOfRangeException :: outcome} \<and>
         TryEvaluateScalar ex_env (\<lambda>t _. lt_id t) ex_sum ex_state = (if err = InternalException \<or> err = Undefined then (Inl err, w') else (Inr None, w'))
       | Inr v \<Rightarrow> value_type v = return_type ex_sum \<and> Inr (value_row v) \<in> {Inl OutOfRangeException :: outcome} \<and>
         TryEvaluateScalar ex_env (\<lambda>t _. lt_id t) ex_sum ex_state = (Inr (Some v), w')"
    by blast
  then show ?thesis by (cases r) auto
qed

section \<open>Functions of dictionaries\<close>

text \<open>
  C12: A function that is run on the dictionary of its argument gives the rows that it gives on the batch itself,
  whether the dictionary is new or its result was kept from an earlier batch, and it is run this way exactly if
  the dictionary comes from storage and is known, or small, or the batch is more than half full; what is kept is
  right for the next batch.
\<close>

theorem dictionary_matches_call:
  assumes "callback_ok env fr e" and "scalar_type (return_type e)" and det: "\<forall>ys. fn_rows fr e ys = {Inr (g ys)}" and "\<forall>v. tag_ok dicts tag v"
    and args: "list_all2 (\<lambda>c v. GetType v = return_type c \<and> vec_ok n v) (kids e) arguments" and n: "0 < n" "n \<le> STANDARD_VECTOR_SIZE"
    and res: "fresh_vec n res" "GetType res = return_type e"
    and col: "input_col_idx (function_states w path) = Some col" "col < length arguments" "constant_args col cvals arguments"
    and "cache_ok (return_type e) (\<lambda>y. fn_rows fr e (cvals[col := y])) dicts (function_states w path)"
  shows "\<exists>v u w'. TryExecuteDictionaryExpression env (\<lambda>w. function_states w path) (put_function path) tag (function_callback env e) arguments n res w =
      (Inr (dictionary_usable tag arguments n (function_states w path), v), w') \<and>
    fst (function_callback env e arguments n res w) = Inr u \<and>
    (dictionary_usable tag arguments n (function_states w path) \<longrightarrow> (\<forall>i < n. vec_row v i = vec_row u i)) \<and>
    cache_ok (return_type e) (\<lambda>y. fn_rows fr e (cvals[col := y])) dicts (function_states w' path)"
proof -
  let ?rows = "\<lambda>i. fn_rows fr e (map (\<lambda>v. vec_row v i) arguments)"
  have types: "list_all2 (\<lambda>ty v. GetType v = ty \<and> vec_ok n v) (map return_type (kids e)) arguments" using args by (simp add: list_all2_map1)
  obtain handled v w' where run: "TryExecuteDictionaryExpression env (\<lambda>w. function_states w path) (put_function path) tag (function_callback env e) arguments n res w =
      (Inr (handled, v), w')" "handled = dictionary_usable tag arguments n (function_states w path)"
    "if handled then evals (return_type e) ?rows [0..<n] (Inr v) else v = res"
    "cache_ok (return_type e) (\<lambda>y. fn_rows fr e (cvals[col := y])) dicts (function_states w' path)"
    using any_state_function.TryExecuteDictionaryExpression_ok [of env fr e res dicts tag n arguments w path cvals env] assms types by auto
  have "evals (return_type e) ?rows [0..<n] (fst (function_callback env e arguments n res w))"
    using callback_evals [OF assms(1) n types res] by (auto simp: function_callback_def bindW_def ticks_def liftW_def)
  then obtain u where "fst (function_callback env e arguments n res w) = Inr u" "\<forall>i < n. vec_row u i = g (map (\<lambda>v. vec_row v i) arguments)"
    using det by (cases "fst (function_callback env e arguments n res w)") auto
  with run det show ?thesis by (intro exI [of _ v] exI [of _ u] exI [of _ w']) auto
qed

text \<open>The witness: a function that compares a column with 7, on three rows of a dictionary of 5 and 7.\<close>

definition ex_tagged :: Vector where
  "ex_tagged = Dictionary ex_int (Some [1, 0, 1]) (Flat ex_int [CInt 5, CInt 7] (Mask_Reset 64))"

abbreviation ex_same_op :: "cell \<Rightarrow> cell \<Rightarrow> cell result" where
  "ex_same_op a b \<equiv> Inr (if a = b then CInt 1 else CInt 0)"

definition ex_same :: Expression where
  "ex_same =
     BoundFunction ex_int \<lparr>fn_name = ''same'', fn_can_throw = False, fn_stability = FS_CONSISTENT, fn_volatile_lambda = False\<rparr>
       [BoundReference ex_int 0, ex_const 7]"

definition ex_same_env :: executor_env where
  "ex_same_env = ex_env\<lparr>callback := \<lambda>_ _. BinaryFunction (\<lambda>_ _. False) (\<lambda>_. 0) ex_same_op\<rparr>"

theorem dictionary_matches_call_witness:
  "\<exists>v w'. TryExecuteDictionaryExpression ex_same_env (\<lambda>w. function_states w [0]) (put_function [0])
     (\<lambda>v. if v = ex_tagged then (Some 2, ''d'') else (None, ''''))
     (function_callback ex_same_env ex_same)
     [ex_tagged, Constant ex_int [CInt 7] (Mask_Reset 64)] 3 (new_vector ex_env ex_int)
     (put_function [0] \<lparr>input_col_idx = Some 0, output_dictionary = None, current_input_dictionary_id = ''''\<rparr> ex_state) = (Inr (True, v), w') \<and>
     vec_row v 0 = Some (CInt 1) \<and> vec_row v 1 = Some (CInt 0)"
proof -
  let ?fr = "ex_rows\<lparr>fn_rows := \<lambda>_. binary_rows ex_same_op\<rparr>" and ?tag = "\<lambda>v. if v = ex_tagged then (Some 2, ''d'') else (None, '''')"
  let ?st = "\<lparr>input_col_idx = Some 0, output_dictionary = None, current_input_dictionary_id = ''''\<rparr>"
  let ?w = "put_function [0] ?st ex_state" and ?args = "[ex_tagged, Constant ex_int [CInt 7] (Mask_Reset 64)]"
  let ?g = "\<lambda>ys. case ys of [Some a, Some b] \<Rightarrow> Some (if a = b then CInt 1 else CInt 0) | _ \<Rightarrow> None"
  have cb: "callback_ok ex_same_env ?fr ex_same"
    unfolding ex_same_def by (rule BinaryFunction_ok) (simp_all add: ex_same_env_def ex_env_def ex_rows_def env_wf_def)
  have det: "\<forall>ys. fn_rows ?fr ex_same ys = {Inr (?g ys)}"
  proof
    fix ys show "fn_rows ?fr ex_same ys = {Inr (?g ys)}" by (cases "(ex_same_op, ys)" rule: binary_rows.cases) (auto split: option.splits)
  qed
  have idx: "i < 3 \<Longrightarrow> get_index (Some [1, 0, 1]) i < 2" for i by (auto simp: get_index_def numeral_3_eq_3 less_Suc_eq)
  have "i < 3 \<Longrightarrow> get_index (Some [1, 0, 1]) i < Suc (Suc 0) \<and> get_index (Some [1, 0, 1]) i < 64" for i using idx [of i] by simp
  then have ok: "vec_ok 3 ex_tagged" using ex_scalar(1) by (simp add: ex_tagged_def Mask_Reset_def)
  have tag: "\<forall>v. tag_ok (\<lambda>_. [Some (CInt 5), Some (CInt 7)]) ?tag v"
  proof
    fix v
    have "get_index (Some [1, 0, 1]) i < 2" if "vec_ok n ex_tagged" "i < n" for n i
    proof -
      have "n \<le> 3" using that(1) by (simp add: ex_tagged_def)
      with that(2) idx [of i] show ?thesis by simp
    qed
    then show "tag_ok (\<lambda>_. [Some (CInt 5), Some (CInt 7)]) ?tag v"
      by (cases v) (auto simp: tag_ok_def ex_tagged_def ex_scalar(1) Mask_Reset_def less_Suc_eq less_2_cases_iff)
  qed
  have args: "list_all2 (\<lambda>c v. GetType v = return_type c \<and> vec_ok 3 v) (kids ex_same) ?args"
    using ok ex_scalar(1) by (auto simp: ex_same_def ex_tagged_def ex_const_def Mask_Reset_def)
  have const: "constant_args 0 [None, Some (CInt 7)] ?args"
    using ex_scalar(1) by (auto simp: constant_args_def less_Suc_eq Mask_Reset_def)
  have scalar: "scalar_type (return_type ex_same)" "GetType (new_vector ex_env ex_int) = return_type ex_same" using ex_scalar(1) by (simp_all add: ex_same_def)
  have use: "dictionary_usable ?tag ?args 3 ?st" by (simp add: dictionary_usable_def MAX_DICTIONARY_SIZE_THRESHOLD_def) (simp add: ex_tagged_def)
  have fresh: "fresh_vec 3 (new_vector ex_env ex_int)" using ex_fresh(2) [of 3] by simp
  obtain v u w' where r: "TryExecuteDictionaryExpression ex_same_env (\<lambda>w. function_states w [0]) (put_function [0]) ?tag (function_callback ex_same_env ex_same) ?args 3
      (new_vector ex_env ex_int) ?w = (Inr (True, v), w')" "fst (function_callback ex_same_env ex_same ?args 3 (new_vector ex_env ex_int) ?w) = Inr u"
    "\<forall>i < 3. vec_row v i = vec_row u i"
    using dictionary_matches_call [OF cb scalar(1) det tag args _ _ fresh scalar(2), of ?w "[0]" 0 "[None, Some (CInt 7)]"] const use
    by (auto simp: cache_ok_def)
  have "evals (return_type ex_same) (\<lambda>i. fn_rows ?fr ex_same (map (\<lambda>v. vec_row v i) ?args)) [0..<3] (Inr u)"
    (is "evals _ ?rows _ _")
  proof -
    have "callback ex_same_env ex_same (tick ?w) ?args 3 (new_vector ex_env ex_int) = Inr u"
      using r(2) by (simp add: function_callback_def bindW_def ticks_def liftW_def)
    moreover have "evals (return_type ex_same) ?rows [0..<3] (callback ex_same_env ex_same (tick ?w) ?args 3 (new_vector ex_env ex_int))"
    proof (rule callback_evals [OF cb _ _ _ fresh scalar(2)])
      show "list_all2 (\<lambda>ty v. GetType v = ty \<and> vec_ok 3 v) (map return_type (kids ex_same)) ?args"
        using args unfolding list_all2_map1 .
    qed simp_all
    ultimately show ?thesis by (simp only:)
  qed
  then have "vec_row u 0 = Some (CInt 1)" "vec_row u 1 = Some (CInt 0)"
    unfolding det [rule_format] by (simp_all add: ex_tagged_def get_index_def Mask_Reset_def)
  with r(1,3) show ?thesis by auto
qed

end
