(* ===== verification/Spec2Isabelle.thy ===== *)
theory Spec2Isabelle
  imports Validity_Serialization Executor_Correctness
begin

text \<open>
  A verification library of the expression engine of a DuckDB fork with a just-in-time compiler. File names
  below are relative to \<open>src/duckdb/src\<close>.

  \<^bold>\<open>The program.\<close> A query's projections and filters are trees of bound expressions. An \<open>ExpressionExecutor\<close>
  evaluates such a tree on a chunk, a batch of columns of at most 2048 rows each. Every node is executed on the
  whole batch: \<open>Execute\<close> fills a vector, \<open>Select\<close> splits the rows into those on which a predicate is TRUE and the
  others. Vectors are flat, constant or dictionaries, with a bitmask of NULLs; a selection vector names the rows
  a node works on. The fork records in a profiler how many rows each expression shape has seen; once a shape is
  hot, a dispatcher has it compiled to a native kernel through LLVM, keeps the kernel in an LRU cache and calls
  it in place of the interpreter.

  \<^bold>\<open>Theories and sources.\<close>
  \<^item> \<open>Prelude\<close>: machine words, the error type (\<open>common/exception.hpp\<close>, with \<open>Undefined\<close> for undefined behaviour of
    C++), loops that may throw, the locale \<open>strict_weak_order\<close> of the comparators given to \<open>std::sort\<close>.
  \<^item> \<open>Logical_Types\<close>, \<open>Bound_Expressions\<close>: \<open>common/types.cpp\<close>, \<open>planner/expression/bound_*.hpp\<close>.
  \<^item> \<open>Jit_Type_Support\<close>, \<open>Jit_Fingerprint\<close>, \<open>Jit_Profiler\<close>, \<open>Jit_Cache\<close>, \<open>Jit_Codegen\<close>, \<open>Jit_Dispatcher\<close>: the files
    of \<open>execution/jit\<close>. \<open>LLVM_IR\<close> is the part of LLVM's instruction set that the generator emits; what the
    instructions compute is the argument \<open>sem\<close>, with the laws of the LLVM reference as the locale
    \<open>llvm_semantics\<close>, interpreted on \<open>langref\<close>. \<open>Row_Semantics\<close> is the meaning of an integer expression on one row,
    exact with an out-of-range error (\<open>int_eval\<close>) and in two's complement without one (\<open>wrap_eval\<close>); \<open>Jit_Kernel\<close>
    shows that the kernels compute the latter, and the former on the rows that stay in range.
  \<^item> \<open>Validity_Mask\<close>, \<open>Validity_Serialization\<close>, \<open>Selection_Vector\<close>, \<open>Vectors\<close>: \<open>common/types/validity_mask.cpp\<close>,
    \<open>selection_vector.cpp\<close>, \<open>vector.cpp\<close>, \<open>common/vector_operations/vector_copy.cpp\<close>.
  \<^item> \<open>Row_Loops\<close>, \<open>Select_Loops\<close>, \<open>Unary_Executor\<close>, \<open>Binary_Executor\<close>, \<open>Ternary_Executor\<close>: the templates of
    \<open>common/vector_operations\<close>; the operation is an argument, as in the templates.
  \<^item> \<open>Boolean_Operators\<close>, \<open>Null_Operations\<close>, \<open>Comparison_Operators\<close>, \<open>Distinct_Comparison\<close>, \<open>Hugeint\<close>,
    \<open>Arithmetic_Operators\<close>: the operations of \<open>common/vector_operations\<close> and \<open>common/operator\<close>, on every integer
    width up to 128 bits, floats and strings. \<open>Execute_Comparison\<close>: the comparison node.
  \<^item> \<open>Expression_Select\<close>, \<open>Adaptive_Filter\<close>, \<open>Conjunction_Filter\<close>: \<open>DefaultSelect\<close>, the loops of a conjunction filter,
    \<open>execution/adaptive_filter.cpp\<close>, and conjunctions over sequences of batches.
  \<^item> \<open>Executor_Monad\<close>, \<open>Execute_Case\<close>, \<open>Execute_Operator\<close>, \<open>Executor_Conjunction\<close>: the nodes that run their children
    on parts of the batch or catch their errors. \<open>Expression_Properties\<close>: \<open>CanThrow\<close>, \<open>IsFoldable\<close> and the like of
    \<open>planner/expression.cpp\<close>. \<open>Dictionary_Expression\<close>: a function that is run once on the dictionary of its argument
    (\<open>execute_function.cpp\<close>). \<open>Expression_Executor\<close>: the remaining nodes, the mutual recursion
    of \<open>Execute\<close> and \<open>Select\<close>, the state tree and the calls of a client. \<open>Executor_Rows\<close>, \<open>Executor_Entry\<close>,
    \<open>Executor_Correctness\<close>: their correctness.

  \<^bold>\<open>State.\<close> The JIT singletons are the record \<open>world\<close> (profiler, cache, dispatcher, compiler); the executor's state
  adds the adaptive filter of every conjunction and what every function has kept of a dictionary, each named by
  the path of its \<open>ExpressionState\<close> in the state tree. Errors are values: an operation returns \<open>error + 'a\<close>, and a run of a node returns the state it leaves
  also when it throws. Buffers are values: where the code shares a buffer between two vectors and the
  sharing can be seen, it is an argument (\<open>same_mask\<close>, \<open>selref\<close>).

  \<^bold>\<open>What is shown.\<close>
  \<^item> The executor: \<open>out\<close> is the SQL meaning of an expression on a row, a set of values and errors. \<open>execute_rows\<close> and
    \<open>select_agrees_with_execute\<close> say that a vector or a split of the rows agrees with it, \<open>well_typed_errors\<close> and
    \<open>executor_returns\<close> that well-typed trees neither go wrong nor get stuck, \<open>executor_serves_batches\<close> that this
    holds for every batch of a sequence, whatever was kept of the batches before; \<open>dictionary_matches_call\<close>
    says it for functions of dictionaries; \<open>case_first_true\<close>, \<open>try_execution_errors\<close> and \<open>evaluate_scalar\<close> are about
    CASE, TRY and constant folding. The interface between a node and its children is the locale
    \<open>children\<close>; it is interpreted on \<open>Execute\<close> and \<open>Select\<close> themselves, by induction over the tree. The locale
    \<open>function_call\<close> is what the dictionary optimisation needs of a function's callback.
  \<^item> The vector operations: each loop computes its rows for every combination of vector forms; the masks'
    word-at-a-time routines equal row-at-a-time ones; comparisons are the expected orders; arithmetic is exact or
    reports an overflow, with the exceptions at 128 bits that the theorem names.
  \<^item> The JIT: the kernels of integer expressions compute every row in two's complement arithmetic, with NULL
    for any NULL operand, and exactly where no node overflows; the cache refines an LRU list, counts and hot
    labels are exact and independent of the interleaving, a hot expression is compiled and its kernel used.
    The dispatcher is modelled as sequences of dispatches that do not overlap, since its counters are not
    synchronised.
  \<^item> Flaws of the code are theorems as well: a kernel hides an arithmetic overflow that the interpreter reports
    (\<open>jit_hides_overflow\<close>, below), kernels are shared by expressions that differ in a constant, AND and
    OR of a kernel, TRY under a selection, an index out of bounds in the adaptive filter, a slice of a mask
    through a null pointer, two wrong results of 128-bit arithmetic, and lemmas next to the definitions they are
    about.

  \<^bold>\<open>Bounds.\<close> All loops are structural or have a measure; there is no fuel. Counters of the profiler, hashes, mask
  entries and selection indices are words and wrap around; the numbers of rows of a batch are naturals, since
  they are at most 2048. Times are real numbers, with the rounding of \<open>double\<close> as an argument.

  \<^bold>\<open>Parameters.\<close> LLVM, the callbacks of scalar functions and casts (instantiated by the integer operators of
  \<open>function/scalar/operator/arithmetic.cpp\<close>), clocks and random numbers, contents of fresh memory, operations on
  nested types, the size and identifier of a dictionary from storage. The properties of the executor assume that
  functions and casts work row by row, that an identifier names one dictionary, that constant arguments of a
  function have been folded, and that the JIT is off, as it is by default; TRY is kept out of nodes that select
  rows, because of the flaw above.

  \<^bold>\<open>Not modelled.\<close> Nested, FSST, sequence and shredded vectors;
  division, decimals, dates and intervals; debug verification; printing and the JIT benchmark (output only);
  everything of DuckDB outside expression execution (parser, planner, storage, operators, extensions), which the
  fork does not change.
\<close>

section \<open>Properties that span components\<close>

text \<open>The operators with overflow check that the interpreter binds to a function name.\<close>

lemma interpreter_operator:
  assumes "(nm, OP) \<in> {(''+'', AddOperatorOverflowCheck), (''-'', SubtractOperatorOverflowCheck), (''*'', MultiplyOperatorOverflowCheck)}"
    and "arith nm = Some g" and "arith_type pt" and "pt \<noteq> PT_UINT128" and "in_type pt x" and "in_type pt y"
    and "\<not> in_type pt (g x y)"
  shows "OP pt x y = Inl OutOfRangeException"
proof -
  note exact = TryAddOperator_exact [OF assms(3,5,6)] TrySubtractOperator_exact [OF assms(3,5,6)]
    TryMultiplyOperator_exact [OF assms(3,5,6)]
  show ?thesis
    using assms(1,2,4,7) exact
    by (auto simp: AddOperatorOverflowCheck_def SubtractOperatorOverflowCheck_def MultiplyOperatorOverflowCheck_def
        overflow_check_def builtin_overflow_def arith_def underflow_missed_def)
qed

text \<open>A row of a cached arithmetic kernel, by the exact values of its operands.\<close>

lemma arithmetic_kernel_row:
  assumes "call_ready inputs n (BoundFunction t f [a, b])" and "j < n" and "arith (fn_name f) = Some g"
    and "arith_type (InternalType t)"
    and "int_eval strict_conj (input_row inputs j) a = Inr (Some x)" and "int_eval strict_conj (input_row inputs j) b = Inr (Some y)"
  shows "kernel_row inputs (BoundFunction t f [a, b]) j = Some (CInt (wrap (InternalType t) (g x y)))"
    and "in_type (InternalType t) x" and "in_type (InternalType t) y"
proof -
  let ?row = "input_row inputs j"
  have ab: "int_expr a" "int_expr b" "phys a = InternalType t" "phys b = InternalType t"
    using assms(1) by (simp_all add: call_ready_def)
  have typed: "row_typed ?row a" "row_typed ?row b"
    using input_row_typed [OF assms(1,2)] by (auto simp: row_typed_def)
  have "wrap_eval ?row a = Some x" "wrap_eval ?row b = Some y"
    using wrap_eval_exact [OF ab(1) typed(1) assms(5)] wrap_eval_exact [OF ab(2) typed(2) assms(6)] .
  then show "kernel_row inputs (BoundFunction t f [a, b]) j = Some (CInt (wrap (InternalType t) (g x y)))"
    using assms(3,4) by (simp add: kernel_row_def result_cell_def arith_type_def)
  show "in_type (InternalType t) x" "in_type (InternalType t) y"
    using int_eval_in_type [OF ab(1) typed(1) assms(5)] int_eval_in_type [OF ab(2) typed(2) assms(6)] ab(3,4) by simp_all
qed

text \<open>
  C5: A compiled kernel hides an arithmetic overflow. Where the operands of \<open>+\<close>, \<open>-\<close> or \<open>*\<close> of an integer type
  (other than UHUGEINT) are in range on a row but the result is not, the interpreter's operator throws
  an out-of-range error; with the expression's own kernel in the cache and the JIT enabled,
  \<open>TryExecuteJIT\<close> reports success for the same batch, and the row is not NULL but holds the result
  reduced to the width of the type.
\<close>

theorem jit_hides_overflow:
  assumes "llvm_semantics sem" and "cache_inv (jit_cache w)" and "enable_jit (dispatcher w)"
    and "map_of (cache_view (jit_cache w)) (Fingerprint (BoundFunction t f [a, b])) = Some (Some \<lparr>cf_fn = k, cf_return_type = t\<rparr>)"
    and "build_kernel dec (BoundFunction t f [a, b]) = Inr k" and "lt_id t = lt_id (GetType res)"
    and "call_ready inputs n (BoundFunction t f [a, b])" and "j < n"
    and "arith_type (InternalType t)" and "InternalType t \<noteq> PT_UINT128"
    and "(fn_name f, OP) \<in> {(''+'', AddOperatorOverflowCheck), (''-'', SubtractOperatorOverflowCheck), (''*'', MultiplyOperatorOverflowCheck)}"
    and "arith (fn_name f) = Some g"
    and "int_eval strict_conj (input_row inputs j) a = Inr (Some x)" and "int_eval strict_conj (input_row inputs j) b = Inr (Some y)"
    and "\<not> in_type (InternalType t) (g x y)"
  shows "OP (InternalType t) x y = Inl OutOfRangeException \<and>
    (\<exists>d m w'. TryExecuteJIT env dec sem junk (BoundFunction t f [a, b]) inputs res n w = Inr (True, Flat (GetType res) d m, w') \<and>
       vec_row (Flat (GetType res) d m) j = Some (CInt (wrap (InternalType t) (g x y))))"
proof
  note row = arithmetic_kernel_row [OF assms(7,8,12,9,13,14)]
  show "OP (InternalType t) x y = Inl OutOfRangeException"
    by (rule interpreter_operator [OF assms(11,12,9,10) row(2,3) assms(15)])
  show "\<exists>d m w'. TryExecuteJIT env dec sem junk (BoundFunction t f [a, b]) inputs res n w = Inr (True, Flat (GetType res) d m, w') \<and>
       vec_row (Flat (GetType res) d m) j = Some (CInt (wrap (InternalType t) (g x y)))"
    using dispatch_cached [OF assms(1,2) _ assms(5,7,3), of "BoundFunction t f [a, b]" res env junk] assms(4,6,8) row(1) by fastforce
qed

text \<open>The witness: \<open>x + 1\<close> on the rows 41 and 2147483647 of an INTEGER column.\<close>

definition ex_overflow_inputs :: "Vector option list" where
  "ex_overflow_inputs = Some ex_col # replicate 64 None"

lemma ex_overflow_ready: "call_ready ex_overflow_inputs 2 (ex_plus 1)"
proof -
  have col: "int_column 2 PT_INT32 ex_col"
    by (auto simp: ex_col_def int_column_def scalar_type_def constant_size_type_def Mask_Reset_def ex_int_def int_type_def
        int_bits_def less_2_cases_iff in_type_def type_min_def type_max_def signed_type_def)
  have first: "ex_overflow_inputs ! 0 = Some ex_col" by (simp add: ex_overflow_inputs_def)
  have "vec_ok 2 v" if "i < MAX_COLS" "ex_overflow_inputs ! i = Some v" for i v
    using that col by (cases i) (auto simp: ex_overflow_inputs_def int_column_def)
  then show ?thesis
    using ex_plus_ok [of 1] col first by (auto simp: call_ready_def ex_defs)
qed

theorem jit_hides_overflow_witness:
  "AddOperatorOverflowCheck PT_INT32 2147483647 1 = Inl OutOfRangeException \<and>
   (\<exists>d m w'. TryExecuteJIT ex_llvm ex_dec ex_sem (\<lambda>_. 0) (ex_plus 1) ex_overflow_inputs ex_result 2 (ex_world ex_cache) =
       Inr (True, Flat ex_int d m, w') \<and> vec_row (Flat ex_int d m) 1 = Some (CInt (- 2147483648)))"
proof -
  let ?f = "\<lparr>fn_name = ''+'', fn_can_throw = True, fn_stability = FS_CONSISTENT, fn_volatile_lambda = False\<rparr>"
  have pt: "InternalType ex_int = PT_INT32" by (simp add: ex_int_def)
  have row: "int_eval strict_conj (input_row ex_overflow_inputs 1) (BoundReference ex_int 0) = Inr (Some 2147483647)"
    "int_eval strict_conj (input_row ex_overflow_inputs 1) (ex_const 1) = Inr (Some 1)"
    by (simp_all add: input_row_def ex_overflow_inputs_def ex_col_def cell_int_def Mask_Reset_def ex_const_def)
  have type: "arith_type PT_INT32" "PT_INT32 \<noteq> PT_UINT128" "\<not> in_type PT_INT32 (2147483647 + 1)"
    by (simp_all add: arith_type_def int_type_def limits)
  have "wrap PT_INT32 (2147483647 + 1) = - 2147483648"
    by (simp add: wrap_def signed_type_def int_bits_def signed_take_bit_eq_if_negative take_bit_int_def)
  moreover have "arith ''+'' = Some (+)" by (simp add: arith_def)
  ultimately show ?thesis
    using jit_hides_overflow [OF ex_sem_laws, of "ex_world ex_cache" ex_int ?f "BoundReference ex_int 0" "ex_const 1" ex_kernel ex_dec
        ex_result ex_overflow_inputs 2 1 AddOperatorOverflowCheck "(+)" 2147483647 1 ex_llvm "\<lambda>_. 0"]
      ex_overflow_ready ex_cache_view ex_kernel ex_return row type
    unfolding ex_plus_def pt by simp
qed

end
